(* ===== verification/Wal_Prelude.thy ===== *)
theory Wal_Prelude
  imports Main "HOL-Library.Word"
begin

text \<open>
  Shared vocabulary of the development: the machine integer types, little-endian byte
  encodings, byte slices and positioned writes on byte lists, saturating arithmetic on
  64-bit quantities, and the lemma collections the component theories draw on.

  Byte offsets, file sizes and buffer lengths (\<^verbatim>\<open>u64\<close> and \<^verbatim>\<open>usize\<close> of the source) are
  natural numbers, with saturation at \<^verbatim>\<open>u64::MAX\<close> written out where the source asks for
  it; log sequence numbers, checksums and the encoded length field are machine words,
  because their width is observable (exhaustion of the LSN space, truncation of a field).
\<close>

section \<open>Machine integers\<close>

type_synonym u8 = "8 word"
type_synonym u16 = "16 word"
type_synonym u32 = "32 word"
type_synonym u64 = "64 word"
type_synonym bytes = "u8 list"

named_theorems byte_simps \<open>sizes and projections of encoded bytes\<close>

definition u64_max :: nat where
  "u64_max = 2 ^ 64 - 1"

definition u32_max :: nat where
  "u32_max = 2 ^ 32 - 1"

definition saturating_add :: "nat \<Rightarrow> nat \<Rightarrow> nat" where
  "saturating_add a b = min (a + b) u64_max"

lemma saturating_add_exact: "a + b \<le> u64_max \<Longrightarrow> saturating_add a b = a + b"
  by (simp add: saturating_add_def)

lemma saturating_add_le: "saturating_add a b \<le> u64_max"
  by (simp add: saturating_add_def)

lemma unat_word_of_nat_id: "n < 2 ^ LENGTH('a) \<Longrightarrow> unat (word_of_nat n :: 'a::len word) = n"
  by (simp add: unat_of_nat)

lemma unat_u64_le: "unat (w :: u64) \<le> u64_max"
proof -
  have "unat w < 2 ^ LENGTH(64)" by (rule unsigned_less)
  then show ?thesis by (simp add: u64_max_def)
qed

lemma unat_u32_le: "unat (w :: u32) \<le> u32_max"
proof -
  have "unat w < 2 ^ LENGTH(32)" by (rule unsigned_less)
  then show ?thesis by (simp add: u32_max_def)
qed

section \<open>Slices and positioned writes\<close>

text \<open>\<open>window i j xs\<close> is the source's \<^verbatim>\<open>&xs[i..j]\<close> for \<open>i \<le> j \<le> length xs\<close>.\<close>

definition window :: "nat \<Rightarrow> nat \<Rightarrow> 'a list \<Rightarrow> 'a list" where
  "window i j xs = take (j - i) (drop i xs)"

text \<open>\<open>patch_at i bs xs\<close> overwrites the bytes of \<open>xs\<close> at \<open>i\<close> with \<open>bs\<close>
  (\<^verbatim>\<open>xs[i..i + bs.len()].copy_from_slice(bs)\<close>).\<close>

definition patch_at :: "nat \<Rightarrow> 'a list \<Rightarrow> 'a list \<Rightarrow> 'a list" where
  "patch_at i bs xs = take i xs @ bs @ drop (i + length bs) xs"

abbreviation zeros :: "nat \<Rightarrow> bytes" where
  "zeros n \<equiv> replicate n 0"

definition all_zero :: "bytes \<Rightarrow> bool" where
  "all_zero bs = list_all (\<lambda>b. b = 0) bs"

lemma length_window [simp]: "length (window i j xs) = min (j - i) (length xs - i)"
  by (simp add: window_def)

lemma window_append_left: "j \<le> length xs \<Longrightarrow> window i j (xs @ ys) = window i j xs"
  by (simp add: window_def)

lemma window_append_mid:
  "i = length xs \<Longrightarrow> j = i + length ys \<Longrightarrow> window i j (xs @ ys @ zs) = ys"
  by (simp add: window_def)

lemma window_append_right:
  "length xs \<le> i \<Longrightarrow> window i j (xs @ ys) = window (i - length xs) (j - length xs) ys"
  by (simp add: window_def)

lemma window_full: "window 0 (length xs) xs = xs"
  by (simp add: window_def)

lemma window_window:
  "j' \<le> j - i \<Longrightarrow> window i' j' (window i j xs) = window (i + i') (i + j') xs"
  by (simp add: window_def drop_take min_absorb1 diff_le_mono add.commute)

lemma window_take: "j \<le> n \<Longrightarrow> window i j (take n xs) = window i j xs"
  by (simp add: window_def drop_take)

lemma window_drop: "window i j (drop n xs) = window (n + i) (n + j) xs"
  by (simp add: window_def add.commute)

lemma window_append_window:
  assumes "i \<le> j" "j \<le> k"
  shows "window i j xs @ window j k xs = window i k xs"
proof -
  have "take (j - i) (drop i xs) @ take (k - j) (drop (j - i) (drop i xs))
      = take (j - i + (k - j)) (drop i xs)" by (simp only: take_add)
  with assms show ?thesis by (simp add: window_def)
qed

lemma length_patch_at [simp]:
  "i + length bs \<le> length xs \<Longrightarrow> length (patch_at i bs xs) = length xs"
  by (simp add: patch_at_def)

lemma patch_at_append:
  "length bs = length ys \<Longrightarrow> patch_at (length xs) bs (xs @ ys @ zs) = xs @ bs @ zs"
  by (simp add: patch_at_def)

lemma all_zero_zeros [simp]: "all_zero (zeros n)"
  by (simp add: all_zero_def list_all_iff)

lemma all_zero_Nil [simp]: "all_zero []"
  by (simp add: all_zero_def)

lemma all_zero_Cons [simp]: "all_zero (b # bs) \<longleftrightarrow> b = 0 \<and> all_zero bs"
  by (simp add: all_zero_def)

lemma all_zero_append [simp]: "all_zero (xs @ ys) \<longleftrightarrow> all_zero xs \<and> all_zero ys"
  by (simp add: all_zero_def)

lemma all_zero_conv: "all_zero bs \<longleftrightarrow> bs = zeros (length bs)"
  by (induction bs) auto

lemma window_zeros [simp]: "window i j (zeros n) = zeros (min (j - i) (n - i))"
  by (simp add: window_def)

section \<open>Little-endian bytes\<close>

text \<open>\<^verbatim>\<open>to_le_bytes\<close> and \<^verbatim>\<open>from_le_bytes\<close> of the integer types.\<close>

fun le_bytes :: "nat \<Rightarrow> nat \<Rightarrow> bytes" where
  "le_bytes 0 v = []"
| "le_bytes (Suc n) v = word_of_nat (v mod 256) # le_bytes n (v div 256)"

fun le_val :: "bytes \<Rightarrow> nat" where
  "le_val [] = 0"
| "le_val (b # bs) = unat b + 256 * le_val bs"

definition u16_to_le_bytes :: "u16 \<Rightarrow> bytes" where
  "u16_to_le_bytes w = le_bytes 2 (unat w)"

definition u32_to_le_bytes :: "u32 \<Rightarrow> bytes" where
  "u32_to_le_bytes w = le_bytes 4 (unat w)"

definition u64_to_le_bytes :: "u64 \<Rightarrow> bytes" where
  "u64_to_le_bytes w = le_bytes 8 (unat w)"

definition u16_from_le_bytes :: "bytes \<Rightarrow> u16" where
  "u16_from_le_bytes bs = word_of_nat (le_val bs)"

definition u32_from_le_bytes :: "bytes \<Rightarrow> u32" where
  "u32_from_le_bytes bs = word_of_nat (le_val bs)"

definition u64_from_le_bytes :: "bytes \<Rightarrow> u64" where
  "u64_from_le_bytes bs = word_of_nat (le_val bs)"

lemma length_le_bytes [simp]: "length (le_bytes n v) = n"
  by (induction n arbitrary: v) auto

lemma le_val_le_bytes: "le_val (le_bytes n v) = v mod 256 ^ n"
proof (induction n arbitrary: v)
  case 0
  then show ?case by simp
next
  case (Suc n)
  have "unat (word_of_nat (v mod 256) :: u8) = v mod 256"
    by (rule unat_word_of_nat_id) simp
  with Suc show ?case by (simp add: mod_mult2_eq)
qed

lemma le_val_zeros [simp]: "le_val (zeros n) = 0"
  by (induction n) auto

lemma le_bytes_le_val: "length bs = n \<Longrightarrow> le_bytes n (le_val bs) = bs"
proof (induction bs arbitrary: n)
  case Nil
  then show ?case by simp
next
  case (Cons b bs)
  have lt: "unat b < 256" using unsigned_less [of b, where ?'a = nat] by simp
  from Cons.prems obtain m where m: "n = Suc m" "length bs = m" by auto
  from Cons.IH [OF m(2)] lt m show ?case by simp
qed

lemma length_u16_to_le_bytes [simp, byte_simps]: "length (u16_to_le_bytes w) = 2"
  by (simp add: u16_to_le_bytes_def)

lemma length_u32_to_le_bytes [simp, byte_simps]: "length (u32_to_le_bytes w) = 4"
  by (simp add: u32_to_le_bytes_def)

lemma length_u64_to_le_bytes [simp, byte_simps]: "length (u64_to_le_bytes w) = 8"
  by (simp add: u64_to_le_bytes_def)

lemma u16_le_roundtrip [simp]: "u16_from_le_bytes (u16_to_le_bytes w) = w"
proof -
  have "unat w < 2 ^ LENGTH(16)" by (rule unsigned_less)
  then show ?thesis by (simp add: u16_from_le_bytes_def u16_to_le_bytes_def le_val_le_bytes)
qed

lemma u32_le_roundtrip [simp]: "u32_from_le_bytes (u32_to_le_bytes w) = w"
proof -
  have "unat w < 2 ^ LENGTH(32)" by (rule unsigned_less)
  then show ?thesis by (simp add: u32_from_le_bytes_def u32_to_le_bytes_def le_val_le_bytes)
qed

lemma u64_le_roundtrip [simp]: "u64_from_le_bytes (u64_to_le_bytes w) = w"
proof -
  have "unat w < 2 ^ LENGTH(64)" by (rule unsigned_less)
  then show ?thesis by (simp add: u64_from_le_bytes_def u64_to_le_bytes_def le_val_le_bytes)
qed

lemma le_val_bound: "le_val bs < 256 ^ length bs"
proof (induction bs)
  case Nil
  then show ?case by simp
next
  case (Cons b bs)
  have "unat b < 256" using unsigned_less [of b, where ?'a = nat] by simp
  with Cons show ?case by simp
qed

lemma u64_to_le_bytes_inverse: "length bs = 8 \<Longrightarrow> u64_to_le_bytes (u64_from_le_bytes bs) = bs"
  using le_val_bound [of bs]
  by (simp add: u64_to_le_bytes_def u64_from_le_bytes_def le_bytes_le_val unat_word_of_nat_id)

section \<open>Decimal text\<close>

text \<open>Formatting of an unsigned integer (\<^verbatim>\<open>{}\<close> and \<^verbatim>\<open>{:0w}\<close>) and \<^verbatim>\<open>str::parse::<u64>\<close>
  on a string of ASCII digits.\<close>

definition digit_char :: "nat \<Rightarrow> char" where
  "digit_char d = char_of (48 + d)"

definition digit_val :: "char \<Rightarrow> nat" where
  "digit_val c = of_char c - 48"

definition is_ascii_digit :: "char \<Rightarrow> bool" where
  "is_ascii_digit c \<longleftrightarrow> (48::nat) \<le> of_char c \<and> (of_char c :: nat) \<le> 57"

fun show_dec :: "nat \<Rightarrow> string" where
  "show_dec n = (if n < 10 then [digit_char n] else show_dec (n div 10) @ [digit_char (n mod 10)])"

declare show_dec.simps [simp del]

definition pad_dec :: "nat \<Rightarrow> nat \<Rightarrow> string" where
  "pad_dec w n = replicate (w - length (show_dec n)) (digit_char 0) @ show_dec n"

definition dec_val :: "string \<Rightarrow> nat" where
  "dec_val s = foldl (\<lambda>a c. 10 * a + digit_val c) 0 s"

definition parse_u64 :: "string \<Rightarrow> u64 option" where
  "parse_u64 s = (if dec_val s \<le> u64_max then Some (word_of_nat (dec_val s)) else None)"

lemma of_digit_char: "d < 10 \<Longrightarrow> (of_char (digit_char d) :: nat) = 48 + d"
  by (simp add: digit_char_def)

lemma digit_val_char [simp]: "d < 10 \<Longrightarrow> digit_val (digit_char d) = d"
  by (simp add: digit_val_def of_digit_char)

lemma is_ascii_digit_char [simp]: "d < 10 \<Longrightarrow> is_ascii_digit (digit_char d)"
  by (simp add: is_ascii_digit_def of_digit_char)

lemma digit_char_val: "is_ascii_digit c \<Longrightarrow> digit_char (digit_val c) = c"
  by (simp add: is_ascii_digit_def digit_char_def digit_val_def)

lemma digit_val_less: "is_ascii_digit c \<Longrightarrow> digit_val c < 10"
  unfolding is_ascii_digit_def digit_val_def by linarith

lemma dec_val_append: "dec_val (s @ [c]) = 10 * dec_val s + digit_val c"
  by (simp add: dec_val_def)

lemma dec_val_Nil [simp]: "dec_val [] = 0"
  by (simp add: dec_val_def)

lemma show_dec_digits: "list_all is_ascii_digit (show_dec n)"
proof (induction n rule: show_dec.induct)
  case (1 n)
  then show ?case by (subst show_dec.simps) simp
qed

lemma dec_val_show_dec: "dec_val (show_dec n) = n"
proof (induction n rule: show_dec.induct)
  case (1 n)
  show ?case
  proof (cases "n < 10")
    case True
    then show ?thesis by (subst show_dec.simps) (simp add: dec_val_def)
  next
    case False
    with 1 show ?thesis by (subst show_dec.simps) (simp add: dec_val_append)
  qed
qed

lemma length_show_dec: "n < 10 ^ k \<Longrightarrow> 0 < k \<Longrightarrow> length (show_dec n) \<le> k"
proof (induction n arbitrary: k rule: show_dec.induct)
  case (1 n)
  show ?case
  proof (cases "n < 10")
    case True
    with 1(3) show ?thesis by (subst show_dec.simps) simp
  next
    case False
    with 1(2,3) obtain j where j: "k = Suc j" "0 < j"
      by (cases k; cases "k - 1") auto
    have "n div 10 < 10 ^ j"
      using 1(2) j(1) by (simp add: div_less_iff_less_mult mult.commute)
    from 1(1) [OF False this j(2)] False j(1) show ?thesis
      by (subst show_dec.simps) simp
  qed
qed

lemma dec_val_replicate_zero: "dec_val (replicate k (digit_char 0) @ s) = dec_val s"
proof -
  have "foldl (\<lambda>a c. 10 * a + digit_val c) 0 (replicate k (digit_char 0)) = 0"
    by (induction k) simp_all
  then show ?thesis by (simp add: dec_val_def)
qed

lemma length_pad_dec: "n < 10 ^ w \<Longrightarrow> 0 < w \<Longrightarrow> length (pad_dec w n) = w"
  using length_show_dec [of n w] by (simp add: pad_dec_def)

lemma pad_dec_digits: "list_all is_ascii_digit (pad_dec w n)"
  by (simp add: pad_dec_def show_dec_digits list_all_iff [of _ "replicate _ _"])

lemma dec_val_pad_dec: "dec_val (pad_dec w n) = n"
  by (simp add: pad_dec_def dec_val_replicate_zero dec_val_show_dec)

text \<open>A string of digits is determined by its length and its value.\<close>

lemma dec_val_inject:
  "length s = length t \<Longrightarrow> list_all is_ascii_digit s \<Longrightarrow> list_all is_ascii_digit t \<Longrightarrow>
   dec_val s = dec_val t \<Longrightarrow> s = t"
proof (induction s arbitrary: t rule: rev_induct)
  case Nil
  then show ?case by simp
next
  case (snoc c s)
  then obtain u d where t: "t = u @ [d]" by (cases t rule: rev_cases) auto
  from snoc.prems t have "10 * dec_val s + digit_val c = 10 * dec_val u + digit_val d"
    by (simp add: dec_val_append)
  moreover from snoc.prems t have "digit_val c < 10" "digit_val d < 10"
    by (auto intro: digit_val_less)
  ultimately have eq: "dec_val s = dec_val u" "digit_val c = digit_val d"
    by arith+
  from snoc.prems t have "s = u" using snoc.IH [of u] eq(1) by simp
  moreover from snoc.prems t have "is_ascii_digit c" "is_ascii_digit d" by auto
  then have "c = d" by (metis digit_char_val eq(2))
  ultimately show ?case using t by simp
qed

end
