(* ===== verification/Wal_Lsn.thy ===== *)
theory Wal_Lsn
  imports Wal_Prelude
begin

text \<open>
  Log sequence numbers (\<^verbatim>\<open>src/lsn.rs\<close>): the newtype over \<^verbatim>\<open>u64\<close>, its reserved and first
  values, the saturating and the checked successor, and the order the source derives.
\<close>

section \<open>The type\<close>

datatype lsn = Lsn (lsn_val: u64)

definition NONE :: lsn where
  "NONE = Lsn 0"

definition FIRST :: lsn where
  "FIRST = Lsn 1"

definition checked_add :: "u64 \<Rightarrow> u64 \<Rightarrow> u64 option" where
  "checked_add a b = (if unat a + unat b \<le> u64_max then Some (a + b) else None)"

definition lsn_next :: "lsn \<Rightarrow> lsn" where
  "lsn_next l = Lsn (case checked_add (lsn_val l) 1 of Some n \<Rightarrow> n | None \<Rightarrow> - 1)"

definition checked_next :: "lsn \<Rightarrow> lsn option" where
  "checked_next l = (case checked_add (lsn_val l) 1 of Some n \<Rightarrow> Some (Lsn n) | None \<Rightarrow> None)"

definition is_none :: "lsn \<Rightarrow> bool" where
  "is_none l \<longleftrightarrow> lsn_val l = 0"

definition show_lsn :: "lsn \<Rightarrow> string" where
  "show_lsn l = show_dec (unat (lsn_val l))"

text \<open>The derived order is that of the underlying integer.\<close>

instantiation lsn :: linorder
begin

definition less_eq_lsn :: "lsn \<Rightarrow> lsn \<Rightarrow> bool" where
  "less_eq_lsn a b \<longleftrightarrow> lsn_val a \<le> lsn_val b"

definition less_lsn :: "lsn \<Rightarrow> lsn \<Rightarrow> bool" where
  "less_lsn a b \<longleftrightarrow> lsn_val a < lsn_val b"

instance
  by standard (auto simp: less_eq_lsn_def less_lsn_def intro: lsn.expand)

end

section \<open>LSNs as natural numbers\<close>

text \<open>The position of an LSN in the finite space, and the LSN at a position.\<close>

definition lsn_nat :: "lsn \<Rightarrow> nat" where
  "lsn_nat l = unat (lsn_val l)"

definition lsn_of :: "nat \<Rightarrow> lsn" where
  "lsn_of n = Lsn (word_of_nat n)"

lemma lsn_nat_le_max: "lsn_nat l \<le> u64_max"
  by (simp add: lsn_nat_def unat_u64_le)

lemma lsn_nat_of [simp]: "n \<le> u64_max \<Longrightarrow> lsn_nat (lsn_of n) = n"
  by (simp add: lsn_nat_def lsn_of_def u64_max_def unat_of_nat)

lemma lsn_of_nat [simp]: "lsn_of (lsn_nat l) = l"
  by (cases l) (simp add: lsn_nat_def lsn_of_def)

lemma lsn_nat_Lsn: "lsn_nat (Lsn w) = unat w"
  by (simp add: lsn_nat_def)

lemma lsn_le_iff: "a \<le> b \<longleftrightarrow> lsn_nat a \<le> lsn_nat b"
  by (simp add: less_eq_lsn_def lsn_nat_def word_le_nat_alt)

lemma lsn_less_iff: "a < b \<longleftrightarrow> lsn_nat a < lsn_nat b"
  by (simp add: less_lsn_def lsn_nat_def word_less_nat_alt)

lemma lsn_eq_iff: "a = b \<longleftrightarrow> lsn_nat a = lsn_nat b"
  by (cases a; cases b) (simp add: lsn_nat_def word_eq_iff_unsigned [where ?'a = nat])

lemma is_none_iff: "is_none l \<longleftrightarrow> lsn_nat l = 0"
  by (simp add: is_none_def lsn_nat_def unat_eq_0)

lemma lsn_of_inject: "a \<le> u64_max \<Longrightarrow> b \<le> u64_max \<Longrightarrow> lsn_of a = lsn_of b \<longleftrightarrow> a = b"
  by (simp add: lsn_eq_iff)

lemma checked_add_Some_nat:
  "checked_add a b = Some c \<longleftrightarrow> unat a + unat b \<le> u64_max \<and> unat c = unat a + unat b"
proof -
  have "unat a + unat b \<le> u64_max \<Longrightarrow> unat (a + b) = unat a + unat b"
    by (simp add: unat_word_ariths u64_max_def)
  then show ?thesis
    by (auto simp: checked_add_def word_eq_iff_unsigned [of _ c, where ?'a = nat])
qed

lemma checked_next_None: "checked_next l = None \<longleftrightarrow> lsn_nat l = u64_max"
  using lsn_nat_le_max [of l]
  by (auto simp: checked_next_def checked_add_def lsn_nat_def split: if_splits)

lemma checked_next_Some: "checked_next l = Some m \<longleftrightarrow> lsn_nat m = Suc (lsn_nat l)"
proof
  assume "checked_next l = Some m"
  then show "lsn_nat m = Suc (lsn_nat l)"
    by (auto simp: checked_next_def lsn_nat_def checked_add_Some_nat split: option.splits)
next
  assume a: "lsn_nat m = Suc (lsn_nat l)"
  then have "checked_add (lsn_val l) 1 = Some (lsn_val m)"
    using lsn_nat_le_max [of m] by (simp add: checked_add_Some_nat lsn_nat_def)
  then show "checked_next l = Some m" by (simp add: checked_next_def)
qed

lemma checked_next_lsn_of: "Suc n \<le> u64_max \<Longrightarrow> checked_next (lsn_of n) = Some (lsn_of (Suc n))"
  by (simp add: checked_next_Some)

lemma checked_next_max [simp]: "checked_next (lsn_of u64_max) = None"
  by (simp add: checked_next_None)

lemma lsn_next_saturates: "lsn_nat (lsn_next l) = min (Suc (lsn_nat l)) u64_max"
proof (cases "checked_add (lsn_val l) 1")
  case None
  then have "lsn_nat l = u64_max"
    using checked_next_None [of l] by (simp add: checked_next_def)
  moreover have "unat (- 1 :: u64) = u64_max" by (simp add: u64_max_def unsigned_minus_1_eq_mask mask_eq_exp_minus_1)
  ultimately show ?thesis using None by (simp add: lsn_next_def lsn_nat_Lsn)
next
  case (Some n)
  then have "unat n = Suc (lsn_nat l)" "Suc (lsn_nat l) \<le> u64_max"
    by (simp_all add: lsn_nat_def checked_add_Some_nat)
  with Some show ?thesis by (simp add: lsn_next_def lsn_nat_Lsn)
qed

lemma lsn_nat_NONE [simp]: "lsn_nat NONE = 0"
  by (simp add: NONE_def lsn_nat_def)

lemma lsn_nat_FIRST [simp]: "lsn_nat FIRST = 1"
  by (simp add: FIRST_def lsn_nat_def)

end
