(* ===== verification/Wal_Error.thy ===== *)
theory Wal_Error
  imports Wal_Lsn
begin

text \<open>
  The error type of the crate (\<^verbatim>\<open>src/error.rs\<close>): every failure of an operation is a value
  of \<open>wal_error\<close>, and an operation returns \<open>'a result\<close>. Of \<^verbatim>\<open>std::io::Error\<close> the
  source observes the kind only, so that is what \<open>io_error\<close> carries; its message text is
  the parameter \<open>show_io\<close> of the display function.
\<close>

datatype io_error =
    NotFound
  | AlreadyExists
  | UnexpectedEof
  | Interrupted
  | WouldBlock
  | Unsupported
  | OtherIo

datatype wal_error =
    Io io_error
  | Corruption (corrupt_segment: lsn) (corrupt_offset: nat) (corrupt_detail: string)
  | TornMidLog (torn_segment: lsn) (torn_offset: nat)
  | RecordTooLarge
  | InvalidConfig
  | BadSegmentHeader
  | Locked
  | FsyncFailed
  | ContiguityViolation
  | Poisoned
  | LsnExhausted

type_synonym 'a result = "wal_error + 'a"

definition from_io_error :: "io_error \<Rightarrow> wal_error" where
  "from_io_error e = Io e"

definition error_source :: "wal_error \<Rightarrow> io_error option" where
  "error_source e = (case e of Io k \<Rightarrow> Some k | _ \<Rightarrow> None)"

fun show_error :: "(io_error \<Rightarrow> string) \<Rightarrow> wal_error \<Rightarrow> string" where
  "show_error show_io (Io e) = ''I/O error: '' @ show_io e"
| "show_error show_io (Corruption seg off det) =
     ''corruption in segment '' @ show_lsn seg @ '' at offset '' @ show_dec off @ '': '' @ det"
| "show_error show_io (TornMidLog seg off) =
     ''torn record mid-log in segment '' @ show_lsn seg @ '' at offset '' @ show_dec off"
| "show_error show_io RecordTooLarge = ''record exceeds max_record_size''"
| "show_error show_io InvalidConfig = ''invalid WAL configuration''"
| "show_error show_io BadSegmentHeader = ''bad segment header''"
| "show_error show_io Locked = ''WAL directory is already locked by another writer''"
| "show_error show_io FsyncFailed = ''fsync failed; handle is poisoned''"
| "show_error show_io ContiguityViolation = ''retained segments are not contiguous''"
| "show_error show_io Poisoned = ''WAL handle is poisoned by a prior durability failure''"
| "show_error show_io LsnExhausted = ''LSN space exhausted (last LSN is u64::MAX)''"

text \<open>\<^verbatim>\<open>?\<close> on an \<^verbatim>\<open>io::Result\<close> inside a function returning the crate's \<^verbatim>\<open>Result\<close>.\<close>

definition lift_io :: "io_error + 'a \<Rightarrow> 'a result" where
  "lift_io r = (case r of Inl e \<Rightarrow> Inl (from_io_error e) | Inr a \<Rightarrow> Inr a)"

lemma lift_io_simps [simp]:
  "lift_io (Inl e) = Inl (Io e)"
  "lift_io (Inr a) = Inr a"
  by (simp_all add: lift_io_def from_io_error_def)

lemma lift_io_Inr_iff [simp]: "lift_io r = Inr a \<longleftrightarrow> r = Inr a"
  by (cases r) simp_all

end
