(* ===== verification/Wal_Record.thy ===== *)
theory Wal_Record
  imports Wal_Error
begin

text \<open>
  The record codec (\<^verbatim>\<open>src/record.rs\<close>) and the checksum chokepoint (\<^verbatim>\<open>src/crc.rs\<close>): framing
  sizes, \<open>encode_into\<close>, \<open>peek\<close> and \<open>decode\<close>. The CRC-32C computation is the crate
  \<^verbatim>\<open>crc32c\<close>, a parameter \<open>crc\<close> of every definition that computes or checks a checksum.
\<close>

section \<open>Layout\<close>

definition RECORD_HEADER_SIZE :: nat where [simp]: "RECORD_HEADER_SIZE = 20"
definition REC_TYPE_FULL :: u8 where [simp]: "REC_TYPE_FULL = 1"
definition REC_TYPE_SENTINEL :: u8 where [simp]: "REC_TYPE_SENTINEL = 0"
definition LEN_OFF :: nat where [simp]: "LEN_OFF = 4"
definition LSN_OFF :: nat where [simp]: "LSN_OFF = 8"
definition REC_TYPE_OFF :: nat where [simp]: "REC_TYPE_OFF = 16"
definition PAYLOAD_OFF :: nat where [simp]: "PAYLOAD_OFF = RECORD_HEADER_SIZE"
definition ZERO_PAD :: bytes where [simp]: "ZERO_PAD = zeros 7"

definition crc32c :: "(bytes \<Rightarrow> u32) \<Rightarrow> bytes \<Rightarrow> u32" where [simp]:
  "crc32c crc data = crc data"

definition padding_for :: "nat \<Rightarrow> nat" where
  "padding_for payload_len = (8 - ((RECORD_HEADER_SIZE + payload_len) mod 8)) mod 8"

definition padding_for_u64 :: "u64 \<Rightarrow> u64" where
  "padding_for_u64 payload_len =
     (8 - ((word_of_nat RECORD_HEADER_SIZE mod 8 + payload_len mod 8) mod 8)) mod 8"

definition framed_size :: "nat \<Rightarrow> nat" where
  "framed_size payload_len = RECORD_HEADER_SIZE + payload_len + padding_for payload_len"

definition framed_size_u64 :: "u64 \<Rightarrow> u64" where
  "framed_size_u64 payload_len =
     word_of_nat RECORD_HEADER_SIZE + payload_len + padding_for_u64 payload_len"

datatype decode_error = LengthTooLarge | BadCrc | UnknownRecType

datatype decoded =
    Record (rec_lsn: lsn) (rec_payload: bytes) (rec_framed: nat)
  | Sentinel
  | Incomplete
  | Invalid decode_error

section \<open>Encoding and decoding\<close>

definition encode_into :: "(bytes \<Rightarrow> u32) \<Rightarrow> bytes \<Rightarrow> lsn \<Rightarrow> bytes \<Rightarrow> bytes \<times> nat" where
  "encode_into crc buf l payload =
     (let len = word_of_nat (length payload) :: u32;
          pad = padding_for (length payload);
          start = length buf;
          buf1 = buf @ [0, 0, 0, 0] @ u32_to_le_bytes len @ u64_to_le_bytes (lsn_val l)
                 @ [REC_TYPE_FULL] @ [0] @ [0, 0] @ payload @ take pad ZERO_PAD;
          framed = length buf1 - start;
          c = crc32c crc (window (start + LEN_OFF) (start + framed) buf1)
      in (patch_at start (u32_to_le_bytes c) buf1, framed))"

definition peek :: "bytes \<Rightarrow> lsn \<times> nat" where
  "peek buf =
     (let len = unat (u32_from_le_bytes (window LEN_OFF (LEN_OFF + 4) buf));
          l = Lsn (u64_from_le_bytes (window LSN_OFF (LSN_OFF + 8) buf))
      in (l, framed_size len))"

definition decode :: "(bytes \<Rightarrow> u32) \<Rightarrow> bytes \<Rightarrow> nat \<Rightarrow> decoded" where
  "decode crc buf max_record_size =
     (if length buf < RECORD_HEADER_SIZE then Incomplete
      else
        let rec_type = buf ! REC_TYPE_OFF in
        if rec_type = REC_TYPE_SENTINEL \<and> all_zero (take RECORD_HEADER_SIZE buf) then Sentinel
        else
          let len = u32_from_le_bytes (window LEN_OFF (LEN_OFF + 4) buf) in
          if unat len > max_record_size then Invalid LengthTooLarge
          else
            let framed_u64 = word_of_nat RECORD_HEADER_SIZE + ucast len
                             + padding_for_u64 (ucast len) in
            if unat framed_u64 > length buf then Incomplete
            else
              let framed = unat framed_u64;
                  stored_crc = u32_from_le_bytes (window 0 4 buf);
                  computed_crc = crc32c crc (window LEN_OFF framed buf) in
              if computed_crc \<noteq> stored_crc then Invalid BadCrc
              else if rec_type \<noteq> REC_TYPE_FULL then Invalid UnknownRecType
              else Record (Lsn (u64_from_le_bytes (window LSN_OFF (LSN_OFF + 8) buf)))
                          (window PAYLOAD_OFF (PAYLOAD_OFF + unat len) buf) framed)"

section \<open>Sizes\<close>

lemma padding_for_le: "padding_for n \<le> 7"
  unfolding padding_for_def by simp

lemma round_up8_mod: "(m + (8 - m mod 8) mod 8) mod (8::nat) = 0"
proof -
  obtain q r where m: "m = 8 * q + r" and r: "r < 8"
    by (metis mod_less_divisor mult_div_mod_eq zero_less_numeral)
  then have "m mod 8 = r" by simp
  moreover have "(8 * q + r + (8 - r) mod 8) mod 8 = 0"
  proof (cases "r = 0")
    case False
    with r have "8 * q + r + (8 - r) mod 8 = 8 * (q + 1)" by simp
    then show ?thesis by (metis mod_mult_self1_is_0)
  qed simp
  ultimately show ?thesis using m by simp
qed

lemma framed_size_mod8: "framed_size n mod 8 = 0"
  using round_up8_mod [of "20 + n"] by (simp add: framed_size_def padding_for_def)

lemma framed_size_bounds: "20 + n \<le> framed_size n" "framed_size n \<le> n + 27"
  using padding_for_le [of n] by (simp_all add: framed_size_def)

lemma framed_size_ge24: "24 \<le> framed_size n"
  using framed_size_mod8 [of n] framed_size_bounds(1) [of n] by presburger

lemma padding_for_u64_nat: "unat (padding_for_u64 w) = padding_for (unat w)"
proof -
  let ?m = "unat w mod 8"
  have m: "unat (w mod 8) = ?m" by (simp add: unat_mod_distrib)
  have four: "unat (20 mod 8 :: u64) = 4" by (simp add: unat_mod_distrib)
  have s: "unat (20 mod 8 + w mod 8) = 4 + ?m"
    using four m by (simp add: unat_word_ariths(1))
  then have s': "unat ((20 mod 8 + w mod 8) mod 8) = (4 + ?m) mod 8"
    by (simp add: unat_mod_distrib)
  have le: "(20 mod 8 + w mod 8) mod 8 \<le> 8"
    unfolding word_le_nat_alt s' by simp
  have "unat (8 - (20 mod 8 + w mod 8) mod 8) = 8 - (4 + ?m) mod 8"
    using unat_sub [OF le] s' by simp
  then have "unat (padding_for_u64 w) = (8 - (4 + ?m) mod 8) mod 8"
    by (simp add: padding_for_u64_def unat_mod_distrib)
  also have "(4 + ?m) mod 8 = (20 + unat w) mod 8"
    using mod_add_eq [of 20 8 "unat w"] by simp
  also have "(8 - \<dots>) mod 8 = padding_for (unat w)"
    by (simp add: padding_for_def)
  finally show ?thesis .
qed

lemma framed_size_u64_nat:
  assumes "unat w \<le> u64_max - 27"
  shows "unat (framed_size_u64 w) = framed_size (unat w)"
proof -
  have b: "padding_for (unat w) \<le> 7" by (rule padding_for_le)
  have "unat (20 + w) = 20 + unat w"
    using assms by (simp add: unat_word_ariths(1) u64_max_def)
  then show ?thesis
    using assms b
    by (simp add: framed_size_u64_def framed_size_def unat_word_ariths(1) [of "20 + w"]
        padding_for_u64_nat u64_max_def)
qed

lemma framed_u32: "unat (framed_size_u64 (ucast (len :: u32))) = framed_size (unat len)"
proof -
  have "unat len < 2 ^ 64" using unat_u32_le [of len] by (simp add: u32_max_def)
  then have "unat (ucast len :: u64) = unat len"
    by (simp add: unsigned_ucast_eq take_bit_nat_eq_self)
  moreover have "unat len \<le> u64_max - 27"
    using unat_u32_le [of len] by (simp add: u32_max_def u64_max_def)
  ultimately show ?thesis using framed_size_u64_nat [of "ucast len"] by simp
qed

section \<open>The frame of a record\<close>

text \<open>\<open>rec_body\<close> is what the checksum covers: everything after the CRC field.\<close>

definition rec_body :: "lsn \<Rightarrow> bytes \<Rightarrow> bytes" where
  "rec_body l payload =
     u32_to_le_bytes (word_of_nat (length payload)) @ u64_to_le_bytes (lsn_val l)
     @ [1, 0, 0, 0] @ payload @ zeros (padding_for (length payload))"

definition frame :: "(bytes \<Rightarrow> u32) \<Rightarrow> lsn \<Rightarrow> bytes \<Rightarrow> bytes" where
  "frame crc l payload = u32_to_le_bytes (crc (rec_body l payload)) @ rec_body l payload"

lemma length_rec_body: "length (rec_body l p) = framed_size (length p) - 4"
  by (simp add: rec_body_def framed_size_def)

lemma length_frame [simp, byte_simps]: "length (frame crc l p) = framed_size (length p)"
  by (simp add: frame_def rec_body_def framed_size_def)

lemma frame_neq_Nil [simp]: "frame crc l p \<noteq> []"
  using framed_size_ge24 [of "length p"] length_frame [of crc l p] by fastforce

lemma encode_into_eq: "encode_into crc buf l p = (buf @ frame crc l p, framed_size (length p))"
proof -
  let ?b = "buf @ [0, 0, 0, 0] @ rec_body l p"
  have pad: "min (padding_for (length p)) 7 = padding_for (length p)"
    using padding_for_le [of "length p"] by simp
  have len: "length ?b - length buf = framed_size (length p)"
    by (simp add: length_rec_body framed_size_def)
  have fs: "framed_size (length p) = 4 + length (rec_body l p)"
    by (simp add: length_rec_body framed_size_def)
  have cov: "window (length buf + 4) (length buf + framed_size (length p)) ?b = rec_body l p"
    using window_append_mid [of "length buf + 4" "buf @ [0, 0, 0, 0]" _ "rec_body l p" "[]"] fs
    by (simp add: add.assoc)
  have spl: "patch_at (length buf) (u32_to_le_bytes c) ?b = buf @ u32_to_le_bytes c @ rec_body l p"
    for c by (rule patch_at_append) simp
  have b: "buf @ [0, 0, 0, 0] @ u32_to_le_bytes (word_of_nat (length p)) @ u64_to_le_bytes (lsn_val l)
     @ [REC_TYPE_FULL] @ [0] @ [0, 0] @ p @ take (padding_for (length p)) ZERO_PAD = ?b"
    by (simp add: rec_body_def pad)
  show ?thesis
    unfolding encode_into_def Let_def b len LEN_OFF_def cov crc32c_def spl frame_def by simp
qed

text \<open>Field projections of a frame followed by anything.\<close>

lemma frame_crc_field: "window 0 4 (frame crc l p @ r) = u32_to_le_bytes (crc (rec_body l p))"
  by (simp add: frame_def window_def)

lemma frame_len_field:
  "window 4 8 (frame crc l p @ r) = u32_to_le_bytes (word_of_nat (length p))"
  by (simp add: frame_def rec_body_def window_def)

lemma frame_lsn_field: "window 8 16 (frame crc l p @ r) = u64_to_le_bytes (lsn_val l)"
  by (simp add: frame_def rec_body_def window_def)

lemma frame_type_field: "(frame crc l p @ r) ! 16 = 1"
  by (simp add: frame_def rec_body_def nth_append)

lemma frame_covered: "window 4 (framed_size (length p)) (frame crc l p @ r) = rec_body l p"
proof -
  have "framed_size (length p) - 4 = length (rec_body l p)" by (simp add: length_rec_body)
  then show ?thesis by (simp add: frame_def window_def)
qed

lemma frame_payload_field: "window 20 (20 + length p) (frame crc l p @ r) = p"
  by (simp add: frame_def rec_body_def window_def)

lemmas frame_fields = frame_crc_field frame_len_field frame_lsn_field frame_type_field
  frame_covered frame_payload_field

lemma frame_header_nonzero: "\<not> all_zero (take 20 (frame crc l p @ r))"
proof -
  have "length (take 20 (frame crc l p @ r)) = 20" using framed_size_ge24 [of "length p"] by simp
  moreover have "take 20 (frame crc l p @ r) ! 16 = 1"
    using frame_type_field [of crc l p r] by (simp del: take_append)
  ultimately show ?thesis
    unfolding all_zero_def list_all_length by (auto intro!: exI [of _ 16] simp del: take_append)
qed

lemma unat_len_field: "n \<le> u32_max \<Longrightarrow> unat (word_of_nat n :: u32) = n"
  by (simp add: u32_max_def unat_of_nat)

text \<open>What \<open>decode\<close> accepts, as one condition.\<close>

lemma decode_framed:
  "word_of_nat RECORD_HEADER_SIZE + ucast len + padding_for_u64 (ucast len)
     = framed_size_u64 (ucast (len :: u32))"
  by (simp add: framed_size_u64_def)

lemma decode_Record_iff:
  "decode crc buf mx = Record l p n \<longleftrightarrow>
     (let len = unat (u32_from_le_bytes (window 4 8 buf)) in
        len \<le> mx \<and> n = framed_size len \<and> n \<le> length buf
        \<and> crc (window 4 n buf) = u32_from_le_bytes (window 0 4 buf)
        \<and> buf ! 16 = 1
        \<and> l = Lsn (u64_from_le_bytes (window 8 16 buf))
        \<and> p = window 20 (20 + len) buf)"
proof -
  have "framed_size k \<le> length buf \<Longrightarrow> \<not> length buf < 20" for k
    using framed_size_ge24 [of k] by simp
  then show ?thesis
    unfolding decode_def decode_framed framed_u32 Let_def
    by (auto split: if_splits)
qed

lemma decode_frame:
  assumes "length p \<le> mx" "length p \<le> u32_max"
  shows "decode crc (frame crc l p @ r) mx = Record l p (framed_size (length p))"
  unfolding decode_Record_iff Let_def
  using assms by (simp add: frame_fields unat_len_field)

lemma decode_frame_exact:
  assumes "length p \<le> mx" "length p \<le> u32_max"
  shows "decode crc (frame crc l p) mx = Record l p (framed_size (length p))"
  using decode_frame [OF assms, of crc l "[]"] by simp

lemma peek_frame:
  assumes "length p \<le> u32_max"
  shows "peek (frame crc l p @ r) = (l, framed_size (length p))"
  using assms by (simp add: peek_def frame_fields unat_len_field)

lemma decode_Record_bounds:
  assumes "decode crc buf mx = Record l p n"
  shows "length p \<le> mx" "n = framed_size (length p)" "n \<le> length buf"
proof -
  from assms obtain len where *: "len \<le> mx" "n = framed_size len" "n \<le> length buf"
    "p = window 20 (20 + len) buf"
    by (auto simp: decode_Record_iff Let_def)
  then have "length p = len" using framed_size_bounds(1) [of len] by simp
  with * show "length p \<le> mx" "n = framed_size (length p)" "n \<le> length buf" by auto
qed

text \<open>Only the record's own bytes matter.\<close>

lemma decode_Record_take:
  assumes "decode crc buf mx = Record l p n"
  shows "decode crc (take n buf @ r) mx = Record l p n"
proof -
  have n: "24 \<le> n" "n \<le> length buf"
    using assms framed_size_ge24 by (auto simp: decode_Record_iff Let_def)
  have "window i j (take n buf @ r) = window i j buf" if "j \<le> n" for i j
    using that n by (simp add: window_append_left window_take)
  moreover have "20 + unat (u32_from_le_bytes (window 4 8 buf)) \<le> n"
    using assms framed_size_bounds(1) by (auto simp: decode_Record_iff Let_def)
  ultimately show ?thesis
    using assms n by (auto simp: decode_Record_iff Let_def nth_append)
qed

lemma decode_Sentinel_iff:
  "decode crc buf mx = Sentinel \<longleftrightarrow> 20 \<le> length buf \<and> all_zero (take 20 buf)"
proof -
  have "all_zero (take 20 buf) \<Longrightarrow> 20 \<le> length buf \<Longrightarrow> buf ! 16 = 0"
    unfolding all_zero_def list_all_length by (auto dest: spec [of _ 16])
  then show ?thesis by (auto simp: decode_def Let_def)
qed

text \<open>\<open>decode\<close> without the machine arithmetic.\<close>

lemma decode_eq:
  "decode crc buf mx =
     (if length buf < 20 then Incomplete
      else if all_zero (take 20 buf) then Sentinel
      else let len = unat (u32_from_le_bytes (window 4 8 buf)) in
        if mx < len then Invalid LengthTooLarge
        else if length buf < framed_size len then Incomplete
        else if crc (window 4 (framed_size len) buf) \<noteq> u32_from_le_bytes (window 0 4 buf)
          then Invalid BadCrc
        else if buf ! 16 \<noteq> 1 then Invalid UnknownRecType
        else Record (Lsn (u64_from_le_bytes (window 8 16 buf))) (window 20 (20 + len) buf)
               (framed_size len))"
proof -
  have "all_zero (take 20 buf) \<Longrightarrow> 20 \<le> length buf \<Longrightarrow> buf ! 16 = 0"
    unfolding all_zero_def list_all_length by (auto dest: spec [of _ 16])
  then show ?thesis
    unfolding decode_def decode_framed framed_u32 Let_def by auto
qed

lemma decode_take:
  assumes k: "framed_size (unat (u32_from_le_bytes (window 4 8 buf))) \<le> k" "k \<le> length buf"
  shows "decode crc (take k buf) mx = decode crc buf mx"
proof -
  let ?len = "unat (u32_from_le_bytes (window 4 8 buf))"
  have 24: "24 \<le> k" "20 + ?len \<le> k"
    using framed_size_ge24 [of ?len] framed_size_bounds(1) [of ?len] k by simp_all
  have w: "window i j (take k buf) = window i j buf" if "j \<le> k" for i j
    using that by (rule window_take)
  from 24 k show ?thesis
    unfolding decode_eq by (simp add: w Let_def min_def)
qed

end
