(* ===== verification/Wal_Platform.thy ===== *)
theory Wal_Platform
  imports Wal_Error "HOL-Library.AList"
begin

text \<open>
  The platform the crate runs on: what it uses of \<^verbatim>\<open>std::fs\<close> and of the system calls
  behind it. An open file is its bytes as the page cache has them (\<open>fdata\<close>), its bytes
  as of the last successful sync (\<open>fsynced\<close>), and the byte offsets a read of which fails
  (\<open>fbad\<close>, media errors). A directory is a list of named files, in the order
  \<^verbatim>\<open>read_dir\<close> lists them, and the name changes made since its last \<^verbatim>\<open>fsync\<close>.

  Every call that may fail takes its outcome from a script of faults, which is arbitrary:
  an empty script is a platform without failures. A failing write says how many bytes it
  wrote before it failed. A file is addressed by its name: the crate uses a handle only
  while its name is linked.
\<close>

section \<open>Faults\<close>

datatype fault = NoFault | Fault io_error nat

type_synonym faults = "fault list"

fun next_fault :: "faults \<Rightarrow> fault \<times> faults" where
  "next_fault [] = (NoFault, [])"
| "next_fault (x # xs) = (x, xs)"

section \<open>Files\<close>

record osfile =
  fdata :: bytes
  fsynced :: bytes
  fbad :: "nat list"

definition empty_file :: osfile where
  "empty_file = \<lparr>fdata = [], fsynced = [], fbad = []\<rparr>"

definition healthy :: "osfile \<Rightarrow> bool" where
  "healthy f \<longleftrightarrow> fbad f = []"

definition pwrite :: "nat \<Rightarrow> bytes \<Rightarrow> bytes \<Rightarrow> bytes" where
  "pwrite off bs xs =
     (if bs = [] then xs
      else take off (xs @ zeros (off - length xs)) @ bs @ drop (off + length bs) xs)"

definition unreadable :: "osfile \<Rightarrow> nat \<Rightarrow> nat \<Rightarrow> bool" where
  "unreadable f off n \<longleftrightarrow> list_ex (\<lambda>b. off \<le> b \<and> b < off + n \<and> b < length (fdata f)) (fbad f)"

text \<open>\<open>pread\<close> is one \<^verbatim>\<open>read_at\<close> call: as many of the \<open>n\<close> bytes as the file has.\<close>

definition pread :: "osfile \<Rightarrow> nat \<Rightarrow> nat \<Rightarrow> io_error + bytes" where
  "pread f off n =
     (if unreadable f off n then Inl OtherIo else Inr (window off (off + n) (fdata f)))"

definition read_exact_at :: "osfile \<Rightarrow> nat \<Rightarrow> nat \<Rightarrow> io_error + bytes" where
  "read_exact_at f off n =
     (case pread f off n of
        Inl e \<Rightarrow> Inl e
      | Inr bs \<Rightarrow> if length bs < n then Inl UnexpectedEof else Inr bs)"

definition write_all_at :: "osfile \<Rightarrow> nat \<Rightarrow> bytes \<Rightarrow> faults \<Rightarrow> (io_error + unit) \<times> osfile \<times> faults" where
  "write_all_at f off bs flts =
     (case next_fault flts of
        (NoFault, r) \<Rightarrow> (Inr (), f\<lparr>fdata := pwrite off bs (fdata f)\<rparr>, r)
      | (Fault e k, r) \<Rightarrow> (Inl e, f\<lparr>fdata := pwrite off (take k bs) (fdata f)\<rparr>, r))"

definition sync_data :: "osfile \<Rightarrow> faults \<Rightarrow> (io_error + unit) \<times> osfile \<times> faults" where
  "sync_data f flts =
     (case next_fault flts of
        (NoFault, r) \<Rightarrow> (Inr (), f\<lparr>fsynced := fdata f\<rparr>, r)
      | (Fault e k, r) \<Rightarrow> (Inl e, f, r))"

definition fallocate :: "osfile \<Rightarrow> nat \<Rightarrow> faults \<Rightarrow> (io_error + unit) \<times> osfile \<times> faults" where
  "fallocate f n flts =
     (case next_fault flts of
        (NoFault, r) \<Rightarrow> (Inr (), f\<lparr>fdata := fdata f @ zeros (n - length (fdata f))\<rparr>, r)
      | (Fault e k, r) \<Rightarrow> (Inl e, f, r))"

definition metadata_len :: "osfile \<Rightarrow> faults \<Rightarrow> (io_error + nat) \<times> faults" where
  "metadata_len f flts =
     (case next_fault flts of
        (NoFault, r) \<Rightarrow> (Inr (length (fdata f)), r)
      | (Fault e k, r) \<Rightarrow> (Inl e, r))"

lemmas file_op_defs = write_all_at_def sync_data_def fallocate_def metadata_len_def

lemma sync_data_cases:
  obtains q where "sync_data f flts = (Inr (), f\<lparr>fsynced := fdata f\<rparr>, q)"
  | e q where "sync_data f flts = (Inl e, f, q)"
  by (cases "next_fault flts"; cases "fst (next_fault flts)") (auto simp: sync_data_def)

lemma write_all_at_cases:
  obtains q where "write_all_at f off bs flts = (Inr (), f\<lparr>fdata := pwrite off bs (fdata f)\<rparr>, q)"
  | e k q where "write_all_at f off bs flts = (Inl e, f\<lparr>fdata := pwrite off (take k bs) (fdata f)\<rparr>, q)"
  by (cases "next_fault flts"; cases "fst (next_fault flts)") (auto simp: write_all_at_def)

lemma pread_healthy [simp]: "healthy f \<Longrightarrow> pread f off n = Inr (window off (off + n) (fdata f))"
  by (simp add: healthy_def pread_def unreadable_def)

lemma healthy_update [simp]:
  "healthy (f\<lparr>fdata := d\<rparr>) = healthy f" "healthy (f\<lparr>fsynced := s\<rparr>) = healthy f"
  by (simp_all add: healthy_def)

lemma healthy_empty [simp]: "healthy empty_file"
  by (simp add: healthy_def empty_file_def)

lemma length_pwrite: "bs \<noteq> [] \<Longrightarrow> length (pwrite off bs xs) = max (length xs) (off + length bs)"
  by (simp add: pwrite_def)

lemma pwrite_inside:
  "off \<le> length xs \<Longrightarrow> pwrite off bs xs = take off xs @ bs @ drop (off + length bs) xs"
  by (simp add: pwrite_def)

lemma take_pwrite: "off \<le> length xs \<Longrightarrow> n \<le> off \<Longrightarrow> take n (pwrite off bs xs) = take n xs"
  by (simp add: pwrite_inside min_absorb1)

lemma pwrite_Nil [simp]: "pwrite off [] xs = xs"
  by (simp add: pwrite_def)

lemma pwrite_pwrite: "pwrite (off + length a) b (pwrite off a xs) = pwrite off (a @ b) xs"
proof (cases "a = [] \<or> b = []")
  case False
  let ?p = "take off (xs @ zeros (off - length xs))"
  have lp: "length ?p = off" by simp
  have "pwrite off a xs = ?p @ a @ drop (off + length a) xs" using False by (simp add: pwrite_def)
  moreover have "take (off + length a) ((?p @ a @ drop (off + length a) xs)
      @ zeros (off + length a - length (?p @ a @ drop (off + length a) xs))) = ?p @ a"
    using lp by simp
  moreover have "drop (off + length a + length b) (?p @ a @ drop (off + length a) xs)
      = drop (off + length (a @ b)) xs"
    using lp by (simp add: add.commute add.left_commute)
  ultimately show ?thesis using False by (simp add: pwrite_def)
qed auto

text \<open>A file whose contents are all on disk.\<close>

definition disk_file :: "bytes \<Rightarrow> osfile" where
  "disk_file bs = \<lparr>fdata = bs, fsynced = bs, fbad = []\<rparr>"

lemma disk_file_simps [simp]:
  "fdata (disk_file bs) = bs" "fsynced (disk_file bs) = bs" "healthy (disk_file bs)"
  by (simp_all add: disk_file_def healthy_def)

section \<open>Directories\<close>

datatype dirop = Linked string | Unlinked string osfile

record disk =
  entries :: "(string \<times> osfile) list"
  pending :: "dirop list"
  dfaults :: faults
  lock_held :: bool

definition file_of :: "disk \<Rightarrow> string \<Rightarrow> osfile" where
  "file_of d name = (case map_of (entries d) name of Some f \<Rightarrow> f | None \<Rightarrow> empty_file)"

definition put_file :: "string \<Rightarrow> osfile \<Rightarrow> faults \<Rightarrow> disk \<Rightarrow> disk" where
  "put_file name f flts d = d\<lparr>entries := AList.update name f (entries d), dfaults := flts\<rparr>"

definition open_file :: "string \<Rightarrow> disk \<Rightarrow> (io_error + osfile) \<times> disk" where
  "open_file name d =
     (case next_fault (dfaults d) of
        (NoFault, r) \<Rightarrow>
          (case map_of (entries d) name of
             None \<Rightarrow> (Inl NotFound, d\<lparr>dfaults := r\<rparr>)
           | Some f \<Rightarrow> (Inr f, d\<lparr>dfaults := r\<rparr>))
      | (Fault e k, r) \<Rightarrow> (Inl e, d\<lparr>dfaults := r\<rparr>))"

definition create_new :: "string \<Rightarrow> disk \<Rightarrow> (io_error + osfile) \<times> disk" where
  "create_new name d =
     (case next_fault (dfaults d) of
        (NoFault, r) \<Rightarrow>
          (case map_of (entries d) name of
             None \<Rightarrow> (Inr empty_file,
                      d\<lparr>entries := entries d @ [(name, empty_file)],
                        pending := pending d @ [Linked name], dfaults := r\<rparr>)
           | Some f \<Rightarrow> (Inl AlreadyExists, d\<lparr>dfaults := r\<rparr>))
      | (Fault e k, r) \<Rightarrow> (Inl e, d\<lparr>dfaults := r\<rparr>))"

text \<open>\<open>NotFound\<close> is reported for an absent name only: the caller tolerates that error.\<close>

definition remove_file :: "string \<Rightarrow> disk \<Rightarrow> (io_error + unit) \<times> disk" where
  "remove_file name d =
     (case next_fault (dfaults d) of
        (NoFault, r) \<Rightarrow>
          (case map_of (entries d) name of
             None \<Rightarrow> (Inl NotFound, d\<lparr>dfaults := r\<rparr>)
           | Some f \<Rightarrow> (Inr (),
                        d\<lparr>entries := AList.delete name (entries d),
                          pending := pending d @ [Unlinked name f], dfaults := r\<rparr>))
      | (Fault e k, r) \<Rightarrow> (Inl (if e = NotFound then OtherIo else e), d\<lparr>dfaults := r\<rparr>))"

text \<open>A call whose only effect on the model is that it may fail.\<close>

definition may_fail :: "disk \<Rightarrow> (io_error + unit) \<times> disk" where
  "may_fail d =
     (case next_fault (dfaults d) of
        (NoFault, r) \<Rightarrow> (Inr (), d\<lparr>dfaults := r\<rparr>)
      | (Fault e k, r) \<Rightarrow> (Inl e, d\<lparr>dfaults := r\<rparr>))"

definition fsync_directory :: "disk \<Rightarrow> (io_error + unit) \<times> disk" where
  "fsync_directory d =
     (case may_fail d of
        (Inl e, d') \<Rightarrow> (Inl e, d')
      | (Inr _, d') \<Rightarrow> (Inr (), d'\<lparr>pending := []\<rparr>))"

definition flock :: "disk \<Rightarrow> (io_error + unit) \<times> disk" where
  "flock d =
     (case may_fail d of
        (Inl e, d') \<Rightarrow> (Inl e, d')
      | (Inr _, d') \<Rightarrow>
          if lock_held d' then (Inl WouldBlock, d') else (Inr (), d'\<lparr>lock_held := True\<rparr>))"

lemma may_fail_cases:
  obtains q where "may_fail d = (Inr (), d\<lparr>dfaults := q\<rparr>)"
  | e q where "may_fail d = (Inl e, d\<lparr>dfaults := q\<rparr>)"
  by (cases "next_fault (dfaults d)"; cases "fst (next_fault (dfaults d))") (auto simp: may_fail_def)

lemmas dir_op_defs = open_file_def create_new_def remove_file_def may_fail_def
  fsync_directory_def flock_def

section \<open>Crashes\<close>

text \<open>
  A process crash loses the handle and keeps the disk. A power loss also loses cached
  state: of the name changes since the last directory sync a prefix survives, in order,
  and each file comes back as some mixture of its synced and its cached bytes, decided
  byte by byte, with a size between the two.
\<close>

definition byte_at :: "bytes \<Rightarrow> nat \<Rightarrow> u8" where
  "byte_at xs i = (if i < length xs then xs ! i else 0)"

definition crash_mix :: "bytes \<Rightarrow> bytes \<Rightarrow> bytes \<Rightarrow> bool" where
  "crash_mix old new c \<longleftrightarrow>
     min (length old) (length new) \<le> length c \<and> length c \<le> max (length old) (length new)
     \<and> (\<forall>i < length c. c ! i = byte_at old i \<or> c ! i = byte_at new i)"

fun undo_dirop :: "dirop \<Rightarrow> (string \<times> osfile) list \<Rightarrow> (string \<times> osfile) list" where
  "undo_dirop (Linked n) es = AList.delete n es"
| "undo_dirop (Unlinked n f) es = AList.update n f es"

definition crash_entries :: "nat \<Rightarrow> disk \<Rightarrow> (string \<times> osfile) list" where
  "crash_entries k d = foldr undo_dirop (drop k (pending d)) (entries d)"

definition crash_file :: "osfile \<Rightarrow> osfile \<Rightarrow> bool" where
  "crash_file f g \<longleftrightarrow> fbad g = fbad f \<and> fsynced g = fdata g \<and> crash_mix (fsynced f) (fdata f) (fdata g)"

definition power_loss :: "disk \<Rightarrow> disk \<Rightarrow> bool" where
  "power_loss d d' \<longleftrightarrow>
     (\<exists>k \<le> length (pending d).
        list_all2 (\<lambda>(n, f) (n', g). n' = n \<and> crash_file f g) (crash_entries k d) (entries d'))
     \<and> pending d' = [] \<and> \<not> lock_held d'"

lemma crash_mix_refl: "crash_mix xs xs c \<longleftrightarrow> c = xs"
  by (auto simp: crash_mix_def byte_at_def intro: nth_equalityI)

lemma crash_file_synced: "fsynced f = fdata f \<Longrightarrow> crash_file f g \<longleftrightarrow> g = f"
  by (cases f; cases g) (auto simp: crash_file_def crash_mix_refl)

end
