(* ===== verification/Wal_Segment.thy ===== *)
theory Wal_Segment
  imports Wal_Record Wal_Platform
begin

text \<open>
  Segments (\<^verbatim>\<open>src/segment.rs\<close>): the 64-byte header, file names, creation and
  pre-allocation, the record scanner \<open>read_record_at\<close> that recovery and the reader
  share, and the durable zeroing of a truncated tail.
\<close>

section \<open>Header and file names\<close>

definition HEADER_SIZE :: nat where [simp]: "HEADER_SIZE = 64"

text \<open>\<^verbatim>\<open>WAL\0SEG1\<close>\<close>

definition MAGIC :: bytes where [simp]: "MAGIC = [0x57, 0x41, 0x4C, 0, 0x53, 0x45, 0x47, 0x31]"
definition FORMAT_VERSION :: u16 where [simp]: "FORMAT_VERSION = 1"
definition VERSION_OFF :: nat where [simp]: "VERSION_OFF = 8"
definition FLAGS_OFF :: nat where [simp]: "FLAGS_OFF = 10"
definition BASE_LSN_OFF :: nat where [simp]: "BASE_LSN_OFF = 12"
definition CREATED_OFF :: nat where [simp]: "CREATED_OFF = 20"
definition HEADER_CRC_OFF :: nat where [simp]: "HEADER_CRC_OFF = 60"

record segment_header =
  base_lsn :: lsn

definition encode_header :: "(bytes \<Rightarrow> u32) \<Rightarrow> lsn \<Rightarrow> u64 \<Rightarrow> bytes" where
  "encode_header crc base created =
     (let h = zeros HEADER_SIZE;
          h = patch_at 0 MAGIC h;
          h = patch_at VERSION_OFF (u16_to_le_bytes FORMAT_VERSION) h;
          h = patch_at BASE_LSN_OFF (u64_to_le_bytes (lsn_val base)) h;
          h = patch_at CREATED_OFF (u64_to_le_bytes created) h;
          c = crc32c crc (window 0 HEADER_CRC_OFF h)
      in patch_at HEADER_CRC_OFF (u32_to_le_bytes c) h)"

definition decode_header :: "(bytes \<Rightarrow> u32) \<Rightarrow> bytes \<Rightarrow> segment_header result" where
  "decode_header crc bs =
     (if length bs < HEADER_SIZE then Inl BadSegmentHeader
      else if window 0 8 bs \<noteq> MAGIC then Inl BadSegmentHeader
      else
        let stored_crc = u32_from_le_bytes (window HEADER_CRC_OFF (HEADER_CRC_OFF + 4) bs) in
        if crc32c crc (window 0 HEADER_CRC_OFF bs) \<noteq> stored_crc then Inl BadSegmentHeader
        else
          let version = u16_from_le_bytes (window VERSION_OFF (VERSION_OFF + 2) bs) in
          if version \<noteq> FORMAT_VERSION then Inl BadSegmentHeader
          else
            let base = Lsn (u64_from_le_bytes (window BASE_LSN_OFF (BASE_LSN_OFF + 8) bs)) in
            if is_none base then Inl BadSegmentHeader
            else Inr \<lparr>base_lsn = base\<rparr>)"

definition filename_for :: "lsn \<Rightarrow> string" where
  "filename_for base = pad_dec 20 (unat (lsn_val base)) @ ''.wal''"

definition strip_suffix :: "string \<Rightarrow> string \<Rightarrow> string option" where
  "strip_suffix suf s =
     (if length suf \<le> length s \<and> drop (length s - length suf) s = suf
      then Some (take (length s - length suf) s) else None)"

definition parse_base_lsn :: "string \<Rightarrow> u64 option" where
  "parse_base_lsn name =
     (case strip_suffix ''.wal'' name of
        None \<Rightarrow> None
      | Some digits \<Rightarrow>
          if length digits \<noteq> 20 \<or> \<not> list_all is_ascii_digit digits then None
          else parse_u64 digits)"

section \<open>Syncing, zeroing, creating\<close>

definition sync_data_fully :: "osfile \<Rightarrow> faults \<Rightarrow> (io_error + unit) \<times> osfile \<times> faults" where
  "sync_data_fully f flts = sync_data f flts"

definition CHUNK :: nat where [simp]: "CHUNK = 64 * 1024"

function write_zeros :: "osfile \<Rightarrow> nat \<Rightarrow> nat \<Rightarrow> faults \<Rightarrow> (io_error + unit) \<times> osfile \<times> faults" where
  "write_zeros f off to_off flts =
     (if off < to_off then
        let n = min CHUNK (to_off - off) in
        case write_all_at f off (zeros n) flts of
          (Inl e, f', r) \<Rightarrow> (Inl e, f', r)
        | (Inr _, f', r) \<Rightarrow> write_zeros f' (off + n) to_off r
      else (Inr (), f, flts))"
  by pat_completeness auto
termination
  by (relation "measure (\<lambda>(f, off, to_off, flts). to_off - off)") auto

declare write_zeros.simps [simp del]

definition zero_to_eof :: "osfile \<Rightarrow> nat \<Rightarrow> nat \<Rightarrow> faults \<Rightarrow> unit result \<times> osfile \<times> faults" where
  "zero_to_eof f from segment_size flts =
     (case write_zeros f from segment_size flts of
        (Inl e, f', r) \<Rightarrow> (Inl (Io e), f', r)
      | (Inr _, f', r) \<Rightarrow>
          (case sync_data_fully f' r of
             (Inl e, f'', r') \<Rightarrow> (Inl FsyncFailed, f'', r')
           | (Inr _, f'', r') \<Rightarrow> (Inr (), f'', r')))"

text \<open>\<open>created_unix_nanos\<close> is the wall clock (0 when it is before the epoch): an input.
  \<open>preallocate\<close> and \<open>init_segment\<close> are the part of \<open>create\<close> that works on the
  new, still empty file.\<close>

definition preallocate :: "osfile \<Rightarrow> nat \<Rightarrow> faults \<Rightarrow> unit result \<times> osfile \<times> faults" where
  "preallocate f segment_size flts =
     (case fallocate f segment_size flts of
        (Inr _, f', r) \<Rightarrow> (Inr (), f', r)
      | (Inl Unsupported, f', r) \<Rightarrow>
          (case write_zeros f' 0 segment_size r of
             (Inl e, f'', r') \<Rightarrow> (Inl (Io e), f'', r')
           | (Inr _, f'', r') \<Rightarrow> (Inr (), f'', r'))
      | (Inl e, f', r) \<Rightarrow> (Inl (Io e), f', r))"

definition init_segment ::
    "(bytes \<Rightarrow> u32) \<Rightarrow> u64 \<Rightarrow> lsn \<Rightarrow> nat \<Rightarrow> osfile \<Rightarrow> faults \<Rightarrow> unit result \<times> osfile \<times> faults" where
  "init_segment crc created base segment_size f flts =
     (case preallocate f segment_size flts of
        (Inl e, f', r) \<Rightarrow> (Inl e, f', r)
      | (Inr _, f', r) \<Rightarrow>
          (case write_all_at f' 0 (encode_header crc base created) r of
             (Inl e, f'', r') \<Rightarrow> (Inl (Io e), f'', r')
           | (Inr _, f'', r') \<Rightarrow>
               (case sync_data_fully f'' r' of
                  (Inl e, g, s) \<Rightarrow> (Inl (Io e), g, s)
                | (Inr _, g, s) \<Rightarrow> (Inr (), g, s))))"

definition create :: "(bytes \<Rightarrow> u32) \<Rightarrow> u64 \<Rightarrow> lsn \<Rightarrow> nat \<Rightarrow> disk \<Rightarrow> unit result \<times> disk" where
  "create crc created base segment_size d =
     (let name = filename_for base in
      case create_new name d of
        (Inl e, d1) \<Rightarrow> (Inl (Io e), d1)
      | (Inr f, d1) \<Rightarrow>
          (case init_segment crc created base segment_size f (dfaults d1) of
             (res, f', r) \<Rightarrow> (res, put_file name f' r d1)))"

section \<open>The record scanner\<close>

datatype scan_outcome = ScanRecord lsn nat nat | CleanEnd | ScanInvalid

text \<open>
  \<open>read_full_at ks f off n acc\<close>: the loop that fills a buffer of \<open>n\<close> bytes, of which
  \<open>acc\<close> are filled. The kernel's behaviour is the list \<open>ks\<close>: 0 is an interrupted
  call, a positive number bounds what that call returns; after the list every call returns
  all it can. \<open>None\<close> is the short read (end of file before the buffer is full).
\<close>

function read_full_at :: "nat list \<Rightarrow> osfile \<Rightarrow> nat \<Rightarrow> nat \<Rightarrow> bytes \<Rightarrow> io_error + bytes option" where
  "read_full_at ks f off n acc =
     (if length acc < n then
        (case ks of
           0 # ks' \<Rightarrow> read_full_at ks' f off n acc
         | _ \<Rightarrow>
             let lim = (case ks of [] \<Rightarrow> n - length acc | k # _ \<Rightarrow> min k (n - length acc)) in
             (case pread f (off + length acc) lim of
                Inl e \<Rightarrow> Inl e
              | Inr bs \<Rightarrow> if bs = [] then Inr None else read_full_at (tl ks) f off n (acc @ bs)))
      else Inr (Some acc))"
  by pat_completeness auto
termination
proof (relation "measures [\<lambda>(ks, f, off, n, acc). n - length acc, \<lambda>(ks, f, off, n, acc). length ks]",
    goal_cases)
  case 1
  then show ?case by simp
qed (auto simp: neq_Nil_conv split: list.splits)

declare read_full_at.simps [simp del]

definition read_full :: "osfile \<Rightarrow> nat \<Rightarrow> nat \<Rightarrow> io_error + bytes option" where
  "read_full f off n = read_full_at [] f off n []"

text \<open>The result carries the outcome and the contents of the reused buffer.\<close>

definition read_record_at ::
    "(bytes \<Rightarrow> u32) \<Rightarrow> osfile \<Rightarrow> nat \<Rightarrow> nat \<Rightarrow> nat \<Rightarrow> (scan_outcome \<times> bytes) result" where
  "read_record_at crc f off segment_size max_record_size =
     (let remaining = segment_size - off in
      if remaining < RECORD_HEADER_SIZE then Inr (CleanEnd, [])
      else
        case read_full f off RECORD_HEADER_SIZE of
          Inl e \<Rightarrow> Inl (Io e)
        | Inr None \<Rightarrow> Inr (ScanInvalid, [])
        | Inr (Some hdr) \<Rightarrow>
            if decode crc hdr max_record_size = Sentinel then Inr (CleanEnd, hdr)
            else
              let len = u32_from_le_bytes (window 4 8 hdr) in
              if unat len > max_record_size then Inr (ScanInvalid, hdr)
              else
                let framed = unat (framed_size_u64 (ucast len)) in
                if framed > remaining then Inr (ScanInvalid, hdr)
                else
                  case read_full f (off + RECORD_HEADER_SIZE) (framed - RECORD_HEADER_SIZE) of
                    Inl e \<Rightarrow> Inl (Io e)
                  | Inr None \<Rightarrow> Inr (ScanInvalid, hdr)
                  | Inr (Some rest) \<Rightarrow>
                      let buf = hdr @ rest in
                      (case decode crc buf max_record_size of
                         Record l payload framed_len \<Rightarrow>
                           Inr (ScanRecord l (length payload) framed_len, buf)
                       | _ \<Rightarrow> Inr (ScanInvalid, buf)))"

section \<open>Facts about headers and names\<close>

definition header_body :: "lsn \<Rightarrow> u64 \<Rightarrow> bytes" where
  "header_body base created =
     MAGIC @ u16_to_le_bytes FORMAT_VERSION @ [0, 0] @ u64_to_le_bytes (lsn_val base)
     @ u64_to_le_bytes created @ zeros 32"

lemma length_header_body [simp]: "length (header_body base created) = 60"
  by (simp add: header_body_def)

lemma patch_at_0: "patch_at 0 bs xs = bs @ drop (length bs) xs"
  by (simp add: patch_at_def)

lemma patch_at_zeros:
  "i = length xs \<Longrightarrow> length bs \<le> n \<Longrightarrow>
   patch_at i bs (xs @ zeros n) = xs @ bs @ zeros (n - length bs)"
  by (simp add: patch_at_def)

lemma encode_header_eq:
  "encode_header crc base created =
     header_body base created @ u32_to_le_bytes (crc (header_body base created))"
proof -
  let ?v = "u16_to_le_bytes FORMAT_VERSION" and ?b = "u64_to_le_bytes (lsn_val base)"
    and ?c = "u64_to_le_bytes created"
  have 1: "patch_at 0 MAGIC (zeros 64) = MAGIC @ zeros 56"
    by (simp add: patch_at_0)
  have 2: "patch_at 8 ?v (MAGIC @ zeros 56) = MAGIC @ ?v @ zeros 54"
    by (subst patch_at_zeros) simp_all
  have z: "zeros 54 = [0, 0] @ zeros 52" by (simp add: numeral_eq_Suc)
  have 3: "patch_at 12 ?b ((MAGIC @ ?v @ [0, 0]) @ zeros 52) = (MAGIC @ ?v @ [0, 0]) @ ?b @ zeros 44"
    by (subst patch_at_zeros) simp_all
  have 4: "patch_at 20 ?c ((MAGIC @ ?v @ [0, 0] @ ?b) @ zeros 44)
      = (MAGIC @ ?v @ [0, 0] @ ?b) @ ?c @ zeros 36"
    by (subst patch_at_zeros) simp_all
  have zz: "zeros 36 = zeros 32 @ zeros 4" by (simp add: replicate_add [symmetric])
  have 5: "(MAGIC @ ?v @ [0, 0] @ ?b) @ ?c @ zeros 36 = header_body base created @ zeros 4"
    unfolding header_body_def zz by (simp only: append_assoc)
  have 6: "window 0 60 (header_body base created @ zeros 4) = header_body base created"
    by (simp add: window_def)
  have 7: "patch_at 60 (u32_to_le_bytes c) (header_body base created @ zeros 4)
      = header_body base created @ u32_to_le_bytes c" for c
    by (subst patch_at_zeros) simp_all
  show ?thesis
    unfolding encode_header_def Let_def HEADER_SIZE_def VERSION_OFF_def BASE_LSN_OFF_def
      CREATED_OFF_def HEADER_CRC_OFF_def crc32c_def 1 2 z
    using 3 4 5 6 7 by (simp only: append_assoc)
qed

lemma length_encode_header [simp, byte_simps]: "length (encode_header crc base created) = 64"
  by (simp add: encode_header_eq)

lemma encode_header_neq_Nil [simp]: "encode_header crc base created \<noteq> []"
  using length_encode_header [of crc base created] by fastforce

lemma decode_encode_header:
  assumes "\<not> is_none base"
  shows "decode_header crc (encode_header crc base created) = Inr \<lparr>base_lsn = base\<rparr>"
proof -
  let ?h = "encode_header crc base created"
  have magic: "window 0 8 ?h = MAGIC"
    by (simp add: encode_header_eq header_body_def window_def)
  have body: "window 0 60 ?h = header_body base created"
    by (simp add: encode_header_eq window_def)
  have crcf: "window 60 64 ?h = u32_to_le_bytes (crc (header_body base created))"
    by (simp add: encode_header_eq window_def)
  have ver: "window 8 10 ?h = u16_to_le_bytes 1"
    by (simp add: encode_header_eq header_body_def window_def)
  have bas: "window 12 20 ?h = u64_to_le_bytes (lsn_val base)"
    by (simp add: encode_header_eq header_body_def window_def)
  show ?thesis
    using assms magic body crcf ver bas
    by (simp add: decode_header_def del: MAGIC_def)
qed

lemma decode_header_base: "decode_header crc bs = Inr h \<Longrightarrow> \<not> is_none (base_lsn h)"
  by (auto simp: decode_header_def Let_def split: if_splits)

lemma lsn_less_10_20: "unat (w :: u64) < 10 ^ 20"
  using unat_u64_le [of w] by (simp add: u64_max_def)

lemma length_pad20: "length (pad_dec 20 (unat (w :: u64))) = 20"
  by (rule length_pad_dec [OF lsn_less_10_20]) simp

lemma strip_suffix_append: "strip_suffix suf (s @ suf) = Some s"
  by (simp add: strip_suffix_def)

lemma strip_suffix_Some: "strip_suffix suf s = Some u \<longleftrightarrow> s = u @ suf"
proof
  assume "strip_suffix suf s = Some u"
  then show "s = u @ suf"
    by (auto simp: strip_suffix_def split: if_splits)
      (metis append_take_drop_id)
qed (simp add: strip_suffix_append)

lemma parse_filename_for: "parse_base_lsn (filename_for l) = Some (lsn_val l)"
proof -
  let ?n = "unat (lsn_val l)"
  have "length (pad_dec 20 ?n) = 20" by (rule length_pad20)
  moreover have "parse_u64 (pad_dec 20 ?n) = Some (lsn_val l)"
    using unat_u64_le [of "lsn_val l"] by (simp add: parse_u64_def dec_val_pad_dec)
  ultimately show ?thesis
    by (simp add: parse_base_lsn_def filename_for_def strip_suffix_append pad_dec_digits)
qed

lemma filename_for_parse:
  assumes "parse_base_lsn name = Some w"
  shows "name = filename_for (Lsn w)"
proof -
  from assms obtain ds where ds: "name = ds @ ''.wal''" "length ds = 20"
    "list_all is_ascii_digit ds" "parse_u64 ds = Some w"
    by (auto simp: parse_base_lsn_def strip_suffix_Some split: option.splits if_splits)
  then have v: "dec_val ds = unat w"
    by (auto simp: parse_u64_def u64_max_def unat_of_nat split: if_splits)
  have "ds = pad_dec 20 (unat w)"
    by (rule dec_val_inject)
      (simp_all add: ds v length_pad20 pad_dec_digits dec_val_pad_dec)
  with ds show ?thesis by (simp add: filename_for_def)
qed

lemma parse_base_lsn_iff: "parse_base_lsn name = Some w \<longleftrightarrow> name = filename_for (Lsn w)"
  using filename_for_parse parse_filename_for by fastforce

lemma filename_for_inject [simp]: "filename_for a = filename_for b \<longleftrightarrow> a = b"
  by (metis lsn.expand option.inject parse_filename_for)

section \<open>Facts about reading\<close>

lemma read_full_at_intr:
  "length acc < n \<Longrightarrow> read_full_at (0 # ks) f off n acc = read_full_at ks f off n acc"
  by (subst read_full_at.simps) simp

lemma read_full_at_step:
  assumes "length acc < n" "\<And>ks'. ks \<noteq> 0 # ks'"
  obtains lim where "0 < lim" "lim \<le> n - length acc"
    "read_full_at ks f off n acc =
       (case pread f (off + length acc) lim of
          Inl e \<Rightarrow> Inl e
        | Inr bs \<Rightarrow> if bs = [] then Inr None else read_full_at (tl ks) f off n (acc @ bs))"
proof (cases ks)
  case Nil
  show ?thesis
  proof (rule that)
    show "0 < n - length acc" "n - length acc \<le> n - length acc" using assms(1) by simp_all
  qed (subst read_full_at.simps, simp add: assms(1) Nil)
next
  case (Cons k ks')
  with assms(2) obtain k' where k: "k = Suc k'" by (cases k) auto
  show ?thesis
  proof (rule that)
    show "0 < min k (n - length acc)" "min k (n - length acc) \<le> n - length acc"
      using assms(1) k by simp_all
  qed (subst read_full_at.simps, simp add: assms(1) Cons k)
qed

lemma unreadable_split:
  assumes "k \<le> n"
  shows "unreadable f off n \<longleftrightarrow> unreadable f off k \<or> unreadable f (off + k) (n - k)"
proof -
  have "off \<le> b \<and> b < off + n \<longleftrightarrow> off \<le> b \<and> b < off + k \<or> off + k \<le> b \<and> b < off + k + (n - k)" for b
    using assms by auto
  then show ?thesis unfolding unreadable_def list_ex_iff by blast
qed

lemma unreadable_beyond: "length (fdata f) \<le> off \<Longrightarrow> \<not> unreadable f off n"
  by (auto simp: unreadable_def list_ex_iff)

lemma read_full_at_spec:
  assumes "length acc \<le> n"
  shows "read_full_at ks f off n acc =
    (if unreadable f (off + length acc) (n - length acc) then Inl OtherIo
     else if off + n \<le> length (fdata f) \<or> length acc = n
       then Inr (Some (acc @ window (off + length acc) (off + n) (fdata f)))
     else Inr None)"
  using assms
proof (induction "n - length acc + length ks" arbitrary: acc ks rule: less_induct)
  case less
  let ?a = "length acc"
  consider (full) "?a = n" | (intr) ks' where "?a < n" "ks = 0 # ks'"
    | (step) "?a < n" "\<And>ks'. ks \<noteq> 0 # ks'"
    using less.prems by fastforce
  then show ?case
  proof cases
    case full
    then show ?thesis
      by (subst read_full_at.simps) (auto simp: unreadable_def list_ex_iff window_def)
  next
    case intr
    with less.hyps [of acc ks'] less.prems show ?thesis
      by (simp add: read_full_at_intr)
  next
    case step
    from read_full_at_step [OF step] obtain lim where lim: "0 < lim" "lim \<le> n - ?a"
      and eq: "read_full_at ks f off n acc =
       (case pread f (off + ?a) lim of
          Inl e \<Rightarrow> Inl e
        | Inr bs \<Rightarrow> if bs = [] then Inr None else read_full_at (tl ks) f off n (acc @ bs))" .
    let ?bs = "window (off + ?a) (off + ?a + lim) (fdata f)"
    note split = unreadable_split [OF lim(2), of f "off + ?a"]
    show ?thesis
    proof (cases "unreadable f (off + ?a) lim \<or> ?bs = []")
      case True
      have "?bs = [] \<Longrightarrow> length (fdata f) \<le> off + ?a"
        using lim(1) by (simp add: window_def)
      with True eq split lim step(1) unreadable_beyond [of f] show ?thesis
        by (auto simp: pread_def)
    next
      case False
      define acc' where "acc' = acc @ ?bs"
      have la: "length acc' = ?a + min lim (length (fdata f) - (off + ?a))"
        by (simp add: acc'_def)
      from False have pos: "0 < min lim (length (fdata f) - (off + ?a))"
        using lim(1) by (simp add: window_def)
      have IH: "read_full_at (tl ks) f off n acc' =
        (if unreadable f (off + length acc') (n - length acc') then Inl OtherIo
         else if off + n \<le> length (fdata f) \<or> length acc' = n
           then Inr (Some (acc' @ window (off + length acc') (off + n) (fdata f)))
         else Inr None)"
        by (rule less.hyps) (use la pos lim less.prems in auto)
      have un: "unreadable f (off + ?a) (n - ?a) \<longleftrightarrow> unreadable f (off + length acc') (n - length acc')"
        using False split la lim unreadable_beyond [of f]
        by (auto simp: min_def add.assoc split: if_splits)
      have cat: "acc' @ window (off + length acc') (off + n) (fdata f)
          = acc @ window (off + ?a) (off + n) (fdata f)"
        if "off + n \<le> length (fdata f)"
      proof -
        from that lim have "length acc' = ?a + lim" by (simp add: la)
        then show ?thesis
          using window_append_window [of "off + ?a" "off + ?a + lim" "off + n" "fdata f"] lim
          by (simp add: acc'_def add.assoc)
      qed
      have same: "read_full_at ks f off n acc = read_full_at (tl ks) f off n acc'"
        using eq False by (simp add: pread_def acc'_def)
      show ?thesis
      proof (cases "off + n \<le> length (fdata f)")
        case True
        then show ?thesis unfolding same IH un cat [OF True] by simp
      next
        case short: False
        with la lim pos have "length acc' \<noteq> n" by linarith
        with short step(1) show ?thesis unfolding same IH un by simp
      qed
    qed
  qed
qed

lemma read_full_at_schedule_independent: "read_full_at ks f off n [] = read_full f off n"
  by (simp add: read_full_def read_full_at_spec)

lemma read_full_healthy:
  "healthy f \<Longrightarrow> read_full f off n =
     (if off + n \<le> length (fdata f) \<or> n = 0 then Inr (Some (window off (off + n) (fdata f)))
      else Inr None)"
  by (auto simp: read_full_def read_full_at_spec unreadable_def healthy_def)

text \<open>
  On readable media the two bounded reads of \<open>read_record_at\<close> amount to decoding what the
  segment holds from the offset on.
\<close>

definition scan_bytes :: "(bytes \<Rightarrow> u32) \<Rightarrow> bytes \<Rightarrow> nat \<Rightarrow> nat \<Rightarrow> nat \<Rightarrow> scan_outcome" where
  "scan_bytes crc data off segment_size max_record_size =
     (if segment_size - off < 20 then CleanEnd
      else case decode crc (drop off (take segment_size data)) max_record_size of
             Record l p n \<Rightarrow> ScanRecord l (length p) n
           | Sentinel \<Rightarrow> CleanEnd
           | _ \<Rightarrow> ScanInvalid)"

lemma read_record_at_healthy:
  assumes "healthy f"
  shows "\<exists>buf. read_record_at crc f off ssz mx = Inr (scan_bytes crc (fdata f) off ssz mx, buf)
    \<and> (\<forall>l k n. scan_bytes crc (fdata f) off ssz mx = ScanRecord l k n \<longrightarrow>
         buf = window off (off + n) (fdata f))"
proof (cases "ssz - off < 20")
  case True
  then show ?thesis by (simp add: read_record_at_def scan_bytes_def)
next
  case big: False
  define d where "d = fdata f"
  define D where "D = drop off (take ssz d)"
  have sb: "scan_bytes crc (fdata f) off ssz mx =
      (case decode crc D mx of Record l p n \<Rightarrow> ScanRecord l (length p) n
       | Sentinel \<Rightarrow> CleanEnd | _ \<Rightarrow> ScanInvalid)"
    using big by (simp add: scan_bytes_def D_def d_def)
  have lenD: "length D = min ssz (length d) - off" by (simp add: D_def)
  show ?thesis
  proof (cases "length d < off + 20")
    case True
    then have "length D < 20" by (simp add: lenD)
    then show ?thesis
      unfolding sb using big True assms
      by (simp add: read_record_at_def read_full_healthy decode_eq d_def)
  next
    case False
    define hdr where "hdr = window off (off + 20) d"
    define len where "len = u32_from_le_bytes (window 4 8 hdr)"
    let ?fr = "framed_size (unat len)"
    have hdr: "take 20 D = hdr"
      using big by (simp add: hdr_def D_def window_def drop_take min_def)
    have lh: "length hdr = 20" using False by (simp add: hdr_def)
    have D20: "20 \<le> length D" using False big by (simp add: lenD)
    have lenf: "window 4 8 D = window 4 8 hdr"
      using window_take [of 8 20 4 D] hdr by simp
    have rd1: "read_full f off 20 = Inr (Some hdr)"
      using False assms by (simp add: read_full_healthy hdr_def d_def)
    have fr: "24 \<le> ?fr" by (rule framed_size_ge24)
    have sen: "decode crc hdr mx = Sentinel \<longleftrightarrow> all_zero hdr"
      by (simp add: decode_Sentinel_iff lh)
    note unf = read_record_at_def sen Let_def framed_u32 len_def [symmetric]
    consider (zero) "all_zero hdr" | (long) "\<not> all_zero hdr" "mx < unat len"
      | (over) "\<not> all_zero hdr" "unat len \<le> mx" "ssz - off < ?fr"
      | (cut) "\<not> all_zero hdr" "unat len \<le> mx" "?fr \<le> ssz - off" "length d < off + ?fr"
      | (full) "\<not> all_zero hdr" "unat len \<le> mx" "?fr \<le> ssz - off" "off + ?fr \<le> length d"
      by linarith
    then show ?thesis
    proof cases
      case zero
      then have "decode crc D mx = Sentinel" using hdr D20 by (simp add: decode_Sentinel_iff)
      with zero show ?thesis unfolding sb using big rd1 lh by (simp add: unf)
    next
      case long
      then have "decode crc D mx = Invalid LengthTooLarge"
        using hdr D20 lenf by (simp add: decode_eq len_def)
      with long show ?thesis unfolding sb using big rd1 lh by (simp add: unf)
    next
      case over
      then have "length D < ?fr" by (simp add: lenD)
      with over have "decode crc D mx = Incomplete"
        using hdr D20 lenf by (simp add: decode_eq len_def Let_def)
      with over show ?thesis unfolding sb using big rd1 lh by (simp add: unf)
    next
      case cut
      then have "length D < ?fr" using fr lenD by linarith
      with cut have "decode crc D mx = Incomplete"
        using hdr D20 lenf by (simp add: decode_eq len_def Let_def)
      with cut show ?thesis
        unfolding sb using big rd1 lh fr assms
        by (simp add: unf read_full_healthy [of f "off + 20"] d_def)
    next
      case full
      have buf: "hdr @ window (off + 20) (off + ?fr) d = window off (off + ?fr) d"
        using fr by (simp add: window_append_window hdr_def)
      have bufD: "window off (off + ?fr) d = take ?fr D"
        using full by (simp add: D_def window_def drop_take min_def)
      have dec: "decode crc (window off (off + ?fr) d) mx = decode crc D mx"
        unfolding bufD by (rule decode_take) (use full lenf lenD in \<open>simp_all add: len_def\<close>)
      have rd2: "read_full f (off + 20) (?fr - 20) = Inr (Some (window (off + 20) (off + ?fr) d))"
        using full fr assms by (simp add: read_full_healthy d_def)
      have n: "n = ?fr" if "decode crc D mx = Record l p n" for l p n
        using that lenf by (simp add: decode_Record_iff Let_def len_def)
      have ns: "decode crc D mx \<noteq> Sentinel"
        using full hdr by (simp add: decode_Sentinel_iff)
      show ?thesis
        unfolding sb using big rd1 rd2 full ns n lh
        by (cases "decode crc D mx") (auto simp: unf buf dec d_def [symmetric])
    qed
  qed
qed

lemma scan_bytes_Record:
  assumes "scan_bytes crc data off ssz mx = ScanRecord l k n"
  shows "n = framed_size k" "k \<le> mx" "off + n \<le> ssz" "off + n \<le> length data" "24 \<le> n"
proof -
  from assms obtain p where *: "decode crc (drop off (take ssz data)) mx = Record l p n"
    and k: "k = length p" and "20 \<le> ssz - off"
    by (auto simp: scan_bytes_def split: if_splits decoded.splits)
  from decode_Record_bounds [OF *] k
  show 1: "n = framed_size k" and "k \<le> mx" by auto
  show "24 \<le> n" by (simp add: 1 framed_size_ge24)
  from decode_Record_bounds(3) [OF *] \<open>24 \<le> n\<close>
  show "off + n \<le> ssz" "off + n \<le> length data" by simp_all
qed

text \<open>Whatever the media do, an accepted record lies within the segment.\<close>

lemma read_record_at_Record:
  assumes "read_record_at crc f off ssz mx = Inr (ScanRecord l k n, buf)"
  shows "n = framed_size k" "k \<le> mx" "n \<le> ssz - off" "24 \<le> n"
proof -
  from assms obtain hdr rest p where hr: "decode crc (hdr @ rest) mx = Record l p n" "k = length p"
    and le: "unat (framed_size_u64 (ucast (u32_from_le_bytes (window 4 8 hdr)))) \<le> ssz - off"
    and h: "read_full f off 20 = Inr (Some hdr)"
    by (auto simp: read_record_at_def Let_def split: if_splits sum.splits option.splits decoded.splits)
  have "length hdr = 20"
    using h by (auto simp: read_full_def read_full_at_spec split: if_splits)
  then have w: "window 4 8 (hdr @ rest) = window 4 8 hdr" by (simp add: window_append_left)
  show "n = framed_size k" "k \<le> mx" using decode_Record_bounds [OF hr(1)] hr(2) by auto
  then show "24 \<le> n" by (simp add: framed_size_ge24)
  show "n \<le> ssz - off" using hr(1) le by (simp add: decode_Record_iff Let_def w framed_u32)
qed

section \<open>Facts about zeroing and creation\<close>

lemma write_zeros_step:
  "off < to_off \<Longrightarrow> n = min CHUNK (to_off - off) \<Longrightarrow>
   write_zeros f off to_off flts =
     (case write_all_at f off (zeros n) flts of
        (Inl e, g, r) \<Rightarrow> (Inl e, g, r)
      | (Inr _, g, r) \<Rightarrow> write_zeros g (off + n) to_off r)"
  by (cases "write_all_at f off (zeros n) flts")
    (auto simp: write_zeros.simps [of f off] Let_def split: sum.splits)

lemma write_zeros_effect:
  "write_zeros f off to_off flts = (res, f', r) \<Longrightarrow>
   \<exists>k \<le> to_off - off. f' = f\<lparr>fdata := pwrite off (zeros k) (fdata f)\<rparr>
     \<and> (res = Inr () \<longrightarrow> k = to_off - off)"
proof (induction "to_off - off" arbitrary: f off flts rule: less_induct)
  case less
  show ?case
  proof (cases "off < to_off")
    case False
    with less.prems have "f' = f" by (simp add: write_zeros.simps [of f off])
    with False show ?thesis by simp
  next
    case True
    define n where "n = min CHUNK (to_off - off)"
    have n: "0 < n" "n \<le> to_off - off" using True by (simp_all add: n_def)
    obtain w g r1 where w: "write_all_at f off (zeros n) flts = (w, g, r1)"
      by (cases "write_all_at f off (zeros n) flts") auto
    note step = write_zeros_step [OF True n_def, of f flts, unfolded w]
    show ?thesis
    proof (cases w)
      case (Inl e)
      with w obtain k where "g = f\<lparr>fdata := pwrite off (take k (zeros n)) (fdata f)\<rparr>"
        by (auto simp: write_all_at_def split: prod.splits fault.splits)
      with Inl step less.prems n show ?thesis
        by (intro exI [of _ "min k n"]) auto
    next
      case (Inr u)
      with w have g: "g = f\<lparr>fdata := pwrite off (zeros n) (fdata f)\<rparr>"
        by (auto simp: write_all_at_def split: prod.splits fault.splits)
      from Inr step less.prems have eq: "write_zeros g (off + n) to_off r1 = (res, f', r)" by simp
      have "to_off - (off + n) < to_off - off" using n True by simp
      from less.hyps [OF this eq] obtain k where k: "k \<le> to_off - (off + n)"
        "f' = g\<lparr>fdata := pwrite (off + n) (zeros k) (fdata g)\<rparr>"
        "res = Inr () \<longrightarrow> k = to_off - (off + n)" by blast
      have "fdata f' = pwrite off (zeros (n + k)) (fdata f)"
        using k(2) g pwrite_pwrite [of off "zeros n" "zeros k"] by (simp add: replicate_add)
      with k g n show ?thesis by (intro exI [of _ "n + k"]) auto
    qed
  qed
qed

lemma write_zeros_ok [simp]:
  "write_zeros f off to_off [] = (Inr (), f\<lparr>fdata := pwrite off (zeros (to_off - off)) (fdata f)\<rparr>, [])"
proof (induction "to_off - off" arbitrary: f off rule: less_induct)
  case less
  show ?case
  proof (cases "off < to_off")
    case True
    define n where "n = min CHUNK (to_off - off)"
    have n: "0 < n" "n \<le> to_off - off" using True by (simp_all add: n_def)
    have z: "zeros n @ zeros (to_off - (off + n)) = zeros (to_off - off)"
      using n by (simp add: replicate_add [symmetric])
    show ?thesis
      using write_zeros_step [OF True n_def, of f "[]"] n
        less.hyps [of "off + n" "f\<lparr>fdata := pwrite off (zeros n) (fdata f)\<rparr>"]
        pwrite_pwrite [of off "zeros n" "zeros (to_off - (off + n))" "fdata f"]
      by (simp add: write_all_at_def z)
  qed (simp add: write_zeros.simps)
qed

lemma zero_to_eof_ok:
  "zero_to_eof f off ssz [] =
     (let g = f\<lparr>fdata := pwrite off (zeros (ssz - off)) (fdata f)\<rparr> in (Inr (), g\<lparr>fsynced := fdata g\<rparr>, []))"
  by (simp add: zero_to_eof_def sync_data_fully_def sync_data_def Let_def)

lemma zero_to_eof_effect:
  assumes "zero_to_eof f off ssz flts = (res, f', r)"
  obtains k where "k \<le> ssz - off" "fdata f' = pwrite off (zeros k) (fdata f)" "fbad f' = fbad f"
    "res = Inr () \<Longrightarrow> k = ssz - off \<and> fsynced f' = fdata f'"
proof -
  obtain w g r1 where w: "write_zeros f off ssz flts = (w, g, r1)"
    by (cases "write_zeros f off ssz flts") auto
  from write_zeros_effect [OF w]
  obtain k where k: "k \<le> ssz - off" "g = f\<lparr>fdata := pwrite off (zeros k) (fdata f)\<rparr>"
    "w = Inr () \<longrightarrow> k = ssz - off" by blast
  show ?thesis
    by (rule that [of k])
      (use assms w k in \<open>auto simp: zero_to_eof_def sync_data_fully_def sync_data_def
         split: sum.splits prod.splits fault.splits\<close>)
qed

definition fresh_segment :: "(bytes \<Rightarrow> u32) \<Rightarrow> u64 \<Rightarrow> lsn \<Rightarrow> nat \<Rightarrow> bytes" where
  "fresh_segment crc created base ssz = encode_header crc base created @ zeros (ssz - 64)"

lemma init_segment_ok:
  assumes "64 \<le> ssz"
  shows "init_segment crc created base ssz empty_file [] =
    (Inr (), \<lparr>fdata = fresh_segment crc created base ssz,
              fsynced = fresh_segment crc created base ssz, fbad = []\<rparr>, [])"
  using assms
  by (simp add: init_segment_def preallocate_def fallocate_def write_all_at_def sync_data_fully_def
      sync_data_def empty_file_def pwrite_inside fresh_segment_def)

text \<open>The file system may lack \<^verbatim>\<open>fallocate\<close>: the fallback gives the same file.\<close>

lemma init_segment_fallback:
  assumes "64 \<le> ssz"
  shows "init_segment crc created base ssz empty_file [Fault Unsupported k]
       = init_segment crc created base ssz empty_file []"
  using assms
  by (simp add: init_segment_def preallocate_def fallocate_def write_all_at_def sync_data_fully_def
      sync_data_def empty_file_def pwrite_inside fresh_segment_def)

end
