(* ===== verification/Wal_Recovery.thy ===== *)
theory Wal_Recovery
  imports Wal_Segment
begin

text \<open>
  Intra-segment recovery (\<^verbatim>\<open>src/recovery.rs\<close>) and the classification accessors of
  \<^verbatim>\<open>src/lib.rs\<close>: the dense scan from offset 64, the tail-versus-corruption classifier with
  its bounded forward scan, the rule at the end of the LSN space, and the durable zeroing
  of a torn tail. A segment file is threaded through: recovery returns its result, the file
  as it leaves it, and the rest of the fault script.
\<close>

section \<open>The code\<close>

datatype tail_state = Clean | TruncatedAt (trunc_segment: lsn) (trunc_offset: nat)

record segment_recovery =
  max_lsn :: lsn
  rec_write_offset :: nat
  rec_tail_state :: tail_state

record recover_ctx =
  ctx_base :: lsn
  ctx_is_active :: bool
  ctx_segment_size :: nat
  ctx_max_record_size :: nat

definition scan_bound :: "nat \<Rightarrow> nat" where
  "scan_bound max_record_size = max_record_size + 28"

definition after_exhaustion :: "recover_ctx \<Rightarrow> nat \<Rightarrow> wal_error" where
  "after_exhaustion ctx off =
     Corruption (ctx_base ctx) off ''data after the last LSN (u64::MAX)''"

function forward_scan ::
    "(bytes \<Rightarrow> u32) \<Rightarrow> osfile \<Rightarrow> recover_ctx \<Rightarrow> lsn \<Rightarrow> nat \<Rightarrow> nat \<Rightarrow> bool result" where
  "forward_scan crc f ctx expected p end_off =
     (if p \<le> end_off then
        (case read_record_at crc f p (ctx_segment_size ctx) (ctx_max_record_size ctx) of
           Inl e \<Rightarrow> Inl e
         | Inr (ScanRecord l k n, buf) \<Rightarrow>
             if expected \<le> l then Inr True else forward_scan crc f ctx expected (p + 8) end_off
         | Inr (_, buf) \<Rightarrow> forward_scan crc f ctx expected (p + 8) end_off)
      else Inr False)"
  by pat_completeness auto
termination
  by (relation "measure (\<lambda>(crc, f, ctx, expected, p, end_off). Suc end_off - p)") auto

declare forward_scan.simps [simp del]

definition forward_scan_finds_valid ::
    "(bytes \<Rightarrow> u32) \<Rightarrow> osfile \<Rightarrow> recover_ctx \<Rightarrow> nat \<Rightarrow> lsn \<Rightarrow> bool result" where
  "forward_scan_finds_valid crc f ctx x expected =
     (let bound = scan_bound (ctx_max_record_size ctx);
          start = saturating_add x 8;
          end_off = saturating_add start bound
      in forward_scan crc f ctx expected start end_off)"

definition classify ::
    "(bytes \<Rightarrow> u32) \<Rightarrow> osfile \<Rightarrow> recover_ctx \<Rightarrow> nat \<Rightarrow> lsn \<Rightarrow> lsn \<Rightarrow> faults
     \<Rightarrow> segment_recovery result \<times> osfile \<times> faults" where
  "classify crc f ctx x expected last_valid flts =
     (if \<not> ctx_is_active ctx
      then (Inl (Corruption (ctx_base ctx) x ''invalid record in sealed segment''), f, flts)
      else
        case forward_scan_finds_valid crc f ctx x expected of
          Inl e \<Rightarrow> (Inl e, f, flts)
        | Inr True \<Rightarrow> (Inl (TornMidLog (ctx_base ctx) x), f, flts)
        | Inr False \<Rightarrow>
            (case zero_to_eof f x (ctx_segment_size ctx) flts of
               (Inl e, f', r) \<Rightarrow> (Inl e, f', r)
             | (Inr _, f', r) \<Rightarrow>
                 (Inr \<lparr>max_lsn = last_valid, rec_write_offset = x,
                       rec_tail_state = TruncatedAt (ctx_base ctx) x\<rparr>, f', r)))"

definition at_capacity_invalid ::
    "osfile \<Rightarrow> recover_ctx \<Rightarrow> nat \<Rightarrow> lsn \<Rightarrow> faults
     \<Rightarrow> segment_recovery result \<times> osfile \<times> faults" where
  "at_capacity_invalid f ctx off last_valid flts =
     (case metadata_len f flts of
        (Inl e, r) \<Rightarrow> (Inl (Io e), f, r)
      | (Inr len, r) \<Rightarrow>
          if len \<ge> saturating_add off RECORD_HEADER_SIZE \<or> \<not> ctx_is_active ctx
          then (Inl (after_exhaustion ctx off), f, r)
          else
            (case read_exact_at f off (len - off) of
               Inl e \<Rightarrow> (Inl (Io e), f, r)
             | Inr tail \<Rightarrow>
                 if \<not> all_zero tail then (Inl (after_exhaustion ctx off), f, r)
                 else
                   (case zero_to_eof f off (ctx_segment_size ctx) r of
                      (Inl e, f', r') \<Rightarrow> (Inl e, f', r')
                    | (Inr _, f', r') \<Rightarrow>
                        (Inr \<lparr>max_lsn = last_valid, rec_write_offset = off,
                              rec_tail_state = TruncatedAt (ctx_base ctx) off\<rparr>, f', r'))))"

function recover_loop ::
    "(bytes \<Rightarrow> u32) \<Rightarrow> osfile \<Rightarrow> recover_ctx \<Rightarrow> faults \<Rightarrow> nat \<Rightarrow> lsn option \<Rightarrow> lsn
     \<Rightarrow> segment_recovery result \<times> osfile \<times> faults" where
  "recover_loop crc f ctx flts off expected last_valid =
     (case read_record_at crc f off (ctx_segment_size ctx) (ctx_max_record_size ctx) of
        Inl e \<Rightarrow> (Inl e, f, flts)
      | Inr (ScanRecord l k n, buf) \<Rightarrow>
          (case expected of
             None \<Rightarrow> (Inl (after_exhaustion ctx off), f, flts)
           | Some want \<Rightarrow>
               if l \<noteq> want then classify crc f ctx off want last_valid flts
               else recover_loop crc f ctx flts (off + n) (checked_next l) l)
      | Inr (CleanEnd, buf) \<Rightarrow>
          (Inr \<lparr>max_lsn = last_valid, rec_write_offset = off, rec_tail_state = Clean\<rparr>, f, flts)
      | Inr (ScanInvalid, buf) \<Rightarrow>
          (case expected of
             None \<Rightarrow> at_capacity_invalid f ctx off last_valid flts
           | Some want \<Rightarrow> classify crc f ctx off want last_valid flts))"
  by pat_completeness auto
termination
proof (relation "measure (\<lambda>(crc, f, ctx, flts, off, expected, last_valid). ctx_segment_size ctx - off)",
    goal_cases)
  case (2 crc f ctx flts off expected last_valid x2 x y l k n want)
  then have "read_record_at crc f off (ctx_segment_size ctx) (ctx_max_record_size ctx)
      = Inr (ScanRecord l k n, y)" by simp
  from read_record_at_Record(3,4) [OF this] show ?case by simp
qed simp

declare recover_loop.simps [simp del]

definition recover_segment ::
    "(bytes \<Rightarrow> u32) \<Rightarrow> osfile \<Rightarrow> lsn \<Rightarrow> bool \<Rightarrow> nat \<Rightarrow> nat \<Rightarrow> faults
     \<Rightarrow> segment_recovery result \<times> osfile \<times> faults" where
  "recover_segment crc f base is_active segment_size max_record_size flts =
     (let ctx = \<lparr>ctx_base = base, ctx_is_active = is_active, ctx_segment_size = segment_size,
                 ctx_max_record_size = max_record_size\<rparr>
      in recover_loop crc f ctx flts HEADER_SIZE (Some base) (Lsn (lsn_val base - 1)))"

section \<open>Recovery as parsing\<close>

text \<open>
  \<open>parse_run\<close> is the specification of the scan: the maximal run of records that starts at
  an offset, is dense in LSN order, and lies in the segment; with the offset it ends at.
\<close>

function parse_run ::
    "(bytes \<Rightarrow> u32) \<Rightarrow> bytes \<Rightarrow> nat \<Rightarrow> nat \<Rightarrow> nat \<Rightarrow> lsn option \<Rightarrow> (lsn \<times> bytes) list \<times> nat" where
  "parse_run crc data ssz mx off expected =
     (case scan_bytes crc data off ssz mx of
        ScanRecord l k n \<Rightarrow>
          if expected = Some l then
            (case parse_run crc data ssz mx (off + n) (checked_next l) of
               (rs, x) \<Rightarrow> ((l, window (off + 20) (off + 20 + k) data) # rs, x))
          else ([], off)
      | _ \<Rightarrow> ([], off))"
  by pat_completeness auto
termination
proof (relation "measure (\<lambda>(crc, data, ssz, mx, off, expected). ssz - off)", goal_cases)
  case (2 crc data ssz mx off expected l k n)
  from scan_bytes_Record(3,5) [OF 2(1)] show ?case by simp
qed simp

declare parse_run.simps [simp del]

lemma parse_run_stop:
  "(\<And>l k n. scan_bytes crc data off ssz mx = ScanRecord l k n \<Longrightarrow> expected \<noteq> Some l) \<Longrightarrow>
   parse_run crc data ssz mx off expected = ([], off)"
  by (subst parse_run.simps) (auto split: scan_outcome.splits)

lemma parse_run_step:
  "scan_bytes crc data off ssz mx = ScanRecord l k n \<Longrightarrow>
   parse_run crc data ssz mx off (Some l) =
     (case parse_run crc data ssz mx (off + n) (checked_next l) of
        (rs, x) \<Rightarrow> ((l, window (off + 20) (off + 20 + k) data) # rs, x))"
  by (subst parse_run.simps) simp

text \<open>What a run says about its end.\<close>

definition run_last :: "lsn \<Rightarrow> (lsn \<times> bytes) list \<Rightarrow> lsn" where
  "run_last lv rs = (if rs = [] then lv else fst (last rs))"

lemma run_last_Nil [simp]: "run_last lv [] = lv"
  by (simp add: run_last_def)

lemma run_last_Cons [simp]: "run_last lv (r # rs) = run_last (fst r) rs"
  by (simp add: run_last_def)

lemma parse_run_end:
  assumes "parse_run crc data ssz mx off (checked_next lv) = (rs, x)"
  shows "off \<le> x" "off \<le> ssz \<Longrightarrow> x \<le> ssz" "off \<le> length data \<Longrightarrow> x \<le> length data"
    "scan_bytes crc data x ssz mx = ScanRecord l k n \<Longrightarrow> checked_next (run_last lv rs) \<noteq> Some l"
    "lsn_nat (run_last lv rs) = lsn_nat lv + length rs"
    "map fst rs = map lsn_of [Suc (lsn_nat lv) ..< Suc (lsn_nat lv + length rs)]"
    "list_all (\<lambda>r. length (snd r) \<le> mx) rs"
proof -
  have "off \<le> x \<and> (off \<le> ssz \<longrightarrow> x \<le> ssz) \<and> (off \<le> length data \<longrightarrow> x \<le> length data)
    \<and> (\<forall>l k n. scan_bytes crc data x ssz mx = ScanRecord l k n \<longrightarrow> checked_next (run_last lv rs) \<noteq> Some l)
    \<and> lsn_nat (run_last lv rs) = lsn_nat lv + length rs
    \<and> map fst rs = map lsn_of [Suc (lsn_nat lv) ..< Suc (lsn_nat lv + length rs)]
    \<and> list_all (\<lambda>r. length (snd r) \<le> mx) rs"
    using assms
  proof (induction "ssz - off" arbitrary: off lv rs rule: less_induct)
    case less
    show ?case
    proof (cases "\<exists>l k n. scan_bytes crc data off ssz mx = ScanRecord l k n \<and> checked_next lv = Some l")
      case False
      then have "parse_run crc data ssz mx off (checked_next lv) = ([], off)"
        by (intro parse_run_stop) blast
      with less.prems have "rs = []" "x = off" by simp_all
      with False show ?thesis by auto
    next
      case True
      then obtain l k n where s: "scan_bytes crc data off ssz mx = ScanRecord l k n"
        and l: "checked_next lv = Some l" by blast
      note b = scan_bytes_Record [OF s]
      obtain rs' x' where r: "parse_run crc data ssz mx (off + n) (checked_next l) = (rs', x')"
        by (cases "parse_run crc data ssz mx (off + n) (checked_next l)")
      from less.prems l r parse_run_step [OF s]
      have rs: "rs = (l, window (off + 20) (off + 20 + k) data) # rs'" "x = x'" by simp_all
      have "ssz - (off + n) < ssz - off" using b by simp
      from less.hyps [OF this r [folded rs(2)]] l b rs framed_size_bounds(1) [of k]
      show ?thesis
        by (auto simp: checked_next_Some upt_conv_Cons simp del: upt_Suc) (metis lsn_of_nat)
    qed
  qed
  then show "off \<le> x" "off \<le> ssz \<Longrightarrow> x \<le> ssz" "off \<le> length data \<Longrightarrow> x \<le> length data"
    "scan_bytes crc data x ssz mx = ScanRecord l k n \<Longrightarrow> checked_next (run_last lv rs) \<noteq> Some l"
    "lsn_nat (run_last lv rs) = lsn_nat lv + length rs"
    "map fst rs = map lsn_of [Suc (lsn_nat lv) ..< Suc (lsn_nat lv + length rs)]"
    "list_all (\<lambda>r. length (snd r) \<le> mx) rs"
    by blast+
qed

text \<open>The scan loop runs over exactly that run, then settles at its end.\<close>

lemma recover_loop_record:
  assumes "healthy f" "scan_bytes crc (fdata f) off (ctx_segment_size ctx) (ctx_max_record_size ctx)
      = ScanRecord l k n"
  shows "recover_loop crc f ctx flts off (Some l) lv
       = recover_loop crc f ctx flts (off + n) (checked_next l) l"
proof -
  from read_record_at_healthy [OF assms(1), of crc off "ctx_segment_size ctx" "ctx_max_record_size ctx"]
    assms(2)
  obtain buf where "read_record_at crc f off (ctx_segment_size ctx) (ctx_max_record_size ctx)
      = Inr (ScanRecord l k n, buf)" by auto
  then show ?thesis by (subst recover_loop.simps) simp
qed

lemma recover_loop_parse:
  assumes "healthy f"
    "parse_run crc (fdata f) (ctx_segment_size ctx) (ctx_max_record_size ctx) off (checked_next lv) = (rs, x)"
  shows "recover_loop crc f ctx flts off (checked_next lv) lv
       = recover_loop crc f ctx flts x (checked_next (run_last lv rs)) (run_last lv rs)"
  using assms(2)
proof (induction "ctx_segment_size ctx - off" arbitrary: off lv rs rule: less_induct)
  case less
  let ?s = "scan_bytes crc (fdata f) off (ctx_segment_size ctx) (ctx_max_record_size ctx)"
  show ?case
  proof (cases "\<exists>l k n. ?s = ScanRecord l k n \<and> checked_next lv = Some l")
    case False
    then have "parse_run crc (fdata f) (ctx_segment_size ctx) (ctx_max_record_size ctx) off (checked_next lv)
        = ([], off)" by (intro parse_run_stop) blast
    with less.prems show ?thesis by simp
  next
    case True
    then obtain l k n where s: "?s = ScanRecord l k n" and l: "checked_next lv = Some l" by blast
    obtain rs' x' where r: "parse_run crc (fdata f) (ctx_segment_size ctx) (ctx_max_record_size ctx)
        (off + n) (checked_next l) = (rs', x')" by fastforce
    from less.prems l r parse_run_step [OF s]
    have rs: "rs = (l, window (off + 20) (off + 20 + k) (fdata f)) # rs'" "x = x'" by simp_all
    have "ctx_segment_size ctx - (off + n) < ctx_segment_size ctx - off"
      using scan_bytes_Record [OF s] by simp
    from less.hyps [OF this r [folded rs(2)]] recover_loop_record [OF assms(1) s, of flts lv] l rs
    show ?thesis by simp
  qed
qed

section \<open>The classifier\<close>

text \<open>A record that continues the log within the bounded window ahead of \<open>x\<close>.\<close>

definition valid_ahead :: "(bytes \<Rightarrow> u32) \<Rightarrow> bytes \<Rightarrow> nat \<Rightarrow> nat \<Rightarrow> nat \<Rightarrow> lsn \<Rightarrow> bool" where
  "valid_ahead crc data ssz mx x expected \<longleftrightarrow>
     (\<exists>i. saturating_add x 8 + 8 * i \<le> saturating_add (saturating_add x 8) (scan_bound mx)
        \<and> (\<exists>l k n. scan_bytes crc data (saturating_add x 8 + 8 * i) ssz mx = ScanRecord l k n
                  \<and> expected \<le> l))"

lemma forward_scan_healthy:
  assumes "healthy f"
  shows "forward_scan crc f ctx expected p e =
    Inr (\<exists>i. p + 8 * i \<le> e \<and>
      (\<exists>l k n. scan_bytes crc (fdata f) (p + 8 * i) (ctx_segment_size ctx) (ctx_max_record_size ctx)
                 = ScanRecord l k n \<and> expected \<le> l))"
proof (induction "Suc e - p" arbitrary: p rule: less_induct)
  case less
  let ?s = "\<lambda>p. scan_bytes crc (fdata f) p (ctx_segment_size ctx) (ctx_max_record_size ctx)"
  let ?hit = "\<lambda>p. \<exists>l k n. ?s p = ScanRecord l k n \<and> expected \<le> l"
  obtain buf where rd: "read_record_at crc f p (ctx_segment_size ctx) (ctx_max_record_size ctx)
      = Inr (?s p, buf)"
    using read_record_at_healthy [OF assms] by blast
  show ?case
  proof (cases "p \<le> e")
    case True
    then have "forward_scan crc f ctx expected (p + 8) e = Inr (\<exists>i. p + 8 + 8 * i \<le> e \<and> ?hit (p + 8 + 8 * i))"
      by (intro less.hyps) simp
    then have "forward_scan crc f ctx expected p e =
        Inr (?hit p \<or> (\<exists>i. p + 8 + 8 * i \<le> e \<and> ?hit (p + 8 + 8 * i)))"
      using True rd by (subst forward_scan.simps) (auto split: scan_outcome.splits)
    moreover have "(\<exists>i. p + 8 * i \<le> e \<and> ?hit (p + 8 * i)) \<longleftrightarrow>
        ?hit p \<or> (\<exists>i. p + 8 + 8 * i \<le> e \<and> ?hit (p + 8 + 8 * i))"
    proof -
      have "(\<exists>i. Q i) \<longleftrightarrow> Q 0 \<or> (\<exists>i. Q (Suc i))" for Q :: "nat \<Rightarrow> bool"
        by (metis not0_implies_Suc)
      from this [of "\<lambda>i. p + 8 * i \<le> e \<and> ?hit (p + 8 * i)"] True
      show ?thesis by (simp add: add.assoc)
    qed
    ultimately show ?thesis by simp
  next
    case False
    then show ?thesis by (subst forward_scan.simps) auto
  qed
qed

lemma forward_scan_finds_valid_healthy:
  "healthy f \<Longrightarrow> forward_scan_finds_valid crc f ctx x expected =
     Inr (valid_ahead crc (fdata f) (ctx_segment_size ctx) (ctx_max_record_size ctx) x expected)"
  by (simp add: forward_scan_finds_valid_def Let_def forward_scan_healthy valid_ahead_def)

text \<open>\<open>zeroed\<close> is the file after a successful durable zeroing from \<open>x\<close> on.\<close>

definition zeroed :: "osfile \<Rightarrow> nat \<Rightarrow> nat \<Rightarrow> osfile" where
  "zeroed f x ssz =
     f\<lparr>fdata := pwrite x (zeros (ssz - x)) (fdata f), fsynced := pwrite x (zeros (ssz - x)) (fdata f)\<rparr>"

lemma zero_to_eof_zeroed: "zero_to_eof f x ssz [] = (Inr (), zeroed f x ssz, [])"
  by (simp add: zero_to_eof_ok zeroed_def Let_def)

lemma zeroed_simps [simp]:
  "fdata (zeroed f x ssz) = pwrite x (zeros (ssz - x)) (fdata f)"
  "fsynced (zeroed f x ssz) = pwrite x (zeros (ssz - x)) (fdata f)"
  "healthy (zeroed f x ssz) = healthy f"
  by (simp_all add: zeroed_def healthy_def)

text \<open>
  Recovery of one segment, as a function of what it parses: the specification that
  \<open>recover_segment\<close> meets on a platform without failures.
\<close>

definition recovery_spec ::
    "(bytes \<Rightarrow> u32) \<Rightarrow> osfile \<Rightarrow> lsn \<Rightarrow> bool \<Rightarrow> nat \<Rightarrow> nat \<Rightarrow> segment_recovery result \<times> osfile" where
  "recovery_spec crc f base is_active ssz mx =
     (case parse_run crc (fdata f) ssz mx 64 (Some base) of
        (rs, x) \<Rightarrow>
          let lv = run_last (Lsn (lsn_val base - 1)) rs;
              ok = (\<lambda>ts. Inr \<lparr>max_lsn = lv, rec_write_offset = x, rec_tail_state = ts\<rparr>);
              full = Corruption base x ''data after the last LSN (u64::MAX)''
          in case scan_bytes crc (fdata f) x ssz mx of
               CleanEnd \<Rightarrow> (ok Clean, f)
             | out \<Rightarrow>
                 (case checked_next lv of
                    Some want \<Rightarrow>
                      if \<not> is_active
                      then (Inl (Corruption base x ''invalid record in sealed segment''), f)
                      else if valid_ahead crc (fdata f) ssz mx x want
                      then (Inl (TornMidLog base x), f)
                      else (ok (TruncatedAt base x), zeroed f x ssz)
                  | None \<Rightarrow>
                      if out = ScanInvalid \<and> is_active \<and> length (fdata f) < saturating_add x 20
                         \<and> all_zero (drop x (fdata f))
                      then (ok (TruncatedAt base x), zeroed f x ssz)
                      else (Inl full, f)))"

lemma classify_healthy:
  "healthy f \<Longrightarrow> classify crc f ctx x want lv [] =
     (if \<not> ctx_is_active ctx
      then (Inl (Corruption (ctx_base ctx) x ''invalid record in sealed segment''), f, [])
      else if valid_ahead crc (fdata f) (ctx_segment_size ctx) (ctx_max_record_size ctx) x want
      then (Inl (TornMidLog (ctx_base ctx) x), f, [])
      else (Inr \<lparr>max_lsn = lv, rec_write_offset = x, rec_tail_state = TruncatedAt (ctx_base ctx) x\<rparr>,
            zeroed f x (ctx_segment_size ctx), []))"
  by (simp add: classify_def forward_scan_finds_valid_healthy zero_to_eof_zeroed)

lemma at_capacity_healthy:
  assumes "healthy f" "x \<le> length (fdata f)"
  shows "at_capacity_invalid f ctx x lv [] =
     (if ctx_is_active ctx \<and> length (fdata f) < saturating_add x 20 \<and> all_zero (drop x (fdata f))
      then (Inr \<lparr>max_lsn = lv, rec_write_offset = x, rec_tail_state = TruncatedAt (ctx_base ctx) x\<rparr>,
            zeroed f x (ctx_segment_size ctx), [])
      else (Inl (after_exhaustion ctx x), f, []))"
proof -
  have "read_exact_at f x (length (fdata f) - x) = Inr (drop x (fdata f))"
    using assms by (simp add: read_exact_at_def window_def)
  then show ?thesis
    by (simp add: at_capacity_invalid_def metadata_len_def zero_to_eof_zeroed)
qed

lemma checked_next_pred:
  assumes "\<not> is_none base"
  shows "checked_next (Lsn (lsn_val base - 1)) = Some base"
proof -
  from assms have "1 \<le> lsn_val base" by (simp add: is_none_def word_le_nat_alt Suc_le_eq unat_gt_0)
  then have "unat (lsn_val base - 1) = unat (lsn_val base) - 1" by (simp add: unat_sub)
  with assms show ?thesis
    by (simp add: checked_next_Some lsn_nat_def is_none_def unat_gt_0)
qed

lemma parse_run_inside:
  assumes "parse_run crc data ssz mx off (checked_next lv) = (rs, x)" "rs \<noteq> []"
  shows "x \<le> length data"
proof -
  from assms obtain l k n where s: "scan_bytes crc data off ssz mx = ScanRecord l k n" and l: "checked_next lv = Some l"
    using parse_run_stop [of crc data off ssz mx "checked_next lv"] by fastforce
  obtain rs' x' where r: "parse_run crc data ssz mx (off + n) (checked_next l) = (rs', x')" by fastforce
  with assms(1) l parse_run_step [OF s] have "x = x'" by simp
  moreover have "off + n \<le> length data" using scan_bytes_Record [OF s] by simp
  ultimately show ?thesis using parse_run_end(3) [OF r] by simp
qed

lemma recover_segment_spec:
  assumes "healthy f" "\<not> is_none base"
  shows "recover_segment crc f base is_active ssz mx [] =
    (let r = recovery_spec crc f base is_active ssz mx in (fst r, snd r, []))"
proof -
  define ctx where "ctx = \<lparr>ctx_base = base, ctx_is_active = is_active, ctx_segment_size = ssz,
                 ctx_max_record_size = mx\<rparr>"
  define lv0 where "lv0 = Lsn (lsn_val base - 1)"
  have nx: "checked_next lv0 = Some base" using assms(2) by (simp add: lv0_def checked_next_pred)
  obtain rs x where run: "parse_run crc (fdata f) ssz mx 64 (Some base) = (rs, x)" by fastforce
  define lv where "lv = run_last lv0 rs"
  note pe = parse_run_end [of crc "fdata f" ssz mx 64 lv0, unfolded nx, OF run]
  have "recover_segment crc f base is_active ssz mx [] = recover_loop crc f ctx [] 64 (checked_next lv0) lv0"
    by (simp add: recover_segment_def ctx_def lv0_def nx [unfolded lv0_def])
  also have "\<dots> = recover_loop crc f ctx [] x (checked_next lv) lv"
    unfolding lv_def by (rule recover_loop_parse [OF assms(1)]) (simp add: ctx_def nx run)
  finally have loop: "recover_segment crc f base is_active ssz mx [] = recover_loop crc f ctx [] x (checked_next lv) lv" .
  obtain buf where rd: "read_record_at crc f x ssz mx = Inr (scan_bytes crc (fdata f) x ssz mx, buf)"
    using read_record_at_healthy [OF assms(1)] by blast
  have x: "x \<le> length (fdata f)" if "checked_next lv = None"
  proof (rule parse_run_inside [of crc "fdata f" ssz mx 64 lv0 rs x])
    show "parse_run crc (fdata f) ssz mx 64 (checked_next lv0) = (rs, x)" by (simp add: nx run)
    show "rs \<noteq> []" using that nx by (auto simp: lv_def)
  qed
  show ?thesis
    unfolding loop recovery_spec_def run lv0_def [symmetric] lv_def [symmetric] prod.case
    using rd pe(4) x
    by (subst recover_loop.simps)
      (auto simp: ctx_def lv_def [symmetric] Let_def classify_healthy [OF assms(1)]
        at_capacity_healthy [OF assms(1)] after_exhaustion_def split: scan_outcome.splits option.splits)
qed

section \<open>Stability of the run\<close>

text \<open>The run depends on its own bytes only.\<close>

lemma scan_bytes_cong:
  assumes s: "scan_bytes crc data off ssz mx = ScanRecord l k n"
    and t: "take (off + n) data' = take (off + n) data"
  shows "scan_bytes crc data' off ssz mx = ScanRecord l k n"
proof -
  note b = scan_bytes_Record [OF s]
  let ?D = "drop off (take ssz data)" and ?D' = "drop off (take ssz data')"
  from s obtain p where p: "decode crc ?D mx = Record l p n" "k = length p" and big: "\<not> ssz - off < 20"
    by (auto simp: scan_bytes_def split: if_splits decoded.splits)
  have "take n ?D = drop off (take (off + n) data)" "take n ?D' = drop off (take (off + n) data')"
    using b(3) by (simp_all add: take_drop min_absorb1 add.commute)
  with t have "take n ?D' = take n ?D" by simp
  then have "?D' = take n ?D @ drop n ?D'" by (metis append_take_drop_id)
  with decode_Record_take [OF p(1), of "drop n ?D'"] have "decode crc ?D' mx = Record l p n" by simp
  with big p(2) show ?thesis by (simp add: scan_bytes_def)
qed

lemma window_cong_take: "take m xs = take m ys \<Longrightarrow> j \<le> m \<Longrightarrow> window i j xs = window i j ys"
  by (metis window_take)

lemma parse_run_cong:
  assumes run: "parse_run crc data ssz mx off (checked_next lv) = (rs, x)"
    and t: "take x data' = take x data"
    and stop: "\<And>l k n. scan_bytes crc data' x ssz mx = ScanRecord l k n \<Longrightarrow>
       checked_next (run_last lv rs) \<noteq> Some l"
  shows "parse_run crc data' ssz mx off (checked_next lv) = (rs, x)"
  using run stop
proof (induction "ssz - off" arbitrary: off lv rs rule: less_induct)
  case less
  show ?case
  proof (cases "\<exists>l k n. scan_bytes crc data off ssz mx = ScanRecord l k n \<and> checked_next lv = Some l")
    case False
    then have "parse_run crc data ssz mx off (checked_next lv) = ([], off)"
      by (intro parse_run_stop) blast
    with less.prems have "rs = []" "x = off" by simp_all
    with less.prems(2) show ?thesis by (auto intro: parse_run_stop)
  next
    case True
    then obtain l k n where s: "scan_bytes crc data off ssz mx = ScanRecord l k n"
      and l: "checked_next lv = Some l" by blast
    note b = scan_bytes_Record [OF s]
    obtain rs' x' where r: "parse_run crc data ssz mx (off + n) (checked_next l) = (rs', x')" by fastforce
    from less.prems l r parse_run_step [OF s]
    have rs: "rs = (l, window (off + 20) (off + 20 + k) data) # rs'" "x = x'" by simp_all
    have le: "off + n \<le> x" using parse_run_end(1) [OF r] rs by simp
    have t': "take (off + n) data' = take (off + n) data"
      using t le by (metis min.absorb1 take_take)
    note s' = scan_bytes_cong [OF s t']
    have w: "window (off + 20) (off + 20 + k) data' = window (off + 20) (off + 20 + k) data"
      using window_cong_take [OF t'] b(1) framed_size_bounds(1) [of k] by simp
    have "ssz - (off + n) < ssz - off" using b by simp
    from less.hyps [OF this r [folded rs(2)]] less.prems(2) rs
    have "parse_run crc data' ssz mx (off + n) (checked_next l) = (rs', x)" by simp
    with parse_run_step [OF s'] l rs w show ?thesis by simp
  qed
qed

lemma scan_bytes_zero_tail:
  assumes "all_zero (drop x (take ssz data))" "ssz \<le> length data"
  shows "scan_bytes crc data x ssz mx = CleanEnd"
proof (cases "ssz - x < 20")
  case False
  have "all_zero (take 20 (drop x (take ssz data)))"
    using assms(1) by (metis all_zero_append append_take_drop_id)
  moreover have "20 \<le> length (drop x (take ssz data))" using False assms(2) by simp
  ultimately have "decode crc (drop x (take ssz data)) mx = Sentinel"
    by (simp add: decode_Sentinel_iff)
  with False show ?thesis by (simp add: scan_bytes_def)
qed (simp add: scan_bytes_def)

lemma pwrite_zeros_tail:
  assumes "x \<le> ssz" "x \<le> length data"
  shows "drop x (take ssz (pwrite x (zeros (ssz - x)) data)) = zeros (ssz - x)"
    "ssz \<le> length (pwrite x (zeros (ssz - x)) data)"
    "take x (pwrite x (zeros (ssz - x)) data) = take x data"
  using assms by (simp_all add: pwrite_inside)

lemma parse_run_zeroed:
  assumes "parse_run crc data ssz mx off (checked_next lv) = (rs, x)"
    and "off \<le> ssz" "off \<le> length data"
  shows "parse_run crc (pwrite x (zeros (ssz - x)) data) ssz mx off (checked_next lv) = (rs, x)"
    "scan_bytes crc (pwrite x (zeros (ssz - x)) data) x ssz mx = CleanEnd"
proof -
  note x = parse_run_end(2,3) [OF assms(1)]
  show clean: "scan_bytes crc (pwrite x (zeros (ssz - x)) data) x ssz mx = CleanEnd"
    by (rule scan_bytes_zero_tail) (use pwrite_zeros_tail [of x ssz data] x assms(2,3) in simp_all)
  show "parse_run crc (pwrite x (zeros (ssz - x)) data) ssz mx off (checked_next lv) = (rs, x)"
    by (rule parse_run_cong [OF assms(1)])
      (use pwrite_zeros_tail(3) [of x ssz data] x assms(2,3) clean in simp_all)
qed

end
