(* ===== verification/Wal_Layout.thy ===== *)
theory Wal_Layout
  imports Wal_Recovery
begin

text \<open>
  What a well-formed segment looks like as bytes: runs of frames with consecutive LSNs,
  segment images, and how the scanner, the codec's \<open>peek\<close> and the recovery scan read
  them back.
\<close>

section \<open>Runs of frames\<close>

fun frames :: "(bytes \<Rightarrow> u32) \<Rightarrow> nat \<Rightarrow> bytes list \<Rightarrow> bytes" where
  "frames crc n [] = []"
| "frames crc n (p # ps) = frame crc (lsn_of n) p @ frames crc (Suc n) ps"

fun frames_size :: "bytes list \<Rightarrow> nat" where
  "frames_size [] = 0"
| "frames_size (p # ps) = framed_size (length p) + frames_size ps"

fun number_from :: "nat \<Rightarrow> bytes list \<Rightarrow> (lsn \<times> bytes) list" where
  "number_from n [] = []"
| "number_from n (p # ps) = (lsn_of n, p) # number_from (Suc n) ps"

definition payloads_ok :: "nat \<Rightarrow> bytes list \<Rightarrow> bool" where
  "payloads_ok mx ps \<longleftrightarrow> list_all (\<lambda>p. length p \<le> mx) ps"

lemma payloads_ok_simps [simp]:
  "payloads_ok mx []"
  "payloads_ok mx (p # ps) \<longleftrightarrow> length p \<le> mx \<and> payloads_ok mx ps"
  "payloads_ok mx (ps @ qs) \<longleftrightarrow> payloads_ok mx ps \<and> payloads_ok mx qs"
  by (simp_all add: payloads_ok_def)

lemma length_frames [simp, byte_simps]: "length (frames crc n ps) = frames_size ps"
  by (induction ps arbitrary: n) simp_all

lemma frames_append: "frames crc n (ps @ qs) = frames crc n ps @ frames crc (n + length ps) qs"
  by (induction ps arbitrary: n) simp_all

lemma frames_size_append [simp]: "frames_size (ps @ qs) = frames_size ps + frames_size qs"
  by (induction ps) simp_all

lemma frames_size_mod8: "frames_size ps mod 8 = 0"
  by (induction ps) (auto simp: framed_size_mod8 mod_add_eq [symmetric] simp del: mod_add_eq)

lemma frames_eq_Nil [simp]: "frames crc n ps = [] \<longleftrightarrow> ps = []"
  by (cases ps) simp_all

lemma frames_size_eq_0 [simp]: "frames_size ps = 0 \<longleftrightarrow> ps = []"
proof (cases ps)
  case (Cons p qs)
  then show ?thesis using framed_size_ge24 [of "length p"] by simp
qed simp

lemma number_from_append: "number_from n (ps @ qs) = number_from n ps @ number_from (n + length ps) qs"
  by (induction ps arbitrary: n) simp_all

lemma length_number_from [simp]: "length (number_from n ps) = length ps"
  by (induction ps arbitrary: n) simp_all

lemma map_snd_number_from [simp]: "map snd (number_from n ps) = ps"
  by (induction ps arbitrary: n) simp_all

lemma map_fst_number_from: "map fst (number_from n ps) = map lsn_of [n ..< n + length ps]"
  by (induction ps arbitrary: n) (simp_all add: upt_conv_Cons del: upt_Suc)

section \<open>Reading frames back\<close>

lemma scan_bytes_frame:
  assumes "length p \<le> mx" "mx \<le> u32_max" "length pre + framed_size (length p) \<le> ssz"
  shows "scan_bytes crc (pre @ frame crc l p @ r) (length pre) ssz mx
       = ScanRecord l (length p) (framed_size (length p))"
proof -
  have "drop (length pre) (take ssz (pre @ frame crc l p @ r))
      = frame crc l p @ take (ssz - (length pre + framed_size (length p))) r"
    using assms(3) by simp
  moreover have "\<not> ssz - length pre < 20"
    using assms(3) framed_size_ge24 [of "length p"] by linarith
  ultimately show ?thesis
    using decode_frame [of p mx crc l] assms(1,2) by (simp add: scan_bytes_def)
qed

lemma parse_run_frames:
  assumes "payloads_ok mx ps" "mx \<le> u32_max" "n + length ps \<le> Suc u64_max" "0 < n"
    "length pre + frames_size ps \<le> ssz"
  shows "parse_run crc (pre @ frames crc n ps @ r) ssz mx (length pre) (checked_next (lsn_of (n - 1)))
    = (case parse_run crc (pre @ frames crc n ps @ r) ssz mx (length pre + frames_size ps)
              (checked_next (lsn_of (n + length ps - 1))) of
         (rs, x) \<Rightarrow> (number_from n ps @ rs, x))"
  using assms
proof (induction ps arbitrary: n pre)
  case Nil
  then show ?case by simp
next
  case (Cons p ps)
  let ?d = "pre @ frames crc n (p # ps) @ r"
  have s: "scan_bytes crc ?d (length pre) ssz mx
      = ScanRecord (lsn_of n) (length p) (framed_size (length p))"
    using scan_bytes_frame [of p mx pre ssz crc "lsn_of n" "frames crc (Suc n) ps @ r"] Cons.prems
    by simp
  have nx: "checked_next (lsn_of (n - 1)) = Some (lsn_of n)"
    using Cons.prems(3,4) checked_next_lsn_of [of "n - 1"] by simp
  have w: "window (length pre + 20) (length pre + 20 + length p) ?d = p"
    using frame_payload_field [of p crc "lsn_of n" "frames crc (Suc n) ps @ r"]
    by (simp add: window_append_right)
  have "parse_run crc ((pre @ frame crc (lsn_of n) p) @ frames crc (Suc n) ps @ r) ssz mx
      (length (pre @ frame crc (lsn_of n) p)) (checked_next (lsn_of (Suc n - 1)))
    = (case parse_run crc ((pre @ frame crc (lsn_of n) p) @ frames crc (Suc n) ps @ r) ssz mx
         (length (pre @ frame crc (lsn_of n) p) + frames_size ps)
         (checked_next (lsn_of (Suc n + length ps - 1))) of
         (rs, x) \<Rightarrow> (number_from (Suc n) ps @ rs, x))"
    by (rule Cons.IH) (use Cons.prems in simp_all)
  then show ?case
    unfolding nx parse_run_step [OF s] w by (simp add: add.assoc split: prod.splits)
qed

text \<open>A run of frames and then anything the scanner does not continue with.\<close>

lemma parse_run_frames_stop:
  assumes "payloads_ok mx ps" "mx \<le> u32_max" "n + length ps \<le> Suc u64_max" "0 < n"
    "length pre + frames_size ps \<le> ssz" "n \<le> u64_max"
    "\<And>l k m. scan_bytes crc (pre @ frames crc n ps @ r) (length pre + frames_size ps) ssz mx
        = ScanRecord l k m \<Longrightarrow> checked_next (lsn_of (n + length ps - 1)) \<noteq> Some l"
  shows "parse_run crc (pre @ frames crc n ps @ r) ssz mx (length pre) (Some (lsn_of n))
    = (number_from n ps, length pre + frames_size ps)"
proof -
  have nx: "checked_next (lsn_of (n - 1)) = Some (lsn_of n)"
    using assms(4,6) checked_next_lsn_of [of "n - 1"] by simp
  have "parse_run crc (pre @ frames crc n ps @ r) ssz mx (length pre + frames_size ps)
              (checked_next (lsn_of (n + length ps - 1))) = ([], length pre + frames_size ps)"
    by (rule parse_run_stop) (rule assms(7))
  with parse_run_frames [OF assms(1-5)] nx show ?thesis by simp
qed

lemma run_last_number_from:
  "0 < n \<Longrightarrow> run_last (lsn_of (n - 1)) (number_from n ps) = lsn_of (n + length ps - 1)"
proof (induction ps arbitrary: n)
  case (Cons p ps)
  from Cons.IH [of "Suc n"] show ?case by simp
qed simp

section \<open>Segment images\<close>

text \<open>
  A segment image: a 64-byte header, a run of frames from LSN \<open>n\<close> on, and the rest \<open>r\<close>.
  A segment as the writer leaves it has zeros for the rest.
\<close>

definition seg_image :: "(bytes \<Rightarrow> u32) \<Rightarrow> bytes \<Rightarrow> nat \<Rightarrow> bytes list \<Rightarrow> bytes \<Rightarrow> bytes" where
  "seg_image crc h n ps r = h @ frames crc n ps @ r"

definition seg_bytes :: "(bytes \<Rightarrow> u32) \<Rightarrow> bytes \<Rightarrow> nat \<Rightarrow> bytes list \<Rightarrow> nat \<Rightarrow> bytes" where
  "seg_bytes crc h n ps ssz = seg_image crc h n ps (zeros (ssz - 64 - frames_size ps))"

definition seg_wf :: "nat \<Rightarrow> nat \<Rightarrow> bytes \<Rightarrow> nat \<Rightarrow> bytes list \<Rightarrow> bool" where
  "seg_wf ssz mx h n ps \<longleftrightarrow> length h = 64 \<and> 0 < n \<and> n + length ps \<le> Suc u64_max \<and> n \<le> u64_max
     \<and> payloads_ok mx ps \<and> mx \<le> u32_max \<and> 64 + frames_size ps \<le> ssz"

lemma seg_image_frames:
  "seg_image crc h n (ps @ qs) r = seg_image crc h n ps (frames crc (n + length ps) qs @ r)"
  by (simp add: seg_image_def frames_append)

lemma length_seg_image: "length h = 64 \<Longrightarrow> length (seg_image crc h n ps r) = 64 + frames_size ps + length r"
  by (simp add: seg_image_def)

lemma length_seg_bytes: "seg_wf ssz mx h n ps \<Longrightarrow> length (seg_bytes crc h n ps ssz) = ssz"
  by (simp add: seg_bytes_def length_seg_image seg_wf_def)

lemma seg_bytes_fresh:
  "seg_bytes crc (encode_header crc (lsn_of n) c) n [] ssz = fresh_segment crc c (lsn_of n) ssz"
  by (simp add: seg_bytes_def seg_image_def fresh_segment_def)

lemma seg_wf_append: "seg_wf ssz mx h n (ps @ qs) \<Longrightarrow> seg_wf ssz mx h n ps"
  by (simp add: seg_wf_def)

lemma seg_wf_le: "seg_wf ssz mx h n ps \<Longrightarrow> 64 + frames_size ps \<le> ssz"
  by (simp add: seg_wf_def)

lemma parse_run_image:
  assumes "seg_wf ssz mx h n ps"
  shows "parse_run crc (seg_image crc h n ps r) ssz mx 64 (Some (lsn_of n))
    = (case parse_run crc (seg_image crc h n ps r) ssz mx (64 + frames_size ps)
              (checked_next (lsn_of (n + length ps - 1))) of
         (rs, x) \<Rightarrow> (number_from n ps @ rs, x))"
proof -
  have nx: "checked_next (lsn_of (n - 1)) = Some (lsn_of n)"
    using assms checked_next_lsn_of [of "n - 1"] by (simp add: seg_wf_def)
  show ?thesis
    using parse_run_frames [of mx ps n h ssz crc r] assms
    by (simp add: seg_wf_def seg_image_def nx [simplified])
qed

lemma parse_run_image_stop:
  assumes "seg_wf ssz mx h n ps"
    and "\<And>l k m. scan_bytes crc (seg_image crc h n ps r) (64 + frames_size ps) ssz mx = ScanRecord l k m
       \<Longrightarrow> checked_next (lsn_of (n + length ps - 1)) \<noteq> Some l"
  shows "parse_run crc (seg_image crc h n ps r) ssz mx 64 (Some (lsn_of n))
    = (number_from n ps, 64 + frames_size ps)"
  unfolding parse_run_image [OF assms(1)]
  by (subst parse_run_stop) (use assms(2) in auto)

lemma scan_image_zero_tail:
  assumes "seg_wf ssz mx h n ps" "64 + frames_size ps + k = ssz"
  shows "scan_bytes crc (seg_image crc h n ps (zeros k)) (64 + frames_size ps) ssz mx = CleanEnd"
  by (rule scan_bytes_zero_tail) (use assms in \<open>simp_all add: seg_image_def seg_wf_def\<close>)

lemma scan_image_zeros:
  assumes "seg_wf ssz mx h n ps"
  shows "scan_bytes crc (seg_bytes crc h n ps ssz) (64 + frames_size ps) ssz mx = CleanEnd"
  unfolding seg_bytes_def by (rule scan_image_zero_tail [OF assms]) (use seg_wf_le [OF assms] in simp)

lemma lsn_pred_of: "0 < n \<Longrightarrow> n \<le> u64_max \<Longrightarrow> Lsn (lsn_val (lsn_of n) - 1) = lsn_of (n - 1)"
  by (cases n) (simp_all add: lsn_of_def)

lemma seg_wf_not_none: "seg_wf ssz mx h n ps \<Longrightarrow> \<not> is_none (lsn_of n)"
  by (simp add: is_none_iff seg_wf_def)

text \<open>Recovery of an image whose scan stops at the end of the frames.\<close>

definition settle ::
    "(bytes \<Rightarrow> u32) \<Rightarrow> osfile \<Rightarrow> lsn \<Rightarrow> bool \<Rightarrow> nat \<Rightarrow> nat \<Rightarrow> lsn \<Rightarrow> nat
     \<Rightarrow> segment_recovery result \<times> osfile" where
  "settle crc f base is_active ssz mx lv x =
     (let ok = (\<lambda>ts. Inr \<lparr>max_lsn = lv, rec_write_offset = x, rec_tail_state = ts\<rparr>) in
      case scan_bytes crc (fdata f) x ssz mx of
        CleanEnd \<Rightarrow> (ok Clean, f)
      | out \<Rightarrow>
          (case checked_next lv of
             Some want \<Rightarrow>
               if \<not> is_active
               then (Inl (Corruption base x ''invalid record in sealed segment''), f)
               else if valid_ahead crc (fdata f) ssz mx x want
               then (Inl (TornMidLog base x), f)
               else (ok (TruncatedAt base x), zeroed f x ssz)
           | None \<Rightarrow>
               if out = ScanInvalid \<and> is_active \<and> length (fdata f) < saturating_add x 20
                  \<and> all_zero (drop x (fdata f))
               then (ok (TruncatedAt base x), zeroed f x ssz)
               else (Inl (Corruption base x ''data after the last LSN (u64::MAX)''), f)))"

lemma recovery_spec_settle:
  "parse_run crc (fdata f) ssz mx 64 (Some base) = (rs, x) \<Longrightarrow>
   recovery_spec crc f base is_active ssz mx
     = settle crc f base is_active ssz mx (run_last (Lsn (lsn_val base - 1)) rs) x"
  by (simp add: recovery_spec_def settle_def Let_def)

lemma recover_segment_image:
  assumes "seg_wf ssz mx h n ps" "healthy f" "fdata f = seg_image crc h n ps r"
    and "\<And>l k m. scan_bytes crc (seg_image crc h n ps r) (64 + frames_size ps) ssz mx = ScanRecord l k m
       \<Longrightarrow> checked_next (lsn_of (n + length ps - 1)) \<noteq> Some l"
  shows "recover_segment crc f (lsn_of n) is_active ssz mx [] =
    (let s = settle crc f (lsn_of n) is_active ssz mx (lsn_of (n + length ps - 1)) (64 + frames_size ps)
     in (fst s, snd s, []))"
proof -
  have run: "parse_run crc (fdata f) ssz mx 64 (Some (lsn_of n)) = (number_from n ps, 64 + frames_size ps)"
    unfolding assms(3) by (rule parse_run_image_stop [OF assms(1,4)])
  have lv: "run_last (Lsn (lsn_val (lsn_of n) - 1)) (number_from n ps) = lsn_of (n + length ps - 1)"
    using assms(1) run_last_number_from [of n ps] by (simp add: seg_wf_def lsn_pred_of)
  show ?thesis
    using recover_segment_spec [OF assms(2) seg_wf_not_none [OF assms(1)], of crc is_active ssz mx]
      recovery_spec_settle [OF run] assms(1,3) lv
    by (simp add: length_seg_image seg_wf_def)
qed

lemma recover_segment_clean:
  assumes "seg_wf ssz mx h n ps" "healthy f" "fdata f = seg_bytes crc h n ps ssz"
  shows "recover_segment crc f (lsn_of n) is_active ssz mx [] =
    (Inr \<lparr>max_lsn = lsn_of (n + length ps - 1), rec_write_offset = 64 + frames_size ps,
          rec_tail_state = Clean\<rparr>, f, [])"
proof -
  have clean: "scan_bytes crc (fdata f) (64 + frames_size ps) ssz mx = CleanEnd"
    unfolding assms(3) by (rule scan_image_zeros [OF assms(1)])
  then have "settle crc f (lsn_of n) is_active ssz mx l (64 + frames_size ps)
      = (Inr \<lparr>max_lsn = l, rec_write_offset = 64 + frames_size ps, rec_tail_state = Clean\<rparr>, f)" for l
    by (simp add: settle_def)
  moreover have "recover_segment crc f (lsn_of n) is_active ssz mx [] =
    (let s = settle crc f (lsn_of n) is_active ssz mx (lsn_of (n + length ps - 1)) (64 + frames_size ps)
     in (fst s, snd s, []))"
    by (rule recover_segment_image [OF assms(1,2) assms(3) [unfolded seg_bytes_def]])
      (use clean assms(3) in \<open>simp add: seg_bytes_def\<close>)
  ultimately show ?thesis by simp
qed

end
