(* ===== verification/Wal_Corruption.thy ===== *)
theory Wal_Corruption
  imports Wal_Layout
begin

text \<open>
  What the format detects: a frame with one byte changed is rejected by the codec, an
  invalid record inside the log is fatal, and an invalid record at its end is cut off.
  The checksum's guarantee the code relies on is the hypothesis \<open>detects_byte\<close>.
\<close>

section \<open>One changed byte\<close>

text \<open>A change confined to one byte changes the checksum (CRC-32C detects every burst of
  at most 32 bits).\<close>

definition detects_byte :: "(bytes \<Rightarrow> u32) \<Rightarrow> bool" where
  "detects_byte crc \<longleftrightarrow> (\<forall>bs i b. i < length bs \<longrightarrow> b \<noteq> bs ! i \<longrightarrow> crc (bs[i := b]) \<noteq> crc bs)"

lemma window_update_out: "i < a \<or> b \<le> i \<Longrightarrow> window a b (xs[i := v]) = window a b xs"
  by (auto simp: window_def list_eq_iff_nth_eq nth_list_update)

lemma window_update_in:
  "a \<le> i \<Longrightarrow> i < b \<Longrightarrow> window a b (xs[i := v]) = (window a b xs)[i - a := v]"
  by (auto simp: window_def drop_update_swap take_update_swap)

lemma u32_le_bytes_inject:
  assumes "length a = 4" "length b = 4" "u32_from_le_bytes a = u32_from_le_bytes b"
  shows "a = b"
proof -
  have inv: "u32_to_le_bytes (u32_from_le_bytes c) = c" if "length c = 4" for c
    using that le_val_bound [of c]
    by (simp add: u32_to_le_bytes_def u32_from_le_bytes_def le_bytes_le_val unat_word_of_nat_id)
  from assms show ?thesis by (metis inv)
qed

lemma le_bytes_0 [simp]: "le_bytes n 0 = zeros n"
  by (induction n) simp_all

lemma u64_le_bytes_zero: "all_zero (u64_to_le_bytes w) \<longleftrightarrow> w = 0"
proof
  assume "all_zero (u64_to_le_bytes w)"
  then have "u64_to_le_bytes w = zeros 8" using all_zero_conv by fastforce
  then have "u64_from_le_bytes (u64_to_le_bytes w) = 0" by (simp add: u64_from_le_bytes_def)
  then show "w = 0" by simp
qed (simp add: u64_to_le_bytes_def)

lemma all_zero_window: "all_zero (take n xs) \<Longrightarrow> j \<le> n \<Longrightarrow> all_zero (window i j xs)"
  by (metis all_zero_conv window_take window_zeros length_window)

lemma all_zero_nth: "all_zero xs \<Longrightarrow> i < length xs \<Longrightarrow> xs ! i = 0"
  by (simp add: all_zero_def list_all_length)

lemma changed_header_nonzero:
  assumes "lsn_val l \<noteq> 0" "i < 4 \<or> 8 \<le> i"
  shows "\<not> all_zero (take 20 ((frame crc l p)[i := b] @ r))"
proof
  let ?g = "(frame crc l p)[i := b] @ r"
  assume z: "all_zero (take 20 ?g)"
  have len: "24 \<le> length (frame crc l p)" by (simp add: framed_size_ge24)
  show False
  proof (cases "i = 16")
    case True
    then have "window 8 16 ?g = u64_to_le_bytes (lsn_val l)"
      using len frame_lsn_field [of crc l p "[]"] by (simp add: window_append_left window_update_out)
    with all_zero_window [OF z, of 16 8] assms(1) show False by (simp add: u64_le_bytes_zero)
  next
    case False
    then have "?g ! 16 = 1"
      using len frame_type_field [of crc l p "[]"] by (simp add: nth_append)
    moreover have "take 20 ?g ! 16 = ?g ! 16" by (rule nth_take) simp
    ultimately show False using all_zero_nth [OF z, of 16] len by simp
  qed
qed

lemma decode_changed_byte:
  assumes crc: "detects_byte crc" and p: "length p \<le> mx" "length p \<le> u32_max"
    and l: "lsn_val l \<noteq> 0"
    and i: "i < framed_size (length p)" "i < 4 \<or> 8 \<le> i" "b \<noteq> frame crc l p ! i"
  shows "decode crc ((frame crc l p)[i := b] @ r) mx = Invalid BadCrc"
proof -
  define F where "F = frame crc l p"
  let ?g = "F[i := b] @ r"
  have lF: "length F = framed_size (length p)" by (simp add: F_def)
  have 24: "24 \<le> length F" by (simp add: lF framed_size_ge24)
  note ff = frame_crc_field [of crc l p "[]"] frame_len_field [of crc l p "[]"]
    frame_covered [of p crc l "[]"]
  have left: "window a c ?g = window a c (F[i := b])" if "c \<le> length F" for a c
    using that by (simp add: window_append_left)
  have len: "unat (u32_from_le_bytes (window 4 8 ?g)) = length p"
    using i(2) 24 ff(2) left [of 8 4] p(2) by (simp add: window_update_out F_def unat_len_field)
  have mismatch: "crc (window 4 (length F) ?g) \<noteq> u32_from_le_bytes (window 0 4 ?g)"
  proof (cases "i < 4")
    case True
    have cov: "window 4 (length F) ?g = rec_body l p"
      using True ff(3) left [of "length F" 4] by (simp add: window_update_out F_def)
    have st: "window 0 4 ?g = (u32_to_le_bytes (crc (rec_body l p)))[i := b]"
      using True ff(1) 24 left [of 4 0] by (simp add: window_update_in F_def)
    have "(u32_to_le_bytes (crc (rec_body l p))) ! i = F ! i"
      using True by (simp add: F_def frame_def nth_append)
    then have "(u32_to_le_bytes (crc (rec_body l p)))[i := b] \<noteq> u32_to_le_bytes (crc (rec_body l p))"
      using True i(3) by (auto simp: F_def list_eq_iff_nth_eq nth_list_update intro!: exI [of _ i])
    then show ?thesis
      unfolding cov st using u32_le_bytes_inject [of "(u32_to_le_bytes (crc (rec_body l p)))[i := b]"
          "u32_to_le_bytes (crc (rec_body l p))"] by auto
  next
    case False
    then have cov: "window 4 (length F) ?g = (rec_body l p)[i - 4 := b]"
      using ff(3) left [of "length F" 4] i(1) by (simp add: window_update_in F_def)
    have st: "window 0 4 ?g = u32_to_le_bytes (crc (rec_body l p))"
      using False ff(1) 24 left [of 4 0] by (simp add: window_update_out F_def)
    have "rec_body l p ! (i - 4) = F ! i"
      using False by (simp add: F_def frame_def nth_append)
    then have "crc ((rec_body l p)[i - 4 := b]) \<noteq> crc (rec_body l p)"
      using crc i False by (simp add: detects_byte_def F_def length_rec_body)
    then show ?thesis unfolding cov st by simp
  qed
  have nz: "\<not> all_zero (take 20 ?g)"
    unfolding F_def by (rule changed_header_nonzero [OF l i(2)])
  have "\<not> length ?g < 20" "\<not> length ?g < framed_size (length p)" using 24 lF by simp_all
  then have "decode crc ?g mx = Invalid BadCrc"
    unfolding decode_eq len Let_def using nz mismatch p(1) lF by simp
  then show ?thesis by (simp add: F_def)
qed

lemma scan_changed_byte:
  assumes "detects_byte crc" "length p \<le> mx" "mx \<le> u32_max" "lsn_val l \<noteq> 0"
    "i < framed_size (length p)" "i < 4 \<or> 8 \<le> i" "b \<noteq> frame crc l p ! i"
    "length pre + framed_size (length p) \<le> ssz"
  shows "scan_bytes crc (pre @ (frame crc l p)[i := b] @ r) (length pre) ssz mx = ScanInvalid"
proof -
  have "drop (length pre) (take ssz (pre @ (frame crc l p)[i := b] @ r))
      = (frame crc l p)[i := b] @ take (ssz - (length pre + framed_size (length p))) r"
    using assms(8) by simp
  moreover have "\<not> ssz - length pre < 20"
    using assms(8) framed_size_ge24 [of "length p"] by linarith
  ultimately show ?thesis
    using decode_changed_byte [OF assms(1,2) _ assms(4-7)] assms(2,3) by (simp add: scan_bytes_def)
qed

section \<open>Records ahead\<close>

text \<open>A frame that continues the log one record further is found by the forward scan.\<close>

lemma valid_aheadI:
  assumes "scan_bytes crc data (x + m) ssz mx = ScanRecord l k n" "expected \<le> l"
    "m mod 8 = 0" "8 \<le> m" "m \<le> mx + 36" "x + m \<le> u64_max"
  shows "valid_ahead crc data ssz mx x expected"
proof -
  obtain q where q: "m = 8 + 8 * q"
  proof -
    from assms(3) obtain j where "m = 8 * j" by (auto elim!: dvdE simp: mod_eq_0_iff_dvd)
    with assms(4) show ?thesis by (intro that [of "j - 1"]) (cases j, simp_all)
  qed
  have "saturating_add x 8 + 8 * q = x + m"
    using assms(6) q by (simp add: saturating_add_exact)
  moreover have "x + m \<le> saturating_add (saturating_add x 8) (scan_bound mx)"
    using assms(5,6) q by (simp add: saturating_add_def scan_bound_def)
  ultimately show ?thesis
    unfolding valid_ahead_def using assms(1,2) by (intro exI [of _ q]) auto
qed

text \<open>No record type byte at the places a record ahead would have it.\<close>

lemma scan_record_type_byte:
  assumes "scan_bytes crc data off ssz mx = ScanRecord l k n"
  shows "off + 16 < length data \<and> data ! (off + 16) = 1"
proof -
  from assms obtain p where d: "decode crc (drop off (take ssz data)) mx = Record l p n"
    by (auto simp: scan_bytes_def split: if_splits decoded.splits)
  from scan_bytes_Record [OF assms] have "off + 24 \<le> length data" "off + 24 \<le> ssz" by simp_all
  with d show ?thesis by (simp add: decode_Record_iff Let_def)
qed

lemma not_valid_aheadI:
  assumes "\<And>i. x + 24 + 8 * i < length data \<Longrightarrow> data ! (x + 24 + 8 * i) \<noteq> 1" "x + 8 \<le> u64_max"
  shows "\<not> valid_ahead crc data ssz mx x want"
proof
  assume "valid_ahead crc data ssz mx x want"
  then obtain i l k n where "scan_bytes crc data (x + 8 + 8 * i) ssz mx = ScanRecord l k n"
    using assms(2) by (auto simp: valid_ahead_def saturating_add_exact)
  from scan_record_type_byte [OF this] assms(1) [of i] show False by (simp add: add.commute add.left_commute)
qed

lemma not_valid_ahead_zeros:
  assumes "all_zero (drop (x + 24) data)" "x + 8 \<le> u64_max"
  shows "\<not> valid_ahead crc data ssz mx x want"
proof (rule not_valid_aheadI [OF _ assms(2)])
  fix i
  assume "x + 24 + 8 * i < length data"
  then show "data ! (x + 24 + 8 * i) \<noteq> 1"
    using all_zero_nth [OF assms(1), of "8 * i"] by simp
qed

text \<open>
  The segment with a changed byte in record \<open>p\<close> of the log \<open>ps @ p # qs\<close>.
\<close>

definition damaged ::
    "(bytes \<Rightarrow> u32) \<Rightarrow> bytes \<Rightarrow> nat \<Rightarrow> bytes list \<Rightarrow> bytes \<Rightarrow> nat \<Rightarrow> u8 \<Rightarrow> bytes list \<Rightarrow> bytes \<Rightarrow> bytes" where
  "damaged crc h n ps p i b qs r =
     seg_image crc h n ps ((frame crc (lsn_of (n + length ps)) p)[i := b]
       @ frames crc (Suc (n + length ps)) qs @ r)"

lemma damaged_scan:
  assumes wf: "seg_wf ssz mx h n (ps @ p # qs)" and crc: "detects_byte crc"
    and i: "i < framed_size (length p)" "i < 4 \<or> 8 \<le> i"
      "b \<noteq> frame crc (lsn_of (n + length ps)) p ! i"
  shows "scan_bytes crc (damaged crc h n ps p i b qs r) (64 + frames_size ps) ssz mx = ScanInvalid"
proof -
  let ?l = "lsn_of (n + length ps)"
  have "lsn_nat ?l = n + length ps" using wf by (simp add: seg_wf_def)
  then have l: "lsn_val ?l \<noteq> 0" using wf by (auto simp: seg_wf_def lsn_nat_def)
  show ?thesis
    using scan_changed_byte [OF crc _ _ l i, of mx "h @ frames crc n ps" ssz
        "frames crc (Suc (n + length ps)) qs @ r"] wf
    by (simp add: damaged_def seg_image_def seg_wf_def)
qed

lemma damaged_ahead:
  assumes wf: "seg_wf ssz mx h n (ps @ p # q # qs)" and "ssz \<le> u64_max"
  shows "valid_ahead crc (damaged crc h n ps p i b (q # qs) r) ssz mx (64 + frames_size ps)
    (lsn_of (n + length ps))"
proof -
  let ?F = "(frame crc (lsn_of (n + length ps)) p)[i := b]"
  let ?l = "lsn_of (Suc (n + length ps))"
  have s: "scan_bytes crc (damaged crc h n ps p i b (q # qs) r)
      (64 + frames_size ps + framed_size (length p)) ssz mx
      = ScanRecord ?l (length q) (framed_size (length q))"
    using scan_bytes_frame [of q mx "h @ frames crc n ps @ ?F" ssz crc ?l
        "frames crc (Suc (Suc (n + length ps))) qs @ r"] wf
    by (simp add: damaged_def seg_image_def seg_wf_def add.assoc)
  show ?thesis
    by (rule valid_aheadI [OF s])
      (use wf assms(2) framed_size_mod8 [of "length p"] framed_size_bounds [of "length p"]
        framed_size_ge24 [of "length p"] in \<open>auto simp: lsn_le_iff seg_wf_def\<close>)
qed

lemma damaged_stop:
  assumes "seg_wf ssz mx h n (ps @ p # qs)" "detects_byte crc" "i < framed_size (length p)"
    "i < 4 \<or> 8 \<le> i" "b \<noteq> frame crc (lsn_of (n + length ps)) p ! i"
    "healthy f" "fdata f = damaged crc h n ps p i b qs r"
  shows "recover_segment crc f (lsn_of n) is_active ssz mx [] =
    (let s = settle crc f (lsn_of n) is_active ssz mx (lsn_of (n + length ps - 1)) (64 + frames_size ps)
     in (fst s, snd s, []))"
proof -
  have wf: "seg_wf ssz mx h n ps" using assms(1) by (simp add: seg_wf_def)
  show ?thesis
    by (rule recover_segment_image [OF wf assms(6) assms(7) [unfolded damaged_def]])
      (use damaged_scan [OF assms(1-5), of r] in \<open>simp add: damaged_def\<close>)
qed

lemma checked_next_in_wf:
  "seg_wf ssz mx h n (ps @ p # qs) \<Longrightarrow>
   checked_next (lsn_of (n + length ps - 1)) = Some (lsn_of (n + length ps))"
  using checked_next_lsn_of [of "n + length ps - 1"] by (simp add: seg_wf_def)

lemma settle_invalid:
  assumes "scan_bytes crc (fdata f) x ssz mx = ScanInvalid" "checked_next lv = Some want"
  shows "settle crc f base is_active ssz mx lv x =
    (if \<not> is_active then (Inl (Corruption base x ''invalid record in sealed segment''), f)
     else if valid_ahead crc (fdata f) ssz mx x want then (Inl (TornMidLog base x), f)
     else (Inr \<lparr>max_lsn = lv, rec_write_offset = x, rec_tail_state = TruncatedAt base x\<rparr>, zeroed f x ssz))"
  using assms by (simp add: settle_def)

section \<open>Recovery as a whole\<close>

text \<open>Recovering again what recovery has settled.\<close>

lemma recover_segment_settle:
  assumes "healthy f" "\<not> is_none base" "64 \<le> length (fdata f)"
    "parse_run crc (fdata f) ssz mx 64 (Some base) = (rs, x)"
  shows "recover_segment crc f base is_active ssz mx [] =
    (let s = settle crc f base is_active ssz mx (run_last (Lsn (lsn_val base - 1)) rs) x
     in (fst s, snd s, []))"
  using recover_segment_spec [OF assms(1,2)] recovery_spec_settle [OF assms(4)] by simp

lemma settle_cases:
  assumes "settle crc f base is_active ssz mx lv x = (Inr r, f')"
  shows "max_lsn r = lv" "rec_write_offset r = x"
    "rec_tail_state r = Clean \<and> f' = f \<and> scan_bytes crc (fdata f) x ssz mx = CleanEnd
     \<or> rec_tail_state r = TruncatedAt base x \<and> is_active \<and> f' = zeroed f x ssz"
  using assms
  by (auto simp: settle_def Let_def split: scan_outcome.splits option.splits if_splits)

lemma recover_segment_again:
  assumes "healthy f" "\<not> is_none base" "64 \<le> length (fdata f)" "64 \<le> ssz"
    and r: "recover_segment crc f base is_active ssz mx [] = (Inr r, f', flts)"
  shows "recover_segment crc f' base act ssz mx [] = (Inr (r\<lparr>rec_tail_state := Clean\<rparr>), f', [])"
proof -
  obtain rs x where run: "parse_run crc (fdata f) ssz mx 64 (Some base) = (rs, x)" by fastforce
  let ?lv0 = "Lsn (lsn_val base - 1)"
  have nx: "checked_next ?lv0 = Some base" by (rule checked_next_pred [OF assms(2)])
  note run' = run [folded nx]
  let ?lv = "run_last ?lv0 rs"
  from r recover_segment_settle [OF assms(1-3) run]
  have "settle crc f base is_active ssz mx ?lv x = (Inr r, f')" by (simp add: prod_eq_iff Let_def)
  note sc = settle_cases [OF this]
  have "healthy f' \<and> 64 \<le> length (fdata f') \<and> parse_run crc (fdata f') ssz mx 64 (Some base) = (rs, x)
      \<and> scan_bytes crc (fdata f') x ssz mx = CleanEnd"
    using sc(3)
  proof
    assume "rec_tail_state r = TruncatedAt base x \<and> is_active \<and> f' = zeroed f x ssz"
    moreover have "length (fdata f) \<le> length (pwrite x (zeros (ssz - x)) (fdata f))"
      by (cases "ssz - x = 0") (auto simp: length_pwrite)
    ultimately show ?thesis
      using parse_run_zeroed [OF run' assms(4,3)] assms(1,3) nx by auto
  qed (use run assms in auto)
  then have h: "healthy f'" "64 \<le> length (fdata f')"
    "parse_run crc (fdata f') ssz mx 64 (Some base) = (rs, x)"
    "scan_bytes crc (fdata f') x ssz mx = CleanEnd" by auto
  from recover_segment_settle [OF h(1) assms(2) h(2,3), of act] h(4) sc(1,2)
  show ?thesis by (simp add: settle_def)
qed

text \<open>
  Whatever the media and the system calls do: recovery never touches a sealed segment, and
  on the active one it only ever overwrites with zeros from one offset on, the offset it
  reports when it succeeds.
\<close>

definition only_zeroes_from :: "nat \<Rightarrow> nat \<Rightarrow> osfile \<Rightarrow> osfile \<Rightarrow> bool" where
  "only_zeroes_from x ssz f f' \<longleftrightarrow> fbad f' = fbad f \<and> (\<exists>k \<le> ssz - x. fdata f' = pwrite x (zeros k) (fdata f))"

lemma only_zeroes_refl: "only_zeroes_from x ssz f f"
  by (auto simp: only_zeroes_from_def intro: exI [of _ 0])

lemma zero_to_eof_only_zeroes: "zero_to_eof f x ssz flts = (res, f', r) \<Longrightarrow> only_zeroes_from x ssz f f'"
  by (erule zero_to_eof_effect) (auto simp: only_zeroes_from_def)

definition recovery_effect ::
    "recover_ctx \<Rightarrow> osfile \<Rightarrow> nat \<Rightarrow> segment_recovery result \<times> osfile \<times> faults \<Rightarrow> bool" where
  "recovery_effect ctx f off out \<longleftrightarrow>
     (case out of (res, f', r) \<Rightarrow>
       \<exists>x \<ge> off. only_zeroes_from x (ctx_segment_size ctx) f f'
         \<and> (f' \<noteq> f \<longrightarrow> ctx_is_active ctx)
         \<and> (\<forall>rec. res = Inr rec \<longrightarrow> rec_write_offset rec = x
              \<and> (rec_tail_state rec = Clean \<and> f' = f
                 \<or> rec_tail_state rec = TruncatedAt (ctx_base ctx) x \<and> fsynced f' = fdata f')))"

lemma recovery_effect_refl_error: "recovery_effect ctx f off (Inl e, f, r)"
  unfolding recovery_effect_def by (auto intro: only_zeroes_refl)

lemma recovery_effect_zeroing:
  assumes "ctx_is_active ctx" "zero_to_eof f x (ctx_segment_size ctx) flts = (res, f', r)"
  shows "recovery_effect ctx f x
    (case res of Inl e \<Rightarrow> (Inl e, f', r)
     | Inr _ \<Rightarrow> (Inr \<lparr>max_lsn = lv, rec_write_offset = x, rec_tail_state = TruncatedAt (ctx_base ctx) x\<rparr>, f', r))"
proof (cases res)
  case (Inl e)
  then show ?thesis
    using assms(1) zero_to_eof_only_zeroes [OF assms(2)] by (auto simp: recovery_effect_def)
next
  case (Inr u)
  have "fsynced f' = fdata f'"
    by (rule zero_to_eof_effect [OF assms(2)]) (use Inr in simp)
  with Inr show ?thesis
    using assms(1) zero_to_eof_only_zeroes [OF assms(2)] by (auto simp: recovery_effect_def)
qed

lemma classify_effect: "recovery_effect ctx f x (classify crc f ctx x want lv flts)"
proof (cases "zero_to_eof f x (ctx_segment_size ctx) flts")
  case (fields res f' r)
  show ?thesis
    using recovery_effect_zeroing [OF _ fields, of lv]
    by (auto simp: classify_def fields recovery_effect_refl_error split: sum.splits bool.splits)
qed

lemma at_capacity_effect: "recovery_effect ctx f x (at_capacity_invalid f ctx x lv flts)"
proof (cases "metadata_len f flts")
  case (Pair m r0)
  obtain res f' r where z: "zero_to_eof f x (ctx_segment_size ctx) r0 = (res, f', r)"
    by (cases "zero_to_eof f x (ctx_segment_size ctx) r0") auto
  show ?thesis
    using recovery_effect_zeroing [OF _ z, of lv]
    by (auto simp: at_capacity_invalid_def Pair z recovery_effect_refl_error split: sum.splits)
qed

lemma recovery_effect_weaken: "recovery_effect ctx f y out \<Longrightarrow> x \<le> y \<Longrightarrow> recovery_effect ctx f x out"
  unfolding recovery_effect_def by (cases out) (auto intro: order_trans)

lemma recover_loop_effect: "recovery_effect ctx f off (recover_loop crc f ctx flts off expected lv)"
proof (induction "ctx_segment_size ctx - off" arbitrary: off expected lv rule: less_induct)
  case less
  show ?case
  proof (cases "read_record_at crc f off (ctx_segment_size ctx) (ctx_max_record_size ctx)")
    case (Inl e)
    then show ?thesis by (subst recover_loop.simps) (simp add: recovery_effect_refl_error)
  next
    case (Inr ob)
    obtain out buf where ob: "ob = (out, buf)" by fastforce
    show ?thesis
    proof (cases out)
      case (ScanRecord l k n)
      note rd = Inr [unfolded ob ScanRecord]
      note b = read_record_at_Record [OF rd]
      have rec: "recovery_effect ctx f off (recover_loop crc f ctx flts (off + n) (checked_next l) l)"
        by (rule recovery_effect_weaken [OF less.hyps]) (use b in auto)
      show ?thesis
        using rec rd by (subst recover_loop.simps)
          (auto simp: recovery_effect_refl_error classify_effect split: option.splits)
    next
      case CleanEnd
      then show ?thesis
        using Inr ob by (subst recover_loop.simps)
          (auto simp: recovery_effect_def only_zeroes_refl)
    next
      case ScanInvalid
      then show ?thesis
        using Inr ob by (subst recover_loop.simps)
          (auto simp: at_capacity_effect classify_effect split: option.splits)
    qed
  qed
qed

end
