(* ===== verification/Wal_Fuzzing.thy ===== *)
theory Wal_Fuzzing
  imports Wal_Corruption
begin

text \<open>
  The accessors of \<^verbatim>\<open>src/lib.rs\<close> for the fuzz targets and the differential tester, the
  instrumented forward scan of the fuzzing build (\<^verbatim>\<open>scan_probe\<close> of \<^verbatim>\<open>src/recovery.rs\<close>), and the
  reference classifier of \<^verbatim>\<open>tests/differential.rs\<close>, which is written from the file format
  and shares no parsing code with the crate. The reference works on numbers where the crate
  works on its types; the theorems compare the two on every file.
\<close>

section \<open>Accessors\<close>

definition decode_record :: "(bytes \<Rightarrow> u32) \<Rightarrow> bytes \<Rightarrow> nat \<Rightarrow> (nat \<times> nat) option" where
  "decode_record crc buf max_record_size =
     (case decode crc buf max_record_size of
        Record l payload framed_len \<Rightarrow> Some (length payload, framed_len)
      | _ \<Rightarrow> None)"

definition segment_header_bytes :: "(bytes \<Rightarrow> u32) \<Rightarrow> u64 \<Rightarrow> bytes" where
  "segment_header_bytes crc base = encode_header crc (Lsn base) 0"

definition encode_record_into :: "(bytes \<Rightarrow> u32) \<Rightarrow> bytes \<Rightarrow> u64 \<Rightarrow> bytes \<Rightarrow> bytes \<times> nat" where
  "encode_record_into crc buf l payload = encode_into crc buf (Lsn l) payload"

datatype seg_class =
    SegClean nat
  | SegTruncated nat nat
  | SegTornMidLog nat
  | SegCorruption nat
  | OtherErr

definition recover_segment_classify ::
    "(bytes \<Rightarrow> u32) \<Rightarrow> osfile \<Rightarrow> u64 \<Rightarrow> bool \<Rightarrow> nat \<Rightarrow> nat \<Rightarrow> faults \<Rightarrow> seg_class" where
  "recover_segment_classify crc f base_arg is_active segment_size max_record_size flts =
     (case recover_segment crc f (Lsn (max base_arg 1)) is_active segment_size max_record_size flts of
        (Inr r, _) \<Rightarrow>
          (case rec_tail_state r of
             Clean \<Rightarrow> SegClean (lsn_nat (max_lsn r))
           | TruncatedAt _ offset \<Rightarrow> SegTruncated offset (lsn_nat (max_lsn r)))
      | (Inl (TornMidLog _ offset), _) \<Rightarrow> SegTornMidLog offset
      | (Inl (Corruption _ offset _), _) \<Rightarrow> SegCorruption offset
      | (Inl _, _) \<Rightarrow> OtherErr)"

section \<open>The instrumented scan\<close>

text \<open>
  \<^verbatim>\<open>scan_probe\<close> keeps one number per thread, the largest distance recorded since the reset. In
  the fuzzing build the forward scan records each distance and asserts that it stays within
  the bound; a failed assertion is \<open>None\<close>.
\<close>

definition probe_reset :: nat where "probe_reset = 0"

definition probe_record :: "nat \<Rightarrow> nat \<Rightarrow> nat" where
  "probe_record distance peak = (if distance > peak then distance else peak)"

function probed_scan ::
    "(bytes \<Rightarrow> u32) \<Rightarrow> osfile \<Rightarrow> recover_ctx \<Rightarrow> lsn \<Rightarrow> nat \<Rightarrow> nat \<Rightarrow> nat \<Rightarrow> nat \<Rightarrow> bool result option \<times> nat" where
  "probed_scan crc f ctx expected start p end_off peak =
     (if p \<le> end_off then
        let distance = p - start; peak = probe_record distance peak in
        if distance > scan_bound (ctx_max_record_size ctx) then (None, peak)
        else
          (case read_record_at crc f p (ctx_segment_size ctx) (ctx_max_record_size ctx) of
             Inl e \<Rightarrow> (Some (Inl e), peak)
           | Inr (ScanRecord l k n, buf) \<Rightarrow>
               if expected \<le> l then (Some (Inr True), peak)
               else probed_scan crc f ctx expected start (p + 8) end_off peak
           | Inr (_, buf) \<Rightarrow> probed_scan crc f ctx expected start (p + 8) end_off peak)
      else (Some (Inr False), peak))"
  by pat_completeness auto
termination
  by (relation "measure (\<lambda>(crc, f, ctx, expected, start, p, end_off, peak). Suc end_off - p)") auto

declare probed_scan.simps [simp del]

definition probed_scan_finds_valid ::
    "(bytes \<Rightarrow> u32) \<Rightarrow> osfile \<Rightarrow> recover_ctx \<Rightarrow> nat \<Rightarrow> lsn \<Rightarrow> nat \<Rightarrow> bool result option \<times> nat" where
  "probed_scan_finds_valid crc f ctx x expected peak =
     (let bound = scan_bound (ctx_max_record_size ctx);
          start = saturating_add x 8;
          end_off = saturating_add start bound
      in probed_scan crc f ctx expected start start end_off peak)"

text \<open>Recovery in the fuzzing build: the same loop around the instrumented scan.\<close>

type_synonym probed_recovery = "(segment_recovery result \<times> osfile \<times> faults) option \<times> nat"

definition probed_classify ::
    "(bytes \<Rightarrow> u32) \<Rightarrow> osfile \<Rightarrow> recover_ctx \<Rightarrow> nat \<Rightarrow> lsn \<Rightarrow> lsn \<Rightarrow> faults \<Rightarrow> nat \<Rightarrow> probed_recovery" where
  "probed_classify crc f ctx x expected last_valid flts peak =
     (if \<not> ctx_is_active ctx
      then (Some (Inl (Corruption (ctx_base ctx) x ''invalid record in sealed segment''), f, flts), peak)
      else
        case probed_scan_finds_valid crc f ctx x expected peak of
          (None, peak) \<Rightarrow> (None, peak)
        | (Some (Inl e), peak) \<Rightarrow> (Some (Inl e, f, flts), peak)
        | (Some (Inr True), peak) \<Rightarrow> (Some (Inl (TornMidLog (ctx_base ctx) x), f, flts), peak)
        | (Some (Inr False), peak) \<Rightarrow>
            (case zero_to_eof f x (ctx_segment_size ctx) flts of
               (Inl e, f', r) \<Rightarrow> (Some (Inl e, f', r), peak)
             | (Inr _, f', r) \<Rightarrow>
                 (Some (Inr \<lparr>max_lsn = last_valid, rec_write_offset = x,
                             rec_tail_state = TruncatedAt (ctx_base ctx) x\<rparr>, f', r), peak)))"

function probed_loop ::
    "(bytes \<Rightarrow> u32) \<Rightarrow> osfile \<Rightarrow> recover_ctx \<Rightarrow> faults \<Rightarrow> nat \<Rightarrow> lsn option \<Rightarrow> lsn \<Rightarrow> nat \<Rightarrow> probed_recovery" where
  "probed_loop crc f ctx flts off expected last_valid peak =
     (case read_record_at crc f off (ctx_segment_size ctx) (ctx_max_record_size ctx) of
        Inl e \<Rightarrow> (Some (Inl e, f, flts), peak)
      | Inr (ScanRecord l k n, buf) \<Rightarrow>
          (case expected of
             None \<Rightarrow> (Some (Inl (after_exhaustion ctx off), f, flts), peak)
           | Some want \<Rightarrow>
               if l \<noteq> want then probed_classify crc f ctx off want last_valid flts peak
               else probed_loop crc f ctx flts (off + n) (checked_next l) l peak)
      | Inr (CleanEnd, buf) \<Rightarrow>
          (Some (Inr \<lparr>max_lsn = last_valid, rec_write_offset = off, rec_tail_state = Clean\<rparr>, f, flts), peak)
      | Inr (ScanInvalid, buf) \<Rightarrow>
          (case expected of
             None \<Rightarrow> (Some (at_capacity_invalid f ctx off last_valid flts), peak)
           | Some want \<Rightarrow> probed_classify crc f ctx off want last_valid flts peak))"
  by pat_completeness auto
termination
proof (relation "measure (\<lambda>(crc, f, ctx, flts, off, expected, last_valid, peak). ctx_segment_size ctx - off)",
    goal_cases)
  case (2 crc f ctx flts off expected last_valid peak x2 x y l k n want)
  then have "read_record_at crc f off (ctx_segment_size ctx) (ctx_max_record_size ctx)
      = Inr (ScanRecord l k n, y)" by simp
  from read_record_at_Record(3,4) [OF this] show ?case by simp
qed simp

declare probed_loop.simps [simp del]

definition probed_segment ::
    "(bytes \<Rightarrow> u32) \<Rightarrow> osfile \<Rightarrow> lsn \<Rightarrow> bool \<Rightarrow> nat \<Rightarrow> nat \<Rightarrow> faults \<Rightarrow> nat \<Rightarrow> probed_recovery" where
  "probed_segment crc f base is_active segment_size max_record_size flts peak =
     (let ctx = \<lparr>ctx_base = base, ctx_is_active = is_active, ctx_segment_size = segment_size,
                 ctx_max_record_size = max_record_size\<rparr>
      in probed_loop crc f ctx flts HEADER_SIZE (Some base) (Lsn (lsn_val base - 1)) peak)"

text \<open>The direct probe: \<open>None\<close> when an assertion fails, else whether recovery succeeded.\<close>

definition recover_segment_probe ::
    "(bytes \<Rightarrow> u32) \<Rightarrow> osfile \<Rightarrow> u64 \<Rightarrow> bool \<Rightarrow> nat \<Rightarrow> nat \<Rightarrow> faults \<Rightarrow> bool option" where
  "recover_segment_probe crc f base_arg is_active segment_size max_record_size flts =
     (case probed_segment crc f (Lsn (max base_arg 1)) is_active segment_size max_record_size flts probe_reset of
        (None, _) \<Rightarrow> None
      | (Some (res, _), peak) \<Rightarrow> if peak \<le> scan_bound max_record_size then Some (\<not> isl res) else None)"

section \<open>The reference classifier\<close>

definition ref_padding :: "nat \<Rightarrow> nat" where
  "ref_padding payload_len = (8 - (20 + payload_len) mod 8) mod 8"

definition ref_scan_bound :: "nat \<Rightarrow> nat" where
  "ref_scan_bound max_record_size = max_record_size + 28"

datatype rscan = RRecord nat nat | RCleanEnd | RInvalid

text \<open>\<^verbatim>\<open>bytes.get(a..b)\<close> is \<open>None\<close> when the range leaves the slice.\<close>

definition get_range :: "bytes \<Rightarrow> nat \<Rightarrow> nat \<Rightarrow> bytes option" where
  "get_range bs a b = (if a \<le> b \<and> b \<le> length bs then Some (window a b bs) else None)"

definition ref_read_record_at :: "(bytes \<Rightarrow> u32) \<Rightarrow> bytes \<Rightarrow> nat \<Rightarrow> nat \<Rightarrow> nat \<Rightarrow> rscan" where
  "ref_read_record_at crc bs offset segment_size max_record_size =
     (let remaining = segment_size - offset in
      if remaining < 20 then RCleanEnd
      else
        case get_range bs offset (offset + 20) of
          None \<Rightarrow> RInvalid
        | Some header \<Rightarrow>
            if all_zero header then RCleanEnd
            else
              let len = unat (u32_from_le_bytes (window 4 8 header)) in
              if len > max_record_size then RInvalid
              else
                let framed = 20 + len + ref_padding len in
                if framed > remaining then RInvalid
                else
                  case get_range bs offset (offset + framed) of
                    None \<Rightarrow> RInvalid
                  | Some full \<Rightarrow>
                      if crc (window 4 framed full) \<noteq> u32_from_le_bytes (window 0 4 full) then RInvalid
                      else if full ! 16 \<noteq> 1 then RInvalid
                      else RRecord (unat (u64_from_le_bytes (window 8 16 full))) framed)"

function ref_scan :: "(bytes \<Rightarrow> u32) \<Rightarrow> bytes \<Rightarrow> nat \<Rightarrow> nat \<Rightarrow> nat \<Rightarrow> nat \<Rightarrow> nat \<Rightarrow> bool" where
  "ref_scan crc bs expected segment_size max_record_size p end_off =
     (if p \<le> end_off then
        (case ref_read_record_at crc bs p segment_size max_record_size of
           RRecord l framed \<Rightarrow>
             if l \<ge> expected then True
             else ref_scan crc bs expected segment_size max_record_size (p + 8) end_off
         | _ \<Rightarrow> ref_scan crc bs expected segment_size max_record_size (p + 8) end_off)
      else False)"
  by pat_completeness auto
termination
  by (relation "measure (\<lambda>(crc, bs, expected, ssz, mx, p, end_off). Suc end_off - p)") auto

declare ref_scan.simps [simp del]

definition ref_forward_scan_finds_valid :: "(bytes \<Rightarrow> u32) \<Rightarrow> bytes \<Rightarrow> nat \<Rightarrow> nat \<Rightarrow> nat \<Rightarrow> nat \<Rightarrow> bool" where
  "ref_forward_scan_finds_valid crc bs x expected segment_size max_record_size =
     (let bound = ref_scan_bound max_record_size;
          start = saturating_add x 8;
          end_off = saturating_add start bound
      in ref_scan crc bs expected segment_size max_record_size start end_off)"

definition ref_classify_boundary ::
    "(bytes \<Rightarrow> u32) \<Rightarrow> bytes \<Rightarrow> bool \<Rightarrow> nat \<Rightarrow> nat \<Rightarrow> nat \<Rightarrow> nat \<Rightarrow> nat \<Rightarrow> seg_class" where
  "ref_classify_boundary crc bs is_active segment_size max_record_size x expected last_valid =
     (if \<not> is_active then SegCorruption x
      else if ref_forward_scan_finds_valid crc bs x expected segment_size max_record_size then SegTornMidLog x
      else SegTruncated x last_valid)"

text \<open>The loop of \<open>reference_classify\<close>; its variables are the offset, the expected and the last LSN, and
  whether the LSN space is used up.\<close>

lemma ref_read_framed:
  "ref_read_record_at crc bs offset ssz mx = RRecord l framed \<Longrightarrow> 20 \<le> framed \<and> framed \<le> ssz - offset"
  by (auto simp: ref_read_record_at_def Let_def split: if_splits option.splits)

function reference_loop ::
    "(bytes \<Rightarrow> u32) \<Rightarrow> bytes \<Rightarrow> bool \<Rightarrow> nat \<Rightarrow> nat \<Rightarrow> nat \<Rightarrow> nat \<Rightarrow> nat \<Rightarrow> bool \<Rightarrow> seg_class" where
  "reference_loop crc bs is_active segment_size max_record_size offset expected last_valid at_capacity =
     (let scan = ref_read_record_at crc bs offset segment_size max_record_size in
      if at_capacity then
        (case scan of
           RCleanEnd \<Rightarrow> SegClean last_valid
         | RRecord _ _ \<Rightarrow> SegCorruption offset
         | RInvalid \<Rightarrow>
             let rest = (if offset \<le> length bs then drop offset bs else []);
                 zero_cut = (length rest < 20 \<and> all_zero rest) in
             if is_active \<and> zero_cut then SegTruncated offset last_valid else SegCorruption offset)
      else
        case scan of
          RRecord l framed \<Rightarrow>
            if l \<noteq> expected
            then ref_classify_boundary crc bs is_active segment_size max_record_size offset expected last_valid
            else if l = u64_max
            then reference_loop crc bs is_active segment_size max_record_size (offset + framed) expected l True
            else reference_loop crc bs is_active segment_size max_record_size (offset + framed) (l + 1) l at_capacity
        | RCleanEnd \<Rightarrow> SegClean last_valid
        | RInvalid \<Rightarrow> ref_classify_boundary crc bs is_active segment_size max_record_size offset expected last_valid)"
  by pat_completeness auto
termination
proof (relation "measure (\<lambda>(crc, bs, act, ssz, mx, offset, expected, last_valid, cap). ssz - offset)", goal_cases)
  case (2 crc bs act ssz mx offset expected last_valid cap scan l framed)
  from ref_read_framed [of crc bs offset ssz mx l framed] 2 show ?case by auto
next
  case (3 crc bs act ssz mx offset expected last_valid cap scan l framed)
  from ref_read_framed [of crc bs offset ssz mx l framed] 3 show ?case by auto
qed simp

declare reference_loop.simps [simp del]

definition reference_classify :: "(bytes \<Rightarrow> u32) \<Rightarrow> bytes \<Rightarrow> u64 \<Rightarrow> bool \<Rightarrow> nat \<Rightarrow> nat \<Rightarrow> seg_class" where
  "reference_classify crc bs base_arg is_active segment_size max_record_size =
     (let base = unat (max base_arg 1)
      in reference_loop crc bs is_active segment_size max_record_size 64 base (base - 1) False)"

section \<open>The crate agrees with the reference\<close>

lemma ref_read_scan:
  "ref_read_record_at crc bs off ssz mx =
     (case scan_bytes crc bs off ssz mx of
        ScanRecord l k n \<Rightarrow> RRecord (lsn_nat l) n | CleanEnd \<Rightarrow> RCleanEnd | ScanInvalid \<Rightarrow> RInvalid)"
proof (cases "ssz - off < 20")
  case False
  define D where "D = drop off (take ssz bs)"
  have len: "length D = min ssz (length bs) - off" by (simp add: D_def)
  have w: "window off (off + n) bs = take n D" if "n \<le> length D" for n
    using that len by (simp add: window_def D_def drop_take)
  have g: "get_range bs off (off + n) = (if n \<le> length D then Some (take n D) else None)" if "n \<le> ssz - off" "0 < n" for n
    using that w len by (auto simp: get_range_def)
  have p: "20 + k + ref_padding k = framed_size k" for k
    by (simp add: framed_size_def padding_for_def ref_padding_def)
  have nth: "take (framed_size k) D ! 16 = D ! 16" for k using framed_size_ge24 [of k] by simp
  have win: "window i j (take (framed_size k) D) = window i j D" if "j \<le> 20 \<or> j = framed_size k" for i j k
    using that framed_size_ge24 [of k] by (intro window_take) auto
  let ?k = "unat (u32_from_le_bytes (window 4 8 D))"
  have le: "length D \<le> ssz - off" using len by simp
  have head: "window 4 8 (take 20 D) = window 4 8 D" by (simp add: window_take)
  show ?thesis
  proof (cases "length D < 20")
    case True
    with False g [of 20] show ?thesis
      by (simp add: ref_read_record_at_def scan_bytes_def D_def [symmetric] decode_eq)
  next
    case long: False
    have "get_range bs off (off + framed_size ?k) = (if framed_size ?k \<le> length D then Some (take (framed_size ?k) D) else None)"
      if "framed_size ?k \<le> ssz - off"
      by (rule g) (use that framed_size_ge24 [of ?k] in simp_all)
    then show ?thesis
      unfolding ref_read_record_at_def scan_bytes_def D_def [symmetric] decode_eq p Let_def
      using False long g [of 20] le by (simp add: nth win head lsn_nat_Lsn)
  qed
qed (simp add: ref_read_record_at_def scan_bytes_def)

lemma ref_scan_forward:
  assumes "healthy f"
  shows "forward_scan crc f ctx expected p e =
    Inr (ref_scan crc (fdata f) (lsn_nat expected) (ctx_segment_size ctx) (ctx_max_record_size ctx) p e)"
  using assms
proof (induction crc f ctx expected p e rule: forward_scan.induct)
  case (1 crc f ctx expected p e)
  obtain buf where "read_record_at crc f p (ctx_segment_size ctx) (ctx_max_record_size ctx)
      = Inr (scan_bytes crc (fdata f) p (ctx_segment_size ctx) (ctx_max_record_size ctx), buf)"
    using read_record_at_healthy [OF 1(4)] by blast
  with 1 show ?case
    by (subst forward_scan.simps, subst ref_scan.simps)
      (auto simp: ref_read_scan lsn_le_iff split: scan_outcome.splits)
qed

lemma ref_ahead:
  "ref_forward_scan_finds_valid crc bs x (lsn_nat want) ssz mx = valid_ahead crc bs ssz mx x want"
proof -
  define f where "f = \<lparr>fdata = bs, fsynced = [], fbad = []\<rparr>"
  define ctx where "ctx = \<lparr>ctx_base = want, ctx_is_active = True, ctx_segment_size = ssz, ctx_max_record_size = mx\<rparr>"
  have f: "healthy f" "fdata f = bs" by (simp_all add: f_def healthy_def)
  from forward_scan_finds_valid_healthy [OF f(1), of crc ctx x want] ref_scan_forward [OF f(1), of crc ctx want] f(2)
  show ?thesis
    by (simp add: forward_scan_finds_valid_def ref_forward_scan_finds_valid_def Let_def ctx_def scan_bound_def ref_scan_bound_def)
qed

text \<open>The classification of a result of recovery.\<close>

definition class_of :: "segment_recovery result \<Rightarrow> seg_class" where
  "class_of res =
     (case res of
        Inr r \<Rightarrow>
          (case rec_tail_state r of
             Clean \<Rightarrow> SegClean (lsn_nat (max_lsn r))
           | TruncatedAt _ offset \<Rightarrow> SegTruncated offset (lsn_nat (max_lsn r)))
      | Inl (TornMidLog _ offset) \<Rightarrow> SegTornMidLog offset
      | Inl (Corruption _ offset _) \<Rightarrow> SegCorruption offset
      | Inl _ \<Rightarrow> OtherErr)"

lemma recover_segment_classify_of:
  "recover_segment_classify crc f b act ssz mx flts = class_of (fst (recover_segment crc f (Lsn (max b 1)) act ssz mx flts))"
  by (simp add: recover_segment_classify_def class_of_def split: prod.splits sum.splits wal_error.splits)

lemma reference_loop_run:
  assumes "parse_run crc bs ssz mx off (checked_next lv) = (rs, x)"
    and "checked_next lv \<noteq> None \<Longrightarrow> want = Suc (lsn_nat lv)"
  shows "\<exists>want'. reference_loop crc bs act ssz mx off want (lsn_nat lv) (checked_next lv = None)
      = reference_loop crc bs act ssz mx x want' (lsn_nat (run_last lv rs)) (checked_next (run_last lv rs) = None)
    \<and> (checked_next (run_last lv rs) \<noteq> None \<longrightarrow> want' = Suc (lsn_nat (run_last lv rs)))"
  using assms
proof (induction "ssz - off" arbitrary: off lv rs want rule: less_induct)
  case less
  show ?case
  proof (cases "\<exists>l k n. scan_bytes crc bs off ssz mx = ScanRecord l k n \<and> checked_next lv = Some l")
    case False
    then have "parse_run crc bs ssz mx off (checked_next lv) = ([], off)" by (intro parse_run_stop) blast
    with less.prems show ?thesis by auto
  next
    case True
    then obtain l k n where s: "scan_bytes crc bs off ssz mx = ScanRecord l k n" and l: "checked_next lv = Some l" by blast
    obtain rs' x' where r: "parse_run crc bs ssz mx (off + n) (checked_next l) = (rs', x')" by fastforce
    from less.prems(1) l r parse_run_step [OF s]
    have rs: "rs = (l, window (off + 20) (off + 20 + k) bs) # rs'" "x = x'" by simp_all
    have w: "want = lsn_nat l" using less.prems(2) l by (simp add: checked_next_Some)
    define want1 where "want1 = (if lsn_nat l = u64_max then want else lsn_nat l + 1)"
    have step: "reference_loop crc bs act ssz mx off want (lsn_nat lv) (checked_next lv = None)
        = reference_loop crc bs act ssz mx (off + n) want1 (lsn_nat l) (checked_next l = None)"
      using s l w by (subst reference_loop.simps) (simp add: Let_def ref_read_scan want1_def checked_next_None)
    have "ssz - (off + n) < ssz - off" using scan_bytes_Record [OF s] by simp
    from less.hyps [OF this r [folded rs(2)], of want1] step rs show ?thesis
      by (simp add: want1_def checked_next_None)
  qed
qed

lemma reference_classify_spec:
  assumes len: "length bs < u64_max"
  shows "reference_classify crc bs b act ssz mx =
     class_of (fst (recovery_spec crc \<lparr>fdata = bs, fsynced = s, fbad = []\<rparr> (Lsn (max b 1)) act ssz mx))"
proof -
  define base where "base = Lsn (max b 1)"
  define lv0 where "lv0 = Lsn (lsn_val base - 1)"
  have nn: "\<not> is_none base" by (auto simp: base_def is_none_def max_def)
  note nx = checked_next_pred [OF nn, folded lv0_def]
  obtain rs x where run: "parse_run crc bs ssz mx 64 (Some base) = (rs, x)" by fastforce
  define lv where "lv = run_last lv0 rs"
  note run' = run [folded nx]
  have b: "unat (max b 1) = Suc (lsn_nat lv0)" using nx by (simp add: checked_next_Some base_def lsn_nat_Lsn)
  from reference_loop_run [OF run', of "Suc (lsn_nat lv0)" act] obtain want where
    w: "reference_loop crc bs act ssz mx 64 (Suc (lsn_nat lv0)) (lsn_nat lv0) False
      = reference_loop crc bs act ssz mx x want (lsn_nat lv) (checked_next lv = None)"
    and want: "checked_next lv \<noteq> None \<Longrightarrow> want = Suc (lsn_nat lv)" by (auto simp: nx lv_def)
  have x: "x \<le> length bs" if "checked_next lv = None"
    by (rule parse_run_inside [OF run']) (use that nx in \<open>auto simp: lv_def\<close>)
  have sat: "length bs < saturating_add x 20 \<longleftrightarrow> length bs - x < 20" if "x \<le> length bs" for x
    using that len by (simp add: saturating_add_def min_def) linarith
  have stop: "checked_next lv \<noteq> Some l" if "scan_bytes crc bs x ssz mx = ScanRecord l k n" for l k n
    using parse_run_end(4) [OF run' that] by (simp add: lv_def)
  have "reference_classify crc bs b act ssz mx = reference_loop crc bs act ssz mx x want (lsn_nat lv) (checked_next lv = None)"
    using w b by (simp add: reference_classify_def)
  also have "\<dots> = class_of (fst (recovery_spec crc \<lparr>fdata = bs, fsynced = s, fbad = []\<rparr> base act ssz mx))"
  proof (cases "checked_next lv")
    case None
    then show ?thesis
      using x by (subst reference_loop.simps)
        (simp add: recovery_spec_def run lv0_def [symmetric] lv_def [symmetric] Let_def ref_read_scan class_of_def sat
          split: scan_outcome.split)
  next
    case (Some wl)
    then have wl: "want = lsn_nat wl" using want [unfolded Some] checked_next_Some [of lv wl] by simp
    show ?thesis
    proof (cases "scan_bytes crc bs x ssz mx")
      case (ScanRecord l k n)
      then have "wl \<noteq> l" using stop Some by blast
      then show ?thesis
        using Some ScanRecord by (subst reference_loop.simps)
          (simp add: recovery_spec_def run lv0_def [symmetric] lv_def [symmetric] Let_def ref_read_scan class_of_def
            wl lsn_eq_iff ref_classify_boundary_def ref_ahead)
    qed (use Some in \<open>subst reference_loop.simps, simp add: recovery_spec_def run lv0_def [symmetric] lv_def [symmetric]
        Let_def ref_read_scan class_of_def wl ref_classify_boundary_def ref_ahead\<close>)+
  qed
  finally show ?thesis by (simp add: base_def)
qed

lemma recover_classify_reference:
  assumes "length bs < u64_max"
  shows "recover_segment_classify crc \<lparr>fdata = bs, fsynced = s, fbad = []\<rparr> b act ssz mx [] = reference_classify crc bs b act ssz mx"
proof -
  have "\<not> is_none (Lsn (max b 1))" by (auto simp: is_none_def max_def)
  from recover_segment_spec [OF _ this, of "\<lparr>fdata = bs, fsynced = s, fbad = []\<rparr>" crc act ssz mx] show ?thesis
    by (simp add: recover_segment_classify_of reference_classify_spec [OF assms, of crc b act ssz mx s] healthy_def Let_def)
qed

section \<open>The instrumented build\<close>

lemma probed_scan_bounded:
  assumes "start \<le> p" "end_off \<le> start + scan_bound (ctx_max_record_size ctx)"
  shows "\<exists>peak'. probed_scan crc f ctx expected start p end_off peak = (Some (forward_scan crc f ctx expected p end_off), peak')
    \<and> peak' \<le> max peak (scan_bound (ctx_max_record_size ctx))"
  using assms
proof (induction "Suc end_off - p" arbitrary: p peak rule: less_induct)
  case less
  let ?peak = "probe_record (p - start) peak" and ?b = "scan_bound (ctx_max_record_size ctx)"
  show ?case
  proof (cases "p \<le> end_off")
    case True
    then have d: "\<not> ?b < p - start" using less.prems by simp
    have pk: "?peak \<le> max peak ?b" using d by (simp add: probe_record_def)
    then have mx: "max ?peak ?b \<le> max peak ?b" by simp
    show ?thesis
    proof (cases "read_record_at crc f p (ctx_segment_size ctx) (ctx_max_record_size ctx)")
      case (Inl e)
      then show ?thesis using True d pk by (subst probed_scan.simps, subst forward_scan.simps) (simp add: Let_def)
    next
      case (Inr ob)
      obtain out buf where ob: "ob = (out, buf)" by fastforce
      show ?thesis
      proof (cases "\<exists>l k n. out = ScanRecord l k n \<and> expected \<le> l")
        case hit: True
        then show ?thesis using True d pk Inr ob by (subst probed_scan.simps, subst forward_scan.simps) (auto simp: Let_def)
      next
        case False
        have go: "probed_scan crc f ctx expected start p end_off peak = probed_scan crc f ctx expected start (p + 8) end_off ?peak"
          "forward_scan crc f ctx expected p end_off = forward_scan crc f ctx expected (p + 8) end_off"
          using False True d Inr ob
          by (subst probed_scan.simps forward_scan.simps, auto simp: Let_def split: scan_outcome.splits)+
        from less.hyps [of "p + 8" ?peak] less.prems True mx show ?thesis unfolding go by fastforce
      qed
    qed
  qed (subst probed_scan.simps, subst forward_scan.simps, simp)
qed

lemma probed_scan_finds_valid_bounded:
  "\<exists>peak'. probed_scan_finds_valid crc f ctx x expected peak = (Some (forward_scan_finds_valid crc f ctx x expected), peak')
    \<and> peak' \<le> max peak (scan_bound (ctx_max_record_size ctx))"
  unfolding probed_scan_finds_valid_def forward_scan_finds_valid_def Let_def
  by (rule probed_scan_bounded) (simp_all add: saturating_add_def)

lemma probed_classify_bounded:
  "\<exists>peak'. probed_classify crc f ctx x expected lv flts peak = (Some (classify crc f ctx x expected lv flts), peak')
    \<and> peak' \<le> max peak (scan_bound (ctx_max_record_size ctx))"
  using probed_scan_finds_valid_bounded [of crc f ctx x expected peak]
  by (auto simp: probed_classify_def classify_def split: sum.splits bool.splits prod.splits)

lemma probed_loop_bounded:
  "\<exists>peak'. probed_loop crc f ctx flts off expected lv peak = (Some (recover_loop crc f ctx flts off expected lv), peak')
    \<and> peak' \<le> max peak (scan_bound (ctx_max_record_size ctx))"
proof (induction crc f ctx flts off expected lv rule: recover_loop.induct)
  case (1 crc f ctx flts off expected lv)
  show ?case
    using 1 probed_classify_bounded [of crc f ctx off _ lv flts peak]
    by (subst probed_loop.simps, subst recover_loop.simps)
      (auto split: sum.splits scan_outcome.splits option.splits)
qed

lemma recover_segment_probe_total:
  "recover_segment_probe crc f b act ssz mx flts =
     Some (\<not> isl (fst (recover_segment crc f (Lsn (max b 1)) act ssz mx flts)))"
proof -
  define ctx where "ctx = \<lparr>ctx_base = Lsn (max b 1), ctx_is_active = act, ctx_segment_size = ssz, ctx_max_record_size = mx\<rparr>"
  from probed_loop_bounded [of crc f ctx flts 64 "Some (Lsn (max b 1))" "Lsn (lsn_val (Lsn (max b 1)) - 1)" 0]
  show ?thesis
    by (auto simp: recover_segment_probe_def probed_segment_def recover_segment_def probe_reset_def ctx_def
        split: prod.splits)
qed

section \<open>Properties\<close>

text \<open>C21. The classifier agrees with the independent reference classifier: on every byte string
  shorter than the largest 64-bit offset, for every base, limit and segment size, sealed or
  active, recovery of the segment gives the verdict, last LSN and truncation offset of the
  reference, which reads the bytes with its own decoder and its own forward scan.\<close>

theorem classifier_matches_reference:
  assumes "length bs < u64_max"
  shows "recover_segment_classify crc \<lparr>fdata = bs, fsynced = s, fbad = []\<rparr> b act ssz mx [] = reference_classify crc bs b act ssz mx"
  using recover_classify_reference [OF assms] .

theorem classifier_matches_reference_witness:
  "recover_segment_classify (\<lambda>_. 9) \<lparr>fdata = zeros 64 @ [9, 0, 0, 0] @ zeros 12 @ [1], fsynced = [], fbad = []\<rparr> 3 True 128 16 []
     = reference_classify (\<lambda>_. 9) (zeros 64 @ [9, 0, 0, 0] @ zeros 12 @ [1]) 3 True 128 16"
  by (rule classifier_matches_reference) (simp add: u64_max_def)

text \<open>C23. The forward scan is bounded: on any file, with any media error and any failing system
  call, the instrumented recovery of a segment never trips the assertion on the scanned distance,
  gives what the plain recovery gives, and the peak distance it records is at most one maximal
  framed record (payload limit, 20 bytes of header, padding) and one alignment step.\<close>

theorem scan_stays_bounded:
  "\<exists>peak. probed_segment crc f base is_active ssz mx flts probe_reset = (Some (recover_segment crc f base is_active ssz mx flts), peak)
     \<and> peak \<le> scan_bound mx \<and> scan_bound mx = mx + 28"
  using probed_loop_bounded [of crc f "\<lparr>ctx_base = base, ctx_is_active = is_active, ctx_segment_size = ssz, ctx_max_record_size = mx\<rparr>" flts 64 "Some base" "Lsn (lsn_val base - 1)" 0]
  by (auto simp: probed_segment_def recover_segment_def probe_reset_def scan_bound_def)

end
