(* ===== verification/Wal_Reader.thy ===== *)
theory Wal_Reader
  imports Wal_Layout
begin

text \<open>
  The streaming replay reader (\<^verbatim>\<open>src/reader.rs\<close>). A reader names the segment file it has
  open and reads it from the directory; the writer is excluded while a reader lives, so the
  directory only changes by what opening a file consumes of the fault script.
\<close>

section \<open>The code\<close>

record reader =
  rd_segments :: "lsn list"
  rd_seg_idx :: nat
  rd_file :: "string option"
  rd_offset :: nat
  rd_expected :: "lsn option"
  rd_from :: lsn
  rd_segment_size :: nat
  rd_max_record_size :: nat
  rd_buf :: bytes
  rd_done :: bool

definition new_reader :: "lsn list \<Rightarrow> nat \<Rightarrow> string \<Rightarrow> lsn \<Rightarrow> nat \<Rightarrow> nat \<Rightarrow> reader" where
  "new_reader segs start first from ssz mx =
     \<lparr>rd_segments = segs, rd_seg_idx = start, rd_file = Some first, rd_offset = HEADER_SIZE,
      rd_expected = Some (segs ! start), rd_from = from, rd_segment_size = ssz,
      rd_max_record_size = mx, rd_buf = [], rd_done = False\<rparr>"

definition open_segment_base :: "reader \<Rightarrow> lsn option" where
  "open_segment_base rd = map_option (\<lambda>_. rd_segments rd ! rd_seg_idx rd) (rd_file rd)"

definition advance_segment :: "reader \<Rightarrow> disk \<Rightarrow> bool result \<times> reader \<times> disk" where
  "advance_segment rd d =
     (let rd = rd\<lparr>rd_seg_idx := rd_seg_idx rd + 1\<rparr> in
      if length (rd_segments rd) \<le> rd_seg_idx rd then (Inr False, rd\<lparr>rd_file := None\<rparr>, d)
      else
        let name = filename_for (rd_segments rd ! rd_seg_idx rd) in
        case open_file name d of
          (Inl e, d') \<Rightarrow> (Inl (Io e), rd, d')
        | (Inr _, d') \<Rightarrow>
            (Inr True, rd\<lparr>rd_file := Some name, rd_offset := HEADER_SIZE\<rparr>, d'))"

type_synonym item = "(lsn \<times> bytes) result option"

lemma advance_segment_decreases:
  "(Inr True, rd', d') = advance_segment rd d \<Longrightarrow>
   length (rd_segments rd') - rd_seg_idx rd' < length (rd_segments rd) - rd_seg_idx rd"
  by (auto simp: advance_segment_def Let_def split: if_splits prod.splits sum.splits)

function reader_next :: "(bytes \<Rightarrow> u32) \<Rightarrow> reader \<Rightarrow> disk \<Rightarrow> item \<times> reader \<times> disk" where
  "reader_next crc rd d =
     (if rd_done rd then (None, rd, d)
      else
        case rd_file rd of
          None \<Rightarrow> (None, rd\<lparr>rd_done := True\<rparr>, d)
        | Some name \<Rightarrow>
            (case read_record_at crc (file_of d name) (rd_offset rd) (rd_segment_size rd)
                    (rd_max_record_size rd) of
               Inl e \<Rightarrow> (Some (Inl e), rd\<lparr>rd_done := True\<rparr>, d)
             | Inr (ScanRecord l payload_len framed_len, buf) \<Rightarrow>
                 let rd = rd\<lparr>rd_buf := buf\<rparr> in
                 if Some l \<noteq> rd_expected rd then (None, rd\<lparr>rd_done := True\<rparr>, d)
                 else
                   let rd = rd\<lparr>rd_offset := rd_offset rd + framed_len,
                               rd_expected := checked_next l\<rparr> in
                   if l < rd_from rd then reader_next crc rd d
                   else (Some (Inr (l, window RECORD_HEADER_SIZE (RECORD_HEADER_SIZE + payload_len)
                                        (rd_buf rd))), rd, d)
             | Inr (_, buf) \<Rightarrow>
                 (case advance_segment (rd\<lparr>rd_buf := buf\<rparr>) d of
                    (Inr True, rd, d) \<Rightarrow> reader_next crc rd d
                  | (Inr False, rd, d) \<Rightarrow> (None, rd\<lparr>rd_done := True\<rparr>, d)
                  | (Inl e, rd, d) \<Rightarrow> (Some (Inl e), rd\<lparr>rd_done := True\<rparr>, d))))"
  by pat_completeness auto
termination
proof (relation "measures [\<lambda>(crc, rd, d). length (rd_segments rd) - rd_seg_idx rd,
                           \<lambda>(crc, rd, d). rd_segment_size rd - rd_offset rd]", goal_cases)
  case 1
  then show ?case by simp
next
  case prems: (2 crc rd d name res outbuf buf l k n rd1 rd2)
  then have "read_record_at crc (file_of d name) (rd_offset rd) (rd_segment_size rd)
      (rd_max_record_size rd) = Inr (ScanRecord l k n, buf)" by simp
  from read_record_at_Record(3,4) [OF this] prems show ?case by auto
qed (auto dest!: advance_segment_decreases)

declare reader_next.simps [simp del]

end
