(* ===== verification/Wal_Handle.thy ===== *)
theory Wal_Handle
  imports Wal_Reader
begin

text \<open>
  The single-writer handle (\<^verbatim>\<open>src/wal.rs\<close>) with its configuration, open-time options and
  durability observer (\<^verbatim>\<open>src/config.rs\<close>, \<^verbatim>\<open>src/options.rs\<close>, \<^verbatim>\<open>src/observer.rs\<close>).

  An operation takes the handle and the directory and returns its result with both as it
  leaves them. The trait \<^verbatim>\<open>DurabilityObserver\<close> is the parameter \<open>on_durable\<close>; the wall
  clock read when a segment is created is the parameter \<open>clock\<close>, and the checksum of
  the \<^verbatim>\<open>crc32c\<close> crate is the parameter \<open>crc\<close>.
\<close>

section \<open>Configuration, observer, handle\<close>

record wal_config =
  cfg_segment_size :: u64
  cfg_max_record_size :: u32

definition default_config :: wal_config where
  "default_config = \<lparr>cfg_segment_size = 128 * 1024 * 1024, cfg_max_record_size = 1024 * 1024\<rparr>"

definition null_on_durable :: "lsn \<Rightarrow> unit \<Rightarrow> unit" where
  "null_on_durable l ob = ()"

record recovery_report =
  report_oldest_lsn :: lsn
  report_durable_lsn :: lsn
  report_tail_state :: tail_state
  report_segments_scanned :: nat

record 'o wal =
  segments :: "lsn list"
  active :: string
  write_offset :: nat
  oldest_lsn :: lsn
  last_lsn :: lsn
  durable_lsn :: lsn
  segment_size :: u64
  max_record_size :: u32
  staging :: bytes
  observer :: 'o
  poisoned :: bool

record recovered =
  r_active :: "string option"
  r_write_offset :: nat
  r_last_lsn :: lsn
  r_oldest_lsn :: lsn
  r_segments :: "lsn list"
  r_tail_state :: tail_state

section \<open>Opening\<close>

definition fsync_dir :: "disk \<Rightarrow> unit result \<times> disk" where
  "fsync_dir d =
     (case may_fail d of
        (Inl e, d1) \<Rightarrow> (Inl (Io e), d1)
      | (Inr _, d1) \<Rightarrow>
          (case fsync_directory d1 of
             (Inl e, d2) \<Rightarrow> (Inl (Io e), d2)
           | (Inr _, d2) \<Rightarrow> (Inr (), d2)))"

definition cold_start ::
    "(bytes \<Rightarrow> u32) \<Rightarrow> (lsn \<Rightarrow> u64) \<Rightarrow> nat \<Rightarrow> lsn \<Rightarrow> disk \<Rightarrow> recovered result \<times> disk" where
  "cold_start crc clock ssz seed d =
     (case create crc (clock seed) seed ssz d of
        (Inl e, d1) \<Rightarrow> (Inl e, d1)
      | (Inr _, d1) \<Rightarrow>
          (case fsync_dir d1 of
             (Inl e, d2) \<Rightarrow> (Inl e, d2)
           | (Inr _, d2) \<Rightarrow>
               (Inr \<lparr>r_active = Some (filename_for seed), r_write_offset = HEADER_SIZE,
                     r_last_lsn = Lsn (lsn_val seed - 1), r_oldest_lsn = seed,
                     r_segments = [seed], r_tail_state = Clean\<rparr>, d2)))"

text \<open>
  The header check of \<open>discard_incomplete_highest\<close>: \<open>Inr True\<close> is a legitimate segment,
  \<open>Inr False\<close> an incomplete create.
\<close>

definition highest_is_complete ::
    "(bytes \<Rightarrow> u32) \<Rightarrow> wal_config \<Rightarrow> lsn \<Rightarrow> osfile \<Rightarrow> faults \<Rightarrow> bool result \<times> faults" where
  "highest_is_complete crc config base f flts =
     (case read_exact_at f 0 HEADER_SIZE of
        Inr header \<Rightarrow>
          if (case decode_header crc header of Inr parsed \<Rightarrow> base_lsn parsed = base | Inl _ \<Rightarrow> False)
          then (Inr True, flts)
          else
            (case read_record_at crc f HEADER_SIZE (unat (cfg_segment_size config))
                    (unat (cfg_max_record_size config)) of
               Inl e \<Rightarrow> (Inl e, flts)
             | Inr (ScanRecord l k n, buf) \<Rightarrow> (Inl BadSegmentHeader, flts)
             | Inr (_, buf) \<Rightarrow> (Inr False, flts))
      | Inl UnexpectedEof \<Rightarrow>
          (case metadata_len f flts of
             (Inl e, r) \<Rightarrow> (Inl (Io e), r)
           | (Inr len, r) \<Rightarrow> if len \<noteq> 0 then (Inl BadSegmentHeader, r) else (Inr False, r))
      | Inl e \<Rightarrow> (Inl (Io e), flts))"

definition discard_incomplete_highest ::
    "(bytes \<Rightarrow> u32) \<Rightarrow> u64 list \<Rightarrow> wal_config \<Rightarrow> disk \<Rightarrow> u64 list result \<times> disk" where
  "discard_incomplete_highest crc bases config d =
     (if bases = [] then (Inr [], d)
      else
        let base = Lsn (last bases); path = filename_for base in
        case open_file path d of
          (Inl e, d1) \<Rightarrow> (Inl (Io e), d1)
        | (Inr f, d1) \<Rightarrow>
            (case highest_is_complete crc config base f (dfaults d1) of
               (Inl e, r) \<Rightarrow> (Inl e, d1\<lparr>dfaults := r\<rparr>)
             | (Inr True, r) \<Rightarrow> (Inr bases, d1\<lparr>dfaults := r\<rparr>)
             | (Inr False, r) \<Rightarrow>
                 (case remove_file path (d1\<lparr>dfaults := r\<rparr>) of
                    (Inl e, d2) \<Rightarrow> (Inl (Io e), d2)
                  | (Inr _, d2) \<Rightarrow>
                      (case fsync_dir d2 of
                         (Inl e, d3) \<Rightarrow> (Inl e, d3)
                       | (Inr _, d3) \<Rightarrow> (Inr (butlast bases), d3)))))"

text \<open>
  One iteration of the loop of \<open>recover_all\<close>: open the segment, validate its header and
  its continuity with the previous one, and recover its records.
\<close>

definition recover_one ::
    "(bytes \<Rightarrow> u32) \<Rightarrow> wal_config \<Rightarrow> lsn option \<Rightarrow> lsn \<Rightarrow> bool \<Rightarrow> disk
     \<Rightarrow> segment_recovery result \<times> disk" where
  "recover_one crc config prev_max base is_active d =
     (let name = filename_for base in
      case open_file name d of
        (Inl e, d1) \<Rightarrow> (Inl (Io e), d1)
      | (Inr f, d1) \<Rightarrow>
          (case read_exact_at f 0 HEADER_SIZE of
             Inl UnexpectedEof \<Rightarrow> (Inl BadSegmentHeader, d1)
           | Inl e \<Rightarrow> (Inl (Io e), d1)
           | Inr header \<Rightarrow>
               (case decode_header crc header of
                  Inl e \<Rightarrow> (Inl e, d1)
                | Inr parsed \<Rightarrow>
                    if base_lsn parsed \<noteq> base then (Inl BadSegmentHeader, d1)
                    else if (case prev_max of Some pm \<Rightarrow> checked_next pm \<noteq> Some base | None \<Rightarrow> False)
                    then (Inl ContiguityViolation, d1)
                    else
                      (case recover_segment crc f base is_active (unat (cfg_segment_size config))
                              (unat (cfg_max_record_size config)) (dfaults d1) of
                         (res, f', r) \<Rightarrow> (res, put_file name f' r d1)))))"

fun recover_bases ::
    "(bytes \<Rightarrow> u32) \<Rightarrow> wal_config \<Rightarrow> lsn option \<Rightarrow> u64 list \<Rightarrow> recovered \<Rightarrow> disk
     \<Rightarrow> recovered result \<times> disk" where
  "recover_bases crc config prev_max [] acc d = (Inr acc, d)"
| "recover_bases crc config prev_max (b # bs) acc d =
     (let base = Lsn b; is_active = (bs = []) in
      case recover_one crc config prev_max base is_active d of
        (Inl e, d1) \<Rightarrow> (Inl e, d1)
      | (Inr seg, d1) \<Rightarrow>
          if is_active
          then recover_bases crc config prev_max bs
                 (acc\<lparr>r_active := Some (filename_for base), r_write_offset := rec_write_offset seg,
                      r_last_lsn := max_lsn seg, r_tail_state := rec_tail_state seg\<rparr>) d1
          else if max_lsn seg < base then (Inl ContiguityViolation, d1)
          else recover_bases crc config (Some (max_lsn seg)) bs acc d1)"

definition recover_all ::
    "(bytes \<Rightarrow> u32) \<Rightarrow> u64 list \<Rightarrow> wal_config \<Rightarrow> disk \<Rightarrow> recovered result \<times> disk" where
  "recover_all crc bases config d =
     recover_bases crc config None bases
       \<lparr>r_active = None, r_write_offset = HEADER_SIZE, r_last_lsn = NONE,
        r_oldest_lsn = Lsn (hd bases), r_segments = map Lsn bases, r_tail_state = Clean\<rparr> d"

text \<open>The lock file is opened with \<^verbatim>\<open>create(true)\<close> and \<^verbatim>\<open>truncate(false)\<close>.\<close>

definition LOCK :: string where "LOCK = ''LOCK''"

definition open_lock :: "disk \<Rightarrow> (io_error + unit) \<times> disk" where
  "open_lock d =
     (case may_fail d of
        (Inl e, d1) \<Rightarrow> (Inl e, d1)
      | (Inr _, d1) \<Rightarrow>
          (case map_of (entries d1) LOCK of
             Some f \<Rightarrow> (Inr (), d1)
           | None \<Rightarrow> (Inr (), d1\<lparr>entries := entries d1 @ [(LOCK, empty_file)],
                                pending := pending d1 @ [Linked LOCK]\<rparr>)))"

text \<open>\<^verbatim>\<open>read_dir\<close>: opening the directory may fail, and so may each entry.\<close>

fun read_entries :: "string list \<Rightarrow> disk \<Rightarrow> string list result \<times> disk" where
  "read_entries [] d = (Inr [], d)"
| "read_entries (n # ns) d =
     (case may_fail d of
        (Inl e, d1) \<Rightarrow> (Inl (Io e), d1)
      | (Inr _, d1) \<Rightarrow>
          (case read_entries ns d1 of
             (Inl e, d2) \<Rightarrow> (Inl e, d2)
           | (Inr names, d2) \<Rightarrow> (Inr (n # names), d2)))"

definition discover :: "disk \<Rightarrow> u64 list result \<times> disk" where
  "discover d =
     (case may_fail d of
        (Inl e, d1) \<Rightarrow> (Inl (Io e), d1)
      | (Inr _, d1) \<Rightarrow>
          (case read_entries (map fst (entries d1)) d1 of
             (Inl e, d2) \<Rightarrow> (Inl e, d2)
           | (Inr names, d2) \<Rightarrow> (Inr (sort (List.map_filter parse_base_lsn names)), d2)))"

text \<open>
  \<open>open_locked\<close> is what \<open>open_seeded\<close> does while it holds the lock; when it fails the
  lock's file is dropped, which releases the lock.
\<close>

definition open_locked ::
    "(bytes \<Rightarrow> u32) \<Rightarrow> (lsn \<Rightarrow> u64) \<Rightarrow> wal_config \<Rightarrow> 'o \<Rightarrow> lsn \<Rightarrow> disk
     \<Rightarrow> ('o wal \<times> recovery_report) result \<times> disk" where
  "open_locked crc clock config ob seed d =
     (case discover d of
        (Inl e, d1) \<Rightarrow> (Inl e, d1)
      | (Inr bases, d1) \<Rightarrow>
          (case discard_incomplete_highest crc bases config d1 of
             (Inl e, d2) \<Rightarrow> (Inl e, d2)
           | (Inr bases, d2) \<Rightarrow>
               (case (if bases = [] then cold_start crc clock (unat (cfg_segment_size config)) seed d2
                      else recover_all crc bases config d2) of
                  (Inl e, d3) \<Rightarrow> (Inl e, d3)
                | (Inr r, d3) \<Rightarrow>
                    (Inr (\<lparr>segments = r_segments r, active = the (r_active r),
                           write_offset = r_write_offset r, oldest_lsn = r_oldest_lsn r,
                           last_lsn = r_last_lsn r, durable_lsn = r_last_lsn r,
                           segment_size = cfg_segment_size config,
                           max_record_size = cfg_max_record_size config,
                           staging = [], observer = ob, poisoned = False\<rparr>,
                          \<lparr>report_oldest_lsn = r_oldest_lsn r, report_durable_lsn = r_last_lsn r,
                           report_tail_state = r_tail_state r,
                           report_segments_scanned = length (r_segments r)\<rparr>), d3))))"

definition open_seeded ::
    "(bytes \<Rightarrow> u32) \<Rightarrow> (lsn \<Rightarrow> u64) \<Rightarrow> wal_config \<Rightarrow> 'o \<Rightarrow> lsn \<Rightarrow> disk
     \<Rightarrow> ('o wal \<times> recovery_report) result \<times> disk" where
  "open_seeded crc clock config ob seed d =
     (if ucast (cfg_max_record_size config) + 91 > cfg_segment_size config then (Inl InvalidConfig, d)
      else if is_none seed then (Inl InvalidConfig, d)
      else
        case may_fail d of
          (Inl e, d1) \<Rightarrow> (Inl (Io e), d1)
        | (Inr _, d1) \<Rightarrow>
            (case open_lock d1 of
               (Inl e, d2) \<Rightarrow> (Inl (Io e), d2)
             | (Inr _, d2) \<Rightarrow>
                 (case flock d2 of
                    (Inl WouldBlock, d3) \<Rightarrow> (Inl Locked, d3)
                  | (Inl e, d3) \<Rightarrow> (Inl (Io e), d3)
                  | (Inr _, d3) \<Rightarrow>
                      (case open_locked crc clock config ob seed d3 of
                         (Inl e, d4) \<Rightarrow> (Inl e, d4\<lparr>lock_held := False\<rparr>)
                       | (Inr wr, d4) \<Rightarrow> (Inr wr, d4)))))"

definition open_with ::
    "(bytes \<Rightarrow> u32) \<Rightarrow> (lsn \<Rightarrow> u64) \<Rightarrow> wal_config \<Rightarrow> 'o \<Rightarrow> disk
     \<Rightarrow> ('o wal \<times> recovery_report) result \<times> disk" where
  "open_with crc clock config ob d = open_seeded crc clock config ob FIRST d"

definition open_wal ::
    "(bytes \<Rightarrow> u32) \<Rightarrow> (lsn \<Rightarrow> u64) \<Rightarrow> wal_config \<Rightarrow> disk
     \<Rightarrow> (unit wal \<times> recovery_report) result \<times> disk" where
  "open_wal crc clock config d = open_with crc clock config () d"

subsection \<open>Open options\<close>

record 'o open_options =
  opt_seed :: lsn
  opt_observer :: 'o

definition options :: "unit open_options" where
  "options = \<lparr>opt_seed = FIRST, opt_observer = ()\<rparr>"

definition seed_option :: "lsn \<Rightarrow> 'o open_options \<Rightarrow> 'o open_options" where
  "seed_option initial_lsn opts = opts\<lparr>opt_seed := initial_lsn\<rparr>"

definition observer_option :: "'p \<Rightarrow> 'o open_options \<Rightarrow> 'p open_options" where
  "observer_option ob opts = \<lparr>opt_seed = opt_seed opts, opt_observer = ob\<rparr>"

definition options_open ::
    "(bytes \<Rightarrow> u32) \<Rightarrow> (lsn \<Rightarrow> u64) \<Rightarrow> 'o open_options \<Rightarrow> wal_config \<Rightarrow> disk
     \<Rightarrow> ('o wal \<times> recovery_report) result \<times> disk" where
  "options_open crc clock opts config d =
     open_seeded crc clock config (opt_observer opts) (opt_seed opts) d"

section \<open>Appending and committing\<close>

definition wal_append :: "(bytes \<Rightarrow> u32) \<Rightarrow> bytes \<Rightarrow> 'o wal \<Rightarrow> lsn result \<times> 'o wal" where
  "wal_append crc payload w =
     (if poisoned w then (Inl Poisoned, w)
      else if length payload > unat (max_record_size w) then (Inl RecordTooLarge, w)
      else
        case checked_next (last_lsn w) of
          None \<Rightarrow> (Inl LsnExhausted, w)
        | Some l \<Rightarrow>
            (Inr l, w\<lparr>staging := fst (encode_into crc (staging w) l payload), last_lsn := l\<rparr>))"

definition roll ::
    "(bytes \<Rightarrow> u32) \<Rightarrow> (lsn \<Rightarrow> u64) \<Rightarrow> lsn \<Rightarrow> 'o wal \<Rightarrow> disk \<Rightarrow> unit result \<times> 'o wal \<times> disk" where
  "roll crc clock new_base w d =
     (case create crc (clock new_base) new_base (unat (segment_size w)) d of
        (Inl e, d1) \<Rightarrow> (Inl e, w\<lparr>poisoned := True\<rparr>, d1)
      | (Inr _, d1) \<Rightarrow>
          (case fsync_dir d1 of
             (Inl e, d2) \<Rightarrow> (Inl e, w\<lparr>poisoned := True\<rparr>, d2)
           | (Inr _, d2) \<Rightarrow>
               (Inr (), w\<lparr>active := filename_for new_base, write_offset := HEADER_SIZE,
                          segments := segments w @ [new_base]\<rparr>, d2)))"

text \<open>The inner loop of \<open>commit\<close>: the whole records that fit the remaining space.\<close>

function fit_prefix :: "bytes \<Rightarrow> nat \<Rightarrow> nat \<Rightarrow> nat \<Rightarrow> lsn \<Rightarrow> nat \<times> lsn" where
  "fit_prefix stg remaining pos scan prefix_last =
     (if scan < length stg then
        (case peek (drop scan stg) of
           (l, framed) \<Rightarrow>
             if (scan - pos) + framed > remaining then (scan, prefix_last)
             else fit_prefix stg remaining pos (scan + framed) l)
      else (scan, prefix_last))"
  by pat_completeness auto
termination
proof (relation "measure (\<lambda>(stg, remaining, pos, scan, prefix_last). length stg - scan)", goal_cases)
  case 1
  then show ?case by simp
next
  case (2 stg remaining pos scan prefix_last l framed)
  then have "24 \<le> framed" by (auto simp: peek_def Let_def framed_size_ge24)
  with 2(1) show ?case by simp
qed

declare fit_prefix.simps [simp del]

text \<open>Step 2 of the commit loop: write and sync a non-empty prefix.\<close>

definition write_prefix ::
    "(lsn \<Rightarrow> 'o \<Rightarrow> 'o) \<Rightarrow> nat \<Rightarrow> nat \<Rightarrow> lsn \<Rightarrow> 'o wal \<Rightarrow> disk \<Rightarrow> unit result \<times> 'o wal \<times> disk" where
  "write_prefix on_durable pos scan prefix_last w d =
     (case write_all_at (file_of d (active w)) (write_offset w) (window pos scan (staging w)) (dfaults d) of
        (Inl e, f1, r1) \<Rightarrow> (Inl (Io e), w\<lparr>poisoned := True\<rparr>, put_file (active w) f1 r1 d)
      | (Inr _, f1, r1) \<Rightarrow>
          (case sync_data_fully f1 r1 of
             (Inl e, f2, r2) \<Rightarrow> (Inl FsyncFailed, w\<lparr>poisoned := True\<rparr>, put_file (active w) f2 r2 d)
           | (Inr _, f2, r2) \<Rightarrow>
               (Inr (), w\<lparr>write_offset := write_offset w + (scan - pos), durable_lsn := prefix_last,
                          observer := on_durable prefix_last (observer w)\<rparr>,
                put_file (active w) f2 r2 d)))"

definition step_two ::
    "(lsn \<Rightarrow> 'o \<Rightarrow> 'o) \<Rightarrow> nat \<Rightarrow> nat \<Rightarrow> lsn \<Rightarrow> 'o wal \<Rightarrow> disk \<Rightarrow> unit result \<times> 'o wal \<times> disk" where
  "step_two on_durable pos scan prefix_last w d =
     (if scan > pos then write_prefix on_durable pos scan prefix_last w d else (Inr (), w, d))"

text \<open>One iteration of the commit loop: the result is the new position.\<close>

definition commit_step ::
    "(bytes \<Rightarrow> u32) \<Rightarrow> (lsn \<Rightarrow> u64) \<Rightarrow> (lsn \<Rightarrow> 'o \<Rightarrow> 'o) \<Rightarrow> nat \<Rightarrow> 'o wal \<Rightarrow> disk
     \<Rightarrow> nat result \<times> 'o wal \<times> disk" where
  "commit_step crc clock on_durable pos w d =
     (case fit_prefix (staging w) (unat (segment_size w) - write_offset w) pos pos NONE of
        (scan, prefix_last) \<Rightarrow>
          (case step_two on_durable pos scan prefix_last w d of
             (Inl e, w1, d1) \<Rightarrow> (Inl e, w1, d1)
           | (Inr _, w1, d1) \<Rightarrow>
               if scan < length (staging w) then
                 (case roll crc clock (fst (peek (drop scan (staging w1)))) w1 d1 of
                    (Inl e, w2, d2) \<Rightarrow> (Inl e, w2, d2)
                  | (Inr _, w2, d2) \<Rightarrow> (Inr scan, w2, d2))
               else (Inr scan, w1, d1)))"

lemma may_fail_entries [simp]: "entries (snd (may_fail d)) = entries d"
  by (simp add: may_fail_def split: prod.splits fault.splits)

lemma fsync_directory_entries [simp]: "entries (snd (fsync_directory d)) = entries d"
  using may_fail_entries [of d]
  by (cases "may_fail d") (auto simp: fsync_directory_def simp del: may_fail_entries split: sum.splits)

lemma fsync_dir_entries [simp]: "entries (snd (fsync_dir d)) = entries d"
proof -
  obtain r1 d1 where 1: "may_fail d = (r1, d1)" by fastforce
  obtain r2 d2 where 2: "fsync_directory d1 = (r2, d2)" by fastforce
  show ?thesis
    using may_fail_entries [of d] fsync_directory_entries [of d1] 1 2
    by (simp add: fsync_dir_def split: sum.splits)
qed

lemma fsync_dir_entriesD: "fsync_dir d = (res, d') \<Longrightarrow> entries d' = entries d"
  using fsync_dir_entries by (metis snd_conv)

lemma put_file_dom [simp]:
  "fst ` set (entries (put_file name f r d)) = insert name (fst ` set (entries d))"
proof -
  have "fst ` set (AList.update name f es) = insert name (fst ` set es)" for es :: "(string \<times> osfile) list"
    unfolding set_map [symmetric] update_keys by auto
  then show ?thesis by (simp add: put_file_def)
qed

lemma create_new_ok:
  "create_new name d = (Inr f, d') \<Longrightarrow>
   name \<notin> fst ` set (entries d) \<and> f = empty_file \<and> entries d' = entries d @ [(name, empty_file)]
   \<and> pending d' = pending d @ [Linked name]"
  by (auto simp: create_new_def map_of_eq_None_iff split: prod.splits fault.splits option.splits)

lemma roll_ok_names:
  assumes "roll crc clock b w d = (Inr u, w', d')"
  shows "filename_for b \<notin> fst ` set (entries d)" "filename_for b \<in> fst ` set (entries d')"
    "staging w' = staging w"
proof -
  obtain r1 d1 where c: "create crc (clock b) b (unat (segment_size w)) d = (r1, d1)" by fastforce
  obtain r2 d2 where s: "fsync_dir d1 = (r2, d2)" by fastforce
  from assms c s have r: "r1 = Inr ()" "d' = d2" "staging w' = staging w"
    by (auto simp: roll_def split: sum.splits)
  show "staging w' = staging w" by (rule r(3))
  obtain n1 e1 where n: "create_new (filename_for b) d = (n1, e1)" by fastforce
  obtain i1 g1 k1 where i: "init_segment crc (clock b) b (unat (segment_size w)) empty_file (dfaults e1)
      = (i1, g1, k1)" by (cases "init_segment crc (clock b) b (unat (segment_size w)) empty_file (dfaults e1)")
  from c r(1) n i obtain f where f: "n1 = Inr f" by (auto simp: create_def Let_def split: sum.splits)
  note cn = create_new_ok [OF n [unfolded f]]
  then show "filename_for b \<notin> fst ` set (entries d)" by simp
  have "d1 = put_file (filename_for b) g1 k1 e1"
    using c n i f cn by (simp add: create_def Let_def)
  then show "filename_for b \<in> fst ` set (entries d')"
    using fsync_dir_entriesD [OF s] r(2) by simp
qed

lemma step_two_staging: "step_two on_durable pos scan l w d = (res, w', d') \<Longrightarrow> staging w' = staging w"
  by (auto simp: step_two_def write_prefix_def split: if_splits prod.splits sum.splits)

lemma fit_prefix_ge: "fit_prefix stg rm pos scan pl = (s, l) \<Longrightarrow> scan \<le> s"
proof (induction "length stg - scan" arbitrary: scan pl rule: less_induct)
  case less
  obtain l1 n where pk: "peek (drop scan stg) = (l1, n)" by fastforce
  then have "24 \<le> n" by (auto simp: peek_def Let_def framed_size_ge24)
  then show ?case
    using less.prems less.hyps [of "scan + n" l1] pk
    by (subst (asm) fit_prefix.simps) (fastforce split: if_splits)
qed

lemma commit_step_progress:
  assumes "commit_step crc clock on_durable pos w d = (Inr pos', w', d')"
    and "pos < length (staging w)"
  shows "staging w' = staging w" "pos \<le> pos'"
    "pos' = pos \<Longrightarrow> filename_for (fst (peek (drop pos (staging w)))) \<notin> fst ` set (entries d)
       \<and> filename_for (fst (peek (drop pos (staging w)))) \<in> fst ` set (entries d')"
proof -
  obtain scan pl where fp: "fit_prefix (staging w) (unat (segment_size w) - write_offset w) pos pos NONE
      = (scan, pl)" by fastforce
  obtain res w1 d1 where st: "step_two on_durable pos scan pl w d = (res, w1, d1)"
    by (cases "step_two on_durable pos scan pl w d") auto
  from assms(1) fp st have res: "res = Inr ()" and pos': "pos' = scan"
    by (auto simp: commit_step_def split: sum.splits if_splits prod.splits)
  show "pos \<le> pos'" using fit_prefix_ge [OF fp] pos' by simp
  from assms(1) fp st res pos' step_two_staging [OF st]
  show "staging w' = staging w"
    by (auto simp: commit_step_def dest: roll_ok_names(3) split: sum.splits if_splits prod.splits)
  assume "pos' = pos"
  with assms fp st res pos'
  have "roll crc clock (fst (peek (drop pos (staging w)))) w d = (Inr (), w', d')"
    by (auto simp: commit_step_def step_two_def split: sum.splits if_splits prod.splits)
  from roll_ok_names(1,2) [OF this]
  show "filename_for (fst (peek (drop pos (staging w)))) \<notin> fst ` set (entries d)
       \<and> filename_for (fst (peek (drop pos (staging w)))) \<in> fst ` set (entries d')" by blast
qed

text \<open>
  The outer loop ends: an iteration that writes nothing has rolled to a segment named after
  the next record, and creating that segment a second time would fail.
\<close>

function commit_loop ::
    "(bytes \<Rightarrow> u32) \<Rightarrow> (lsn \<Rightarrow> u64) \<Rightarrow> (lsn \<Rightarrow> 'o \<Rightarrow> 'o) \<Rightarrow> nat \<Rightarrow> 'o wal \<Rightarrow> disk
     \<Rightarrow> unit result \<times> 'o wal \<times> disk" where
  "commit_loop crc clock on_durable pos w d =
     (if pos < length (staging w) then
        (case commit_step crc clock on_durable pos w d of
           (Inl e, w1, d1) \<Rightarrow> (Inl e, w1, d1)
         | (Inr pos1, w1, d1) \<Rightarrow> commit_loop crc clock on_durable pos1 w1 d1)
      else (Inr (), w, d))"
  by pat_completeness auto
termination
proof (relation "measures [\<lambda>(crc, clock, on_durable, pos, w, d). length (staging w) - pos,
    \<lambda>(crc, clock, on_durable, pos, w, d).
      if filename_for (fst (peek (drop pos (staging w)))) \<in> fst ` set (entries d) then 0 else 1]",
    goal_cases)
  case (2 crc clock on_durable pos w d x y pos1 w1 d1)
  then have s: "commit_step crc clock on_durable pos w d = (Inr pos1, w1, d1)" by simp
  note p = commit_step_progress [OF s 2(1)]
  then show ?case using 2(1) by (cases "pos1 = pos") auto
qed simp

declare commit_loop.simps [simp del]

definition commit ::
    "(bytes \<Rightarrow> u32) \<Rightarrow> (lsn \<Rightarrow> u64) \<Rightarrow> (lsn \<Rightarrow> 'o \<Rightarrow> 'o) \<Rightarrow> 'o wal \<Rightarrow> disk
     \<Rightarrow> lsn result \<times> 'o wal \<times> disk" where
  "commit crc clock on_durable w d =
     (if poisoned w then (Inl Poisoned, w, d)
      else if staging w = [] then (Inr (durable_lsn w), w, d)
      else
        case commit_loop crc clock on_durable 0 w d of
          (Inl e, w1, d1) \<Rightarrow> (Inl e, w1, d1)
        | (Inr _, w1, d1) \<Rightarrow> (Inr (durable_lsn w1), w1\<lparr>staging := []\<rparr>, d1))"

section \<open>Reading and checkpointing\<close>

text \<open>\<^verbatim>\<open>partition_point\<close> on a slice that is partitioned by the predicate.\<close>

definition partition_point :: "('a \<Rightarrow> bool) \<Rightarrow> 'a list \<Rightarrow> nat" where
  "partition_point P xs = length (takeWhile P xs)"

definition containing_segment_idx :: "lsn list \<Rightarrow> lsn \<Rightarrow> nat" where
  "containing_segment_idx bases from = partition_point (\<lambda>b. b \<le> from) bases - 1"

definition deletable_prefix_len :: "lsn list \<Rightarrow> lsn \<Rightarrow> nat" where
  "deletable_prefix_len bases up_to =
     (if bases = [] then 0
      else partition_point (\<lambda>b. lsn_val b - 1 \<le> lsn_val up_to) (tl bases))"

definition reader_from :: "lsn \<Rightarrow> 'o wal \<Rightarrow> disk \<Rightarrow> reader result \<times> disk" where
  "reader_from from w d =
     (if lsn_val from \<noteq> 0 \<and> from < oldest_lsn w then (Inl ContiguityViolation, d)
      else
        let effective_from = (if lsn_val from = 0 then FIRST else from);
            start = containing_segment_idx (segments w) effective_from;
            first = filename_for (segments w ! start)
        in case open_file first d of
             (Inl e, d1) \<Rightarrow> (Inl (Io e), d1)
           | (Inr _, d1) \<Rightarrow>
               (Inr (new_reader (segments w) start first effective_from
                       (unat (segment_size w)) (unat (max_record_size w))), d1))"

fun unlink_all :: "lsn list \<Rightarrow> disk \<Rightarrow> unit result \<times> disk" where
  "unlink_all [] d = (Inr (), d)"
| "unlink_all (b # bs) d =
     (case remove_file (filename_for b) d of
        (Inr _, d1) \<Rightarrow> unlink_all bs d1
      | (Inl NotFound, d1) \<Rightarrow> unlink_all bs d1
      | (Inl e, d1) \<Rightarrow> (Inl (Io e), d1))"

definition checkpoint :: "lsn \<Rightarrow> 'o wal \<Rightarrow> disk \<Rightarrow> unit result \<times> 'o wal \<times> disk" where
  "checkpoint up_to w d =
     (if poisoned w then (Inl Poisoned, w, d)
      else
        let n = deletable_prefix_len (segments w) up_to in
        if n = 0 then (Inr (), w, d)
        else
          case unlink_all (take n (segments w)) d of
            (Inl e, d1) \<Rightarrow> (Inl e, w\<lparr>poisoned := True\<rparr>, d1)
          | (Inr _, d1) \<Rightarrow>
              (case fsync_dir d1 of
                 (Inl e, d2) \<Rightarrow> (Inl e, w\<lparr>poisoned := True\<rparr>, d2)
               | (Inr _, d2) \<Rightarrow>
                   let segs = drop n (segments w) in
                   (Inr (), w\<lparr>segments := segs, oldest_lsn := hd segs\<rparr>, d2)))"

end
