(* ===== verification/Wal_Probe.thy ===== *)
theory Wal_Probe
  imports Wal_Fuzzing Wal_Handle
begin

text \<open>
  \<open>open\<close> in the fuzzing build: the functions of \<^verbatim>\<open>src/wal.rs\<close> on the way from \<open>open\<close> to the
  forward scan, with the probe of the scan threaded through. A failed assertion in the scan is
  \<open>None\<close>. The instrumented functions compute what the plain ones do, and no scan of an \<open>open\<close>
  goes beyond the bound.
\<close>

section \<open>The instrumented functions\<close>

definition probed_one ::
    "(bytes \<Rightarrow> u32) \<Rightarrow> wal_config \<Rightarrow> lsn option \<Rightarrow> lsn \<Rightarrow> bool \<Rightarrow> disk \<Rightarrow> nat
     \<Rightarrow> (segment_recovery result \<times> disk) option \<times> nat" where
  "probed_one crc config prev_max base is_active d peak =
     (let name = filename_for base in
      case open_file name d of
        (Inl e, d1) \<Rightarrow> (Some (Inl (Io e), d1), peak)
      | (Inr f, d1) \<Rightarrow>
          (case read_exact_at f 0 HEADER_SIZE of
             Inl UnexpectedEof \<Rightarrow> (Some (Inl BadSegmentHeader, d1), peak)
           | Inl e \<Rightarrow> (Some (Inl (Io e), d1), peak)
           | Inr header \<Rightarrow>
               (case decode_header crc header of
                  Inl e \<Rightarrow> (Some (Inl e, d1), peak)
                | Inr parsed \<Rightarrow>
                    if base_lsn parsed \<noteq> base then (Some (Inl BadSegmentHeader, d1), peak)
                    else if (case prev_max of Some pm \<Rightarrow> checked_next pm \<noteq> Some base | None \<Rightarrow> False)
                    then (Some (Inl ContiguityViolation, d1), peak)
                    else
                      (case probed_segment crc f base is_active (unat (cfg_segment_size config))
                              (unat (cfg_max_record_size config)) (dfaults d1) peak of
                         (None, peak) \<Rightarrow> (None, peak)
                       | (Some (res, f', r), peak) \<Rightarrow> (Some (res, put_file name f' r d1), peak)))))"

fun probed_bases ::
    "(bytes \<Rightarrow> u32) \<Rightarrow> wal_config \<Rightarrow> lsn option \<Rightarrow> u64 list \<Rightarrow> recovered \<Rightarrow> disk \<Rightarrow> nat
     \<Rightarrow> (recovered result \<times> disk) option \<times> nat" where
  "probed_bases crc config prev_max [] acc d peak = (Some (Inr acc, d), peak)"
| "probed_bases crc config prev_max (b # bs) acc d peak =
     (let base = Lsn b; is_active = (bs = []) in
      case probed_one crc config prev_max base is_active d peak of
        (None, peak) \<Rightarrow> (None, peak)
      | (Some (Inl e, d1), peak) \<Rightarrow> (Some (Inl e, d1), peak)
      | (Some (Inr seg, d1), peak) \<Rightarrow>
          if is_active
          then probed_bases crc config prev_max bs
                 (acc\<lparr>r_active := Some (filename_for base), r_write_offset := rec_write_offset seg,
                      r_last_lsn := max_lsn seg, r_tail_state := rec_tail_state seg\<rparr>) d1 peak
          else if max_lsn seg < base then (Some (Inl ContiguityViolation, d1), peak)
          else probed_bases crc config (Some (max_lsn seg)) bs acc d1 peak)"

definition probed_all ::
    "(bytes \<Rightarrow> u32) \<Rightarrow> u64 list \<Rightarrow> wal_config \<Rightarrow> disk \<Rightarrow> nat \<Rightarrow> (recovered result \<times> disk) option \<times> nat" where
  "probed_all crc bases config d peak =
     probed_bases crc config None bases
       \<lparr>r_active = None, r_write_offset = HEADER_SIZE, r_last_lsn = NONE,
        r_oldest_lsn = Lsn (hd bases), r_segments = map Lsn bases, r_tail_state = Clean\<rparr> d peak"

definition probed_locked ::
    "(bytes \<Rightarrow> u32) \<Rightarrow> (lsn \<Rightarrow> u64) \<Rightarrow> wal_config \<Rightarrow> 'o \<Rightarrow> lsn \<Rightarrow> disk \<Rightarrow> nat
     \<Rightarrow> (('o wal \<times> recovery_report) result \<times> disk) option \<times> nat" where
  "probed_locked crc clock config ob seed d peak =
     (case discover d of
        (Inl e, d1) \<Rightarrow> (Some (Inl e, d1), peak)
      | (Inr bases, d1) \<Rightarrow>
          (case discard_incomplete_highest crc bases config d1 of
             (Inl e, d2) \<Rightarrow> (Some (Inl e, d2), peak)
           | (Inr bases, d2) \<Rightarrow>
               (case (if bases = [] then (Some (cold_start crc clock (unat (cfg_segment_size config)) seed d2), peak)
                      else probed_all crc bases config d2 peak) of
                  (None, peak) \<Rightarrow> (None, peak)
                | (Some (Inl e, d3), peak) \<Rightarrow> (Some (Inl e, d3), peak)
                | (Some (Inr r, d3), peak) \<Rightarrow>
                    (Some (Inr (\<lparr>segments = r_segments r, active = the (r_active r),
                           write_offset = r_write_offset r, oldest_lsn = r_oldest_lsn r,
                           last_lsn = r_last_lsn r, durable_lsn = r_last_lsn r,
                           segment_size = cfg_segment_size config,
                           max_record_size = cfg_max_record_size config,
                           staging = [], observer = ob, poisoned = False\<rparr>,
                          \<lparr>report_oldest_lsn = r_oldest_lsn r, report_durable_lsn = r_last_lsn r,
                           report_tail_state = r_tail_state r,
                           report_segments_scanned = length (r_segments r)\<rparr>), d3), peak))))"

definition probed_seeded ::
    "(bytes \<Rightarrow> u32) \<Rightarrow> (lsn \<Rightarrow> u64) \<Rightarrow> wal_config \<Rightarrow> 'o \<Rightarrow> lsn \<Rightarrow> disk \<Rightarrow> nat
     \<Rightarrow> (('o wal \<times> recovery_report) result \<times> disk) option \<times> nat" where
  "probed_seeded crc clock config ob seed d peak =
     (if ucast (cfg_max_record_size config) + 91 > cfg_segment_size config then (Some (Inl InvalidConfig, d), peak)
      else if is_none seed then (Some (Inl InvalidConfig, d), peak)
      else
        case may_fail d of
          (Inl e, d1) \<Rightarrow> (Some (Inl (Io e), d1), peak)
        | (Inr _, d1) \<Rightarrow>
            (case open_lock d1 of
               (Inl e, d2) \<Rightarrow> (Some (Inl (Io e), d2), peak)
             | (Inr _, d2) \<Rightarrow>
                 (case flock d2 of
                    (Inl WouldBlock, d3) \<Rightarrow> (Some (Inl Locked, d3), peak)
                  | (Inl e, d3) \<Rightarrow> (Some (Inl (Io e), d3), peak)
                  | (Inr _, d3) \<Rightarrow>
                      (case probed_locked crc clock config ob seed d3 peak of
                         (None, peak) \<Rightarrow> (None, peak)
                       | (Some (Inl e, d4), peak) \<Rightarrow> (Some (Inl e, d4\<lparr>lock_held := False\<rparr>), peak)
                       | (Some (Inr wr, d4), peak) \<Rightarrow> (Some (Inr wr, d4), peak)))))"

definition probed_open ::
    "(bytes \<Rightarrow> u32) \<Rightarrow> (lsn \<Rightarrow> u64) \<Rightarrow> wal_config \<Rightarrow> disk \<Rightarrow> nat
     \<Rightarrow> ((unit wal \<times> recovery_report) result \<times> disk) option \<times> nat" where
  "probed_open crc clock config d peak = probed_seeded crc clock config () FIRST d peak"

section \<open>They compute the same within the bound\<close>

definition same_within :: "nat \<Rightarrow> nat \<Rightarrow> 'a \<Rightarrow> 'a option \<times> nat \<Rightarrow> bool" where
  "same_within bound peak x out \<longleftrightarrow> (\<exists>peak'. out = (Some x, peak') \<and> peak' \<le> max peak bound)"

lemma same_within_now [simp, intro]: "same_within bound peak x (Some x, peak)"
  by (simp add: same_within_def)

lemma same_withinE:
  assumes "same_within bound peak x out"
  obtains peak' where "out = (Some x, peak')" "peak' \<le> max peak bound"
  using assms by (auto simp: same_within_def)

lemma probed_segment_within:
  "same_within (scan_bound mx) peak (recover_segment crc f base act ssz mx flts) (probed_segment crc f base act ssz mx flts peak)"
  using probed_loop_bounded [of crc f "\<lparr>ctx_base = base, ctx_is_active = act, ctx_segment_size = ssz, ctx_max_record_size = mx\<rparr>"
      flts 64 "Some base" "Lsn (lsn_val base - 1)" peak]
  by (auto simp: same_within_def probed_segment_def recover_segment_def)

lemma probed_one_within:
  "same_within (scan_bound (unat (cfg_max_record_size cfg))) peak (recover_one crc cfg prev base act d)
     (probed_one crc cfg prev base act d peak)"
proof -
  let ?ssz = "unat (cfg_segment_size cfg)" and ?mx = "unat (cfg_max_record_size cfg)"
  obtain fo d1 where op: "open_file (filename_for base) d = (fo, d1)" by fastforce
  show ?thesis
  proof (cases fo)
    case (Inr f)
    obtain peak' where seg: "probed_segment crc f base act ?ssz ?mx (dfaults d1) peak =
        (Some (recover_segment crc f base act ?ssz ?mx (dfaults d1)), peak')" "peak' \<le> max peak (scan_bound ?mx)"
      using probed_segment_within by (rule same_withinE)
    show ?thesis
    proof (cases "read_exact_at f 0 64")
      case (Inl e)
      then show ?thesis using op Inr by (cases e) (simp_all add: probed_one_def recover_one_def)
    next
      case hd: (Inr header)
      show ?thesis
      proof (cases "decode_header crc header")
        case (Inr h)
        obtain res f' r where "recover_segment crc f base act ?ssz ?mx (dfaults d1) = (res, f', r)"
          by (cases "recover_segment crc f base act ?ssz ?mx (dfaults d1)")
        then show ?thesis
          using op \<open>fo = Inr f\<close> hd Inr seg by (auto simp: probed_one_def recover_one_def same_within_def)
      qed (use op Inr hd in \<open>simp add: probed_one_def recover_one_def\<close>)
    qed
  qed (use op in \<open>simp add: probed_one_def recover_one_def\<close>)
qed

lemma probed_bases_within:
  "same_within (scan_bound (unat (cfg_max_record_size cfg))) peak (recover_bases crc cfg prev bs acc d)
     (probed_bases crc cfg prev bs acc d peak)"
proof (induction bs arbitrary: prev acc d peak)
  case (Cons b bs)
  let ?bound = "scan_bound (unat (cfg_max_record_size cfg))"
  obtain peak1 where one: "probed_one crc cfg prev (Lsn b) (bs = []) d peak = (Some (recover_one crc cfg prev (Lsn b) (bs = []) d), peak1)"
    "peak1 \<le> max peak ?bound" using probed_one_within by (rule same_withinE)
  obtain res d1 where r: "recover_one crc cfg prev (Lsn b) (bs = []) d = (res, d1)" by fastforce
  have more: "same_within ?bound peak x out" if "same_within ?bound peak1 x out" for x :: "recovered result \<times> disk" and out
    using that one(2) by (auto simp: same_within_def)
  have "same_within ?bound peak x (Some x, peak1)" for x :: "recovered result \<times> disk" using one(2) by (simp add: same_within_def)
  then show ?case using one(1) r more Cons.IH by (cases res) (simp_all add: Let_def)
qed simp

lemma probed_locked_within:
  "same_within (scan_bound (unat (cfg_max_record_size cfg))) peak (open_locked crc clock cfg ob seed d)
     (probed_locked crc clock cfg ob seed d peak)"
proof -
  let ?bound = "scan_bound (unat (cfg_max_record_size cfg))"
  obtain r1 d1 where 1: "discover d = (r1, d1)" by fastforce
  show ?thesis
  proof (cases r1)
    case b: (Inr bases)
    obtain r2 d2 where 2: "discard_incomplete_highest crc bases cfg d1 = (r2, d2)" by fastforce
    show ?thesis
    proof (cases r2)
      case c: (Inr bs)
      let ?x = "if bs = [] then cold_start crc clock (unat (cfg_segment_size cfg)) seed d2 else recover_all crc bs cfg d2"
      let ?y = "if bs = [] then (Some (cold_start crc clock (unat (cfg_segment_size cfg)) seed d2), peak) else probed_all crc bs cfg d2 peak"
      have "same_within ?bound peak ?x ?y"
        using probed_bases_within by (simp add: probed_all_def recover_all_def)
      then obtain peak' where y: "?y = (Some ?x, peak')" "peak' \<le> max peak ?bound" by (rule same_withinE)
      obtain r3 d3 where 3: "?x = (r3, d3)" by fastforce
      show ?thesis
        unfolding open_locked_def probed_locked_def 1 b 2 c prod.case sum.case y(1) 3
        by (cases r3) (use y(2) in \<open>simp_all add: same_within_def\<close>)
    qed (use 1 b 2 in \<open>simp add: open_locked_def probed_locked_def\<close>)
  qed (use 1 in \<open>simp add: open_locked_def probed_locked_def\<close>)
qed

lemma probed_open_within:
  "same_within (scan_bound (unat (cfg_max_record_size cfg))) peak (open_wal crc clock cfg d) (probed_open crc clock cfg d peak)"
proof -
  obtain r1 d1 where 1: "may_fail d = (r1, d1)" by fastforce
  obtain r2 d2 where 2: "open_lock d1 = (r2, d2)" by fastforce
  obtain r3 d3 where 3: "flock d2 = (r3, d3)" by fastforce
  obtain peak' where l: "probed_locked crc clock cfg () FIRST d3 peak = (Some (open_locked crc clock cfg () FIRST d3), peak')"
    "peak' \<le> max peak (scan_bound (unat (cfg_max_record_size cfg)))" using probed_locked_within by (rule same_withinE)
  obtain r4 d4 where 4: "open_locked crc clock cfg () FIRST d3 = (r4, d4)" by fastforce
  show ?thesis
    unfolding open_wal_def open_with_def probed_open_def open_seeded_def probed_seeded_def 1
    by (cases r1; cases r2; cases r3; cases r4)
      (use 2 3 4 l in \<open>auto simp: same_within_def split: io_error.splits\<close>)
qed

end
