(* ===== verification/Wal_Invariant.thy ===== *)
theory Wal_Invariant
  imports Wal_Handle
begin

text \<open>
  What a directory and a handle mean. A log is a list of segments \<open>aseg\<close>, each with its
  base LSN, its header bytes and its payloads; the directory holds it when the files named
  like segments are exactly its segments, written and synced, and the handle matches it
  when its fields are the ones its last segment and the staged records determine.
\<close>

section \<open>Abstract segments\<close>

record aseg =
  sg_base :: nat
  sg_header :: bytes
  sg_log :: "bytes list"

definition seg_name :: "aseg \<Rightarrow> string" where
  "seg_name s = filename_for (lsn_of (sg_base s))"

definition seg_file :: "(bytes \<Rightarrow> u32) \<Rightarrow> nat \<Rightarrow> aseg \<Rightarrow> osfile" where
  "seg_file crc ssz s = disk_file (seg_bytes crc (sg_header s) (sg_base s) (sg_log s) ssz)"

definition seg_ok :: "(bytes \<Rightarrow> u32) \<Rightarrow> nat \<Rightarrow> nat \<Rightarrow> aseg \<Rightarrow> bool" where
  "seg_ok crc ssz mx s \<longleftrightarrow> seg_wf ssz mx (sg_header s) (sg_base s) (sg_log s)
     \<and> decode_header crc (sg_header s) = Inr \<lparr>base_lsn = lsn_of (sg_base s)\<rparr>"

text \<open>The LSN after the segment's last record.\<close>

definition seg_end :: "aseg \<Rightarrow> nat" where
  "seg_end s = sg_base s + length (sg_log s)"

fun chain :: "aseg list \<Rightarrow> bool" where
  "chain [] = False"
| "chain [s] = True"
| "chain (s # t # ss) = (sg_log s \<noteq> [] \<and> sg_base t = seg_end s \<and> chain (t # ss))"

definition segs_ok :: "(bytes \<Rightarrow> u32) \<Rightarrow> nat \<Rightarrow> nat \<Rightarrow> aseg list \<Rightarrow> bool" where
  "segs_ok crc ssz mx ss \<longleftrightarrow> chain ss \<and> list_all (seg_ok crc ssz mx) ss"

definition log_of :: "aseg list \<Rightarrow> bytes list" where
  "log_of ss = concat (map sg_log ss)"

definition log_base :: "aseg list \<Rightarrow> nat" where
  "log_base ss = sg_base (hd ss)"

definition log_end :: "aseg list \<Rightarrow> nat" where
  "log_end ss = seg_end (last ss)"

lemma seg_end_gt: "sg_log s \<noteq> [] \<Longrightarrow> sg_base s < seg_end s"
  by (simp add: seg_end_def)

lemma chain_not_Nil [simp]: "chain ss \<Longrightarrow> ss \<noteq> []"
  by (cases ss) auto

lemma chain_Cons: "chain (s # ss) \<longleftrightarrow> ss = [] \<or> sg_log s \<noteq> [] \<and> sg_base (hd ss) = seg_end s \<and> chain ss"
  by (cases ss) auto

lemma chain_snoc:
  "chain (ss @ [s, t]) \<longleftrightarrow> chain (ss @ [s]) \<and> sg_log s \<noteq> [] \<and> sg_base t = seg_end s"
proof (induction ss)
  case (Cons a ss)
  then show ?case by (cases ss) (auto simp: chain_Cons)
qed auto

lemma chain_update_last:
  "chain (ss @ [s]) \<Longrightarrow> sg_base s' = sg_base s \<Longrightarrow> chain (ss @ [s'])"
proof (induction ss)
  case (Cons a ss)
  then show ?case by (cases ss) (auto simp: chain_Cons)
qed auto

lemma chain_log_end: "chain ss \<Longrightarrow> log_end ss = log_base ss + length (log_of ss)"
proof (induction ss)
  case (Cons s ss)
  then show ?case by (cases ss) (auto simp: log_end_def log_base_def log_of_def seg_end_def)
qed simp

lemma chain_base_le: "chain (s # ss) \<Longrightarrow> t \<in> set ss \<Longrightarrow> sg_base s < sg_base t"
proof (induction ss arbitrary: s)
  case (Cons u us)
  have u: "sg_base s < sg_base u" using Cons.prems(1) by (cases "sg_log s") (auto simp: seg_end_def)
  show ?case
  proof (cases "t = u")
    case False
    then show ?thesis using Cons.IH [of u] Cons.prems u by force
  qed (use u in simp)
qed simp

lemma chain_sorted: "chain ss \<Longrightarrow> sorted_wrt (<) (map sg_base ss)"
proof (induction ss)
  case (Cons s ss)
  then show ?case using chain_base_le [OF Cons.prems] by (cases ss) (auto simp: seg_end_gt)
qed simp

lemma chain_end_greater: "chain (ss @ [s]) \<Longrightarrow> sg_log s \<noteq> [] \<Longrightarrow> t \<in> set (ss @ [s]) \<Longrightarrow> sg_base t < seg_end s"
proof -
  assume a: "chain (ss @ [s])" "sg_log s \<noteq> []" "t \<in> set (ss @ [s])"
  have "sorted_wrt (<) (map sg_base (ss @ [s]))" by (rule chain_sorted [OF a(1)])
  then have "\<forall>u \<in> set ss. sg_base u < sg_base s" by (simp add: sorted_wrt_append)
  moreover have "sg_base s < seg_end s" using a(2) by (simp add: seg_end_def)
  ultimately show ?thesis using a(3) by (auto intro: less_trans)
qed

section \<open>Directories that hold a log\<close>

definition is_seg_name :: "string \<Rightarrow> bool" where
  "is_seg_name n \<longleftrightarrow> parse_base_lsn n \<noteq> None"

fun dirop_name :: "dirop \<Rightarrow> string" where
  "dirop_name (Linked n) = n"
| "dirop_name (Unlinked n f) = n"

definition seg_map :: "(bytes \<Rightarrow> u32) \<Rightarrow> nat \<Rightarrow> aseg list \<Rightarrow> (string \<times> osfile) list" where
  "seg_map crc ssz ss = map (\<lambda>s. (seg_name s, seg_file crc ssz s)) ss"

definition names_settled :: "disk \<Rightarrow> bool" where
  "names_settled d \<longleftrightarrow> list_all (\<lambda>x. \<not> is_seg_name (dirop_name x)) (pending d)"

definition holds :: "(bytes \<Rightarrow> u32) \<Rightarrow> nat \<Rightarrow> aseg list \<Rightarrow> disk \<Rightarrow> bool" where
  "holds crc ssz ss d \<longleftrightarrow> distinct (map fst (entries d)) \<and> names_settled d
     \<and> (\<forall>n. is_seg_name n \<longrightarrow> map_of (entries d) n = map_of (seg_map crc ssz ss) n)"

lemma is_seg_name_iff: "is_seg_name n \<longleftrightarrow> (\<exists>l. n = filename_for l)"
proof
  assume "is_seg_name n"
  then show "\<exists>l. n = filename_for l" by (auto simp: is_seg_name_def parse_base_lsn_iff)
next
  assume "\<exists>l. n = filename_for l"
  then show "is_seg_name n" by (auto simp: is_seg_name_def parse_filename_for)
qed

lemma is_seg_name_simps [simp]: "is_seg_name (filename_for l)" "is_seg_name (seg_name s)"
  by (auto simp: is_seg_name_iff seg_name_def)

lemma LOCK_not_seg [simp]: "\<not> is_seg_name LOCK"
  by (simp add: is_seg_name_def LOCK_def parse_base_lsn_def strip_suffix_def)

lemma seg_name_inject:
  "sg_base s \<le> u64_max \<Longrightarrow> sg_base t \<le> u64_max \<Longrightarrow> seg_name s = seg_name t \<longleftrightarrow> sg_base s = sg_base t"
  by (simp add: seg_name_def lsn_of_inject)

lemma segs_ok_bound: "segs_ok crc ssz mx ss \<Longrightarrow> s \<in> set ss \<Longrightarrow> sg_base s \<le> u64_max"
  by (auto simp: segs_ok_def list_all_iff seg_ok_def seg_wf_def)

lemma segs_ok_distinct:
  assumes "segs_ok crc ssz mx ss"
  shows "distinct (map fst (seg_map crc ssz ss))"
proof -
  have "sorted_wrt (<) (map sg_base ss)" using assms chain_sorted by (auto simp: segs_ok_def)
  then have d: "distinct (map sg_base ss)" by (simp add: strict_sorted_iff)
  have "inj_on seg_name (set ss)"
  proof (rule inj_onI)
    fix s t assume st: "s \<in> set ss" "t \<in> set ss" "seg_name s = seg_name t"
    then have "sg_base s = sg_base t" using seg_name_inject segs_ok_bound [OF assms] by metis
    then show "s = t" using d st(1,2) by (auto simp: distinct_map dest: inj_onD)
  qed
  with d show ?thesis by (simp add: seg_map_def distinct_map o_def)
qed

lemma holds_file:
  assumes "holds crc ssz ss d" "segs_ok crc ssz mx ss" "s \<in> set ss"
  shows "map_of (entries d) (seg_name s) = Some (seg_file crc ssz s)"
proof -
  have "(seg_name s, seg_file crc ssz s) \<in> set (seg_map crc ssz ss)"
    using assms(3) by (auto simp: seg_map_def)
  then have "map_of (seg_map crc ssz ss) (seg_name s) = Some (seg_file crc ssz s)"
    by (rule map_of_is_SomeI [OF segs_ok_distinct [OF assms(2)]])
  then show ?thesis using assms(1) by (simp add: holds_def)
qed

lemma holds_no_file:
  assumes "holds crc ssz ss d" "segs_ok crc ssz mx ss" "b \<le> u64_max" "\<And>s. s \<in> set ss \<Longrightarrow> sg_base s \<noteq> b"
  shows "map_of (entries d) (filename_for (lsn_of b)) = None"
proof -
  have "filename_for (lsn_of b) \<notin> fst ` set (seg_map crc ssz ss)"
    using assms(3,4) segs_ok_bound [OF assms(2)]
    by (fastforce simp: seg_map_def seg_name_def lsn_of_inject)
  then have "map_of (seg_map crc ssz ss) (filename_for (lsn_of b)) = None"
    by (simp add: map_of_eq_None_iff)
  then show ?thesis using assms(1) by (simp add: holds_def)
qed

text \<open>Writing the last segment's file, and adding a segment.\<close>

lemma entries_put_file: "map_of (entries (put_file n f r d)) = (map_of (entries d))(n \<mapsto> f)"
  by (simp add: put_file_def update_conv')

lemma put_file_simps [simp]:
  "pending (put_file n f r d) = pending d" "dfaults (put_file n f r d) = r"
  "lock_held (put_file n f r d) = lock_held d"
  by (simp_all add: put_file_def)

lemma distinct_put_file: "distinct (map fst (entries d)) \<Longrightarrow> distinct (map fst (entries (put_file n f r d)))"
  by (simp add: put_file_def distinct_update)

lemma names_settled_put_file [simp]: "names_settled (put_file n f r d) = names_settled d"
  by (simp add: names_settled_def)

lemma map_of_seg_map_snoc:
  assumes "segs_ok crc ssz mx (ss @ [s])"
  shows "map_of (seg_map crc ssz (ss @ [s])) = (map_of (seg_map crc ssz ss))(seg_name s \<mapsto> seg_file crc ssz s)"
proof -
  have "seg_name s \<notin> fst ` set (seg_map crc ssz ss)"
    using segs_ok_distinct [OF assms] by (auto simp: seg_map_def)
  then have "map_of (seg_map crc ssz ss) (seg_name s) = None" by (simp add: map_of_eq_None_iff)
  then show ?thesis by (auto simp: seg_map_def map_add_def fun_eq_iff split: option.splits)
qed

lemma holds_put_last:
  assumes "holds crc ssz (ss @ [s]) d" "segs_ok crc ssz mx (ss @ [s])" "segs_ok crc ssz mx (ss @ [s'])"
    "sg_base s' = sg_base s"
  shows "holds crc ssz (ss @ [s']) (put_file (seg_name s) (seg_file crc ssz s') r d)"
proof -
  have n: "seg_name s' = seg_name s" using assms(4) by (simp add: seg_name_def)
  show ?thesis
    using assms(1) map_of_seg_map_snoc [OF assms(2)] map_of_seg_map_snoc [OF assms(3)] n
    by (simp add: holds_def distinct_put_file entries_put_file)
qed

lemma holds_snoc:
  assumes "holds crc ssz ss d" "segs_ok crc ssz mx (ss @ [s])"
    "map_of (entries d') = (map_of (entries d))(seg_name s \<mapsto> seg_file crc ssz s)"
    "distinct (map fst (entries d'))" "names_settled d'"
  shows "holds crc ssz (ss @ [s]) d'"
  using assms map_of_seg_map_snoc [OF assms(2)] by (simp add: holds_def)

section \<open>The handle\<close>

definition wal_core :: "(bytes \<Rightarrow> u32) \<Rightarrow> 'o wal \<Rightarrow> aseg list \<Rightarrow> bool" where
  "wal_core crc w ss \<longleftrightarrow>
     segs_ok crc (unat (segment_size w)) (unat (max_record_size w)) ss
     \<and> unat (max_record_size w) + 91 \<le> unat (segment_size w)
     \<and> segments w = map (\<lambda>s. lsn_of (sg_base s)) ss
     \<and> active w = seg_name (last ss)
     \<and> write_offset w = 64 + frames_size (sg_log (last ss))
     \<and> oldest_lsn w = lsn_of (log_base ss)
     \<and> durable_lsn w = lsn_of (log_end ss - 1)
     \<and> \<not> poisoned w"

text \<open>Of the staged records \<open>dn\<close> are written and part of the log, \<open>todo\<close> are not.\<close>

definition wal_staged :: "(bytes \<Rightarrow> u32) \<Rightarrow> 'o wal \<Rightarrow> aseg list \<Rightarrow> bytes list \<Rightarrow> bytes list \<Rightarrow> bool" where
  "wal_staged crc w ss dn todo \<longleftrightarrow>
     staging w = frames crc (log_end ss - length dn) dn @ frames crc (log_end ss) todo
     \<and> last_lsn w = lsn_of (log_end ss + length todo - 1)
     \<and> log_end ss + length todo \<le> Suc u64_max
     \<and> payloads_ok (unat (max_record_size w)) todo"

definition wal_inv :: "(bytes \<Rightarrow> u32) \<Rightarrow> 'o wal \<Rightarrow> aseg list \<Rightarrow> bytes list \<Rightarrow> bool" where
  "wal_inv crc w ss staged \<longleftrightarrow> wal_core crc w ss \<and> wal_staged crc w ss [] staged"

lemma segs_ok_last:
  assumes "segs_ok crc ssz mx ss"
  shows "seg_ok crc ssz mx (last ss)" "0 < log_end ss" "log_end ss \<le> Suc u64_max" "ss \<noteq> []"
proof -
  show "ss \<noteq> []" using assms by (auto simp: segs_ok_def)
  then show "seg_ok crc ssz mx (last ss)" using assms by (simp add: segs_ok_def list_all_iff)
  then show "0 < log_end ss" "log_end ss \<le> Suc u64_max"
    by (simp_all add: seg_ok_def seg_wf_def log_end_def seg_end_def)
qed

subsection \<open>Append\<close>

lemma append_too_large:
  "\<not> poisoned w \<Longrightarrow> unat (max_record_size w) < length p \<Longrightarrow> wal_append crc p w = (Inl RecordTooLarge, w)"
  by (simp add: wal_append_def)

lemma append_inv:
  assumes inv: "wal_inv crc w ss staged" and len: "length p \<le> unat (max_record_size w)"
  shows "if log_end ss + length staged \<le> u64_max
    then \<exists>w'. wal_append crc p w = (Inr (lsn_of (log_end ss + length staged)), w')
      \<and> wal_inv crc w' ss (staged @ [p]) \<and> segment_size w' = segment_size w
      \<and> max_record_size w' = max_record_size w \<and> observer w' = observer w
    else wal_append crc p w = (Inl LsnExhausted, w)"
proof -
  let ?n = "log_end ss + length staged"
  have pos: "0 < log_end ss" and le: "?n \<le> Suc u64_max"
    using inv segs_ok_last by (auto simp: wal_inv_def wal_core_def wal_staged_def)
  have last: "last_lsn w = lsn_of (?n - 1)" using inv by (simp add: wal_inv_def wal_staged_def)
  show ?thesis
  proof (cases "?n \<le> u64_max")
    case True
    then have "checked_next (last_lsn w) = Some (lsn_of ?n)"
      using last pos checked_next_lsn_of [of "?n - 1"] by simp
    then show ?thesis
      using True inv len pos
      by (auto simp: wal_append_def wal_inv_def wal_core_def wal_staged_def encode_into_eq frames_append)
  next
    case False
    then have "checked_next (last_lsn w) = None" using last le by (simp add: checked_next_None)
    then show ?thesis using False inv len by (simp add: wal_append_def wal_inv_def wal_core_def)
  qed
qed

end
