(* ===== verification/Wal_Commit.thy ===== *)
theory Wal_Commit
  imports Wal_Invariant
begin

text \<open>
  Committing (\<^verbatim>\<open>Wal::commit\<close>, \<^verbatim>\<open>Wal::roll\<close>): what each step of the commit loop does to a
  directory that holds a log, when it succeeds, when it fails, and that it succeeds on a
  platform without failures.
\<close>

section \<open>The prefix that fits\<close>

fun fit_count :: "nat \<Rightarrow> bytes list \<Rightarrow> nat" where
  "fit_count rm [] = 0"
| "fit_count rm (p # ps) =
     (if framed_size (length p) \<le> rm then Suc (fit_count (rm - framed_size (length p)) ps) else 0)"

lemma fit_count_le: "fit_count rm ps \<le> length ps"
  by (induction ps arbitrary: rm) auto

lemma fit_count_fits: "frames_size (take (fit_count rm ps) ps) \<le> rm"
proof (induction ps arbitrary: rm)
  case (Cons p ps)
  from Cons.IH [of "rm - framed_size (length p)"] show ?case by auto
qed simp

lemma fit_count_pos: "ps \<noteq> [] \<Longrightarrow> framed_size (length (hd ps)) \<le> rm \<Longrightarrow> 0 < fit_count rm ps"
  by (cases ps) auto

lemma fit_prefix_frames:
  assumes "payloads_ok mx ps" "mx \<le> u32_max" "pos \<le> length pre" "length pre - pos \<le> rm"
  shows "fit_prefix (pre @ frames crc n ps) rm pos (length pre) pl =
    (let c = fit_count (rm - (length pre - pos)) ps
     in (length pre + frames_size (take c ps), if c = 0 then pl else lsn_of (n + c - 1)))"
  using assms
proof (induction ps arbitrary: pre n pl)
  case Nil
  then show ?case by (subst fit_prefix.simps) simp
next
  case (Cons p ps)
  let ?st = "pre @ frames crc n (p # ps)" and ?f = "framed_size (length p)"
  have pk: "peek (drop (length pre) ?st) = (lsn_of n, ?f)"
    using peek_frame [of p crc "lsn_of n" "frames crc (Suc n) ps"] Cons.prems(1,2) by simp
  have lt: "length pre < length ?st" using framed_size_ge24 [of "length p"] by simp
  show ?case
  proof (cases "length pre - pos + ?f \<le> rm")
    case False
    then have "\<not> ?f \<le> rm - (length pre - pos)" using Cons.prems(4) by linarith
    then show ?thesis using False pk lt by (subst fit_prefix.simps) (simp add: Let_def)
  next
    case True
    have "fit_prefix ?st rm pos (length pre) pl
        = fit_prefix ((pre @ frame crc (lsn_of n) p) @ frames crc (Suc n) ps) rm pos
            (length (pre @ frame crc (lsn_of n) p)) (lsn_of n)"
      using True pk lt by (subst fit_prefix.simps) (simp del: append_assoc add: append_assoc [symmetric])
    moreover have "rm - (length pre - pos) - ?f = rm - (length (pre @ frame crc (lsn_of n) p) - pos)"
      using Cons.prems(3) by simp
    ultimately show ?thesis
      using Cons.IH [of "pre @ frame crc (lsn_of n) p" "Suc n" "lsn_of n"] Cons.prems True
      by (auto simp: Let_def)
  qed
qed

section \<open>Writing a prefix\<close>

lemma pwrite_image:
  "length h = 64 \<Longrightarrow> pwrite (64 + frames_size ps) bs (seg_image crc h n ps r)
     = seg_image crc h n ps (bs @ drop (length bs) r)"
  by (simp add: pwrite_inside seg_image_def)

lemma pwrite_seg_bytes:
  assumes "seg_wf ssz mx h n (ps @ qs)"
  shows "pwrite (64 + frames_size ps) (frames crc (n + length ps) qs) (seg_bytes crc h n ps ssz)
    = seg_bytes crc h n (ps @ qs) ssz"
  using assms
  by (simp add: seg_bytes_def pwrite_image seg_wf_def seg_image_frames add.assoc)

text \<open>The last segment with more records.\<close>

definition extend_seg :: "aseg \<Rightarrow> bytes list \<Rightarrow> aseg" where
  "extend_seg s ps = s\<lparr>sg_log := sg_log s @ ps\<rparr>"

lemma extend_seg_simps [simp]:
  "sg_base (extend_seg s ps) = sg_base s" "sg_header (extend_seg s ps) = sg_header s"
  "sg_log (extend_seg s ps) = sg_log s @ ps" "seg_name (extend_seg s ps) = seg_name s"
  "seg_end (extend_seg s ps) = seg_end s + length ps"
  by (simp_all add: extend_seg_def seg_name_def seg_end_def)

lemma segs_ok_extend:
  assumes "segs_ok crc ssz mx (ss @ [s])" "payloads_ok mx ps" "seg_end s + length ps \<le> Suc u64_max"
    "64 + frames_size (sg_log s) + frames_size ps \<le> ssz"
  shows "segs_ok crc ssz mx (ss @ [extend_seg s ps])"
  using assms chain_update_last [of ss s "extend_seg s ps"]
  by (auto simp: segs_ok_def seg_ok_def seg_wf_def seg_end_def)

text \<open>What a failed write or sync leaves of the active file: its synced bytes are the old
  ones, its cached bytes have some prefix of the new records written.\<close>

definition torn_file :: "(bytes \<Rightarrow> u32) \<Rightarrow> nat \<Rightarrow> aseg \<Rightarrow> bytes \<Rightarrow> osfile" where
  "torn_file crc ssz s bs =
     \<lparr>fdata = pwrite (64 + frames_size (sg_log s)) bs (fdata (seg_file crc ssz s)),
      fsynced = fdata (seg_file crc ssz s), fbad = []\<rparr>"

lemma torn_file_full:
  assumes "seg_wf ssz mx (sg_header s) (sg_base s) (sg_log s @ ps)"
  shows "fdata (torn_file crc ssz s (frames crc (seg_end s) ps)) = fdata (seg_file crc ssz (extend_seg s ps))"
  using pwrite_seg_bytes [OF assms, of crc] by (simp add: torn_file_def seg_file_def seg_end_def)

lemma write_prefix_cases:
  assumes wp: "write_prefix on_durable pos scan pl w d = (res, w', d')"
    and f: "file_of d (active w) = seg_file crc ssz s"
    and off: "write_offset w = 64 + frames_size (sg_log s)"
    and win: "window pos scan (staging w) = bs"
  shows "(res = Inr () \<and> w' = w\<lparr>write_offset := write_offset w + (scan - pos), durable_lsn := pl,
             observer := on_durable pl (observer w)\<rparr>
           \<and> d' = put_file (active w) (disk_file (fdata (torn_file crc ssz s bs))) (dfaults d') d)
    \<or> (\<exists>e k. res = Inl e \<and> w' = w\<lparr>poisoned := True\<rparr>
           \<and> d' = put_file (active w) (torn_file crc ssz s (take k bs)) (dfaults d') d)"
proof -
  obtain r1 f1 q1 where w1: "write_all_at (seg_file crc ssz s) (write_offset w) bs (dfaults d) = (r1, f1, q1)"
    by (cases "write_all_at (seg_file crc ssz s) (write_offset w) bs (dfaults d)")
  show ?thesis
  proof (cases r1)
    case (Inl e)
    then obtain k where "f1 = torn_file crc ssz s (take k bs)"
      using w1 off by (auto simp: write_all_at_def torn_file_def seg_file_def disk_file_def split: prod.splits fault.splits)
    then show ?thesis using wp f win w1 Inl by (auto simp: write_prefix_def)
  next
    case (Inr u)
    then have f1: "f1 = torn_file crc ssz s bs"
      using w1 off by (auto simp: write_all_at_def torn_file_def seg_file_def disk_file_def split: prod.splits fault.splits)
    obtain r2 f2 q2 where s2: "sync_data_fully f1 q1 = (r2, f2, q2)"
      by (cases "sync_data_fully f1 q1")
    show ?thesis
    proof (cases r2)
      case (Inl e)
      then have "f2 = torn_file crc ssz s (take (length bs) bs)"
        using s2 f1 by (auto simp: sync_data_fully_def sync_data_def split: prod.splits fault.splits)
      then have "d' = put_file (active w) (torn_file crc ssz s (take (length bs) bs)) (dfaults d') d"
        "res = Inl FsyncFailed" "w' = w\<lparr>poisoned := True\<rparr>"
        using wp f win w1 Inr s2 Inl by (auto simp: write_prefix_def)
      then show ?thesis by blast
    next
      case (Inr v)
      then have "f2 = disk_file (fdata (torn_file crc ssz s bs))"
        using s2 f1 by (auto simp: sync_data_fully_def sync_data_def disk_file_def torn_file_def
            split: prod.splits fault.splits)
      then show ?thesis using wp f win w1 \<open>r1 = Inr u\<close> s2 Inr by (auto simp: write_prefix_def)
    qed
  qed
qed

section \<open>Rolling to a new segment\<close>

text \<open>Any stage of the creation of a segment: zeros, or the bytes of the fresh segment.\<close>

definition partial_segment :: "(bytes \<Rightarrow> u32) \<Rightarrow> u64 \<Rightarrow> lsn \<Rightarrow> nat \<Rightarrow> bytes \<Rightarrow> bool" where
  "partial_segment crc c b ssz bs \<longleftrightarrow> length bs \<le> ssz
     \<and> (\<forall>i < length bs. bs ! i = 0 \<or> bs ! i = fresh_segment crc c b ssz ! i)"

lemma partial_segment_zeros: "k \<le> ssz \<Longrightarrow> partial_segment crc c b ssz (zeros k)"
  by (simp add: partial_segment_def)

lemma partial_segment_header:
  assumes "64 \<le> ssz"
  shows "partial_segment crc c b ssz (pwrite 0 (take k (encode_header crc b c)) (zeros ssz))"
  using assms
  by (auto simp: partial_segment_def pwrite_inside fresh_segment_def nth_append)

lemma preallocate_cases:
  assumes "preallocate empty_file ssz flts = (res, g, r)"
  shows "fsynced g = []" "fbad g = []" "\<exists>k \<le> ssz. fdata g = zeros k \<and> (res = Inr () \<longrightarrow> k = ssz)"
proof -
  have "fsynced g = [] \<and> fbad g = [] \<and> (\<exists>k \<le> ssz. fdata g = zeros k \<and> (res = Inr () \<longrightarrow> k = ssz))"
  proof (cases "next_fault flts")
    case (Pair x q)
    show ?thesis
    proof (cases x)
      case NoFault
      then show ?thesis using assms Pair by (auto simp: preallocate_def fallocate_def empty_file_def)
    next
      case (Fault e k)
      show ?thesis
      proof (cases "e = Unsupported")
        case True
        obtain z g1 q1 where z: "write_zeros empty_file 0 ssz q = (z, g1, q1)"
          by (cases "write_zeros empty_file 0 ssz q")
        from write_zeros_effect [OF z]
        obtain j where "j \<le> ssz" "g1 = empty_file\<lparr>fdata := pwrite 0 (zeros j) []\<rparr>" "z = Inr () \<longrightarrow> j = ssz"
          by (auto simp: empty_file_def)
        then show ?thesis
          using assms Pair Fault True z
          by (cases "zeros j = []") (auto simp: preallocate_def fallocate_def empty_file_def pwrite_def split: sum.splits)
      next
        case False
        then have "g = empty_file" "res = Inl (Io e)"
          using assms Pair Fault by (cases e; auto simp: preallocate_def fallocate_def)+
        then show ?thesis by (auto simp: empty_file_def)
      qed
    qed
  qed
  then show "fsynced g = []" "fbad g = []" "\<exists>k \<le> ssz. fdata g = zeros k \<and> (res = Inr () \<longrightarrow> k = ssz)" by auto
qed

lemma fresh_segment_pwrite:
  "64 \<le> ssz \<Longrightarrow> pwrite 0 (encode_header crc b c) (zeros ssz) = fresh_segment crc c b ssz"
  by (simp add: pwrite_inside fresh_segment_def)

lemma init_segment_cases:
  assumes "init_segment crc c b ssz empty_file flts = (res, g, r)" "64 \<le> ssz"
  shows "res = Inr () \<and> g = disk_file (fresh_segment crc c b ssz)
    \<or> (\<exists>e. res = Inl e) \<and> fbad g = [] \<and> fsynced g = [] \<and> partial_segment crc c b ssz (fdata g)"
proof -
  let ?h = "encode_header crc b c"
  obtain r1 g1 q1 where p: "preallocate empty_file ssz flts = (r1, g1, q1)"
    by (cases "preallocate empty_file ssz flts")
  note pc = preallocate_cases [OF p]
  show ?thesis
  proof (cases r1)
    case (Inl e)
    then show ?thesis using assms(1) p pc by (auto simp: init_segment_def intro: partial_segment_zeros)
  next
    case (Inr u)
    then have d1: "fdata g1 = zeros ssz" using pc(3) by auto
    obtain r2 g2 q2 where w: "write_all_at g1 0 ?h q1 = (r2, g2, q2)"
      by (cases "write_all_at g1 0 ?h q1")
    show ?thesis
    proof (cases r2)
      case (Inl e)
      then obtain k where "g2 = g1\<lparr>fdata := pwrite 0 (take k ?h) (zeros ssz)\<rparr>"
        using w d1 by (auto simp: write_all_at_def split: prod.splits fault.splits)
      then show ?thesis
        using assms p \<open>r1 = Inr u\<close> w Inl pc(1,2) partial_segment_header [OF assms(2)]
        by (auto simp: init_segment_def)
    next
      case (Inr v)
      then have g2: "g2 = g1\<lparr>fdata := fresh_segment crc c b ssz\<rparr>"
        using w d1 fresh_segment_pwrite [OF assms(2), of crc b c]
        by (auto simp: write_all_at_def split: prod.splits fault.splits)
      have part: "partial_segment crc c b ssz (fresh_segment crc c b ssz)"
        using assms(2) by (simp add: partial_segment_def fresh_segment_def)
      note step = assms(1) p \<open>r1 = Inr u\<close> w Inr
      show ?thesis
      proof (cases rule: sync_data_cases [of g2 q2])
        case (1 q)
        then show ?thesis
          using step g2 pc(2) by (cases g1) (auto simp: init_segment_def sync_data_fully_def disk_file_def)
      next
        case (2 e q)
        then show ?thesis
          using step g2 pc(1,2) part by (auto simp: init_segment_def sync_data_fully_def)
      qed
    qed
  qed
qed

lemma fsync_dir_cases:
  assumes "fsync_dir d = (res, d')"
  shows "entries d' = entries d" "lock_held d' = lock_held d"
    "res = Inr () \<and> pending d' = [] \<or> (\<exists>e. res = Inl e) \<and> pending d' = pending d"
proof -
  have "entries d' = entries d \<and> lock_held d' = lock_held d
    \<and> (res = Inr () \<and> pending d' = [] \<or> (\<exists>e. res = Inl e) \<and> pending d' = pending d)"
  proof (cases rule: may_fail_cases [of d])
    case (1 q)
    then show ?thesis
      using assms by (cases rule: may_fail_cases [of "d\<lparr>dfaults := q\<rparr>"])
        (auto simp: fsync_dir_def fsync_directory_def)
  qed (use assms in \<open>auto simp: fsync_dir_def\<close>)
  then show "entries d' = entries d" "lock_held d' = lock_held d"
    "res = Inr () \<and> pending d' = [] \<or> (\<exists>e. res = Inl e) \<and> pending d' = pending d" by auto
qed

lemma create_new_cases:
  obtains q where "map_of (entries d) name = None"
      "create_new name d = (Inr empty_file, d\<lparr>entries := entries d @ [(name, empty_file)],
         pending := pending d @ [Linked name], dfaults := q\<rparr>)"
  | e q where "create_new name d = (Inl e, d\<lparr>dfaults := q\<rparr>)"
  by (cases "next_fault (dfaults d)"; cases "fst (next_fault (dfaults d))"; cases "map_of (entries d) name")
    (auto simp: create_new_def)

text \<open>The new segment, and the directory of a roll that did not get through.\<close>

definition new_seg :: "(bytes \<Rightarrow> u32) \<Rightarrow> (lsn \<Rightarrow> u64) \<Rightarrow> nat \<Rightarrow> aseg" where
  "new_seg crc clock b =
     \<lparr>sg_base = b, sg_header = encode_header crc (lsn_of b) (clock (lsn_of b)), sg_log = []\<rparr>"

lemma new_seg_simps [simp]:
  "sg_base (new_seg crc clock b) = b" "sg_log (new_seg crc clock b) = []"
  "seg_name (new_seg crc clock b) = filename_for (lsn_of b)" "seg_end (new_seg crc clock b) = b"
  by (simp_all add: new_seg_def seg_name_def seg_end_def)

lemma new_seg_ok:
  "0 < b \<Longrightarrow> b \<le> u64_max \<Longrightarrow> mx \<le> u32_max \<Longrightarrow> 64 \<le> ssz \<Longrightarrow> seg_ok crc ssz mx (new_seg crc clock b)"
  by (simp add: new_seg_def seg_ok_def seg_wf_def decode_encode_header is_none_iff)

lemma seg_file_new_seg:
  "seg_file crc ssz (new_seg crc clock b) = disk_file (fresh_segment crc (clock (lsn_of b)) (lsn_of b) ssz)"
  by (simp add: seg_file_def new_seg_def seg_bytes_fresh)

definition rolling :: "(bytes \<Rightarrow> u32) \<Rightarrow> (lsn \<Rightarrow> u64) \<Rightarrow> nat \<Rightarrow> aseg list \<Rightarrow> nat \<Rightarrow> disk \<Rightarrow> bool" where
  "rolling crc clock ssz ss b d \<longleftrightarrow>
     holds crc ssz ss d
     \<or> (\<exists>es g pn. entries d = es @ [(filename_for (lsn_of b), g)] \<and> pending d = pn @ [Linked (filename_for (lsn_of b))]
          \<and> holds crc ssz ss (d\<lparr>entries := es, pending := pn\<rparr>) \<and> filename_for (lsn_of b) \<notin> fst ` set es
          \<and> fbad g = [] \<and> (fsynced g = [] \<and> partial_segment crc (clock (lsn_of b)) (lsn_of b) ssz (fdata g)
                          \<or> g = seg_file crc ssz (new_seg crc clock b)))"

lemma holds_dfaults [simp]: "holds crc ssz ss (d\<lparr>dfaults := q\<rparr>) = holds crc ssz ss d"
  by (simp add: holds_def names_settled_def)

lemma update_snoc: "k \<notin> fst ` set es \<Longrightarrow> AList.update k g (es @ [(k, f)]) = es @ [(k, g)]"
  by (induction es) auto

lemma map_of_snoc: "k \<notin> fst ` set es \<Longrightarrow> map_of (es @ [(k, v)]) = (map_of es)(k \<mapsto> v)"
  by (induction es) (auto simp: fun_eq_iff)

lemma put_file_snoc:
  "entries d = es @ [(n, f)] \<Longrightarrow> n \<notin> fst ` set es \<Longrightarrow> entries (put_file n g r d) = es @ [(n, g)]"
  by (simp add: put_file_def update_snoc)

lemma create_cases:
  assumes c: "create crc (clock (lsn_of b)) (lsn_of b) ssz d = (res, d')" and "64 \<le> ssz"
    and h: "holds crc ssz ss d"
  shows "res = Inr () \<and> filename_for (lsn_of b) \<notin> fst ` set (entries d)
        \<and> entries d' = entries d @ [(filename_for (lsn_of b), seg_file crc ssz (new_seg crc clock b))]
        \<and> pending d' = pending d @ [Linked (filename_for (lsn_of b))]
    \<or> (\<exists>e. res = Inl e) \<and> rolling crc clock ssz ss b d'"
proof -
  let ?n = "filename_for (lsn_of b)"
  show ?thesis
  proof (cases rule: create_new_cases [of d ?n])
    case (2 e q)
    then show ?thesis using c h by (auto simp: create_def rolling_def)
  next
    case (1 q)
    then have nin: "?n \<notin> fst ` set (entries d)" by (simp add: map_of_eq_None_iff)
    let ?d1 = "d\<lparr>entries := entries d @ [(?n, empty_file)], pending := pending d @ [Linked ?n], dfaults := q\<rparr>"
    obtain r g k where i: "init_segment crc (clock (lsn_of b)) (lsn_of b) ssz empty_file q = (r, g, k)"
      by (cases "init_segment crc (clock (lsn_of b)) (lsn_of b) ssz empty_file q")
    have d': "res = r" "d' = put_file ?n g k ?d1" using c 1(2) i by (simp_all add: create_def Let_def)
    have e': "entries d' = entries d @ [(?n, g)]"
      unfolding d'(2) by (rule put_file_snoc [OF _ nin]) simp
    have p': "pending d' = pending d @ [Linked ?n]" by (simp add: d'(2))
    have hd: "holds crc ssz ss (d'\<lparr>entries := entries d, pending := pending d\<rparr>)"
      using h by (simp add: holds_def names_settled_def)
    from init_segment_cases [OF i assms(2)] show ?thesis
    proof
      assume "r = Inr () \<and> g = disk_file (fresh_segment crc (clock (lsn_of b)) (lsn_of b) ssz)"
      then show ?thesis using nin d'(1) e' p' by (simp add: seg_file_new_seg)
    next
      assume "(\<exists>e. r = Inl e) \<and> fbad g = [] \<and> fsynced g = []
        \<and> partial_segment crc (clock (lsn_of b)) (lsn_of b) ssz (fdata g)"
      then show ?thesis using nin d'(1) e' p' hd unfolding rolling_def by blast
    qed
  qed
qed

lemma wal_core_pos: "wal_core crc w ss \<Longrightarrow> 64 \<le> unat (segment_size w) \<and> unat (max_record_size w) \<le> u32_max"
  using unat_u32_le [of "max_record_size w"] by (simp add: wal_core_def)

lemma wal_core_segs:
  "wal_core crc w ss \<Longrightarrow> segs_ok crc (unat (segment_size w)) (unat (max_record_size w)) ss"
  by (simp add: wal_core_def)

lemma wal_core_not_Nil: "wal_core crc w ss \<Longrightarrow> ss \<noteq> []"
  using segs_ok_last(4) wal_core_segs by blast

lemma segs_ok_snoc_new:
  assumes "segs_ok crc ssz mx ss" "sg_log (last ss) \<noteq> []" "log_end ss \<le> u64_max" "mx \<le> u32_max" "64 \<le> ssz"
  shows "segs_ok crc ssz mx (ss @ [new_seg crc clock (log_end ss)])"
proof -
  have ne: "ss \<noteq> []" and pos: "0 < log_end ss" using segs_ok_last [OF assms(1)] by auto
  then have "chain (butlast ss @ [last ss, new_seg crc clock (log_end ss)])"
    using assms(1,2) by (simp add: chain_snoc segs_ok_def log_end_def)
  then have "chain ((butlast ss @ [last ss]) @ [new_seg crc clock (log_end ss)])" by simp
  then have "chain (ss @ [new_seg crc clock (log_end ss)])" using ne by simp
  then show ?thesis
    using assms(1) new_seg_ok [OF pos assms(3-5), of crc clock] by (simp add: segs_ok_def)
qed

lemma roll_cases:
  assumes r: "roll crc clock (lsn_of (log_end ss)) w d = (res, w', d')"
    and core: "wal_core crc w ss" and h: "holds crc (unat (segment_size w)) ss d"
    and ne: "sg_log (last ss) \<noteq> []" and le: "log_end ss \<le> u64_max"
  shows "(res = Inr () \<and> wal_core crc w' (ss @ [new_seg crc clock (log_end ss)])
       \<and> holds crc (unat (segment_size w)) (ss @ [new_seg crc clock (log_end ss)]) d'
       \<and> staging w' = staging w \<and> last_lsn w' = last_lsn w \<and> observer w' = observer w
       \<and> segment_size w' = segment_size w \<and> max_record_size w' = max_record_size w)
    \<or> (\<exists>e. res = Inl e) \<and> w' = w\<lparr>poisoned := True\<rparr>
       \<and> rolling crc clock (unat (segment_size w)) ss (log_end ss) d'"
proof -
  let ?ssz = "unat (segment_size w)" and ?b = "lsn_of (log_end ss)"
  let ?new = "new_seg crc clock (log_end ss)"
  note pos = wal_core_pos [OF core]
  have ok: "segs_ok crc ?ssz (unat (max_record_size w)) (ss @ [?new])"
    using core pos ne le by (intro segs_ok_snoc_new) (auto simp: wal_core_def)
  have sne: "ss \<noteq> []" by (rule wal_core_not_Nil [OF core])
  obtain r1 d1 where c: "create crc (clock ?b) ?b ?ssz d = (r1, d1)" by fastforce
  from create_cases [where clock = clock, OF c conjunct1 [OF pos] h] show ?thesis
  proof (elim disjE conjE exE)
    fix e assume "r1 = Inl e" "rolling crc clock ?ssz ss (log_end ss) d1"
    then show ?thesis using r c by (auto simp: roll_def)
  next
    assume r1: "r1 = Inr ()" and nin: "filename_for ?b \<notin> fst ` set (entries d)"
      and e1: "entries d1 = entries d @ [(filename_for ?b, seg_file crc ?ssz ?new)]"
      and p1: "pending d1 = pending d @ [Linked (filename_for ?b)]"
    obtain r2 d2 where f: "fsync_dir d1 = (r2, d2)" by fastforce
    note fc = fsync_dir_cases [OF f]
    have d1: "distinct (map fst (entries d2))" using nin h fc(1) e1 by (simp add: holds_def)
    show ?thesis
      using fc(3)
    proof (elim disjE conjE exE)
      assume r2: "r2 = Inr ()" and p2: "pending d2 = []"
      have m: "map_of (entries d2) = (map_of (entries d))(filename_for ?b \<mapsto> seg_file crc ?ssz ?new)"
        unfolding fc(1) e1 by (rule map_of_snoc [OF nin])
      have "holds crc ?ssz (ss @ [?new]) d2"
        by (rule holds_snoc [OF h ok]) (use m d1 p2 in \<open>simp_all add: names_settled_def\<close>)
      then show ?thesis
        using r c r1 f r2 core ok sne by (auto simp: roll_def wal_core_def log_base_def log_end_def)
    next
      fix e assume r2: "r2 = Inl e" and p2: "pending d2 = pending d1"
      have "holds crc ?ssz ss (d2\<lparr>entries := entries d, pending := pending d\<rparr>)"
        using h by (simp add: holds_def names_settled_def)
      moreover have "fbad (seg_file crc ?ssz ?new) = []" by (simp add: seg_file_def disk_file_def)
      ultimately have "rolling crc clock ?ssz ss (log_end ss) d2"
        using fc(1) e1 p1 p2 nin unfolding rolling_def by metis
      then show ?thesis using r c r1 f r2 by (auto simp: roll_def)
    qed
  qed
qed

section \<open>One step of the commit loop\<close>

definition after_write :: "aseg list \<Rightarrow> bytes list \<Rightarrow> aseg list" where
  "after_write ss ps = butlast ss @ [extend_seg (last ss) ps]"

lemma after_write_simps [simp]:
  "last (after_write ss ps) = extend_seg (last ss) ps" "log_end (after_write ss ps) = log_end ss + length ps"
  "after_write ss ps \<noteq> []"
  by (simp_all add: after_write_def log_end_def)

lemma log_of_after_write: "ss \<noteq> [] \<Longrightarrow> log_of (after_write ss ps) = log_of ss @ ps"
  by (cases ss rule: rev_cases) (simp_all add: after_write_def log_of_def)

lemma log_base_after_write: "ss \<noteq> [] \<Longrightarrow> log_base (after_write ss ps) = log_base ss"
  by (cases ss) (simp_all add: after_write_def log_base_def)

lemma bases_after_write:
  "ss \<noteq> [] \<Longrightarrow> map (\<lambda>s. lsn_of (sg_base s)) (after_write ss ps) = map (\<lambda>s. lsn_of (sg_base s)) ss"
  by (cases ss rule: rev_cases) (simp_all add: after_write_def)

lemma after_write_Nil: "ss \<noteq> [] \<Longrightarrow> after_write ss [] = ss"
  by (simp add: after_write_def extend_seg_def)

lemma segs_ok_after_write:
  assumes "segs_ok crc ssz mx ss" "payloads_ok mx ps" "log_end ss + length ps \<le> Suc u64_max"
    "64 + frames_size (sg_log (last ss)) + frames_size ps \<le> ssz"
  shows "segs_ok crc ssz mx (after_write ss ps)"
  unfolding after_write_def
  by (rule segs_ok_extend) (use assms segs_ok_last(4) [OF assms(1)] in \<open>simp_all add: log_end_def\<close>)

lemma holds_after_write:
  assumes "holds crc ssz ss d" "segs_ok crc ssz mx ss" "segs_ok crc ssz mx (after_write ss ps)"
  shows "holds crc ssz (after_write ss ps)
    (put_file (seg_name (last ss)) (seg_file crc ssz (extend_seg (last ss) ps)) r d)"
  unfolding after_write_def
  by (rule holds_put_last [where s = "last ss"])
    (use assms segs_ok_last(4) [OF assms(2)] in \<open>simp_all add: after_write_def\<close>)

text \<open>The log after a step of the loop with the records \<open>todo\<close> left to write.\<close>

definition fit_here :: "'o wal \<Rightarrow> bytes list \<Rightarrow> nat" where
  "fit_here w todo = fit_count (unat (segment_size w) - write_offset w) todo"

definition after_step ::
    "(bytes \<Rightarrow> u32) \<Rightarrow> (lsn \<Rightarrow> u64) \<Rightarrow> aseg list \<Rightarrow> nat \<Rightarrow> bytes list \<Rightarrow> aseg list" where
  "after_step crc clock ss c todo =
     (if c < length todo then after_write ss (take c todo) @ [new_seg crc clock (log_end ss + c)]
      else after_write ss todo)"

text \<open>The directory of a commit that did not get through: the acknowledged log \<open>ss\<close> is
  there, and either its last file has been torn by a write of some of \<open>todo\<close>, or the next
  segment's file is in some stage of its creation.\<close>

definition torn :: "(bytes \<Rightarrow> u32) \<Rightarrow> nat \<Rightarrow> nat \<Rightarrow> aseg list \<Rightarrow> bytes list \<Rightarrow> disk \<Rightarrow> bool" where
  "torn crc ssz mx ss todo d \<longleftrightarrow>
     (\<exists>d0 c k r. holds crc ssz ss d0 \<and> segs_ok crc ssz mx (after_write ss (take c todo))
        \<and> d = put_file (seg_name (last ss))
                (torn_file crc ssz (last ss) (take k (frames crc (log_end ss) (take c todo)))) r d0)"

definition interrupted ::
    "(bytes \<Rightarrow> u32) \<Rightarrow> (lsn \<Rightarrow> u64) \<Rightarrow> nat \<Rightarrow> nat \<Rightarrow> aseg list \<Rightarrow> bytes list \<Rightarrow> disk \<Rightarrow> bool" where
  "interrupted crc clock ssz mx ss todo d \<longleftrightarrow>
     torn crc ssz mx ss todo d \<or> (sg_log (last ss) \<noteq> [] \<and> log_end ss \<le> u64_max \<and> rolling crc clock ssz ss (log_end ss) d)"

lemma fit_here_pos:
  assumes "wal_core crc w ss" "todo \<noteq> []" "payloads_ok (unat (max_record_size w)) todo"
    "sg_log (last ss) = []"
  shows "0 < fit_here w todo"
  unfolding fit_here_def
proof (rule fit_count_pos [OF assms(2)])
  have "length (hd todo) \<le> unat (max_record_size w)" using assms(2,3) by (cases todo) auto
  then show "framed_size (length (hd todo)) \<le> unat (segment_size w) - write_offset w"
    using framed_size_bounds(2) [of "length (hd todo)"] assms(1,4) by (auto simp: wal_core_def)
qed

lemma payloads_ok_take: "payloads_ok mx ps \<Longrightarrow> payloads_ok mx (take c ps)"
  by (metis append_take_drop_id payloads_ok_simps(3))

lemma payloads_ok_drop: "payloads_ok mx ps \<Longrightarrow> payloads_ok mx (drop c ps)"
  by (metis append_take_drop_id payloads_ok_simps(3))

lemma segs_ok_fit:
  assumes core: "wal_core crc w ss" and stg: "wal_staged crc w ss dn todo"
  shows "segs_ok crc (unat (segment_size w)) (unat (max_record_size w)) (after_write ss (take (fit_here w todo) todo))"
proof (rule segs_ok_after_write [OF wal_core_segs [OF core]])
  have off: "write_offset w = 64 + frames_size (sg_log (last ss))" using core by (simp add: wal_core_def)
  have le: "write_offset w \<le> unat (segment_size w)"
    using off segs_ok_last(1) [OF wal_core_segs [OF core]] by (simp add: seg_ok_def seg_wf_def)
  show "64 + frames_size (sg_log (last ss)) + frames_size (take (fit_here w todo) todo) \<le> unat (segment_size w)"
    using fit_count_fits [of "unat (segment_size w) - write_offset w" todo] off le
    by (simp add: fit_here_def)
  show "payloads_ok (unat (max_record_size w)) (take (fit_here w todo) todo)"
    using stg by (simp add: wal_staged_def payloads_ok_take)
  show "log_end ss + length (take (fit_here w todo) todo) \<le> Suc u64_max"
    using stg by (auto simp: wal_staged_def)
qed

lemma window_staging:
  assumes "wal_staged crc w ss dn todo"
  shows "window (frames_size dn) (frames_size dn + frames_size (take c todo)) (staging w)
    = frames crc (log_end ss) (take c todo)"
proof -
  have "frames crc (log_end ss) todo = frames crc (log_end ss) (take c todo)
      @ frames crc (log_end ss + length (take c todo)) (drop c todo)"
    by (metis append_take_drop_id frames_append)
  then show ?thesis
    using assms by (simp add: wal_staged_def window_append_right window_append_left)
      (simp add: window_def)
qed

lemma staged_after_write:
  assumes "wal_staged crc w ss dn todo" "length dn \<le> log_end ss" "c \<le> length todo"
    "staging w' = staging w" "last_lsn w' = last_lsn w" "max_record_size w' = max_record_size w"
  shows "wal_staged crc w' (after_write ss (take c todo)) (dn @ take c todo) (drop c todo)"
proof -
  have "frames crc (log_end ss) todo = frames crc (log_end ss) (take c todo)
      @ frames crc (log_end ss + c) (drop c todo)"
    using assms(3) frames_append [of crc "log_end ss" "take c todo" "drop c todo"] by simp
  then show ?thesis
    using assms by (simp add: wal_staged_def payloads_ok_drop frames_append)
qed

lemma step_two_cases:
  assumes st: "step_two on_durable (frames_size dn) (frames_size dn + frames_size (take c todo)) pl w d = (res, w1, d1)"
    and core: "wal_core crc w ss" and stg: "wal_staged crc w ss dn todo" and dn: "length dn \<le> log_end ss"
    and h: "holds crc (unat (segment_size w)) ss d" and ne: "todo \<noteq> []"
    and c: "c = fit_here w todo" and pl: "c \<noteq> 0 \<longrightarrow> pl = lsn_of (log_end ss + c - 1)"
  shows "(res = Inr () \<and> wal_core crc w1 (after_write ss (take c todo))
        \<and> wal_staged crc w1 (after_write ss (take c todo)) (dn @ take c todo) (drop c todo)
        \<and> holds crc (unat (segment_size w)) (after_write ss (take c todo)) d1
        \<and> sg_log (last (after_write ss (take c todo))) \<noteq> []
        \<and> staging w1 = staging w \<and> segment_size w1 = segment_size w \<and> max_record_size w1 = max_record_size w
        \<and> observer w1 = (if c = 0 then observer w else on_durable pl (observer w)))
    \<or> (\<exists>e. res = Inl e) \<and> w1 = w\<lparr>poisoned := True\<rparr>
        \<and> torn crc (unat (segment_size w)) (unat (max_record_size w)) ss todo d1"
proof -
  let ?ssz = "unat (segment_size w)" and ?mx = "unat (max_record_size w)"
  let ?ps = "take c todo" and ?s = "last ss"
  have ok: "segs_ok crc ?ssz ?mx (after_write ss ?ps)" unfolding c by (rule segs_ok_fit [OF core stg])
  note okss = wal_core_segs [OF core]
  have sne: "ss \<noteq> []" by (rule wal_core_not_Nil [OF core])
  have cle: "c \<le> length todo" by (simp add: c fit_here_def fit_count_le)
  have pok: "payloads_ok ?mx todo" using stg by (simp add: wal_staged_def)
  show ?thesis
  proof (cases "c = 0")
    case True
    then have "res = Inr ()" "w1 = w" "d1 = d" using st by (simp_all add: step_two_def)
    moreover have "sg_log ?s \<noteq> []" using True c fit_here_pos [OF core ne pok] by fastforce
    ultimately show ?thesis
      using True core stg h sne by (simp add: after_write_Nil)
  next
    case False
    have psne: "?ps \<noteq> []" using False ne by (simp add: take_eq_Nil)
    then have lt: "0 < frames_size ?ps" by (metis frames_size_eq_0 gr0I)
    have wp: "write_prefix on_durable (frames_size dn) (frames_size dn + frames_size ?ps) pl w d = (res, w1, d1)"
      using st lt by (simp add: step_two_def)
    have act: "active w = seg_name ?s" and off: "write_offset w = 64 + frames_size (sg_log ?s)"
      using core by (simp_all add: wal_core_def)
    have f: "file_of d (active w) = seg_file crc ?ssz ?s"
      using holds_file [OF h okss last_in_set [OF sne]] by (simp add: act file_of_def)
    have wf: "seg_wf ?ssz ?mx (sg_header ?s) (sg_base ?s) (sg_log ?s @ ?ps)"
      using segs_ok_last(1) [OF ok] by (simp add: seg_ok_def)
    have le: "log_end ss = seg_end ?s" by (simp add: log_end_def)
    from write_prefix_cases [OF wp f off window_staging [OF stg]] show ?thesis
    proof (elim disjE conjE exE)
      assume r: "res = Inr ()"
        and w1: "w1 = w\<lparr>write_offset := write_offset w + (frames_size dn + frames_size ?ps - frames_size dn),
             durable_lsn := pl, observer := on_durable pl (observer w)\<rparr>"
        and d1: "d1 = put_file (active w)
             (disk_file (fdata (torn_file crc ?ssz ?s (frames crc (log_end ss) ?ps)))) (dfaults d1) d"
      have "disk_file (fdata (torn_file crc ?ssz ?s (frames crc (log_end ss) ?ps)))
          = seg_file crc ?ssz (extend_seg ?s ?ps)"
        unfolding le torn_file_full [OF wf] by (simp add: seg_file_def)
      then have "holds crc ?ssz (after_write ss ?ps) d1"
        using d1 holds_after_write [OF h okss ok, of "dfaults d1"] by (simp add: act)
      moreover have "wal_core crc w1 (after_write ss ?ps)"
        using core ok sne mp [OF pl False] cle
        by (simp add: w1 wal_core_def log_base_after_write bases_after_write)
      moreover have "wal_staged crc w1 (after_write ss ?ps) (dn @ ?ps) (drop c todo)"
        by (rule staged_after_write [OF stg dn cle]) (simp_all add: w1)
      ultimately show ?thesis using r psne False by (simp add: w1)
    next
      fix e k
      assume r: "res = Inl e" and w1: "w1 = w\<lparr>poisoned := True\<rparr>"
        and d1: "d1 = put_file (active w)
             (torn_file crc ?ssz ?s (take k (frames crc (log_end ss) ?ps))) (dfaults d1) d"
      have "torn crc ?ssz ?mx ss todo d1"
        unfolding torn_def using h ok d1 act by metis
      then show ?thesis using r w1 by blast
    qed
  qed
qed

lemma fit_prefix_staged:
  assumes core: "wal_core crc w ss" and stg: "wal_staged crc w ss dn todo"
  shows "fit_prefix (staging w) (unat (segment_size w) - write_offset w) (frames_size dn) (frames_size dn) NONE
      = (frames_size dn + frames_size (take (fit_here w todo) todo),
         if fit_here w todo = 0 then NONE else lsn_of (log_end ss + fit_here w todo - 1))"
proof -
  have pok: "payloads_ok (unat (max_record_size w)) todo"
    and stag: "staging w = frames crc (log_end ss - length dn) dn @ frames crc (log_end ss) todo"
    using stg by (simp_all add: wal_staged_def)
  show ?thesis
    using fit_prefix_frames [OF pok, of "frames_size dn" "frames crc (log_end ss - length dn) dn"] wal_core_pos [OF core]
    by (simp add: stag fit_here_def Let_def)
qed

lemma staged_more:
  assumes "wal_staged crc w ss dn todo"
  shows "frames_size dn + frames_size (take c todo) < length (staging w) \<longleftrightarrow> c < length todo"
proof -
  have "frames_size todo = frames_size (take c todo) + frames_size (drop c todo)"
    by (metis append_take_drop_id frames_size_append)
  moreover have "0 < frames_size (drop c todo) \<longleftrightarrow> c < length todo"
    using frames_size_eq_0 [of "drop c todo"] by (simp only: drop_eq_Nil) linarith
  ultimately show ?thesis using assms by (simp add: wal_staged_def)
qed

lemma peek_staged:
  assumes core: "wal_core crc w ss" and stg: "wal_staged crc w ss dn todo" and c: "c < length todo"
  shows "fst (peek (drop (frames_size dn + frames_size (take c todo)) (staging w))) = lsn_of (log_end ss + c)"
proof -
  have pok: "payloads_ok (unat (max_record_size w)) todo"
    and stag: "staging w = frames crc (log_end ss - length dn) dn @ frames crc (log_end ss) todo"
    using stg by (simp_all add: wal_staged_def)
  have "drop c todo = todo ! c # drop (Suc c) todo" using c by (simp add: Cons_nth_drop_Suc)
  moreover have "frames crc (log_end ss) todo
      = frames crc (log_end ss) (take c todo) @ frames crc (log_end ss + c) (drop c todo)"
    using c frames_append [of crc "log_end ss" "take c todo" "drop c todo"] by simp
  moreover have "length (todo ! c) \<le> u32_max"
    using pok c wal_core_pos [OF core] by (auto simp: payloads_ok_def list_all_length intro: order_trans)
  ultimately show ?thesis by (simp add: stag peek_frame)
qed

text \<open>
  One iteration, for whatever the platform does: either the whole step is done, or the handle
  is poisoned, its watermark is the end of a log \<open>ss'\<close> that contains the old one and the
  directory is one of an interrupted commit after \<open>ss'\<close>.
\<close>

lemma commit_step_cases:
  assumes st: "commit_step crc clock on_durable (frames_size dn) w d = (res, w', d')"
    and core: "wal_core crc w ss" and stg: "wal_staged crc w ss dn todo" and dn: "length dn \<le> log_end ss"
    and h: "holds crc (unat (segment_size w)) ss d" and ne: "todo \<noteq> []" and c: "c = fit_here w todo"
  shows "(res = Inr (frames_size (dn @ take c todo)) \<and> wal_core crc w' (after_step crc clock ss c todo)
        \<and> wal_staged crc w' (after_step crc clock ss c todo) (dn @ take c todo) (drop c todo)
        \<and> holds crc (unat (segment_size w)) (after_step crc clock ss c todo) d'
        \<and> segment_size w' = segment_size w \<and> max_record_size w' = max_record_size w
        \<and> observer w' = (if c = 0 then observer w else on_durable (lsn_of (log_end ss + c - 1)) (observer w)))
    \<or> (\<exists>e j. res = Inl e \<and> poisoned w' \<and> j \<le> length todo
        \<and> durable_lsn w' = lsn_of (log_end (after_write ss (take j todo)) - 1)
        \<and> wal_core crc (w'\<lparr>poisoned := False\<rparr>) (after_write ss (take j todo))
        \<and> segment_size w' = segment_size w \<and> max_record_size w' = max_record_size w
        \<and> observer w' = (if j = 0 then observer w else on_durable (lsn_of (log_end ss + j - 1)) (observer w))
        \<and> interrupted crc clock (unat (segment_size w)) (unat (max_record_size w))
            (after_write ss (take j todo)) (drop j todo) d')"
proof -
  let ?ssz = "unat (segment_size w)" and ?mx = "unat (max_record_size w)"
  let ?ps = "take c todo" and ?ss1 = "after_write ss (take c todo)"
  define pl where "pl = (if c = 0 then NONE else lsn_of (log_end ss + c - 1))"
  have sne: "ss \<noteq> []" by (rule wal_core_not_Nil [OF core])
  have lim: "log_end ss + length todo \<le> Suc u64_max" using stg by (simp add: wal_staged_def)
  have fp: "fit_prefix (staging w) (?ssz - write_offset w) (frames_size dn) (frames_size dn) NONE
      = (frames_size dn + frames_size ?ps, pl)"
    unfolding pl_def c by (rule fit_prefix_staged [OF core stg])
  have cle: "c \<le> length todo" by (simp add: c fit_here_def fit_count_le)
  note more = staged_more [OF stg, of c]
  obtain r1 w1 d1 where s2: "step_two on_durable (frames_size dn) (frames_size dn + frames_size ?ps) pl w d = (r1, w1, d1)"
    by (cases "step_two on_durable (frames_size dn) (frames_size dn + frames_size ?ps) pl w d")
  have plc: "c \<noteq> 0 \<longrightarrow> pl = lsn_of (log_end ss + c - 1)" by (simp add: pl_def)
  from step_two_cases [OF s2 core stg dn h ne c plc] show ?thesis
  proof (elim disjE conjE exE)
    fix e assume r1: "r1 = Inl e" and w1: "w1 = w\<lparr>poisoned := True\<rparr>" and tn: "torn crc ?ssz ?mx ss todo d1"
    have "res = Inl e" "w' = w1" "d' = d1" using st fp s2 r1 by (simp_all add: commit_step_def)
    moreover have "wal_core crc (w\<lparr>poisoned := False\<rparr>) ss" using core by (simp add: wal_core_def)
    moreover have "durable_lsn w = lsn_of (log_end ss - 1)" using core by (simp add: wal_core_def)
    ultimately show ?thesis
      using w1 tn sne by (intro disjI2 exI [of _ e] exI [of _ 0]) (simp add: after_write_Nil interrupted_def)
  next
    assume r1: "r1 = Inr ()" and core1: "wal_core crc w1 ?ss1"
      and stg1: "wal_staged crc w1 ?ss1 (dn @ ?ps) (drop c todo)" and h1: "holds crc ?ssz ?ss1 d1"
      and ne1: "sg_log (last ?ss1) \<noteq> []" and sg: "staging w1 = staging w"
      and sz: "segment_size w1 = segment_size w" "max_record_size w1 = max_record_size w"
      and ob: "observer w1 = (if c = 0 then observer w else on_durable pl (observer w))"
    show ?thesis
    proof (cases "c < length todo")
      case False
      then have "res = Inr (frames_size (dn @ ?ps))" "w' = w1" "d' = d1"
        using st fp s2 r1 more by (simp_all add: commit_step_def)
      then show ?thesis
        using False cle core1 stg1 h1 sz ob plc by (simp add: after_step_def)
    next
      case True
      let ?b = "lsn_of (log_end ?ss1)"
      have le1: "log_end ?ss1 \<le> u64_max" using True lim by simp
      have pk: "fst (peek (drop (frames_size dn + frames_size ?ps) (staging w1))) = ?b"
        using peek_staged [OF core stg True] sg cle by simp
      obtain r2 w2 d2 where rl: "roll crc clock ?b w1 d1 = (r2, w2, d2)" by (cases "roll crc clock ?b w1 d1")
      from roll_cases [OF rl core1 _ ne1 le1] h1 sz(1)
      have "(r2 = Inr () \<and> wal_core crc w2 (?ss1 @ [new_seg crc clock (log_end ?ss1)])
         \<and> holds crc ?ssz (?ss1 @ [new_seg crc clock (log_end ?ss1)]) d2
         \<and> staging w2 = staging w1 \<and> last_lsn w2 = last_lsn w1 \<and> observer w2 = observer w1
         \<and> segment_size w2 = segment_size w1 \<and> max_record_size w2 = max_record_size w1)
        \<or> (\<exists>e. r2 = Inl e) \<and> w2 = w1\<lparr>poisoned := True\<rparr> \<and> rolling crc clock ?ssz ?ss1 (log_end ?ss1) d2"
        by simp
      then show ?thesis
      proof (elim disjE conjE exE)
        assume r2: "r2 = Inr ()" and core2: "wal_core crc w2 (?ss1 @ [new_seg crc clock (log_end ?ss1)])"
          and h2: "holds crc ?ssz (?ss1 @ [new_seg crc clock (log_end ?ss1)]) d2"
          and e2: "staging w2 = staging w1" "last_lsn w2 = last_lsn w1" "observer w2 = observer w1"
            "segment_size w2 = segment_size w1" "max_record_size w2 = max_record_size w1"
        have fin: "res = Inr (frames_size (dn @ ?ps))" "w' = w2" "d' = d2"
          using st fp s2 r1 more True pk rl r2 by (simp_all add: commit_step_def)
        have "wal_staged crc w2 (?ss1 @ [new_seg crc clock (log_end ?ss1)]) (dn @ ?ps) (drop c todo)"
          using stg1 e2 by (simp add: wal_staged_def log_end_def)
        then show ?thesis
          using fin True core2 h2 e2 sz ob plc by (simp add: after_step_def)
      next
        fix e assume r2: "r2 = Inl e" and w2: "w2 = w1\<lparr>poisoned := True\<rparr>"
          and rg: "rolling crc clock ?ssz ?ss1 (log_end ?ss1) d2"
        have fin: "res = Inl e" "w' = w2" "d' = d2"
          using st fp s2 r1 more True pk rl r2 by (simp_all add: commit_step_def)
        have "wal_core crc (w1\<lparr>poisoned := False\<rparr>) ?ss1" "durable_lsn w1 = lsn_of (log_end ?ss1 - 1)"
          using core1 by (simp_all add: wal_core_def)
        then show ?thesis
          using fin w2 rg ne1 le1 cle sz ob plc
          by (intro disjI2 exI [of _ e] exI [of _ c]) (simp add: interrupted_def)
      qed
    qed
  qed
qed

section \<open>The commit loop\<close>

text \<open>\<open>grown ss ps ss'\<close>: the log has \<open>ps\<close> more records, and of the segments only the last
  one has changed, by records added at its end.\<close>

definition grown :: "aseg list \<Rightarrow> bytes list \<Rightarrow> aseg list \<Rightarrow> bool" where
  "grown ss ps ss' \<longleftrightarrow> log_of ss' = log_of ss @ ps \<and> log_base ss' = log_base ss
     \<and> log_end ss' = log_end ss + length ps \<and> (\<exists>qs more. ss' = after_write ss qs @ more)"

lemma grown_refl: "ss \<noteq> [] \<Longrightarrow> grown ss [] ss"
  unfolding grown_def by (auto intro: exI [of _ "[]"] simp: after_write_Nil)

lemma grown_after_write: "ss \<noteq> [] \<Longrightarrow> grown ss ps (after_write ss ps)"
  unfolding grown_def by (auto simp: log_of_after_write log_base_after_write)

lemma grown_after_step: "ss \<noteq> [] \<Longrightarrow> c \<le> length todo \<Longrightarrow> grown ss (take c todo) (after_step crc clock ss c todo)"
proof (cases "c < length todo")
  case True
  assume a: "ss \<noteq> []" "c \<le> length todo"
  have "log_of (xs @ [new_seg crc clock b]) = log_of xs" for xs b by (simp add: log_of_def)
  moreover have "xs \<noteq> [] \<Longrightarrow> log_base (xs @ [y]) = log_base xs" for xs y by (cases xs) (simp_all add: log_base_def)
  ultimately show ?thesis
    using True a unfolding grown_def after_step_def
    by (auto simp: log_of_after_write log_base_after_write log_end_def)
qed (simp add: after_step_def grown_after_write)

lemma after_write_append: "after_write (xs @ [y]) ps = xs @ [extend_seg y ps]"
  by (simp add: after_write_def)

lemma grown_trans:
  assumes "grown ss ps ss1" "grown ss1 qs ss2"
  shows "grown ss (ps @ qs) ss2"
proof -
  obtain p1 m1 p2 m2 where 1: "ss1 = after_write ss p1 @ m1" and 2: "ss2 = after_write ss1 p2 @ m2"
    using assms by (auto simp: grown_def)
  have "\<exists>qs more. ss2 = after_write ss qs @ more"
  proof (cases "m1 = []")
    case True
    then have "ss2 = after_write ss (p1 @ p2) @ m2"
      using 1 2 by (simp add: after_write_def extend_seg_def)
    then show ?thesis by blast
  next
    case False
    then have "ss2 = after_write ss p1 @ (butlast m1 @ [extend_seg (last m1) p2] @ m2)"
      unfolding 2 1 after_write_def [of "after_write ss p1 @ m1"] by (simp add: butlast_append)
    then show ?thesis by blast
  qed
  then show ?thesis using assms by (simp add: grown_def)
qed

text \<open>The watermarks an observer has seen between two durable LSNs.\<close>

definition watermarks :: "nat \<Rightarrow> lsn list \<Rightarrow> nat \<Rightarrow> bool" where
  "watermarks lo ls hi \<longleftrightarrow> sorted_wrt (<) (lo # map lsn_nat ls) \<and> last (lo # map lsn_nat ls) = hi"

lemma watermarks_Nil: "watermarks lo [] lo"
  by (simp add: watermarks_def)

lemma watermarks_one: "lo < hi \<Longrightarrow> hi \<le> u64_max \<Longrightarrow> watermarks lo [lsn_of hi] hi"
  by (simp add: watermarks_def)

lemma watermarks_append:
  assumes "watermarks lo ls mid" "watermarks mid ms hi"
  shows "watermarks lo (ls @ ms) hi"
proof -
  let ?a = "lo # map lsn_nat ls" and ?b = "map lsn_nat ms"
  have s: "sorted_wrt (<) ?a" "last ?a = mid" "sorted_wrt (<) (mid # ?b)" "last (mid # ?b) = hi"
    using assms by (simp_all only: watermarks_def)
  have "?a = butlast ?a @ [mid]" using s(2) append_butlast_last_id [of ?a] by simp
  then have "\<forall>x \<in> set ?a. x \<le> mid"
    using s(1) sorted_wrt_append [of "(<)" "butlast ?a" "[mid]"]
    by (metis in_set_conv_decomp last_in_set less_imp_le list.set_intros(1) nat_le_linear
        rotate1.simps(2) set_ConsD set_append Un_iff set_rotate1 sorted_wrt.simps(2))
  then have "\<forall>x \<in> set ?a. \<forall>y \<in> set ?b. x < y" using s(3) by fastforce
  then have "sorted_wrt (<) (?a @ ?b)" using s(1,3) by (simp only: sorted_wrt_append sorted_wrt.simps) blast
  moreover have "last (?a @ ?b) = hi" using s(2,4) by (cases ?b rule: rev_cases) simp_all
  ultimately show ?thesis by (simp add: watermarks_def)
qed

text \<open>A commit ends in a segment that has records.\<close>

definition ends_used :: "aseg list \<Rightarrow> bytes list \<Rightarrow> aseg list \<Rightarrow> bool" where
  "ends_used ss ps ss' \<longleftrightarrow> (ps \<noteq> [] \<or> sg_log (last ss) \<noteq> [] \<longrightarrow> sg_log (last ss') \<noteq> [])"

lemma after_step_used:
  "ss \<noteq> [] \<Longrightarrow> todo \<noteq> [] \<Longrightarrow> drop c todo \<noteq> [] \<or> sg_log (last (after_step crc clock ss c todo)) \<noteq> []"
  by (auto simp: after_step_def after_write_def extend_seg_def)

definition loop_done ::
    "(bytes \<Rightarrow> u32) \<Rightarrow> (lsn \<Rightarrow> 'o \<Rightarrow> 'o) \<Rightarrow> 'o wal \<Rightarrow> aseg list \<Rightarrow> bytes list \<Rightarrow> bytes list \<Rightarrow> 'o wal \<Rightarrow> disk \<Rightarrow> bool" where
  "loop_done crc on_durable w ss dn todo w' d' \<longleftrightarrow>
     (\<exists>ss' ls. wal_core crc w' ss' \<and> wal_staged crc w' ss' (dn @ todo) [] \<and> grown ss todo ss' \<and> ends_used ss todo ss'
        \<and> holds crc (unat (segment_size w)) ss' d'
        \<and> segment_size w' = segment_size w \<and> max_record_size w' = max_record_size w
        \<and> observer w' = fold on_durable ls (observer w) \<and> watermarks (log_end ss - 1) ls (log_end ss' - 1))"

definition loop_failed ::
    "(bytes \<Rightarrow> u32) \<Rightarrow> (lsn \<Rightarrow> u64) \<Rightarrow> (lsn \<Rightarrow> 'o \<Rightarrow> 'o) \<Rightarrow> 'o wal \<Rightarrow> aseg list \<Rightarrow> bytes list \<Rightarrow> 'o wal \<Rightarrow> disk \<Rightarrow> bool" where
  "loop_failed crc clock on_durable w ss todo w' d' \<longleftrightarrow>
     (\<exists>j ss' ls. poisoned w' \<and> j \<le> length todo \<and> grown ss (take j todo) ss'
        \<and> wal_core crc (w'\<lparr>poisoned := False\<rparr>) ss' \<and> durable_lsn w' = lsn_of (log_end ss' - 1)
        \<and> interrupted crc clock (unat (segment_size w)) (unat (max_record_size w)) ss' (drop j todo) d'
        \<and> segment_size w' = segment_size w \<and> max_record_size w' = max_record_size w
        \<and> observer w' = fold on_durable ls (observer w) \<and> watermarks (log_end ss - 1) ls (log_end ss' - 1))"

lemma loop_done_step:
  assumes "grown ss (take c todo) ss1" "observer w1 = fold on_durable ls (observer w)"
    "watermarks (log_end ss - 1) ls (log_end ss1 - 1)"
    "segment_size w1 = segment_size w" "max_record_size w1 = max_record_size w"
    "loop_done crc on_durable w1 ss1 (dn @ take c todo) (drop c todo) w' d'"
    "drop c todo \<noteq> [] \<or> sg_log (last ss1) \<noteq> []"
  shows "loop_done crc on_durable w ss dn todo w' d'"
proof -
  from assms(6) obtain ss' ms where *: "wal_core crc w' ss'" "wal_staged crc w' ss' (dn @ todo) []"
    "grown ss1 (drop c todo) ss'" "holds crc (unat (segment_size w)) ss' d'"
    "segment_size w' = segment_size w" "max_record_size w' = max_record_size w"
    "observer w' = fold on_durable ms (observer w1)" "watermarks (log_end ss1 - 1) ms (log_end ss' - 1)"
    "ends_used ss1 (drop c todo) ss'"
    by (auto simp: loop_done_def assms(4,5))
  have "ends_used ss todo ss'" using *(9) assms(7) by (simp add: ends_used_def)
  moreover have "grown ss todo ss'" using grown_trans [OF assms(1) *(3)] by simp
  moreover have "observer w' = fold on_durable (ls @ ms) (observer w)" using *(7) assms(2) by simp
  ultimately show ?thesis
    unfolding loop_done_def using * watermarks_append [OF assms(3) *(8)] by blast
qed

lemma loop_failed_step:
  assumes "grown ss (take c todo) ss1" "c \<le> length todo" "observer w1 = fold on_durable ls (observer w)"
    "watermarks (log_end ss - 1) ls (log_end ss1 - 1)"
    "segment_size w1 = segment_size w" "max_record_size w1 = max_record_size w"
    "loop_failed crc clock on_durable w1 ss1 (drop c todo) w' d'"
  shows "loop_failed crc clock on_durable w ss todo w' d'"
proof -
  from assms(7) obtain j ss' ms where *: "poisoned w'" "j \<le> length todo - c"
    "grown ss1 (take j (drop c todo)) ss'" "wal_core crc (w'\<lparr>poisoned := False\<rparr>) ss'"
    "durable_lsn w' = lsn_of (log_end ss' - 1)"
    "interrupted crc clock (unat (segment_size w)) (unat (max_record_size w)) ss' (drop (j + c) todo) d'"
    "segment_size w' = segment_size w" "max_record_size w' = max_record_size w"
    "observer w' = fold on_durable ms (observer w1)" "watermarks (log_end ss1 - 1) ms (log_end ss' - 1)"
    by (auto simp: loop_failed_def assms(5,6))
  have "grown ss (take (j + c) todo) ss'"
    using grown_trans [OF assms(1) *(3)] by (simp add: take_add add.commute)
  moreover have "j + c \<le> length todo" using *(2) assms(2) by simp
  moreover have "observer w' = fold on_durable (ls @ ms) (observer w)" using *(9) assms(3) by simp
  ultimately show ?thesis
    unfolding loop_failed_def using * watermarks_append [OF assms(4) *(10)] by blast
qed

lemma after_step_measure:
  assumes core: "wal_core crc w ss" and ne: "todo \<noteq> []" and pok: "payloads_ok (unat (max_record_size w)) todo"
    and c: "c = fit_here w todo"
  shows "2 * length (drop c todo) + (if sg_log (last (after_step crc clock ss c todo)) = [] then 0 else 1)
    < 2 * length todo + (if sg_log (last ss) = [] then 0 else (1::nat))"
proof (cases "c = 0")
  case True
  then have "sg_log (last ss) \<noteq> []" using fit_here_pos [OF core ne pok] c by force
  then show ?thesis using True ne by (simp add: after_step_def)
next
  case False
  then have "length (drop c todo) < length todo" using ne by (simp add: length_greater_0_conv)
  then show ?thesis by simp
qed

lemma step_watermarks:
  assumes "c \<le> length todo" "log_end ss + length todo \<le> Suc u64_max" "0 < log_end ss"
    "log_end ss1 = log_end ss + c"
  shows "watermarks (log_end ss - 1) (if c = 0 then [] else [lsn_of (log_end ss + c - 1)]) (log_end ss1 - 1)"
  using assms by (auto simp: watermarks_Nil intro!: watermarks_one)

lemma commit_loop_cases:
  assumes "commit_loop crc clock on_durable (frames_size dn) w d = (res, w', d')"
    and "wal_core crc w ss" "wal_staged crc w ss dn todo" "length dn \<le> log_end ss"
    and "holds crc (unat (segment_size w)) ss d"
  shows "res = Inr () \<and> loop_done crc on_durable w ss dn todo w' d'
    \<or> (\<exists>e. res = Inl e) \<and> loop_failed crc clock on_durable w ss todo w' d'"
  using assms
proof (induction "2 * length todo + (if sg_log (last ss) = [] then 0 else (1::nat))"
    arbitrary: dn todo w ss d rule: less_induct)
  case less
  note core = less.prems(2) and stg = less.prems(3) and dn = less.prems(4) and h = less.prems(5)
  have sne: "ss \<noteq> []" by (rule wal_core_not_Nil [OF core])
  have pok: "payloads_ok (unat (max_record_size w)) todo" and lim: "log_end ss + length todo \<le> Suc u64_max"
    and stag: "length (staging w) = frames_size dn + frames_size todo"
    using stg by (simp_all add: wal_staged_def)
  have pos: "0 < log_end ss" by (rule segs_ok_last(2) [OF wal_core_segs [OF core]])
  show ?case
  proof (cases "todo = []")
    case True
    then have "res = Inr ()" "w' = w" "d' = d"
      using less.prems(1) stag by (simp_all add: commit_loop.simps [of crc clock on_durable])
    moreover have "loop_done crc on_durable w ss dn [] w d"
      unfolding loop_done_def
      by (rule exI [of _ ss], rule exI [of _ "[]"])
        (use True core stg h grown_refl [OF sne] watermarks_Nil in \<open>simp add: ends_used_def\<close>)
    ultimately show ?thesis using True by simp
  next
    case ne: False
    then have "0 < frames_size todo" by (metis frames_size_eq_0 gr0I)
    then have lt: "frames_size dn < length (staging w)" by (simp add: stag)
    define c where "c = fit_here w todo"
    let ?ss1 = "after_step crc clock ss c todo"
    have cle: "c \<le> length todo" by (simp add: c_def fit_here_def fit_count_le)
    obtain r1 w1 d1 where st: "commit_step crc clock on_durable (frames_size dn) w d = (r1, w1, d1)"
      by (cases "commit_step crc clock on_durable (frames_size dn) w d")
    from commit_step_cases [OF st core stg dn h ne c_def] show ?thesis
    proof (elim disjE conjE exE)
      assume r1: "r1 = Inr (frames_size (dn @ take c todo))" and core1: "wal_core crc w1 ?ss1"
        and stg1: "wal_staged crc w1 ?ss1 (dn @ take c todo) (drop c todo)"
        and h1: "holds crc (unat (segment_size w)) ?ss1 d1"
        and sz: "segment_size w1 = segment_size w" "max_record_size w1 = max_record_size w"
        and ob: "observer w1 = (if c = 0 then observer w else on_durable (lsn_of (log_end ss + c - 1)) (observer w))"
      note gr = grown_after_step [OF sne cle, of crc clock]
      have le1: "log_end ?ss1 = log_end ss + c" using gr cle by (simp add: grown_def)
      let ?ls = "if c = 0 then [] else [lsn_of (log_end ss + c - 1)]"
      have obl: "observer w1 = fold on_durable ?ls (observer w)" using ob by simp
      note wm = step_watermarks [OF cle lim pos le1]
      have lp: "commit_loop crc clock on_durable (frames_size (dn @ take c todo)) w1 d1 = (res, w', d')"
        using less.prems(1) lt st r1 by (subst (asm) commit_loop.simps) simp
      have dn1: "length (dn @ take c todo) \<le> log_end ?ss1" using dn le1 by simp
      have "holds crc (unat (segment_size w1)) ?ss1 d1" using h1 sz by simp
      from less.hyps [OF after_step_measure [OF core ne pok c_def] lp core1 stg1 dn1 this]
      show ?thesis
        using loop_done_step [OF gr obl wm sz _ after_step_used [OF sne ne]] loop_failed_step [OF gr cle obl wm sz] by blast
    next
      fix e j
      assume r1: "r1 = Inl e" and f: "poisoned w1" "j \<le> length todo"
        "durable_lsn w1 = lsn_of (log_end (after_write ss (take j todo)) - 1)"
        "wal_core crc (w1\<lparr>poisoned := False\<rparr>) (after_write ss (take j todo))"
        "segment_size w1 = segment_size w" "max_record_size w1 = max_record_size w"
        "observer w1 = (if j = 0 then observer w else on_durable (lsn_of (log_end ss + j - 1)) (observer w))"
        "interrupted crc clock (unat (segment_size w)) (unat (max_record_size w))
           (after_write ss (take j todo)) (drop j todo) d1"
      have eq: "res = Inl e" "w' = w1" "d' = d1"
        using less.prems(1) lt st r1 by (simp_all add: commit_loop.simps [of crc clock on_durable "frames_size dn" w])
      have "watermarks (log_end ss - 1) (if j = 0 then [] else [lsn_of (log_end ss + j - 1)])
          (log_end (after_write ss (take j todo)) - 1)"
        by (rule step_watermarks [OF f(2) lim pos]) (use f(2) in simp)
      moreover have "observer w1 = fold on_durable (if j = 0 then [] else [lsn_of (log_end ss + j - 1)]) (observer w)"
        using f(7) by simp
      ultimately have "loop_failed crc clock on_durable w ss todo w1 d1"
        unfolding loop_failed_def using f grown_after_write [OF sne] by blast
      then show ?thesis using eq by blast
    qed
  qed
qed

text \<open>A whole commit.\<close>

lemma commit_cases:
  assumes c: "commit crc clock on_durable w d = (res, w', d')"
    and inv: "wal_inv crc w ss staged" and h: "holds crc (unat (segment_size w)) ss d"
  shows "(\<exists>ss' ls. res = Inr (lsn_of (log_end ss + length staged - 1)) \<and> wal_inv crc w' ss' [] \<and> grown ss staged ss'
        \<and> ends_used ss staged ss'
        \<and> holds crc (unat (segment_size w)) ss' d'
        \<and> segment_size w' = segment_size w \<and> max_record_size w' = max_record_size w
        \<and> observer w' = fold on_durable ls (observer w) \<and> watermarks (log_end ss - 1) ls (log_end ss' - 1))
    \<or> (\<exists>e. res = Inl e) \<and> loop_failed crc clock on_durable w ss staged w' d'"
proof -
  have core: "wal_core crc w ss" and stg: "wal_staged crc w ss [] staged" using inv by (simp_all add: wal_inv_def)
  have sne: "ss \<noteq> []" by (rule wal_core_not_Nil [OF core])
  have np: "\<not> poisoned w" using core by (simp add: wal_core_def)
  show ?thesis
  proof (cases "staged = []")
    case True
    then have "staging w = []" using stg by (simp add: wal_staged_def)
    then have "res = Inr (durable_lsn w)" "w' = w" "d' = d" using c np by (auto simp: commit_def)
    moreover have "durable_lsn w = lsn_of (log_end ss - 1)" using core by (simp add: wal_core_def)
    ultimately show ?thesis
      using True inv h grown_refl [OF sne] watermarks_Nil [of "log_end ss - 1"]
      by (intro disjI1 exI [of _ ss] exI [of _ "[]"]) (simp add: ends_used_def)
  next
    case False
    then have sg: "staging w \<noteq> []" using stg by (simp add: wal_staged_def)
    obtain r1 w1 d1 where lp: "commit_loop crc clock on_durable (frames_size []) w d = (r1, w1, d1)"
      by (cases "commit_loop crc clock on_durable (frames_size []) w d")
    from commit_loop_cases [OF lp core stg _ h]
    have "r1 = Inr () \<and> loop_done crc on_durable w ss [] staged w1 d1
      \<or> (\<exists>e. r1 = Inl e) \<and> loop_failed crc clock on_durable w ss staged w1 d1" by simp
    then show ?thesis
    proof (elim disjE conjE exE)
      fix e assume "r1 = Inl e" "loop_failed crc clock on_durable w ss staged w1 d1"
      then show ?thesis using c np sg lp by (auto simp: commit_def)
    next
      assume r1: "r1 = Inr ()" and ld: "loop_done crc on_durable w ss [] staged w1 d1"
      have eq: "res = Inr (durable_lsn w1)" "w' = w1\<lparr>staging := []\<rparr>" "d' = d1"
        using c np sg lp r1 by (simp_all add: commit_def)
      from ld obtain ss' ls where *: "wal_core crc w1 ss'" "wal_staged crc w1 ss' staged []" "grown ss staged ss'"
        "holds crc (unat (segment_size w)) ss' d1" "segment_size w1 = segment_size w"
        "max_record_size w1 = max_record_size w" "observer w1 = fold on_durable ls (observer w)"
        "watermarks (log_end ss - 1) ls (log_end ss' - 1)" "ends_used ss staged ss'" by (auto simp: loop_done_def)
      have "wal_inv crc (w1\<lparr>staging := []\<rparr>) ss' []"
        using *(1,2) by (simp add: wal_inv_def wal_core_def wal_staged_def)
      moreover have "durable_lsn w1 = lsn_of (log_end ss + length staged - 1)"
        using *(1,3) by (simp add: wal_core_def grown_def)
      ultimately show ?thesis using eq * by (intro disjI1 exI [of _ ss'] exI [of _ ls]) simp
    qed
  qed
qed

end
