(* ===== verification/Wal_Progress.thy ===== *)
theory Wal_Progress
  imports Wal_Commit
begin

text \<open>
  Without failures of the platform commits succeed: no step of the commit loop can fail on
  its own, in particular the name of the next segment is always free.
\<close>

lemma holds_next_free:
  assumes "holds crc ssz ss d" "segs_ok crc ssz mx ss" "sg_log (last ss) \<noteq> []" "log_end ss \<le> u64_max"
  shows "map_of (entries d) (filename_for (lsn_of (log_end ss))) = None"
proof (rule holds_no_file [OF assms(1,2,4)])
  fix s assume s: "s \<in> set ss"
  have ne: "ss \<noteq> []" by (rule segs_ok_last(4) [OF assms(2)])
  then have "chain (butlast ss @ [last ss])" "s \<in> set (butlast ss @ [last ss])"
    using assms(2) s by (simp_all add: segs_ok_def)
  from chain_end_greater [OF this(1) assms(3) this(2)] show "sg_base s \<noteq> log_end ss"
    by (simp add: log_end_def)
qed

lemma write_prefix_no_faults:
  "dfaults d = [] \<Longrightarrow> write_prefix on_durable pos scan pl w d = (res, w', d') \<Longrightarrow> res = Inr () \<and> dfaults d' = []"
  by (auto simp: write_prefix_def write_all_at_def sync_data_fully_def sync_data_def)

lemma step_two_no_faults:
  "dfaults d = [] \<Longrightarrow> step_two on_durable pos scan pl w d = (res, w', d') \<Longrightarrow> res = Inr () \<and> dfaults d' = []"
  by (auto simp: step_two_def dest: write_prefix_no_faults split: if_splits)

lemma fsync_dir_no_faults: "dfaults d = [] \<Longrightarrow> fsync_dir d = (Inr (), d\<lparr>pending := [], dfaults := []\<rparr>)"
  by (cases d) (simp add: fsync_dir_def fsync_directory_def may_fail_def)

lemma create_no_faults:
  assumes "dfaults d = []" "map_of (entries d) (filename_for b) = None" "64 \<le> ssz"
  shows "\<exists>d'. create crc c b ssz d = (Inr (), d') \<and> dfaults d' = []"
  using assms init_segment_ok [OF assms(3), of crc c b]
  by (simp add: create_def Let_def create_new_def)

lemma roll_no_faults:
  assumes "dfaults d = []" "map_of (entries d) (filename_for b) = None" "64 \<le> unat (segment_size w)"
    and "roll crc clock b w d = (res, w', d')"
  shows "res = Inr () \<and> dfaults d' = []"
proof -
  obtain d1 where "create crc (clock b) b (unat (segment_size w)) d = (Inr (), d1)" "dfaults d1 = []"
    using create_no_faults [OF assms(1-3), of crc "clock b"] by blast
  then show ?thesis using assms(4) by (auto simp: roll_def fsync_dir_no_faults)
qed

lemma commit_step_no_faults:
  assumes st: "commit_step crc clock on_durable (frames_size dn) w d = (res, w', d')"
    and core: "wal_core crc w ss" and stg: "wal_staged crc w ss dn todo" and dn: "length dn \<le> log_end ss"
    and h: "holds crc (unat (segment_size w)) ss d" and ne: "todo \<noteq> []" and nf: "dfaults d = []"
  shows "(\<exists>p. res = Inr p) \<and> dfaults d' = []"
proof -
  define c where "c = fit_here w todo"
  define pl where "pl = (if c = 0 then NONE else lsn_of (log_end ss + c - 1))"
  let ?ps = "take c todo" and ?ss1 = "after_write ss (take c todo)" and ?ssz = "unat (segment_size w)"
  have fp: "fit_prefix (staging w) (?ssz - write_offset w) (frames_size dn) (frames_size dn) NONE
      = (frames_size dn + frames_size ?ps, pl)"
    unfolding pl_def c_def by (rule fit_prefix_staged [OF core stg])
  obtain r1 w1 d1 where s2: "step_two on_durable (frames_size dn) (frames_size dn + frames_size ?ps) pl w d = (r1, w1, d1)"
    by (cases "step_two on_durable (frames_size dn) (frames_size dn + frames_size ?ps) pl w d")
  have r1: "r1 = Inr ()" "dfaults d1 = []" using step_two_no_faults [OF nf s2] by auto
  have plc: "c \<noteq> 0 \<longrightarrow> pl = lsn_of (log_end ss + c - 1)" by (simp add: pl_def)
  from step_two_cases [OF s2 core stg dn h ne c_def plc] r1(1)
  have f: "wal_core crc w1 ?ss1" "holds crc ?ssz ?ss1 d1" "sg_log (last ?ss1) \<noteq> []" "staging w1 = staging w"
    "segment_size w1 = segment_size w" by auto
  show ?thesis
  proof (cases "c < length todo")
    case False
    then show ?thesis
      using st fp s2 r1 staged_more [OF stg, of c] by (auto simp: commit_step_def)
  next
    case True
    have le1: "log_end ?ss1 \<le> u64_max" using True stg by (simp add: wal_staged_def)
    have pk: "fst (peek (drop (frames_size dn + frames_size ?ps) (staging w1))) = lsn_of (log_end ?ss1)"
      using peek_staged [OF core stg True] f(4) True by simp
    have free: "map_of (entries d1) (filename_for (lsn_of (log_end ?ss1))) = None"
      using holds_next_free [OF f(2) _ f(3) le1] wal_core_segs [OF f(1)] f(5) by simp
    obtain r2 w2 d2 where rl: "roll crc clock (lsn_of (log_end ?ss1)) w1 d1 = (r2, w2, d2)"
      by (cases "roll crc clock (lsn_of (log_end ?ss1)) w1 d1")
    have "r2 = Inr () \<and> dfaults d2 = []"
      by (rule roll_no_faults [OF r1(2) free _ rl]) (use wal_core_pos [OF f(1)] in simp)
    then show ?thesis
      using st fp s2 r1 staged_more [OF stg, of c] True pk rl by (auto simp: commit_step_def)
  qed
qed

lemma commit_loop_no_faults:
  assumes "commit_loop crc clock on_durable (frames_size dn) w d = (res, w', d')"
    and "wal_core crc w ss" "wal_staged crc w ss dn todo" "length dn \<le> log_end ss"
    and "holds crc (unat (segment_size w)) ss d" "dfaults d = []"
  shows "res = Inr () \<and> dfaults d' = []"
  using assms
proof (induction "2 * length todo + (if sg_log (last ss) = [] then 0 else (1::nat))"
    arbitrary: dn todo w ss d rule: less_induct)
  case less
  note core = less.prems(2) and stg = less.prems(3) and dn = less.prems(4) and h = less.prems(5)
  have pok: "payloads_ok (unat (max_record_size w)) todo"
    and stag: "length (staging w) = frames_size dn + frames_size todo"
    using stg by (simp_all add: wal_staged_def)
  show ?case
  proof (cases "todo = []")
    case True
    then show ?thesis
      using less.prems(1,6) stag by (auto simp: commit_loop.simps [of crc clock on_durable])
  next
    case ne: False
    then have "0 < frames_size todo" by (metis frames_size_eq_0 gr0I)
    then have lt: "frames_size dn < length (staging w)" by (simp add: stag)
    define c where "c = fit_here w todo"
    let ?ss1 = "after_step crc clock ss c todo"
    have cle: "c \<le> length todo" by (simp add: c_def fit_here_def fit_count_le)
    obtain r1 w1 d1 where st: "commit_step crc clock on_durable (frames_size dn) w d = (r1, w1, d1)"
      by (cases "commit_step crc clock on_durable (frames_size dn) w d")
    from commit_step_no_faults [OF st core stg dn h ne less.prems(6)]
    obtain p where p: "r1 = Inr p" and nf: "dfaults d1 = []" by blast
    from commit_step_cases [OF st core stg dn h ne c_def] p
    have f: "p = frames_size (dn @ take c todo)" "wal_core crc w1 ?ss1"
      "wal_staged crc w1 ?ss1 (dn @ take c todo) (drop c todo)"
      "holds crc (unat (segment_size w1)) ?ss1 d1" by auto
    have lp: "commit_loop crc clock on_durable (frames_size (dn @ take c todo)) w1 d1 = (res, w', d')"
      using less.prems(1) lt st p f(1) by (subst (asm) commit_loop.simps) simp
    have "length (dn @ take c todo) \<le> log_end ?ss1"
      using dn cle grown_after_step [OF wal_core_not_Nil [OF core] cle, of crc clock] by (simp add: grown_def)
    from less.hyps [OF after_step_measure [OF core ne pok c_def] lp f(2,3) this f(4) nf]
    show ?thesis .
  qed
qed

lemma commit_no_faults:
  assumes "commit crc clock on_durable w d = (res, w', d')" "wal_inv crc w ss staged"
    "holds crc (unat (segment_size w)) ss d" "dfaults d = []"
  shows "(\<exists>l. res = Inr l) \<and> dfaults d' = []"
proof (cases "staging w = []")
  case True
  then show ?thesis using assms by (auto simp: commit_def wal_inv_def wal_core_def)
next
  case False
  obtain r1 w1 d1 where lp: "commit_loop crc clock on_durable (frames_size []) w d = (r1, w1, d1)"
    by (cases "commit_loop crc clock on_durable (frames_size []) w d")
  have "r1 = Inr () \<and> dfaults d1 = []"
    by (rule commit_loop_no_faults [OF lp, of ss staged]) (use assms in \<open>auto simp: wal_inv_def\<close>)
  then show ?thesis
    using assms(1,2) False lp by (auto simp: commit_def wal_inv_def wal_core_def)
qed

end
