(* ===== verification/Wal_Open.thy ===== *)
theory Wal_Open
  imports Wal_Progress
begin

text \<open>
  Opening (\<^verbatim>\<open>Wal::open_seeded\<close>) on a platform without failures: discovery finds exactly the
  segments, sealed segments are validated, and the outcome is that of recovering the last
  segment.
\<close>

section \<open>Discovery\<close>

definition has_segs :: "aseg list \<Rightarrow> disk \<Rightarrow> bool" where
  "has_segs ss d \<longleftrightarrow> distinct (map fst (entries d))
     \<and> (\<forall>n. is_seg_name n \<longrightarrow> (n \<in> fst ` set (entries d) \<longleftrightarrow> n \<in> seg_name ` set ss))"

definition base_words :: "aseg list \<Rightarrow> u64 list" where
  "base_words ss = map (\<lambda>s. word_of_nat (sg_base s)) ss"

definition bounded :: "aseg list \<Rightarrow> bool" where
  "bounded ss \<longleftrightarrow> sorted_wrt (<) (map sg_base ss) \<and> (\<forall>s \<in> set ss. sg_base s \<le> u64_max)"

lemma Lsn_base_words: "map Lsn (base_words ss) = map (\<lambda>s. lsn_of (sg_base s)) ss"
  by (simp add: base_words_def lsn_of_def)

lemma unat_base: "n \<le> u64_max \<Longrightarrow> unat (word_of_nat n :: u64) = n"
  by (simp add: u64_max_def unat_of_nat)

lemma base_words_sorted:
  assumes "bounded ss"
  shows "sorted (base_words ss)" "distinct (base_words ss)"
proof -
  have "sorted_wrt (<) (base_words ss)"
    unfolding base_words_def sorted_wrt_map
    by (rule sorted_wrt_mono_rel [of _ "\<lambda>x y. sg_base x < sg_base y"])
      (use assms in \<open>auto simp: bounded_def sorted_wrt_map word_less_nat_alt unat_base\<close>)
  then show "sorted (base_words ss)" "distinct (base_words ss)" by (simp_all add: strict_sorted_iff)
qed

lemma map_filter_parse:
  "List.map_filter parse_base_lsn ns = map (\<lambda>n. the (parse_base_lsn n)) (filter is_seg_name ns)"
  by (induction ns) (auto simp: List.map_filter_def is_seg_name_def)

lemma discovered_bases:
  assumes "has_segs ss d" "bounded ss"
  shows "sort (List.map_filter parse_base_lsn (map fst (entries d))) = base_words ss"
proof (rule sorted_distinct_set_unique)
  let ?ns = "filter is_seg_name (map fst (entries d))"
  let ?g = "\<lambda>n. the (parse_base_lsn n)"
  have dn: "distinct ?ns" using assms(1) by (simp add: has_segs_def)
  have inj: "inj_on ?g (set ?ns)"
    by (rule inj_onI) (auto simp: is_seg_name_iff parse_filename_for lsn.expand)
  show "distinct (sort (List.map_filter parse_base_lsn (map fst (entries d))))"
    unfolding map_filter_parse distinct_sort distinct_map using dn inj by blast
  have "set ?ns = seg_name ` set ss"
    using assms(1) by (auto simp: has_segs_def)
  then have "set (map ?g ?ns) = (\<lambda>s. ?g (seg_name s)) ` set ss" by (simp add: image_image)
  moreover have "?g (seg_name s) = word_of_nat (sg_base s)" for s
    by (simp add: seg_name_def parse_filename_for lsn_of_def)
  ultimately show "set (sort (List.map_filter parse_base_lsn (map fst (entries d)))) = set (base_words ss)"
    unfolding map_filter_parse set_sort by (simp add: base_words_def)
qed (use base_words_sorted [OF assms(2)] in simp_all)

lemma may_fail_no_faults: "dfaults d = [] \<Longrightarrow> may_fail d = (Inr (), d)"
  by (cases d) (simp add: may_fail_def)

lemma read_entries_no_faults: "dfaults d = [] \<Longrightarrow> read_entries ns d = (Inr ns, d)"
  by (induction ns) (simp_all add: may_fail_no_faults)

lemma discover_no_faults:
  assumes "dfaults d = []" "has_segs ss d" "bounded ss"
  shows "discover d = (Inr (base_words ss), d)"
  using assms(1) read_entries_no_faults [OF assms(1)] discovered_bases [OF assms(2,3)]
  by (simp add: discover_def may_fail_no_faults)

section \<open>Recovering the segments\<close>

text \<open>Equal directories up to the order of their entries, without faults.\<close>

definition same_dir :: "disk \<Rightarrow> disk \<Rightarrow> bool" where
  "same_dir d d' \<longleftrightarrow> map_of (entries d') = map_of (entries d) \<and> map fst (entries d') = map fst (entries d)
     \<and> pending d' = pending d \<and> lock_held d' = lock_held d \<and> dfaults d' = dfaults d"

lemma same_dir_refl [simp]: "same_dir d d"
  by (simp add: same_dir_def)

lemma same_dir_trans: "same_dir d d1 \<Longrightarrow> same_dir d1 d2 \<Longrightarrow> same_dir d d2"
  by (simp add: same_dir_def)

lemma put_same_file:
  assumes "map_of (entries d) n = Some f" "dfaults d = []"
  shows "same_dir d (put_file n f [] d)"
proof -
  have "n \<in> set (map fst (entries d))" using assms(1) by (metis domI dom_map_of_conv_image_fst set_map)
  then have "map fst (AList.update n f (entries d)) = map fst (entries d)" by (simp add: update_keys)
  moreover have "map_of (AList.update n f (entries d)) = map_of (entries d)"
    using assms(1) by (auto simp: update_conv')
  ultimately show ?thesis using assms(2) by (simp add: same_dir_def put_file_def)
qed

lemma open_file_no_faults:
  "dfaults d = [] \<Longrightarrow> map_of (entries d) n = Some f \<Longrightarrow> open_file n d = (Inr f, d)"
  by (cases d) (simp add: open_file_def)

text \<open>A file with a valid header for a segment.\<close>

definition headed :: "(bytes \<Rightarrow> u32) \<Rightarrow> aseg \<Rightarrow> osfile \<Rightarrow> bool" where
  "headed crc s f \<longleftrightarrow> healthy f \<and> length (sg_header s) = 64 \<and> (\<exists>r. fdata f = sg_header s @ r)
     \<and> decode_header crc (sg_header s) = Inr \<lparr>base_lsn = lsn_of (sg_base s)\<rparr>"

lemma headed_read: "headed crc s f \<Longrightarrow> read_exact_at f 0 64 = Inr (sg_header s)"
  by (auto simp: headed_def read_exact_at_def window_def)

lemma headed_seg_file: "seg_ok crc ssz mx s \<Longrightarrow> headed crc s (seg_file crc ssz s)"
  by (auto simp: headed_def seg_ok_def seg_file_def seg_bytes_def seg_image_def seg_wf_def)

definition continues :: "lsn option \<Rightarrow> nat \<Rightarrow> bool" where
  "continues prev b \<longleftrightarrow> (case prev of Some pm \<Rightarrow> checked_next pm = Some (lsn_of b) | None \<Rightarrow> True)"

lemma recover_one_headed:
  assumes "headed crc s f" "dfaults d = []" "map_of (entries d) (seg_name s) = Some f" "continues prev (sg_base s)"
    and "recover_segment crc f (lsn_of (sg_base s)) act (unat (cfg_segment_size cfg))
            (unat (cfg_max_record_size cfg)) [] = (res, f', r)"
  shows "recover_one crc cfg prev (lsn_of (sg_base s)) act d = (res, put_file (seg_name s) f' r d)"
  using assms headed_read [OF assms(1)] open_file_no_faults [OF assms(2,3)]
  by (simp add: recover_one_def Let_def seg_name_def headed_def continues_def split: option.splits)

lemma recover_sealed:
  assumes ok: "segs_ok crc (unat (cfg_segment_size cfg)) (unat (cfg_max_record_size cfg)) (pre @ [a])"
    and "dfaults d = []" "continues prev (log_base (pre @ [a]))"
    and "\<And>s. s \<in> set pre \<Longrightarrow> map_of (entries d) (seg_name s) = Some (seg_file crc (unat (cfg_segment_size cfg)) s)"
  shows "\<exists>prev' d'. same_dir d d' \<and> continues prev' (sg_base a)
    \<and> recover_bases crc cfg prev (base_words (pre @ [a])) acc d
      = recover_bases crc cfg prev' (base_words [a]) acc d'"
  using assms
proof (induction pre arbitrary: prev d)
  case Nil
  then show ?case by (intro exI [of _ prev] exI [of _ d]) (simp add: log_base_def)
next
  case (Cons s pre)
  let ?ssz = "unat (cfg_segment_size cfg)" and ?mx = "unat (cfg_max_record_size cfg)"
  have sok: "seg_ok crc ?ssz ?mx s" using Cons.prems(1) by (simp add: segs_ok_def)
  then have wf: "seg_wf ?ssz ?mx (sg_header s) (sg_base s) (sg_log s)" by (simp add: seg_ok_def)
  have rest: "segs_ok crc ?ssz ?mx (pre @ [a])" "sg_log s \<noteq> []" "log_base (pre @ [a]) = seg_end s"
    using Cons.prems(1) by (auto simp: segs_ok_def log_base_def chain_Cons)
  have end_le: "seg_end s \<le> u64_max"
    using rest(1,3) by (cases pre) (auto simp: segs_ok_def log_base_def seg_ok_def seg_wf_def)
  let ?f = "seg_file crc ?ssz s"
  have f: "map_of (entries d) (seg_name s) = Some ?f" using Cons.prems(4) by simp
  have rs: "recover_segment crc ?f (lsn_of (sg_base s)) False ?ssz ?mx [] =
      (Inr \<lparr>max_lsn = lsn_of (seg_end s - 1), rec_write_offset = 64 + frames_size (sg_log s), rec_tail_state = Clean\<rparr>, ?f, [])"
    using recover_segment_clean [OF wf, of ?f crc False] by (simp add: seg_file_def seg_end_def)
  let ?d1 = "put_file (seg_name s) ?f [] d"
  have c1: "continues prev (sg_base s)" using Cons.prems(3) by (simp add: log_base_def)
  note one = recover_one_headed [OF headed_seg_file [OF sok] Cons.prems(2) f c1 rs]
  note sd = put_same_file [OF f Cons.prems(2)]
  have notlt: "\<not> lsn_of (seg_end s - 1) < lsn_of (sg_base s)"
    using rest(2) end_le by (cases "sg_log s") (simp_all add: lsn_less_iff seg_end_def)
  have step: "recover_bases crc cfg prev (base_words ((s # pre) @ [a])) acc d
      = recover_bases crc cfg (Some (lsn_of (seg_end s - 1))) (base_words (pre @ [a])) acc ?d1"
  proof -
    have "base_words ((s # pre) @ [a]) = word_of_nat (sg_base s) # base_words (pre @ [a])"
      by (simp add: base_words_def)
    moreover have "base_words (pre @ [a]) \<noteq> []" by (simp add: base_words_def)
    ultimately show ?thesis using one notlt by (simp add: lsn_of_def)
  qed
  have nx: "continues (Some (lsn_of (seg_end s - 1))) (log_base (pre @ [a]))"
    using rest(2,3) end_le checked_next_lsn_of [of "seg_end s - 1"] by (simp add: continues_def seg_end_def)
  have "\<exists>prev' d'. same_dir ?d1 d' \<and> continues prev' (sg_base a)
    \<and> recover_bases crc cfg (Some (lsn_of (seg_end s - 1))) (base_words (pre @ [a])) acc ?d1
      = recover_bases crc cfg prev' (base_words [a]) acc d'"
    by (rule Cons.IH [OF rest(1) _ nx]) (use sd Cons.prems(2,4) in \<open>auto simp: same_dir_def\<close>)
  then show ?case using same_dir_trans [OF sd] step by metis
qed

text \<open>All segments: the outcome is that of the last one.\<close>

definition as_recovered :: "aseg list \<Rightarrow> segment_recovery \<Rightarrow> recovered" where
  "as_recovered ss seg =
     \<lparr>r_active = Some (seg_name (last ss)), r_write_offset = rec_write_offset seg,
      r_last_lsn = max_lsn seg, r_oldest_lsn = lsn_of (log_base ss),
      r_segments = map (\<lambda>s. lsn_of (sg_base s)) ss, r_tail_state = rec_tail_state seg\<rparr>"

definition sealed_ok :: "(bytes \<Rightarrow> u32) \<Rightarrow> nat \<Rightarrow> aseg list \<Rightarrow> disk \<Rightarrow> bool" where
  "sealed_ok crc ssz ss d \<longleftrightarrow>
     (\<forall>s \<in> set (butlast ss). map_of (entries d) (seg_name s) = Some (seg_file crc ssz s))"

lemma recover_all_outcome:
  assumes ok: "segs_ok crc (unat (cfg_segment_size cfg)) (unat (cfg_max_record_size cfg)) ss"
    and nf: "dfaults d = []" and sealed: "sealed_ok crc (unat (cfg_segment_size cfg)) ss d"
    and act: "map_of (entries d) (seg_name (last ss)) = Some f" and hf: "headed crc (last ss) f"
    and rs: "recover_segment crc f (lsn_of (sg_base (last ss))) True (unat (cfg_segment_size cfg))
            (unat (cfg_max_record_size cfg)) [] = (res, f', [])"
  shows "\<exists>d1. same_dir d d1 \<and> recover_all crc (base_words ss) cfg d
    = (case res of Inl e \<Rightarrow> Inl e | Inr seg \<Rightarrow> Inr (as_recovered ss seg), put_file (seg_name (last ss)) f' [] d1)"
proof -
  have sne: "ss \<noteq> []" by (rule segs_ok_last(4) [OF ok])
  then have ss: "ss = butlast ss @ [last ss]" by simp
  define acc where "acc = \<lparr>r_active = None, r_write_offset = HEADER_SIZE, r_last_lsn = NONE,
        r_oldest_lsn = Lsn (hd (base_words ss)), r_segments = map Lsn (base_words ss), r_tail_state = Clean\<rparr>"
  have hd: "Lsn (hd (base_words ss)) = lsn_of (log_base ss)"
    using sne by (cases ss) (simp_all add: base_words_def log_base_def lsn_of_def)
  have "\<exists>prev' d'. same_dir d d' \<and> continues prev' (sg_base (last ss))
    \<and> recover_bases crc cfg None (base_words (butlast ss @ [last ss])) acc d
      = recover_bases crc cfg prev' (base_words [last ss]) acc d'"
    by (rule recover_sealed) (use ok nf sealed ss in \<open>simp_all add: continues_def sealed_ok_def\<close>)
  then obtain prev d1 where d1: "same_dir d d1" "continues prev (sg_base (last ss))"
    "recover_bases crc cfg None (base_words ss) acc d = recover_bases crc cfg prev (base_words [last ss]) acc d1"
    using sne by auto
  have "recover_one crc cfg prev (lsn_of (sg_base (last ss))) True d1 = (res, put_file (seg_name (last ss)) f' [] d1)"
    by (rule recover_one_headed [OF hf _ _ d1(2) rs]) (use d1(1) nf act in \<open>simp_all add: same_dir_def\<close>)
  then have "recover_bases crc cfg prev (base_words [last ss]) acc d1
    = (case res of Inl e \<Rightarrow> Inl e | Inr seg \<Rightarrow> Inr (as_recovered ss seg), put_file (seg_name (last ss)) f' [] d1)"
    by (simp add: base_words_def lsn_of_def split: sum.splits)
      (simp add: acc_def as_recovered_def hd Lsn_base_words lsn_of_def seg_name_def)
  then show ?thesis using d1 by (auto simp: recover_all_def acc_def)
qed

section \<open>Opening a directory that has segments\<close>

lemma discard_headed:
  assumes "segs_ok crc ssz mx ss" "dfaults d = []" "map_of (entries d) (seg_name (last ss)) = Some f" "headed crc (last ss) f"
  shows "discard_incomplete_highest crc (base_words ss) cfg d = (Inr (base_words ss), d)"
proof -
  have sne: "ss \<noteq> []" by (rule segs_ok_last(4) [OF assms(1)])
  have l: "Lsn (last (base_words ss)) = lsn_of (sg_base (last ss))" "base_words ss \<noteq> []"
    using sne by (simp_all add: base_words_def last_map lsn_of_def)
  have "highest_is_complete crc cfg (lsn_of (sg_base (last ss))) f [] = (Inr True, [])"
    using headed_read [OF assms(4)] assms(4) by (simp add: highest_is_complete_def headed_def)
  then show ?thesis
    using l open_file_no_faults [OF assms(2,3)] assms(2)
    by (cases d) (simp add: discard_incomplete_highest_def Let_def seg_name_def)
qed

definition cfg_ok :: "wal_config \<Rightarrow> bool" where
  "cfg_ok cfg \<longleftrightarrow> unat (cfg_max_record_size cfg) + 91 \<le> unat (cfg_segment_size cfg)"

lemma cfg_check:
  "ucast (cfg_max_record_size cfg) + 91 > cfg_segment_size cfg \<longleftrightarrow> \<not> cfg_ok cfg"
proof -
  have "unat (ucast (cfg_max_record_size cfg) :: u64) = unat (cfg_max_record_size cfg)"
    using unat_u32_le [of "cfg_max_record_size cfg"] by (simp add: u32_max_def unsigned_ucast_eq take_bit_nat_eq_self)
  then have "unat (ucast (cfg_max_record_size cfg) + 91 :: u64) = unat (cfg_max_record_size cfg) + 91"
    using unat_u32_le [of "cfg_max_record_size cfg"] by (simp add: u32_max_def unat_word_ariths(1))
  then show ?thesis by (auto simp: cfg_ok_def word_less_nat_alt)
qed

text \<open>Locking: the lock file is added when it is missing.\<close>

definition with_lock :: "disk \<Rightarrow> disk" where
  "with_lock d =
     (if map_of (entries d) LOCK = None
      then d\<lparr>entries := entries d @ [(LOCK, empty_file)], pending := pending d @ [Linked LOCK], lock_held := True\<rparr>
      else d\<lparr>lock_held := True\<rparr>)"

lemma with_lock_simps [simp]: "dfaults (with_lock d) = dfaults d" "lock_held (with_lock d)"
  by (simp_all add: with_lock_def)

lemma with_lock_map: "is_seg_name n \<Longrightarrow> map_of (entries (with_lock d)) n = map_of (entries d) n"
  by (cases "map_of (entries d) n") (auto simp: with_lock_def map_add_def)

lemma with_lock_names: "is_seg_name n \<Longrightarrow> n \<in> fst ` set (entries (with_lock d)) \<longleftrightarrow> n \<in> fst ` set (entries d)"
  by (auto simp: with_lock_def)

lemma with_lock_distinct: "distinct (map fst (entries d)) \<Longrightarrow> distinct (map fst (entries (with_lock d)))"
  by (auto simp: with_lock_def map_of_eq_None_iff)

lemma with_lock_settled: "names_settled d \<Longrightarrow> names_settled (with_lock d)"
  by (simp add: names_settled_def with_lock_def)

lemma has_segs_with_lock: "has_segs ss d \<Longrightarrow> has_segs ss (with_lock d)"
  by (simp add: has_segs_def with_lock_names with_lock_distinct)

lemma holds_with_lock: "holds crc ssz ss d \<Longrightarrow> holds crc ssz ss (with_lock d)"
  by (simp add: holds_def with_lock_map with_lock_distinct with_lock_settled)

lemma open_seeded_no_faults:
  assumes "cfg_ok cfg" "\<not> is_none seed" "dfaults d = []" "\<not> lock_held d"
  shows "open_seeded crc clock cfg ob seed d =
    (case open_locked crc clock cfg ob seed (with_lock d) of
       (Inl e, d1) \<Rightarrow> (Inl e, d1\<lparr>lock_held := False\<rparr>)
     | (Inr wr, d1) \<Rightarrow> (Inr wr, d1))"
proof -
  have l: "open_lock d = (Inr (), d\<lparr>entries := entries (with_lock d), pending := pending (with_lock d)\<rparr>)"
    using assms(3) by (cases d) (simp add: open_lock_def may_fail_no_faults with_lock_def split: option.splits)
  have "flock (d\<lparr>entries := entries (with_lock d), pending := pending (with_lock d)\<rparr>) = (Inr (), with_lock d)"
    using assms(3,4) by (cases d) (simp add: flock_def may_fail_no_faults with_lock_def)
  then show ?thesis
    using assms l by (simp add: open_seeded_def cfg_check may_fail_no_faults)
qed

definition opened :: "wal_config \<Rightarrow> 'o \<Rightarrow> aseg list \<Rightarrow> segment_recovery \<Rightarrow> 'o wal" where
  "opened cfg ob ss seg =
     \<lparr>segments = map (\<lambda>s. lsn_of (sg_base s)) ss, active = seg_name (last ss),
      write_offset = rec_write_offset seg, oldest_lsn = lsn_of (log_base ss),
      last_lsn = max_lsn seg, durable_lsn = max_lsn seg,
      segment_size = cfg_segment_size cfg, max_record_size = cfg_max_record_size cfg,
      staging = [], observer = ob, poisoned = False\<rparr>"

definition report_of :: "aseg list \<Rightarrow> segment_recovery \<Rightarrow> recovery_report" where
  "report_of ss seg =
     \<lparr>report_oldest_lsn = lsn_of (log_base ss), report_durable_lsn = max_lsn seg,
      report_tail_state = rec_tail_state seg, report_segments_scanned = length ss\<rparr>"

lemma segs_ok_bounded: "segs_ok crc ssz mx ss \<Longrightarrow> bounded ss"
  using chain_sorted segs_ok_bound by (auto simp: segs_ok_def bounded_def)

lemma open_outcome:
  assumes cfg: "cfg_ok cfg" "\<not> is_none seed" "dfaults d = []" "\<not> lock_held d"
    and ok: "segs_ok crc (unat (cfg_segment_size cfg)) (unat (cfg_max_record_size cfg)) ss"
    and hs: "has_segs ss d" and sealed: "sealed_ok crc (unat (cfg_segment_size cfg)) ss d"
    and act: "map_of (entries d) (seg_name (last ss)) = Some f" and hf: "headed crc (last ss) f"
    and rs: "recover_segment crc f (lsn_of (sg_base (last ss))) True (unat (cfg_segment_size cfg))
            (unat (cfg_max_record_size cfg)) [] = (res, f', [])"
  shows "\<exists>d1. same_dir (with_lock d) d1 \<and> open_seeded crc clock cfg ob seed d =
    (case res of Inl e \<Rightarrow> (Inl e, (put_file (seg_name (last ss)) f' [] d1)\<lparr>lock_held := False\<rparr>)
     | Inr seg \<Rightarrow> (Inr (opened cfg ob ss seg, report_of ss seg), put_file (seg_name (last ss)) f' [] d1))"
proof -
  let ?d = "with_lock d"
  have nf: "dfaults ?d = []" using cfg(3) by simp
  have act': "map_of (entries ?d) (seg_name (last ss)) = Some f" using act by (simp add: with_lock_map)
  have sealed': "sealed_ok crc (unat (cfg_segment_size cfg)) ss ?d"
    using sealed by (simp add: sealed_ok_def with_lock_map)
  note disc = discover_no_faults [OF nf has_segs_with_lock [OF hs] segs_ok_bounded [OF ok]]
  note high = discard_headed [OF ok nf act' hf, of cfg]
  obtain d1 where d1: "same_dir ?d d1" "recover_all crc (base_words ss) cfg ?d
      = (case res of Inl e \<Rightarrow> Inl e | Inr seg \<Rightarrow> Inr (as_recovered ss seg), put_file (seg_name (last ss)) f' [] d1)"
    using recover_all_outcome [OF ok nf sealed' act' hf rs] by blast
  have ne: "base_words ss \<noteq> []" using segs_ok_last(4) [OF ok] by (simp add: base_words_def)
  have "open_locked crc clock cfg ob seed ?d =
    (case res of Inl e \<Rightarrow> (Inl e, put_file (seg_name (last ss)) f' [] d1)
     | Inr seg \<Rightarrow> (Inr (opened cfg ob ss seg, report_of ss seg), put_file (seg_name (last ss)) f' [] d1))"
    using disc high d1(2) ne
    by (cases res) (simp_all add: open_locked_def as_recovered_def opened_def report_of_def)
  then show ?thesis
    using open_seeded_no_faults [OF cfg, of crc clock ob] d1(1) by (cases res) auto
qed

text \<open>Opening a directory that holds a log.\<close>

lemma holds_has_segs: "holds crc ssz ss d \<Longrightarrow> has_segs ss d"
proof -
  assume h: "holds crc ssz ss d"
  have "n \<in> fst ` set (entries d) \<longleftrightarrow> n \<in> seg_name ` set ss" if "is_seg_name n" for n
  proof -
    have "n \<in> dom (map_of (entries d)) \<longleftrightarrow> n \<in> dom (map_of (seg_map crc ssz ss))"
      using h that by (simp add: holds_def domIff)
    then show ?thesis by (simp add: dom_map_of_conv_image_fst seg_map_def image_image)
  qed
  then show ?thesis using h by (simp add: has_segs_def holds_def)
qed

lemma holds_sealed_ok:
  assumes "holds crc ssz ss d" "segs_ok crc ssz mx ss"
  shows "sealed_ok crc ssz ss d"
  unfolding sealed_ok_def using holds_file [OF assms] by (simp add: in_set_butlastD)

lemma holds_same_dir: "holds crc ssz ss d \<Longrightarrow> same_dir d d' \<Longrightarrow> holds crc ssz ss d'"
  by (simp add: holds_def same_dir_def names_settled_def)

text \<open>The files of the log are right, but the directory may still have to be synced.\<close>

definition intact :: "(bytes \<Rightarrow> u32) \<Rightarrow> nat \<Rightarrow> aseg list \<Rightarrow> disk \<Rightarrow> bool" where
  "intact crc ssz ss d \<longleftrightarrow> holds crc ssz ss (d\<lparr>pending := []\<rparr>)"

lemma holds_intact: "holds crc ssz ss d \<longleftrightarrow> intact crc ssz ss d \<and> names_settled d"
  by (auto simp: intact_def holds_def names_settled_def)

lemma intact_same_dir: "intact crc ssz ss d \<Longrightarrow> same_dir d d' \<Longrightarrow> intact crc ssz ss d'"
  unfolding intact_def by (erule holds_same_dir) (simp add: same_dir_def)

lemma intact_with_lock: "intact crc ssz ss d \<Longrightarrow> intact crc ssz ss (with_lock d)"
  using holds_with_lock [of crc ssz ss "d\<lparr>pending := []\<rparr>"]
  by (auto simp: intact_def with_lock_def holds_def names_settled_def split: if_splits)

lemma open_intact:
  assumes cfg: "cfg_ok cfg" "\<not> is_none seed" "dfaults d = []" "\<not> lock_held d"
    and ok: "segs_ok crc (unat (cfg_segment_size cfg)) (unat (cfg_max_record_size cfg)) ss"
    and i: "intact crc (unat (cfg_segment_size cfg)) ss d"
  shows "\<exists>w d'. open_seeded crc clock cfg ob seed d =
      (Inr (w, \<lparr>report_oldest_lsn = lsn_of (log_base ss), report_durable_lsn = lsn_of (log_end ss - 1),
                report_tail_state = Clean, report_segments_scanned = length ss\<rparr>), d')
    \<and> wal_inv crc w ss [] \<and> same_dir (with_lock d) d' \<and> intact crc (unat (cfg_segment_size cfg)) ss d'
    \<and> segment_size w = cfg_segment_size cfg \<and> max_record_size w = cfg_max_record_size cfg \<and> observer w = ob"
proof -
  let ?ssz = "unat (cfg_segment_size cfg)" and ?mx = "unat (cfg_max_record_size cfg)" and ?s = "last ss"
  have sne: "ss \<noteq> []" by (rule segs_ok_last(4) [OF ok])
  have sf: "map_of (entries e) (seg_name ?s) = Some (seg_file crc ?ssz ?s)" if "intact crc ?ssz ss e" for e
    using holds_file [OF that [unfolded intact_def] ok last_in_set [OF sne]] by simp
  let ?f = "seg_file crc ?ssz ?s"
  have hs: "has_segs ss d" "sealed_ok crc ?ssz ss d"
    using holds_has_segs [OF i [unfolded intact_def]] holds_sealed_ok [OF i [unfolded intact_def] ok]
    by (simp_all add: has_segs_def sealed_ok_def)
  have sok: "seg_ok crc ?ssz ?mx ?s" by (rule segs_ok_last(1) [OF ok])
  then have wf: "seg_wf ?ssz ?mx (sg_header ?s) (sg_base ?s) (sg_log ?s)" by (simp add: seg_ok_def)
  define seg where "seg = \<lparr>max_lsn = lsn_of (log_end ss - 1), rec_write_offset = 64 + frames_size (sg_log ?s),
      rec_tail_state = Clean\<rparr>"
  have rs: "recover_segment crc ?f (lsn_of (sg_base ?s)) True ?ssz ?mx [] = (Inr seg, ?f, [])"
    using recover_segment_clean [OF wf, of ?f crc True] by (simp add: seg_file_def seg_def log_end_def seg_end_def)
  obtain d1 where d1: "same_dir (with_lock d) d1"
    and op: "open_seeded crc clock cfg ob seed d
      = (Inr (opened cfg ob ss seg, report_of ss seg), put_file (seg_name ?s) ?f [] d1)"
    using open_outcome [OF cfg ok hs sf [OF i] headed_seg_file [OF sok] rs, of clock ob] by auto
  have i1: "intact crc ?ssz ss d1" by (rule intact_same_dir [OF intact_with_lock [OF i] d1])
  have d2: "same_dir d1 (put_file (seg_name ?s) ?f [] d1)"
    by (rule put_same_file [OF sf [OF i1]]) (use d1 cfg(3) in \<open>simp add: same_dir_def\<close>)
  have "wal_inv crc (opened cfg ob ss seg) ss []"
    using ok cfg(1) segs_ok_last(3) [OF ok]
    by (simp add: wal_inv_def wal_core_def wal_staged_def opened_def seg_def cfg_ok_def)
  then show ?thesis
    using op intact_same_dir [OF i1 d2] same_dir_trans [OF d1 d2] by (auto simp: report_of_def opened_def seg_def)
qed

lemma open_holds:
  assumes cfg: "cfg_ok cfg" "\<not> is_none seed" "dfaults d = []" "\<not> lock_held d"
    and ok: "segs_ok crc (unat (cfg_segment_size cfg)) (unat (cfg_max_record_size cfg)) ss"
    and h: "holds crc (unat (cfg_segment_size cfg)) ss d"
  shows "\<exists>w d'. open_seeded crc clock cfg ob seed d =
      (Inr (w, \<lparr>report_oldest_lsn = lsn_of (log_base ss), report_durable_lsn = lsn_of (log_end ss - 1),
                report_tail_state = Clean, report_segments_scanned = length ss\<rparr>), d')
    \<and> wal_inv crc w ss [] \<and> holds crc (unat (cfg_segment_size cfg)) ss d' \<and> lock_held d' \<and> dfaults d' = []
    \<and> segment_size w = cfg_segment_size cfg \<and> max_record_size w = cfg_max_record_size cfg \<and> observer w = ob"
proof -
  have i: "intact crc (unat (cfg_segment_size cfg)) ss d" using h by (simp add: holds_intact)
  from open_intact [OF cfg ok i, of clock ob] obtain w d' where o:
    "open_seeded crc clock cfg ob seed d =
      (Inr (w, \<lparr>report_oldest_lsn = lsn_of (log_base ss), report_durable_lsn = lsn_of (log_end ss - 1),
                report_tail_state = Clean, report_segments_scanned = length ss\<rparr>), d')"
    "wal_inv crc w ss []" "same_dir (with_lock d) d'"
    "segment_size w = cfg_segment_size cfg \<and> max_record_size w = cfg_max_record_size cfg \<and> observer w = ob" by blast
  have "holds crc (unat (cfg_segment_size cfg)) ss d'" by (rule holds_same_dir [OF holds_with_lock [OF h] o(3)])
  then show ?thesis using o cfg(3) by (auto simp: same_dir_def)
qed

lemma create_lock_held: "create crc c b ssz d = (res, d') \<Longrightarrow> lock_held d' = lock_held d"
  by (cases rule: create_new_cases [of d "filename_for b"])
    (auto simp: create_def Let_def split: prod.splits)

text \<open>An empty directory is a cold start at the seed.\<close>

lemma open_cold:
  assumes cfg: "cfg_ok cfg" "\<not> is_none seed" "dfaults d = []" "\<not> lock_held d"
    and h: "has_segs [] d" "names_settled d"
  shows "\<exists>w d'. open_seeded crc clock cfg ob seed d =
      (Inr (w, \<lparr>report_oldest_lsn = seed, report_durable_lsn = lsn_of (lsn_nat seed - 1),
                report_tail_state = Clean, report_segments_scanned = 1\<rparr>), d')
    \<and> wal_inv crc w [new_seg crc clock (lsn_nat seed)] []
    \<and> holds crc (unat (cfg_segment_size cfg)) [new_seg crc clock (lsn_nat seed)] d'
    \<and> lock_held d' \<and> dfaults d' = []
    \<and> segment_size w = cfg_segment_size cfg \<and> max_record_size w = cfg_max_record_size cfg \<and> observer w = ob"
proof -
  let ?ssz = "unat (cfg_segment_size cfg)" and ?mx = "unat (cfg_max_record_size cfg)" and ?n = "lsn_nat seed"
  let ?s = "new_seg crc clock ?n" and ?d = "with_lock d"
  have n: "0 < ?n" "?n \<le> u64_max" using cfg(2) lsn_nat_le_max by (auto simp: is_none_iff)
  have sz: "64 \<le> ?ssz" "?mx \<le> u32_max" using cfg(1) unat_u32_le by (auto simp: cfg_ok_def)
  have ok: "segs_ok crc ?ssz ?mx [?s]" using new_seg_ok [OF n sz(2,1)] by (simp add: segs_ok_def)
  have nf: "dfaults ?d = []" using cfg(3) by simp
  have hs: "has_segs [] ?d" by (rule has_segs_with_lock [OF h(1)])
  have disc: "discover ?d = (Inr [], ?d)"
    using discover_no_faults [OF nf hs] by (simp add: bounded_def base_words_def)
  have nin: "filename_for seed \<notin> fst ` set (entries ?d)"
    using hs by (auto simp: has_segs_def is_seg_name_iff)
  obtain d1 where c: "create crc (clock (lsn_of ?n)) (lsn_of ?n) ?ssz ?d = (Inr (), d1)" "dfaults d1 = []"
    using create_no_faults [OF nf _ sz(1), of "lsn_of ?n" crc "clock (lsn_of ?n)"] nin
    by (auto simp: map_of_eq_None_iff)
  have h0: "holds crc ?ssz [] ?d"
    using hs with_lock_settled [OF h(2)] by (auto simp: holds_def has_segs_def seg_map_def map_of_eq_None_iff)
  from create_cases [where clock = clock, OF c(1) sz(1) h0]
  have e1: "entries d1 = entries ?d @ [(filename_for seed, seg_file crc ?ssz ?s)]" by auto
  have lk: "lock_held d1" using create_lock_held [OF c(1)] by simp
  define d2 where "d2 = d1\<lparr>pending := [], dfaults := []\<rparr>"
  have "holds crc ?ssz ([] @ [?s]) d2"
  proof (rule holds_snoc [OF h0])
    show "map_of (entries d2) = (map_of (entries ?d))(seg_name ?s \<mapsto> seg_file crc ?ssz ?s)"
      using map_of_snoc [OF nin] by (simp add: d2_def e1)
    show "distinct (map fst (entries d2))" using hs nin by (simp add: d2_def e1 has_segs_def)
    show "names_settled d2" by (simp add: d2_def names_settled_def)
  qed (use ok in simp)
  then have hd2: "holds crc ?ssz [?s] d2" by simp
  define seg where "seg = \<lparr>max_lsn = lsn_of (?n - 1), rec_write_offset = 64, rec_tail_state = Clean\<rparr>"
  have pred: "Lsn (lsn_val seed - 1) = lsn_of (?n - 1)" using lsn_pred_of [OF n] by simp
  have "open_locked crc clock cfg ob seed ?d = (Inr (opened cfg ob [?s] seg, report_of [?s] seg), d2)"
    using disc c pred
    by (simp add: open_locked_def discard_incomplete_highest_def cold_start_def fsync_dir_no_faults
        opened_def report_of_def seg_def log_base_def d2_def)
  then have op: "open_seeded crc clock cfg ob seed d = (Inr (opened cfg ob [?s] seg, report_of [?s] seg), d2)"
    using open_seeded_no_faults [OF cfg, of crc clock ob] by simp
  have "wal_inv crc (opened cfg ob [?s] seg) [?s] []"
    using ok cfg(1) n
    by (simp add: wal_inv_def wal_core_def wal_staged_def opened_def seg_def cfg_ok_def log_end_def log_base_def)
  then show ?thesis
    using op hd2 lk by (auto simp: report_of_def seg_def log_base_def d2_def opened_def)
qed

end
