(* ===== verification/Wal_Replay.thy ===== *)
theory Wal_Replay
  imports Wal_Open
begin

text \<open>
  Replaying a log with the reader (\<^verbatim>\<open>src/reader.rs\<close>, \<^verbatim>\<open>Wal::reader_from\<close>), and draining a reader to the
  end of the log, as its callers do.
\<close>

declare reader_next.simps [simp del]

section \<open>The cases of \<open>reader_next\<close>\<close>

abbreviation rd_read :: "(bytes \<Rightarrow> u32) \<Rightarrow> reader \<Rightarrow> disk \<Rightarrow> string \<Rightarrow> (scan_outcome \<times> bytes) result" where
  "rd_read crc rd d name \<equiv>
     read_record_at crc (file_of d name) (rd_offset rd) (rd_segment_size rd) (rd_max_record_size rd)"

definition rd_step :: "reader \<Rightarrow> bytes \<Rightarrow> lsn \<Rightarrow> nat \<Rightarrow> reader" where
  "rd_step rd buf l n = rd\<lparr>rd_buf := buf, rd_offset := rd_offset rd + n, rd_expected := checked_next l\<rparr>"

lemma reader_next_closed:
  "rd_done rd \<Longrightarrow> reader_next crc rd d = (None, rd, d)"
  "\<not> rd_done rd \<Longrightarrow> rd_file rd = None \<Longrightarrow> reader_next crc rd d = (None, rd\<lparr>rd_done := True\<rparr>, d)"
  by (simp_all add: reader_next.simps)

lemma reader_next_open:
  assumes "\<not> rd_done rd" "rd_file rd = Some name"
  shows "rd_read crc rd d name = Inl e \<Longrightarrow> reader_next crc rd d = (Some (Inl e), rd\<lparr>rd_done := True\<rparr>, d)"
    "rd_read crc rd d name = Inr (ScanRecord l k n, buf) \<Longrightarrow> reader_next crc rd d =
       (if Some l \<noteq> rd_expected rd then (None, rd\<lparr>rd_buf := buf, rd_done := True\<rparr>, d)
        else if l < rd_from rd then reader_next crc (rd_step rd buf l n) d
        else (Some (Inr (l, window 20 (20 + k) buf)), rd_step rd buf l n, d))"
    "rd_read crc rd d name = Inr (CleanEnd, buf) \<or> rd_read crc rd d name = Inr (ScanInvalid, buf) \<Longrightarrow>
     reader_next crc rd d =
       (case advance_segment (rd\<lparr>rd_buf := buf\<rparr>) d of
          (Inr True, rd, d) \<Rightarrow> reader_next crc rd d
        | (Inr False, rd, d) \<Rightarrow> (None, rd\<lparr>rd_done := True\<rparr>, d)
        | (Inl e, rd, d) \<Rightarrow> (Some (Inl e), rd\<lparr>rd_done := True\<rparr>, d))"
  using assms
  by (subst reader_next.simps; auto simp: Let_def rd_step_def)+

section \<open>Draining a reader\<close>

definition rd_rel :: "(reader \<times> reader) set" where
  "rd_rel = measures [\<lambda>rd. length (rd_segments rd) - rd_seg_idx rd, \<lambda>rd. rd_segment_size rd - rd_offset rd]"

lemma wf_rd_rel: "wf rd_rel"
  by (simp add: rd_rel_def)

lemma trans_rd_rel: "(a, b) \<in> rd_rel \<Longrightarrow> (b, c) \<in> rd_rel \<Longrightarrow> (a, c) \<in> rd_rel"
  by (auto simp: rd_rel_def)

lemma rd_step_rel: "rd_read crc rd d name = Inr (ScanRecord l k n, buf) \<Longrightarrow> (rd_step rd buf l n, rd) \<in> rd_rel"
  using read_record_at_Record(3,4) [of crc "file_of d name" "rd_offset rd" "rd_segment_size rd"
      "rd_max_record_size rd" l k n buf]
  by (auto simp: rd_rel_def rd_step_def)

lemma advance_rel: "advance_segment (rd\<lparr>rd_buf := buf\<rparr>) d = (Inr True, rd', d') \<Longrightarrow> (rd', rd) \<in> rd_rel"
  using advance_segment_decreases [of rd' d' "rd\<lparr>rd_buf := buf\<rparr>" d] by (simp add: rd_rel_def)

lemma reader_next_decreases:
  "reader_next crc rd d = (Some (Inr x), rd', d') \<Longrightarrow> (rd', rd) \<in> rd_rel"
proof (induction rd arbitrary: d rule: wf_induct_rule [OF wf_rd_rel])
  case (1 rd)
  note IH = "1.IH" and nx = "1.prems"
  obtain name where live: "\<not> rd_done rd" "rd_file rd = Some name"
    using nx reader_next_closed [of rd crc d] by (cases "rd_done rd"; cases "rd_file rd") auto
  note op = reader_next_open [OF live, of crc d]
  show ?case
  proof (cases "rd_read crc rd d name")
    case (Inl e)
    then show ?thesis using nx op(1) by simp
  next
    case (Inr ob)
    obtain out buf where rr: "rd_read crc rd d name = Inr (out, buf)" using Inr by (cases ob) auto
    have adv: ?thesis if "out = CleanEnd \<or> out = ScanInvalid"
    proof -
      from that have "rd_read crc rd d name = Inr (CleanEnd, buf) \<or> rd_read crc rd d name = Inr (ScanInvalid, buf)"
        using rr by auto
      note o3 = op(3) [OF this]
      obtain r rd1 d1 where a: "advance_segment (rd\<lparr>rd_buf := buf\<rparr>) d = (r, rd1, d1)"
        by (cases "advance_segment (rd\<lparr>rd_buf := buf\<rparr>) d")
      have r: "r = Inr True" using nx o3 a by (cases r) (auto split: bool.splits)
      then have "reader_next crc rd1 d1 = (Some (Inr x), rd', d')" using nx o3 a by simp
      with IH [OF advance_rel [OF a [unfolded r]]] advance_rel [OF a [unfolded r]] show ?thesis
        by (blast intro: trans_rd_rel)
    qed
    show ?thesis
    proof (cases out)
      case (ScanRecord l k n)
      note rr = rr [unfolded ScanRecord]
      note st = rd_step_rel [OF rr]
      show ?thesis
        using nx op(2) [OF rr] IH [OF st] st by (auto split: if_splits intro: trans_rd_rel)
    qed (use adv in auto)
  qed
qed

function drain :: "(bytes \<Rightarrow> u32) \<Rightarrow> reader \<Rightarrow> disk \<Rightarrow> (lsn \<times> bytes) list \<times> wal_error option" where
  "drain crc rd d =
     (case reader_next crc rd d of
        (None, rd', d') \<Rightarrow> ([], None)
      | (Some (Inl e), rd', d') \<Rightarrow> ([], Some e)
      | (Some (Inr x), rd', d') \<Rightarrow> (case drain crc rd' d' of (xs, err) \<Rightarrow> (x # xs, err)))"
  by pat_completeness auto
termination
  by (relation "inv_image rd_rel (\<lambda>(crc, rd, d). rd)")
    (auto simp: wf_rd_rel dest: reader_next_decreases [OF sym])

declare drain.simps [simp del]

section \<open>A reader inside a log\<close>

text \<open>The reader is in segment \<open>i\<close>, before its record \<open>j\<close>.\<close>

definition rd_at :: "nat \<Rightarrow> nat \<Rightarrow> aseg list \<Rightarrow> nat \<Rightarrow> nat \<Rightarrow> reader \<Rightarrow> bool" where
  "rd_at ssz mx ss i j rd \<longleftrightarrow>
     i < length ss \<and> j \<le> length (sg_log (ss ! i))
     \<and> rd_segments rd = map (\<lambda>s. lsn_of (sg_base s)) ss \<and> rd_seg_idx rd = i
     \<and> rd_file rd = Some (seg_name (ss ! i)) \<and> rd_offset rd = 64 + frames_size (take j (sg_log (ss ! i)))
     \<and> rd_expected rd = checked_next (lsn_of (sg_base (ss ! i) + j - 1))
     \<and> rd_segment_size rd = ssz \<and> rd_max_record_size rd = mx \<and> \<not> rd_done rd"

definition rest_of :: "aseg list \<Rightarrow> nat \<Rightarrow> nat \<Rightarrow> (lsn \<times> bytes) list" where
  "rest_of ss i j = number_from (sg_base (ss ! i) + j) (drop j (sg_log (ss ! i)) @ log_of (drop (Suc i) ss))"

text \<open>
  A directory from which the records of the log can be read: each segment's file begins with
  its records, and (but for the last one, unless \<open>clean\<close>) ends with them.
\<close>

definition readable :: "(bytes \<Rightarrow> u32) \<Rightarrow> nat \<Rightarrow> nat \<Rightarrow> bool \<Rightarrow> aseg list \<Rightarrow> disk \<Rightarrow> bool" where
  "readable crc ssz mx clean ss d \<longleftrightarrow> segs_ok crc ssz mx ss \<and> dfaults d = []
     \<and> (\<forall>i < length ss. \<exists>f r. map_of (entries d) (seg_name (ss ! i)) = Some f \<and> healthy f
          \<and> fdata f = seg_image crc (sg_header (ss ! i)) (sg_base (ss ! i)) (sg_log (ss ! i)) r
          \<and> (clean \<or> Suc i < length ss \<longrightarrow>
               scan_bytes crc (fdata f) (64 + frames_size (sg_log (ss ! i))) ssz mx = CleanEnd))"

lemma holds_readable:
  assumes "segs_ok crc ssz mx ss" "holds crc ssz ss d" "dfaults d = []"
  shows "readable crc ssz mx clean ss d"
  unfolding readable_def
proof (intro conjI allI impI assms(1,3))
  fix i assume i: "i < length ss"
  let ?s = "ss ! i"
  have s: "?s \<in> set ss" using i by simp
  have wf: "seg_wf ssz mx (sg_header ?s) (sg_base ?s) (sg_log ?s)"
    using assms(1) s by (simp add: segs_ok_def list_all_iff seg_ok_def)
  show "\<exists>f r. map_of (entries d) (seg_name ?s) = Some f \<and> healthy f
     \<and> fdata f = seg_image crc (sg_header ?s) (sg_base ?s) (sg_log ?s) r
     \<and> (clean \<or> Suc i < length ss \<longrightarrow> scan_bytes crc (fdata f) (64 + frames_size (sg_log ?s)) ssz mx = CleanEnd)"
    using holds_file [OF assms(2,1) s] scan_image_zeros [OF wf, of crc]
    by (auto simp: seg_file_def seg_bytes_def)
qed

lemma intact_readable:
  assumes "segs_ok crc ssz mx ss" "intact crc ssz ss d" "dfaults d = []"
  shows "readable crc ssz mx clean ss d"
  using holds_readable [OF assms(1) assms(2) [unfolded intact_def]] assms(3) by (simp add: readable_def)

lemma scan_record_j:
  assumes wf: "seg_wf ssz mx h n ps" and j: "j < length ps"
  shows "scan_bytes crc (seg_image crc h n ps r) (64 + frames_size (take j ps)) ssz mx
      = ScanRecord (lsn_of (n + j)) (length (ps ! j)) (framed_size (length (ps ! j)))"
    "window (64 + frames_size (take j ps)) (64 + frames_size (take j ps) + framed_size (length (ps ! j)))
       (seg_image crc h n ps r) = frame crc (lsn_of (n + j)) (ps ! j)"
proof -
  have dp: "drop j ps = ps ! j # drop (Suc j) ps" using j by (simp add: Cons_nth_drop_Suc)
  have "frames crc n ps = frames crc n (take j ps) @ frames crc (n + j) (drop j ps)"
    using j frames_append [of crc n "take j ps" "drop j ps"] by simp
  then have sb: "seg_image crc h n ps r = (h @ frames crc n (take j ps)) @ frame crc (lsn_of (n + j)) (ps ! j)
      @ (frames crc (Suc (n + j)) (drop (Suc j) ps) @ r)"
    by (simp add: seg_image_def dp)
  have len: "length (h @ frames crc n (take j ps)) = 64 + frames_size (take j ps)" using wf by (simp add: seg_wf_def)
  have "frames_size ps = frames_size (take j ps) + framed_size (length (ps ! j)) + frames_size (drop (Suc j) ps)"
    by (metis append_take_drop_id dp frames_size.simps(2) frames_size_append add.assoc)
  then have fit: "64 + frames_size (take j ps) + framed_size (length (ps ! j)) \<le> ssz" using wf by (simp add: seg_wf_def)
  have pl: "length (ps ! j) \<le> mx" "mx \<le> u32_max"
    using wf j by (simp_all add: seg_wf_def payloads_ok_def list_all_length)
  show "scan_bytes crc (seg_image crc h n ps r) (64 + frames_size (take j ps)) ssz mx
      = ScanRecord (lsn_of (n + j)) (length (ps ! j)) (framed_size (length (ps ! j)))"
    using scan_bytes_frame [of "ps ! j" mx "h @ frames crc n (take j ps)" ssz crc "lsn_of (n + j)"] pl fit len
    by (simp only: sb)
  show "window (64 + frames_size (take j ps)) (64 + frames_size (take j ps) + framed_size (length (ps ! j)))
       (seg_image crc h n ps r) = frame crc (lsn_of (n + j)) (ps ! j)"
    unfolding sb by (rule window_append_mid) (simp_all only: len length_frame)
qed

lemma chain_nth: "chain ss \<Longrightarrow> Suc i < length ss \<Longrightarrow> sg_base (ss ! Suc i) = seg_end (ss ! i)"
proof (induction ss arbitrary: i)
  case (Cons s ss)
  then show ?case by (cases i; cases ss) auto
qed simp

lemma rest_of_record:
  "j < length (sg_log (ss ! i)) \<Longrightarrow>
   rest_of ss i j = (lsn_of (sg_base (ss ! i) + j), sg_log (ss ! i) ! j) # rest_of ss i (Suc j)"
  by (simp add: rest_of_def Cons_nth_drop_Suc [symmetric])

lemma rest_of_next:
  assumes "chain ss" "Suc i < length ss"
  shows "rest_of ss i (length (sg_log (ss ! i))) = rest_of ss (Suc i) 0"
proof -
  have "drop (Suc i) ss = ss ! Suc i # drop (Suc (Suc i)) ss" using assms(2) by (simp add: Cons_nth_drop_Suc)
  then show ?thesis
    using chain_nth [OF assms] by (simp add: rest_of_def log_of_def seg_end_def)
qed

lemma rest_of_last: "Suc i = length ss \<Longrightarrow> rest_of ss i (length (sg_log (ss ! i))) = []"
  by (simp add: rest_of_def log_of_def)

lemma rd_read_in_log:
  assumes rb: "readable crc ssz mx clean ss d" and at: "rd_at ssz mx ss i j rd"
  shows "j < length (sg_log (ss ! i)) \<Longrightarrow> rd_read crc rd d (seg_name (ss ! i)) =
      Inr (ScanRecord (lsn_of (sg_base (ss ! i) + j)) (length (sg_log (ss ! i) ! j))
             (framed_size (length (sg_log (ss ! i) ! j))), frame crc (lsn_of (sg_base (ss ! i) + j)) (sg_log (ss ! i) ! j))"
    and "j = length (sg_log (ss ! i)) \<Longrightarrow> clean \<or> Suc i < length ss \<Longrightarrow>
      \<exists>buf. rd_read crc rd d (seg_name (ss ! i)) = Inr (CleanEnd, buf)"
proof -
  let ?s = "ss ! i"
  have i: "i < length ss" and s: "?s \<in> set ss" using at by (simp_all add: rd_at_def)
  have wf: "seg_wf ssz mx (sg_header ?s) (sg_base ?s) (sg_log ?s)"
    using rb s by (simp add: readable_def segs_ok_def list_all_iff seg_ok_def)
  obtain f r where f: "map_of (entries d) (seg_name ?s) = Some f" "healthy f"
    "fdata f = seg_image crc (sg_header ?s) (sg_base ?s) (sg_log ?s) r"
    "clean \<or> Suc i < length ss \<longrightarrow> scan_bytes crc (fdata f) (64 + frames_size (sg_log ?s)) ssz mx = CleanEnd"
    using rb i unfolding readable_def by metis
  have fo: "file_of d (seg_name ?s) = f" using f(1) by (simp add: file_of_def)
  have rd: "rd_offset rd = 64 + frames_size (take j (sg_log ?s))" "rd_segment_size rd = ssz" "rd_max_record_size rd = mx"
    using at by (simp_all add: rd_at_def)
  note rr = read_record_at_healthy [OF f(2), of crc "rd_offset rd" ssz mx]
  show "rd_read crc rd d (seg_name ?s) = Inr (ScanRecord (lsn_of (sg_base ?s + j)) (length (sg_log ?s ! j))
             (framed_size (length (sg_log ?s ! j))), frame crc (lsn_of (sg_base ?s + j)) (sg_log ?s ! j))"
    if "j < length (sg_log ?s)"
    using rr scan_record_j [OF wf that, of crc r] by (auto simp: fo rd f(3))
  show "\<exists>buf. rd_read crc rd d (seg_name ?s) = Inr (CleanEnd, buf)"
    if "j = length (sg_log ?s)" "clean \<or> Suc i < length ss"
    using rr f(4) that by (auto simp: fo rd)
qed

lemma rd_at_step:
  assumes "rd_at ssz mx ss i j rd" "j < length (sg_log (ss ! i))"
  shows "rd_at ssz mx ss i (Suc j)
    (rd_step rd buf (lsn_of (sg_base (ss ! i) + j)) (framed_size (length (sg_log (ss ! i) ! j))))"
  using assms by (simp add: rd_at_def rd_step_def take_Suc_conv_app_nth)

lemma rd_at_advance:
  assumes rb: "readable crc ssz mx clean ss d" and at: "rd_at ssz mx ss i (length (sg_log (ss ! i))) rd"
  shows "Suc i < length ss \<Longrightarrow> \<exists>rd'. advance_segment (rd\<lparr>rd_buf := buf\<rparr>) d = (Inr True, rd', d)
      \<and> rd_at ssz mx ss (Suc i) 0 rd' \<and> rd_from rd' = rd_from rd"
    and "\<not> Suc i < length ss \<Longrightarrow> \<exists>rd'. advance_segment (rd\<lparr>rd_buf := buf\<rparr>) d = (Inr False, rd', d)"
proof -
  assume i: "Suc i < length ss"
  then obtain f where "map_of (entries d) (seg_name (ss ! Suc i)) = Some f"
    using rb by (auto simp: readable_def)
  note of = open_file_no_faults [OF _ this]
  have b: "sg_base (ss ! Suc i) = sg_base (ss ! i) + length (sg_log (ss ! i))"
    using chain_nth [OF _ i] rb by (simp add: readable_def segs_ok_def seg_end_def)
  show "\<exists>rd'. advance_segment (rd\<lparr>rd_buf := buf\<rparr>) d = (Inr True, rd', d)
      \<and> rd_at ssz mx ss (Suc i) 0 rd' \<and> rd_from rd' = rd_from rd"
    using i at of b rb by (simp add: advance_segment_def rd_at_def seg_name_def Let_def readable_def)
next
  assume "\<not> Suc i < length ss"
  then show "\<exists>rd'. advance_segment (rd\<lparr>rd_buf := buf\<rparr>) d = (Inr False, rd', d)"
    using at by (simp add: advance_segment_def rd_at_def Let_def)
qed

definition next_item :: "bool \<Rightarrow> nat \<Rightarrow> nat \<Rightarrow> aseg list \<Rightarrow> lsn \<Rightarrow> (lsn \<times> bytes) list \<Rightarrow> disk \<Rightarrow> item \<times> reader \<times> disk \<Rightarrow> bool" where
  "next_item clean ssz mx ss from rest d out \<longleftrightarrow>
     (case dropWhile (\<lambda>x. fst x < from) rest of
        [] \<Rightarrow> clean \<longrightarrow> (\<exists>rd'. out = (None, rd', d))
      | x # xs \<Rightarrow> \<exists>rd' i j. out = (Some (Inr x), rd', d) \<and> rd_at ssz mx ss i j rd' \<and> rest_of ss i j = xs
                    \<and> rd_from rd' = from)"

lemma reader_next_in_log:
  assumes rb: "readable crc ssz mx clean ss d" and at: "rd_at ssz mx ss i j rd"
  shows "next_item clean ssz mx ss (rd_from rd) (rest_of ss i j) d (reader_next crc rd d)"
  using at
proof (induction rd arbitrary: i j rule: wf_induct_rule [OF wf_rd_rel])
  case (1 rd)
  note at = "1.prems"
  have ok: "segs_ok crc ssz mx ss" using rb by (simp add: readable_def)
  have live: "\<not> rd_done rd" "rd_file rd = Some (seg_name (ss ! i))" using at by (simp_all add: rd_at_def)
  note op = reader_next_open [OF live, of crc d]
  show ?case
  proof (cases "j < length (sg_log (ss ! i))")
    case True
    let ?l = "lsn_of (sg_base (ss ! i) + j)" and ?p = "sg_log (ss ! i) ! j"
    note rr = rd_read_in_log(1) [OF rb at True]
    let ?rd1 = "rd_step rd (frame crc ?l ?p) ?l (framed_size (length ?p))"
    have bnd: "sg_base (ss ! i) + length (sg_log (ss ! i)) \<le> Suc u64_max" "0 < sg_base (ss ! i)"
      using ok at by (auto simp: segs_ok_def list_all_length rd_at_def seg_ok_def seg_wf_def)
    have exp: "rd_expected rd = Some ?l"
      using at True bnd checked_next_lsn_of [of "sg_base (ss ! i) + j - 1"] by (simp add: rd_at_def)
    have w: "window 20 (20 + length ?p) (frame crc ?l ?p) = ?p" using frame_payload_field [of ?p crc ?l "[]"] by simp
    have at1: "rd_at ssz mx ss i (Suc j) ?rd1" by (rule rd_at_step [OF at True])
    have from1: "rd_from ?rd1 = rd_from rd" by (simp add: rd_step_def)
    show ?thesis
    proof (cases "?l < rd_from rd")
      case less: True
      then have "reader_next crc rd d = reader_next crc ?rd1 d" using op(2) [OF rr] exp by simp
      then show ?thesis
        using "1.IH" [OF rd_step_rel [OF rr] at1] less rest_of_record [OF True] from1 by (simp add: next_item_def)
    next
      case False
      then have "reader_next crc rd d = (Some (Inr (?l, ?p)), ?rd1, d)" using op(2) [OF rr] exp w by simp
      then show ?thesis using False rest_of_record [OF True] at1 from1 by (auto simp: next_item_def)
    qed
  next
    case False
    then have j: "j = length (sg_log (ss ! i))" using at by (simp add: rd_at_def)
    note at = at [unfolded j]
    show ?thesis
    proof (cases "clean \<or> Suc i < length ss")
      case False
      then have "Suc i = length ss" using at by (auto simp: rd_at_def)
      then show ?thesis using False rest_of_last [of i ss] by (simp add: j next_item_def)
    next
      case cl: True
      obtain buf where rr: "rd_read crc rd d (seg_name (ss ! i)) = Inr (CleanEnd, buf)"
        using rd_read_in_log(2) [OF rb at _ cl] by auto
      note o3 = op(3) [of buf, OF disjI1 [OF rr]]
      show ?thesis
      proof (cases "Suc i < length ss")
        case True
        from rd_at_advance(1) [OF rb at True, of buf]
        obtain rd1 where a: "advance_segment (rd\<lparr>rd_buf := buf\<rparr>) d = (Inr True, rd1, d)"
          "rd_at ssz mx ss (Suc i) 0 rd1" "rd_from rd1 = rd_from rd" by blast
        have "chain ss" using ok by (simp add: segs_ok_def)
        then show ?thesis
          using "1.IH" [OF advance_rel [OF a(1)] a(2)] o3 a(1,3) rest_of_next [OF _ True] by (simp add: j)
      next
        case False
        then have "Suc i = length ss" using at by (simp add: rd_at_def)
        then show ?thesis
          using rd_at_advance(2) [OF rb at False, of buf] o3 rest_of_last [of i ss]
          by (auto simp: j next_item_def)
      qed
    qed
  qed
qed

lemma filter_dropWhile:
  "filter (\<lambda>x. \<not> P x) xs = (case dropWhile P xs of [] \<Rightarrow> [] | y # ys \<Rightarrow> y # filter (\<lambda>x. \<not> P x) ys)"
  by (induction xs) auto

lemma drain_in_log:
  assumes rb: "readable crc ssz mx clean ss d" and at: "rd_at ssz mx ss i j rd"
  shows "\<exists>more err. drain crc rd d = (filter (\<lambda>x. \<not> fst x < rd_from rd) (rest_of ss i j) @ more, err)
    \<and> (clean \<longrightarrow> more = [] \<and> err = None)"
  using at
proof (induction rd arbitrary: i j rule: wf_induct_rule [OF wf_rd_rel])
  case (1 rd)
  note n = reader_next_in_log [OF rb "1.prems"]
  let ?P = "\<lambda>x. fst x < rd_from rd"
  show ?case
  proof (cases "dropWhile ?P (rest_of ss i j)")
    case Nil
    have e: "filter (\<lambda>x. \<not> ?P x) (rest_of ss i j) = []"
      using filter_dropWhile [of ?P "rest_of ss i j", unfolded Nil] by simp
    obtain more err where dr: "drain crc rd d = (more, err)" by fastforce
    have "more = [] \<and> err = None" if cl: clean
    proof -
      obtain rd' where "reader_next crc rd d = (None, rd', d)"
        using n cl unfolding next_item_def by (simp only: Nil list.case) blast
      then show ?thesis using dr by (simp add: drain.simps)
    qed
    then show ?thesis using dr e by auto
  next
    case (Cons x xs)
    then obtain rd' i' j' where r: "reader_next crc rd d = (Some (Inr x), rd', d)" "rd_at ssz mx ss i' j' rd'"
      "rest_of ss i' j' = xs" "rd_from rd' = rd_from rd" using n by (auto simp: next_item_def)
    obtain more err where "drain crc rd' d = (filter (\<lambda>x. \<not> ?P x) xs @ more, err)" "clean \<longrightarrow> more = [] \<and> err = None"
      using "1.IH" [OF reader_next_decreases [OF r(1)] r(2)] r(3,4) by auto
    then show ?thesis
      using r(1) Cons by (subst drain.simps) (simp add: filter_dropWhile [of ?P "rest_of ss i j"])
  qed
qed

section \<open>Positioning a reader\<close>

lemma takeWhile_sorted_nth:
  assumes "sorted_wrt (<) (map f xs)" "k = length (takeWhile (\<lambda>x. f x \<le> (b::nat)) xs)"
  shows "\<And>i. i < k \<Longrightarrow> f (xs ! i) \<le> b" "\<And>i. k \<le> i \<Longrightarrow> i < length xs \<Longrightarrow> b < f (xs ! i)"
proof -
  fix i assume "i < k"
  then show "f (xs ! i) \<le> b"
    using assms(2) by (metis nth_mem set_takeWhileD takeWhile_nth)
next
  fix i assume i: "k \<le> i" "i < length xs"
  have "k < length xs" using i by simp
  then have "b < f (xs ! k)" using nth_length_takeWhile [of "\<lambda>x. f x \<le> b" xs] assms(2) by simp
  moreover have "f (xs ! k) \<le> f (xs ! i)"
    using assms(1) i by (cases "k = i") (auto simp: sorted_wrt_iff_nth_less less_imp_le)
  ultimately show "b < f (xs ! i)" by simp
qed

lemma log_of_append [simp]: "log_of (xs @ ys) = log_of xs @ log_of ys"
  by (simp add: log_of_def)

lemma chain_take_end:
  "chain ss \<Longrightarrow> i < length ss \<Longrightarrow> log_base ss + length (log_of (take i ss)) = sg_base (ss ! i)"
proof (induction i)
  case (Suc i)
  have "take (Suc i) ss = take i ss @ [ss ! i]" using Suc.prems(2) by (simp add: take_Suc_conv_app_nth)
  then have "length (log_of (take (Suc i) ss)) = length (log_of (take i ss)) + length (sg_log (ss ! i))"
    by (simp add: log_of_def)
  then show ?case
    using Suc.IH Suc.prems chain_nth [of ss i] by (simp add: seg_end_def)
qed (simp add: log_base_def log_of_def hd_conv_nth)

lemma numbered_split:
  assumes "chain ss" "i < length ss"
  shows "number_from (log_base ss) (log_of ss) = number_from (log_base ss) (log_of (take i ss)) @ rest_of ss i 0"
proof -
  have "log_of ss = log_of (take i ss) @ (sg_log (ss ! i) @ log_of (drop (Suc i) ss))"
    using assms(2) by (metis append_take_drop_id Cons_nth_drop_Suc log_of_append append_Cons append_Nil
        concat.simps(2) list.simps(9) log_of_def)
  then show ?thesis
    using chain_take_end [OF assms] by (simp add: number_from_append rest_of_def)
qed

lemma number_from_bounds: "x \<in> set (number_from n ps) \<Longrightarrow> \<exists>k. n \<le> k \<and> k < n + length ps \<and> fst x = lsn_of k"
proof (induction ps arbitrary: n)
  case (Cons p ps)
  show ?case
  proof (cases "x = (lsn_of n, p)")
    case False
    then have "x \<in> set (number_from (Suc n) ps)" using Cons.prems by auto
    then obtain k where "Suc n \<le> k" "k < Suc n + length ps" "fst x = lsn_of k"
      using Cons.IH [of "Suc n"] by blast
    then show ?thesis by (intro exI [of _ k]) simp
  qed auto
qed simp

lemma wal_inv_core: "wal_inv crc w ss staged \<Longrightarrow> wal_core crc w ss"
  by (simp add: wal_inv_def)

lemma reader_from_spec:
  assumes seg: "segments w = map (\<lambda>s. lsn_of (sg_base s)) ss"
    and rb: "readable crc (unat (segment_size w)) (unat (max_record_size w)) clean ss d"
    and ok_from: "is_none from \<or> oldest_lsn w \<le> from"
  shows "\<exists>rd i. reader_from from w d = (Inr rd, d) \<and> rd_at (unat (segment_size w)) (unat (max_record_size w)) ss i 0 rd
    \<and> (\<exists>more err. drain crc rd d = (filter (\<lambda>x. from \<le> fst x) (number_from (log_base ss) (log_of ss)) @ more, err)
         \<and> (clean \<longrightarrow> more = [] \<and> err = None))
    \<and> (\<forall>k. i < k \<longrightarrow> k < length ss \<longrightarrow> rd_from rd < lsn_of (sg_base (ss ! k)))
    \<and> (0 < i \<longrightarrow> lsn_of (sg_base (ss ! i)) \<le> from)"
proof -
  have ok: "segs_ok crc (unat (segment_size w)) (unat (max_record_size w)) ss" and nf: "dfaults d = []"
    using rb by (simp_all add: readable_def)
  have ch: "chain ss" using ok by (simp add: segs_ok_def)
  have sne: "ss \<noteq> []" using ch by simp
  have bnd: "sg_base s \<le> u64_max" if "s \<in> set ss" for s by (rule segs_ok_bound [OF ok that])
  define eff where "eff = (if is_none from then FIRST else from)"
  define k where "k = length (takeWhile (\<lambda>s. sg_base s \<le> lsn_nat eff) ss)"
  define i where "i = k - 1"
  note tw = takeWhile_sorted_nth [OF chain_sorted [OF ch] k_def]
  have kle: "k \<le> length ss" by (simp add: k_def length_takeWhile_le)
  have i: "i < length ss" using sne kle by (cases ss) (auto simp: i_def)
  have "takeWhile (\<lambda>b. b \<le> eff) (segments w) = map (\<lambda>s. lsn_of (sg_base s)) (takeWhile (\<lambda>s. sg_base s \<le> lsn_nat eff) ss)"
    unfolding seg takeWhile_map o_def
    by (intro arg_cong [where f = "map (\<lambda>s. lsn_of (sg_base s))"] takeWhile_cong) (simp_all add: lsn_le_iff bnd)
  then have idx: "containing_segment_idx (segments w) eff = i"
    by (simp add: containing_segment_idx_def partition_point_def i_def k_def)
  have nm: "filename_for (segments w ! i) = seg_name (ss ! i)" using i by (simp add: seg seg_name_def)
  obtain f where f: "map_of (entries d) (seg_name (ss ! i)) = Some f" using rb i by (auto simp: readable_def)
  note of = open_file_no_faults [OF nf f]
  let ?rd = "new_reader (segments w) i (seg_name (ss ! i)) eff (unat (segment_size w)) (unat (max_record_size w))"
  have "\<not> (lsn_val from \<noteq> 0 \<and> from < oldest_lsn w)" using ok_from by (auto simp: is_none_def)
  then have r: "reader_from from w d = (Inr ?rd, d)"
    using idx nm of by (simp add: reader_from_def eff_def is_none_def Let_def)
  have pos: "0 < sg_base (ss ! i)" "sg_base (ss ! i) \<le> u64_max"
    using ok i bnd by (auto simp: segs_ok_def list_all_length seg_ok_def seg_wf_def)
  then have at: "rd_at (unat (segment_size w)) (unat (max_record_size w)) ss i 0 ?rd"
    using i checked_next_lsn_of [of "sg_base (ss ! i) - 1"] by (simp add: rd_at_def new_reader_def seg)
  have low: "fst x < eff" if mem: "x \<in> set (number_from (log_base ss) (log_of (take i ss)))" for x
  proof -
    obtain m where m: "m < log_base ss + length (log_of (take i ss))" "fst x = lsn_of m"
      using number_from_bounds [OF mem] by blast
    have "0 < i" using mem by (cases i) (auto simp: log_of_def)
    then have "sg_base (ss ! i) \<le> lsn_nat eff" using tw(1) [of i] by (simp add: i_def)
    then show ?thesis using m chain_take_end [OF ch i] pos(2) by (simp add: lsn_less_iff)
  qed
  have "filter (\<lambda>x. \<not> fst x < eff) (number_from (log_base ss) (log_of ss)) = filter (\<lambda>x. \<not> fst x < eff) (rest_of ss i 0)"
    unfolding numbered_split [OF ch i] using low by (simp add: filter_False)
  moreover have "\<not> fst x < eff \<longleftrightarrow> from \<le> fst x" if mem: "x \<in> set (number_from (log_base ss) (log_of ss))" for x
  proof -
    obtain m where m: "log_base ss \<le> m" "m < log_base ss + length (log_of ss)" "fst x = lsn_of m"
      using number_from_bounds [OF mem] by blast
    have "m \<le> u64_max" using m(2) chain_log_end [OF ch] segs_ok_last(3) [OF ok] by simp
    moreover have "0 < log_base ss" using ok sne by (cases ss) (auto simp: segs_ok_def seg_ok_def seg_wf_def log_base_def)
    ultimately show ?thesis using m by (auto simp: eff_def lsn_less_iff lsn_le_iff is_none_iff)
  qed
  ultimately have "filter (\<lambda>x. \<not> fst x < rd_from ?rd) (rest_of ss i 0)
      = filter (\<lambda>x. from \<le> fst x) (number_from (log_base ss) (log_of ss))"
    by (simp add: new_reader_def cong: filter_cong)
  then have "\<exists>more err. drain crc ?rd d = (filter (\<lambda>x. from \<le> fst x) (number_from (log_base ss) (log_of ss)) @ more, err)
      \<and> (clean \<longrightarrow> more = [] \<and> err = None)"
    using drain_in_log [OF rb at] by simp
  moreover have "rd_from ?rd < lsn_of (sg_base (ss ! m))" if "i < m" "m < length ss" for m
    using tw(2) [of m] that bnd by (simp add: new_reader_def lsn_less_iff i_def)
  moreover have "lsn_of (sg_base (ss ! i)) \<le> from" if "0 < i"
  proof -
    have le: "sg_base (ss ! i) \<le> lsn_nat eff" using tw(1) [of i] that by (simp add: i_def)
    have "sg_base (ss ! 0) < sg_base (ss ! i)"
      using chain_sorted [OF ch] that i by (simp add: sorted_wrt_iff_nth_less)
    moreover have "0 < sg_base (ss ! 0)" using ok i by (auto simp: segs_ok_def list_all_length seg_ok_def seg_wf_def)
    ultimately have "\<not> is_none from" using le by (auto simp: eff_def)
    then show ?thesis using le pos(2) by (simp add: eff_def lsn_le_iff)
  qed
  ultimately show ?thesis using r at by blast
qed

end
