(* ===== verification/Wal_Checkpoint.thy ===== *)
theory Wal_Checkpoint
  imports Wal_Replay
begin

text \<open>
  Checkpointing (\<^verbatim>\<open>Wal::checkpoint\<close>): which segments are deleted, and what the directory is
  when the deletion stops in the middle.
\<close>

section \<open>The deletable prefix\<close>

definition deletable :: "aseg list \<Rightarrow> lsn \<Rightarrow> nat" where
  "deletable ss up_to = length (takeWhile (\<lambda>s. sg_base s \<le> Suc (lsn_nat up_to)) (tl ss))"

lemma deletable_prefix_len_eq:
  assumes "segs_ok crc ssz mx ss"
  shows "deletable_prefix_len (map (\<lambda>s. lsn_of (sg_base s)) ss) up_to = deletable ss up_to"
proof -
  have "lsn_val (lsn_of (sg_base s)) - 1 \<le> lsn_val up_to \<longleftrightarrow> sg_base s \<le> Suc (lsn_nat up_to)" if "s \<in> set ss" for s
  proof -
    have b: "0 < sg_base s" "sg_base s \<le> u64_max"
      using assms that by (auto simp: segs_ok_def list_all_iff seg_ok_def seg_wf_def)
    then have "Lsn (lsn_val (lsn_of (sg_base s)) - 1) = lsn_of (sg_base s - 1)" by (rule lsn_pred_of)
    then have "unat (lsn_val (lsn_of (sg_base s)) - 1) = sg_base s - 1"
      using b by (metis lsn_nat_Lsn lsn_nat_of le_trans diff_le_self)
    then show ?thesis using b by (auto simp: word_le_nat_alt lsn_nat_def)
  qed
  then have eq: "takeWhile ((\<lambda>b. lsn_val b - 1 \<le> lsn_val up_to) \<circ> (\<lambda>s. lsn_of (sg_base s))) (tl ss)
      = takeWhile (\<lambda>s. sg_base s \<le> Suc (lsn_nat up_to)) (tl ss)"
    by (intro takeWhile_cong) (auto dest: list.set_sel(2) [rotated] simp: o_def segs_ok_last(4) [OF assms])
  have "ss \<noteq> []" by (rule segs_ok_last(4) [OF assms])
  then show ?thesis
    using eq by (simp add: deletable_prefix_len_def deletable_def partition_point_def map_tl [symmetric] takeWhile_map o_def)
qed

lemma deletable_less: "ss \<noteq> [] \<Longrightarrow> deletable ss up_to < length ss"
  using length_takeWhile_le [of "\<lambda>s. sg_base s \<le> Suc (lsn_nat up_to)" "tl ss"]
  by (cases ss) (auto simp: deletable_def)

text \<open>Every record of a deleted segment is at most \<open>up_to\<close>; and of the sealed segments that
  are kept, each holds a record after \<open>up_to\<close>.\<close>

lemma deletable_deleted:
  assumes "chain ss" "i < deletable ss up_to"
  shows "seg_end (ss ! i) \<le> Suc (lsn_nat up_to)"
proof -
  have i: "Suc i < length ss" using deletable_less [of ss up_to] assms by simp
  have "sorted_wrt (<) (map sg_base (tl ss))" using chain_sorted [OF assms(1)] by (cases ss) auto
  from takeWhile_sorted_nth(1) [OF this, of "deletable ss up_to" "Suc (lsn_nat up_to)"] assms(2)
  have "sg_base (tl ss ! i) \<le> Suc (lsn_nat up_to)" by (simp add: deletable_def)
  then show ?thesis using chain_nth [OF assms(1) i] i by (simp add: nth_tl)
qed

lemma deletable_kept:
  assumes "chain ss" "deletable ss up_to \<le> i" "Suc i < length ss"
  shows "Suc (lsn_nat up_to) < seg_end (ss ! i)"
proof -
  have "sorted_wrt (<) (map sg_base (tl ss))" using chain_sorted [OF assms(1)] by (cases ss) auto
  from takeWhile_sorted_nth(2) [OF this, of "deletable ss up_to" "Suc (lsn_nat up_to)" i] assms(2,3)
  have "Suc (lsn_nat up_to) < sg_base (tl ss ! i)" by (simp add: deletable_def)
  then show ?thesis using chain_nth [OF assms(1,3)] assms(3) by (simp add: nth_tl)
qed

lemma segs_ok_drop: "segs_ok crc ssz mx ss \<Longrightarrow> n < length ss \<Longrightarrow> segs_ok crc ssz mx (drop n ss)"
proof (induction n arbitrary: ss)
  case (Suc n)
  then show ?case by (cases ss) (auto simp: segs_ok_def chain_Cons)
qed simp

section \<open>Unlinking\<close>

lemma remove_file_cases:
  assumes "map_of (entries d) n = Some f"
  obtains q where "remove_file n d = (Inr (), d\<lparr>entries := AList.delete n (entries d),
      pending := pending d @ [Unlinked n f], dfaults := q\<rparr>)" "dfaults d = [] \<Longrightarrow> q = []"
  | e q where "remove_file n d = (Inl e, d\<lparr>dfaults := q\<rparr>)" "e \<noteq> NotFound" "dfaults d \<noteq> []"
  using assms
  by (cases "dfaults d"; cases "fst (next_fault (dfaults d))") (auto simp: remove_file_def)

definition without :: "aseg list \<Rightarrow> (string \<Rightarrow> osfile option) \<Rightarrow> string \<Rightarrow> osfile option" where
  "without xs m n = (if n \<in> seg_name ` set xs then None else m n)"

definition unlinks :: "(bytes \<Rightarrow> u32) \<Rightarrow> nat \<Rightarrow> aseg list \<Rightarrow> dirop list" where
  "unlinks crc ssz xs = map (\<lambda>s. Unlinked (seg_name s) (seg_file crc ssz s)) xs"

definition unlinked :: "(bytes \<Rightarrow> u32) \<Rightarrow> nat \<Rightarrow> aseg list \<Rightarrow> disk \<Rightarrow> disk \<Rightarrow> bool" where
  "unlinked crc ssz xs d d' \<longleftrightarrow> map_of (entries d') = without xs (map_of (entries d))
     \<and> distinct (map fst (entries d')) \<and> pending d' = pending d @ unlinks crc ssz xs \<and> lock_held d' = lock_held d"

lemma unlink_all_cases:
  assumes "unlink_all (map (\<lambda>s. lsn_of (sg_base s)) xs) d = (res, d')"
    and "\<And>s. s \<in> set xs \<Longrightarrow> map_of (entries d) (seg_name s) = Some (seg_file crc ssz s)"
    and "distinct (map seg_name xs)" "distinct (map fst (entries d))"
  shows "\<exists>k \<le> length xs. unlinked crc ssz (take k xs) d d' \<and> (res = Inr () \<and> k = length xs \<or> (\<exists>e. res = Inl e))
    \<and> (dfaults d = [] \<longrightarrow> res = Inr () \<and> dfaults d' = [])"
  using assms
proof (induction xs arbitrary: d)
  case Nil
  then show ?case by (auto simp: unlinked_def without_def unlinks_def)
next
  case (Cons s xs)
  let ?n = "seg_name s" and ?f = "seg_file crc ssz s"
  have f: "map_of (entries d) ?n = Some ?f" using Cons.prems(2) by simp
  show ?case
  proof (cases rule: remove_file_cases [OF f])
    case (2 e q)
    then have "res = Inl (Io e)" "d' = d\<lparr>dfaults := q\<rparr>"
      using Cons.prems(1) by (cases e; simp add: seg_name_def)+
    then show ?thesis
      using 2 Cons.prems(4) by (intro exI [of _ 0]) (simp add: unlinked_def without_def unlinks_def fun_eq_iff)
  next
    case (1 q)
    let ?d1 = "d\<lparr>entries := AList.delete ?n (entries d), pending := pending d @ [Unlinked ?n ?f], dfaults := q\<rparr>"
    have r: "unlink_all (map (\<lambda>s. lsn_of (sg_base s)) xs) ?d1 = (res, d')"
      using Cons.prems(1) 1 by (simp add: seg_name_def)
    have m1: "map_of (entries ?d1) = (map_of (entries d))(?n := None)" by (simp add: delete_conv')
    have "\<exists>k \<le> length xs. unlinked crc ssz (take k xs) ?d1 d' \<and> (res = Inr () \<and> k = length xs \<or> (\<exists>e. res = Inl e))
      \<and> (dfaults ?d1 = [] \<longrightarrow> res = Inr () \<and> dfaults d' = [])"
    proof (rule Cons.IH [OF r])
      show "map_of (entries ?d1) (seg_name t) = Some (seg_file crc ssz t)" if "t \<in> set xs" for t
      proof -
        have "seg_name t \<noteq> ?n" using Cons.prems(3) that by (auto simp: rev_image_eqI)
        then show ?thesis using Cons.prems(2) [of t] that unfolding m1 by simp
      qed
      show "distinct (map seg_name xs)" using Cons.prems(3) by simp
      show "distinct (map fst (entries ?d1))" using Cons.prems(4) by (simp add: distinct_delete)
    qed
    then obtain k where k: "k \<le> length xs" "unlinked crc ssz (take k xs) ?d1 d'"
      "res = Inr () \<and> k = length xs \<or> (\<exists>e. res = Inl e)" "dfaults ?d1 = [] \<longrightarrow> res = Inr () \<and> dfaults d' = []" by blast
    have "unlinked crc ssz (take (Suc k) (s # xs)) d d'"
      using k(2) by (auto simp: unlinked_def without_def unlinks_def delete_conv' fun_eq_iff)
    then show ?thesis using k(1,3,4) 1(2) by (intro exI [of _ "Suc k"]) auto
  qed
qed

lemma seg_names_distinct: "segs_ok crc ssz mx ss \<Longrightarrow> distinct (map seg_name ss)"
  using segs_ok_distinct [of crc ssz mx ss] by (simp add: seg_map_def o_def)

lemma map_of_seg_map_drop:
  assumes "segs_ok crc ssz mx ss"
  shows "map_of (seg_map crc ssz (drop k ss)) = without (take k ss) (map_of (seg_map crc ssz ss))"
proof
  fix n
  have split: "seg_map crc ssz ss = seg_map crc ssz (take k ss) @ seg_map crc ssz (drop k ss)"
    by (metis append_take_drop_id map_append seg_map_def)
  have dis: "distinct (map seg_name (take k ss) @ map seg_name (drop k ss))"
    using seg_names_distinct [OF assms] by (metis append_take_drop_id map_append)
  show "map_of (seg_map crc ssz (drop k ss)) n = without (take k ss) (map_of (seg_map crc ssz ss)) n"
  proof (cases "n \<in> seg_name ` set (take k ss)")
    case True
    then have "n \<notin> fst ` set (seg_map crc ssz (drop k ss))" using dis by (auto simp: seg_map_def)
    then have "map_of (seg_map crc ssz (drop k ss)) n = None" by (simp add: map_of_eq_None_iff)
    then show ?thesis using True by (simp add: without_def)
  next
    case False
    then have "map_of (seg_map crc ssz (take k ss)) n = None" by (auto simp: map_of_eq_None_iff seg_map_def)
    then show ?thesis using False by (simp add: split map_add_def without_def split: option.splits)
  qed
qed

lemma holds_unlinked:
  assumes h: "holds crc ssz ss d" and ok: "segs_ok crc ssz mx ss" and u: "unlinked crc ssz (take k ss) d d1"
    and d': "map_of (entries d') = map_of (entries d1)" "distinct (map fst (entries d'))" "names_settled d'"
  shows "holds crc ssz (drop k ss) d'"
  using u h d' map_of_seg_map_drop [OF ok, of k] by (simp add: unlinked_def without_def holds_def)

section \<open>Checkpoint\<close>

lemma wal_core_drop:
  assumes "wal_core crc w ss" "n < length ss"
  shows "wal_core crc (w\<lparr>segments := drop n (segments w), oldest_lsn := hd (drop n (segments w))\<rparr>) (drop n ss)"
proof -
  have "hd (drop n (map (\<lambda>s. lsn_of (sg_base s)) ss)) = lsn_of (log_base (drop n ss))"
    using assms(2) by (simp add: hd_drop_conv_nth log_base_def)
  then show ?thesis
    using assms segs_ok_drop [of crc _ _ ss n] by (simp add: wal_core_def drop_map log_end_def)
qed

lemma checkpoint_cases:
  assumes c: "checkpoint up_to w d = (res, w', d')"
    and inv: "wal_inv crc w ss staged" and h: "holds crc (unat (segment_size w)) ss d"
  shows "res = Inr () \<and> wal_inv crc w' (drop (deletable ss up_to) ss) staged
        \<and> holds crc (unat (segment_size w)) (drop (deletable ss up_to) ss) d'
        \<and> segment_size w' = segment_size w \<and> max_record_size w' = max_record_size w \<and> observer w' = observer w
        \<and> (dfaults d = [] \<longrightarrow> dfaults d' = [])
    \<or> (\<exists>e. res = Inl e) \<and> w' = w\<lparr>poisoned := True\<rparr> \<and> dfaults d \<noteq> []
        \<and> (\<exists>k d1. k \<le> deletable ss up_to \<and> unlinked crc (unat (segment_size w)) (take k ss) d d1
             \<and> entries d' = entries d1 \<and> pending d' = pending d1)"
proof -
  let ?n = "deletable ss up_to" and ?ssz = "unat (segment_size w)"
  note core = wal_inv_core [OF inv]
  note ok = wal_core_segs [OF core]
  have sne: "ss \<noteq> []" by (rule wal_core_not_Nil [OF core])
  have seg: "segments w = map (\<lambda>s. lsn_of (sg_base s)) ss" and np: "\<not> poisoned w" using core by (simp_all add: wal_core_def)
  have n: "deletable_prefix_len (segments w) up_to = ?n" by (simp add: seg deletable_prefix_len_eq [OF ok])
  have nlt: "?n < length ss" by (rule deletable_less [OF sne])
  show ?thesis
  proof (cases "?n = 0")
    case True
    then show ?thesis using c np n inv h by (auto simp: checkpoint_def)
  next
    case False
    obtain r1 d1 where u: "unlink_all (map (\<lambda>s. lsn_of (sg_base s)) (take ?n ss)) d = (r1, d1)" by fastforce
    have "\<exists>k \<le> length (take ?n ss). unlinked crc ?ssz (take k (take ?n ss)) d d1
        \<and> (r1 = Inr () \<and> k = length (take ?n ss) \<or> (\<exists>e. r1 = Inl e))
        \<and> (dfaults d = [] \<longrightarrow> r1 = Inr () \<and> dfaults d1 = [])"
    proof (rule unlink_all_cases [OF u])
      show "map_of (entries d) (seg_name s) = Some (seg_file crc ?ssz s)" if "s \<in> set (take ?n ss)" for s
        using holds_file [OF h ok] that by (meson in_set_takeD)
      show "distinct (map seg_name (take ?n ss))"
        using seg_names_distinct [OF ok] by (metis take_map distinct_take)
      show "distinct (map fst (entries d))" using h by (simp add: holds_def)
    qed
    then obtain k where k: "k \<le> ?n" "unlinked crc ?ssz (take k ss) d d1"
      "r1 = Inr () \<and> k = ?n \<or> (\<exists>e. r1 = Inl e)" "dfaults d = [] \<longrightarrow> r1 = Inr () \<and> dfaults d1 = []"
      using nlt by (auto simp: min_def)
    have tk: "take ?n (segments w) = map (\<lambda>s. lsn_of (sg_base s)) (take ?n ss)" by (simp add: seg take_map)
    from k(3) show ?thesis
    proof (elim disjE conjE exE)
      fix e assume r1: "r1 = Inl e"
      then have "res = Inl e" "w' = w\<lparr>poisoned := True\<rparr>" "d' = d1"
        using c np n False u tk by (simp_all add: checkpoint_def Let_def)
      then show ?thesis using k r1 by auto
    next
      assume r1: "r1 = Inr ()" and kn: "k = ?n"
      obtain r2 d2 where f: "fsync_dir d1 = (r2, d2)" by fastforce
      note fc = fsync_dir_cases [OF f]
      from fc(3) show ?thesis
      proof (elim disjE conjE exE)
        fix e assume r2: "r2 = Inl e" and p2: "pending d2 = pending d1"
        have "res = Inl e" "w' = w\<lparr>poisoned := True\<rparr>" "d' = d2"
          using c np n False u tk r1 f r2 by (simp_all add: checkpoint_def Let_def)
        moreover have "dfaults d \<noteq> []" using k(4) f r2 fsync_dir_no_faults [of d1] by auto
        ultimately show ?thesis using k(1,2) fc(1) p2 by auto
      next
        assume r2: "r2 = Inr ()" and p2: "pending d2 = []"
        have eq: "res = Inr ()" "d' = d2"
          "w' = w\<lparr>segments := drop ?n (segments w), oldest_lsn := hd (drop ?n (segments w))\<rparr>"
          using c np n False u tk r1 f r2 by (simp_all add: checkpoint_def Let_def)
        have "holds crc ?ssz (drop ?n ss) d2"
          by (rule holds_unlinked [OF h ok k(2) [unfolded kn]])
            (use fc(1) p2 k(2) in \<open>simp_all add: names_settled_def unlinked_def\<close>)
        moreover have "wal_inv crc w' (drop ?n ss) staged"
          using wal_core_drop [OF core nlt] inv nlt by (simp add: eq(3) wal_inv_def wal_staged_def log_end_def)
        moreover have "dfaults d = [] \<longrightarrow> dfaults d2 = []" using k(4) f fsync_dir_no_faults [of d1] by auto
        ultimately show ?thesis using eq by simp
      qed
    qed
  qed
qed

end
