(* ===== verification/Wal_Crash.thy ===== *)
theory Wal_Crash
  imports Wal_Checkpoint
begin

text \<open>
  Crashes: what a power loss makes of the directories that an operation can leave behind,
  and what opening them gives.
\<close>

section \<open>Power loss as a change of the name map\<close>

fun undo_map :: "dirop \<Rightarrow> (string \<Rightarrow> osfile option) \<Rightarrow> string \<Rightarrow> osfile option" where
  "undo_map (Linked n) m = m(n := None)"
| "undo_map (Unlinked n f) m = m(n \<mapsto> f)"

lemma map_of_undo: "map_of (undo_dirop x es) = undo_map x (map_of es)"
  by (cases x) (simp_all add: delete_conv' update_conv')

lemma map_of_crash: "map_of (foldr undo_dirop ops es) = foldr undo_map ops (map_of es)"
  by (induction ops) (simp_all add: map_of_undo)

lemma distinct_crash: "distinct (map fst es) \<Longrightarrow> distinct (map fst (foldr undo_dirop ops es))"
proof (induction ops)
  case (Cons x ops)
  then show ?case by (cases x) (simp_all add: distinct_delete distinct_update)
qed simp

lemma foldr_undo_other: "n \<notin> dirop_name ` set ops \<Longrightarrow> foldr undo_map ops m n = m n"
proof (induction ops)
  case (Cons x ops)
  then show ?case by (cases x) simp_all
qed simp

lemma map_of_rel:
  "list_all2 (\<lambda>(n, f) (n', g). n' = n \<and> R f g) xs ys \<Longrightarrow> rel_option R (map_of xs n) (map_of ys n)"
  by (induction xs ys rule: list_all2_induct) (auto split: prod.splits)

lemma map_fst_rel: "list_all2 (\<lambda>(n, f) (n', g). n' = n \<and> R f g) xs ys \<Longrightarrow> map fst ys = map fst xs"
  by (induction xs ys rule: list_all2_induct) auto

lemma power_loss_map:
  assumes "power_loss d d'" "distinct (map fst (entries d))"
  shows "pending d' = []" "\<not> lock_held d'" "distinct (map fst (entries d'))"
    "\<exists>k \<le> length (pending d). \<forall>n.
       rel_option crash_file (foldr undo_map (drop k (pending d)) (map_of (entries d)) n) (map_of (entries d') n)"
proof -
  from assms(1) show "pending d' = []" "\<not> lock_held d'" by (simp_all add: power_loss_def)
  from assms(1) obtain k where k: "k \<le> length (pending d)"
    and l: "list_all2 (\<lambda>(n, f) (n', g). n' = n \<and> crash_file f g) (crash_entries k d) (entries d')"
    by (auto simp: power_loss_def)
  show "distinct (map fst (entries d'))"
    using map_fst_rel [OF l] distinct_crash [OF assms(2)] by (simp add: crash_entries_def)
  show "\<exists>k \<le> length (pending d). \<forall>n.
       rel_option crash_file (foldr undo_map (drop k (pending d)) (map_of (entries d)) n) (map_of (entries d') n)"
    using k map_of_rel [OF l] by (auto simp: crash_entries_def map_of_crash)
qed

text \<open>A settled directory: only names that are not segments may be lost.\<close>

lemma settled_undo:
  assumes "names_settled d" "is_seg_name n"
  shows "foldr undo_map (drop k (pending d)) m n = m n"
proof (rule foldr_undo_other)
  have "\<forall>x \<in> set (drop k (pending d)). \<not> is_seg_name (dirop_name x)"
    using assms(1) by (auto simp: names_settled_def list_all_iff dest: in_set_dropD)
  then show "n \<notin> dirop_name ` set (drop k (pending d))" using assms(2) by auto
qed

lemma power_loss_settled:
  assumes "power_loss d d'" "distinct (map fst (entries d))" "names_settled d" "is_seg_name n"
  shows "rel_option crash_file (map_of (entries d) n) (map_of (entries d') n)"
  using power_loss_map(4) [OF assms(1,2)] settled_undo [OF assms(3,4)] by metis

lemma crash_seg_file: "crash_file (seg_file crc ssz s) g \<longleftrightarrow> g = seg_file crc ssz s"
  by (rule crash_file_synced) (simp add: seg_file_def)

lemma crash_seg_map:
  assumes "rel_option crash_file (map_of (seg_map crc ssz ss) n) x"
  shows "x = map_of (seg_map crc ssz ss) n"
proof (cases "map_of (seg_map crc ssz ss) n")
  case (Some f)
  then obtain s where "f = seg_file crc ssz s" by (auto simp: seg_map_def dest!: map_of_SomeD)
  then show ?thesis using assms Some by (cases x) (auto simp: crash_seg_file)
qed (use assms in \<open>cases x; auto\<close>)

lemma holds_power_loss:
  assumes h: "holds crc ssz ss d" and pl: "power_loss d d'"
  shows "holds crc ssz ss d'"
proof -
  have ds: "distinct (map fst (entries d))" "names_settled d" using h by (simp_all add: holds_def)
  note pm = power_loss_map [OF pl ds(1)]
  have "map_of (entries d') n = map_of (seg_map crc ssz ss) n" if n: "is_seg_name n" for n
    using power_loss_settled [OF pl ds n] h n crash_seg_map [of crc ssz ss n] by (simp add: holds_def)
  then show ?thesis using pm(1,3) by (simp add: holds_def names_settled_def)
qed

section \<open>A directory whose last file may be torn\<close>

text \<open>The acknowledged log \<open>ss\<close> is there: sealed segments as written, and the active file
  begins with its records.\<close>

definition survives :: "(bytes \<Rightarrow> u32) \<Rightarrow> nat \<Rightarrow> aseg list \<Rightarrow> disk \<Rightarrow> bool" where
  "survives crc ssz ss d \<longleftrightarrow> has_segs ss d \<and> sealed_ok crc ssz ss d
     \<and> (\<exists>f r. map_of (entries d) (seg_name (last ss)) = Some f \<and> healthy f
          \<and> fdata f = seg_image crc (sg_header (last ss)) (sg_base (last ss)) (sg_log (last ss)) r)"

lemma holds_survives:
  assumes "holds crc ssz ss d" "segs_ok crc ssz mx ss"
  shows "survives crc ssz ss d"
  using holds_has_segs [OF assms(1)] holds_sealed_ok [OF assms] holds_file [OF assms last_in_set]
    segs_ok_last(4) [OF assms(2)]
  by (auto simp: survives_def seg_file_def seg_bytes_def)

lemma survives_readable:
  assumes "survives crc ssz ss d" "segs_ok crc ssz mx ss" "dfaults d = []"
  shows "readable crc ssz mx False ss d"
  unfolding readable_def
proof (intro conjI allI impI assms(2,3))
  fix i assume i: "i < length ss"
  let ?s = "ss ! i"
  show "\<exists>f r. map_of (entries d) (seg_name ?s) = Some f \<and> healthy f
     \<and> fdata f = seg_image crc (sg_header ?s) (sg_base ?s) (sg_log ?s) r
     \<and> (False \<or> Suc i < length ss \<longrightarrow> scan_bytes crc (fdata f) (64 + frames_size (sg_log ?s)) ssz mx = CleanEnd)"
  proof (cases "Suc i < length ss")
    case True
    then have "?s \<in> set (butlast ss)" by (metis Suc_lessE diff_Suc_1 in_set_conv_nth length_butlast nth_butlast)
    then have f: "map_of (entries d) (seg_name ?s) = Some (seg_file crc ssz ?s)"
      using assms(1) by (simp add: survives_def sealed_ok_def)
    have wf: "seg_wf ssz mx (sg_header ?s) (sg_base ?s) (sg_log ?s)"
      using assms(2) i by (simp add: segs_ok_def list_all_length seg_ok_def)
    show ?thesis using f scan_image_zeros [OF wf, of crc] by (auto simp: seg_file_def seg_bytes_def)
  next
    case False
    then have "?s = last ss" using i by (metis Suc_lessI diff_Suc_1 last_conv_nth list.size(3) not_less0)
    then show ?thesis using assms(1) False by (auto simp: survives_def)
  qed
qed

lemma torn_image:
  assumes "segs_ok crc ssz mx (after_write ss ps)" "s = last ss"
  obtains r where "fdata (torn_file crc ssz s (take k (frames crc (log_end ss) ps)))
      = seg_image crc (sg_header s) (sg_base s) (sg_log s) r"
    "length r = ssz - 64 - frames_size (sg_log s)"
proof -
  have "seg_ok crc ssz mx (extend_seg s ps)" using segs_ok_last(1) [OF assms(1)] assms(2) by simp
  then have wf: "length (sg_header s) = 64" "64 + frames_size (sg_log s) + frames_size ps \<le> ssz"
    by (simp_all add: seg_ok_def seg_wf_def)
  let ?bs = "take k (frames crc (log_end ss) ps)"
  have "length ?bs \<le> frames_size ps" by simp
  then show ?thesis
    using wf by (intro that [of "?bs @ drop (length ?bs) (zeros (ssz - 64 - frames_size (sg_log s)))"])
      (simp_all add: torn_file_def seg_file_def seg_bytes_def pwrite_image)
qed

lemma image_prefix:
  assumes "length h = 64"
  shows "(\<exists>r. xs = seg_image crc h n ps r) \<longleftrightarrow> 64 + frames_size ps \<le> length xs \<and> take (64 + frames_size ps) xs = h @ frames crc n ps"
proof
  assume "64 + frames_size ps \<le> length xs \<and> take (64 + frames_size ps) xs = h @ frames crc n ps"
  then have "xs = seg_image crc h n ps (drop (64 + frames_size ps) xs)"
    by (metis append_assoc append_take_drop_id seg_image_def)
  then show "\<exists>r. xs = seg_image crc h n ps r" by blast
qed (use assms in \<open>auto simp: seg_image_def\<close>)

lemma crash_mix_take:
  assumes "crash_mix a b c" "m \<le> length a" "m \<le> length b" "take m a = take m b"
  shows "m \<le> length c" "take m c = take m a"
proof -
  show m: "m \<le> length c" using assms(1-3) by (auto simp: crash_mix_def)
  show "take m c = take m a"
  proof (rule nth_equalityI)
    fix i assume i: "i < length (take m c)"
    then have "c ! i = byte_at a i \<or> c ! i = byte_at b i" using assms(1) m by (simp add: crash_mix_def)
    moreover have "a ! i = b ! i" using assms(4) i m by (metis length_take min_less_iff_conj nth_take)
    ultimately show "take m c ! i = take m a ! i" using i assms(2,3) m by (auto simp: byte_at_def)
  qed (use m assms(2) in simp)
qed

text \<open>Torn by an interrupted write, then possibly by a power loss.\<close>

lemma torn_survives:
  assumes t: "torn crc ssz mx ss todo d" and ok: "segs_ok crc ssz mx ss"
  shows "survives crc ssz ss d" "power_loss d d' \<Longrightarrow> survives crc ssz ss d'"
proof -
  let ?s = "last ss"
  obtain d0 c k q where h: "holds crc ssz ss d0" and ok1: "segs_ok crc ssz mx (after_write ss (take c todo))"
    and d: "d = put_file (seg_name ?s) (torn_file crc ssz ?s (take k (frames crc (log_end ss) (take c todo)))) q d0"
    using t by (auto simp: torn_def)
  let ?f = "torn_file crc ssz ?s (take k (frames crc (log_end ss) (take c todo)))"
  have sne: "ss \<noteq> []" by (rule segs_ok_last(4) [OF ok])
  have hs: "has_segs ss d"
  proof -
    have "seg_name ?s \<in> fst ` set (entries d0)"
      using holds_file [OF h ok last_in_set [OF sne]] by (metis domI dom_map_of_conv_image_fst)
    then have "fst ` set (entries d) = fst ` set (entries d0)" by (auto simp: d)
    then show ?thesis using holds_has_segs [OF h] by (simp add: has_segs_def d distinct_put_file)
  qed
  have md: "map_of (entries d) = (map_of (entries d0))(seg_name ?s \<mapsto> ?f)" by (simp add: d entries_put_file)
  have other: "seg_name t \<noteq> seg_name ?s" if "t \<in> set (butlast ss)" for t
    using seg_names_distinct [OF ok] that sne by (metis (no_types, lifting) append_butlast_last_id distinct_append
        distinct_map imageI list.set_map map_append disjoint_iff list.simps(8,9) list.set_intros(1))
  have sl: "sealed_ok crc ssz ss d"
    using holds_sealed_ok [OF h ok] other by (simp add: sealed_ok_def md)
  obtain r where im: "fdata ?f = seg_image crc (sg_header ?s) (sg_base ?s) (sg_log ?s) r"
    using torn_image [OF ok1 refl] by metis
  show "survives crc ssz ss d"
    using hs sl im by (auto simp: survives_def md healthy_def torn_file_def)
  assume pl: "power_loss d d'"
  have settled: "names_settled d" using h by (simp add: d holds_def)
  have dd: "distinct (map fst (entries d))" using hs by (simp add: has_segs_def)
  note pm = power_loss_map [OF pl dd]
  have rel: "rel_option crash_file (map_of (entries d) n) (map_of (entries d') n)" if "is_seg_name n" for n
    by (rule power_loss_settled [OF pl dd settled that])
  have names: "n \<in> fst ` set (entries d') \<longleftrightarrow> n \<in> fst ` set (entries d)" if "is_seg_name n" for n
    using rel [OF that] unfolding dom_map_of_conv_image_fst [symmetric] domIff by (auto elim: option.rel_cases)
  have "has_segs ss d'" using hs pm(3) names by (simp add: has_segs_def)
  moreover have "sealed_ok crc ssz ss d'"
    unfolding sealed_ok_def
  proof
    fix t assume "t \<in> set (butlast ss)"
    then have "map_of (entries d) (seg_name t) = Some (seg_file crc ssz t)" using sl by (simp add: sealed_ok_def)
    then show "map_of (entries d') (seg_name t) = Some (seg_file crc ssz t)"
      using rel [of "seg_name t"] by (auto simp: crash_seg_file elim: option.rel_cases)
  qed
  moreover obtain g where g: "map_of (entries d') (seg_name ?s) = Some g" "crash_file ?f g"
    using rel [of "seg_name ?s"] by (auto simp: md elim: option.rel_cases)
  moreover have "\<exists>r. fdata g = seg_image crc (sg_header ?s) (sg_base ?s) (sg_log ?s) r"
  proof -
    have wf: "length (sg_header ?s) = 64" using segs_ok_last(1) [OF ok] by (simp add: seg_ok_def seg_wf_def)
    have syn: "fsynced ?f = seg_image crc (sg_header ?s) (sg_base ?s) (sg_log ?s) (zeros (ssz - 64 - frames_size (sg_log ?s)))"
      by (simp add: torn_file_def seg_file_def seg_bytes_def)
    let ?m = "64 + frames_size (sg_log ?s)"
    have a: "?m \<le> length (fsynced ?f)" "take ?m (fsynced ?f) = sg_header ?s @ frames crc (sg_base ?s) (sg_log ?s)"
      using image_prefix [OF wf, of "fsynced ?f" crc] syn by blast+
    have b: "?m \<le> length (fdata ?f)" "take ?m (fdata ?f) = sg_header ?s @ frames crc (sg_base ?s) (sg_log ?s)"
      using image_prefix [OF wf, of "fdata ?f" crc] im by blast+
    have "crash_mix (fsynced ?f) (fdata ?f) (fdata g)" using g(2) by (simp add: crash_file_def)
    from crash_mix_take [OF this a(1) b(1)] a(2) b(2) show ?thesis
      using image_prefix [OF wf, of "fdata g" crc] by metis
  qed
  ultimately show "survives crc ssz ss d'"
    by (auto simp: survives_def healthy_def crash_file_def torn_file_def)
qed

end
