(* ===== verification/Wal_Restart.thy ===== *)
theory Wal_Restart
  imports Wal_Crash Wal_Corruption
begin

text \<open>
  Opening what a crash has left: a directory whose acknowledged log survives, with a torn
  tail or with the file of a roll that did not get through.
\<close>

section \<open>A surviving directory\<close>

lemma recover_survivor:
  assumes wf: "seg_wf ssz mx h n ps" and f: "healthy f" "fdata f = seg_image crc h n ps r"
    and rs: "recover_segment crc f (lsn_of n) True ssz mx [] = (res, f', flts)"
  shows "flts = []" "healthy f'" "\<exists>r'. fdata f' = seg_image crc h n ps r'"
    "case res of Inl e \<Rightarrow> (\<exists>x d. e = TornMidLog (lsn_of n) x \<or> e = Corruption (lsn_of n) x d)
     | Inr seg \<Rightarrow> 64 + frames_size ps \<le> rec_write_offset seg
         \<and> (\<exists>more. parse_run crc (fdata f') ssz mx 64 (Some (lsn_of n)) = (number_from n ps @ more, rec_write_offset seg)
              \<and> max_lsn seg = run_last (lsn_of (n + length ps - 1)) more)"
proof -
  let ?lv = "lsn_of (n + length ps - 1)" and ?m = "64 + frames_size ps"
  have n: "0 < n" "n \<le> u64_max" "length h = 64" "n + length ps \<le> Suc u64_max" using wf by (auto simp: seg_wf_def)
  obtain more x where m: "parse_run crc (fdata f) ssz mx ?m (checked_next ?lv) = (more, x)" by fastforce
  have run: "parse_run crc (fdata f) ssz mx 64 (Some (lsn_of n)) = (number_from n ps @ more, x)"
    using parse_run_image [OF wf, of crc r] m f(2) by simp
  have lv: "run_last (Lsn (lsn_val (lsn_of n) - 1)) (number_from n ps @ more) = run_last ?lv more"
    using n run_last_number_from [of n ps] by (auto simp: run_last_def lsn_pred_of)
  have len: "?m \<le> length (fdata f)" using n(3) f(2) by (simp add: length_seg_image)
  note pe = parse_run_end [OF m]
  let ?s = "settle crc f (lsn_of n) True ssz mx (run_last ?lv more) x"
  have "recover_segment crc f (lsn_of n) True ssz mx [] = (fst ?s, snd ?s, [])"
    using recover_segment_settle [OF f(1) seg_wf_not_none [OF wf] _ run] len lv by (simp add: Let_def)
  then have s: "?s = (res, f')" and "flts = []" using rs by (simp_all add: prod_eq_iff)
  then show "flts = []" by simp
  have f': "f' = f \<or> f' = zeroed f x ssz"
    using s by (auto simp: settle_def Let_def split: scan_outcome.splits option.splits if_splits)
  then show "healthy f'" using f(1) by auto
  have "?m \<le> length (pwrite x (zeros (ssz - x)) (fdata f))"
    using len by (cases "ssz - x = 0") (simp_all add: length_pwrite)
  moreover have "take ?m (pwrite x (zeros (ssz - x)) (fdata f)) = take ?m (fdata f)"
    by (rule take_pwrite) (use pe(1,3) len in auto)
  ultimately show "\<exists>r'. fdata f' = seg_image crc h n ps r'"
    using f' f(2) image_prefix [OF n(3), of "fdata f" crc n ps] image_prefix [OF n(3), of "fdata f'" crc n ps] by auto
  have ssz: "64 \<le> ssz" using wf by (simp add: seg_wf_def)
  have run': "parse_run crc (fdata f') ssz mx 64 (Some (lsn_of n)) = (number_from n ps @ more, x)"
  proof (cases "f' = f")
    case False
    then have f'z: "f' = zeroed f x ssz" using f' by simp
    have nx: "checked_next (lsn_of (n - 1)) = Some (lsn_of n)" using n checked_next_lsn_of [of "n - 1"] by simp
    show ?thesis
      using parse_run_zeroed(1) [OF run [folded nx] ssz] len nx by (simp add: f'z)
  qed (use run in simp)
  show "case res of Inl e \<Rightarrow> (\<exists>x d. e = TornMidLog (lsn_of n) x \<or> e = Corruption (lsn_of n) x d)
     | Inr seg \<Rightarrow> 64 + frames_size ps \<le> rec_write_offset seg
         \<and> (\<exists>more. parse_run crc (fdata f') ssz mx 64 (Some (lsn_of n)) = (number_from n ps @ more, rec_write_offset seg)
              \<and> max_lsn seg = run_last (lsn_of (n + length ps - 1)) more)"
  proof (cases res)
    case (Inl e)
    then show ?thesis
      using s by (auto simp: settle_def Let_def split: scan_outcome.splits option.splits if_splits)
  next
    case (Inr seg)
    from settle_cases(1,2) [OF s [unfolded Inr]] show ?thesis using run' pe(1) Inr by auto
  qed
qed

text \<open>The records of the active file: those of the log, and \<open>extra\<close>.\<close>

definition tail_run :: "(bytes \<Rightarrow> u32) \<Rightarrow> nat \<Rightarrow> nat \<Rightarrow> aseg list \<Rightarrow> (lsn \<times> bytes) list \<Rightarrow> disk \<Rightarrow> bool" where
  "tail_run crc ssz mx ss extra d \<longleftrightarrow>
     (\<exists>f x. map_of (entries d) (seg_name (last ss)) = Some f
        \<and> parse_run crc (fdata f) ssz mx 64 (Some (lsn_of (sg_base (last ss))))
            = (number_from (sg_base (last ss)) (sg_log (last ss)) @ extra, x))"

text \<open>A handle that was opened on a directory with the log \<open>ss\<close>, which it serves.\<close>

definition serves :: "(bytes \<Rightarrow> u32) \<Rightarrow> wal_config \<Rightarrow> 'o \<Rightarrow> aseg list \<Rightarrow> 'o wal \<Rightarrow> recovery_report \<Rightarrow> disk \<Rightarrow> bool" where
  "serves crc cfg ob ss w rep d \<longleftrightarrow>
     survives crc (unat (cfg_segment_size cfg)) ss d \<and> lock_held d \<and> dfaults d = []
     \<and> segments w = map (\<lambda>s. lsn_of (sg_base s)) ss \<and> oldest_lsn w = lsn_of (log_base ss)
     \<and> segment_size w = cfg_segment_size cfg \<and> max_record_size w = cfg_max_record_size cfg
     \<and> observer w = ob \<and> staging w = [] \<and> \<not> poisoned w \<and> last_lsn w = durable_lsn w
     \<and> report_durable_lsn rep = durable_lsn w \<and> report_oldest_lsn rep = oldest_lsn w
     \<and> active w = seg_name (last ss)
     \<and> (durable_lsn w = lsn_of (log_end ss - 1) \<longrightarrow> write_offset w = 64 + frames_size (sg_log (last ss)))
     \<and> (\<exists>more. tail_run crc (unat (cfg_segment_size cfg)) (unat (cfg_max_record_size cfg)) ss more d
          \<and> durable_lsn w = run_last (lsn_of (log_end ss - 1)) more)"

text \<open>The errors with which recovery refuses a directory after a crash.\<close>

fun refuses :: "wal_error \<Rightarrow> bool" where
  "refuses (TornMidLog b x) = True"
| "refuses (Corruption b x r) = True"
| "refuses BadSegmentHeader = True"
| "refuses e = False"

definition reopens ::
    "(bytes \<Rightarrow> u32) \<Rightarrow> wal_config \<Rightarrow> 'o \<Rightarrow> aseg list \<Rightarrow> ('o wal \<times> recovery_report) result \<times> disk \<Rightarrow> bool" where
  "reopens crc cfg ob ss out \<longleftrightarrow>
     (case out of (Inr (w, rep), d) \<Rightarrow> serves crc cfg ob ss w rep d
      | (Inl e, d) \<Rightarrow> refuses e \<and> \<not> lock_held d)"

lemma holds_tail_run:
  assumes "holds crc ssz ss d" "segs_ok crc ssz mx ss"
  shows "tail_run crc ssz mx ss [] d"
proof -
  let ?s = "last ss"
  have wf: "seg_wf ssz mx (sg_header ?s) (sg_base ?s) (sg_log ?s)"
    using segs_ok_last(1) [OF assms(2)] by (simp add: seg_ok_def)
  have "parse_run crc (fdata (seg_file crc ssz ?s)) ssz mx 64 (Some (lsn_of (sg_base ?s)))
      = (number_from (sg_base ?s) (sg_log ?s), 64 + frames_size (sg_log ?s))"
    unfolding seg_file_def disk_file_simps seg_bytes_def
    by (rule parse_run_image_stop [OF wf]) (use scan_image_zeros [OF wf, of crc] in \<open>simp add: seg_bytes_def\<close>)
  then show ?thesis
    using holds_file [OF assms last_in_set [OF segs_ok_last(4) [OF assms(2)]]] by (auto simp: tail_run_def)
qed

lemma survives_same_dir: "survives crc ssz ss d \<Longrightarrow> same_dir d d' \<Longrightarrow> survives crc ssz ss d'"
  by (simp add: survives_def has_segs_def sealed_ok_def same_dir_def dom_map_of_conv_image_fst [symmetric]
      del: map_of_eq_Some_iff)

lemma survives_with_lock: "survives crc ssz ss d \<Longrightarrow> survives crc ssz ss (with_lock d)"
  by (simp add: survives_def has_segs_with_lock sealed_ok_def with_lock_map)

lemma survives_lock_held [simp]: "survives crc ssz ss (d\<lparr>lock_held := b\<rparr>) = survives crc ssz ss d"
  by (simp add: survives_def has_segs_def sealed_ok_def)

lemma butlast_other_name:
  assumes "segs_ok crc ssz mx ss" "t \<in> set (butlast ss)"
  shows "seg_name t \<noteq> seg_name (last ss)"
proof -
  have "distinct (map seg_name (butlast ss @ [last ss]))"
    using seg_names_distinct [OF assms(1)] segs_ok_last(4) [OF assms(1)] by simp
  then show ?thesis using assms(2) by (auto simp: image_iff)
qed

lemma survives_put_last:
  assumes s: "survives crc ssz ss d" and ok: "segs_ok crc ssz mx ss" and f: "healthy f"
    "\<exists>r. fdata f = seg_image crc (sg_header (last ss)) (sg_base (last ss)) (sg_log (last ss)) r"
  shows "survives crc ssz ss (put_file (seg_name (last ss)) f q d)"
proof -
  have "seg_name (last ss) \<in> fst ` set (entries d)"
    using s unfolding survives_def by (metis domI dom_map_of_conv_image_fst)
  then have "fst ` set (entries (put_file (seg_name (last ss)) f q d)) = fst ` set (entries d)"
    unfolding dom_map_of_conv_image_fst [symmetric] by (auto simp: entries_put_file domIff)
  then have "has_segs ss (put_file (seg_name (last ss)) f q d)"
    using s by (simp add: survives_def has_segs_def distinct_put_file)
  moreover have "sealed_ok crc ssz ss (put_file (seg_name (last ss)) f q d)"
    using s butlast_other_name [OF ok] by (simp add: survives_def sealed_ok_def entries_put_file)
  ultimately show ?thesis using f by (auto simp: survives_def entries_put_file)
qed

lemma parse_run_Nil: "parse_run crc data ssz mx off ex = ([], x) \<Longrightarrow> x = off"
  by (subst (asm) parse_run.simps) (auto split: scan_outcome.splits if_splits prod.splits)

lemma survives_reopens:
  assumes cfg: "cfg_ok cfg" "\<not> is_none seed" "dfaults d = []" "\<not> lock_held d"
    and ok: "segs_ok crc (unat (cfg_segment_size cfg)) (unat (cfg_max_record_size cfg)) ss"
    and sv: "survives crc (unat (cfg_segment_size cfg)) ss d"
  shows "reopens crc cfg ob ss (open_seeded crc clock cfg ob seed d)"
proof -
  let ?ssz = "unat (cfg_segment_size cfg)" and ?mx = "unat (cfg_max_record_size cfg)" and ?s = "last ss"
  have sok: "seg_ok crc ?ssz ?mx ?s" by (rule segs_ok_last(1) [OF ok])
  then have wf: "seg_wf ?ssz ?mx (sg_header ?s) (sg_base ?s) (sg_log ?s)" by (simp add: seg_ok_def)
  from sv obtain f r where act: "map_of (entries d) (seg_name ?s) = Some f" and hf: "healthy f"
    and im: "fdata f = seg_image crc (sg_header ?s) (sg_base ?s) (sg_log ?s) r" by (auto simp: survives_def)
  obtain res f' q where rs0: "recover_segment crc f (lsn_of (sg_base ?s)) True ?ssz ?mx [] = (res, f', q)"
    by (cases "recover_segment crc f (lsn_of (sg_base ?s)) True ?ssz ?mx []")
  note rsv = recover_survivor [OF wf hf im rs0]
  note rs = rs0 [unfolded rsv(1)]
  have hd: "headed crc ?s f" using hf im sok wf by (auto simp: headed_def seg_image_def seg_ok_def seg_wf_def)
  have segs: "has_segs ss d" "sealed_ok crc ?ssz ss d" using sv by (simp_all add: survives_def)
  obtain d1 where d1: "same_dir (with_lock d) d1" and op: "open_seeded crc clock cfg ob seed d =
    (case res of Inl e \<Rightarrow> (Inl e, (put_file (seg_name ?s) f' [] d1)\<lparr>lock_held := False\<rparr>)
     | Inr seg \<Rightarrow> (Inr (opened cfg ob ss seg, report_of ss seg), put_file (seg_name ?s) f' [] d1))"
    using open_outcome [OF cfg ok segs act hd rs, of clock ob] by blast
  have sv1: "survives crc ?ssz ss d1" by (rule survives_same_dir [OF survives_with_lock [OF sv] d1])
  have sv2: "survives crc ?ssz ss (put_file (seg_name ?s) f' [] d1)"
    by (rule survives_put_last [OF sv1 ok rsv(2,3)])
  show ?thesis
  proof (cases res)
    case (Inl e)
    then show ?thesis using op rsv(4) by (auto simp: reopens_def)
  next
    case (Inr seg)
    then obtain more where m: "parse_run crc (fdata f') ?ssz ?mx 64 (Some (lsn_of (sg_base ?s)))
        = (number_from (sg_base ?s) (sg_log ?s) @ more, rec_write_offset seg)"
      "max_lsn seg = run_last (lsn_of (log_end ss - 1)) more"
      using rsv(4) by (auto simp: log_end_def seg_end_def)
    have "tail_run crc ?ssz ?mx ss more (put_file (seg_name ?s) f' [] d1)"
      unfolding tail_run_def entries_put_file using m(1) by auto
    moreover have "rec_write_offset seg = 64 + frames_size (sg_log ?s)" if "max_lsn seg = lsn_of (log_end ss - 1)"
    proof -
      obtain r' where "fdata f' = seg_image crc (sg_header ?s) (sg_base ?s) (sg_log ?s) r'" using rsv(3) by blast
      then have "parse_run crc (fdata f') ?ssz ?mx (64 + frames_size (sg_log ?s)) (checked_next (lsn_of (log_end ss - 1)))
          = (more, rec_write_offset seg)"
        using m(1) parse_run_image [OF wf, of crc r'] by (auto simp: log_end_def seg_end_def split: prod.splits)
      from this parse_run_end(5) [OF this] m(2) that show ?thesis
        by (cases "parse_run crc (fdata f') ?ssz ?mx (64 + frames_size (sg_log ?s)) (checked_next (lsn_of (log_end ss - 1)))")
          (auto dest: parse_run_Nil)
    qed
    ultimately show ?thesis
      using op Inr sv2 d1 m(2)
      by (auto simp: reopens_def serves_def opened_def report_of_def same_dir_def)
  qed
qed

section \<open>The file of an interrupted roll\<close>

text \<open>The log \<open>ss\<close> as written, and beside it what became of the file for base \<open>b\<close>.\<close>

definition stub :: "(bytes \<Rightarrow> u32) \<Rightarrow> (lsn \<Rightarrow> u64) \<Rightarrow> nat \<Rightarrow> aseg list \<Rightarrow> nat \<Rightarrow> bytes \<Rightarrow> disk \<Rightarrow> bool" where
  "stub crc clock ssz ss b bs d \<longleftrightarrow> distinct (map fst (entries d))
     \<and> (\<forall>n. is_seg_name n \<longrightarrow> n \<noteq> filename_for (lsn_of b) \<longrightarrow> map_of (entries d) n = map_of (seg_map crc ssz ss) n)
     \<and> (\<exists>g. map_of (entries d) (filename_for (lsn_of b)) = Some g \<and> healthy g \<and> fdata g = bs)
     \<and> partial_segment crc (clock (lsn_of b)) (lsn_of b) ssz bs"

lemma partial_segment_fresh: "64 \<le> ssz \<Longrightarrow> partial_segment crc c b ssz (fresh_segment crc c b ssz)"
  by (simp add: partial_segment_def fresh_segment_def)

lemma partial_segment_mix:
  assumes "partial_segment crc c b ssz bs" "crash_mix [] bs bs'"
  shows "partial_segment crc c b ssz bs'"
proof -
  have "bs' ! i = 0 \<or> bs' ! i = fresh_segment crc c b ssz ! i" if i: "i < length bs'" for i
  proof -
    have "i < length bs" "bs' ! i = 0 \<or> bs' ! i = bs ! i"
      using assms(2) i by (auto simp: crash_mix_def byte_at_def)
    then show ?thesis using assms(1) by (auto simp: partial_segment_def)
  qed
  then show ?thesis using assms by (auto simp: partial_segment_def crash_mix_def)
qed

lemma partial_segment_zero_tail:
  "partial_segment crc c b ssz bs \<Longrightarrow> 64 \<le> i \<Longrightarrow> i < length bs \<Longrightarrow> bs ! i = 0"
  by (auto simp: partial_segment_def fresh_segment_def nth_append)

lemma rolling_cases:
  assumes "rolling crc clock ssz ss b d" "64 \<le> ssz"
  obtains "holds crc ssz ss d"
  | es g pn where "entries d = es @ [(filename_for (lsn_of b), g)]" "pending d = pn @ [Linked (filename_for (lsn_of b))]"
      "distinct (map fst (entries d))" "list_all (\<lambda>x. \<not> is_seg_name (dirop_name x)) pn"
      "\<And>n. is_seg_name n \<Longrightarrow> map_of es n = map_of (seg_map crc ssz ss) n"
      "map_of (seg_map crc ssz ss) (filename_for (lsn_of b)) = None"
      "fbad g = []" "fsynced g = [] \<or> fsynced g = fdata g"
      "partial_segment crc (clock (lsn_of b)) (lsn_of b) ssz (fdata g)"
proof (cases "holds crc ssz ss d")
  case False
  let ?n = "filename_for (lsn_of b)"
  from assms(1) False obtain es g pn where e: "entries d = es @ [(?n, g)]" and p: "pending d = pn @ [Linked ?n]"
    and h: "holds crc ssz ss (d\<lparr>entries := es, pending := pn\<rparr>)" and nin: "?n \<notin> fst ` set es" and bad: "fbad g = []"
    and g: "fsynced g = [] \<and> partial_segment crc (clock (lsn_of b)) (lsn_of b) ssz (fdata g)
        \<or> g = seg_file crc ssz (new_seg crc clock b)"
    by (auto simp: rolling_def)
  have "map_of es ?n = map_of (seg_map crc ssz ss) ?n" using h by (simp add: holds_def)
  then have "map_of (seg_map crc ssz ss) ?n = None" using nin by (metis map_of_eq_None_iff)
  moreover have "fsynced g = [] \<or> fsynced g = fdata g" "partial_segment crc (clock (lsn_of b)) (lsn_of b) ssz (fdata g)"
    using g partial_segment_fresh [OF assms(2)] by (auto simp: seg_file_new_seg)
  ultimately show ?thesis
    using h nin by (intro that(2) [OF e p _ _ _ _ bad]) (simp_all add: e holds_def names_settled_def)
qed (rule that(1))

lemma rolling_stub:
  assumes "entries d = es @ [(filename_for (lsn_of b), g)]" "distinct (map fst (entries d))"
    "\<And>n. is_seg_name n \<Longrightarrow> map_of es n = map_of (seg_map crc ssz ss) n" "fbad g = []"
    "partial_segment crc (clock (lsn_of b)) (lsn_of b) ssz (fdata g)"
  shows "stub crc clock ssz ss b (fdata g) d"
proof -
  have "map_of (entries d) = (map_of es)(filename_for (lsn_of b) \<mapsto> g)"
    using map_of_snoc [of "filename_for (lsn_of b)" es g] assms(1,2) by auto
  then show ?thesis using assms by (simp add: stub_def healthy_def)
qed

text \<open>Whether the process or the machine stops: the log stands, alone or with a stub.\<close>

lemma rolling_power_loss:
  assumes r: "rolling crc clock ssz ss b d" and a: "64 \<le> ssz"
    and pl: "power_loss d d'"
  shows "holds crc ssz ss d' \<or> (\<exists>bs. stub crc clock ssz ss b bs d')"
  using r a
proof (cases rule: rolling_cases)
  case 1
  then show ?thesis using holds_power_loss pl by blast
next
  case (2 es g pn)
  let ?n = "filename_for (lsn_of b)"
  note pm = power_loss_map [OF pl 2(3)]
  have nin: "?n \<notin> fst ` set es" using 2(1,3) by auto
  have md: "map_of (entries d) = (map_of es)(?n \<mapsto> g)" using map_of_snoc [OF nin, of g] by (simp add: 2(1))
  from pm(4) obtain k where k: "k \<le> length (pending d)"
    and rel: "\<And>n. rel_option crash_file (foldr undo_map (drop k (pending d)) (map_of (entries d)) n) (map_of (entries d') n)"
    by blast
  have other: "map_of (entries d') n = map_of (seg_map crc ssz ss) n" if n: "is_seg_name n" "n \<noteq> ?n" for n
  proof -
    have "\<forall>x \<in> set (drop k (pending d)). \<not> is_seg_name (dirop_name x) \<or> dirop_name x = ?n"
      using 2(2,4) by (auto simp: list_all_iff dest: in_set_dropD)
    then have "n \<notin> dirop_name ` set (drop k (pending d))" using n by auto
    then have "foldr undo_map (drop k (pending d)) (map_of (entries d)) n = map_of (seg_map crc ssz ss) n"
      using 2(5) [OF n(1)] n(2) by (simp add: foldr_undo_other md)
    then show ?thesis using crash_seg_map rel [of n] by metis
  qed
  show ?thesis
  proof (cases "k = length (pending d)")
    case True
    then obtain g' where g': "map_of (entries d') ?n = Some g'" "crash_file g g'"
      using rel [of ?n] by (auto simp: md elim: option.rel_cases)
    have "partial_segment crc (clock (lsn_of b)) (lsn_of b) ssz (fdata g')"
      using 2(8)
    proof
      assume "fsynced g = []"
      then show ?thesis using g'(2) 2(9) partial_segment_mix by (auto simp: crash_file_def)
    qed (use g'(2) 2(9) crash_file_synced [of g g'] in auto)
    then show ?thesis
      using other g' 2(7) pm(3) by (auto simp: stub_def healthy_def crash_file_def)
  next
    case False
    then have "drop k (pending d) = drop k pn @ [Linked ?n]" using k 2(2) by simp
    moreover have "?n \<notin> dirop_name ` set (drop k pn)"
      using 2(4) by (auto simp: list_all_iff dest!: in_set_dropD) (metis is_seg_name_simps(1))
    ultimately have "foldr undo_map (drop k (pending d)) (map_of (entries d)) ?n = None"
      by (simp add: foldr_undo_other)
    then have "map_of (entries d') ?n = None" using rel [of ?n] by (auto elim: option.rel_cases)
    then have "holds crc ssz ss d'"
      using other 2(6) pm(1,3) by (auto simp: holds_def names_settled_def) metis
    then show ?thesis ..
  qed
qed

section \<open>Opening beside a stub\<close>

definition stub_seg :: "nat \<Rightarrow> bytes \<Rightarrow> aseg" where
  "stub_seg b bs = \<lparr>sg_base = b, sg_header = take 64 bs, sg_log = []\<rparr>"

lemma stub_seg_simps [simp]:
  "sg_base (stub_seg b bs) = b" "sg_log (stub_seg b bs) = []" "seg_end (stub_seg b bs) = b"
  "sg_header (stub_seg b bs) = take 64 bs" "seg_name (stub_seg b bs) = filename_for (lsn_of b)"
  by (simp_all add: stub_seg_def seg_end_def seg_name_def)

lemma stub_file: "stub crc clock ssz ss b bs d \<Longrightarrow>
    \<exists>g. map_of (entries d) (filename_for (lsn_of b)) = Some g \<and> healthy g \<and> fdata g = bs"
  unfolding stub_def by blast

lemma stub_with_lock: "stub crc clock ssz ss b bs d \<Longrightarrow> stub crc clock ssz ss b bs (with_lock d)"
  by (simp add: stub_def with_lock_map with_lock_distinct del: map_of_eq_Some_iff)

lemma stub_has_segs:
  assumes "stub crc clock ssz ss b bs d"
  shows "has_segs (ss @ [stub_seg b bs]) d"
proof -
  have "n \<in> fst ` set (entries d) \<longleftrightarrow> n \<in> seg_name ` set (ss @ [stub_seg b bs])" if n: "is_seg_name n" for n
  proof (cases "n = filename_for (lsn_of b)")
    case True
    then show ?thesis
      using stub_file [OF assms] unfolding dom_map_of_conv_image_fst [symmetric] by auto
  next
    case False
    then have "map_of (entries d) n = map_of (seg_map crc ssz ss) n" using assms n by (simp add: stub_def)
    then have "n \<in> dom (map_of (entries d)) \<longleftrightarrow> n \<in> dom (map_of (seg_map crc ssz ss))" by (simp add: domIff)
    then show ?thesis using False by (simp add: dom_map_of_conv_image_fst seg_map_def image_image)
  qed
  then show ?thesis using assms by (simp add: has_segs_def stub_def)
qed

lemma log_end_fresh:
  assumes "segs_ok crc ssz mx ss" "sg_log (last ss) \<noteq> []" "s \<in> set ss"
  shows "sg_base s < log_end ss"
proof -
  have ss: "ss = butlast ss @ [last ss]" using segs_ok_last(4) [OF assms(1)] by simp
  show ?thesis
    using chain_end_greater [of "butlast ss" "last ss" s] assms ss by (simp add: segs_ok_def log_end_def)
qed

lemma stub_bounded:
  assumes "segs_ok crc ssz mx ss" "sg_log (last ss) \<noteq> []" "log_end ss \<le> u64_max"
  shows "bounded (ss @ [stub_seg (log_end ss) bs])"
  using segs_ok_bounded [OF assms(1)] log_end_fresh [OF assms(1,2)] assms(3)
  by (auto simp: bounded_def sorted_wrt_append)

lemma stub_sealed:
  assumes st: "stub crc clock ssz ss (log_end ss) bs d" and ok: "segs_ok crc ssz mx ss" "sg_log (last ss) \<noteq> []" "log_end ss \<le> u64_max"
    and s: "s \<in> set ss"
  shows "map_of (entries d) (seg_name s) = Some (seg_file crc ssz s)"
proof -
  have "seg_name s \<noteq> filename_for (lsn_of (log_end ss))"
    using log_end_fresh [OF ok(1,2) s] segs_ok_bound [OF ok(1) s] ok(3) by (simp add: seg_name_def lsn_of_inject)
  then have "map_of (entries d) (seg_name s) = map_of (seg_map crc ssz ss) (seg_name s)"
    using st by (simp add: stub_def)
  moreover have "(seg_name s, seg_file crc ssz s) \<in> set (seg_map crc ssz ss)"
    using s by (auto simp: seg_map_def)
  then have "map_of (seg_map crc ssz ss) (seg_name s) = Some (seg_file crc ssz s)"
    by (rule map_of_is_SomeI [OF segs_ok_distinct [OF ok(1)]])
  ultimately show ?thesis by simp
qed

text \<open>A stub whose header is complete is an empty segment.\<close>

lemma stub_survives:
  assumes st: "stub crc clock ssz ss (log_end ss) bs d" and ok: "segs_ok crc ssz mx ss" "sg_log (last ss) \<noteq> []" "log_end ss \<le> u64_max"
    and len: "64 \<le> length bs" and hd: "decode_header crc (take 64 bs) = Inr \<lparr>base_lsn = lsn_of (log_end ss)\<rparr>"
  shows "segs_ok crc ssz mx (ss @ [stub_seg (log_end ss) bs])" "survives crc ssz (ss @ [stub_seg (log_end ss) bs]) d"
proof -
  let ?s = "stub_seg (log_end ss) bs"
  have sne: "ss \<noteq> []" and pos: "0 < log_end ss" using segs_ok_last [OF ok(1)] by auto
  have "seg_wf ssz mx (sg_header (last ss)) (sg_base (last ss)) (sg_log (last ss))"
    using segs_ok_last(1) [OF ok(1)] by (simp add: seg_ok_def)
  then have "seg_wf ssz mx (take 64 bs) (log_end ss) []" using len pos ok(3) by (auto simp: seg_wf_def)
  then have "seg_ok crc ssz mx ?s" using hd by (simp add: seg_ok_def)
  moreover have "chain (ss @ [?s])"
  proof -
    have "chain (butlast ss @ [last ss, ?s])"
      using ok(1,2) sne chain_snoc [of "butlast ss" "last ss" ?s] by (simp add: segs_ok_def log_end_def)
    moreover have "butlast ss @ [last ss, ?s] = ss @ [?s]" using append_butlast_last_id [OF sne] by simp
    ultimately show ?thesis by simp
  qed
  ultimately show "segs_ok crc ssz mx (ss @ [?s])" using ok(1) by (simp add: segs_ok_def)
  have "sealed_ok crc ssz (ss @ [?s]) d" using stub_sealed [OF st ok] by (simp add: sealed_ok_def)
  moreover obtain g where "map_of (entries d) (filename_for (lsn_of (log_end ss))) = Some g" "healthy g" "fdata g = bs"
    using stub_file [OF st] by blast
  moreover have "bs = seg_image crc (take 64 bs) (log_end ss) [] (drop 64 bs)" by (simp add: seg_image_def)
  ultimately show "survives crc ssz (ss @ [?s]) d"
    using stub_has_segs [OF st] by (auto simp: survives_def)
qed

text \<open>The header check tells the three kinds of stub apart.\<close>

definition stub_complete :: "(bytes \<Rightarrow> u32) \<Rightarrow> nat \<Rightarrow> bytes \<Rightarrow> bool" where
  "stub_complete crc b bs \<longleftrightarrow> 64 \<le> length bs \<and> decode_header crc (take 64 bs) = Inr \<lparr>base_lsn = lsn_of b\<rparr>"

lemma highest_stub:
  assumes "healthy g" "partial_segment crc c b' ssz (fdata g)"
  shows "highest_is_complete crc cfg (lsn_of b) g [] =
    (if stub_complete crc b (fdata g) then Inr True
     else if 0 < length (fdata g) \<and> length (fdata g) < 64 then Inl BadSegmentHeader else Inr False, [])"
proof (cases "length (fdata g) < 64")
  case True
  then have "read_exact_at g 0 64 = Inl UnexpectedEof"
    using assms(1) by (simp add: read_exact_at_def)
  then show ?thesis using True by (simp add: highest_is_complete_def metadata_len_def stub_complete_def)
next
  case False
  have rd: "read_exact_at g 0 64 = Inr (take 64 (fdata g))"
    using assms(1) False by (simp add: read_exact_at_def window_def)
  obtain buf where rr: "read_record_at crc g 64 (unat (cfg_segment_size cfg)) (unat (cfg_max_record_size cfg))
      = Inr (scan_bytes crc (fdata g) 64 (unat (cfg_segment_size cfg)) (unat (cfg_max_record_size cfg)), buf)"
    using read_record_at_healthy [OF assms(1)] by blast
  have "scan_bytes crc (fdata g) 64 (unat (cfg_segment_size cfg)) (unat (cfg_max_record_size cfg)) \<noteq> ScanRecord l k n" for l k n
    using scan_record_type_byte partial_segment_zero_tail [OF assms(2)] by fastforce
  then show ?thesis
    using rd rr False
    by (auto simp: highest_is_complete_def stub_complete_def split: sum.splits scan_outcome.splits)
qed

lemma recover_all_holds:
  assumes ok: "segs_ok crc (unat (cfg_segment_size cfg)) (unat (cfg_max_record_size cfg)) ss"
    and h: "holds crc (unat (cfg_segment_size cfg)) ss d" and nf: "dfaults d = []"
  shows "\<exists>d'. recover_all crc (base_words ss) cfg d = (Inr (as_recovered ss
      \<lparr>max_lsn = lsn_of (log_end ss - 1), rec_write_offset = 64 + frames_size (sg_log (last ss)), rec_tail_state = Clean\<rparr>), d')
    \<and> holds crc (unat (cfg_segment_size cfg)) ss d' \<and> lock_held d' = lock_held d \<and> dfaults d' = []"
proof -
  let ?ssz = "unat (cfg_segment_size cfg)" and ?mx = "unat (cfg_max_record_size cfg)" and ?s = "last ss"
  let ?f = "seg_file crc ?ssz ?s"
  have sok: "seg_ok crc ?ssz ?mx ?s" and sne: "ss \<noteq> []" using segs_ok_last [OF ok] by auto
  then have wf: "seg_wf ?ssz ?mx (sg_header ?s) (sg_base ?s) (sg_log ?s)" by (simp add: seg_ok_def)
  have f: "map_of (entries d) (seg_name ?s) = Some ?f" by (rule holds_file [OF h ok last_in_set [OF sne]])
  have rs: "recover_segment crc ?f (lsn_of (sg_base ?s)) True ?ssz ?mx [] = (Inr \<lparr>max_lsn = lsn_of (log_end ss - 1),
      rec_write_offset = 64 + frames_size (sg_log ?s), rec_tail_state = Clean\<rparr>, ?f, [])"
    using recover_segment_clean [OF wf, of ?f crc True] by (simp add: seg_file_def log_end_def seg_end_def)
  from recover_all_outcome [OF ok nf holds_sealed_ok [OF h ok] f headed_seg_file [OF sok] rs]
  obtain d1 where d1: "same_dir d d1" "recover_all crc (base_words ss) cfg d = (Inr (as_recovered ss
      \<lparr>max_lsn = lsn_of (log_end ss - 1), rec_write_offset = 64 + frames_size (sg_log ?s), rec_tail_state = Clean\<rparr>),
      put_file (seg_name ?s) ?f [] d1)" by auto
  have f1: "map_of (entries d1) (seg_name ?s) = Some ?f" "dfaults d1 = []" using d1(1) f nf by (simp_all add: same_dir_def)
  note sd = same_dir_trans [OF d1(1) put_same_file [OF f1]]
  show ?thesis using d1(2) holds_same_dir [OF h sd] sd nf by (auto simp: same_dir_def)
qed

text \<open>Exactly the log \<open>ss\<close>, opened.\<close>

definition restored ::
    "(bytes \<Rightarrow> u32) \<Rightarrow> wal_config \<Rightarrow> 'o \<Rightarrow> aseg list \<Rightarrow> ('o wal \<times> recovery_report) result \<times> disk \<Rightarrow> bool" where
  "restored crc cfg ob ss out \<longleftrightarrow> (\<exists>w d.
     out = (Inr (w, \<lparr>report_oldest_lsn = lsn_of (log_base ss), report_durable_lsn = lsn_of (log_end ss - 1),
                     report_tail_state = Clean, report_segments_scanned = length ss\<rparr>), d)
     \<and> wal_inv crc w ss [] \<and> holds crc (unat (cfg_segment_size cfg)) ss d \<and> lock_held d \<and> dfaults d = []
     \<and> segment_size w = cfg_segment_size cfg \<and> max_record_size w = cfg_max_record_size cfg \<and> observer w = ob)"

lemma discard_stub:
  assumes st: "stub crc clock (unat (cfg_segment_size cfg)) ss (log_end ss) bs d" and nf: "dfaults d = []"
    and ok: "segs_ok crc (unat (cfg_segment_size cfg)) mx ss" "sg_log (last ss) \<noteq> []" "log_end ss \<le> u64_max"
    and bs: "\<not> stub_complete crc (log_end ss) bs" "bs = [] \<or> 64 \<le> length bs"
  shows "\<exists>d'. discard_incomplete_highest crc (base_words (ss @ [stub_seg (log_end ss) bs])) cfg d = (Inr (base_words ss), d')
    \<and> holds crc (unat (cfg_segment_size cfg)) ss d' \<and> lock_held d' = lock_held d \<and> dfaults d' = []"
proof -
  let ?n = "filename_for (lsn_of (log_end ss))" and ?ssz = "unat (cfg_segment_size cfg)"
  obtain g where g: "map_of (entries d) ?n = Some g" "healthy g" "fdata g = bs" using stub_file [OF st] by blast
  have part: "partial_segment crc (clock (lsn_of (log_end ss))) (lsn_of (log_end ss)) ?ssz (fdata g)"
    using st g(3) by (simp add: stub_def)
  have high: "highest_is_complete crc cfg (lsn_of (log_end ss)) g [] = (Inr False, [])"
    using highest_stub [OF g(2) part, of cfg "log_end ss"] bs by (auto simp: g(3))
  define d1 where "d1 = d\<lparr>entries := AList.delete ?n (entries d), pending := pending d @ [Unlinked ?n g]\<rparr>"
  define d2 where "d2 = d1\<lparr>pending := [], dfaults := []\<rparr>"
  have rm: "remove_file ?n d = (Inr (), d1)" using g(1) nf by (cases d) (simp add: remove_file_def d1_def)
  have fs: "fsync_dir d1 = (Inr (), d2)" using nf fsync_dir_no_faults [of d1] by (simp add: d1_def d2_def)
  have self: "d\<lparr>dfaults := []\<rparr> = d" using nf by (cases d) simp
  have rm': "remove_file ?n (d\<lparr>dfaults := []\<rparr>) = (Inr (), d1)" unfolding self by (rule rm)
  have wl: "Lsn (word_of_nat (log_end ss)) = lsn_of (log_end ss)" by (simp add: lsn_of_def)
  have "discard_incomplete_highest crc (base_words (ss @ [stub_seg (log_end ss) bs])) cfg d = (Inr (base_words ss), d2)"
    using open_file_no_faults [OF nf g(1)] high rm' fs nf
    by (simp add: discard_incomplete_highest_def Let_def base_words_def wl)
  moreover have "holds crc ?ssz ss d2"
  proof -
    have "map_of (seg_map crc ?ssz ss) ?n = None"
      using log_end_fresh [OF ok(1,2)] segs_ok_bound [OF ok(1)] ok(3)
      by (fastforce simp: seg_map_def seg_name_def lsn_of_inject map_of_eq_None_iff)
    then show ?thesis
      using st by (auto simp: holds_def names_settled_def d2_def d1_def delete_conv' distinct_delete stub_def)
  qed
  ultimately show ?thesis by (auto simp: d2_def d1_def)
qed

lemma stub_discarded:
  assumes cfg: "cfg_ok cfg" "\<not> is_none seed" "dfaults d = []" "\<not> lock_held d"
    and ok: "segs_ok crc (unat (cfg_segment_size cfg)) (unat (cfg_max_record_size cfg)) ss"
      "sg_log (last ss) \<noteq> []" "log_end ss \<le> u64_max"
    and st: "stub crc clk (unat (cfg_segment_size cfg)) ss (log_end ss) bs d"
    and bs: "\<not> stub_complete crc (log_end ss) bs" "bs = [] \<or> 64 \<le> length bs"
  shows "restored crc cfg ob ss (open_seeded crc clock cfg ob seed d)"
proof -
  let ?d = "with_lock d" and ?ssz = "unat (cfg_segment_size cfg)"
  let ?seg = "\<lparr>max_lsn = lsn_of (log_end ss - 1), rec_write_offset = 64 + frames_size (sg_log (last ss)), rec_tail_state = Clean\<rparr>"
  have nf: "dfaults ?d = []" using cfg(3) by simp
  note st' = stub_with_lock [OF st]
  note disc = discover_no_faults [OF nf stub_has_segs [OF st'] stub_bounded [OF ok]]
  obtain d2 where d2: "discard_incomplete_highest crc (base_words (ss @ [stub_seg (log_end ss) bs])) cfg ?d = (Inr (base_words ss), d2)"
    "holds crc ?ssz ss d2" "lock_held d2" "dfaults d2 = []"
    using discard_stub [OF st' nf ok bs] by auto
  obtain d3 where d3: "recover_all crc (base_words ss) cfg d2 = (Inr (as_recovered ss ?seg), d3)"
    "holds crc ?ssz ss d3" "lock_held d3" "dfaults d3 = []"
    using recover_all_holds [OF ok(1) d2(2,4)] d2(3) by auto
  have ne: "base_words ss \<noteq> []" using segs_ok_last(4) [OF ok(1)] by (simp add: base_words_def)
  have "open_locked crc clock cfg ob seed ?d = (Inr (opened cfg ob ss ?seg, report_of ss ?seg), d3)"
    using disc d2(1) d3(1) ne by (simp add: open_locked_def as_recovered_def opened_def report_of_def)
  then have "open_seeded crc clock cfg ob seed d = (Inr (opened cfg ob ss ?seg, report_of ss ?seg), d3)"
    using open_seeded_no_faults [OF cfg, of crc clock ob] by simp
  moreover have "wal_inv crc (opened cfg ob ss ?seg) ss []"
    using ok(1) cfg(1) segs_ok_last(3) [OF ok(1)]
    by (simp add: wal_inv_def wal_core_def wal_staged_def opened_def cfg_ok_def)
  ultimately show ?thesis using d3 by (simp add: restored_def report_of_def opened_def)
qed

lemma stub_refused:
  assumes cfg: "cfg_ok cfg" "\<not> is_none seed" "dfaults d = []" "\<not> lock_held d"
    and ok: "segs_ok crc (unat (cfg_segment_size cfg)) (unat (cfg_max_record_size cfg)) ss"
      "sg_log (last ss) \<noteq> []" "log_end ss \<le> u64_max"
    and st: "stub crc clk (unat (cfg_segment_size cfg)) ss (log_end ss) bs d"
    and bs: "bs \<noteq> []" "length bs < 64"
  shows "\<exists>d'. open_seeded crc clock cfg ob seed d = (Inl BadSegmentHeader, d') \<and> \<not> lock_held d'"
proof -
  let ?d = "with_lock d"
  have nf: "dfaults ?d = []" using cfg(3) by simp
  note st' = stub_with_lock [OF st]
  note disc = discover_no_faults [OF nf stub_has_segs [OF st'] stub_bounded [OF ok]]
  obtain g where g: "map_of (entries ?d) (filename_for (lsn_of (log_end ss))) = Some g" "healthy g" "fdata g = bs"
    using stub_file [OF st'] by blast
  have "partial_segment crc (clk (lsn_of (log_end ss))) (lsn_of (log_end ss)) (unat (cfg_segment_size cfg)) (fdata g)"
    using st g(3) by (simp add: stub_def)
  then have "highest_is_complete crc cfg (lsn_of (log_end ss)) g [] = (Inl BadSegmentHeader, [])"
    using highest_stub [OF g(2)] bs by (auto simp: g(3) stub_complete_def)
  moreover have "Lsn (word_of_nat (log_end ss)) = lsn_of (log_end ss)" by (simp add: lsn_of_def)
  ultimately have "\<exists>d2. discard_incomplete_highest crc (base_words (ss @ [stub_seg (log_end ss) bs])) cfg ?d = (Inl BadSegmentHeader, d2)"
    using open_file_no_faults [OF nf g(1)] nf by (simp add: discard_incomplete_highest_def Let_def base_words_def)
  then have "\<exists>d2. open_locked crc clock cfg ob seed ?d = (Inl BadSegmentHeader, d2)"
    using disc by (auto simp: open_locked_def)
  then show ?thesis using open_seeded_no_faults [OF cfg, of crc clock ob] by auto
qed

lemma restored_reopens:
  assumes "restored crc cfg ob ss out"
    "segs_ok crc (unat (cfg_segment_size cfg)) (unat (cfg_max_record_size cfg)) ss"
  shows "reopens crc cfg ob ss out"
proof -
  from assms(1) obtain w d where o: "out = (Inr (w, \<lparr>report_oldest_lsn = lsn_of (log_base ss),
      report_durable_lsn = lsn_of (log_end ss - 1), report_tail_state = Clean, report_segments_scanned = length ss\<rparr>), d)"
    "wal_inv crc w ss []" "holds crc (unat (cfg_segment_size cfg)) ss d" "lock_held d" "dfaults d = []"
    "segment_size w = cfg_segment_size cfg" "max_record_size w = cfg_max_record_size cfg" "observer w = ob"
    by (auto simp: restored_def)
  then show ?thesis
    using holds_survives [OF o(3) assms(2)] holds_tail_run [OF o(3) assms(2)]
    by (auto simp: reopens_def serves_def wal_inv_def wal_core_def wal_staged_def intro!: exI [of _ "[]"])
qed

section \<open>After a crash\<close>

text \<open>The process stops and its lock is released, or the machine stops.\<close>

definition crash :: "disk \<Rightarrow> disk \<Rightarrow> bool" where
  "crash d d' \<longleftrightarrow> power_loss d d' \<or> entries d' = entries d \<and> pending d' = pending d \<and> \<not> lock_held d'"

lemma holds_crash: "holds crc ssz ss d \<Longrightarrow> crash d d' \<Longrightarrow> holds crc ssz ss d'"
  by (auto simp: crash_def holds_power_loss) (simp add: holds_def names_settled_def)

lemma rolling_entries: "rolling crc clock ssz ss b d \<Longrightarrow> entries d' = entries d \<Longrightarrow> pending d' = pending d \<Longrightarrow>
    rolling crc clock ssz ss b d'"
  by (simp add: rolling_def holds_def names_settled_def)

lemma rolling_crash:
  assumes "rolling crc clock ssz ss b d" "64 \<le> ssz" "crash d d'"
  shows "holds crc ssz ss d' \<or> (\<exists>bs. stub crc clock ssz ss b bs d')"
proof (cases "power_loss d d'")
  case False
  then have "rolling crc clock ssz ss b d'" using assms rolling_entries by (auto simp: crash_def)
  from this assms(2) show ?thesis
    by (cases rule: rolling_cases) (use rolling_stub in blast)+
qed (use rolling_power_loss [OF assms(1,2)] in blast)

lemma survives_entries: "survives crc ssz ss d \<Longrightarrow> entries d' = entries d \<Longrightarrow> survives crc ssz ss d'"
  by (simp add: survives_def has_segs_def sealed_ok_def del: map_of_eq_Some_iff)

lemma interrupted_crash:
  assumes "interrupted crc clock ssz mx ss todo d" "segs_ok crc ssz mx ss" "64 \<le> ssz" "crash d d'"
  shows "survives crc ssz ss d'
    \<or> sg_log (last ss) \<noteq> [] \<and> log_end ss \<le> u64_max \<and> (\<exists>bs. stub crc clock ssz ss (log_end ss) bs d')"
proof (cases "torn crc ssz mx ss todo d")
  case True
  then show ?thesis
    using torn_survives [OF True assms(2)] assms(4) survives_entries by (auto simp: crash_def)
next
  case False
  then have *: "sg_log (last ss) \<noteq> []" "log_end ss \<le> u64_max" "rolling crc clock ssz ss (log_end ss) d"
    using assms(1) by (auto simp: interrupted_def)
  from rolling_crash [OF *(3) assms(3,4)] show ?thesis using * holds_survives assms(2) by blast
qed

text \<open>The log with possibly one more segment, without records.\<close>

definition same_log :: "aseg list \<Rightarrow> aseg list \<Rightarrow> bool" where
  "same_log ss ss' \<longleftrightarrow> log_of ss' = log_of ss \<and> log_base ss' = log_base ss \<and> log_end ss' = log_end ss"

lemma same_log_stub: "ss \<noteq> [] \<Longrightarrow> same_log ss (ss @ [stub_seg (log_end ss) bs])"
  by (cases ss) (simp_all add: same_log_def log_of_def log_base_def log_end_def)

lemma interrupted_reopens:
  assumes cfg: "cfg_ok cfg" "\<not> is_none seed" "dfaults d' = []"
    and ok: "segs_ok crc (unat (cfg_segment_size cfg)) (unat (cfg_max_record_size cfg)) ss"
    and i: "interrupted crc clock (unat (cfg_segment_size cfg)) (unat (cfg_max_record_size cfg)) ss todo d" "crash d d'"
  shows "\<exists>ss'. same_log ss ss' \<and> segs_ok crc (unat (cfg_segment_size cfg)) (unat (cfg_max_record_size cfg)) ss'
    \<and> reopens crc cfg ob ss' (open_seeded crc clk cfg ob seed d')"
proof -
  let ?ssz = "unat (cfg_segment_size cfg)" and ?mx = "unat (cfg_max_record_size cfg)"
  have lk: "\<not> lock_held d'" using i(2) by (auto simp: crash_def power_loss_def)
  have sz: "64 \<le> ?ssz" using cfg(1) by (simp add: cfg_ok_def)
  have sne: "ss \<noteq> []" by (rule segs_ok_last(4) [OF ok])
  have refl: "same_log ss ss" by (simp add: same_log_def)
  show ?thesis
  proof (cases "survives crc ?ssz ss d'")
    case True
    then show ?thesis by (intro exI [of _ ss] conjI refl ok survives_reopens [OF cfg lk ok True])
  next
    case False
    then obtain bs where l: "sg_log (last ss) \<noteq> []" "log_end ss \<le> u64_max" and st: "stub crc clock ?ssz ss (log_end ss) bs d'"
      using interrupted_crash [OF i(1) ok sz i(2)] by blast
    show ?thesis
    proof (cases "stub_complete crc (log_end ss) bs")
      case True
      note sv = stub_survives [OF st ok l]
      have c: "64 \<le> length bs" "decode_header crc (take 64 bs) = Inr \<lparr>base_lsn = lsn_of (log_end ss)\<rparr>"
        using True by (simp_all add: stub_complete_def)
      show ?thesis
        by (intro exI [of _ "ss @ [stub_seg (log_end ss) bs]"] conjI same_log_stub [OF sne] sv(1) [OF c]
            survives_reopens [OF cfg lk sv [OF c]])
    next
      case False
      show ?thesis
      proof (cases "bs = [] \<or> 64 \<le> length bs")
        case True
        show ?thesis
          by (intro exI [of _ ss] conjI refl ok restored_reopens stub_discarded [OF cfg lk ok l st False True])
      next
        case len: False
        then have "reopens crc cfg ob ss (open_seeded crc clk cfg ob seed d')"
          using stub_refused [OF cfg lk ok l st, of clk ob] by (auto simp: reopens_def)
        then show ?thesis by (intro exI [of _ ss] conjI refl ok)
      qed
    qed
  qed
qed

section \<open>A crash during a checkpoint\<close>

lemma undo_unlinks:
  "distinct (map seg_name xs) \<Longrightarrow> foldr undo_map (unlinks crc ssz xs) m n
     = (case map_of (seg_map crc ssz xs) n of Some f \<Rightarrow> Some f | None \<Rightarrow> m n)"
  by (induction xs) (auto simp: unlinks_def seg_map_def)

lemma seg_map_append: "seg_map crc ssz (xs @ ys) = seg_map crc ssz xs @ seg_map crc ssz ys"
  by (simp add: seg_map_def)

lemma unlinked_power_loss:
  assumes h: "holds crc ssz ss d" and ok: "segs_ok crc ssz mx ss" and u: "unlinked crc ssz (take k ss) d d1"
    and pl: "power_loss d1 d'"
  shows "\<exists>j \<le> k. holds crc ssz (drop j ss) d'"
proof -
  have dd: "distinct (map fst (entries d1))" and p1: "pending d1 = pending d @ unlinks crc ssz (take k ss)"
    and m1: "map_of (entries d1) = without (take k ss) (map_of (entries d))" using u by (simp_all add: unlinked_def)
  note pm = power_loss_map [OF pl dd]
  from pm(4) obtain i where i: "i \<le> length (pending d1)" and rel: "\<And>n. rel_option crash_file
      (foldr undo_map (drop i (pending d1)) (map_of (entries d1)) n) (map_of (entries d') n)" by blast
  define j where "j = i - length (pending d)"
  define xs where "xs = drop j (take k ss)"
  have j: "j \<le> length (take k ss)" using i by (auto simp: j_def p1 unlinks_def)
  have dj: "drop j ss = xs @ drop k ss"
    using j drop_append [of j "take k ss" "drop k ss"] by (simp add: xs_def)
  have dxs: "distinct (map seg_name xs)" using seg_names_distinct [OF ok] by (simp add: xs_def take_map [symmetric] drop_map [symmetric])
  have pend: "drop i (pending d1) = drop i (pending d) @ unlinks crc ssz xs"
    by (simp add: p1 j_def xs_def unlinks_def drop_map)
  have settled: "names_settled d" using h by (simp add: holds_def)
  have "map_of (entries d') n = map_of (seg_map crc ssz (drop j ss)) n" if n: "is_seg_name n" for n
  proof -
    have w: "map_of (entries d1) n = without (take k ss) (map_of (seg_map crc ssz ss)) n"
      using m1 h n by (simp add: holds_def without_def)
    have "foldr undo_map (drop i (pending d1)) (map_of (entries d1)) n
        = foldr undo_map (unlinks crc ssz xs) (map_of (entries d1)) n"
      unfolding pend foldr_append by (rule settled_undo [OF settled n])
    also have "\<dots> = (case map_of (seg_map crc ssz xs) n of Some f \<Rightarrow> Some f
        | None \<Rightarrow> without (take k ss) (map_of (seg_map crc ssz ss)) n)"
      unfolding undo_unlinks [OF dxs] w ..
    also have "\<dots> = map_of (seg_map crc ssz (drop j ss)) n"
      using seg_map_append [of crc ssz xs "drop k ss"] map_of_seg_map_drop [OF ok, of k]
      by (simp add: dj map_add_def split: option.splits)
    finally show ?thesis using rel [of n] crash_seg_map by metis
  qed
  then have "holds crc ssz (drop j ss) d'" using pm(1,3) by (simp add: holds_def names_settled_def)
  moreover have "j \<le> k" using j by simp
  ultimately show ?thesis by blast
qed

text \<open>A failed checkpoint whose process stops keeps its pending unlinks.\<close>

lemma intact_survives: "intact crc ssz ss d \<Longrightarrow> segs_ok crc ssz mx ss \<Longrightarrow> survives crc ssz ss d"
  unfolding intact_def by (drule (1) holds_survives) (erule survives_entries, simp)

lemma unlinked_crash:
  assumes h: "holds crc ssz ss d" and ok: "segs_ok crc ssz mx ss" and u: "unlinked crc ssz (take k ss) d d1"
    and e: "entries d2 = entries d1" "pending d2 = pending d1" and c: "crash d2 d'" and k: "k < length ss"
  shows "\<exists>j \<le> k. intact crc ssz (drop j ss) d' \<and> (power_loss d2 d' \<longrightarrow> names_settled d')"
proof (cases "power_loss d2 d'")
  case True
  then have "power_loss d1 d'" using e by (simp add: power_loss_def crash_entries_def)
  from unlinked_power_loss [OF h ok u this] show ?thesis by (auto simp: holds_intact)
next
  case False
  then have e': "entries d' = entries d1" using c e by (simp add: crash_def)
  have "intact crc ssz (drop k ss) d'"
    unfolding intact_def
    by (rule holds_unlinked [OF h ok u]) (use u in \<open>simp_all add: e' names_settled_def unlinked_def\<close>)
  then show ?thesis using False by blast
qed

end
