(* ===== verification/Wal_Tail.thy ===== *)
theory Wal_Tail
  imports Wal_Restart
begin

text \<open>
  Replay after recovery: the reader gives exactly the records that recovery accepted, on
  whatever bytes a crash has left.
\<close>

section \<open>Replaying what was recovered\<close>

text \<open>Up to the end of the log a reader goes through it; from there on it reads what is there.\<close>

lemma drain_step:
  assumes "\<not> rd_done rd" "rd_file rd = Some name" "rd_read crc rd d name = Inr (ScanRecord l k n, buf)" "rd_expected rd = Some l"
  shows "drain crc rd d = (let (xs, err) = drain crc (rd_step rd buf l n) d in
    (if l < rd_from rd then xs else (l, window 20 (20 + k) buf) # xs, err))"
proof (cases "l < rd_from rd")
  case True
  then have "reader_next crc rd d = reader_next crc (rd_step rd buf l n) d"
    using reader_next_open(2) [OF assms(1,2,3)] assms(4) by simp
  then show ?thesis using True by (subst (1 2) drain.simps) (simp add: Let_def split: prod.splits)
next
  case False
  then have "reader_next crc rd d = (Some (Inr (l, window 20 (20 + k) buf)), rd_step rd buf l n, d)"
    using reader_next_open(2) [OF assms(1,2,3)] assms(4) by simp
  then show ?thesis using False by (subst drain.simps) (simp add: Let_def)
qed

lemma drain_cong: "reader_next crc rd d = reader_next crc rd' d \<Longrightarrow> drain crc rd d = drain crc rd' d"
  by (subst (1 2) drain.simps) simp

lemma drain_to_end:
  assumes rb: "readable crc ssz mx False ss d" and at: "rd_at ssz mx ss i j rd"
  shows "\<exists>rd'. rd_at ssz mx ss (length ss - 1) (length (sg_log (last ss))) rd' \<and> rd_from rd' = rd_from rd
    \<and> drain crc rd d = (let (xs, err) = drain crc rd' d in
        (filter (\<lambda>x. \<not> fst x < rd_from rd) (rest_of ss i j) @ xs, err))"
  using at
proof (induction rd arbitrary: i j rule: wf_induct_rule [OF wf_rd_rel])
  case (1 rd)
  note at = "1.prems"
  have ok: "segs_ok crc ssz mx ss" using rb by (simp add: readable_def)
  have live: "\<not> rd_done rd" "rd_file rd = Some (seg_name (ss ! i))" using at by (simp_all add: rd_at_def)
  show ?case
  proof (cases "j < length (sg_log (ss ! i))")
    case True
    let ?l = "lsn_of (sg_base (ss ! i) + j)" and ?p = "sg_log (ss ! i) ! j"
    note rr = rd_read_in_log(1) [OF rb at True]
    let ?rd1 = "rd_step rd (frame crc ?l ?p) ?l (framed_size (length ?p))"
    have bnd: "sg_base (ss ! i) + length (sg_log (ss ! i)) \<le> Suc u64_max" "0 < sg_base (ss ! i)"
      using ok at by (auto simp: segs_ok_def list_all_length rd_at_def seg_ok_def seg_wf_def)
    have exp: "rd_expected rd = Some ?l"
      using at True bnd checked_next_lsn_of [of "sg_base (ss ! i) + j - 1"] by (simp add: rd_at_def)
    have w: "window 20 (20 + length ?p) (frame crc ?l ?p) = ?p" using frame_payload_field [of ?p crc ?l "[]"] by simp
    have from1: "rd_from ?rd1 = rd_from rd" by (simp add: rd_step_def)
    from "1.IH" [OF rd_step_rel [OF rr] rd_at_step [OF at True]] from1
    obtain rd' where "rd_at ssz mx ss (length ss - 1) (length (sg_log (last ss))) rd'" "rd_from rd' = rd_from rd"
      "drain crc ?rd1 d = (let (xs, err) = drain crc rd' d in
        (filter (\<lambda>x. \<not> fst x < rd_from rd) (rest_of ss i (Suc j)) @ xs, err))" by auto
    then show ?thesis
      using drain_step [OF live rr exp] w rest_of_record [OF True]
      by (intro exI [of _ rd']) (simp add: Let_def split: prod.splits)
  next
    case False
    then have j: "j = length (sg_log (ss ! i))" using at by (simp add: rd_at_def)
    note at = at [unfolded j]
    show ?thesis
    proof (cases "Suc i < length ss")
      case True
      obtain buf where rr: "rd_read crc rd d (seg_name (ss ! i)) = Inr (CleanEnd, buf)"
        using rd_read_in_log(2) [OF rb at] True by auto
      from rd_at_advance(1) [OF rb at True, of buf]
      obtain rd1 where a: "advance_segment (rd\<lparr>rd_buf := buf\<rparr>) d = (Inr True, rd1, d)"
        "rd_at ssz mx ss (Suc i) 0 rd1" "rd_from rd1 = rd_from rd" by blast
      have ch: "chain ss" using ok by (simp add: segs_ok_def)
      have "reader_next crc rd d = reader_next crc rd1 d"
        using reader_next_open(3) [OF live, of crc d buf, OF disjI1 [OF rr]] a(1) by simp
      then have dc: "drain crc rd d = drain crc rd1 d" by (rule drain_cong)
      have ro: "rest_of ss i j = rest_of ss (Suc i) 0" using rest_of_next [OF ch True] j by simp
      show ?thesis
        unfolding dc ro using "1.IH" [OF advance_rel [OF a(1)] a(2)] unfolding a(3) .
    next
      case False
      then have "Suc i = length ss" using at by (simp add: rd_at_def)
      then have "i = length ss - 1" "last ss = ss ! i" by (simp, metis diff_Suc_1 last_conv_nth length_0_conv nat.distinct(1))
      moreover have "rest_of ss i j = []" using rest_of_last [of i ss] \<open>Suc i = length ss\<close> j by simp
      ultimately show ?thesis using at j by (intro exI [of _ rd]) (simp add: Let_def split: prod.splits)
    qed
  qed
qed

lemma drain_tail:
  assumes "parse_run crc (fdata f) ssz mx (rd_offset rd) (checked_next lv) = (rs, x)"
    and "\<not> rd_done rd" "rd_file rd = Some name" "file_of d name = f" "healthy f"
    and "rd_segment_size rd = ssz" "rd_max_record_size rd = mx" "rd_expected rd = checked_next lv"
    and "length (rd_segments rd) \<le> Suc (rd_seg_idx rd)"
  shows "drain crc rd d = (filter (\<lambda>x. \<not> fst x < rd_from rd) rs, None)"
  using assms
proof (induction rd arbitrary: lv rs rule: wf_induct_rule [OF wf_rd_rel])
  case (1 rd)
  note run = "1.prems"(1) and live = "1.prems"(2,3) and f = "1.prems"(4,5) and sz = "1.prems"(6,7)
    and ex = "1.prems"(8) and lastseg = "1.prems"(9)
  let ?out = "scan_bytes crc (fdata f) (rd_offset rd) ssz mx"
  obtain buf where rr: "rd_read crc rd d name = Inr (?out, buf)"
    and buf: "\<And>l k n. ?out = ScanRecord l k n \<Longrightarrow> buf = window (rd_offset rd) (rd_offset rd + n) (fdata f)"
    using read_record_at_healthy [OF f(2), of crc "rd_offset rd" ssz mx] f(1) sz by auto
  have adv: "advance_segment (rd\<lparr>rd_buf := buf\<rparr>) d
      = (Inr False, rd\<lparr>rd_buf := buf, rd_seg_idx := rd_seg_idx rd + 1, rd_file := None\<rparr>, d)"
    using lastseg by (simp add: advance_segment_def)
  show ?case
  proof (cases "\<exists>l k n. ?out = ScanRecord l k n \<and> checked_next lv = Some l")
    case False
    then have "rs = []" using run parse_run_stop [of crc "fdata f" "rd_offset rd" ssz mx "checked_next lv"] by auto
    moreover have "\<exists>rd'. reader_next crc rd d = (None, rd', d)"
    proof (cases ?out)
      case (ScanRecord l k n)
      then show ?thesis using reader_next_open(2) [OF live rr [unfolded ScanRecord]] False ex by auto
    qed (use reader_next_open(3) [OF live, of crc d buf] rr adv in auto)
    ultimately show ?thesis by (auto simp: drain.simps)
  next
    case True
    then obtain l k n where o: "?out = ScanRecord l k n" and l: "checked_next lv = Some l" by blast
    obtain rs' where rs: "parse_run crc (fdata f) ssz mx (rd_offset rd + n) (checked_next l) = (rs', x)"
      "rs = (l, window (rd_offset rd + 20) (rd_offset rd + 20 + k) (fdata f)) # rs'"
      using run parse_run_step [OF o] l by (auto split: prod.splits)
    note rr' = rr [unfolded o]
    have b: "20 + k \<le> n" using read_record_at_Record(1) [OF rr'] framed_size_bounds(1) [of k] by simp
    have w: "window 20 (20 + k) buf = window (rd_offset rd + 20) (rd_offset rd + 20 + k) (fdata f)"
      unfolding buf [OF o] using b by (simp add: window_def drop_take min_absorb2 add.commute)
    have "drain crc (rd_step rd buf l n) d = (filter (\<lambda>x. \<not> fst x < rd_from rd) rs', None)"
      using "1.IH" [OF rd_step_rel [OF rr'], of l rs'] rs(1) live f sz lastseg by (simp add: rd_step_def)
    then show ?thesis using drain_step [OF live rr'] ex l rs(2) w by simp
  qed
qed

section \<open>What a reopened handle replays\<close>

text \<open>The acknowledged log first, then the records recovery accepted after it, up to the
  recovered watermark and with consecutive LSNs.\<close>

lemma serves_replay:
  assumes sv: "serves crc cfg ob ss w rep d"
    and ok: "segs_ok crc (unat (cfg_segment_size cfg)) (unat (cfg_max_record_size cfg)) ss"
  shows "\<exists>rd extra. reader_from NONE w d = (Inr rd, d)
    \<and> drain crc rd d = (number_from (log_base ss) (log_of ss) @ extra, None)
    \<and> map fst extra = map lsn_of [log_end ss ..< Suc (lsn_nat (durable_lsn w))]
    \<and> log_end ss \<le> Suc (lsn_nat (durable_lsn w))"
proof -
  let ?ssz = "unat (cfg_segment_size cfg)" and ?mx = "unat (cfg_max_record_size cfg)" and ?s = "last ss"
  have sz: "segment_size w = cfg_segment_size cfg" "max_record_size w = cfg_max_record_size cfg"
    and seg: "segments w = map (\<lambda>s. lsn_of (sg_base s)) ss" and sur: "survives crc ?ssz ss d" and nf: "dfaults d = []"
    using sv by (simp_all add: serves_def)
  have rb: "readable crc (unat (segment_size w)) (unat (max_record_size w)) False ss d"
    using survives_readable [OF sur ok nf] sz by simp
  have none: "is_none NONE \<or> oldest_lsn w \<le> NONE" by (simp add: is_none_iff)
  from sv obtain extra f x where f: "map_of (entries d) (seg_name ?s) = Some f"
    and run: "parse_run crc (fdata f) ?ssz ?mx 64 (Some (lsn_of (sg_base ?s)))
        = (number_from (sg_base ?s) (sg_log ?s) @ extra, x)"
    and dl: "durable_lsn w = run_last (lsn_of (log_end ss - 1)) extra" by (auto simp: serves_def tail_run_def)
  from sur f obtain r where hf: "healthy f" and im: "fdata f = seg_image crc (sg_header ?s) (sg_base ?s) (sg_log ?s) r"
    by (auto simp: survives_def)
  have wf: "seg_wf ?ssz ?mx (sg_header ?s) (sg_base ?s) (sg_log ?s)"
    using segs_ok_last(1) [OF ok] by (simp add: seg_ok_def)
  let ?m = "64 + frames_size (sg_log ?s)"
  have tail: "parse_run crc (fdata f) ?ssz ?mx ?m (checked_next (lsn_of (log_end ss - 1))) = (extra, x)"
    using run parse_run_image [OF wf, of crc r] im
    by (auto simp: log_end_def seg_end_def split: prod.splits)
  have lv: "lsn_nat (lsn_of (log_end ss - 1)) = log_end ss - 1" "0 < log_end ss"
    using segs_ok_last(2,3) [OF ok] by simp_all
  note pe = parse_run_end(5,6) [OF tail, folded dl, unfolded lv(1)]
  obtain rd i where rd: "reader_from NONE w d = (Inr rd, d)" "rd_at ?ssz ?mx ss i 0 rd"
    and i: "0 < i \<longrightarrow> lsn_of (sg_base (ss ! i)) \<le> NONE"
    using reader_from_spec [OF seg rb none] sz by auto
  have rb': "readable crc ?ssz ?mx False ss d" using rb sz by simp
  obtain rd' where rd': "rd_at ?ssz ?mx ss (length ss - 1) (length (sg_log ?s)) rd'" "rd_from rd' = rd_from rd"
    and dr: "drain crc rd d = (let (xs, err) = drain crc rd' d in
        (filter (\<lambda>x. \<not> fst x < rd_from rd) (rest_of ss i 0) @ xs, err))"
    using drain_to_end [OF rb' rd(2)] by blast
  have sne: "ss \<noteq> []" by (rule segs_ok_last(4) [OF ok])
  have ls: "ss ! (length ss - 1) = ?s" using sne by (simp add: last_conv_nth)
  have "drain crc rd' d = (filter (\<lambda>x. \<not> fst x < rd_from rd') extra, None)"
  proof (rule drain_tail)
    show "parse_run crc (fdata f) ?ssz ?mx (rd_offset rd') (checked_next (lsn_of (log_end ss - 1))) = (extra, x)"
      using rd'(1) tail ls by (simp add: rd_at_def)
    show "file_of d (seg_name ?s) = f" using f by (simp add: file_of_def)
  qed (use rd'(1) ls hf in \<open>simp_all add: rd_at_def log_end_def seg_end_def\<close>)
  moreover have from1: "rd_from rd = FIRST"
    using rd(1) by (auto simp: reader_from_def new_reader_def Let_def NONE_def split: if_splits prod.splits sum.splits)
  have keep: "filter (\<lambda>x. \<not> fst x < FIRST) xs = xs"
    if "map fst xs = map lsn_of [a ..< b]" "0 < a" "b \<le> Suc u64_max" for xs :: "(lsn \<times> bytes) list" and a b
  proof (rule filter_True, rule ballI)
    fix y assume "y \<in> set xs"
    then have "fst y \<in> set (map fst xs)" by simp
    then have "fst y \<in> lsn_of ` {a ..< b}" unfolding that(1) by simp
    then obtain n where "a \<le> n" "n < b" "fst y = lsn_of n" by auto
    then show "\<not> fst y < FIRST" using that(2,3) by (simp add: lsn_less_iff)
  qed
  have ex: "filter (\<lambda>x. \<not> fst x < FIRST) extra = extra"
    by (rule keep [OF pe(2)]) (use pe(1) lv(2) lsn_nat_le_max [of "durable_lsn w"] in auto)
  have ch: "chain ss" using ok by (simp add: segs_ok_def)
  have "i = 0"
  proof (rule ccontr)
    assume "i \<noteq> 0"
    moreover have "i < length ss" using rd(2) by (simp add: rd_at_def)
    then have "0 < sg_base (ss ! i)" "sg_base (ss ! i) \<le> u64_max"
      using ok by (auto simp: segs_ok_def list_all_length seg_ok_def seg_wf_def)
    ultimately show False using i by (simp add: lsn_le_iff)
  qed
  then have "rest_of ss i 0 = number_from (log_base ss) (log_of ss)"
    using numbered_split [OF ch, of 0] sne by (simp add: log_of_def)
  moreover have "filter (\<lambda>x. \<not> fst x < FIRST) (number_from (log_base ss) (log_of ss)) = number_from (log_base ss) (log_of ss)"
  proof (rule keep [OF map_fst_number_from])
    show "0 < log_base ss" using ok sne by (cases ss) (auto simp: segs_ok_def log_base_def seg_ok_def seg_wf_def)
    show "log_base ss + length (log_of ss) \<le> Suc u64_max" using chain_log_end [OF ch] segs_ok_last(3) [OF ok] by simp
  qed
  ultimately have "drain crc rd d = (number_from (log_base ss) (log_of ss) @ extra, None)"
    using dr ex from1 rd'(2) by simp
  moreover have "Suc (lsn_nat (durable_lsn w)) = log_end ss + length extra" using pe(1) lv(2) by simp
  ultimately show ?thesis using rd(1) pe(2) lv(2) by auto
qed

end
