(* ===== verification/Wal_Contract.thy ===== *)
theory Wal_Contract
  imports Wal_Tail
begin

text \<open>
  The contract of the log towards its users, as an interface over an abstract view of the
  log, and the handle's model as its implementation. The view is what a user can know: the
  LSN of the oldest record kept, the payloads acknowledged as durable from there on, and the
  payloads appended since.
\<close>

section \<open>The lock outlives every operation\<close>

lemma roll_lock_held: "roll crc clock b w d = (res, w', d') \<Longrightarrow> lock_held d' = lock_held d"
  by (auto simp: roll_def dest!: create_lock_held fsync_dir_cases(2) split: prod.splits sum.splits)

lemma write_prefix_lock_held: "write_prefix on_durable pos scan l w d = (res, w', d') \<Longrightarrow> lock_held d' = lock_held d"
  by (auto simp: write_prefix_def split: prod.splits sum.splits)

lemma commit_step_lock_held:
  assumes "commit_step crc clock on_durable pos w d = (res, w', d')"
  shows "lock_held d' = lock_held d"
proof -
  obtain scan l where f: "fit_prefix (staging w) (unat (segment_size w) - write_offset w) pos pos NONE = (scan, l)"
    by fastforce
  obtain r1 w1 d1 where s: "step_two on_durable pos scan l w d = (r1, w1, d1)"
    by (cases "step_two on_durable pos scan l w d")
  have "lock_held d1 = lock_held d"
    using s write_prefix_lock_held [of on_durable pos scan l w d r1 w1 d1] by (auto simp: step_two_def split: if_splits)
  then show ?thesis
    using assms f s by (auto simp: commit_step_def dest!: roll_lock_held split: prod.splits sum.splits if_splits)
qed

lemma commit_loop_lock_held:
  "commit_loop crc clock on_durable pos w d = (res, w', d') \<Longrightarrow> lock_held d' = lock_held d"
proof (induction crc clock on_durable pos w d rule: commit_loop.induct)
  case (1 crc clock on_durable pos w d)
  obtain r1 w1 d1 where s: "commit_step crc clock on_durable pos w d = (r1, w1, d1)"
    by (cases "commit_step crc clock on_durable pos w d")
  show ?case
  proof (cases "pos < length (staging w)")
    case True
    show ?thesis
    proof (cases r1)
      case (Inr p)
      then have "commit_loop crc clock on_durable p w1 d1 = (res, w', d')"
        using "1.prems" True s by (simp add: commit_loop.simps [of _ _ _ pos])
      from "1.IH" [OF True s [symmetric] Inr refl this] commit_step_lock_held [OF s] show ?thesis by simp
    qed (use "1.prems" True s commit_step_lock_held [OF s] in \<open>simp add: commit_loop.simps [of _ _ _ pos]\<close>)
  qed (use "1.prems" in \<open>simp add: commit_loop.simps [of _ _ _ pos]\<close>)
qed

lemma commit_lock_held: "commit crc clock on_durable w d = (res, w', d') \<Longrightarrow> lock_held d' = lock_held d"
  by (auto simp: commit_def dest!: commit_loop_lock_held split: prod.splits sum.splits if_splits)

lemma remove_file_lock_held: "remove_file n d = (res, d') \<Longrightarrow> lock_held d' = lock_held d"
  by (auto simp: remove_file_def split: prod.splits fault.splits option.splits)

lemma unlink_all_lock_held: "unlink_all bs d = (res, d') \<Longrightarrow> lock_held d' = lock_held d"
proof (induction bs arbitrary: d)
  case (Cons b bs)
  obtain r1 d1 where "remove_file (filename_for b) d = (r1, d1)" by fastforce
  with Cons show ?case by (auto dest: remove_file_lock_held split: sum.splits io_error.splits)
qed simp

lemma checkpoint_lock_held: "checkpoint up_to w d = (res, w', d') \<Longrightarrow> lock_held d' = lock_held d"
  by (auto simp: checkpoint_def Let_def dest!: unlink_all_lock_held fsync_dir_cases(2)
      split: prod.splits sum.splits if_splits)

section \<open>The interface\<close>

record view =
  v_base :: nat
  v_log :: "bytes list"
  v_staged :: "bytes list"

definition v_end :: "view \<Rightarrow> nat" where
  "v_end v = v_base v + length (v_log v)"

text \<open>The LSN the next append gets.\<close>

definition v_next :: "view \<Rightarrow> nat" where
  "v_next v = v_end v + length (v_staged v)"

definition v_record :: "view \<Rightarrow> nat \<Rightarrow> bytes option" where
  "v_record v n = (if v_base v \<le> n \<and> n < v_end v then Some (v_log v ! (n - v_base v)) else None)"

datatype command = Add bytes | Sync | Trim nat | Restart

lemma number_from_nth: "i < length ps \<Longrightarrow> number_from n ps ! i = (lsn_of (n + i), ps ! i)"
proof (induction ps arbitrary: n i)
  case (Cons p ps)
  then show ?case by (cases i) simp_all
qed simp

text \<open>\<open>v'\<close> has what \<open>v\<close> has, but possibly for records up to \<open>n\<close>.\<close>

definition keeps :: "nat \<Rightarrow> view \<Rightarrow> view \<Rightarrow> bool" where
  "keeps n v v' \<longleftrightarrow> v_base v \<le> v_base v' \<and> v_end v \<le> v_end v' \<and> v_base v' \<le> max (v_base v) (Suc n)
     \<and> (\<forall>i. v_base v' \<le> i \<longrightarrow> i < v_end v \<longrightarrow> v_record v' i = v_record v i)"

definition trims :: "command \<Rightarrow> nat" where
  "trims c = (case c of Trim n \<Rightarrow> n | _ \<Rightarrow> 0)"

locale durable_log =
  fixes represents :: "'s \<Rightarrow> view \<Rightarrow> bool"
    and fits :: "bytes \<Rightarrow> bool"
    and add :: "bytes \<Rightarrow> 's \<Rightarrow> lsn option \<times> 's"
    and sync :: "'s \<Rightarrow> lsn option \<times> 's"
    and trim :: "nat \<Rightarrow> 's \<Rightarrow> bool \<times> 's"
    and restart :: "'s \<Rightarrow> bool \<times> 's"
    and replay :: "'s \<Rightarrow> (lsn \<times> bytes) list option"
  assumes add_law: "represents s v \<Longrightarrow> fits p \<Longrightarrow> v_next v \<le> u64_max \<Longrightarrow>
      \<exists>s'. add p s = (Some (lsn_of (v_next v)), s') \<and> represents s' (v\<lparr>v_staged := v_staged v @ [p]\<rparr>)"
    and sync_law: "represents s v \<Longrightarrow>
      \<exists>s'. sync s = (Some (lsn_of (v_next v - 1)), s') \<and> represents s' (v\<lparr>v_log := v_log v @ v_staged v, v_staged := []\<rparr>)"
    and trim_law: "represents s v \<Longrightarrow>
      \<exists>k s'. trim n s = (True, s') \<and> k \<le> length (v_log v) \<and> (k < length (v_log v) \<or> v_log v = []) \<and> (0 < k \<longrightarrow> v_base v + k \<le> Suc n)
        \<and> represents s' (v\<lparr>v_base := v_base v + k, v_log := drop k (v_log v)\<rparr>)"
    and restart_law: "represents s v \<Longrightarrow> \<exists>s'. restart s = (True, s') \<and> represents s' (v\<lparr>v_staged := []\<rparr>)"
    and replay_law: "represents s v \<Longrightarrow> replay s = Some (number_from (v_base v) (v_log v))"
    and base_law: "represents s v \<Longrightarrow> 0 < v_base v"
begin

definition perform :: "command \<Rightarrow> 's \<Rightarrow> 's" where
  "perform c s = (case c of Add p \<Rightarrow> snd (add p s) | Sync \<Rightarrow> snd (sync s)
     | Trim n \<Rightarrow> snd (trim n s) | Restart \<Rightarrow> snd (restart s))"

fun issuable :: "command \<Rightarrow> bool" where
  "issuable (Add p) = fits p"
| "issuable c = True"

text \<open>One command: what is durable stays, below the base only what a trim allows is gone.\<close>

lemma perform_keeps:
  assumes "represents s v" "issuable c" "v_next v \<le> u64_max"
  shows "\<exists>v'. represents (perform c s) v' \<and> keeps (trims c) v v' \<and> v_next v' \<le> Suc (v_next v)"
proof (cases c)
  case (Add p)
  then show ?thesis
    using add_law [OF assms(1), of p] assms(2,3)
    by (auto simp: perform_def keeps_def v_end_def v_next_def v_record_def intro!: exI)
next
  case Sync
  then show ?thesis
    using sync_law [OF assms(1)]
    by (fastforce simp: perform_def keeps_def v_end_def v_next_def v_record_def nth_append)
next
  case (Trim n)
  then obtain k s' where k: "trim n s = (True, s')" "k \<le> length (v_log v)" "0 < k \<longrightarrow> v_base v + k \<le> Suc n"
    "represents s' (v\<lparr>v_base := v_base v + k, v_log := drop k (v_log v)\<rparr>)"
    using trim_law [OF assms(1), of n] by auto
  have "keeps n v (v\<lparr>v_base := v_base v + k, v_log := drop k (v_log v)\<rparr>)"
    using k(2,3) by (cases "k = 0") (auto simp: keeps_def v_end_def v_record_def)
  then show ?thesis
    using k Trim by (intro exI [of _ "v\<lparr>v_base := v_base v + k, v_log := drop k (v_log v)\<rparr>"])
      (simp add: perform_def trims_def v_next_def v_end_def)
next
  case Restart
  then show ?thesis
    using restart_law [OF assms(1)] by (fastforce simp: perform_def keeps_def v_end_def v_next_def v_record_def)
qed

lemma keeps_trans:
  assumes "keeps m v v1" "keeps n v1 v2"
  shows "keeps (max m n) v v2"
proof -
  have "v_base v2 \<le> max (v_base v) (Suc (max m n))" using assms by (auto simp: keeps_def)
  moreover have "v_record v2 i = v_record v i" if "v_base v2 \<le> i" "i < v_end v" for i
    using assms that by (auto simp: keeps_def)
  ultimately show ?thesis using assms by (auto simp: keeps_def)
qed

lemma script_keeps:
  assumes "represents s v" "list_all issuable cs" "v_next v + length cs \<le> Suc u64_max"
  shows "\<exists>v'. represents (fold perform cs s) v' \<and> keeps (foldr (\<lambda>c. max (trims c)) cs 0) v v'"
  using assms
proof (induction cs arbitrary: s v)
  case Nil
  then show ?case by (auto simp: keeps_def)
next
  case (Cons c cs)
  then obtain v1 where v1: "represents (perform c s) v1" "keeps (trims c) v v1" "v_next v1 \<le> Suc (v_next v)"
    using perform_keeps [of s v c] by auto
  from Cons.IH [OF v1(1)] Cons.prems v1(3)
  obtain v2 where "represents (fold perform cs (perform c s)) v2" "keeps (foldr (\<lambda>c. max (trims c)) cs 0) v1 v2" by auto
  then show ?case using keeps_trans [OF v1(2)] by auto
qed

text \<open>Whatever was durable and is not trimmed away is replayed, at its LSN, after any script.\<close>

lemma script_durable:
  assumes "represents s v" "list_all issuable cs" "v_next v + length cs \<le> Suc u64_max"
    and "v_record v i = Some p" "foldr (\<lambda>c. max (trims c)) cs 0 < i"
  shows "\<exists>rs. replay (fold perform cs s) = Some rs \<and> (lsn_of i, p) \<in> set rs"
proof -
  obtain v' where v': "represents (fold perform cs s) v'" "keeps (foldr (\<lambda>c. max (trims c)) cs 0) v v'"
    using script_keeps [OF assms(1-3)] by blast
  have i: "v_base v \<le> i" "i < v_end v" using assms(4) by (auto simp: v_record_def split: if_splits)
  then have b: "v_base v' \<le> i" using v'(2) assms(5) by (auto simp: keeps_def)
  then have r: "v_record v' i = Some p" using v'(2) i assms(4) by (simp add: keeps_def)
  then have e: "i < v_end v'" "p = v_log v' ! (i - v_base v')" by (auto simp: v_record_def split: if_splits)
  then have "number_from (v_base v') (v_log v') ! (i - v_base v') = (lsn_of i, p)" "i - v_base v' < length (v_log v')"
    using number_from_nth [of "i - v_base v'" "v_log v'" "v_base v'"] b by (auto simp: v_end_def)
  then have "(lsn_of i, p) \<in> set (number_from (v_base v') (v_log v'))" by (metis length_number_from nth_mem)
  then show ?thesis using replay_law [OF v'(1)] by auto
qed

end

section \<open>The handle implements it\<close>

text \<open>The state of the program: the handle and the directory, on a platform without failures.\<close>

definition live :: "(bytes \<Rightarrow> u32) \<Rightarrow> wal_config \<Rightarrow> lsn \<Rightarrow> 'o wal \<times> disk \<Rightarrow> view \<Rightarrow> bool" where
  "live crc cfg seed s v \<longleftrightarrow> cfg_ok cfg \<and> \<not> is_none seed \<and> lock_held (snd s) \<and> dfaults (snd s) = []
     \<and> segment_size (fst s) = cfg_segment_size cfg \<and> max_record_size (fst s) = cfg_max_record_size cfg
     \<and> (\<exists>ss. wal_inv crc (fst s) ss (v_staged v) \<and> holds crc (unat (cfg_segment_size cfg)) ss (snd s)
          \<and> log_base ss = v_base v \<and> log_of ss = v_log v \<and> (v_log v = [] \<or> sg_log (last ss) \<noteq> []))"

definition fits_record :: "wal_config \<Rightarrow> bytes \<Rightarrow> bool" where
  "fits_record cfg p \<longleftrightarrow> length p \<le> unat (cfg_max_record_size cfg)"

definition wal_add :: "(bytes \<Rightarrow> u32) \<Rightarrow> bytes \<Rightarrow> 'o wal \<times> disk \<Rightarrow> lsn option \<times> 'o wal \<times> disk" where
  "wal_add crc p s =
     (case wal_append crc p (fst s) of
        (Inr l, w) \<Rightarrow> (Some l, w, snd s)
      | (Inl e, w) \<Rightarrow> (None, w, snd s))"

definition wal_sync ::
    "(bytes \<Rightarrow> u32) \<Rightarrow> (lsn \<Rightarrow> u64) \<Rightarrow> (lsn \<Rightarrow> 'o \<Rightarrow> 'o) \<Rightarrow> 'o wal \<times> disk \<Rightarrow> lsn option \<times> 'o wal \<times> disk" where
  "wal_sync crc clock on_durable s =
     (case commit crc clock on_durable (fst s) (snd s) of
        (Inr l, w, d) \<Rightarrow> (Some l, w, d)
      | (Inl e, w, d) \<Rightarrow> (None, w, d))"

definition wal_trim :: "nat \<Rightarrow> 'o wal \<times> disk \<Rightarrow> bool \<times> 'o wal \<times> disk" where
  "wal_trim n s =
     (case checkpoint (lsn_of (min n u64_max)) (fst s) (snd s) of (res, w, d) \<Rightarrow> (res = Inr (), w, d))"

text \<open>Dropping the handle releases the lock, and what was staged is gone with it.\<close>

definition drop_handle :: "disk \<Rightarrow> disk" where
  "drop_handle d = d\<lparr>lock_held := False\<rparr>"

definition wal_restart ::
    "(bytes \<Rightarrow> u32) \<Rightarrow> (lsn \<Rightarrow> u64) \<Rightarrow> wal_config \<Rightarrow> 'o \<Rightarrow> lsn \<Rightarrow> 'o wal \<times> disk \<Rightarrow> bool \<times> 'o wal \<times> disk" where
  "wal_restart crc clock cfg ob seed s =
     (case open_seeded crc clock cfg ob seed (drop_handle (snd s)) of
        (Inr (w, rep), d) \<Rightarrow> (True, w, d)
      | (Inl e, d) \<Rightarrow> (False, fst s, d))"

definition wal_replay :: "(bytes \<Rightarrow> u32) \<Rightarrow> 'o wal \<times> disk \<Rightarrow> (lsn \<times> bytes) list option" where
  "wal_replay crc s =
     (case reader_from NONE (fst s) (snd s) of
        (Inr rd, d) \<Rightarrow> (case drain crc rd d of (rs, None) \<Rightarrow> Some rs | (rs, Some e) \<Rightarrow> None)
      | (Inl e, d) \<Rightarrow> None)"

lemma liveE:
  assumes "live crc cfg seed (w, d) v"
  obtains ss where "cfg_ok cfg" "\<not> is_none seed" "lock_held d" "dfaults d = []"
    "segment_size w = cfg_segment_size cfg" "max_record_size w = cfg_max_record_size cfg"
    "wal_inv crc w ss (v_staged v)" "holds crc (unat (cfg_segment_size cfg)) ss d"
    "log_base ss = v_base v" "log_of ss = v_log v" "v_log v = [] \<or> sg_log (last ss) \<noteq> []"
    "segs_ok crc (unat (cfg_segment_size cfg)) (unat (cfg_max_record_size cfg)) ss" "log_end ss = v_end v"
proof -
  from assms obtain ss where *: "cfg_ok cfg" "\<not> is_none seed" "lock_held d" "dfaults d = []"
    "segment_size w = cfg_segment_size cfg" "max_record_size w = cfg_max_record_size cfg"
    "wal_inv crc w ss (v_staged v)" "holds crc (unat (cfg_segment_size cfg)) ss d"
    "log_base ss = v_base v" "log_of ss = v_log v" "v_log v = [] \<or> sg_log (last ss) \<noteq> []" by (auto simp: live_def)
  have ok: "segs_ok crc (unat (cfg_segment_size cfg)) (unat (cfg_max_record_size cfg)) ss"
    using wal_core_segs [OF wal_inv_core [OF *(7)]] *(5,6) by simp
  then have "log_end ss = v_end v" using chain_log_end [of ss] *(9,10) by (simp add: segs_ok_def v_end_def)
  then show ?thesis using that * ok by blast
qed

lemma drop_segments:
  assumes "chain ss" "n < length ss"
  shows "log_base (drop n ss) = log_base ss + length (log_of (take n ss))"
    "log_of (drop n ss) = drop (length (log_of (take n ss))) (log_of ss)"
proof -
  have "log_of ss = log_of (take n ss) @ log_of (drop n ss)"
    unfolding log_of_def by (metis append_take_drop_id concat_append map_append)
  then show "log_of (drop n ss) = drop (length (log_of (take n ss))) (log_of ss)" by simp
  show "log_base (drop n ss) = log_base ss + length (log_of (take n ss))"
    using chain_take_end [OF assms] assms(2) by (simp add: log_base_def hd_drop_conv_nth)
qed

lemma live_add:
  assumes "live crc cfg seed s v" "fits_record cfg p" "v_next v \<le> u64_max"
  shows "\<exists>s'. wal_add crc p s = (Some (lsn_of (v_next v)), s') \<and> live crc cfg seed s' (v\<lparr>v_staged := v_staged v @ [p]\<rparr>)"
proof -
  obtain w d where s: "s = (w, d)" by (cases s)
  from assms(1)[unfolded s] obtain ss where l: "cfg_ok cfg" "\<not> is_none seed" "lock_held d" "dfaults d = []"
    "segment_size w = cfg_segment_size cfg" "max_record_size w = cfg_max_record_size cfg"
    "wal_inv crc w ss (v_staged v)" "holds crc (unat (cfg_segment_size cfg)) ss d"
    "log_base ss = v_base v" "log_of ss = v_log v" "v_log v = [] \<or> sg_log (last ss) \<noteq> []" and e: "log_end ss = v_end v" by (rule liveE)
  have "length p \<le> unat (max_record_size w)" "log_end ss + length (v_staged v) \<le> u64_max"
    using assms(2,3) l(6) e by (simp_all add: fits_record_def v_next_def)
  then obtain w' where "wal_append crc p w = (Inr (lsn_of (v_next v)), w')" "wal_inv crc w' ss (v_staged v @ [p])"
    "segment_size w' = segment_size w" "max_record_size w' = max_record_size w"
    using append_inv [OF l(7), of p] e by (auto simp: v_next_def)
  then show ?thesis using l by (auto simp: s wal_add_def live_def)
qed

lemma live_sync:
  assumes "live crc cfg seed s v"
  shows "\<exists>s'. wal_sync crc clock on_durable s = (Some (lsn_of (v_next v - 1)), s')
    \<and> live crc cfg seed s' (v\<lparr>v_log := v_log v @ v_staged v, v_staged := []\<rparr>)"
proof -
  obtain w d where s: "s = (w, d)" by (cases s)
  from assms[unfolded s] obtain ss where l: "cfg_ok cfg" "\<not> is_none seed" "lock_held d" "dfaults d = []"
    "segment_size w = cfg_segment_size cfg" "max_record_size w = cfg_max_record_size cfg"
    "wal_inv crc w ss (v_staged v)" "holds crc (unat (cfg_segment_size cfg)) ss d"
    "log_base ss = v_base v" "log_of ss = v_log v" "v_log v = [] \<or> sg_log (last ss) \<noteq> []" and e: "log_end ss = v_end v" by (rule liveE)
  obtain res w' d' where c: "commit crc clock on_durable w d = (res, w', d')" by (cases "commit crc clock on_durable w d")
  have h: "holds crc (unat (segment_size w)) ss d" using l(5,8) by simp
  from commit_no_faults [OF c l(7) h l(4)] have nf: "\<exists>x. res = Inr x" "dfaults d' = []" by auto
  from commit_cases [OF c l(7) h] nf(1) obtain ss' where r: "res = Inr (lsn_of (v_next v - 1))" "wal_inv crc w' ss' []"
    "grown ss (v_staged v) ss'" "ends_used ss (v_staged v) ss'" "holds crc (unat (segment_size w)) ss' d'"
    "segment_size w' = segment_size w" "max_record_size w' = max_record_size w"
    using e by (auto simp: v_next_def)
  then have "live crc cfg seed (w', d') (v\<lparr>v_log := v_log v @ v_staged v, v_staged := []\<rparr>)"
    using l nf(2) commit_lock_held [OF c] by (auto simp: live_def grown_def ends_used_def)
  then show ?thesis using c r(1) by (auto simp: s wal_sync_def)
qed

lemma live_trim:
  assumes "live crc cfg seed s v"
  shows "\<exists>k s'. wal_trim n s = (True, s') \<and> k \<le> length (v_log v) \<and> (k < length (v_log v) \<or> v_log v = []) \<and> (0 < k \<longrightarrow> v_base v + k \<le> Suc n)
    \<and> live crc cfg seed s' (v\<lparr>v_base := v_base v + k, v_log := drop k (v_log v)\<rparr>)"
proof -
  obtain w d where s: "s = (w, d)" by (cases s)
  from assms[unfolded s] obtain ss where l: "cfg_ok cfg" "\<not> is_none seed" "lock_held d" "dfaults d = []"
    "segment_size w = cfg_segment_size cfg" "max_record_size w = cfg_max_record_size cfg"
    "wal_inv crc w ss (v_staged v)" "holds crc (unat (cfg_segment_size cfg)) ss d"
    "log_base ss = v_base v" "log_of ss = v_log v" "v_log v = [] \<or> sg_log (last ss) \<noteq> []"
    and ok: "segs_ok crc (unat (cfg_segment_size cfg)) (unat (cfg_max_record_size cfg)) ss" by (rule liveE)
  define u where "u = lsn_of (min n u64_max)"
  define m where "m = deletable ss u"
  define k where "k = length (log_of (take m ss))"
  obtain res w' d' where c: "checkpoint u w d = (res, w', d')" by (cases "checkpoint u w d")
  have h: "holds crc (unat (segment_size w)) ss d" using l(5,8) by simp
  from checkpoint_cases [OF c l(7) h] l(4) have r: "res = Inr ()" "wal_inv crc w' (drop m ss) (v_staged v)"
    "holds crc (unat (segment_size w)) (drop m ss) d'" "segment_size w' = segment_size w"
    "max_record_size w' = max_record_size w" "dfaults d' = []" by (auto simp: m_def)
  have ch: "chain ss" using ok by (simp add: segs_ok_def)
  have m: "m < length ss" unfolding m_def by (rule deletable_less) (use ch in simp)
  note ds = drop_segments [OF ch m]
  have kl: "k \<le> length (v_log v)"
    using l(10) unfolding k_def log_of_def by (metis append_take_drop_id concat_append length_append map_append le_add1)
  have ne: "k < length (v_log v) \<or> v_log v = []"
  proof (cases "v_log v = []")
    case False
    have "last ss \<in> set (drop m ss)" using m last_in_set [of "drop m ss"] by simp
    moreover have "sg_log (last ss) \<noteq> []" using l(11) False by simp
    ultimately have "log_of (drop m ss) \<noteq> []" by (auto simp: log_of_def)
    then show ?thesis using ds(2) l(10) by (simp add: k_def)
  qed simp
  have "v_base v + k \<le> Suc n" if "0 < k"
  proof -
    have m0: "0 < m" using that by (cases m) (auto simp: k_def log_of_def)
    have "lsn_nat u \<le> n" by (simp add: u_def)
    moreover have "seg_end (ss ! (m - 1)) \<le> Suc (lsn_nat u)"
      by (rule deletable_deleted [OF ch]) (use m0 in \<open>simp add: m_def\<close>)
    moreover have "log_base ss + k = seg_end (ss ! (m - 1))"
    proof -
      have "take m ss = take (m - 1) ss @ [ss ! (m - 1)]"
        using m m0 take_Suc_conv_app_nth [of "m - 1" ss] by simp
      then show ?thesis
        using chain_take_end [OF ch, of "m - 1"] m by (simp add: k_def log_of_def seg_end_def)
    qed
    ultimately show ?thesis using l(9) by simp
  qed
  moreover have "live crc cfg seed (w', d') (v\<lparr>v_base := v_base v + k, v_log := drop k (v_log v)\<rparr>)"
    using l r checkpoint_lock_held [OF c] ds m by (auto simp: live_def k_def)
  ultimately show ?thesis using kl ne c r(1) by (auto simp: s wal_trim_def u_def)
qed

lemma live_reopen:
  assumes "live crc cfg seed (w, d) v"
  shows "\<exists>w' d'. open_seeded crc clock cfg ob seed (drop_handle d) =
      (Inr (w', \<lparr>report_oldest_lsn = lsn_of (v_base v), report_durable_lsn = lsn_of (v_end v - 1),
                 report_tail_state = Clean, report_segments_scanned = length (segments w')\<rparr>), d')
    \<and> live crc cfg seed (w', d') (v\<lparr>v_staged := []\<rparr>) \<and> observer w' = ob \<and> last_lsn w' = lsn_of (v_end v - 1)
    \<and> durable_lsn w' = lsn_of (v_end v - 1) \<and> oldest_lsn w' = lsn_of (v_base v)"
proof -
  from assms obtain ss where l: "cfg_ok cfg" "\<not> is_none seed" "lock_held d" "dfaults d = []"
    "segment_size w = cfg_segment_size cfg" "max_record_size w = cfg_max_record_size cfg"
    "wal_inv crc w ss (v_staged v)" "holds crc (unat (cfg_segment_size cfg)) ss d"
    "log_base ss = v_base v" "log_of ss = v_log v" "v_log v = [] \<or> sg_log (last ss) \<noteq> []"
    and ok: "segs_ok crc (unat (cfg_segment_size cfg)) (unat (cfg_max_record_size cfg)) ss"
    and e: "log_end ss = v_end v" by (rule liveE)
  have "dfaults (drop_handle d) = []" "\<not> lock_held (drop_handle d)" "holds crc (unat (cfg_segment_size cfg)) ss (drop_handle d)"
    using l(4,8) by (simp_all add: drop_handle_def holds_def names_settled_def)
  from open_holds [OF l(1,2) this(1,2) ok this(3), of clock ob] obtain w' d' where
    o: "open_seeded crc clock cfg ob seed (drop_handle d) =
      (Inr (w', \<lparr>report_oldest_lsn = lsn_of (log_base ss), report_durable_lsn = lsn_of (log_end ss - 1),
                report_tail_state = Clean, report_segments_scanned = length ss\<rparr>), d')"
    "wal_inv crc w' ss []" "holds crc (unat (cfg_segment_size cfg)) ss d'" "lock_held d'" "dfaults d' = []"
    "segment_size w' = cfg_segment_size cfg" "max_record_size w' = cfg_max_record_size cfg" "observer w' = ob" by blast
  have "length (segments w') = length ss" "last_lsn w' = lsn_of (log_end ss - 1)" "durable_lsn w' = lsn_of (log_end ss - 1)"
    "oldest_lsn w' = lsn_of (log_base ss)"
    using o(2) by (simp_all add: wal_inv_def wal_core_def wal_staged_def)
  then show ?thesis using o l e by (auto simp: live_def)
qed

lemma live_restart:
  assumes "live crc cfg seed s v"
  shows "\<exists>s'. wal_restart crc clock cfg ob seed s = (True, s') \<and> live crc cfg seed s' (v\<lparr>v_staged := []\<rparr>)"
  using assms live_reopen [of crc cfg seed "fst s" "snd s" v clock ob] by (cases s) (auto simp: wal_restart_def)

lemma live_reader:
  assumes "live crc cfg seed (w, d) v" "is_none from \<or> oldest_lsn w \<le> from"
  shows "\<exists>rd. reader_from from w d = (Inr rd, d)
    \<and> drain crc rd d = (filter (\<lambda>x. from \<le> fst x) (number_from (v_base v) (v_log v)), None)"
proof -
  from assms(1) obtain ss where l: "dfaults d = []"
    "segment_size w = cfg_segment_size cfg" "max_record_size w = cfg_max_record_size cfg"
    "wal_inv crc w ss (v_staged v)" "holds crc (unat (cfg_segment_size cfg)) ss d"
    "log_base ss = v_base v" "log_of ss = v_log v" "v_log v = [] \<or> sg_log (last ss) \<noteq> []"
    and ok: "segs_ok crc (unat (cfg_segment_size cfg)) (unat (cfg_max_record_size cfg)) ss" by (rule liveE)
  have rb: "readable crc (unat (segment_size w)) (unat (max_record_size w)) True ss d"
    using holds_readable [OF ok l(5,1)] l(2,3) by simp
  have seg: "segments w = map (\<lambda>s. lsn_of (sg_base s)) ss" using l(4) by (simp add: wal_inv_def wal_core_def)
  from reader_from_spec [OF seg rb assms(2)] show ?thesis using l(6,7) by auto
qed

lemma NONE_le [simp]: "NONE \<le> l"
  by (simp add: NONE_def less_eq_lsn_def)

lemma live_replay:
  assumes "live crc cfg seed s v"
  shows "wal_replay crc s = Some (number_from (v_base v) (v_log v))"
proof -
  have "is_none NONE" by (simp add: is_none_iff)
  then show ?thesis
    using live_reader [of crc cfg seed "fst s" "snd s" v NONE] assms by (cases s) (auto simp: wal_replay_def)
qed

lemma live_base: "live crc cfg seed s v \<Longrightarrow> 0 < v_base v"
proof -
  assume "live crc cfg seed s v"
  then obtain ss where "segs_ok crc (unat (cfg_segment_size cfg)) (unat (cfg_max_record_size cfg)) ss" "log_base ss = v_base v"
    by (cases s) (auto elim: liveE)
  then show ?thesis by (cases ss) (auto simp: segs_ok_def log_base_def seg_ok_def seg_wf_def)
qed

interpretation wl: durable_log "live crc cfg seed" "fits_record cfg" "wal_add crc" "wal_sync crc clock on_durable"
    wal_trim "wal_restart crc clock cfg ob seed" "wal_replay crc"
  for crc cfg seed clock on_durable ob
  by unfold_locales (rule live_add live_sync live_trim live_restart live_replay live_base; assumption)+

definition wal_perform ::
    "(bytes \<Rightarrow> u32) \<Rightarrow> (lsn \<Rightarrow> u64) \<Rightarrow> (lsn \<Rightarrow> 'o \<Rightarrow> 'o) \<Rightarrow> wal_config \<Rightarrow> 'o \<Rightarrow> lsn \<Rightarrow> command \<Rightarrow> 'o wal \<times> disk \<Rightarrow> 'o wal \<times> disk" where
  "wal_perform crc clock on_durable cfg ob seed c s =
     (case c of
        Add p \<Rightarrow> snd (wal_add crc p s)
      | Sync \<Rightarrow> snd (wal_sync crc clock on_durable s)
      | Trim n \<Rightarrow> snd (wal_trim n s)
      | Restart \<Rightarrow> snd (wal_restart crc clock cfg ob seed s))"

lemma wl_perform: "wl.perform crc clock on_durable cfg ob seed = wal_perform crc clock on_durable cfg ob seed"
  by (intro ext) (simp add: wl.perform_def wal_perform_def)

definition may_issue :: "wal_config \<Rightarrow> command \<Rightarrow> bool" where
  "may_issue cfg c = (case c of Add p \<Rightarrow> fits_record cfg p | _ \<Rightarrow> True)"

lemma wl_issuable: "wl.issuable cfg = may_issue cfg"
proof
  fix c show "wl.issuable cfg c = may_issue cfg c" by (cases c) (simp_all add: may_issue_def)
qed

lemmas wal_script_durable = wl.script_durable [unfolded wl_perform wl_issuable]

end
