(* ===== verification/Wal_Format.thy ===== *)
theory Wal_Format
  imports Wal_Corruption
begin

text \<open>
  The properties of the on-disk format and of the recovery of one segment: codec round
  trip and bounds, damage detection, classification of damaged segments, idempotence and
  safety of recovery. Witnesses use the byte sum \<open>csum\<close> as the checksum.
\<close>

definition csum :: "bytes \<Rightarrow> u32" where
  "csum bs = sum_list (map ucast bs)"

lemma csum_update:
  "i < length bs \<Longrightarrow> csum (bs[i := b]) = csum bs - ucast (bs ! i) + ucast b"
proof (induction bs arbitrary: i)
  case (Cons a bs)
  then show ?case by (cases i) (simp_all add: csum_def algebra_simps)
qed simp

lemma csum_detects: "detects_byte csum"
  unfolding detects_byte_def
proof (intro allI impI)
  fix bs :: bytes and i b
  assume i: "i < length bs" and b: "b \<noteq> bs ! i"
  have inj: "ucast x = (ucast y :: u32) \<longleftrightarrow> x = y" for x y :: u8
  proof
    assume "ucast x = (ucast y :: u32)"
    then have "unat (ucast x :: u32) = unat (ucast y :: u32)" by simp
    moreover have "unat (ucast z :: u32) = unat z" for z :: u8
      using unsigned_less [of z, where ?'a = nat] by (simp add: unsigned_ucast_eq take_bit_nat_eq_self)
    ultimately show "x = y" by (simp add: word_eq_iff_unsigned [where ?'a = nat])
  qed simp
  have "csum (bs[i := b]) - csum bs = ucast b - ucast (bs ! i)"
    by (simp add: csum_update [OF i])
  moreover have "ucast b - ucast (bs ! i) \<noteq> (0 :: u32)" using b inj [of b "bs ! i"] by simp
  ultimately show "csum (bs[i := b]) \<noteq> csum bs" by force
qed

section \<open>Records\<close>

text \<open>C33. A record appended to any buffer by \<open>encode_into\<close> leaves the buffer's earlier bytes
  alone, occupies a multiple of 8 bytes, and is given back by \<open>decode\<close> and \<open>peek\<close> with the
  same LSN, payload and framed length, whatever bytes follow it.\<close>

theorem record_roundtrip:
  assumes "encode_into crc buf l payload = (buf', n)"
    and "length payload \<le> mx" "mx \<le> u32_max"
  shows "take (length buf) buf' = buf \<and> length buf' = length buf + n \<and> n mod 8 = 0
    \<and> 20 + length payload \<le> n \<and> n \<le> 27 + length payload
    \<and> decode crc (drop (length buf) buf' @ rest) mx = Record l payload n
    \<and> peek (drop (length buf) buf' @ rest) = (l, n)"
  using assms decode_frame [of payload mx crc l rest] peek_frame [of payload crc l rest]
    framed_size_bounds [of "length payload"]
  by (auto simp: encode_into_eq framed_size_mod8)

theorem record_roundtrip_witness:
  "decode csum (drop 1 (fst (encode_into csum [7] (Lsn 5) [1, 2, 3])) @ [9]) 10 = Record (Lsn 5) [1, 2, 3] 24"
proof -
  have e: "encode_into csum [7] (Lsn 5) [1, 2, 3] = ([7] @ frame csum (Lsn 5) [1, 2, 3], 24)"
    by (simp add: encode_into_eq framed_size_def padding_for_def)
  show ?thesis
    using record_roundtrip [OF e, of 10 "[9]"] by (simp add: e u32_max_def)
qed

text \<open>Decoding arbitrary bytes is safe: an accepted record respects the payload limit,
  lies inside the buffer, and depends on its own bytes only.\<close>

theorem decode_bounds:
  assumes "decode crc buf mx = Record l payload n"
  shows "length payload \<le> mx \<and> n = framed_size (length payload) \<and> n \<le> length buf
    \<and> payload = window 20 (20 + length payload) buf
    \<and> decode crc (take n buf @ rest) mx = Record l payload n"
proof -
  have "payload = window 20 (20 + length payload) buf"
    using assms framed_size_bounds(1) [of "unat (u32_from_le_bytes (window 4 8 buf))"]
    by (auto simp: decode_Record_iff Let_def min_def)
  then show ?thesis
    using decode_Record_bounds [OF assms] decode_Record_take [OF assms] by blast
qed

theorem decode_bounds_witness:
  "decode csum (take 24 (frame csum (Lsn 5) [1, 2, 3] @ [9]) @ [4]) 10 = Record (Lsn 5) [1, 2, 3] 24"
proof -
  have d: "decode csum (frame csum (Lsn 5) [1, 2, 3] @ [9]) 10 = Record (Lsn 5) [1, 2, 3] 24"
    using decode_frame [of "[1, 2, 3]" 10 csum "Lsn 5" "[9]"]
    by (simp add: u32_max_def framed_size_def padding_for_def)
  from decode_bounds [OF d, of "[4]"] show ?thesis by blast
qed

text \<open>A record with any one byte changed outside its length field is rejected with
  \<open>BadCrc\<close>, provided the checksum detects a change confined to one byte.\<close>

theorem changed_byte_rejected:
  assumes "detects_byte crc" "length payload \<le> mx" "mx \<le> u32_max" "\<not> is_none l"
    and "encode_into crc [] l payload = (bs, n)"
    and "i < n" "i < LEN_OFF \<or> LSN_OFF \<le> i" "b \<noteq> bs ! i"
  shows "decode crc (bs[i := b] @ rest) mx = Invalid BadCrc"
  using decode_changed_byte [of crc payload mx l i b rest] assms
  by (auto simp: encode_into_eq is_none_def)

theorem changed_byte_rejected_witness:
  "decode csum ((frame csum (Lsn 5) [1, 2, 3])[20 := 0] @ [9]) 10 = Invalid BadCrc"
proof -
  have e: "encode_into csum [] (Lsn 5) [1, 2, 3] = (frame csum (Lsn 5) [1, 2, 3], 24)"
    by (simp add: encode_into_eq framed_size_def padding_for_def)
  have "frame csum (Lsn 5) [1, 2, 3] ! 20 = 1"
    by (simp add: frame_def rec_body_def nth_append)
  then show ?thesis
    using changed_byte_rejected [OF csum_detects _ _ _ e, of 10 20 0 "[9]"]
    by (simp add: u32_max_def is_none_def)
qed

text \<open>C35. The 64-bit form of the padding computation agrees with the \<open>usize\<close> form on
  the whole \<open>u64\<close> domain; the framed size does up to 27 below its end, and so never wraps
  for a 32-bit length field.\<close>

theorem u64_sizes_exact:
  "unat (padding_for_u64 w) = padding_for (unat w)
   \<and> unat (framed_size_u64 (ucast len)) = framed_size (unat (len :: u32))
   \<and> (unat w \<le> u64_max - 27 \<longrightarrow> unat (framed_size_u64 w) = framed_size (unat w))"
  using padding_for_u64_nat framed_u32 framed_size_u64_nat by blast

theorem u64_sizes_exact_witness: "unat (framed_size_u64 5) = framed_size (unat (5 :: u64))"
  using u64_sizes_exact [of 5 0] by (simp add: u64_max_def)

section \<open>Segments\<close>

text \<open>A segment header decodes to the base LSN it was encoded with; and whatever bytes
  are accepted as a header name a base that is not the reserved LSN 0.\<close>

theorem header_roundtrip:
  "(\<not> is_none base \<longrightarrow> decode_header crc (encode_header crc base created) = Inr \<lparr>base_lsn = base\<rparr>)
   \<and> (decode_header crc bs = Inr h \<longrightarrow> HEADER_SIZE \<le> length bs \<and> \<not> is_none (base_lsn h))"
  using decode_encode_header decode_header_base by (auto simp: decode_header_def split: if_splits)

theorem header_roundtrip_witness:
  "decode_header csum (encode_header csum (Lsn 7) 99) = Inr \<lparr>base_lsn = Lsn 7\<rparr>"
  using header_roundtrip [of "Lsn 7" csum 99] by (simp add: is_none_def)

text \<open>C36. Segment file names and base LSNs are in bijection: a name parses to a base exactly
  when it is the name of that base, so different segments never share a file.\<close>

theorem filename_bijection:
  "(parse_base_lsn name = Some w \<longleftrightarrow> name = filename_for (Lsn w))
   \<and> (filename_for a = filename_for b \<longleftrightarrow> a = b) \<and> length (filename_for a) = 24"
proof -
  have "length (filename_for a) = 24" using length_pad20 [of "lsn_val a"] by (simp add: filename_for_def)
  then show ?thesis using parse_base_lsn_iff by simp
qed

text \<open>Filling a buffer from a file gives the same result however the kernel splits the
  reads and however often it interrupts them.\<close>

theorem read_full_schedule_independent: "read_full_at ks f off n [] = read_full_at ks' f off n []"
  by (simp add: read_full_at_schedule_independent)

text \<open>C34. On readable media the scanner's two bounded reads amount to decoding what the
  segment holds from the offset on: fewer than 20 bytes left or an all-zero header end the
  records, a decoded record is reported with its own bytes in the buffer, and everything
  else, an incomplete record included, is invalid.\<close>

theorem read_record_at_decodes:
  assumes "healthy f"
  shows "\<exists>buf. read_record_at crc f off ssz mx =
     Inr (if ssz - off < RECORD_HEADER_SIZE then CleanEnd
          else case decode crc (drop off (take ssz (fdata f))) mx of
                 Record l p n \<Rightarrow> ScanRecord l (length p) n
               | Sentinel \<Rightarrow> CleanEnd
               | _ \<Rightarrow> ScanInvalid, buf)"
  using read_record_at_healthy [OF assms, of crc off ssz mx] by (auto simp: scan_bytes_def)

theorem read_record_at_decodes_witness:
  "\<exists>buf. read_record_at csum \<lparr>fdata = zeros 64, fsynced = [], fbad = []\<rparr> 0 64 10 = Inr (CleanEnd, buf)"
proof -
  have h: "healthy \<lparr>fdata = zeros 64, fsynced = [], fbad = []\<rparr>" by (simp add: healthy_def)
  have "decode csum (zeros 64) 10 = Sentinel" by (simp add: decode_Sentinel_iff)
  then show ?thesis using read_record_at_decodes [OF h, of csum 0 64 10] by simp
qed

section \<open>Recovery of one segment\<close>

text \<open>A well-formed segment is recovered exactly, sealed or active: all of its records,
  the offset where they end, a clean tail, and the file untouched.\<close>

theorem clean_segment_recovered:
  assumes "seg_wf ssz mx h n ps" "healthy f" "fdata f = seg_bytes crc h n ps ssz"
  shows "recover_segment crc f (lsn_of n) is_active ssz mx [] =
    (Inr \<lparr>max_lsn = lsn_of (n + length ps - 1), rec_write_offset = 64 + frames_size ps,
          rec_tail_state = Clean\<rparr>, f, [])"
  using recover_segment_clean [OF assms] .

lemma seg_wf_example: "seg_wf 256 8 (zeros 64) 5 [[1, 2], [3], [4]]"
  by (simp add: seg_wf_def u64_max_def u32_max_def framed_size_def padding_for_def)

theorem clean_segment_recovered_witness:
  "fst (recover_segment csum (disk_file (seg_bytes csum (zeros 64) 5 [[1, 2], [3], [4]] 256)) (lsn_of 5) True 256 8 [])
   = Inr \<lparr>max_lsn = lsn_of 7, rec_write_offset = 136, rec_tail_state = Clean\<rparr>"
  using clean_segment_recovered [OF seg_wf_example, of "disk_file (seg_bytes csum (zeros 64) 5 [[1, 2], [3], [4]] 256)" csum True]
  by (simp add: framed_size_def padding_for_def)

text \<open>C28. Damage inside the log of the active segment is never taken for a torn tail: when
  any byte outside the length field of a record that is not the last one is changed, recovery
  fails with \<open>TornMidLog\<close> at that record, and the file is left as it was.\<close>

theorem interior_damage_is_fatal:
  assumes "seg_wf ssz mx h n (ps @ p # q # qs)" "ssz \<le> u64_max" "detects_byte crc"
    and "i < framed_size (length p)" "i < LEN_OFF \<or> LSN_OFF \<le> i"
    and "b \<noteq> frame crc (lsn_of (n + length ps)) p ! i"
    and "healthy f" "fdata f = damaged crc h n ps p i b (q # qs) r"
  shows "recover_segment crc f (lsn_of n) True ssz mx [] =
    (Inl (TornMidLog (lsn_of n) (64 + frames_size ps)), f, [])"
proof -
  have i: "i < 4 \<or> 8 \<le> i" using assms(5) by simp
  note scan = damaged_scan [OF assms(1,3,4) i assms(6), of r, folded assms(8)]
  show ?thesis
    using damaged_stop [OF assms(1,3,4) i assms(6-8)] settle_invalid [OF scan checked_next_in_wf [OF assms(1)]]
      damaged_ahead [OF assms(1,2), of crc i b r] assms(8)
    by simp
qed

lemma example_byte: "(0 :: u8) \<noteq> frame csum (lsn_of (5 + length [[1 :: u8, 2]])) [3] ! 20"
  by (simp add: frame_def rec_body_def nth_append)

theorem interior_damage_is_fatal_witness:
  "fst (recover_segment csum (disk_file (damaged csum (zeros 64) 5 [[1, 2]] [3] 20 0 [[4]] (zeros 120)))
     (lsn_of 5) True 256 8 []) = Inl (TornMidLog (lsn_of 5) 88)"
proof -
  have "seg_wf 256 8 (zeros 64) 5 ([[1, 2]] @ [3] # [4] # [])" using seg_wf_example by simp
  from interior_damage_is_fatal [OF this _ csum_detects _ _ example_byte, of "disk_file (damaged csum (zeros 64) 5 [[1, 2]] [3] 20 0 [[4]] (zeros 120))" "zeros 120"]
  show ?thesis by (simp add: u64_max_def framed_size_def padding_for_def)
qed

text \<open>C30. One changed byte in a sealed segment is fatal, whichever record it hits, anywhere but in
  the length field, and whatever follows: \<open>Corruption\<close> at that record, with no forward scan, and the
  file is left as it was.\<close>

theorem sealed_damage_is_fatal:
  assumes "seg_wf ssz mx h n (ps @ p # qs)" "detects_byte crc"
    and "i < framed_size (length p)" "i < LEN_OFF \<or> LSN_OFF \<le> i"
    and "b \<noteq> frame crc (lsn_of (n + length ps)) p ! i"
    and "healthy f" "fdata f = damaged crc h n ps p i b qs r"
  shows "recover_segment crc f (lsn_of n) False ssz mx [] =
    (Inl (Corruption (lsn_of n) (64 + frames_size ps) ''invalid record in sealed segment''), f, [])"
proof -
  have i: "i < 4 \<or> 8 \<le> i" using assms(4) by simp
  note scan = damaged_scan [OF assms(1,2,3) i assms(5), of r, folded assms(7)]
  show ?thesis
    using damaged_stop [OF assms(1,2,3) i assms(5-7)] settle_invalid [OF scan checked_next_in_wf [OF assms(1)]]
    by simp
qed

theorem sealed_damage_is_fatal_witness:
  "fst (recover_segment csum (disk_file (damaged csum (zeros 64) 5 [[1, 2]] [3] 20 0 [[4]] (zeros 120)))
     (lsn_of 5) False 256 8 []) = Inl (Corruption (lsn_of 5) 88 ''invalid record in sealed segment'')"
proof -
  have "seg_wf 256 8 (zeros 64) 5 ([[1, 2]] @ [3] # [[4]])" using seg_wf_example by simp
  from sealed_damage_is_fatal [OF this csum_detects _ _ example_byte, of "disk_file (damaged csum (zeros 64) 5 [[1, 2]] [3] 20 0 [[4]] (zeros 120))" "zeros 120"]
  show ?thesis by (simp add: framed_size_def padding_for_def)
qed

text \<open>C29. One changed byte in the last record of the active segment, anywhere but in its length
  field, in a file of exactly the segment size, is a torn tail, unless the forward scan finds a record
  ahead that would continue the log: the record is cut off, the file is durably what it would be had
  the record never been written, and the records before it are kept.\<close>

theorem damaged_tail_is_cut_off:
  assumes "seg_wf ssz mx h n (ps @ [p])" "detects_byte crc"
    and "i < framed_size (length p)" "i < LEN_OFF \<or> LSN_OFF \<le> i"
    and "b \<noteq> frame crc (lsn_of (n + length ps)) p ! i"
    and "healthy f" "fdata f = damaged crc h n ps p i b [] r" "length (fdata f) = ssz"
    and "\<not> valid_ahead crc (fdata f) ssz mx (64 + frames_size ps) (lsn_of (n + length ps))"
  shows "\<exists>f'. recover_segment crc f (lsn_of n) True ssz mx [] =
      (Inr \<lparr>max_lsn = lsn_of (n + length ps - 1), rec_write_offset = 64 + frames_size ps,
            rec_tail_state = TruncatedAt (lsn_of n) (64 + frames_size ps)\<rparr>, f', [])
    \<and> fdata f' = seg_bytes crc h n ps ssz \<and> fsynced f' = fdata f'"
proof -
  have i: "i < 4 \<or> 8 \<le> i" using assms(4) by simp
  note scan = damaged_scan [OF assms(1,2,3) i assms(5), of r, folded assms(7)]
  have wf: "64 + frames_size ps \<le> ssz" "length h = 64" using assms(1) by (simp_all add: seg_wf_def)
  have "fdata (zeroed f (64 + frames_size ps) ssz) = seg_bytes crc h n ps ssz"
    using wf assms(8) by (simp add: pwrite_inside) (simp add: assms(7) damaged_def seg_image_def seg_bytes_def)
  then show ?thesis
    using damaged_stop [OF assms(1,2,3) i assms(5-7)] settle_invalid [OF scan checked_next_in_wf [OF assms(1)]]
      assms(9)
    by simp
qed

definition torn_example :: bytes where
  "torn_example = damaged csum (zeros 64) 5 [[1, 2]] [3] 20 0 [] (zeros 32)"

theorem damaged_tail_is_cut_off_witness:
  "\<exists>f'. recover_segment csum (disk_file torn_example) (lsn_of 5) True 144 8 [] =
      (Inr \<lparr>max_lsn = lsn_of 5, rec_write_offset = 88, rec_tail_state = TruncatedAt (lsn_of 5) 88\<rparr>, f', [])
    \<and> fdata f' = seg_bytes csum (zeros 64) 5 [[1, 2]] 144 \<and> fsynced f' = fdata f'"
proof -
  have wf: "seg_wf 144 8 (zeros 64) 5 ([[1, 2]] @ [[3]])"
    by (simp add: seg_wf_def u64_max_def u32_max_def framed_size_def padding_for_def)
  have na: "\<not> valid_ahead csum (fdata (disk_file torn_example)) 144 8 88 (lsn_of 6)"
    by (rule not_valid_ahead_zeros)
      (simp_all add: u64_max_def torn_example_def damaged_def seg_image_def frame_def rec_body_def
        padding_for_def framed_size_def)
  have len: "length (fdata (disk_file torn_example)) = 144"
    by (simp add: torn_example_def damaged_def length_seg_image framed_size_def padding_for_def)
  show ?thesis
    using damaged_tail_is_cut_off [OF wf csum_detects _ _ example_byte, of "disk_file torn_example" "zeros 32"]
      na len by (simp add: framed_size_def padding_for_def torn_example_def)
qed

lemma embedded_ahead:
  assumes "seg_wf ssz mx h n (ps @ [p])" "ssz \<le> u64_max" "i < 20 + length a" "p = a @ frame crc (lsn_of k) q @ z"
    "(20 + length a) mod 8 = 0" "n + length ps \<le> k" "k \<le> u64_max"
  shows "valid_ahead crc (damaged crc h n ps p i b [] r) ssz mx (64 + frames_size ps) (lsn_of (n + length ps))"
proof -
  let ?l = "lsn_of (n + length ps)" and ?E = "frame crc (lsn_of k) q" and ?m = "20 + length a"
  let ?X = "take ?m (frame crc ?l p)" and ?t = "z @ zeros (padding_for (length p))"
  have fr: "frame crc ?l p = ?X @ ?E @ ?t"
    by (simp add: frame_def rec_body_def assms(4) take_Cons')
  have m: "?m \<le> framed_size (length p)" using framed_size_bounds(1) [of "length p"] by (simp add: assms(4))
  then have lX: "length ?X = ?m" by simp
  have up: "(frame crc ?l p)[i := b] = ?X[i := b] @ ?E @ ?t"
    using assms(3) lX by (subst fr) (simp add: list_update_append del: take_update_swap)
  have len: "length (h @ frames crc n ps @ ?X[i := b]) = 64 + frames_size ps + ?m"
    using assms(1) lX by (simp add: seg_wf_def)
  have p: "length p \<le> mx" "mx \<le> u32_max" "64 + frames_size ps + framed_size (length p) \<le> ssz"
    using assms(1) by (simp_all add: seg_wf_def)
  have sz: "length q \<le> length p" "?m + framed_size (length q) \<le> framed_size (length p)" "length a \<le> length p"
    using framed_size_bounds(1) [of "length p"] framed_size_bounds(1) [of "length q"] by (simp_all add: assms(4))
  have "scan_bytes crc (damaged crc h n ps p i b [] r) (64 + frames_size ps + ?m) ssz mx
      = ScanRecord (lsn_of k) (length q) (framed_size (length q))"
    using scan_bytes_frame [of q mx "h @ frames crc n ps @ ?X[i := b]" ssz crc "lsn_of k" "?t @ r"] p sz len
    by (simp add: damaged_def seg_image_def up)
  then show ?thesis
    by (rule valid_aheadI) (use assms(2,5-7) p m sz in \<open>simp_all add: lsn_le_iff\<close>)
qed

text \<open>C26. The exception is real: when the payload of the last record holds, at an offset that is
  a multiple of eight in the file (the forward scan looks nowhere else), the bytes of a record that
  would continue the log, one changed byte of the carrying record, outside its length field and
  before the embedded bytes, is reported as \<open>TornMidLog\<close> and the log does not open, although nothing
  need have been written after the damaged record.\<close>

theorem embedded_record_is_fatal:
  assumes "seg_wf ssz mx h n (ps @ [p])" "ssz \<le> u64_max" "detects_byte crc"
    and "p = a @ frame crc (lsn_of k) q @ z" "(20 + length a) mod 8 = 0" "n + length ps \<le> k" "k \<le> u64_max"
    and "i < LEN_OFF \<or> LSN_OFF \<le> i" "i < 20 + length a" "b \<noteq> frame crc (lsn_of (n + length ps)) p ! i"
    and "healthy f" "fdata f = damaged crc h n ps p i b [] r"
  shows "recover_segment crc f (lsn_of n) True ssz mx [] =
    (Inl (TornMidLog (lsn_of n) (64 + frames_size ps)), f, [])"
proof -
  have i: "i < framed_size (length p)" "i < 4 \<or> 8 \<le> i"
    using assms(8,9) framed_size_bounds(1) [of "length p"] by (simp_all add: assms(4))
  note scan = damaged_scan [OF assms(1,3) i(1,2) assms(10), of r, folded assms(12)]
  show ?thesis
    using damaged_stop [OF assms(1,3) i(1,2) assms(10-12)] settle_invalid [OF scan checked_next_in_wf [OF assms(1)]]
      embedded_ahead [OF assms(1,2,9,4-7), of b r] assms(12)
    by simp
qed

theorem embedded_record_is_fatal_witness:
  "\<exists>b. fst (recover_segment csum (disk_file (damaged csum (zeros 64) 5 [] (zeros 4 @ frame csum (lsn_of 6) []) 0 b [] (zeros 40)))
     (lsn_of 5) True 152 28 []) = Inl (TornMidLog (lsn_of 5) 64)"
proof -
  let ?p = "zeros 4 @ frame csum (lsn_of 6) [] @ []"
  have wf: "seg_wf 152 28 (zeros 64) 5 ([] @ [?p])"
    by (simp add: seg_wf_def u64_max_def u32_max_def framed_size_def padding_for_def)
  obtain b where b: "b \<noteq> frame csum (lsn_of (5 + length ([] :: bytes list))) ?p ! 0"
    using zero_neq_one [where ?'a = u8] by metis
  from embedded_record_is_fatal [OF wf _ csum_detects refl _ _ _ _ _ b, of "disk_file (damaged csum (zeros 64) 5 [] ?p 0 b [] (zeros 40))" "zeros 40"]
  show ?thesis by (intro exI [of _ b]) (simp add: u64_max_def)
qed

text \<open>C25. Stale bytes beyond a zero header are kept and can come back: when a torn write left the
  place of record \<open>p\<close> zero but the record after it in place, recovery reports a clean tail that
  ends before \<open>p\<close> and does not clear the rest; once a new record of the same size is written
  there, the next recovery takes the stale record for the continuation of the log.\<close>

theorem zero_header_keeps_stale_record:
  assumes "seg_wf ssz mx h n (ps @ [p, q])" "healthy f" "length p' = length p"
    and "fdata f = seg_image crc h n ps (zeros (framed_size (length p)) @ frame crc (lsn_of (n + length ps + 1)) q
           @ zeros (ssz - 64 - frames_size (ps @ [p, q])))"
  shows "recover_segment crc f (lsn_of n) True ssz mx [] =
      (Inr \<lparr>max_lsn = lsn_of (n + length ps - 1), rec_write_offset = 64 + frames_size ps, rec_tail_state = Clean\<rparr>, f, [])
    \<and> recover_segment crc (f\<lparr>fdata := pwrite (64 + frames_size ps) (frame crc (lsn_of (n + length ps)) p') (fdata f)\<rparr>)
        (lsn_of n) True ssz mx [] =
      (Inr \<lparr>max_lsn = lsn_of (n + length ps + 1), rec_write_offset = 64 + frames_size (ps @ [p, q]), rec_tail_state = Clean\<rparr>,
       f\<lparr>fdata := seg_bytes crc h n (ps @ [p', q]) ssz\<rparr>, [])"
proof -
  have wf: "seg_wf ssz mx h n ps" "64 + frames_size ps + framed_size (length p) \<le> ssz" and h: "length h = 64"
    using assms(1) by (simp_all add: seg_wf_def)
  have wf': "seg_wf ssz mx h n (ps @ [p', q])" using assms(1,3) by (simp add: seg_wf_def)
  let ?x = "64 + frames_size ps" and ?k = "framed_size (length p)"
  have len: "length (fdata f) = ssz"
    using assms(1) h by (simp add: assms(4) length_seg_image seg_wf_def)
  have "take ?k (drop ?x (fdata f)) = zeros ?k"
    using h by (simp add: assms(4) seg_image_def)
  moreover have "drop ?x (take ssz (fdata f)) = drop ?x (fdata f)" by (simp add: len)
  ultimately have "take 20 (drop ?x (take ssz (fdata f))) = take 20 (zeros ?k)"
    using framed_size_ge24 [of "length p"] take_take [of 20 ?k "drop ?x (fdata f)"] by simp
  then have "take 20 (drop ?x (take ssz (fdata f))) = zeros 20"
    using framed_size_ge24 [of "length p"] by simp
  moreover have "20 \<le> ssz - ?x" using wf(2) framed_size_ge24 [of "length p"] by linarith
  ultimately have "decode crc (drop ?x (take ssz (fdata f))) mx = Sentinel" "\<not> ssz - ?x < 20"
    using len by (simp_all add: decode_Sentinel_iff)
  then have cl: "scan_bytes crc (fdata f) ?x ssz mx = CleanEnd" by (simp add: scan_bytes_def)
  then have "settle crc f (lsn_of n) True ssz mx l ?x = (Inr \<lparr>max_lsn = l, rec_write_offset = ?x, rec_tail_state = Clean\<rparr>, f)" for l
    by (simp add: settle_def)
  moreover have "recover_segment crc f (lsn_of n) True ssz mx [] =
      (let s = settle crc f (lsn_of n) True ssz mx (lsn_of (n + length ps - 1)) ?x in (fst s, snd s, []))"
    by (rule recover_segment_image [OF wf(1) assms(2,4)]) (use cl assms(4) in simp)
  ultimately have first: "recover_segment crc f (lsn_of n) True ssz mx [] =
      (Inr \<lparr>max_lsn = lsn_of (n + length ps - 1), rec_write_offset = ?x, rec_tail_state = Clean\<rparr>, f, [])" by simp
  let ?g = "f\<lparr>fdata := pwrite ?x (frame crc (lsn_of (n + length ps)) p') (fdata f)\<rparr>"
  have g: "fdata ?g = seg_bytes crc h n (ps @ [p', q]) ssz"
    using h assms(3) len wf(2)
    by (simp add: pwrite_inside) (simp add: assms(4) seg_image_def seg_bytes_def frames_append)
  moreover have "healthy ?g" using assms(2) by (simp add: healthy_def)
  ultimately show ?thesis
    using first recover_segment_clean [OF wf', of ?g crc True] assms(3) by simp
qed

theorem zero_header_keeps_stale_record_witness:
  "fst (recover_segment csum ((disk_file (seg_image csum (zeros 64) 5 [[1, 2]] (zeros 24 @ frame csum (lsn_of 7) [4] @ zeros 120)))
      \<lparr>fdata := pwrite 88 (frame csum (lsn_of 6) [9]) (seg_image csum (zeros 64) 5 [[1, 2]] (zeros 24 @ frame csum (lsn_of 7) [4] @ zeros 120))\<rparr>)
     (lsn_of 5) True 256 8 []) = Inr \<lparr>max_lsn = lsn_of 7, rec_write_offset = 136, rec_tail_state = Clean\<rparr>"
proof -
  let ?f = "disk_file (seg_image csum (zeros 64) 5 [[1, 2]] (zeros 24 @ frame csum (lsn_of 7) [4] @ zeros 120))"
  have wf: "seg_wf 256 8 (zeros 64) 5 ([[1, 2]] @ [[3], [4]])" using seg_wf_example by simp
  have d: "fdata ?f = seg_image csum (zeros 64) 5 [[1, 2]] (zeros (framed_size (length [3 :: u8])) @ frame csum (lsn_of (5 + length [[1 :: u8, 2]] + 1)) [4]
      @ zeros (256 - 64 - frames_size ([[1, 2]] @ [[3], [4]])))" by (simp add: framed_size_def padding_for_def)
  show ?thesis
    using zero_header_keeps_stale_record [OF wf _ _ d, of "[9]"] by (simp add: framed_size_def padding_for_def)
qed

text \<open>C27. Recovery is idempotent on arbitrary bytes: whatever it has accepted, cutting off a
  torn tail or not, a second recovery of the file it leaves finds the same records and offset,
  a clean tail, and changes nothing.\<close>

theorem recovery_idempotent:
  assumes "healthy f" "\<not> is_none base" "64 \<le> length (fdata f)" "64 \<le> ssz"
    and "recover_segment crc f base is_active ssz mx [] = (Inr r, f', flts)"
  shows "recover_segment crc f' base is_active ssz mx [] = (Inr (r\<lparr>rec_tail_state := Clean\<rparr>), f', [])"
  using recover_segment_again [OF assms] .

theorem recovery_idempotent_witness:
  "\<exists>f'. recover_segment csum f' (lsn_of 5) True 256 8 [] =
    (Inr \<lparr>max_lsn = lsn_of 7, rec_write_offset = 136, rec_tail_state = Clean\<rparr>, f', [])"
proof -
  let ?f = "disk_file (seg_bytes csum (zeros 64) 5 [[1, 2], [3], [4]] 256)"
  have r: "recover_segment csum ?f (lsn_of 5) True 256 8 [] =
      (Inr \<lparr>max_lsn = lsn_of 7, rec_write_offset = 136, rec_tail_state = Clean\<rparr>, ?f, [])"
    using recover_segment_clean [OF seg_wf_example, of ?f csum True]
    by (simp add: framed_size_def padding_for_def)
  have "recover_segment csum ?f (lsn_of 5) True 256 8 [] =
      (Inr (\<lparr>max_lsn = lsn_of 7, rec_write_offset = 136, rec_tail_state = Clean\<rparr>\<lparr>rec_tail_state := Clean\<rparr>), ?f, [])"
    by (rule recovery_idempotent [OF _ _ _ _ r])
      (simp_all add: is_none_iff u64_max_def length_seg_bytes [OF seg_wf_example])
  then show ?thesis by auto
qed

text \<open>C31. Whatever the media and the system calls do, recovery never changes a sealed segment,
  and on the active one it only writes zeros, from an offset behind the header on; when it
  succeeds that offset is the one it reports, and the cut has been synced.\<close>

theorem recovery_only_zeroes_the_tail:
  assumes "recover_segment crc f base is_active ssz mx flts = (res, f', rest)"
  shows "\<exists>x \<ge> HEADER_SIZE. only_zeroes_from x ssz f f' \<and> (\<not> is_active \<longrightarrow> f' = f)
    \<and> (\<forall>r. res = Inr r \<longrightarrow> rec_write_offset r = x
         \<and> (rec_tail_state r = Clean \<and> f' = f
            \<or> rec_tail_state r = TruncatedAt base x \<and> fsynced f' = fdata f'))"
proof -
  let ?ctx = "\<lparr>ctx_base = base, ctx_is_active = is_active, ctx_segment_size = ssz, ctx_max_record_size = mx\<rparr>"
  have "recovery_effect ?ctx f 64 (res, f', rest)"
    using recover_loop_effect [of ?ctx f 64 crc flts "Some base" "Lsn (lsn_val base - 1)"] assms
    by (simp add: recover_segment_def Let_def)
  then show ?thesis by (simp add: recovery_effect_def) blast
qed

theorem recovery_only_zeroes_the_tail_witness:
  "\<exists>x \<ge> HEADER_SIZE. only_zeroes_from x 144 (disk_file [])
     (fst (snd (recover_segment csum (disk_file []) (lsn_of 5) True 144 8 [Fault OtherIo 3])))"
proof -
  obtain res f' rest where r: "recover_segment csum (disk_file []) (lsn_of 5) True 144 8 [Fault OtherIo 3]
      = (res, f', rest)" by (cases "recover_segment csum (disk_file []) (lsn_of 5) True 144 8 [Fault OtherIo 3]")
  from recovery_only_zeroes_the_tail [OF r] r show ?thesis by auto
qed

text \<open>C32. Whatever bytes a readable segment holds, what recovery accepts is a dense run of
  records from the base on, each within the payload limit, ending inside the segment at the
  reported offset and LSN; and what it refuses it refuses as \<open>TornMidLog\<close> or \<open>Corruption\<close>
  of this segment.\<close>

theorem recovered_run_is_dense:
  assumes "healthy f" "\<not> is_none base" "64 \<le> length (fdata f)" "64 \<le> ssz"
    and "parse_run crc (fdata f) ssz mx 64 (Some base) = (rs, x)"
  shows "map fst rs = map lsn_of [lsn_nat base ..< lsn_nat base + length rs]
    \<and> list_all (\<lambda>r. length (snd r) \<le> mx) rs \<and> x \<le> ssz \<and> x \<le> length (fdata f)
    \<and> (case fst (recover_segment crc f base is_active ssz mx []) of
         Inr r \<Rightarrow> rec_write_offset r = x \<and> Suc (lsn_nat (max_lsn r)) = lsn_nat base + length rs
       | Inl e \<Rightarrow> (\<exists>d. e = TornMidLog base x \<or> e = Corruption base x d))"
proof -
  let ?lv0 = "Lsn (lsn_val base - 1)"
  have nx: "checked_next ?lv0 = Some base" by (rule checked_next_pred [OF assms(2)])
  then have b: "Suc (lsn_nat ?lv0) = lsn_nat base" by (simp add: checked_next_Some)
  note pe = parse_run_end [OF assms(5) [folded nx]]
  let ?s = "settle crc f base is_active ssz mx (run_last ?lv0 rs) x"
  have "case fst ?s of Inr r \<Rightarrow> rec_write_offset r = x \<and> Suc (lsn_nat (max_lsn r)) = lsn_nat base + length rs
       | Inl e \<Rightarrow> (\<exists>d. e = TornMidLog base x \<or> e = Corruption base x d)"
    using pe(5) b by (auto simp: settle_def Let_def split: scan_outcome.splits option.splits)
  moreover have "map fst rs = map lsn_of [lsn_nat base ..< lsn_nat base + length rs]"
    using pe(6) b by (metis add_Suc)
  ultimately show ?thesis
    using recover_segment_settle [OF assms(1,2,3,5), of is_active] pe(2,3,7) assms(3,4)
    by (simp add: Let_def)
qed

theorem recovered_run_is_dense_witness:
  "\<exists>rs x. parse_run csum (seg_bytes csum (zeros 64) 5 [[1, 2], [3], [4]] 256) 256 8 64 (Some (lsn_of 5)) = (rs, x)
     \<and> map fst rs = map lsn_of [5 ..< 5 + length rs] \<and> x \<le> 256"
proof -
  obtain rs x where r: "parse_run csum (fdata (disk_file (seg_bytes csum (zeros 64) 5 [[1, 2], [3], [4]] 256))) 256 8 64
      (Some (lsn_of 5)) = (rs, x)" by fastforce
  from recovered_run_is_dense [OF _ _ _ _ r, of True] r show ?thesis
    by (simp add: is_none_iff u64_max_def length_seg_bytes [OF seg_wf_example])
qed

text \<open>The forward scan is bounded and complete: on readable media it answers whether one
  of the 8-aligned offsets in the window of \<open>scan_bound\<close> bytes ahead holds a valid record that
  continues the log at or after the expected LSN.\<close>

theorem forward_scan_window:
  assumes "healthy f" "x + 8 + scan_bound (ctx_max_record_size ctx) \<le> u64_max"
  shows "forward_scan_finds_valid crc f ctx x expected =
    Inr (\<exists>i. 8 * i \<le> scan_bound (ctx_max_record_size ctx) \<and>
       (\<exists>l p n. 20 \<le> ctx_segment_size ctx - (x + 8 + 8 * i) \<and> expected \<le> l
          \<and> decode crc (drop (x + 8 + 8 * i) (take (ctx_segment_size ctx) (fdata f)))
               (ctx_max_record_size ctx) = Record l p n))"
proof -
  have "(\<exists>l k n. scan_bytes crc d off ssz mx = ScanRecord l k n \<and> e \<le> l) \<longleftrightarrow>
      (\<exists>l p n. 20 \<le> ssz - off \<and> e \<le> l \<and> decode crc (drop off (take ssz d)) mx = Record l p n)"
    for d off ssz mx e
    by (auto simp: scan_bytes_def split: decoded.splits)
  then show ?thesis
    using assms
    by (simp add: forward_scan_finds_valid_healthy valid_ahead_def saturating_add_exact add.assoc)
qed

theorem forward_scan_window_witness:
  "\<exists>v. forward_scan_finds_valid csum (disk_file (zeros 144))
    \<lparr>ctx_base = lsn_of 5, ctx_is_active = True, ctx_segment_size = 144, ctx_max_record_size = 8\<rparr> 88 (lsn_of 6) = Inr v"
  using forward_scan_window [of "disk_file (zeros 144)" 88
    "\<lparr>ctx_base = lsn_of 5, ctx_is_active = True, ctx_segment_size = 144, ctx_max_record_size = 8\<rparr>" csum "lsn_of 6"]
  by (simp add: u64_max_def scan_bound_def)

end
