(* ===== verification/Wal_Guarantees.thy ===== *)
theory Wal_Guarantees
  imports Wal_Contract Wal_Format
begin

text \<open>
  What a user of the log can rely on: the properties of the handle's operations, of its
  crashes and of the handle's whole life.
\<close>

section \<open>Sound states\<close>

text \<open>The handle and the directory agree on a log \<open>ss\<close> and on the records staged after it.\<close>

definition sound :: "(bytes \<Rightarrow> u32) \<Rightarrow> aseg list \<Rightarrow> bytes list \<Rightarrow> 'o wal \<Rightarrow> disk \<Rightarrow> bool" where
  "sound crc ss staged w d \<longleftrightarrow> wal_inv crc w ss staged \<and> holds crc (unat (segment_size w)) ss d"

definition config_of :: "'o wal \<Rightarrow> wal_config" where
  "config_of w = \<lparr>cfg_segment_size = segment_size w, cfg_max_record_size = max_record_size w\<rparr>"

lemma config_of_simps [simp]:
  "cfg_segment_size (config_of w) = segment_size w" "cfg_max_record_size (config_of w) = max_record_size w"
  by (simp_all add: config_of_def)

lemma soundD:
  assumes "sound crc ss staged w d"
  shows "wal_inv crc w ss staged" "holds crc (unat (segment_size w)) ss d"
    "segs_ok crc (unat (segment_size w)) (unat (max_record_size w)) ss" "cfg_ok (config_of w)" "\<not> poisoned w"
    "durable_lsn w = lsn_of (log_end ss - 1)" "0 < log_end ss" "log_end ss + length staged \<le> Suc u64_max"
  using assms wal_core_segs [of crc w ss] segs_ok_last(2)
  by (auto simp: sound_def wal_inv_def wal_core_def wal_staged_def cfg_ok_def)

lemma live_sound: "live crc cfg seed (w, d) v \<Longrightarrow>
    \<exists>ss. sound crc ss (v_staged v) w d \<and> log_base ss = v_base v \<and> log_of ss = v_log v \<and> log_end ss = v_end v
      \<and> dfaults d = [] \<and> lock_held d \<and> config_of w = cfg"
  by (erule liveE) (auto simp: sound_def config_of_def)

section \<open>An example\<close>

definition ex_cfg :: wal_config where
  "ex_cfg = \<lparr>cfg_segment_size = 256, cfg_max_record_size = 8\<rparr>"

definition ex_disk :: disk where
  "ex_disk = \<lparr>entries = [], pending = [], dfaults = [], lock_held = False\<rparr>"

definition ex_clock :: "lsn \<Rightarrow> u64" where
  "ex_clock l = 0"

lemma ex_cfg_ok [simp]: "cfg_ok ex_cfg"
  by (simp add: cfg_ok_def ex_cfg_def)

lemma FIRST_not_none [simp]: "\<not> is_none FIRST"
  by (simp add: is_none_iff)

lemma ex_disk_simps [simp]: "dfaults ex_disk = []" "\<not> lock_held ex_disk" "has_segs [] ex_disk" "names_settled ex_disk"
  by (simp_all add: ex_disk_def has_segs_def names_settled_def)

lemma ex_opened:
  "\<exists>w d. open_seeded csum ex_clock ex_cfg [] FIRST ex_disk =
      (Inr (w, \<lparr>report_oldest_lsn = lsn_of 1, report_durable_lsn = lsn_of 0,
                report_tail_state = Clean, report_segments_scanned = 1\<rparr>), d)
    \<and> live csum ex_cfg FIRST (w, d) \<lparr>v_base = 1, v_log = [], v_staged = []\<rparr> \<and> observer w = ([] :: lsn list)"
proof -
  obtain w d where o: "open_seeded csum ex_clock ex_cfg [] FIRST ex_disk =
      (Inr (w, \<lparr>report_oldest_lsn = FIRST, report_durable_lsn = lsn_of 0,
                report_tail_state = Clean, report_segments_scanned = 1\<rparr>), d)"
    "wal_inv csum w [new_seg csum ex_clock 1] []"
    "holds csum (unat (cfg_segment_size ex_cfg)) [new_seg csum ex_clock 1] d" "lock_held d" "dfaults d = []"
    "segment_size w = cfg_segment_size ex_cfg" "max_record_size w = cfg_max_record_size ex_cfg" "observer w = ([] :: lsn list)"
    using open_cold [OF ex_cfg_ok FIRST_not_none, of ex_disk csum ex_clock "[] :: lsn list"] by (simp del: One_nat_def) blast
  moreover have "FIRST = lsn_of 1" by (simp add: FIRST_def lsn_of_def)
  ultimately show ?thesis by (auto simp: live_def log_base_def log_of_def)
qed

lemma ex_staged:
  "\<exists>w d. live csum ex_cfg FIRST (w :: lsn list wal, d) \<lparr>v_base = 1, v_log = [], v_staged = [[1], [2]]\<rparr>"
proof -
  have f: "fits_record ex_cfg [x]" for x by (simp add: fits_record_def ex_cfg_def)
  obtain w d where "live csum ex_cfg FIRST (w :: lsn list wal, d) \<lparr>v_base = 1, v_log = [], v_staged = []\<rparr>"
    using ex_opened by blast
  from wl.add_law [OF this f [of 1]] obtain s where
    "live csum ex_cfg FIRST (s :: lsn list wal \<times> disk) \<lparr>v_base = 1, v_log = [], v_staged = [[1]]\<rparr>"
    by (auto simp: v_next_def v_end_def u64_max_def)
  from wl.add_law [OF this f [of 2]] show ?thesis by (auto simp: v_next_def v_end_def u64_max_def)
qed

lemma ex_logged:
  "\<exists>w d. live csum ex_cfg FIRST (w :: lsn list wal, d) \<lparr>v_base = 1, v_log = [[1], [2]], v_staged = []\<rparr>"
proof -
  obtain w d where "live csum ex_cfg FIRST (w :: lsn list wal, d) \<lparr>v_base = 1, v_log = [], v_staged = [[1], [2]]\<rparr>"
    using ex_staged by blast
  from wl.sync_law [OF this, of ex_clock "\<lambda>l ob. ob @ [l]"] show ?thesis by auto
qed

lemma ex_sound:
  "\<exists>w d ss. sound csum ss [[1], [2]] (w :: lsn list wal) d \<and> log_base ss = 1 \<and> log_of ss = [] \<and> log_end ss = 1
     \<and> dfaults d = [] \<and> lock_held d \<and> config_of w = ex_cfg"
  using ex_staged live_sound by (fastforce simp: v_end_def)

lemma ex_sound_log:
  "\<exists>w d ss. sound csum ss [] (w :: lsn list wal) d \<and> log_base ss = 1 \<and> log_of ss = [[1], [2]] \<and> log_end ss = 3
     \<and> dfaults d = [] \<and> lock_held d \<and> config_of w = ex_cfg"
  using ex_logged live_sound by (fastforce simp: v_end_def)

section \<open>Durability across crashes\<close>

lemma restored_on:
  assumes "sound crc ss staged w d" "crash d d'" "dfaults d' = []" "\<not> is_none seed"
  shows "restored crc (config_of w) ob ss (open_seeded crc clk (config_of w) ob seed d')"
proof -
  note s = soundD [OF assms(1)]
  have lk: "\<not> lock_held d'" using assms(2) by (auto simp: crash_def power_loss_def)
  have "holds crc (unat (cfg_segment_size (config_of w))) ss d'" using holds_crash [OF s(2) assms(2)] by simp
  from open_holds [OF s(4) assms(4,3) lk _ this, of clk ob] s(3) show ?thesis unfolding restored_def by auto
qed

text \<open>
  After a commit, successful or not, and a crash: the log reopens to at least what was
  acknowledged, or it is refused.
\<close>

lemma commit_crash_reopens:
  assumes s: "sound crc ss staged w d" and c: "commit crc clock on_durable w d = (res, w', d1)"
    and cr: "crash d1 d2" "dfaults d2 = []" "\<not> is_none seed"
  shows "\<exists>j ss' ss2. j \<le> length staged \<and> durable_lsn w' = lsn_of (log_end ss + j - 1)
    \<and> (\<forall>l. res = Inr l \<longrightarrow> j = length staged \<and> l = durable_lsn w')
    \<and> grown ss (take j staged) ss' \<and> same_log ss' ss2
    \<and> segs_ok crc (unat (segment_size w)) (unat (max_record_size w)) ss2
    \<and> reopens crc (config_of w) ob ss2 (open_seeded crc clk (config_of w) ob seed d2)"
proof -
  note sd = soundD [OF s]
  from commit_cases [OF c sd(1,2)] show ?thesis
  proof (elim disjE exE conjE)
    fix ss' ls
    assume r: "res = Inr (lsn_of (log_end ss + length staged - 1))" "wal_inv crc w' ss' []" "grown ss staged ss'"
      "holds crc (unat (segment_size w)) ss' d1" "segment_size w' = segment_size w" "max_record_size w' = max_record_size w"
    have s': "sound crc ss' [] w' d1" using r by (simp add: sound_def)
    have cfg: "config_of w' = config_of w" using r(5,6) by (simp add: config_of_def)
    have ok: "segs_ok crc (unat (segment_size w)) (unat (max_record_size w)) ss'" using soundD(3) [OF s'] r(5,6) by simp
    have "reopens crc (config_of w) ob ss' (open_seeded crc clk (config_of w) ob seed d2)"
      using restored_on [OF s' cr, of ob clk] ok unfolding cfg by (intro restored_reopens) simp_all
    moreover have "durable_lsn w' = lsn_of (log_end ss + length staged - 1)"
      using soundD(6) [OF s'] r(3) by (simp add: grown_def)
    ultimately show ?thesis
      using r(1,3) ok by (intro exI [of _ "length staged"] exI [of _ ss'] exI [of _ ss']) (simp add: same_log_def)
  next
    fix e assume e: "res = Inl e" and f: "loop_failed crc clock on_durable w ss staged w' d1"
    from f obtain j ss' where j: "j \<le> length staged" "grown ss (take j staged) ss'"
      "wal_core crc (w'\<lparr>poisoned := False\<rparr>) ss'" "durable_lsn w' = lsn_of (log_end ss' - 1)"
      "interrupted crc clock (unat (segment_size w)) (unat (max_record_size w)) ss' (drop j staged) d1"
      "segment_size w' = segment_size w" "max_record_size w' = max_record_size w" by (auto simp: loop_failed_def)
    have ok: "segs_ok crc (unat (cfg_segment_size (config_of w))) (unat (cfg_max_record_size (config_of w))) ss'"
      using wal_core_segs [OF j(3)] j(6,7) by simp
    have "interrupted crc clock (unat (cfg_segment_size (config_of w))) (unat (cfg_max_record_size (config_of w))) ss' (drop j staged) d1"
      using j(5) by simp
    from interrupted_reopens [OF sd(4) cr(3,2) ok this cr(1), of ob clk]
    obtain ss2 where "same_log ss' ss2" "segs_ok crc (unat (segment_size w)) (unat (max_record_size w)) ss2"
      "reopens crc (config_of w) ob ss2 (open_seeded crc clk (config_of w) ob seed d2)" by auto
    moreover have "durable_lsn w' = lsn_of (log_end ss + j - 1)" using j(1,2,4) by (simp add: grown_def)
    ultimately show ?thesis
      using e j(1,2) by - (rule exI [of _ j], rule exI [of _ ss'], rule exI [of _ ss2], simp)
  qed
qed

text \<open>C1. Acknowledged records survive. Whatever system calls fail during a commit, and whether
  then the process or the machine stops: reopening the directory either is refused with an
  error, or gives a handle whose watermark is at least the one the commit had acknowledged and
  whose replay is, byte for byte and LSN for LSN, the acknowledged log, followed only by records
  with the next consecutive LSNs up to the recovered watermark, without an error.\<close>

theorem acknowledged_survives_crash:
  assumes "sound crc ss staged w d" "commit crc clock on_durable w d = (res, w', d1)"
    and "crash d1 d2" "dfaults d2 = []" "\<not> is_none seed"
  shows "\<exists>j \<le> length staged. durable_lsn w' = lsn_of (log_end ss + j - 1)
    \<and> (\<forall>l. res = Inr l \<longrightarrow> j = length staged \<and> l = durable_lsn w')
    \<and> (case open_seeded crc clk (config_of w) ob seed d2 of
         (Inr (w2, rep), d3) \<Rightarrow> durable_lsn w' \<le> durable_lsn w2
           \<and> (\<exists>rd extra. reader_from NONE w2 d3 = (Inr rd, d3)
                \<and> drain crc rd d3 = (number_from (log_base ss) (log_of ss @ take j staged) @ extra, None)
                \<and> map fst extra = map lsn_of [log_end ss + j ..< Suc (lsn_nat (durable_lsn w2))])
       | (Inl e, d3) \<Rightarrow> refuses e)"
proof -
  obtain j ss' ss2 where j: "j \<le> length staged" "durable_lsn w' = lsn_of (log_end ss + j - 1)"
    "\<forall>l. res = Inr l \<longrightarrow> j = length staged \<and> l = durable_lsn w'" and g: "grown ss (take j staged) ss'" "same_log ss' ss2"
    and ok: "segs_ok crc (unat (segment_size w)) (unat (max_record_size w)) ss2"
    and ro: "reopens crc (config_of w) ob ss2 (open_seeded crc clk (config_of w) ob seed d2)"
    using commit_crash_reopens [OF assms(1-5), of ob clk] by blast
  have log: "log_base ss2 = log_base ss" "log_of ss2 = log_of ss @ take j staged" "log_end ss2 = log_end ss + j"
    using g j(1) by (auto simp: grown_def same_log_def)
  have lim: "log_end ss + j - 1 \<le> u64_max" using soundD(8) [OF assms(1)] j(1) by simp
  obtain out d3 where od: "open_seeded crc clk (config_of w) ob seed d2 = (out, d3)" by fastforce
  show ?thesis
  proof (cases out)
    case (Inl e)
    then show ?thesis using j ro od by (auto simp: reopens_def)
  next
    case (Inr wr)
    obtain w2 rep where wr: "wr = (w2, rep)" by fastforce
    have sv: "serves crc (config_of w) ob ss2 w2 rep d3" using ro od Inr wr by (simp add: reopens_def)
    from serves_replay [OF sv] ok obtain rd extra where r: "reader_from NONE w2 d3 = (Inr rd, d3)"
      "drain crc rd d3 = (number_from (log_base ss2) (log_of ss2) @ extra, None)"
      "map fst extra = map lsn_of [log_end ss2 ..< Suc (lsn_nat (durable_lsn w2))]"
      "log_end ss2 \<le> Suc (lsn_nat (durable_lsn w2))" by auto
    have "durable_lsn w' \<le> durable_lsn w2" using j(2) r(4) lim by (simp add: lsn_le_iff log(3))
    then show ?thesis using j od Inr wr r by (intro exI [of _ j]) (auto simp: log)
  qed
qed

lemma crash_process: "crash d (d\<lparr>lock_held := False, dfaults := []\<rparr>)"
  by (simp add: crash_def)

theorem acknowledged_survives_crash_witness:
  "\<exists>(w :: lsn list wal) d ss. sound csum ss [[1], [2]] w d \<and> log_of ss = [] \<and>
    (case commit csum ex_clock (\<lambda>l ob. ob @ [l]) w (d\<lparr>dfaults := [NoFault, Fault OtherIo 0]\<rparr>) of (res, w', d1) \<Rightarrow>
       \<exists>j \<le> 2. durable_lsn w' = lsn_of j \<and>
         (case open_seeded csum ex_clock ex_cfg () FIRST (d1\<lparr>lock_held := False, dfaults := []\<rparr>) of
            (Inr (w2, rep), d3) \<Rightarrow> \<exists>rd extra. reader_from NONE w2 d3 = (Inr rd, d3)
              \<and> drain csum rd d3 = (number_from 1 (take j [[1], [2]]) @ extra, None)
          | (Inl e, d3) \<Rightarrow> refuses e))"
proof -
  obtain w :: "lsn list wal" and d ss where s: "sound csum ss [[1], [2]] w d" "log_base ss = 1" "log_of ss = []" "log_end ss = 1"
    and cf: "config_of w = ex_cfg" using ex_sound by blast
  let ?d = "d\<lparr>dfaults := [NoFault, Fault OtherIo 0]\<rparr>"
  have s': "sound csum ss [[1], [2]] w ?d" using s(1) by (simp add: sound_def)
  obtain res w' d1 where c: "commit csum ex_clock (\<lambda>l ob. ob @ [l]) w ?d = (res, w', d1)"
    by (cases "commit csum ex_clock (\<lambda>l ob. ob @ [l]) w ?d")
  obtain j where j: "j \<le> length [[1], [2] :: bytes]" "durable_lsn w' = lsn_of (log_end ss + j - 1)"
    "case open_seeded csum ex_clock (config_of w) () FIRST (d1\<lparr>lock_held := False, dfaults := []\<rparr>) of
       (Inr (w2, rep), d3) \<Rightarrow> durable_lsn w' \<le> durable_lsn w2
         \<and> (\<exists>rd extra. reader_from NONE w2 d3 = (Inr rd, d3)
              \<and> drain csum rd d3 = (number_from (log_base ss) (log_of ss @ take j [[1], [2]]) @ extra, None)
              \<and> map fst extra = map lsn_of [log_end ss + j ..< Suc (lsn_nat (durable_lsn w2))])
     | (Inl e, d3) \<Rightarrow> refuses e"
    using acknowledged_survives_crash [OF s' c crash_process _ FIRST_not_none, of ex_clock "()"] by auto
  have "\<exists>j \<le> 2. durable_lsn w' = lsn_of j \<and>
         (case open_seeded csum ex_clock ex_cfg () FIRST (d1\<lparr>lock_held := False, dfaults := []\<rparr>) of
            (Inr (w2, rep), d3) \<Rightarrow> \<exists>rd extra. reader_from NONE w2 d3 = (Inr rd, d3)
              \<and> drain csum rd d3 = (number_from 1 (take j [[1], [2]]) @ extra, None)
          | (Inl e, d3) \<Rightarrow> refuses e)"
    using j s(2,3,4) cf by (intro exI [of _ j]) (auto split: prod.splits sum.splits)
  then show ?thesis using s c by (intro exI [of _ w] exI [of _ d] exI [of _ ss]) simp
qed

text \<open>C11. A handle that is dropped or whose machine stops between operations reopens to exactly
  its committed log: the same records at the same LSNs in the same segments, a clean tail, and
  nothing of what was only staged.\<close>

theorem reopen_restores_log:
  assumes "sound crc ss staged w d" "crash d d'" "dfaults d' = []" "\<not> is_none seed"
  shows "\<exists>w2 d2. open_seeded crc clk (config_of w) ob seed d' =
      (Inr (w2, \<lparr>report_oldest_lsn = oldest_lsn w, report_durable_lsn = durable_lsn w,
                 report_tail_state = Clean, report_segments_scanned = length (segments w)\<rparr>), d2)
    \<and> sound crc ss [] w2 d2 \<and> config_of w2 = config_of w \<and> last_lsn w2 = durable_lsn w"
proof -
  from restored_on [OF assms, of ob clk] obtain w2 d2 where r:
    "open_seeded crc clk (config_of w) ob seed d' =
      (Inr (w2, \<lparr>report_oldest_lsn = lsn_of (log_base ss), report_durable_lsn = lsn_of (log_end ss - 1),
                 report_tail_state = Clean, report_segments_scanned = length ss\<rparr>), d2)"
    "wal_inv crc w2 ss []" "holds crc (unat (segment_size w)) ss d2"
    "segment_size w2 = segment_size w" "max_record_size w2 = max_record_size w" by (auto simp: restored_def)
  have "oldest_lsn w = lsn_of (log_base ss)" "durable_lsn w = lsn_of (log_end ss - 1)" "length (segments w) = length ss"
    using assms(1) by (simp_all add: sound_def wal_inv_def wal_core_def)
  moreover have "last_lsn w2 = lsn_of (log_end ss - 1)" using r(2) by (simp add: wal_inv_def wal_staged_def)
  ultimately show ?thesis using r by (auto simp: sound_def config_of_def)
qed

theorem reopen_restores_log_witness:
  "\<exists>(w :: lsn list wal) d ss w2 d2. sound csum ss [[1], [2]] w d
     \<and> fst (open_seeded csum ex_clock ex_cfg () FIRST (d\<lparr>lock_held := False, dfaults := []\<rparr>)) \<noteq> Inl Locked
     \<and> sound csum ss [] (w2 :: unit wal) d2"
proof -
  obtain w :: "lsn list wal" and d ss where s: "sound csum ss [[1], [2]] w d" and cf: "config_of w = ex_cfg"
    using ex_sound by blast
  from reopen_restores_log [OF s crash_process _ FIRST_not_none, of ex_clock "()"] cf
  obtain w2 :: "unit wal" and d2 rep where "open_seeded csum ex_clock ex_cfg () FIRST (d\<lparr>lock_held := False, dfaults := []\<rparr>) = (Inr (w2, rep), d2)"
    "sound csum ss [] w2 d2" by auto
  then show ?thesis using s by (intro exI [of _ w] exI [of _ d] exI [of _ ss] exI [of _ w2] exI [of _ d2]) simp
qed

section \<open>Committing\<close>

text \<open>C7. A commit is all or nothing in what it reports, under arbitrary failures of the system
  calls. If it returns a watermark, every staged record is durable, in order after the log, the
  watermark is the last one's LSN, and nothing is staged any more. If it returns an error, the
  handle is poisoned, and its watermark is that of a prefix of the staged records, all of which
  are durable.\<close>

theorem commit_all_or_poisoned:
  assumes "sound crc ss staged w d" "commit crc clock on_durable w d = (res, w', d')"
  shows "case res of
      Inr l \<Rightarrow> l = durable_lsn w' \<and> (\<exists>ss'. sound crc ss' [] w' d' \<and> log_base ss' = log_base ss
        \<and> log_of ss' = log_of ss @ staged \<and> durable_lsn w' = lsn_of (log_end ss + length staged - 1))
    | Inl e \<Rightarrow> poisoned w' \<and> (\<exists>j \<le> length staged. \<exists>ss'. durable_lsn w' = lsn_of (log_end ss + j - 1)
        \<and> log_base ss' = log_base ss \<and> log_of ss' = log_of ss @ take j staged
        \<and> interrupted crc clock (unat (segment_size w)) (unat (max_record_size w)) ss' (drop j staged) d')"
proof -
  note sd = soundD [OF assms(1)]
  from commit_cases [OF assms(2) sd(1,2)] show ?thesis
  proof (elim disjE exE conjE)
    fix ss' ls
    assume r: "res = Inr (lsn_of (log_end ss + length staged - 1))" "wal_inv crc w' ss' []" "grown ss staged ss'"
      "holds crc (unat (segment_size w)) ss' d'" "segment_size w' = segment_size w"
    then have s': "sound crc ss' [] w' d'" by (simp add: sound_def)
    moreover have "durable_lsn w' = lsn_of (log_end ss + length staged - 1)"
      using soundD(6) [OF s'] r(3) by (simp add: grown_def)
    ultimately show ?thesis using r(1,3) by (auto simp: grown_def)
  next
    fix e assume "res = Inl e" "loop_failed crc clock on_durable w ss staged w' d'"
    then obtain j ss' where "res = Inl e" "poisoned w'" "j \<le> length staged" "grown ss (take j staged) ss'"
      "durable_lsn w' = lsn_of (log_end ss' - 1)"
      "interrupted crc clock (unat (segment_size w)) (unat (max_record_size w)) ss' (drop j staged) d'"
      by (auto simp: loop_failed_def)
    then show ?thesis by (simp add: grown_def) blast
  qed
qed

theorem commit_all_or_poisoned_witness:
  "\<exists>(w :: lsn list wal) d. case commit csum ex_clock (\<lambda>l ob. ob @ [l]) w d of
     (Inr l, w', d') \<Rightarrow> l = durable_lsn w' | (Inl e, w', d') \<Rightarrow> poisoned w'"
proof -
  obtain w :: "lsn list wal" and d ss where s: "sound csum ss [[1], [2]] w d" using ex_sound by blast
  obtain res w' d' where c: "commit csum ex_clock (\<lambda>l ob. ob @ [l]) w d = (res, w', d')"
    by (cases "commit csum ex_clock (\<lambda>l ob. ob @ [l]) w d")
  show ?thesis
    using commit_all_or_poisoned [OF s c] c by (intro exI [of _ w] exI [of _ d]) (cases res; simp)
qed

text \<open>C8. A commit returns and succeeds when no system call fails: any batch of staged records,
  however it spreads over segments, becomes durable, and a second commit is a no-op that returns
  the same watermark.\<close>

theorem commit_succeeds:
  assumes "sound crc ss staged w d" "dfaults d = []"
  shows "\<exists>w' d' ss'. commit crc clock on_durable w d = (Inr (lsn_of (log_end ss + length staged - 1)), w', d')
    \<and> sound crc ss' [] w' d' \<and> log_of ss' = log_of ss @ staged \<and> dfaults d' = []
    \<and> commit crc clock on_durable w' d' = (Inr (durable_lsn w'), w', d')"
proof -
  note sd = soundD [OF assms(1)]
  obtain res w' d' where c: "commit crc clock on_durable w d = (res, w', d')" by (cases "commit crc clock on_durable w d")
  note nf = commit_no_faults [OF c sd(1,2) assms(2)]
  from commit_cases [OF c sd(1,2)] nf obtain ss' where r: "res = Inr (lsn_of (log_end ss + length staged - 1))"
    "wal_inv crc w' ss' []" "grown ss staged ss'" "holds crc (unat (segment_size w)) ss' d'" "segment_size w' = segment_size w"
    by auto
  then have "sound crc ss' [] w' d'" by (simp add: sound_def)
  moreover have "commit crc clock on_durable w' d' = (Inr (durable_lsn w'), w', d')"
    using r(2) by (simp add: commit_def wal_inv_def wal_core_def wal_staged_def)
  ultimately show ?thesis using c r nf by (auto simp: grown_def)
qed

theorem commit_succeeds_witness:
  "\<exists>(w :: lsn list wal) d w' d'. commit csum ex_clock (\<lambda>l ob. ob @ [l]) w d = (Inr (lsn_of (1 + 2 - 1)), w', d')"
proof -
  obtain w :: "lsn list wal" and d ss where "sound csum ss [[1], [2]] w d" "log_end ss = 1" "dfaults d = []"
    using ex_sound by blast
  then show ?thesis using commit_succeeds [of csum ss "[[1], [2]]" w d ex_clock "\<lambda>l ob. ob @ [l]"] by auto
qed

text \<open>C15. The observer hears of durability in order: during a commit, whatever fails, it is told a
  strictly increasing sequence of watermarks, above the old one, ending at the handle's new one,
  so never one that is not durable.\<close>

theorem observer_hears_in_order:
  assumes "sound crc ss staged w d" "commit crc clock on_durable w d = (res, w', d')"
  shows "\<exists>ls. observer w' = fold on_durable ls (observer w)
    \<and> sorted_wrt (<) (durable_lsn w # ls) \<and> last (durable_lsn w # ls) = durable_lsn w'"
proof -
  note sd = soundD [OF assms(1)]
  have fin: "sorted_wrt (<) (lsn_of (log_end ss - 1) # ls) \<and> last (lsn_of (log_end ss - 1) # ls) = lsn_of n"
    if "watermarks (log_end ss - 1) ls n" for ls n
  proof -
    have "lsn_nat (lsn_of (log_end ss - 1)) = log_end ss - 1" using sd(8) by simp
    then have w: "sorted_wrt (<) (map lsn_nat (lsn_of (log_end ss - 1) # ls))"
      "last (map lsn_nat (lsn_of (log_end ss - 1) # ls)) = n" using that by (simp_all add: watermarks_def)
    have "sorted_wrt (<) (lsn_of (log_end ss - 1) # ls)"
      using w(1) unfolding sorted_wrt_map by (rule sorted_wrt_mono_rel [rotated]) (simp add: lsn_less_iff)
    moreover have "lsn_nat (last (lsn_of (log_end ss - 1) # ls)) = n" using w(2) by (metis last_map list.distinct(1))
    ultimately show ?thesis by (metis lsn_of_nat)
  qed
  from commit_cases [OF assms(2) sd(1,2)] show ?thesis
  proof (elim disjE exE conjE)
    fix ss' ls
    assume a: "wal_inv crc w' ss' []" "observer w' = fold on_durable ls (observer w)" "watermarks (log_end ss - 1) ls (log_end ss' - 1)"
    have "durable_lsn w' = lsn_of (log_end ss' - 1)" using a(1) by (simp add: wal_inv_def wal_core_def)
    then show ?thesis using fin [OF a(3)] a(2) sd(6) by (intro exI [of _ ls]) simp
  next
    fix e assume "loop_failed crc clock on_durable w ss staged w' d'"
    then obtain ss' ls where a: "durable_lsn w' = lsn_of (log_end ss' - 1)" "observer w' = fold on_durable ls (observer w)"
      "watermarks (log_end ss - 1) ls (log_end ss' - 1)" by (auto simp: loop_failed_def)
    then show ?thesis using fin [OF a(3)] sd(6) by (intro exI [of _ ls]) simp
  qed
qed

theorem observer_hears_in_order_witness:
  "\<exists>(w :: lsn list wal) d ls. observer (fst (snd (commit csum ex_clock (\<lambda>l ob. ob @ [l]) w d))) = fold (\<lambda>l ob. ob @ [l]) ls (observer w)
     \<and> sorted_wrt (<) (durable_lsn w # ls)"
proof -
  obtain w :: "lsn list wal" and d ss where s: "sound csum ss [[1], [2]] w d" using ex_sound by blast
  obtain res w' d' where c: "commit csum ex_clock (\<lambda>l ob. ob @ [l]) w d = (res, w', d')"
    by (cases "commit csum ex_clock (\<lambda>l ob. ob @ [l]) w d")
  from observer_hears_in_order [OF s c] c show ?thesis by (intro exI [of _ w] exI [of _ d]) auto
qed

text \<open>C14. Append on every branch. A poisoned handle refuses as \<open>Poisoned\<close>, whatever its other
  fields and before anything else is looked at. On a handle that is not poisoned, in a sound state,
  a payload above the limit is refused as \<open>RecordTooLarge\<close>; one within it gets the next LSN and is
  staged after the others, unless the LSN space is used up, when the append is refused as
  \<open>LsnExhausted\<close>. A refused append changes nothing and does not poison.\<close>

theorem append_assigns_next_lsn:
  assumes "poisoned w \<or> sound crc ss staged w d"
  shows "if poisoned w then wal_append crc p w = (Inl Poisoned, w)
    else if unat (max_record_size w) < length p then wal_append crc p w = (Inl RecordTooLarge, w)
    else if log_end ss + length staged \<le> u64_max
    then \<exists>w'. wal_append crc p w = (Inr (lsn_of (log_end ss + length staged)), w')
      \<and> sound crc ss (staged @ [p]) w' d \<and> durable_lsn w' = durable_lsn w
    else wal_append crc p w = (Inl LsnExhausted, w)"
proof (cases "poisoned w")
  case True
  then show ?thesis by (simp add: wal_append_def)
next
  case False
  then have s: "sound crc ss staged w d" using assms by simp
  note sd = soundD [OF s]
  show ?thesis
  proof (cases "unat (max_record_size w) < length p")
    case True
    then show ?thesis using append_too_large [OF sd(5) True, of crc] False by simp
  next
    case fits: False
    show ?thesis
    proof (cases "log_end ss + length staged \<le> u64_max")
      case True
      then obtain w' where "wal_append crc p w = (Inr (lsn_of (log_end ss + length staged)), w')"
        "wal_inv crc w' ss (staged @ [p])" "segment_size w' = segment_size w"
        using append_inv [OF sd(1), of p] fits by auto
      then show ?thesis using sd(2,6) True fits False by (auto simp: sound_def wal_inv_def wal_core_def)
    next
      case full: False
      then have "wal_append crc p w = (Inl LsnExhausted, w)" using append_inv [OF sd(1), of p] fits by simp
      then show ?thesis using fits False full by simp
    qed
  qed
qed

theorem append_assigns_next_lsn_witness:
  "\<exists>(w :: lsn list wal) w'. wal_append csum [9] w = (Inr (lsn_of 3), w')
     \<and> wal_append csum [9] (w\<lparr>poisoned := True\<rparr>) = (Inl Poisoned, w\<lparr>poisoned := True\<rparr>)"
proof -
  obtain w :: "lsn list wal" and d ss where s: "sound csum ss [[1], [2]] w d" "log_end ss = 1" "config_of w = ex_cfg"
    using ex_sound by blast
  have "max_record_size w = cfg_max_record_size ex_cfg" using s(3) config_of_simps(2) [of w] by simp
  then have "\<exists>w'. wal_append csum [9] w = (Inr (lsn_of 3), w')"
    using append_assigns_next_lsn [of w csum ss "[[1], [2]]" d "[9]"] s(1,2) soundD(5) [OF s(1)]
    by (auto simp: u64_max_def ex_cfg_def numeral_3_eq_3)
  moreover have "wal_append csum [9] (w\<lparr>poisoned := True\<rparr>) = (Inl Poisoned, w\<lparr>poisoned := True\<rparr>)"
    using append_assigns_next_lsn [of "w\<lparr>poisoned := True\<rparr>" csum ss "[[1], [2]]" d "[9]"] by simp
  ultimately show ?thesis by blast
qed

text \<open>A poisoned handle does nothing: append, commit and checkpoint return \<open>Poisoned\<close> and leave
  the handle and the directory as they are.\<close>

theorem poisoned_handle_refuses:
  assumes "poisoned w"
  shows "wal_append crc p w = (Inl Poisoned, w) \<and> commit crc clock on_durable w d = (Inl Poisoned, w, d)
    \<and> checkpoint up_to w d = (Inl Poisoned, w, d)"
  using assms by (simp add: wal_append_def commit_def checkpoint_def)

theorem poisoned_handle_refuses_witness:
  "\<exists>w :: lsn list wal. poisoned w \<and> wal_append csum [1] w = (Inl Poisoned, w)"
proof -
  obtain w :: "lsn list wal" and d ss where "sound csum ss [[1], [2]] w d" using ex_sound by blast
  have "poisoned (w\<lparr>poisoned := True\<rparr>)" by simp
  then show ?thesis using poisoned_handle_refuses [of "w\<lparr>poisoned := True\<rparr>" csum "[1]"] by blast
qed

section \<open>Opening\<close>

text \<open>A directory without segments is a cold start: whatever other files it has, opening it
  creates one empty segment at the seed, durably, and reports an empty log that ends just before
  the seed.\<close>

theorem cold_start_at_seed:
  assumes "cfg_ok cfg" "\<not> is_none seed" "dfaults d = []" "\<not> lock_held d" "has_segs [] d" "names_settled d"
  shows "\<exists>w d' ss. open_seeded crc clock cfg ob seed d =
      (Inr (w, \<lparr>report_oldest_lsn = seed, report_durable_lsn = lsn_of (lsn_nat seed - 1),
                report_tail_state = Clean, report_segments_scanned = 1\<rparr>), d')
    \<and> sound crc ss [] w d' \<and> log_of ss = [] \<and> log_base ss = lsn_nat seed \<and> config_of w = cfg \<and> lock_held d'"
proof -
  from open_cold [OF assms, of crc clock ob] obtain w d' where
    "open_seeded crc clock cfg ob seed d =
      (Inr (w, \<lparr>report_oldest_lsn = seed, report_durable_lsn = lsn_of (lsn_nat seed - 1),
                report_tail_state = Clean, report_segments_scanned = 1\<rparr>), d')"
    "wal_inv crc w [new_seg crc clock (lsn_nat seed)] []"
    "holds crc (unat (cfg_segment_size cfg)) [new_seg crc clock (lsn_nat seed)] d'" "lock_held d'"
    "segment_size w = cfg_segment_size cfg" "max_record_size w = cfg_max_record_size cfg" by blast
  then show ?thesis
    by (intro exI [of _ w] exI [of _ d'] exI [of _ "[new_seg crc clock (lsn_nat seed)]"])
      (simp add: sound_def log_of_def log_base_def config_of_def)
qed

theorem cold_start_at_seed_witness:
  "\<exists>w d' ss. open_seeded csum ex_clock ex_cfg () (lsn_of 7) ex_disk =
      (Inr (w, \<lparr>report_oldest_lsn = lsn_of 7, report_durable_lsn = lsn_of 6,
                report_tail_state = Clean, report_segments_scanned = 1\<rparr>), d') \<and> sound csum ss [] (w :: unit wal) d'"
proof -
  have "\<not> is_none (lsn_of 7)" "lsn_nat (lsn_of 7) = 7" by (simp_all add: is_none_iff u64_max_def)
  then show ?thesis
    using cold_start_at_seed [of ex_cfg "lsn_of 7" ex_disk csum ex_clock "()"] by (simp del: One_nat_def) blast
qed

text \<open>The configuration check is exact and does not wrap. A configuration whose largest record
  and segment header do not fit a segment, or a seed of LSN 0, is refused as \<open>InvalidConfig\<close>
  before anything is touched, whatever the directory; any other one opens a fresh directory.\<close>

theorem config_check_exact:
  assumes "dfaults d = []" "\<not> lock_held d" "has_segs [] d" "names_settled d"
  shows "(if unat (cfg_max_record_size cfg) + 91 \<le> unat (cfg_segment_size cfg) \<and> seed \<noteq> NONE
      then \<exists>w rep d'. open_seeded crc clock cfg ob seed d = (Inr (w, rep), d')
      else \<forall>d2. open_seeded crc clock cfg ob seed d2 = (Inl InvalidConfig, d2))"
proof (cases "cfg_ok cfg \<and> \<not> is_none seed")
  case True
  then show ?thesis
    using open_cold [of cfg seed d crc clock ob] assms by (auto simp: cfg_ok_def is_none_iff)
next
  case False
  then have "open_seeded crc clock cfg ob seed d2 = (Inl InvalidConfig, d2)" for d2
    by (auto simp: open_seeded_def cfg_check)
  moreover have "seed \<noteq> NONE \<longleftrightarrow> \<not> is_none seed" by (auto simp: is_none_def NONE_def lsn.expand)
  ultimately show ?thesis using False by (auto simp: cfg_ok_def)
qed

theorem config_check_exact_witness:
  "open_seeded csum ex_clock \<lparr>cfg_segment_size = 256, cfg_max_record_size = 166\<rparr> () FIRST ex_disk = (Inl InvalidConfig, ex_disk)"
  using config_check_exact [of ex_disk "\<lparr>cfg_segment_size = 256, cfg_max_record_size = 166\<rparr>" FIRST csum ex_clock "()"]
  by simp

section \<open>Reading\<close>

text \<open>C12. Replay is the log: a reader from any LSN that is still available, or from LSN 0, yields
  exactly the committed records from there on, in order and byte for byte, and then ends without
  an error; nothing staged shows up. A reader below the oldest LSN is refused as a gap.\<close>

theorem replay_is_the_log:
  assumes "sound crc ss staged w d" "dfaults d = []"
  shows "if from = NONE \<or> oldest_lsn w \<le> from
    then \<exists>rd. reader_from from w d = (Inr rd, d)
      \<and> drain crc rd d = (filter (\<lambda>x. from \<le> fst x) (number_from (log_base ss) (log_of ss)), None)
    else reader_from from w d = (Inl ContiguityViolation, d)"
proof (cases "from = NONE \<or> oldest_lsn w \<le> from")
  case True
  note sd = soundD [OF assms(1)]
  have seg: "segments w = map (\<lambda>s. lsn_of (sg_base s)) ss" using sd(1) by (simp add: wal_inv_def wal_core_def)
  have "is_none from \<or> oldest_lsn w \<le> from" using True by (auto simp: is_none_iff)
  from reader_from_spec [OF seg holds_readable [OF sd(3,2) assms(2)] this, of True] show ?thesis using True by auto
next
  case False
  then have "lsn_val from \<noteq> 0" "from < oldest_lsn w" by (auto simp: NONE_def lsn.expand)
  then show ?thesis using False by (simp add: reader_from_def)
qed

theorem replay_is_the_log_witness:
  "\<exists>(w :: lsn list wal) d rd. reader_from NONE w d = (Inr rd, d) \<and> drain csum rd d = ([(lsn_of 1, [1]), (lsn_of 2, [2])], None)"
proof -
  obtain w :: "lsn list wal" and d ss where "sound csum ss [] w d" "log_base ss = 1" "log_of ss = [[1], [2]]" "dfaults d = []"
    using ex_sound_log by blast
  then show ?thesis
    using replay_is_the_log [of csum ss "[]" w d NONE] by (auto simp: numeral_2_eq_2)
qed

text \<open>C39. A reader seeks. Without failing calls, a reader from \<open>NONE\<close> or from an LSN that is not
  below the oldest one opens the segment that contains its start: the last segment whose base is not
  above it, never an earlier one; from \<open>NONE\<close> it is the first segment.\<close>

theorem reader_opens_containing_segment:
  assumes "sound crc ss staged w d" "dfaults d = []" "from = NONE \<or> oldest_lsn w \<le> from"
  shows "\<exists>rd i. reader_from from w d = (Inr rd, d) \<and> i < length ss
    \<and> open_segment_base rd = Some (lsn_of (sg_base (ss ! i)))
    \<and> (0 < i \<longrightarrow> sg_base (ss ! i) \<le> lsn_nat from) \<and> (\<forall>k. i < k \<longrightarrow> k < length ss \<longrightarrow> max 1 (lsn_nat from) < sg_base (ss ! k))"
proof -
  note sd = soundD [OF assms(1)]
  have seg: "segments w = map (\<lambda>s. lsn_of (sg_base s)) ss" using sd(1) by (simp add: wal_inv_def wal_core_def)
  have "is_none from \<or> oldest_lsn w \<le> from" using assms(3) by (auto simp: is_none_iff)
  from reader_from_spec [OF seg holds_readable [OF sd(3,2) assms(2)] this, of True]
  obtain rd i where r: "reader_from from w d = (Inr rd, d)"
    "rd_at (unat (segment_size w)) (unat (max_record_size w)) ss i 0 rd"
    "\<forall>k. i < k \<longrightarrow> k < length ss \<longrightarrow> rd_from rd < lsn_of (sg_base (ss ! k))"
    "0 < i \<longrightarrow> lsn_of (sg_base (ss ! i)) \<le> from" by blast
  have b: "sg_base s \<le> u64_max" if "s \<in> set ss" for s by (rule segs_ok_bound [OF sd(3) that])
  have "rd_from rd = (if lsn_val from = 0 then FIRST else from)"
    using r(1) by (auto simp: reader_from_def new_reader_def Let_def split: if_splits prod.splits sum.splits)
  then have "lsn_nat (rd_from rd) = max 1 (lsn_nat from)"
    by (auto simp: lsn_nat_def FIRST_def max_def Suc_le_eq unat_gt_0)
  then show ?thesis
    using r b by (intro exI [of _ rd] exI [of _ i]) (auto simp: rd_at_def open_segment_base_def lsn_le_iff lsn_less_iff)
qed

theorem reader_opens_containing_segment_witness:
  "\<exists>(w :: lsn list wal) d rd b. reader_from NONE w d = (Inr rd, d) \<and> open_segment_base rd = Some b"
proof -
  obtain w :: "lsn list wal" and d ss where "sound csum ss [] w d" "dfaults d = []" using ex_sound_log by blast
  then show ?thesis using reader_opens_containing_segment [of csum ss "[]" w d NONE] by blast
qed

section \<open>Checkpointing\<close>

text \<open>C9. A checkpoint reclaims whole segments and only what it may. Under arbitrary failures: if
  it succeeds, a prefix of the segments is gone, durably; every record in them is at or below the
  given LSN; every remaining segment but the active one holds a record above it; the remaining log
  is the dense suffix, with its oldest LSN updated and the staged records kept. If it fails, the
  handle is poisoned and its fields are otherwise unchanged.\<close>

theorem checkpoint_reclaims_prefix:
  assumes "sound crc ss staged w d" "checkpoint up_to w d = (res, w', d')"
  shows "case res of
      Inr _ \<Rightarrow> \<exists>k < length ss. sound crc (drop k ss) staged w' d'
        \<and> (\<forall>i < k. seg_end (ss ! i) \<le> Suc (lsn_nat up_to))
        \<and> (\<forall>i. k \<le> i \<longrightarrow> Suc i < length ss \<longrightarrow> Suc (lsn_nat up_to) < seg_end (ss ! i))
        \<and> log_of ss = log_of (take k ss) @ log_of (drop k ss)
        \<and> oldest_lsn w' = lsn_of (log_base ss + length (log_of (take k ss))) \<and> durable_lsn w' = durable_lsn w
    | Inl e \<Rightarrow> w' = w\<lparr>poisoned := True\<rparr> \<and> dfaults d \<noteq> []"
proof -
  note sd = soundD [OF assms(1)]
  have ch: "chain ss" using sd(3) by (simp add: segs_ok_def)
  have k: "deletable ss up_to < length ss" by (rule deletable_less) (use ch in simp)
  let ?k = "deletable ss up_to"
  have log: "log_of ss = log_of (take ?k ss) @ log_of (drop ?k ss)"
    unfolding log_of_def by (metis append_take_drop_id concat_append map_append)
  from checkpoint_cases [OF assms(2) sd(1,2)] show ?thesis
  proof (elim disjE conjE)
    assume r: "res = Inr ()" "wal_inv crc w' (drop ?k ss) staged" "holds crc (unat (segment_size w)) (drop ?k ss) d'"
      "segment_size w' = segment_size w"
    then have s': "sound crc (drop ?k ss) staged w' d'" by (simp add: sound_def)
    have "oldest_lsn w' = lsn_of (log_base ss + length (log_of (take ?k ss)))"
      using r(2) drop_segments(1) [OF ch k] by (simp add: wal_inv_def wal_core_def)
    moreover have "durable_lsn w' = durable_lsn w"
      using soundD(6) [OF s'] sd(6) k by (simp add: log_end_def)
    ultimately show ?thesis
      using s' r(1) k log deletable_deleted [OF ch] deletable_kept [OF ch] by (auto intro!: exI [of _ ?k])
  qed auto
qed

theorem checkpoint_reclaims_prefix_witness:
  "\<exists>(w :: lsn list wal) d w' d' ss' staged. checkpoint (lsn_of 2) w d = (Inr (), w', d') \<and> sound csum ss' staged w' d'"
proof -
  obtain w :: "lsn list wal" and d ss where s: "sound csum ss [] w d" and nf: "dfaults d = []" using ex_sound_log by blast
  obtain res w' d' where c: "checkpoint (lsn_of 2) w d = (res, w', d')" by (cases "checkpoint (lsn_of 2) w d")
  from checkpoint_reclaims_prefix [OF s c] nf obtain u ss' where "res = Inr u" "sound csum ss' [] w' d'"
    by (cases res) auto
  then have "checkpoint (lsn_of 2) w d = (Inr (), w', d')" "sound csum ss' [] w' d'" using c by simp_all
  then show ?thesis by blast
qed

text \<open>A checkpoint, successful or not, leaves the files of a suffix of the segments; only the
  removal of names may not have been made durable.\<close>

lemma checkpoint_crash_intact:
  assumes "sound crc ss staged w d" "checkpoint up_to w d = (res, w', d1)" "crash d1 d2"
  shows "\<exists>j \<le> deletable ss up_to. deletable ss up_to < length ss
    \<and> segs_ok crc (unat (segment_size w)) (unat (max_record_size w)) (drop j ss)
    \<and> intact crc (unat (segment_size w)) (drop j ss) d2"
proof -
  note sd = soundD [OF assms(1)]
  have ch: "chain ss" using sd(3) by (simp add: segs_ok_def)
  have k: "deletable ss up_to < length ss" by (rule deletable_less) (use ch in simp)
  obtain j where j: "j \<le> deletable ss up_to" "intact crc (unat (segment_size w)) (drop j ss) d2"
  proof (cases "res = Inr ()")
    case True
    then have h: "holds crc (unat (segment_size w)) (drop (deletable ss up_to) ss) d1"
      using checkpoint_cases [OF assms(2) sd(1,2)] by auto
    show ?thesis using that [of "deletable ss up_to"] holds_crash [OF h assms(3)] by (simp add: holds_intact)
  next
    case False
    then obtain i d0 where i: "i \<le> deletable ss up_to" "unlinked crc (unat (segment_size w)) (take i ss) d d0"
      "entries d1 = entries d0" "pending d1 = pending d0" using checkpoint_cases [OF assms(2) sd(1,2)] by auto
    from unlinked_crash [OF sd(2,3) i(2-4) assms(3)] i(1) k obtain j where "j \<le> i" "intact crc (unat (segment_size w)) (drop j ss) d2"
      by auto
    then show ?thesis using that [of j] i(1) by simp
  qed
  then show ?thesis using segs_ok_drop [OF sd(3)] k by auto
qed

lemma checkpoint_crash_reopens:
  assumes "sound crc ss staged w d" "checkpoint up_to w d = (res, w', d1)"
    and "crash d1 d2" "dfaults d2 = []" "\<not> is_none seed"
  shows "\<exists>j \<le> deletable ss up_to. deletable ss up_to < length ss
    \<and> segs_ok crc (unat (segment_size w)) (unat (max_record_size w)) (drop j ss)
    \<and> reopens crc (config_of w) ob (drop j ss) (open_seeded crc clk (config_of w) ob seed d2)"
proof -
  have lk: "\<not> lock_held d2" using assms(3) by (auto simp: crash_def power_loss_def)
  from checkpoint_crash_intact [OF assms(1-3)] obtain j where j: "j \<le> deletable ss up_to" "deletable ss up_to < length ss"
    "segs_ok crc (unat (segment_size w)) (unat (max_record_size w)) (drop j ss)" "intact crc (unat (segment_size w)) (drop j ss) d2" by blast
  have ok: "segs_ok crc (unat (cfg_segment_size (config_of w))) (unat (cfg_max_record_size (config_of w))) (drop j ss)"
    and sv: "survives crc (unat (cfg_segment_size (config_of w))) (drop j ss) d2"
    using j(3) intact_survives [OF j(4,3)] by simp_all
  show ?thesis using j(1-3) survives_reopens [OF soundD(4) [OF assms(1)] assms(5,4) lk ok sv, of ob clk] by blast
qed

text \<open>C10. A crash during a checkpoint leaves no hole and no phantom: whatever unlinks went through
  before a failure, and whichever of them the machine had made durable when it stopped, the
  directory reopens successfully, to a suffix of the segments that includes all that the checkpoint
  would have kept; the watermark is the old one, and replay gives exactly the records of that suffix.\<close>

theorem checkpoint_crash_keeps_suffix:
  assumes "sound crc ss staged w d" "checkpoint up_to w d = (res, w', d1)"
    and "crash d1 d2" "dfaults d2 = []" "\<not> is_none seed"
  shows "\<exists>j \<le> deletable ss up_to. deletable ss up_to < length ss
    \<and> (\<exists>w2 d3 rd. open_seeded crc clk (config_of w) ob seed d2 =
          (Inr (w2, \<lparr>report_oldest_lsn = lsn_of (log_base (drop j ss)), report_durable_lsn = durable_lsn w,
                     report_tail_state = Clean, report_segments_scanned = length ss - j\<rparr>), d3)
        \<and> segments w2 = drop j (segments w) \<and> durable_lsn w2 = durable_lsn w
        \<and> reader_from NONE w2 d3 = (Inr rd, d3)
        \<and> drain crc rd d3 = (number_from (log_base (drop j ss)) (log_of (drop j ss)), None))"
proof -
  note sd = soundD [OF assms(1)]
  have lk: "\<not> lock_held d2" using assms(3) by (auto simp: crash_def power_loss_def)
  from checkpoint_crash_intact [OF assms(1-3)] obtain j where j: "j \<le> deletable ss up_to" "deletable ss up_to < length ss"
    and i: "segs_ok crc (unat (segment_size w)) (unat (max_record_size w)) (drop j ss)" "intact crc (unat (segment_size w)) (drop j ss) d2" by blast
  have le: "log_end (drop j ss) = log_end ss" using j by (simp add: log_end_def)
  from open_intact [OF sd(4) assms(5,4) lk, of crc "drop j ss" clk ob] i le obtain w2 d3 where
    o: "open_seeded crc clk (config_of w) ob seed d2 =
      (Inr (w2, \<lparr>report_oldest_lsn = lsn_of (log_base (drop j ss)), report_durable_lsn = lsn_of (log_end ss - 1),
                report_tail_state = Clean, report_segments_scanned = length (drop j ss)\<rparr>), d3)"
    "wal_inv crc w2 (drop j ss) []" "same_dir (with_lock d2) d3" "intact crc (unat (segment_size w)) (drop j ss) d3"
    "segment_size w2 = segment_size w" "max_record_size w2 = max_record_size w" by auto
  have seg: "segments w2 = map (\<lambda>s. lsn_of (sg_base s)) (drop j ss)" "durable_lsn w2 = lsn_of (log_end ss - 1)"
    using o(2) le by (simp_all add: wal_inv_def wal_core_def)
  have "readable crc (unat (segment_size w2)) (unat (max_record_size w2)) True (drop j ss) d3"
    using intact_readable [OF i(1) o(4)] o(3,5,6) assms(4) by (simp add: same_dir_def)
  from reader_from_spec [OF seg(1) this, of NONE] obtain rd where
    "reader_from NONE w2 d3 = (Inr rd, d3)" "drain crc rd d3 = (number_from (log_base (drop j ss)) (log_of (drop j ss)), None)"
    by (auto simp: is_none_iff)
  moreover have "segments w2 = drop j (segments w)"
    using seg(1) sd(1) by (simp add: wal_inv_def wal_core_def drop_map)
  ultimately show ?thesis using j o(1) seg(2) sd(6) by (intro exI [of _ j]) auto
qed

theorem checkpoint_crash_keeps_suffix_witness:
  "\<exists>(w :: lsn list wal) d w2 rep d3 rd rs. open_seeded csum ex_clock ex_cfg () FIRST
       ((snd (snd (checkpoint (lsn_of 2) w d)))\<lparr>lock_held := False, dfaults := []\<rparr>) = (Inr (w2, rep), d3)
     \<and> durable_lsn w2 = durable_lsn w \<and> reader_from NONE w2 d3 = (Inr rd, d3) \<and> drain csum rd d3 = (rs, None)"
proof -
  obtain w :: "lsn list wal" and d ss where s: "sound csum ss [] w d" and cf: "config_of w = ex_cfg" using ex_sound_log by blast
  obtain res w' d1 where c: "checkpoint (lsn_of 2) w d = (res, w', d1)" by (cases "checkpoint (lsn_of 2) w d")
  from checkpoint_crash_keeps_suffix [OF s c crash_process _ FIRST_not_none, of ex_clock "()"] cf c
  show ?thesis by (intro exI [of _ w] exI [of _ d]) auto
qed

end
