(* ===== verification/Wal_Adversary.thy ===== *)
theory Wal_Adversary
  imports Wal_Guarantees
begin

text \<open>
  Opening a directory with arbitrary contents. Nothing is assumed of the files: they may hold
  anything, under any names. When \<open>open_seeded\<close> succeeds, what the handle serves is a dense
  run of records over a linked chain of segments, and opening again finds the same.
\<close>

section \<open>Segments that parse and link up\<close>

definition parsed :: "(bytes \<Rightarrow> u32) \<Rightarrow> nat \<Rightarrow> nat \<Rightarrow> disk \<Rightarrow> u64 \<Rightarrow> (lsn \<times> bytes) list \<Rightarrow> bool" where
  "parsed crc ssz mx d b rs \<longleftrightarrow>
     (\<exists>f x h. map_of (entries d) (filename_for (Lsn b)) = Some f \<and> healthy f \<and> 64 \<le> length (fdata f)
        \<and> decode_header crc (take 64 (fdata f)) = Inr h \<and> base_lsn h = Lsn b
        \<and> parse_run crc (fdata f) ssz mx 64 (Some (Lsn b)) = (rs, x) \<and> scan_bytes crc (fdata f) x ssz mx = CleanEnd)"

fun linked :: "(bytes \<Rightarrow> u32) \<Rightarrow> nat \<Rightarrow> nat \<Rightarrow> disk \<Rightarrow> u64 list \<Rightarrow> (lsn \<times> bytes) list list \<Rightarrow> bool" where
  "linked crc ssz mx d [] rss = (rss = [])"
| "linked crc ssz mx d (b # bs) rss =
     (case rss of
        [] \<Rightarrow> False
      | rs # rss' \<Rightarrow> parsed crc ssz mx d b rs \<and> linked crc ssz mx d bs rss'
          \<and> (bs \<noteq> [] \<longrightarrow> rs \<noteq> [] \<and> checked_next (fst (last rs)) = Some (Lsn (hd bs))))"

definition all_healthy :: "disk \<Rightarrow> bool" where
  "all_healthy d \<longleftrightarrow> (\<forall>n f. map_of (entries d) n = Some f \<longrightarrow> healthy f)"

definition same_elsewhere :: "string set \<Rightarrow> disk \<Rightarrow> disk \<Rightarrow> bool" where
  "same_elsewhere ns d d' \<longleftrightarrow> dfaults d' = [] \<and> lock_held d' = lock_held d
     \<and> (\<forall>n. n \<notin> ns \<longrightarrow> map_of (entries d') n = map_of (entries d) n)
     \<and> (\<forall>n. map_of (entries d') n = None \<longleftrightarrow> map_of (entries d) n = None)
     \<and> (distinct (map fst (entries d)) \<longrightarrow> distinct (map fst (entries d')))"

lemma linked_Nil [simp]: "linked crc ssz mx d bs [] \<longleftrightarrow> bs = []"
  by (cases bs) simp_all

lemma parsed_not_none: "parsed crc ssz mx d b rs \<Longrightarrow> \<not> is_none (Lsn b)"
  using decode_header_base by (fastforce simp: parsed_def)

lemma parsed_same:
  "same_elsewhere ns d d' \<Longrightarrow> filename_for (Lsn b) \<notin> ns \<Longrightarrow> parsed crc ssz mx d' b rs = parsed crc ssz mx d b rs"
  by (simp add: parsed_def same_elsewhere_def)

lemma linked_same:
  "same_elsewhere ns d d' \<Longrightarrow> \<forall>b \<in> set bs. filename_for (Lsn b) \<notin> ns \<Longrightarrow> linked crc ssz mx d' bs rss = linked crc ssz mx d bs rss"
  by (induction bs arbitrary: rss) (auto simp: parsed_same split: list.splits)

lemma recovery_spec_ok:
  assumes r: "recovery_spec crc f base act ssz mx = (Inr seg, f')" and b: "\<not> is_none base"
    and f: "healthy f" "64 \<le> length (fdata f)" "64 \<le> ssz"
  shows "\<exists>rs x. parse_run crc (fdata f) ssz mx 64 (Some base) = (rs, x)
    \<and> parse_run crc (fdata f') ssz mx 64 (Some base) = (rs, x) \<and> scan_bytes crc (fdata f') x ssz mx = CleanEnd
    \<and> max_lsn seg = run_last (Lsn (lsn_val base - 1)) rs \<and> rec_write_offset seg = x \<and> healthy f'
    \<and> take 64 (fdata f') = take 64 (fdata f) \<and> 64 \<le> length (fdata f')"
proof -
  note nx = checked_next_pred [OF b]
  obtain rs x where run: "parse_run crc (fdata f) ssz mx 64 (Some base) = (rs, x)" by fastforce
  note z = parse_run_zeroed [OF run [folded nx] f(3,2), unfolded nx]
  note e = parse_run_end(1,2,3) [OF run [folded nx]]
  have "64 \<le> x" "x \<le> ssz" "x \<le> length (fdata f)" using e f by simp_all
  then have t: "take 64 (pwrite x (zeros (ssz - x)) (fdata f)) = take 64 (fdata f)"
    "64 \<le> length (pwrite x (zeros (ssz - x)) (fdata f))"
    by (simp_all add: pwrite_inside)
  show ?thesis
    using r run z t f
    by (auto simp: recovery_spec_def Let_def split: scan_outcome.splits option.splits if_splits)
qed

lemma recover_one_ok:
  assumes r: "recover_one crc cfg prev (Lsn b) act d = (Inr seg, d')"
    and d: "dfaults d = []" "all_healthy d" "cfg_ok cfg"
  shows "\<exists>rs. parsed crc (unat (cfg_segment_size cfg)) (unat (cfg_max_record_size cfg)) d' b rs
    \<and> max_lsn seg = run_last (Lsn (b - 1)) rs \<and> same_elsewhere {filename_for (Lsn b)} d d' \<and> all_healthy d'
    \<and> (\<forall>pm. prev = Some pm \<longrightarrow> checked_next pm = Some (Lsn b))"
proof -
  let ?n = "filename_for (Lsn b)" and ?ssz = "unat (cfg_segment_size cfg)" and ?mx = "unat (cfg_max_record_size cfg)"
  obtain f where f: "map_of (entries d) ?n = Some f"
    using r d(1) by (cases "map_of (entries d) ?n") (auto simp: recover_one_def open_file_def Let_def)
  note op = open_file_no_faults [OF d(1) f]
  have h: "healthy f" using d(2) f by (auto simp: all_healthy_def)
  have len: "64 \<le> length (fdata f)" and rx: "read_exact_at f 0 64 = Inr (take 64 (fdata f))"
    using r op h by (auto simp: recover_one_def read_exact_at_def Let_def window_def split: if_splits)
  obtain hd where hd: "decode_header crc (take 64 (fdata f)) = Inr hd" "base_lsn hd = Lsn b"
    using r op rx by (auto simp: recover_one_def Let_def split: sum.splits if_splits)
  note nn = decode_header_base [OF hd(1), unfolded hd(2)]
  have pv: "\<forall>pm. prev = Some pm \<longrightarrow> checked_next pm = Some (Lsn b)"
    using r op rx hd by (auto simp: recover_one_def Let_def split: if_splits option.splits)
  note rs = recover_segment_spec [OF h nn, of crc act ?ssz ?mx]
  obtain f' where sp: "recovery_spec crc f (Lsn b) act ?ssz ?mx = (Inr seg, f')" "d' = put_file ?n f' [] d"
    using r op rx hd pv rs d(1) by (cases "recovery_spec crc f (Lsn b) act ?ssz ?mx")
      (auto simp: recover_one_def Let_def split: if_splits option.splits)
  have "64 \<le> ?ssz" using d(3) by (simp add: cfg_ok_def)
  from recovery_spec_ok [OF sp(1) nn h len this] hd pv show ?thesis
    by (auto simp: parsed_def sp(2) entries_put_file same_elsewhere_def all_healthy_def d(2) [unfolded all_healthy_def] f
        intro: distinct_put_file)
qed

abbreviation names_of :: "u64 list \<Rightarrow> string set" where
  "names_of bs \<equiv> (\<lambda>b. filename_for (Lsn b)) ` set bs"

lemma same_elsewhere_trans:
  "same_elsewhere ns d d1 \<Longrightarrow> same_elsewhere ms d1 d2 \<Longrightarrow> same_elsewhere (ns \<union> ms) d d2"
  by (simp add: same_elsewhere_def)

lemma run_last_chain: "rs \<noteq> [] \<Longrightarrow> run_last lv rs = fst (last rs)"
  by (simp add: run_last_def)

lemma recover_bases_ok:
  assumes "recover_bases crc cfg prev bs acc d = (Inr r, d')" "bs \<noteq> []" "distinct bs"
    and "dfaults d = []" "all_healthy d" "cfg_ok cfg"
  shows "\<exists>rss. linked crc (unat (cfg_segment_size cfg)) (unat (cfg_max_record_size cfg)) d' bs rss
    \<and> r_last_lsn r = run_last (Lsn (last bs - 1)) (last rss) \<and> r_active r = Some (filename_for (Lsn (last bs)))
    \<and> r_oldest_lsn r = r_oldest_lsn acc \<and> r_segments r = r_segments acc
    \<and> same_elsewhere (names_of bs) d d' \<and> all_healthy d'
    \<and> (\<forall>pm. prev = Some pm \<longrightarrow> checked_next pm = Some (Lsn (hd bs)))"
  using assms
proof (induction bs arbitrary: prev acc d)
  case (Cons b bs)
  let ?ssz = "unat (cfg_segment_size cfg)" and ?mx = "unat (cfg_max_record_size cfg)"
  obtain seg d1 where one: "recover_one crc cfg prev (Lsn b) (bs = []) d = (Inr seg, d1)"
    using Cons.prems(1) by (auto simp: Let_def split: prod.splits sum.splits)
  from recover_one_ok [OF one Cons.prems(4-6)] obtain rs where
    rs: "parsed crc ?ssz ?mx d1 b rs" "max_lsn seg = run_last (Lsn (b - 1)) rs"
    "same_elsewhere {filename_for (Lsn b)} d d1" "all_healthy d1" "\<forall>pm. prev = Some pm \<longrightarrow> checked_next pm = Some (Lsn b)" by blast
  show ?case
  proof (cases "bs = []")
    case True
    then show ?thesis using Cons.prems(1) one rs by (intro exI [of _ "[rs]"]) auto
  next
    case False
    then have go: "\<not> max_lsn seg < Lsn b" "recover_bases crc cfg (Some (max_lsn seg)) bs acc d1 = (Inr r, d')"
      using Cons.prems(1) one by (auto split: if_splits)
    have "dfaults d1 = []" using rs(3) by (simp add: same_elsewhere_def)
    from Cons.IH [OF go(2) False _ this rs(4) Cons.prems(6)] Cons.prems(3) obtain rss where
      rss: "linked crc ?ssz ?mx d' bs rss" "r_last_lsn r = run_last (Lsn (last bs - 1)) (last rss)"
      "r_active r = Some (filename_for (Lsn (last bs)))" "r_oldest_lsn r = r_oldest_lsn acc" "r_segments r = r_segments acc"
      "same_elsewhere (names_of bs) d1 d'" "all_healthy d'" "checked_next (max_lsn seg) = Some (Lsn (hd bs))" by auto
    have "Lsn (b - 1) < Lsn b"
      using checked_next_pred [OF parsed_not_none [OF rs(1)]] by (simp add: checked_next_Some lsn_less_iff)
    then have ne: "rs \<noteq> []" using go(1) rs(2) by auto
    have "filename_for (Lsn b) \<notin> names_of bs" using Cons.prems(3) by auto
    then have p: "parsed crc ?ssz ?mx d' b rs" using parsed_same [OF rss(6)] rs(1) by blast
    have "rss \<noteq> []" using rss(1) False by (cases bs) auto
    moreover have "same_elsewhere (names_of (b # bs)) d d'"
      using same_elsewhere_trans [OF rs(3) rss(6)] by simp
    ultimately show ?thesis
      using False ne p rss rs run_last_chain [OF ne] by (intro exI [of _ "rs # rss"]) simp
  qed
qed simp

section \<open>Replaying a chain\<close>

lemma drain_run:
  assumes "parse_run crc (fdata f) ssz mx (rd_offset rd) (checked_next lv) = (rs, x)"
    and "\<not> rd_done rd" "rd_file rd = Some name" "file_of d name = f" "healthy f"
    and "rd_segment_size rd = ssz" "rd_max_record_size rd = mx" "rd_expected rd = checked_next lv"
  shows "\<exists>buf. drain crc rd d = (let (xs, err) = drain crc (rd\<lparr>rd_offset := x, rd_expected := checked_next (run_last lv rs), rd_buf := buf\<rparr>) d
    in (filter (\<lambda>r. \<not> fst r < rd_from rd) rs @ xs, err))"
  using assms
proof (induction rd arbitrary: lv rs rule: wf_induct_rule [OF wf_rd_rel])
  case (1 rd)
  note run = "1.prems"(1) and live = "1.prems"(2,3) and f = "1.prems"(4,5) and sz = "1.prems"(6,7) and ex = "1.prems"(8)
  let ?out = "scan_bytes crc (fdata f) (rd_offset rd) ssz mx"
  obtain buf where rr: "rd_read crc rd d name = Inr (?out, buf)"
    and buf: "\<And>l k n. ?out = ScanRecord l k n \<Longrightarrow> buf = window (rd_offset rd) (rd_offset rd + n) (fdata f)"
    using read_record_at_healthy [OF f(2), of crc "rd_offset rd" ssz mx] f(1) sz by auto
  show ?case
  proof (cases "\<exists>l k n. ?out = ScanRecord l k n \<and> checked_next lv = Some l")
    case False
    then have "rs = []" "x = rd_offset rd"
      using run parse_run_stop [of crc "fdata f" "rd_offset rd" ssz mx "checked_next lv"] by auto
    then show ?thesis using ex by (intro exI [of _ "rd_buf rd"]) (cases rd, simp add: Let_def split: prod.splits)
  next
    case True
    then obtain l k n where o: "?out = ScanRecord l k n" and l: "checked_next lv = Some l" by blast
    obtain rs' where rs: "parse_run crc (fdata f) ssz mx (rd_offset rd + n) (checked_next l) = (rs', x)"
      "rs = (l, window (rd_offset rd + 20) (rd_offset rd + 20 + k) (fdata f)) # rs'"
      using run parse_run_step [OF o] l by (auto split: prod.splits)
    note rr' = rr [unfolded o]
    have b: "20 + k \<le> n" using read_record_at_Record(1) [OF rr'] framed_size_bounds(1) [of k] by simp
    have w: "window 20 (20 + k) buf = window (rd_offset rd + 20) (rd_offset rd + 20 + k) (fdata f)"
      unfolding buf [OF o] using b by (simp add: window_def drop_take min_absorb2 add.commute)
    from "1.IH" [OF rd_step_rel [OF rr'], of l rs'] rs(1) live f sz
    obtain buf' where "drain crc (rd_step rd buf l n) d =
      (let (xs, err) = drain crc ((rd_step rd buf l n)\<lparr>rd_offset := x, rd_expected := checked_next (run_last l rs'), rd_buf := buf'\<rparr>) d
       in (filter (\<lambda>r. \<not> fst r < rd_from rd) rs' @ xs, err))" by (auto simp: rd_step_def)
    moreover have "(rd_step rd buf l n)\<lparr>rd_offset := x, rd_expected := checked_next (run_last l rs'), rd_buf := buf'\<rparr>
      = rd\<lparr>rd_offset := x, rd_expected := checked_next (run_last l rs'), rd_buf := buf'\<rparr>" by (simp add: rd_step_def)
    ultimately show ?thesis
      using drain_step [OF live rr'] ex l rs(2) w by (intro exI [of _ buf']) (simp add: Let_def split: prod.splits)
  qed
qed

lemma drain_linked:
  assumes "linked crc ssz mx d bs rss" "bs \<noteq> []" "dfaults d = []"
    and "rd_segments rd = pre @ map Lsn bs" "rd_seg_idx rd = length pre" "rd_file rd = Some (filename_for (Lsn (hd bs)))"
    and "rd_offset rd = 64" "rd_expected rd = Some (Lsn (hd bs))" "\<not> rd_done rd"
    and "rd_segment_size rd = ssz" "rd_max_record_size rd = mx"
  shows "drain crc rd d = (filter (\<lambda>r. \<not> fst r < rd_from rd) (concat rss), None)"
  using assms
proof (induction bs arbitrary: rss rd pre)
  case (Cons b bs)
  obtain rs rss' where rss: "rss = rs # rss'" and p: "parsed crc ssz mx d b rs" and ln: "linked crc ssz mx d bs rss'"
    and nx: "bs \<noteq> [] \<Longrightarrow> rs \<noteq> [] \<and> checked_next (fst (last rs)) = Some (Lsn (hd bs))"
    using Cons.prems(1) by (auto split: list.splits)
  from p obtain f x where f: "map_of (entries d) (filename_for (Lsn b)) = Some f" "healthy f"
    "parse_run crc (fdata f) ssz mx 64 (Some (Lsn b)) = (rs, x)" "scan_bytes crc (fdata f) x ssz mx = CleanEnd"
    unfolding parsed_def by blast
  note pr = checked_next_pred [OF parsed_not_none [OF p], unfolded lsn.sel]
  have fo: "file_of d (filename_for (Lsn b)) = f" using f(1) by (simp add: file_of_def)
  let ?lv = "run_last (Lsn (b - 1)) rs"
  obtain buf where dr: "drain crc rd d = (let (xs, err) = drain crc (rd\<lparr>rd_offset := x, rd_expected := checked_next ?lv, rd_buf := buf\<rparr>) d
    in (filter (\<lambda>r. \<not> fst r < rd_from rd) rs @ xs, err))"
    using drain_run [of crc f ssz mx rd "Lsn (b - 1)" rs x "filename_for (Lsn b)" d] f fo Cons.prems pr by auto
  define rd1 where "rd1 = rd\<lparr>rd_offset := x, rd_expected := checked_next ?lv, rd_buf := buf\<rparr>"
  have live: "\<not> rd_done rd1" "rd_file rd1 = Some (filename_for (Lsn b))" using Cons.prems by (simp_all add: rd1_def)
  obtain buf1 where "rd_read crc rd1 d (filename_for (Lsn b)) = Inr (CleanEnd, buf1)"
    using read_record_at_healthy [OF f(2), of crc x ssz mx] f(4) fo Cons.prems(10,11) by (auto simp: rd1_def)
  note op = reader_next_open(3) [OF live, of crc d buf1, OF disjI1 [OF this]]
  show ?case
  proof (cases "bs = []")
    case True
    then have "advance_segment (rd1\<lparr>rd_buf := buf1\<rparr>) d =
        (Inr False, rd1\<lparr>rd_buf := buf1, rd_seg_idx := rd_seg_idx rd1 + 1, rd_file := None\<rparr>, d)"
      using Cons.prems(4,5) by (simp add: advance_segment_def rd1_def Let_def)
    then have "drain crc rd1 d = ([], None)" using op by (subst drain.simps) simp
    then show ?thesis using dr ln True by (simp add: rss rd1_def)
  next
    case False
    then obtain b' bs' where bs: "bs = b' # bs'" by (cases bs) auto
    obtain rs' where "parsed crc ssz mx d b' rs'" using ln by (auto simp: bs split: list.splits)
    then obtain g where g: "map_of (entries d) (filename_for (Lsn b')) = Some g" by (auto simp: parsed_def)
    define rd2 where "rd2 = rd1\<lparr>rd_buf := buf1, rd_seg_idx := rd_seg_idx rd1 + 1,
        rd_file := Some (filename_for (Lsn b')), rd_offset := 64\<rparr>"
    have "advance_segment (rd1\<lparr>rd_buf := buf1\<rparr>) d = (Inr True, rd2, d)"
      using Cons.prems(4,5) open_file_no_faults [OF Cons.prems(3) g]
      by (simp add: advance_segment_def rd1_def rd2_def Let_def bs nth_append)
    then have "drain crc rd1 d = drain crc rd2 d" using op by (intro drain_cong) simp
    also have "\<dots> = (filter (\<lambda>r. \<not> fst r < rd_from rd2) (concat rss'), None)"
      by (rule Cons.IH [OF ln False Cons.prems(3), of _ "pre @ [Lsn b]"])
        (use Cons.prems nx [OF False] in \<open>simp_all add: rd2_def rd1_def bs run_last_def\<close>)
    finally show ?thesis using dr by (simp add: rss rd1_def [symmetric]) (simp add: rd2_def rd1_def)
  qed
qed simp

text \<open>The records of a chain are dense.\<close>

lemma linked_dense:
  assumes "linked crc ssz mx d bs rss" "bs \<noteq> []"
  shows "map fst (concat rss) = map lsn_of [lsn_nat (Lsn (hd bs)) ..< Suc (lsn_nat (run_last (Lsn (last bs - 1)) (last rss)))]
    \<and> lsn_nat (Lsn (hd bs)) \<le> Suc (lsn_nat (run_last (Lsn (last bs - 1)) (last rss)))
    \<and> list_all (\<lambda>r. length (snd r) \<le> mx) (concat rss)"
  using assms
proof (induction bs arbitrary: rss)
  case (Cons b bs)
  obtain rs rss' where rss: "rss = rs # rss'" and p: "parsed crc ssz mx d b rs" and ln: "linked crc ssz mx d bs rss'"
    and nx: "bs \<noteq> [] \<Longrightarrow> rs \<noteq> [] \<and> checked_next (fst (last rs)) = Some (Lsn (hd bs))"
    using Cons.prems(1) by (auto split: list.splits)
  note pr = checked_next_pred [OF parsed_not_none [OF p], unfolded lsn.sel]
  have b: "lsn_nat (Lsn b) = Suc (lsn_nat (Lsn (b - 1)))" using pr by (simp add: checked_next_Some)
  from p obtain f :: osfile and x where "parse_run crc (fdata f) ssz mx 64 (checked_next (Lsn (b - 1))) = (rs, x)"
    unfolding parsed_def pr by blast
  note e = parse_run_end(5-7) [OF this]
  show ?case
  proof (cases "bs = []")
    case True
    then show ?thesis using e ln b by (simp add: rss del: upt_Suc)
  next
    case False
    then have "rss' \<noteq> []" using ln by (cases bs) auto
    have h: "lsn_nat (Lsn (hd bs)) = lsn_nat (Lsn b) + length rs"
      using nx [OF False] e(1) b by (simp add: checked_next_Some run_last_def)
    note ih = Cons.IH [OF ln False]
    let ?e = "Suc (lsn_nat (run_last (Lsn (last bs - 1)) (last rss')))"
    have "[lsn_nat (Lsn b) ..< ?e] = [lsn_nat (Lsn b) ..< lsn_nat (Lsn (hd bs))] @ [lsn_nat (Lsn (hd bs)) ..< ?e]"
      using ih h upt_add_eq_append [of "lsn_nat (Lsn b)" "lsn_nat (Lsn (hd bs))" "?e - lsn_nat (Lsn (hd bs))"]
      by (simp del: upt_Suc)
    then show ?thesis
      using ih e h b False \<open>rss' \<noteq> []\<close> by (simp add: rss del: upt_Suc)
  qed
qed simp

section \<open>Opening\<close>

text \<open>\<open>bs\<close> are the bases of the segment files of the directory, in order.\<close>

definition seg_bases :: "disk \<Rightarrow> u64 list \<Rightarrow> bool" where
  "seg_bases d bs \<longleftrightarrow> distinct (map fst (entries d)) \<and> sorted_wrt (<) bs
     \<and> (\<forall>b. b \<in> set bs \<longleftrightarrow> map_of (entries d) (filename_for (Lsn b)) \<noteq> None)"

lemma seg_bases_found:
  assumes "distinct (map fst (entries d))"
  shows "seg_bases d (sort (List.map_filter parse_base_lsn (map fst (entries d))))" (is "seg_bases d ?bs")
proof -
  let ?ns = "filter is_seg_name (map fst (entries d))" and ?g = "\<lambda>n. the (parse_base_lsn n)"
  have "inj_on ?g (set ?ns)" by (rule inj_onI) (auto simp: is_seg_name_iff parse_filename_for lsn.expand)
  moreover have "distinct ?ns" using assms by simp
  ultimately have "distinct ?bs" unfolding map_filter_parse distinct_sort distinct_map by blast
  then have "sorted_wrt (<) ?bs" by (simp add: strict_sorted_iff)
  moreover have "b \<in> set ?bs \<longleftrightarrow> map_of (entries d) (filename_for (Lsn b)) \<noteq> None" for b
  proof -
    have "b \<in> set ?bs \<longleftrightarrow> (\<exists>n \<in> fst ` set (entries d). parse_base_lsn n = Some b)"
      by (auto simp: List.map_filter_def image_iff) (metis fst_conv option.sel)
    then show ?thesis by (auto simp: parse_base_lsn_iff map_of_eq_None_iff)
  qed
  ultimately show ?thesis using assms by (simp add: seg_bases_def)
qed

lemma seg_bases_unique: "seg_bases d bs \<Longrightarrow> seg_bases d bs' \<Longrightarrow> bs = bs'"
  unfolding seg_bases_def strict_sorted_iff
  by (metis (no_types, lifting) sorted_distinct_set_unique subset_antisym subsetI)

lemma discover_found:
  assumes "dfaults d = []" "seg_bases d bs"
  shows "discover d = (Inr bs, d)"
proof -
  have "distinct (map fst (entries d))" using assms(2) by (simp add: seg_bases_def)
  from seg_bases_unique [OF seg_bases_found [OF this] assms(2)] show ?thesis
    using assms(1) by (simp add: discover_def may_fail_no_faults read_entries_no_faults)
qed

lemma map_of_delete: "map_of (AList.delete n es) m = (if m = n then None else map_of es m)"
  by (simp add: delete_conv')

lemma discard_ok:
  assumes r: "discard_incomplete_highest crc bs cfg d = (Inr bs', d')" and d: "dfaults d = []" "all_healthy d" "seg_bases d bs"
  shows "dfaults d' = [] \<and> all_healthy d' \<and> seg_bases d' bs' \<and> lock_held d' = lock_held d"
proof (cases "bs' = bs \<and> d' = d")
  case False
  let ?n = "filename_for (Lsn (last bs))"
  have ne: "bs \<noteq> []" using False r by (auto simp: discard_incomplete_highest_def)
  then obtain f where f: "map_of (entries d) ?n = Some f" using d(3) last_in_set [of bs] by (auto simp: seg_bases_def)
  have hd: "snd (highest_is_complete crc cfg b g []) = []" for b g
    by (auto simp: highest_is_complete_def metadata_len_def split: sum.splits io_error.splits scan_outcome.splits)
  have self: "d\<lparr>dfaults := []\<rparr> = d" using d(1) by (cases d) simp
  obtain c where c: "highest_is_complete crc cfg (Lsn (last bs)) f [] = (c, [])" using hd by (metis prod.collapse)
  let ?d = "d\<lparr>entries := AList.delete ?n (entries d), pending := [], dfaults := []\<rparr>"
  have "bs' = butlast bs \<and> d' = ?d"
    using r ne False open_file_no_faults [OF d(1) f] c f d(1)
    by (auto simp: discard_incomplete_highest_def Let_def self remove_file_def fsync_dir_no_faults split: sum.splits bool.splits)
  moreover have sb: "sorted_wrt (<) bs" using d(3) by (simp add: seg_bases_def)
  moreover have "b \<in> set (butlast bs) \<longleftrightarrow> b \<in> set bs \<and> b \<noteq> last bs" for b
    using sb ne by (cases bs rule: rev_cases) (auto simp: sorted_wrt_append)
  moreover have "sorted_wrt (<) (butlast bs)"
    using sb by (cases bs rule: rev_cases) (simp_all add: sorted_wrt_append)
  ultimately show ?thesis
    using d by (auto simp: seg_bases_def all_healthy_def map_of_delete distinct_delete)
qed (use d in auto)

lemma create_fresh:
  assumes "create crc c b ssz d = (res, d')" "dfaults d = []" "map_of (entries d) (filename_for b) = None" "64 \<le> ssz"
  shows "res = Inr () \<and> entries d' = entries d @ [(filename_for b, disk_file (fresh_segment crc c b ssz))]
    \<and> dfaults d' = [] \<and> lock_held d' = lock_held d"
  using assms init_segment_ok [OF assms(4), of crc c b] put_file_snoc [of _ "entries d" "filename_for b"]
  by (auto simp: create_def Let_def create_new_def disk_file_def map_of_eq_None_iff)

lemma parsed_fresh:
  assumes "map_of (entries d) (filename_for b) = Some (disk_file (fresh_segment crc c b ssz))" "\<not> is_none b" "64 \<le> ssz"
  shows "parsed crc ssz mx d (lsn_val b) []"
proof -
  have e: "Lsn (lsn_val b) = b" by simp
  have "scan_bytes crc (fresh_segment crc c b ssz) 64 ssz mx = CleanEnd"
    by (rule scan_bytes_zero_tail) (use assms(3) in \<open>simp_all add: fresh_segment_def\<close>)
  moreover from this have "parse_run crc (fresh_segment crc c b ssz) ssz mx 64 (Some b) = ([], 64)" by (intro parse_run_stop) simp
  moreover have "decode_header crc (encode_header crc b c) = Inr \<lparr>base_lsn = b\<rparr>" using assms(2) by (simp add: decode_encode_header)
  ultimately show ?thesis
    unfolding parsed_def e using assms(1) by (simp add: healthy_def fresh_segment_def disk_file_def)
qed

text \<open>What a successful open has established, whatever it found.\<close>

definition chained :: "(bytes \<Rightarrow> u32) \<Rightarrow> wal_config \<Rightarrow> 'o wal \<Rightarrow> disk \<Rightarrow> u64 list \<Rightarrow> (lsn \<times> bytes) list list \<Rightarrow> bool" where
  "chained crc cfg w d bs rss \<longleftrightarrow> bs \<noteq> [] \<and> cfg_ok cfg \<and> seg_bases d bs \<and> all_healthy d \<and> dfaults d = [] \<and> lock_held d
     \<and> linked crc (unat (cfg_segment_size cfg)) (unat (cfg_max_record_size cfg)) d bs rss
     \<and> segments w = map Lsn bs \<and> segment_size w = cfg_segment_size cfg \<and> max_record_size w = cfg_max_record_size cfg
     \<and> oldest_lsn w = Lsn (hd bs) \<and> durable_lsn w = run_last (Lsn (last bs - 1)) (last rss) \<and> last_lsn w = durable_lsn w"

lemma seg_bases_same:
  assumes "seg_bases d bs" "distinct (map fst (entries d'))" "\<And>n. map_of (entries d') n = None \<longleftrightarrow> map_of (entries d) n = None"
  shows "seg_bases d' bs"
  using assms by (simp add: seg_bases_def)

lemma with_lock_all_healthy: "all_healthy d \<Longrightarrow> all_healthy (with_lock d)"
  by (auto simp: all_healthy_def with_lock_def healthy_def empty_file_def map_add_def split: option.splits if_splits)

lemma recover_open_ok:
  assumes r: "recover_all crc bs cfg d = (Inr r, d')" and bs: "bs \<noteq> []" "seg_bases d bs" and d: "dfaults d = []" "all_healthy d" "cfg_ok cfg"
  shows "\<exists>rss. linked crc (unat (cfg_segment_size cfg)) (unat (cfg_max_record_size cfg)) d' bs rss \<and> seg_bases d' bs
    \<and> all_healthy d' \<and> dfaults d' = [] \<and> lock_held d' = lock_held d \<and> r_oldest_lsn r = Lsn (hd bs) \<and> r_segments r = map Lsn bs
    \<and> r_last_lsn r = run_last (Lsn (last bs - 1)) (last rss)"
proof -
  have dis: "distinct bs" using bs(2) by (simp add: seg_bases_def strict_sorted_iff)
  from recover_bases_ok [OF r [unfolded recover_all_def] bs(1) dis d] obtain rss where
    rss: "linked crc (unat (cfg_segment_size cfg)) (unat (cfg_max_record_size cfg)) d' bs rss"
    "r_last_lsn r = run_last (Lsn (last bs - 1)) (last rss)" "r_oldest_lsn r = Lsn (hd bs)" "r_segments r = map Lsn bs"
    "same_elsewhere (names_of bs) d d'" "all_healthy d'" by auto
  have "seg_bases d' bs" by (rule seg_bases_same [OF bs(2)]) (use rss(5) bs(2) in \<open>simp_all add: same_elsewhere_def seg_bases_def\<close>)
  then show ?thesis using rss by (auto simp: same_elsewhere_def)
qed

lemma cold_start_ok:
  assumes r: "cold_start crc clock ssz seed d = (Inr r, d')" and d: "dfaults d = []" "all_healthy d" "seg_bases d []"
    and "64 \<le> ssz" "\<not> is_none seed"
  shows "parsed crc ssz mx d' (lsn_val seed) [] \<and> seg_bases d' [lsn_val seed] \<and> all_healthy d' \<and> dfaults d' = []
    \<and> lock_held d' = lock_held d \<and> r_oldest_lsn r = seed \<and> r_segments r = [seed] \<and> r_last_lsn r = Lsn (lsn_val seed - 1)"
proof -
  let ?n = "filename_for seed" and ?f = "disk_file (fresh_segment crc (clock seed) seed ssz)"
  have none: "map_of (entries d) (filename_for (Lsn b)) = None" for b using d(3) by (simp add: seg_bases_def)
  from none [of "lsn_val seed"] have n: "map_of (entries d) ?n = None" by simp
  obtain res d1 where c: "create crc (clock seed) seed ssz d = (res, d1)" by fastforce
  note cf = create_fresh [OF c d(1) n assms(5)]
  have d': "entries d' = entries d @ [(?n, ?f)]" "dfaults d' = []" "lock_held d' = lock_held d"
    and rr: "r_oldest_lsn r = seed" "r_segments r = [seed]" "r_last_lsn r = Lsn (lsn_val seed - 1)"
    using r c cf by (auto simp: cold_start_def fsync_dir_no_faults)
  have m: "map_of (entries d') = (map_of (entries d))(?n \<mapsto> ?f)"
    using n by (auto simp: d'(1) map_add_def fun_eq_iff split: option.splits)
  have "?n \<notin> fst ` set (entries d)" using n by (simp add: map_of_eq_None_iff)
  then have "seg_bases d' [lsn_val seed]"
    using none d(3) m unfolding seg_bases_def by (auto simp: d'(1))
  then show ?thesis
    using parsed_fresh [of d' seed crc "clock seed" ssz mx] assms m d' rr by (auto simp: all_healthy_def healthy_def disk_file_def)
qed

lemma open_any:
  assumes o: "open_seeded crc clock cfg ob seed d = (Inr (w, rep), d')"
    and d: "dfaults d = []" "all_healthy d" "distinct (map fst (entries d))"
  shows "\<exists>bs rss. chained crc cfg w d' bs rss \<and> report_oldest_lsn rep = oldest_lsn w \<and> report_durable_lsn rep = durable_lsn w"
proof -
  have c: "cfg_ok cfg" "\<not> is_none seed" using o by (auto simp: open_seeded_def cfg_check split: if_splits)
  have "\<not> lock_held d"
  proof
    assume "lock_held d"
    then have "fst (open_seeded crc clock cfg ob seed d) = Inl Locked"
      using c d(1) by (simp add: open_seeded_def cfg_check may_fail_no_faults open_lock_def flock_def split: option.splits)
    then show False using o by simp
  qed
  note os = open_seeded_no_faults [OF c d(1) this, of crc clock ob]
  let ?D = "with_lock d" and ?ssz = "unat (cfg_segment_size cfg)"
  have D: "dfaults ?D = []" "all_healthy ?D" "lock_held ?D" using d with_lock_all_healthy by simp_all
  obtain bs where bs: "seg_bases ?D bs" using seg_bases_found [OF with_lock_distinct [OF d(3)]] by blast
  obtain r1 d1 where dis: "discard_incomplete_highest crc bs cfg ?D = (r1, d1)" by fastforce
  have ol: "open_locked crc clock cfg ob seed ?D = (Inr (w, rep), d')"
    using o os by (auto split: prod.splits sum.splits)
  then obtain bs1 where r1: "r1 = Inr bs1"
    using dis by (cases r1) (auto simp: open_locked_def discover_found [OF D(1) bs])
  from discard_ok [OF dis [unfolded r1] D(1,2) bs] D(3)
  have d1: "dfaults d1 = []" "all_healthy d1" "seg_bases d1 bs1" "lock_held d1" by auto
  have ssz: "64 \<le> ?ssz" using c(1) by (simp add: cfg_ok_def)
  show ?thesis
  proof (cases "bs1 = []")
    case True
    obtain r where r: "cold_start crc clock ?ssz seed d1 = (Inr r, d')"
      using ol dis r1 True by (auto simp: open_locked_def discover_found [OF D(1) bs] split: prod.splits sum.splits)
    from cold_start_ok [OF r d1(1,2) _ ssz c(2), of "unat (cfg_max_record_size cfg)"] d1 True
    show ?thesis
      using ol dis r1 True c(1) r by (intro exI [of _ "[lsn_val seed]"] exI [of _ "[[]]"])
        (auto simp: open_locked_def discover_found [OF D(1) bs] chained_def)
  next
    case False
    obtain r where r: "recover_all crc bs1 cfg d1 = (Inr r, d')"
      using ol dis r1 False by (auto simp: open_locked_def discover_found [OF D(1) bs] split: prod.splits sum.splits)
    from recover_open_ok [OF r False d1(3,1,2) c(1)] obtain rss where
      "linked crc ?ssz (unat (cfg_max_record_size cfg)) d' bs1 rss \<and> seg_bases d' bs1
    \<and> all_healthy d' \<and> dfaults d' = [] \<and> lock_held d' = lock_held d1 \<and> r_oldest_lsn r = Lsn (hd bs1) \<and> r_segments r = map Lsn bs1
    \<and> r_last_lsn r = run_last (Lsn (last bs1 - 1)) (last rss)" by blast
    then show ?thesis
      using ol dis r1 False c(1) r d1(4) by (intro exI [of _ bs1] exI [of _ rss])
        (auto simp: open_locked_def discover_found [OF D(1) bs] chained_def)
  qed
qed

section \<open>What it serves\<close>

lemma chained_replay:
  assumes c: "chained crc cfg w d bs rss"
  shows "\<exists>rd. reader_from NONE w d = (Inr rd, d) \<and> drain crc rd d = (concat rss, None)"
proof -
  let ?ssz = "unat (cfg_segment_size cfg)" and ?mx = "unat (cfg_max_record_size cfg)"
  have ne: "bs \<noteq> []" and ln: "linked crc ?ssz ?mx d bs rss" and nf: "dfaults d = []" and sb: "seg_bases d bs"
    and w: "segments w = map Lsn bs" "segment_size w = cfg_segment_size cfg" "max_record_size w = cfg_max_record_size cfg"
    using c by (simp_all add: chained_def)
  obtain b bs' where bs: "bs = b # bs'" using ne by (cases bs) auto
  obtain rs where p: "parsed crc ?ssz ?mx d b rs" using ln by (auto simp: bs split: list.splits)
  then obtain f where f: "map_of (entries d) (filename_for (Lsn b)) = Some f" by (auto simp: parsed_def)
  have b0: "0 < lsn_nat (Lsn b)" using parsed_not_none [OF p] by (simp add: is_none_iff)
  have "b < b'" if "b' \<in> set bs'" for b' using sb that by (simp add: seg_bases_def bs)
  then have "1 < lsn_nat (Lsn b')" if "b' \<in> set bs'" for b'
    using that b0 by (force simp: lsn_nat_Lsn word_less_nat_alt)
  then have "\<not> Lsn b' \<le> FIRST" if "b' \<in> set bs'" for b' using that by (fastforce simp: lsn_le_iff)
  then have "takeWhile (\<lambda>b. b \<le> FIRST) (map Lsn bs') = []" by (cases bs') auto
  then have idx: "containing_segment_idx (map Lsn bs) FIRST = 0"
    by (simp add: containing_segment_idx_def partition_point_def bs)
  let ?rd = "new_reader (map Lsn bs) 0 (filename_for (Lsn b)) FIRST ?ssz ?mx"
  have "reader_from NONE w d = (Inr ?rd, d)"
    using open_file_no_faults [OF nf f] idx by (simp add: reader_from_def NONE_def Let_def w bs)
  moreover have "drain crc ?rd d = (filter (\<lambda>r. \<not> fst r < FIRST) (concat rss), None)"
    using drain_linked [OF ln ne nf, of ?rd "[]"] by (simp add: new_reader_def bs)
  moreover have "filter (\<lambda>r. \<not> fst r < FIRST) (concat rss) = concat rss"
  proof (rule filter_True, rule ballI)
    fix r assume "r \<in> set (concat rss)"
    then have "fst r \<in> set (map fst (concat rss))" by simp
    then obtain i where "fst r = lsn_of i" "lsn_nat (Lsn b) \<le> i" "i < Suc (lsn_nat (run_last (Lsn (last bs - 1)) (last rss)))"
      using linked_dense [OF ln ne] by (auto simp: bs simp del: upt_Suc)
    then show "\<not> fst r < FIRST" using b0 lsn_nat_le_max [of "run_last (Lsn (last bs - 1)) (last rss)"] by (simp add: lsn_less_iff)
  qed
  ultimately show ?thesis by auto
qed

lemma recover_one_parsed:
  assumes p: "parsed crc (unat (cfg_segment_size cfg)) (unat (cfg_max_record_size cfg)) d b rs" and d: "dfaults d = []"
    and prev: "\<And>pm. prev = Some pm \<Longrightarrow> checked_next pm = Some (Lsn b)"
  shows "\<exists>x d'. recover_one crc cfg prev (Lsn b) act d =
      (Inr \<lparr>max_lsn = run_last (Lsn (b - 1)) rs, rec_write_offset = x, rec_tail_state = Clean\<rparr>, d')
    \<and> map_of (entries d') = map_of (entries d) \<and> (distinct (map fst (entries d)) \<longrightarrow> distinct (map fst (entries d')))
    \<and> dfaults d' = [] \<and> lock_held d' = lock_held d"
proof -
  let ?n = "filename_for (Lsn b)"
  from p obtain f x h where f: "map_of (entries d) ?n = Some f" "healthy f" "64 \<le> length (fdata f)"
    "decode_header crc (take 64 (fdata f)) = Inr h" "base_lsn h = Lsn b"
    "parse_run crc (fdata f) (unat (cfg_segment_size cfg)) (unat (cfg_max_record_size cfg)) 64 (Some (Lsn b)) = (rs, x)"
    "scan_bytes crc (fdata f) x (unat (cfg_segment_size cfg)) (unat (cfg_max_record_size cfg)) = CleanEnd" unfolding parsed_def by blast
  have "read_exact_at f 0 64 = Inr (take 64 (fdata f))" using f(2,3) by (simp add: read_exact_at_def window_def)
  moreover have "recover_segment crc f (Lsn b) act (unat (cfg_segment_size cfg)) (unat (cfg_max_record_size cfg)) [] =
    (Inr \<lparr>max_lsn = run_last (Lsn (b - 1)) rs, rec_write_offset = x, rec_tail_state = Clean\<rparr>, f, [])"
    using recover_segment_spec [OF f(2) parsed_not_none [OF p]] f(6,7) by (simp add: recovery_spec_def Let_def)
  moreover have "\<not> (case prev of Some pm \<Rightarrow> checked_next pm \<noteq> Some (Lsn b) | None \<Rightarrow> False)"
    using prev by (simp split: option.splits)
  ultimately show ?thesis
    using open_file_no_faults [OF d f(1)] f(1,4,5) d
    by (auto simp: recover_one_def Let_def entries_put_file fun_upd_idem distinct_put_file)
qed

lemma parsed_cong: "map_of (entries d') = map_of (entries d) \<Longrightarrow> parsed crc ssz mx d' = parsed crc ssz mx d"
  by (simp add: parsed_def fun_eq_iff)

lemma linked_cong:
  assumes "map_of (entries d') = map_of (entries d)"
  shows "linked crc ssz mx d' bs rss = linked crc ssz mx d bs rss"
  by (induction bs arbitrary: rss) (auto simp: parsed_cong [OF assms] split: list.splits)

lemma recover_bases_linked:
  assumes "linked crc (unat (cfg_segment_size cfg)) (unat (cfg_max_record_size cfg)) d bs rss" "bs \<noteq> []" "dfaults d = []"
    and "\<And>pm. prev = Some pm \<Longrightarrow> checked_next pm = Some (Lsn (hd bs))" "distinct (map fst (entries d))"
  shows "\<exists>x d'. recover_bases crc cfg prev bs acc d =
      (Inr (acc\<lparr>r_active := Some (filename_for (Lsn (last bs))), r_write_offset := x,
                r_last_lsn := run_last (Lsn (last bs - 1)) (last rss), r_tail_state := Clean\<rparr>), d')
    \<and> map_of (entries d') = map_of (entries d) \<and> distinct (map fst (entries d')) \<and> dfaults d' = [] \<and> lock_held d' = lock_held d"
  using assms
proof (induction bs arbitrary: rss prev d)
  case (Cons b bs)
  obtain rs rss' where rss: "rss = rs # rss'"
    and p: "parsed crc (unat (cfg_segment_size cfg)) (unat (cfg_max_record_size cfg)) d b rs"
    and ln: "linked crc (unat (cfg_segment_size cfg)) (unat (cfg_max_record_size cfg)) d bs rss'"
    and nx: "bs \<noteq> [] \<Longrightarrow> rs \<noteq> [] \<and> checked_next (fst (last rs)) = Some (Lsn (hd bs))"
    using Cons.prems(1) by (auto split: list.splits)
  from recover_one_parsed [OF p Cons.prems(3), of prev "bs = []"] Cons.prems(4) obtain x d1 where
    1: "recover_one crc cfg prev (Lsn b) (bs = []) d =
      (Inr \<lparr>max_lsn = run_last (Lsn (b - 1)) rs, rec_write_offset = x, rec_tail_state = Clean\<rparr>, d1)"
    "map_of (entries d1) = map_of (entries d)" "distinct (map fst (entries d1))" "dfaults d1 = []" "lock_held d1 = lock_held d"
    using Cons.prems(5) by auto
  show ?case
  proof (cases "bs = []")
    case True
    then show ?thesis using 1 ln by (auto simp: rss)
  next
    case False
    note n = nx [OF False]
    from p obtain f :: osfile and y where run: "parse_run crc (fdata f) (unat (cfg_segment_size cfg)) (unat (cfg_max_record_size cfg)) 64 (Some (Lsn b)) = (rs, y)"
      unfolding parsed_def by blast
    note pr = checked_next_pred [OF parsed_not_none [OF p], unfolded lsn.sel]
    have "lsn_nat (Lsn b) \<le> lsn_nat (fst (last rs))"
      using parse_run_end(5) [OF run [folded pr]] n pr by (cases rs) (auto simp: run_last_def checked_next_Some)
    then have "\<not> run_last (Lsn (b - 1)) rs < Lsn b" using n by (simp add: run_last_def lsn_less_iff)
    moreover have "rss' \<noteq> []" using ln False by (cases bs) auto
    ultimately show ?thesis
      using Cons.IH [OF _ False 1(4) _ 1(3), of rss' "Some (run_last (Lsn (b - 1)) rs)"] ln n 1 False linked_cong [OF 1(2)]
      by (simp add: rss run_last_chain)
  qed
qed simp

lemma chained_reopen:
  assumes c: "chained crc cfg w d bs rss" and seed: "\<not> is_none seed"
  shows "\<exists>w2 d2. open_seeded crc clk cfg ob seed (drop_handle d) =
      (Inr (w2, \<lparr>report_oldest_lsn = oldest_lsn w, report_durable_lsn = durable_lsn w,
                 report_tail_state = Clean, report_segments_scanned = length (segments w)\<rparr>), d2)
    \<and> chained crc cfg w2 d2 bs rss"
proof -
  let ?ssz = "unat (cfg_segment_size cfg)" and ?mx = "unat (cfg_max_record_size cfg)"
  have ne: "bs \<noteq> []" and ln: "linked crc ?ssz ?mx d bs rss" and nf: "dfaults d = []" and sb: "seg_bases d bs"
    and cf: "cfg_ok cfg" and ah: "all_healthy d"
    and w: "segments w = map Lsn bs" "oldest_lsn w = Lsn (hd bs)" "durable_lsn w = run_last (Lsn (last bs - 1)) (last rss)"
    using c by (simp_all add: chained_def)
  let ?D = "with_lock (drop_handle d)"
  have nfD: "dfaults (drop_handle d) = []" "\<not> lock_held (drop_handle d)" using nf by (simp_all add: drop_handle_def)
  have mD: "map_of (entries ?D) (filename_for b) = map_of (entries d) (filename_for b)" for b
    using with_lock_map [of "filename_for b" "drop_handle d"] by (simp add: is_seg_name_iff drop_handle_def)
  have disD: "distinct (map fst (entries ?D))" using sb with_lock_distinct [of "drop_handle d"] by (simp add: seg_bases_def drop_handle_def)
  have sbD: "seg_bases ?D bs" using sb disD by (simp add: seg_bases_def mD)
  have pD: "parsed crc ?ssz ?mx ?D = parsed crc ?ssz ?mx d" by (simp add: parsed_def mD fun_eq_iff)
  have lnD: "linked crc ?ssz ?mx ?D bs rss" using ln by (induction bs arbitrary: rss) (auto simp: pD split: list.splits)
  have "all_healthy (drop_handle d)" using ah by (simp add: all_healthy_def drop_handle_def)
  then have ahD: "all_healthy ?D" by (rule with_lock_all_healthy)
  have "parsed crc ?ssz ?mx d (last bs) (last rss)"
    using ln ne by (induction bs arbitrary: rss) (auto split: list.splits if_splits)
  then obtain f h where f: "map_of (entries ?D) (filename_for (Lsn (last bs))) = Some f" "healthy f" "64 \<le> length (fdata f)"
    "decode_header crc (take 64 (fdata f)) = Inr h" "base_lsn h = Lsn (last bs)" by (auto simp: parsed_def mD)
  have self: "?D\<lparr>dfaults := []\<rparr> = ?D" using nf by (simp add: with_lock_def drop_handle_def)
  have "read_exact_at f 0 64 = Inr (take 64 (fdata f))" using f(2,3) by (simp add: read_exact_at_def window_def)
  then have dis: "discard_incomplete_highest crc bs cfg ?D = (Inr bs, ?D)"
    using f(4,5) open_file_no_faults [OF _ f(1)] nfD(1) ne
    by (simp add: discard_incomplete_highest_def highest_is_complete_def Let_def self)
  let ?acc = "\<lparr>r_active = None, r_write_offset = HEADER_SIZE, r_last_lsn = NONE,
        r_oldest_lsn = Lsn (hd bs), r_segments = map Lsn bs, r_tail_state = Clean\<rparr>"
  from recover_bases_linked [OF lnD ne _ _ disD, of None ?acc] nfD(1) obtain x d2 where
    2: "recover_all crc bs cfg ?D = (Inr \<lparr>r_active = Some (filename_for (Lsn (last bs))), r_write_offset = x,
        r_last_lsn = run_last (Lsn (last bs - 1)) (last rss), r_oldest_lsn = Lsn (hd bs), r_segments = map Lsn bs, r_tail_state = Clean\<rparr>, d2)"
    "map_of (entries d2) = map_of (entries ?D)" "distinct (map fst (entries d2))" "dfaults d2 = []" "lock_held d2"
    by (auto simp: recover_all_def)
  have "linked crc ?ssz ?mx d2 bs rss" "seg_bases d2 bs" "all_healthy d2"
    using linked_cong [OF 2(2)] lnD sbD 2(2,3) ahD by (simp_all add: seg_bases_def all_healthy_def)
  then show ?thesis
    using open_seeded_no_faults [OF cf seed nfD, of crc clk ob] discover_found [OF _ sbD] nfD(1) dis 2 ne w cf
    by (simp add: open_locked_def chained_def)
qed

text \<open>A directory with one segment opens as the recovery of that segment says.\<close>

lemma open_one:
  assumes c: "cfg_ok cfg" "\<not> is_none seed" and d: "dfaults d = []" "\<not> lock_held d" "all_healthy d" "seg_bases d [b]"
    and f: "map_of (entries d) (filename_for (Lsn b)) = Some f" "64 \<le> length (fdata f)"
      "decode_header crc (take 64 (fdata f)) = Inr h" "base_lsn h = Lsn b"
    and r: "recovery_spec crc f (Lsn b) True (unat (cfg_segment_size cfg)) (unat (cfg_max_record_size cfg)) = (res, f')"
  shows "case res of
      Inl e \<Rightarrow> \<exists>d'. open_seeded crc clock cfg ob seed d = (Inl e, d')
    | Inr seg \<Rightarrow> \<exists>w d'. open_seeded crc clock cfg ob seed d =
          (Inr (w, \<lparr>report_oldest_lsn = Lsn b, report_durable_lsn = max_lsn seg,
                    report_tail_state = rec_tail_state seg, report_segments_scanned = 1\<rparr>), d')
        \<and> chained crc cfg w d' [b]
            [fst (parse_run crc (fdata f) (unat (cfg_segment_size cfg)) (unat (cfg_max_record_size cfg)) 64 (Some (Lsn b)))]
        \<and> poisoned w = False \<and> staging w = []"
proof -
  let ?D = "with_lock d" and ?n = "filename_for (Lsn b)" and ?ssz = "unat (cfg_segment_size cfg)" and ?mx = "unat (cfg_max_record_size cfg)"
  have nn: "\<not> is_none (Lsn b)" using decode_header_base [OF f(3)] f(4) by simp
  have mD: "map_of (entries ?D) (filename_for x) = map_of (entries d) (filename_for x)" for x
    using with_lock_map [of "filename_for x" d] by (simp add: is_seg_name_iff)
  have fD: "map_of (entries ?D) ?n = Some f" using f(1) by (simp add: mD)
  have h: "healthy f" using d(3) f(1) by (auto simp: all_healthy_def)
  have disD: "distinct (map fst (entries ?D))" using d(4) with_lock_distinct by (simp add: seg_bases_def)
  have sbD: "seg_bases ?D [b]" using d(4) disD by (simp add: seg_bases_def mD)
  have nfD: "dfaults ?D = []" using d(1) by simp
  have self: "?D\<lparr>dfaults := []\<rparr> = ?D" using d(1) by (simp add: with_lock_def)
  have rx: "read_exact_at f 0 64 = Inr (take 64 (fdata f))" using h f(2) by (simp add: read_exact_at_def window_def)
  have dis: "discard_incomplete_highest crc [b] cfg ?D = (Inr [b], ?D)"
    using f(3,4) rx open_file_no_faults [OF nfD fD] by (simp add: discard_incomplete_highest_def highest_is_complete_def Let_def self)
  have one: "recover_one crc cfg None (Lsn b) True ?D = (res, put_file ?n f' [] ?D)"
    using open_file_no_faults [OF nfD fD] rx f(3,4) recover_segment_spec [OF h nn] r d(1)
    by (simp add: recover_one_def Let_def)
  note os = open_seeded_no_faults [OF c d(1,2), of crc clock ob]
  show ?thesis
  proof (cases res)
    case (Inl e)
    then show ?thesis
      using os dis one discover_found [OF nfD sbD] by (simp add: open_locked_def recover_all_def Let_def)
  next
    case (Inr seg)
    let ?d = "put_file ?n f' [] ?D" and ?rs = "fst (parse_run crc (fdata f) ?ssz ?mx 64 (Some (Lsn b)))"
    have "64 \<le> ?ssz" using c(1) by (simp add: cfg_ok_def)
    from recovery_spec_ok [OF r [unfolded Inr] nn h f(2) this] f(3,4)
    have p: "parsed crc ?ssz ?mx ?d b ?rs" "max_lsn seg = run_last (Lsn (b - 1)) ?rs" "healthy f'"
      by (auto simp: parsed_def entries_put_file)
    have "seg_bases ?d [b]"
      by (rule seg_bases_same [OF sbD]) (use disD fD in \<open>simp_all add: distinct_put_file entries_put_file\<close>)
    moreover have "all_healthy ?d" using with_lock_all_healthy [OF d(3)] p(3) by (auto simp: all_healthy_def entries_put_file)
    ultimately show ?thesis
      using os dis one discover_found [OF nfD sbD] Inr p c(1) by (simp add: open_locked_def recover_all_def chained_def Let_def)
  qed
qed

section \<open>Arbitrary directories\<close>

text \<open>C4. Opening any directory, whatever files and bytes it holds: when it succeeds, replay from the
  beginning yields without an error a dense run of records from the reported oldest LSN to the
  reported durable LSN, each within the record limit, and opening the directory again succeeds with
  the same watermarks and a clean tail, and replays the same records.\<close>

theorem any_directory_dense:
  assumes "dfaults d = []" "all_healthy d" "distinct (map fst (entries d))" "\<not> is_none seed"
    and "open_seeded crc clock cfg ob seed d = (Inr (w, rep), d')"
  shows "\<exists>rd rs. reader_from NONE w d' = (Inr rd, d') \<and> drain crc rd d' = (rs, None)
      \<and> map fst rs = map lsn_of [lsn_nat (report_oldest_lsn rep) ..< Suc (lsn_nat (report_durable_lsn rep))]
      \<and> lsn_nat (report_oldest_lsn rep) \<le> Suc (lsn_nat (report_durable_lsn rep))
      \<and> list_all (\<lambda>r. length (snd r) \<le> unat (cfg_max_record_size cfg)) rs
    \<and> (\<exists>w2 rep2 d2 rd2. open_seeded crc clk cfg ob2 seed (drop_handle d') = (Inr (w2, rep2), d2)
        \<and> report_oldest_lsn rep2 = report_oldest_lsn rep \<and> report_durable_lsn rep2 = report_durable_lsn rep
        \<and> report_tail_state rep2 = Clean
        \<and> reader_from NONE w2 d2 = (Inr rd2, d2) \<and> drain crc rd2 d2 = (rs, None))"
proof -
  from open_any [OF assms(5,1-3)] obtain bs rss where c: "chained crc cfg w d' bs rss"
    and rep: "report_oldest_lsn rep = oldest_lsn w" "report_durable_lsn rep = durable_lsn w" by blast
  from chained_replay [OF c] obtain rd where rd: "reader_from NONE w d' = (Inr rd, d')" "drain crc rd d' = (concat rss, None)" by blast
  from chained_reopen [OF c assms(4), of clk ob2] obtain w2 d2 where
    2: "open_seeded crc clk cfg ob2 seed (drop_handle d') =
      (Inr (w2, \<lparr>report_oldest_lsn = oldest_lsn w, report_durable_lsn = durable_lsn w,
                 report_tail_state = Clean, report_segments_scanned = length (segments w)\<rparr>), d2)"
    "chained crc cfg w2 d2 bs rss" by blast
  from chained_replay [OF 2(2)] obtain rd2 where "reader_from NONE w2 d2 = (Inr rd2, d2)" "drain crc rd2 d2 = (concat rss, None)" by blast
  moreover have "linked crc (unat (cfg_segment_size cfg)) (unat (cfg_max_record_size cfg)) d' bs rss" "bs \<noteq> []"
    "oldest_lsn w = Lsn (hd bs)" "durable_lsn w = run_last (Lsn (last bs - 1)) (last rss)" using c by (simp_all add: chained_def)
  ultimately show ?thesis
    using rd 2(1) linked_dense [of crc "unat (cfg_segment_size cfg)" "unat (cfg_max_record_size cfg)" d' bs rss] rep
    by - (rule exI [of _ rd], rule exI [of _ "concat rss"], simp del: upt_Suc)
qed

theorem any_directory_dense_witness:
  "\<exists>w d' rd w2 rep2 d2. reader_from NONE (w :: lsn list wal) d' = (Inr rd, d') \<and> drain csum rd d' = ([], None)
    \<and> open_seeded csum ex_clock ex_cfg () FIRST (drop_handle d') = (Inr (w2, rep2), d2) \<and> report_oldest_lsn rep2 = lsn_of 1"
proof -
  obtain w :: "lsn list wal" and d where o: "open_seeded csum ex_clock ex_cfg [] FIRST ex_disk =
      (Inr (w, \<lparr>report_oldest_lsn = lsn_of 1, report_durable_lsn = lsn_of 0,
                report_tail_state = Clean, report_segments_scanned = 1\<rparr>), d)" using ex_opened by blast
  have "all_healthy ex_disk" "distinct (map fst (entries ex_disk))" by (simp_all add: all_healthy_def ex_disk_def)
  from any_directory_dense [OF ex_disk_simps(1) this FIRST_not_none o, of ex_clock "()"]
  obtain rd w2 rep2 d2 where "reader_from NONE w d = (Inr rd, d)" "drain csum rd d = ([], None)"
    "open_seeded csum ex_clock ex_cfg () FIRST (drop_handle d) = (Inr (w2, rep2), d2)" "report_oldest_lsn rep2 = lsn_of 1"
    by (auto simp: u64_max_def)
  then show ?thesis by blast
qed

end
