(* ===== verification/Wal_Oracle.thy ===== *)
theory Wal_Oracle
  imports Wal_Guarantees
begin

text \<open>
  The model-based harness of \<^verbatim>\<open>tests/model/mod.rs\<close>: an oracle that knows what is committed, an
  executor that runs a script of operations against the handle and the oracle, and checks the
  durability envelope after every recovery. A failed expectation or assertion is \<open>None\<close>. The
  harness works on a platform without failures; its 64-bit counters are natural numbers here,
  which the scripts of the theorems do not overflow.
\<close>

section \<open>The oracle\<close>

datatype model_op = Append bytes | Commit | Checkpoint u64 | CrashAndRecover | Reopen

record oracle_state =
  o_committed :: "(nat \<times> bytes) list"
  o_staged :: "(nat \<times> bytes) list"
  o_oldest_lsn :: nat
  o_durable_lsn :: nat
  next_lsn :: nat
  max_ckpt_up_to :: nat

definition oracle_new :: oracle_state where
  "oracle_new = \<lparr>o_committed = [], o_staged = [], o_oldest_lsn = 1, o_durable_lsn = 0, next_lsn = 1, max_ckpt_up_to = 0\<rparr>"

definition commit_staged :: "oracle_state \<Rightarrow> nat \<times> oracle_state" where
  "commit_staged orc =
     (if o_staged orc = [] then (o_durable_lsn orc, orc)
      else
        let l = fst (last (o_staged orc)) in
        (l, orc\<lparr>o_committed := fold (\<lambda>(l, p). AList.update l p) (o_staged orc) (o_committed orc),
                o_staged := [], o_durable_lsn := l\<rparr>))"

section \<open>Replaying\<close>

definition replay_all :: "(bytes \<Rightarrow> u32) \<Rightarrow> 'o wal \<Rightarrow> disk \<Rightarrow> (nat \<times> bytes) list option" where
  "replay_all crc w d =
     (case reader_from (Lsn 0) w d of
        (Inl e, d1) \<Rightarrow> None
      | (Inr rd, d1) \<Rightarrow>
          (case drain crc rd d1 of
             (rs, None) \<Rightarrow> Some (map (\<lambda>(l, p). (lsn_nat l, p)) rs)
           | (rs, Some e) \<Rightarrow> None))"

definition lookup :: "(nat \<times> bytes) list \<Rightarrow> nat \<Rightarrow> bytes option" where
  "lookup replay l = map_option snd (find (\<lambda>(k, p). k = l) replay)"

text \<open>The checks of consecutive pairs (\<^verbatim>\<open>windows(2)\<close>).\<close>

definition dense :: "(nat \<times> bytes) list \<Rightarrow> bool" where
  "dense replay \<longleftrightarrow> successively (\<lambda>a b. fst b = fst a + 1) replay"

definition visible_matches :: "oracle_state \<Rightarrow> (nat \<times> bytes) list \<Rightarrow> bool" where
  "visible_matches orc replay \<longleftrightarrow>
     list_all (\<lambda>(l, p). l \<le> o_durable_lsn orc \<longrightarrow> map_of (o_committed orc) l = Some p) replay"

section \<open>The checks after a checkpoint and after a recovery\<close>

definition live_probe :: "(bytes \<Rightarrow> u32) \<Rightarrow> 'o wal \<Rightarrow> disk \<Rightarrow> oracle_state \<Rightarrow> bool" where
  "live_probe crc w d orc =
     (lsn_nat (durable_lsn w) = o_durable_lsn orc
      \<and> (case replay_all crc w d of
           None \<Rightarrow> False
         | Some replay \<Rightarrow>
             if o_durable_lsn orc = 0 then replay = []
             else dense replay \<and> replay \<noteq> [] \<and> fst (last replay) = o_durable_lsn orc
                  \<and> visible_matches orc replay))"

definition report_checks :: "recovery_report option \<Rightarrow> bool \<Rightarrow> recovery_report \<Rightarrow> bool" where
  "report_checks prev dirty report =
     (case prev of
        None \<Rightarrow> True
      | Some p \<Rightarrow>
          lsn_nat (report_durable_lsn p) \<le> lsn_nat (report_durable_lsn report)
          \<and> lsn_nat (report_oldest_lsn p) \<le> lsn_nat (report_oldest_lsn report)
          \<and> (\<not> dirty \<longrightarrow> report_oldest_lsn report = report_oldest_lsn p
               \<and> report_durable_lsn report = report_durable_lsn p))"

definition suffix_checks :: "recovery_report \<Rightarrow> (nat \<times> bytes) list \<Rightarrow> bool" where
  "suffix_checks report replay =
     (if replay = [] then lsn_nat (report_durable_lsn report) + 1 = lsn_nat (report_oldest_lsn report)
      else fst (hd replay) = lsn_nat (report_oldest_lsn report) \<and> dense replay
        \<and> fst (last replay) = lsn_nat (report_durable_lsn report))"

definition retained_checks :: "oracle_state \<Rightarrow> recovery_report \<Rightarrow> (nat \<times> bytes) list \<Rightarrow> bool" where
  "retained_checks orc report replay =
     list_all (\<lambda>(l, p). if lsn_nat (report_oldest_lsn report) \<le> l then lookup replay l = Some p
                        else l \<le> max_ckpt_up_to orc) (o_committed orc)"

definition gap_check :: "'o wal \<Rightarrow> recovery_report \<Rightarrow> disk \<Rightarrow> bool" where
  "gap_check w report d =
     (1 < lsn_nat (report_oldest_lsn report) \<longrightarrow>
        (case reader_from (Lsn (lsn_val (report_oldest_lsn report) - 1)) w d of
           (Inl e, d1) \<Rightarrow> True | (Inr rd, d1) \<Rightarrow> False))"

definition resync :: "recovery_report \<Rightarrow> (nat \<times> bytes) list \<Rightarrow> oracle_state \<Rightarrow> oracle_state" where
  "resync report replay orc =
     (let adopted = fold (\<lambda>(l, p). AList.update l p) (filter (\<lambda>(l, p). o_durable_lsn orc < l) replay) (o_committed orc)
      in orc\<lparr>o_committed := filter (\<lambda>(l, p). lsn_nat (report_oldest_lsn report) \<le> l) adopted,
             o_durable_lsn := lsn_nat (report_durable_lsn report),
             o_oldest_lsn := lsn_nat (report_oldest_lsn report),
             next_lsn := lsn_nat (report_durable_lsn report) + 1, o_staged := []\<rparr>)"

definition recover_and_check ::
    "(bytes \<Rightarrow> u32) \<Rightarrow> (lsn \<Rightarrow> u64) \<Rightarrow> wal_config \<Rightarrow> oracle_state \<Rightarrow> recovery_report option \<Rightarrow> bool \<Rightarrow> disk
     \<Rightarrow> (unit wal \<times> recovery_report \<times> oracle_state \<times> disk) option" where
  "recover_and_check crc clock cfg orc prev dirty d =
     (case open_wal crc clock cfg d of
        (Inl e, d1) \<Rightarrow> None
      | (Inr (w, report), d1) \<Rightarrow>
          if report_checks prev dirty report
             \<and> 1 \<le> lsn_nat (report_oldest_lsn report)
             \<and> lsn_nat (report_oldest_lsn report) \<le> max_ckpt_up_to orc + 1
             \<and> o_durable_lsn orc \<le> lsn_nat (report_durable_lsn report)
             \<and> lsn_nat (last_lsn w) = lsn_nat (report_durable_lsn report)
          then
            (case replay_all crc w d1 of
               None \<Rightarrow> None
             | Some replay \<Rightarrow>
                 if suffix_checks report replay \<and> retained_checks orc report replay
                    \<and> visible_matches orc replay \<and> gap_check w report d1
                 then Some (w, report, resync report replay orc, d1)
                 else None)
          else None)"

section \<open>The executor\<close>

record harness =
  h_wal :: "unit wal"
  h_disk :: disk
  h_oracle :: oracle_state
  h_prev :: "recovery_report option"
  h_dirty :: bool

definition exec_append :: "(bytes \<Rightarrow> u32) \<Rightarrow> bytes \<Rightarrow> harness \<Rightarrow> harness option" where
  "exec_append crc payload h =
     (case wal_append crc payload (h_wal h) of
        (Inl e, w) \<Rightarrow> None
      | (Inr l, w) \<Rightarrow>
          let orc = h_oracle h in
          if lsn_nat l = next_lsn orc
          then Some (h\<lparr>h_wal := w, h_dirty := True,
                       h_oracle := orc\<lparr>o_staged := o_staged orc @ [(next_lsn orc, payload)],
                                       next_lsn := next_lsn orc + 1\<rparr>\<rparr>)
          else None)"

definition exec_commit :: "(bytes \<Rightarrow> u32) \<Rightarrow> (lsn \<Rightarrow> u64) \<Rightarrow> harness \<Rightarrow> harness option" where
  "exec_commit crc clock h =
     (case commit crc clock null_on_durable (h_wal h) (h_disk h) of
        (Inl e, w, d) \<Rightarrow> None
      | (Inr returned, w, d) \<Rightarrow>
          (case commit_staged (h_oracle h) of
             (watermark, orc) \<Rightarrow>
               if lsn_nat returned = watermark
               then Some (h\<lparr>h_wal := w, h_disk := d, h_oracle := orc,
                            h_dirty := (h_dirty h \<or> o_staged (h_oracle h) \<noteq> [])\<rparr>)
               else None))"

definition exec_checkpoint :: "(bytes \<Rightarrow> u32) \<Rightarrow> u64 \<Rightarrow> harness \<Rightarrow> harness option" where
  "exec_checkpoint crc raw h =
     (let up_to = min raw (lsn_val (durable_lsn (h_wal h))) in
      case checkpoint (Lsn up_to) (h_wal h) (h_disk h) of
        (Inl e, w, d) \<Rightarrow> None
      | (Inr _, w, d) \<Rightarrow>
          let orc = (h_oracle h)\<lparr>max_ckpt_up_to := max (max_ckpt_up_to (h_oracle h)) (unat up_to)\<rparr> in
          if live_probe crc w d orc then Some (h\<lparr>h_wal := w, h_disk := d, h_oracle := orc, h_dirty := True\<rparr>)
          else None)"

definition exec_recover ::
    "(bytes \<Rightarrow> u32) \<Rightarrow> (lsn \<Rightarrow> u64) \<Rightarrow> wal_config \<Rightarrow> harness \<Rightarrow> harness option" where
  "exec_recover crc clock cfg h =
     map_option (\<lambda>(w, r, orc, d). \<lparr>h_wal = w, h_disk = d, h_oracle = orc, h_prev = Some r, h_dirty = False\<rparr>)
       (recover_and_check crc clock cfg (h_oracle h) (h_prev h) (h_dirty h) (drop_handle (h_disk h)))"

definition exec_crash ::
    "(bytes \<Rightarrow> u32) \<Rightarrow> (lsn \<Rightarrow> u64) \<Rightarrow> wal_config \<Rightarrow> harness \<Rightarrow> harness option" where
  "exec_crash crc clock cfg h =
     exec_recover crc clock cfg
       (h\<lparr>h_oracle := (h_oracle h)\<lparr>o_staged := [], next_lsn := o_durable_lsn (h_oracle h) + 1\<rparr>\<rparr>)"

fun exec_op ::
    "(bytes \<Rightarrow> u32) \<Rightarrow> (lsn \<Rightarrow> u64) \<Rightarrow> wal_config \<Rightarrow> model_op \<Rightarrow> harness \<Rightarrow> harness option" where
  "exec_op crc clock cfg (Append payload) h = exec_append crc payload h"
| "exec_op crc clock cfg Commit h = exec_commit crc clock h"
| "exec_op crc clock cfg (Checkpoint raw) h = exec_checkpoint crc raw h"
| "exec_op crc clock cfg CrashAndRecover h = exec_crash crc clock cfg h"
| "exec_op crc clock cfg Reopen h = Option.bind (exec_commit crc clock h) (exec_recover crc clock cfg)"

fun exec_ops ::
    "(bytes \<Rightarrow> u32) \<Rightarrow> (lsn \<Rightarrow> u64) \<Rightarrow> wal_config \<Rightarrow> model_op list \<Rightarrow> harness \<Rightarrow> harness option" where
  "exec_ops crc clock cfg [] h = Some h"
| "exec_ops crc clock cfg (x # xs) h = Option.bind (exec_op crc clock cfg x h) (exec_ops crc clock cfg xs)"

definition wal_check_initial :: "recovery_report \<Rightarrow> bool" where
  "wal_check_initial report \<longleftrightarrow> report_oldest_lsn report = Lsn 1 \<and> report_durable_lsn report = Lsn 0"

definition fresh_dir :: disk where
  "fresh_dir = \<lparr>entries = [], pending = [], dfaults = [], lock_held = False\<rparr>"

text \<open>The whole run, ending with a last recovery; \<open>True\<close> when no expectation failed.\<close>

definition run :: "(bytes \<Rightarrow> u32) \<Rightarrow> (lsn \<Rightarrow> u64) \<Rightarrow> wal_config \<Rightarrow> model_op list \<Rightarrow> bool" where
  "run crc clock cfg ops =
     (case open_wal crc clock cfg fresh_dir of
        (Inl e, d) \<Rightarrow> False
      | (Inr (w, initial), d) \<Rightarrow>
          wal_check_initial initial
          \<and> Option.bind
              (exec_ops crc clock cfg ops
                 \<lparr>h_wal = w, h_disk = d, h_oracle = oracle_new, h_prev = Some initial, h_dirty = False\<rparr>)
              (exec_crash crc clock cfg) \<noteq> None)"

section \<open>Numbered lists and association lists\<close>

definition number_nat :: "nat \<Rightarrow> bytes list \<Rightarrow> (nat \<times> bytes) list" where
  "number_nat n ps = zip [n ..< n + length ps] ps"

lemma number_nat_Nil [simp]: "number_nat n [] = []"
  by (simp add: number_nat_def)

lemma number_nat_Cons: "number_nat n (p # ps) = (n, p) # number_nat (Suc n) ps"
  by (simp add: number_nat_def upt_rec)

lemma number_nat_append: "number_nat n (ps @ qs) = number_nat n ps @ number_nat (n + length ps) qs"
  by (induction ps arbitrary: n) (simp_all add: number_nat_Cons)

lemma number_nat_eq_Nil [simp]: "number_nat n ps = [] \<longleftrightarrow> ps = []"
  by (cases ps) (simp_all add: number_nat_Cons)

lemma number_nat_of: "n + length ps \<le> Suc u64_max \<Longrightarrow> map (\<lambda>(l, p). (lsn_nat l, p)) (number_from n ps) = number_nat n ps"
  by (induction ps arbitrary: n) (simp_all add: number_nat_Cons)

lemma map_fst_number_nat: "map fst (number_nat n ps) = [n ..< n + length ps]"
  by (simp add: number_nat_def)

lemma map_of_number_nat: "map_of (number_nat n ps) i = (if n \<le> i \<and> i < n + length ps then Some (ps ! (i - n)) else None)"
  by (induction ps arbitrary: n) (auto simp: number_nat_Cons nth_Cons' Suc_le_eq)

lemma last_number_nat: "ps \<noteq> [] \<Longrightarrow> fst (last (number_nat n ps)) = n + length ps - 1"
  using last_map [of "number_nat n ps" fst] by (simp add: map_fst_number_nat)

lemma hd_number_nat: "ps \<noteq> [] \<Longrightarrow> fst (hd (number_nat n ps)) = n"
  by (cases ps) (simp_all add: number_nat_Cons)

lemma dense_number_nat: "dense (number_nat n ps)"
  unfolding dense_def
proof (induction ps arbitrary: n)
  case (Cons p ps)
  then show ?case by (cases ps) (simp_all add: number_nat_Cons)
qed simp

lemma lookup_map_of: "lookup xs l = map_of xs l"
  unfolding lookup_def by (induction xs) auto

lemma map_of_fold_update:
  "distinct (map fst xs) \<Longrightarrow> map_of (fold (\<lambda>(l, p). AList.update l p) xs al) = map_of al ++ map_of xs"
proof (induction xs arbitrary: al)
  case (Cons x xs)
  obtain l p where x: "x = (l, p)" by fastforce
  have "l \<notin> dom (map_of xs)" using Cons.prems by (simp add: x dom_map_of_conv_image_fst)
  then show ?case using Cons by (auto simp: x update_conv' fun_eq_iff map_add_def split: option.splits)
qed simp

lemma map_of_filter_from:
  "distinct (map fst al) \<Longrightarrow> map_of (filter (\<lambda>(l, p). b \<le> l) al) l = (if b \<le> l then map_of al l else None)" for b :: nat
  by (induction al) (auto simp: map_of_eq_None_iff)

lemma distinct_fold_update:
  "distinct (map fst al) \<Longrightarrow> distinct (map fst (fold (\<lambda>(l, p). AList.update l p) xs al))"
  by (induction xs arbitrary: al) (auto simp: distinct_update)

section \<open>The harness tracks the log\<close>

definition knows :: "oracle_state \<Rightarrow> view \<Rightarrow> bool" where
  "knows orc v \<longleftrightarrow> distinct (map fst (o_committed orc)) \<and> v_base v \<le> max_ckpt_up_to orc + 1
     \<and> o_durable_lsn orc = v_end v - 1
     \<and> (\<forall>l. (v_base v \<le> l \<longrightarrow> map_of (o_committed orc) l = v_record v l)
           \<and> (l < v_base v \<longrightarrow> map_of (o_committed orc) l \<noteq> None \<longrightarrow> l \<le> max_ckpt_up_to orc))"

definition reported :: "recovery_report option \<Rightarrow> bool \<Rightarrow> view \<Rightarrow> bool" where
  "reported prev dirty v \<longleftrightarrow>
     (\<forall>p. prev = Some p \<longrightarrow> lsn_nat (report_durable_lsn p) \<le> v_end v - 1 \<and> lsn_nat (report_oldest_lsn p) \<le> v_base v
        \<and> (\<not> dirty \<longrightarrow> report_durable_lsn p = lsn_of (v_end v - 1) \<and> report_oldest_lsn p = lsn_of (v_base v)))"

definition tracks :: "(bytes \<Rightarrow> u32) \<Rightarrow> wal_config \<Rightarrow> harness \<Rightarrow> view \<Rightarrow> bool" where
  "tracks crc cfg h v \<longleftrightarrow> live crc cfg FIRST (h_wal h, h_disk h) v \<and> knows (h_oracle h) v
     \<and> o_staged (h_oracle h) = number_nat (v_end v) (v_staged v) \<and> next_lsn (h_oracle h) = v_next v
     \<and> reported (h_prev h) (h_dirty h) v \<and> (v_log v = [] \<longrightarrow> v_base v = 1)"

lemma live_bounds:
  assumes "live crc cfg seed (w, d) v"
  shows "0 < v_base v" "v_next v \<le> Suc u64_max" "v_end v \<le> v_next v" "v_base v \<le> v_end v" "durable_lsn w = lsn_of (v_end v - 1)"
    "v_base v \<le> u64_max"
proof -
  from assms obtain ss where l: "wal_inv crc w ss (v_staged v)" "log_end ss = v_end v" and b: "log_base ss = v_base v"
    and ok: "segs_ok crc (unat (cfg_segment_size cfg)) (unat (cfg_max_record_size cfg)) ss" by (rule liveE)
  have "hd ss \<in> set ss" using segs_ok_last(4) [OF ok] by simp
  from segs_ok_bound [OF ok this] show "v_base v \<le> u64_max" using b by (simp add: log_base_def)
  show "v_next v \<le> Suc u64_max" "durable_lsn w = lsn_of (v_end v - 1)"
    using l by (simp_all add: wal_inv_def wal_core_def wal_staged_def v_next_def)
qed (use live_base [OF assms] in \<open>simp_all add: v_next_def v_end_def\<close>)

lemma live_replay_all:
  assumes "live crc cfg seed (w, d) v"
  shows "replay_all crc w d = Some (number_nat (v_base v) (v_log v))"
proof -
  have "Lsn 0 = NONE" by (simp add: NONE_def)
  moreover have "v_base v + length (v_log v) \<le> Suc u64_max" using live_bounds [OF assms] by (simp add: v_end_def)
  ultimately show ?thesis
    using live_reader [OF assms, of NONE] number_nat_of [of "v_base v" "v_log v"]
    by (auto simp: replay_all_def is_none_iff)
qed

lemma v_record_number: "v_record v l = map_of (number_nat (v_base v) (v_log v)) l"
  by (simp add: v_record_def map_of_number_nat v_end_def)

lemma knows_visible: "knows orc v \<Longrightarrow> visible_matches orc (number_nat (v_base v) (v_log v))"
  unfolding visible_matches_def list_all_iff
proof (intro ballI, clarify)
  fix l p assume k: "knows orc v" and m: "(l, p) \<in> set (number_nat (v_base v) (v_log v))"
  have "distinct (map fst (number_nat (v_base v) (v_log v)))" by (simp add: map_fst_number_nat)
  from map_of_is_SomeI [OF this m] have r: "v_record v l = Some p" by (simp add: v_record_number)
  then have "v_base v \<le> l" by (simp add: v_record_def split: if_splits)
  then show "map_of (o_committed orc) l = Some p" using k r by (simp add: knows_def)
qed

lemma track_append:
  assumes t: "tracks crc cfg h v" and p: "fits_record cfg p" "v_next v \<le> u64_max"
  shows "\<exists>h'. exec_append crc p h = Some h' \<and> tracks crc cfg h' (v\<lparr>v_staged := v_staged v @ [p]\<rparr>)"
proof -
  have l: "live crc cfg FIRST (h_wal h, h_disk h) v" using t by (simp add: tracks_def)
  from wl.add_law [OF l p] obtain w where w: "wal_append crc p (h_wal h) = (Inr (lsn_of (v_next v)), w)"
    "live crc cfg FIRST (w, h_disk h) (v\<lparr>v_staged := v_staged v @ [p]\<rparr>)"
    by (auto simp: wal_add_def split: prod.splits sum.splits)
  then show ?thesis
    using t p(2)
    by (auto simp: exec_append_def tracks_def Let_def knows_def reported_def v_end_def v_next_def v_record_def
        number_nat_append number_nat_Cons)
qed

lemma track_commit:
  assumes t: "tracks crc cfg h v"
  shows "\<exists>h'. exec_commit crc clock h = Some h' \<and> tracks crc cfg h' (v\<lparr>v_log := v_log v @ v_staged v, v_staged := []\<rparr>)"
proof -
  let ?v = "v\<lparr>v_log := v_log v @ v_staged v, v_staged := []\<rparr>" and ?orc = "h_oracle h"
  have l: "live crc cfg FIRST (h_wal h, h_disk h) v" and k: "knows ?orc v"
    and st: "o_staged ?orc = number_nat (v_end v) (v_staged v)" using t by (simp_all add: tracks_def)
  from wl.sync_law [OF l, of clock null_on_durable] obtain w d where
    w: "commit crc clock null_on_durable (h_wal h) (h_disk h) = (Inr (lsn_of (v_next v - 1)), w, d)"
    "live crc cfg FIRST (w, d) ?v"
    by (auto simp: wal_sync_def split: prod.splits sum.splits)
  note b = live_bounds [OF l]
  obtain wm orc where cs: "commit_staged ?orc = (wm, orc)" by fastforce
  have wm: "wm = v_next v - 1" "o_staged orc = []" "next_lsn orc = v_next v" "max_ckpt_up_to orc = max_ckpt_up_to ?orc"
    "o_durable_lsn orc = v_next v - 1"
    using cs st k t by (auto simp: commit_staged_def Let_def last_number_nat knows_def v_next_def tracks_def split: if_splits)
  have dis: "distinct (map fst (o_staged ?orc))" by (simp add: st map_fst_number_nat)
  have cm: "map_of (o_committed orc) = map_of (o_committed ?orc) ++ map_of (number_nat (v_end v) (v_staged v))"
    "distinct (map fst (o_committed orc))"
    using cs st k map_of_fold_update [OF dis, of "o_committed ?orc"] distinct_fold_update [of "o_committed ?orc"]
    by (auto simp: commit_staged_def Let_def knows_def split: if_splits)
  have "v_record ?v i = (map_of (o_committed ?orc) ++ map_of (number_nat (v_end v) (v_staged v))) i" if "v_base v \<le> i" for i
    using k that by (auto simp: knows_def map_add_def map_of_number_nat v_record_def v_end_def nth_append)
  then have "knows orc ?v"
    using k cm wm by (auto simp: knows_def v_end_def v_next_def map_add_def map_of_number_nat)
  then show ?thesis
    using w cs wm t b
    by (auto simp: exec_commit_def tracks_def reported_def v_end_def v_next_def)
qed

lemma track_checkpoint:
  assumes t: "tracks crc cfg h v"
  shows "\<exists>h' v'. exec_checkpoint crc raw h = Some h' \<and> tracks crc cfg h' v' \<and> v_next v' = v_next v"
proof -
  let ?up = "min raw (lsn_val (durable_lsn (h_wal h)))" and ?orc = "h_oracle h"
  let ?n = "unat ?up"
  have l: "live crc cfg FIRST (h_wal h, h_disk h) v" and k: "knows ?orc v" using t by (simp_all add: tracks_def)
  have up: "lsn_of (min ?n u64_max) = Lsn ?up"
    using lsn_nat_le_max [of "Lsn ?up"] lsn_of_nat [of "Lsn ?up"] by (simp add: lsn_nat_Lsn min_absorb1)
  from wl.trim_law [OF l, of ?n] obtain m w d where
    w: "checkpoint (Lsn ?up) (h_wal h) (h_disk h) = (Inr (), w, d)"
    and m: "m \<le> length (v_log v)" "m < length (v_log v) \<or> v_log v = []" "0 < m \<longrightarrow> v_base v + m \<le> Suc ?n"
    and l': "live crc cfg FIRST (w, d) (v\<lparr>v_base := v_base v + m, v_log := drop m (v_log v)\<rparr>)"
    by (auto simp: wal_trim_def up split: prod.splits)
  define v' where "v' = v\<lparr>v_base := v_base v + m, v_log := drop m (v_log v)\<rparr>"
  define orc where "orc = ?orc\<lparr>max_ckpt_up_to := max (max_ckpt_up_to ?orc) ?n\<rparr>"
  have e: "v_end v' = v_end v" "v_next v' = v_next v" using m(1) by (simp_all add: v'_def v_end_def v_next_def)
  have b': "v_base v' \<le> max (v_base v) (Suc ?n)" "v_base v \<le> v_base v'"
    using m(3) by (cases "m = 0"; simp add: v'_def)+
  have rec: "v_record v' i = v_record v i" if "v_base v' \<le> i" for i
    using that e(1) m(1) by (auto simp: v_record_def v'_def)
  have k': "knows orc v'"
    using k b' rec e(1) unfolding knows_def orc_def by (auto simp: max_def split: if_splits)
  have lg: "v_log v' = [] \<longrightarrow> v_base v' = 1" using t m(1,2) by (auto simp: v'_def tracks_def)
  note lv = live_bounds [OF l'] live_replay_all [OF l']
  have "live_probe crc w d orc"
  proof (cases "v_end v = 1")
    case True
    then have "length (v_log v') = 0" using e(1) live_bounds(1) [OF l', folded v'_def] unfolding v_end_def by linarith
    then have "v_log v' = []" by simp
    then show ?thesis
      using True lv(5) k' e live_replay_all [OF l', folded v'_def]
      by (simp add: live_probe_def knows_def v'_def [symmetric])
  next
    case False
    then have ne: "v_log v' \<noteq> []" using lg e(1) by (auto simp: v_end_def)
    have "o_durable_lsn orc = v_end v' - 1" using k' by (simp add: knows_def)
    moreover have "0 < v_end v' - 1" using False e(1) live_bounds(1,4) [OF l', folded v'_def] by simp
    ultimately show ?thesis
      using lv(2,3,5,7) ne knows_visible [OF k'] dense_number_nat last_number_nat [OF ne]
      by (simp add: live_probe_def v'_def [symmetric] v_end_def)
  qed
  moreover have st': "v_staged v' = v_staged v" by (simp add: v'_def)
  ultimately have "exec_checkpoint crc raw h = Some (h\<lparr>h_wal := w, h_disk := d, h_oracle := orc, h_dirty := True\<rparr>)"
    using w by (simp add: exec_checkpoint_def Let_def orc_def)
  moreover have "tracks crc cfg (h\<lparr>h_wal := w, h_disk := d, h_oracle := orc, h_dirty := True\<rparr>) v'"
    using t l' k' lg e b'(2) le_trans [of _ "v_base v" "v_base v'"] st'
    by (auto simp: tracks_def reported_def v'_def [symmetric] orc_def)
  ultimately show ?thesis using e by blast
qed

text \<open>Recovery, from a harness whose staged records are given up.\<close>

lemma track_recover:
  assumes l: "live crc cfg FIRST (h_wal h, h_disk h) v0" and v: "v = v0\<lparr>v_staged := []\<rparr>"
    and k: "knows (h_oracle h) v" and rp: "reported (h_prev h) (h_dirty h) v" and e: "v_log v = [] \<longrightarrow> v_base v = 1"
  shows "\<exists>h'. exec_recover crc clock cfg h = Some h' \<and> tracks crc cfg h' v"
proof -
  let ?orc = "h_oracle h"
  have st: "v_staged v = []" "v_base v0 = v_base v" "v_log v0 = v_log v" "v_end v0 = v_end v" by (simp_all add: v v_end_def)
  from live_reopen [OF l, of clock "()"] obtain w d where
    o: "open_wal crc clock cfg (drop_handle (h_disk h)) =
      (Inr (w, \<lparr>report_oldest_lsn = lsn_of (v_base v), report_durable_lsn = lsn_of (v_end v - 1),
                 report_tail_state = Clean, report_segments_scanned = length (segments w)\<rparr>), d)"
    and l': "live crc cfg FIRST (w, d) v" and ll: "last_lsn w = lsn_of (v_end v - 1)" and ol: "oldest_lsn w = lsn_of (v_base v)"
    unfolding v [symmetric] st by (auto simp: open_wal_def open_with_def)
  define rep where "rep = \<lparr>report_oldest_lsn = lsn_of (v_base v), report_durable_lsn = lsn_of (v_end v - 1),
                 report_tail_state = Clean, report_segments_scanned = length (segments w)\<rparr>"
  note b = live_bounds [OF l']
  have n: "lsn_nat (report_oldest_lsn rep) = v_base v" "lsn_nat (report_durable_lsn rep) = v_end v - 1"
    using b by (simp_all add: rep_def)
  let ?rs = "number_nat (v_base v) (v_log v)"
  have c1: "report_checks (h_prev h) (h_dirty h) rep"
    using rp n by (auto simp: report_checks_def reported_def rep_def split: option.splits)
  have c2: "suffix_checks rep ?rs"
    using n b dense_number_nat hd_number_nat last_number_nat by (auto simp: suffix_checks_def v_end_def)
  have c3: "retained_checks ?orc rep ?rs"
    unfolding retained_checks_def list_all_iff
  proof (intro ballI, clarify)
    fix l p assume "(l, p) \<in> set (o_committed ?orc)"
    then have "map_of (o_committed ?orc) l = Some p" using k by (intro map_of_is_SomeI) (simp_all add: knows_def)
    then show "if lsn_nat (report_oldest_lsn rep) \<le> l then lookup ?rs l = Some p else l \<le> max_ckpt_up_to ?orc"
      using k unfolding n(1) lookup_map_of v_record_number [symmetric] knows_def by auto
  qed
  have c4: "gap_check w rep d"
    unfolding gap_check_def n(1)
  proof
    assume "1 < v_base v"
    then have "Lsn (lsn_val (lsn_of (v_base v)) - 1) = lsn_of (v_base v - 1)" by (intro lsn_pred_of) (use b in simp_all)
    moreover have "lsn_of (v_base v - 1) < oldest_lsn w" "lsn_val (lsn_of (v_base v - 1)) \<noteq> 0"
      using ol b(1,6) \<open>1 < v_base v\<close> is_none_iff [of "lsn_of (v_base v - 1)"] by (simp_all add: lsn_less_iff is_none_def)
    ultimately show "case reader_from (Lsn (lsn_val (report_oldest_lsn rep) - 1)) w d of (Inl e, d1) \<Rightarrow> True | (Inr rd, d1) \<Rightarrow> False"
      by (simp add: rep_def reader_from_def)
  qed
  have ad: "filter (\<lambda>(l, p). o_durable_lsn ?orc < l) ?rs = []"
    using k live_bounds(1) [OF l'] unfolding filter_empty_conv
    by (auto simp: knows_def v_end_def number_nat_def dest!: set_zip_leftD)
  have "recover_and_check crc clock cfg ?orc (h_prev h) (h_dirty h) (drop_handle (h_disk h)) = Some (w, rep, resync rep ?rs ?orc, d)"
    using o [folded rep_def] c1 c2 c3 c4 knows_visible [OF k] live_replay_all [OF l'] n b(1) k ll
    by (simp add: recover_and_check_def knows_def rep_def)
  then have ex: "exec_recover crc clock cfg h = Some \<lparr>h_wal = w, h_disk = d, h_oracle = resync rep ?rs ?orc, h_prev = Some rep, h_dirty = False\<rparr>"
    by (simp add: exec_recover_def)
  have "knows (resync rep ?rs ?orc) v"
    using k n ad map_of_filter_from [of "o_committed ?orc" "v_base v"] distinct_map_filter [of fst "o_committed ?orc"]
    by (simp add: knows_def resync_def Let_def del: map_of_eq_Some_iff)
  then have "tracks crc cfg \<lparr>h_wal = w, h_disk = d, h_oracle = resync rep ?rs ?orc, h_prev = Some rep, h_dirty = False\<rparr> v"
    using l' st e n b(1) by (simp add: tracks_def reported_def resync_def Let_def rep_def v_next_def v_end_def)
  then show ?thesis using ex by blast
qed

text \<open>A crash gives up the staged records.\<close>

lemma track_crash:
  assumes t: "tracks crc cfg h v"
  shows "\<exists>h'. exec_crash crc clock cfg h = Some h' \<and> tracks crc cfg h' (v\<lparr>v_staged := []\<rparr>)"
  unfolding exec_crash_def
  by (rule track_recover [of crc cfg _ v]) (use t in \<open>simp_all add: tracks_def knows_def reported_def v_end_def v_record_def\<close>)

lemma track_reopen:
  assumes t: "tracks crc cfg h v"
  shows "\<exists>h' v'. exec_op crc clock cfg Reopen h = Some h' \<and> tracks crc cfg h' v' \<and> v_next v' = v_next v"
proof -
  let ?v = "v\<lparr>v_log := v_log v @ v_staged v, v_staged := []\<rparr>"
  from track_commit [OF t] obtain h1 where h1: "exec_commit crc clock h = Some h1" "tracks crc cfg h1 ?v" by blast
  have "\<exists>h'. exec_recover crc clock cfg h1 = Some h' \<and> tracks crc cfg h' ?v"
    by (rule track_recover [of crc cfg _ ?v]) (use h1(2) in \<open>simp_all add: tracks_def\<close>)
  then show ?thesis using h1(1) by (auto simp: v_next_def v_end_def intro!: exI [of _ ?v])
qed

fun op_fits :: "wal_config \<Rightarrow> model_op \<Rightarrow> bool" where
  "op_fits cfg (Append payload) = fits_record cfg payload"
| "op_fits cfg op = True"

lemma track_op:
  assumes t: "tracks crc cfg h v" and f: "op_fits cfg x" and n: "v_next v \<le> u64_max"
  shows "\<exists>h' v'. exec_op crc clock cfg x h = Some h' \<and> tracks crc cfg h' v' \<and> v_next v' \<le> Suc (v_next v)"
proof (cases x)
  case (Append p)
  with track_append [OF t _ n, of p] f show ?thesis
    by (force simp: v_next_def v_end_def)
next
  case Commit
  with track_commit [OF t, of clock] show ?thesis by (force simp: v_next_def v_end_def)
next
  case (Checkpoint raw)
  with track_checkpoint [OF t, of raw] show ?thesis by force
next
  case CrashAndRecover
  with track_crash [OF t, of clock] show ?thesis by (force simp: v_next_def v_end_def)
next
  case Reopen
  with track_reopen [OF t, of clock] show ?thesis by force
qed

lemma track_ops:
  assumes "tracks crc cfg h v" "list_all (op_fits cfg) xs" "v_next v + length xs \<le> Suc u64_max"
  shows "\<exists>h' v'. exec_ops crc clock cfg xs h = Some h' \<and> tracks crc cfg h' v'"
  using assms
proof (induction xs arbitrary: h v)
  case (Cons x xs)
  then have "op_fits cfg x" "v_next v \<le> u64_max" by simp_all
  from track_op [OF Cons.prems(1) this, of clock] obtain h1 v1 where
    1: "exec_op crc clock cfg x h = Some h1" "tracks crc cfg h1 v1" "v_next v1 \<le> Suc (v_next v)" by blast
  with Cons.IH [OF 1(2)] Cons.prems(2,3) show ?case by simp
qed auto

lemma open_fresh:
  assumes "cfg_ok cfg"
  shows "\<exists>w d rep. open_wal crc clock cfg fresh_dir = (Inr (w, rep), d) \<and> wal_check_initial rep
    \<and> tracks crc cfg \<lparr>h_wal = w, h_disk = d, h_oracle = oracle_new, h_prev = Some rep, h_dirty = False\<rparr>
        \<lparr>v_base = 1, v_log = [], v_staged = []\<rparr>"
proof -
  have f: "dfaults fresh_dir = []" "\<not> lock_held fresh_dir" "has_segs [] fresh_dir" "names_settled fresh_dir"
    by (simp_all add: fresh_dir_def has_segs_def names_settled_def)
  have one: "FIRST = lsn_of 1" "lsn_of 1 = Lsn 1" "lsn_of 0 = Lsn 0" by (simp_all add: FIRST_def lsn_of_def)
  from open_cold [OF assms FIRST_not_none f, of crc clock "()"] obtain w d where
    o: "open_seeded crc clock cfg () FIRST fresh_dir =
      (Inr (w, \<lparr>report_oldest_lsn = FIRST, report_durable_lsn = lsn_of (lsn_nat FIRST - 1),
                report_tail_state = Clean, report_segments_scanned = 1\<rparr>), d)"
    and w: "wal_inv crc w [new_seg crc clock (lsn_nat FIRST)] []"
    "holds crc (unat (cfg_segment_size cfg)) [new_seg crc clock (lsn_nat FIRST)] d" "lock_held d" "dfaults d = []"
    "segment_size w = cfg_segment_size cfg" "max_record_size w = cfg_max_record_size cfg" by blast
  have l: "live crc cfg FIRST (w, d) \<lparr>v_base = 1, v_log = [], v_staged = []\<rparr>"
    using w assms unfolding live_def
    by (intro conjI exI [of _ "[new_seg crc clock (lsn_nat FIRST)]"]) (simp_all add: log_base_def log_of_def)
  define rep where "rep = \<lparr>report_oldest_lsn = FIRST, report_durable_lsn = lsn_of (lsn_nat FIRST - 1),
                report_tail_state = Clean, report_segments_scanned = 1\<rparr>"
  have r: "report_oldest_lsn rep = lsn_of 1" "report_durable_lsn rep = lsn_of 0"
    unfolding one(1) [symmetric] by (simp_all add: rep_def)
  have "open_wal crc clock cfg fresh_dir = (Inr (w, rep), d)" using o by (simp add: open_wal_def open_with_def rep_def)
  moreover have "wal_check_initial rep" unfolding wal_check_initial_def r one(2,3) by simp
  moreover have "tracks crc cfg \<lparr>h_wal = w, h_disk = d, h_oracle = oracle_new, h_prev = Some rep, h_dirty = False\<rparr>
        \<lparr>v_base = 1, v_log = [], v_staged = []\<rparr>"
    using l r
    by (simp add: tracks_def knows_def reported_def oracle_new_def v_end_def v_next_def v_record_def number_nat_def u64_max_def)
  ultimately show ?thesis by blast
qed

lemma run_ok:
  assumes "cfg_ok cfg" "list_all (op_fits cfg) ops" "length ops \<le> u64_max"
  shows "run crc clock cfg ops"
proof -
  from open_fresh [OF assms(1), of crc clock] obtain w d rep where
    o: "open_wal crc clock cfg fresh_dir = (Inr (w, rep), d)" "wal_check_initial rep"
    and t: "tracks crc cfg \<lparr>h_wal = w, h_disk = d, h_oracle = oracle_new, h_prev = Some rep, h_dirty = False\<rparr>
        \<lparr>v_base = 1, v_log = [], v_staged = []\<rparr>" (is "tracks _ _ ?h _") by blast
  from track_ops [OF t assms(2), of clock] assms(3) obtain h v where
    h: "exec_ops crc clock cfg ops ?h = Some h" "tracks crc cfg h v" by (auto simp: v_next_def v_end_def)
  from track_crash [OF h(2), of clock] show ?thesis using o h(1) by (auto simp: run_def)
qed

text \<open>C2. The crate passes its model-based harness on every script. For any accepted configuration and any
  sequence of appends of records that fit, commits, checkpoints at arbitrary LSNs, abrupt restarts and
  clean restarts, every operation succeeds and every assertion of the executor holds after each of them:
  LSNs and watermarks as the oracle predicts, committed records replayed densely and with their payloads,
  nothing uncommitted, reclaimed records only below a checkpoint, the watermarks of successive recovery
  reports monotone and unchanged where nothing happened, and a reader before the oldest record refused.\<close>

theorem run_passes:
  assumes "cfg_ok cfg" "list_all (op_fits cfg) ops" "length ops \<le> u64_max"
  shows "run crc clock cfg ops"
  by (rule run_ok [OF assms])

theorem run_passes_witness:
  "run csum ex_clock ex_cfg
     [Append [1], Append [2, 3], Commit, Append [4], CrashAndRecover, Checkpoint 2, Append [], Reopen, Commit]"
  by (rule run_passes) (simp_all add: fits_record_def ex_cfg_def cfg_ok_def u64_max_def)

end
