(* ===== verification/Wal_Targets.thy ===== *)
theory Wal_Targets
  imports Wal_Probe Wal_Adversary Wal_Oracle
    "HOL-Library.Char_ord" "HOL-Library.List_Lexorder" "HOL-Library.Product_Lexorder"
begin

unbundle bit_operations_syntax

text \<open>
  The fuzz targets \<^verbatim>\<open>decode.rs\<close>, \<^verbatim>\<open>model.rs\<close> and \<^verbatim>\<open>recovery.rs\<close> of \<^verbatim>\<open>fuzz/fuzz_targets\<close>. A
  target is a function of the input the fuzzer has chosen that says whether every assertion
  of it holds; the theorems say that the targets never fail, on any input. The \<^verbatim>\<open>arbitrary\<close>
  crate, which turns the fuzzer's bytes into values, is a parameter.
\<close>

section \<open>The record decoder\<close>

definition MAXES :: "nat list" where
  "MAXES = [0, 1, 7, 8, 64, 4096, 2 ^ 20, u32_max]"

definition decode_target :: "(bytes \<Rightarrow> u32) \<Rightarrow> bytes \<Rightarrow> bool" where
  "decode_target crc data =
     list_all
       (\<lambda>mx. case decode_record crc data mx of
          None \<Rightarrow> True
        | Some (payload_len, framed_len) \<Rightarrow>
            payload_len \<le> mx \<and> framed_len \<le> length data \<and> 20 \<le> framed_len \<and> framed_len mod 8 = 0
            \<and> 20 + payload_len \<le> framed_len)
       MAXES"

section \<open>Operation scripts\<close>

text \<open>
  The entropy source (\<^verbatim>\<open>Unstructured\<close>): each draw gives a value and the rest of the source, or
  fails when the source is used up.
\<close>

record 'u source =
  draw_u8 :: "'u \<Rightarrow> (u8 \<times> 'u) option"
  draw_u16 :: "'u \<Rightarrow> (u16 \<times> 'u) option"
  draw_u32 :: "'u \<Rightarrow> (u32 \<times> 'u) option"
  draw_u64 :: "'u \<Rightarrow> (u64 \<times> 'u) option"
  int_in_range :: "nat \<Rightarrow> nat \<Rightarrow> 'u \<Rightarrow> (nat \<times> 'u) option"
  fill_buffer :: "nat \<Rightarrow> 'u \<Rightarrow> (bytes \<times> 'u) option"

definition SEGS :: "u64 list" where
  "SEGS = [256, 384, 512, 4096]"

definition arbitrary_config :: "'u source \<Rightarrow> 'u \<Rightarrow> (wal_config \<times> 'u) option" where
  "arbitrary_config src u =
     (case draw_u8 src u of
        None \<Rightarrow> None
      | Some (sel, u) \<Rightarrow>
          let seg = SEGS ! (unat sel mod length SEGS); max_hdr = (ucast (seg - 91) :: u32) in
          (case draw_u32 src u of
             None \<Rightarrow> None
           | Some (m, u) \<Rightarrow>
               Some (\<lparr>cfg_segment_size = seg, cfg_max_record_size = m mod (max_hdr + 1)\<rparr>, u)))"

definition arbitrary_payload :: "'u source \<Rightarrow> nat \<Rightarrow> 'u \<Rightarrow> (bytes \<times> 'u) option" where
  "arbitrary_payload src mx u =
     (case draw_u8 src u of
        None \<Rightarrow> None
      | Some (sel, u) \<Rightarrow>
          let k = unat sel mod 8 in
          if k = 0 then fill_buffer src 0 u
          else if k = 1 then fill_buffer src (min 1 mx) u
          else if k = 2 then fill_buffer src (min 8 mx) u
          else if k = 3 then fill_buffer src mx u
          else if mx = 0 then fill_buffer src 0 u
          else
            case draw_u16 src u of
              None \<Rightarrow> None
            | Some (n, u) \<Rightarrow> fill_buffer src (unat n mod (mx + 1)) u)"

definition arbitrary_op :: "'u source \<Rightarrow> nat \<Rightarrow> 'u \<Rightarrow> (model_op \<times> 'u) option" where
  "arbitrary_op src mx u =
     (case draw_u8 src u of
        None \<Rightarrow> None
      | Some (sel, u) \<Rightarrow>
          let k = unat sel mod 16 in
          if k \<le> 7 then map_option (\<lambda>(p, u). (Append p, u)) (arbitrary_payload src mx u)
          else if k \<le> 11 then Some (Commit, u)
          else if k \<le> 13 then map_option (\<lambda>(n, u). (Checkpoint n, u)) (draw_u64 src u)
          else if k = 14 then Some (CrashAndRecover, u)
          else Some (Reopen, u))"

fun arbitrary_loop :: "'u source \<Rightarrow> nat \<Rightarrow> nat \<Rightarrow> 'u \<Rightarrow> (model_op list \<times> 'u) option" where
  "arbitrary_loop src mx 0 u = Some ([], u)"
| "arbitrary_loop src mx (Suc n) u =
     (case arbitrary_op src mx u of
        None \<Rightarrow> None
      | Some (op, u) \<Rightarrow> map_option (\<lambda>(ops, u). (op # ops, u)) (arbitrary_loop src mx n u))"

definition arbitrary_ops :: "'u source \<Rightarrow> nat \<Rightarrow> 'u \<Rightarrow> (model_op list \<times> 'u) option" where
  "arbitrary_ops src mx u =
     (case int_in_range src 0 80 u of
        None \<Rightarrow> None
      | Some (n, u) \<Rightarrow> arbitrary_loop src mx n u)"

definition model_target :: "'u source \<Rightarrow> (bytes \<Rightarrow> u32) \<Rightarrow> (lsn \<Rightarrow> u64) \<Rightarrow> 'u \<Rightarrow> bool" where
  "model_target src crc clock u =
     (case arbitrary_config src u of
        None \<Rightarrow> True
      | Some (cfg, u) \<Rightarrow>
          (case arbitrary_ops src (unat (cfg_max_record_size cfg)) u of
             None \<Rightarrow> True
           | Some (ops, u) \<Rightarrow> run crc clock cfg ops))"

text \<open>What the crate documents: a range draw lies in its range, and a buffer is filled to its length.\<close>

definition honest_source :: "'u source \<Rightarrow> bool" where
  "honest_source src \<longleftrightarrow>
     (\<forall>lo hi u n u'. int_in_range src lo hi u = Some (n, u') \<longrightarrow> lo \<le> n \<and> n \<le> hi)
     \<and> (\<forall>k u bs u'. fill_buffer src k u = Some (bs, u') \<longrightarrow> length bs = k)"

section \<open>Adversarial directories\<close>

definition SEG_SIZES :: "u64 list" where
  "SEG_SIZES = [256, 512, 1024, 4096, 65536]"

datatype fuzz_name = NameWal u64 | NameRaw string

record fuzz_rec =
  fr_lsn :: u64
  fr_payload :: bytes
  fr_corrupt :: bool

datatype fuzz_body = BodyRaw bytes | Structured u64 "fuzz_rec list" bytes

record seg_file_spec =
  sf_name :: fuzz_name
  sf_body :: fuzz_body

record recovery_scenario =
  seg_sel :: u8
  max_sel :: u32
  files :: "seg_file_spec list"
  probe_direct :: bool

fun safe_name :: "fuzz_name \<Rightarrow> string option" where
  "safe_name (NameWal base) = Some (pad_dec 20 (unat base) @ ''.wal'')"
| "safe_name (NameRaw s) =
     (if s = [] \<or> length s > 64 \<or> s = ''.'' \<or> s = ''..'' then None
      else if list_ex (\<lambda>b. b = CHR ''/'' \<or> b = CHR 0x00) s then None
      else Some s)"

definition put_rec :: "(bytes \<Rightarrow> u32) \<Rightarrow> nat \<Rightarrow> fuzz_rec \<Rightarrow> bytes \<Rightarrow> bytes" where
  "put_rec crc mx r buf =
     (let clamp = min mx (length (fr_payload r)); start = length buf in
      case encode_record_into crc buf (fr_lsn r) (take clamp (fr_payload r)) of
        (buf, framed) \<Rightarrow> if fr_corrupt r \<and> framed > 0 then buf[start := buf ! start XOR 0xFF] else buf)"

fun body_bytes :: "(bytes \<Rightarrow> u32) \<Rightarrow> fuzz_body \<Rightarrow> nat \<Rightarrow> bytes" where
  "body_bytes crc (BodyRaw bs) mx = bs"
| "body_bytes crc (Structured base recs trailing) mx =
     fold (put_rec crc mx) recs (segment_header_bytes crc base) @ trailing"

definition scenario_config :: "recovery_scenario \<Rightarrow> wal_config" where
  "scenario_config s =
     (let seg = SEG_SIZES ! (unat (seg_sel s) mod length SEG_SIZES); max_hdr = (ucast (seg - 91) :: u32)
      in \<lparr>cfg_segment_size = seg, cfg_max_record_size = max_sel s mod (max_hdr + 1)\<rparr>)"

text \<open>\<^verbatim>\<open>fs::write\<close> makes or replaces a file; its failures are ignored by the target.\<close>

definition fs_write :: "string \<Rightarrow> bytes \<Rightarrow> disk \<Rightarrow> disk" where
  "fs_write name bs d =
     d\<lparr>entries := AList.update name \<lparr>fdata = bs, fsynced = [], fbad = []\<rparr> (entries d),
       pending := (if map_of (entries d) name = None then pending d @ [Linked name] else pending d)\<rparr>"

definition materialize :: "(bytes \<Rightarrow> u32) \<Rightarrow> recovery_scenario \<Rightarrow> disk" where
  "materialize crc s =
     fold (\<lambda>f d. case safe_name (sf_name f) of
              None \<Rightarrow> d
            | Some name \<Rightarrow> fs_write name (body_bytes crc (sf_body f) (unat (cfg_max_record_size (scenario_config s)))) d)
       (files s) fresh_dir"

text \<open>
  The names the direct probe takes: \<^verbatim>\<open>parse::<u64>\<close> accepts a leading plus sign, which the crate's own
  parser does not.
\<close>

definition rust_parse_u64 :: "string \<Rightarrow> u64 option" where
  "rust_parse_u64 s =
     (let ds = (case s of c # cs \<Rightarrow> if c = CHR ''+'' then cs else s | [] \<Rightarrow> s)
      in if ds \<noteq> [] \<and> list_all is_ascii_digit ds then parse_u64 ds else None)"

definition wal_file_base :: "string \<Rightarrow> u64 option" where
  "wal_file_base name =
     (case strip_suffix ''.wal'' name of
        None \<Rightarrow> None
      | Some digits \<Rightarrow> if length digits = 20 then rust_parse_u64 digits else None)"

definition wal_files :: "disk \<Rightarrow> (u64 \<times> string) list" where
  "wal_files d = sort (List.map_filter (\<lambda>n. map_option (\<lambda>b. (b, n)) (wal_file_base n)) (map fst (entries d)))"

text \<open>The files are opened read-only; \<open>answers\<close> is what the kernel answers to the calls of each probe.\<close>

definition probe_files :: "(bytes \<Rightarrow> u32) \<Rightarrow> (nat \<Rightarrow> faults) \<Rightarrow> wal_config \<Rightarrow> disk \<Rightarrow> bool" where
  "probe_files crc answers cfg d =
     (let ws = wal_files d; lst = length ws - 1 in
      list_all
        (\<lambda>(i, base, name).
           recover_segment_probe crc (file_of d name) base (i = lst) (unat (cfg_segment_size cfg))
             (unat (cfg_max_record_size cfg)) (answers i) \<noteq> None)
        (zip [0 ..< length ws] ws))"

text \<open>The replay of the recovered log: the records seen, up to the target's cap.\<close>

definition replay_seen :: "(bytes \<Rightarrow> u32) \<Rightarrow> wal_error + unit wal \<times> recovery_report \<Rightarrow> disk \<Rightarrow> nat" where
  "replay_seen crc res d =
     (case res of
        Inl e \<Rightarrow> 0
      | Inr (w, report) \<Rightarrow>
          (case reader_from (Lsn 0) w d of
             (Inl e, d1) \<Rightarrow> 0
           | (Inr rd, d1) \<Rightarrow> min (length (fst (drain crc rd d1))) 10000001))"

text \<open>\<open>None\<close> when an assertion of the target fails, else the number of records it has replayed.\<close>

definition recovery_target ::
    "(bytes \<Rightarrow> u32) \<Rightarrow> (lsn \<Rightarrow> u64) \<Rightarrow> (nat \<Rightarrow> faults) \<Rightarrow> recovery_scenario \<Rightarrow> nat option" where
  "recovery_target crc clock answers s =
     (let cfg = scenario_config s in
      case probed_open crc clock cfg (materialize crc s) probe_reset of
        (None, peak) \<Rightarrow> None
      | (Some (res, d), peak) \<Rightarrow>
          if peak \<le> scan_bound (unat (cfg_max_record_size cfg))
             \<and> (probe_direct s \<longrightarrow> probe_files crc answers cfg d)
          then Some (replay_seen crc res d)
          else None)"

section \<open>The targets pass\<close>

lemma decode_target_ok: "decode_target crc data"
proof -
  have "case decode_record crc data mx of
          None \<Rightarrow> True
        | Some (payload_len, framed_len) \<Rightarrow>
            payload_len \<le> mx \<and> framed_len \<le> length data \<and> 20 \<le> framed_len \<and> framed_len mod 8 = 0
            \<and> 20 + payload_len \<le> framed_len" for mx
  proof (cases "decode crc data mx")
    case (Record l p n)
    from decode_Record_bounds [OF Record] framed_size_bounds [of "length p"] framed_size_ge24 [of "length p"] framed_size_mod8 [of "length p"] show ?thesis
      by (auto simp: decode_record_def Record)
  qed (simp_all add: decode_record_def)
  then show ?thesis by (simp add: decode_target_def list_all_iff)
qed

lemma arbitrary_config_ok:
  assumes "arbitrary_config src u = Some (cfg, u')"
  shows "cfg_ok cfg"
proof -
  obtain sel m where cfg: "cfg = \<lparr>cfg_segment_size = SEGS ! (unat (sel :: u8) mod 4),
      cfg_max_record_size = m mod ((ucast (SEGS ! (unat sel mod 4) - 91) :: u32) + 1)\<rparr>"
    using assms by (auto simp: arbitrary_config_def Let_def SEGS_def split: option.splits)
  have "unat sel mod 4 = 0 \<or> unat sel mod 4 = 1 \<or> unat sel mod 4 = 2 \<or> unat sel mod 4 = 3" by linarith
  then show ?thesis
    using cfg by (auto simp: cfg_ok_def SEGS_def unat_mod)
qed

lemma arbitrary_payload_fits:
  assumes "honest_source src" "arbitrary_payload src mx u = Some (p, u')"
  shows "length p \<le> mx"
proof -
  have fill: "length bs = k" if "fill_buffer src k v = Some (bs, v')" for k v bs v'
    using assms(1) that unfolding honest_source_def by blast
  show ?thesis
    using assms(2) by (auto simp: arbitrary_payload_def Let_def less_Suc_eq_le [symmetric] split: option.splits if_splits dest!: fill)
qed

lemma arbitrary_loop_fits:
  assumes "honest_source src" "arbitrary_loop src (unat (cfg_max_record_size cfg)) n u = Some (ops, u')"
  shows "list_all (op_fits cfg) ops \<and> length ops = n"
  using assms(2)
proof (induction n arbitrary: u ops)
  case (Suc n)
  obtain x v where x: "arbitrary_op src (unat (cfg_max_record_size cfg)) u = Some (x, v)"
    using Suc.prems by (auto split: option.splits)
  then have "op_fits cfg x"
    by (auto simp: arbitrary_op_def Let_def fits_record_def split: option.splits if_splits dest!: arbitrary_payload_fits [OF assms(1)])
  with Suc x show ?case by (auto split: option.splits)
qed simp

lemma model_target_ok:
  assumes "honest_source src"
  shows "model_target src crc clock u"
proof -
  have "run crc clock cfg ops"
    if "arbitrary_config src u = Some (cfg, v)" "arbitrary_ops src (unat (cfg_max_record_size cfg)) v = Some (ops, v')" for cfg ops v v'
  proof -
    from that(2) obtain n z where n: "int_in_range src 0 80 v = Some (n, z)"
      "arbitrary_loop src (unat (cfg_max_record_size cfg)) n z = Some (ops, v')" by (auto simp: arbitrary_ops_def split: option.splits)
    have "n \<le> 80" using assms n(1) unfolding honest_source_def by blast
    with arbitrary_loop_fits [OF assms n(2)] run_ok [OF arbitrary_config_ok [OF that(1)]] show ?thesis by (simp add: u64_max_def)
  qed
  then show ?thesis by (auto simp: model_target_def split: option.splits)
qed

lemma recovery_target_ok: "recovery_target crc clock answers s \<noteq> None"
proof -
  let ?cfg = "scenario_config s"
  obtain peak where p: "probed_open crc clock ?cfg (materialize crc s) 0 = (Some (open_wal crc clock ?cfg (materialize crc s)), peak)"
    "peak \<le> max 0 (scan_bound (unat (cfg_max_record_size ?cfg)))" using probed_open_within by (rule same_withinE)
  have "probe_files crc answers cfg d" for cfg d
    by (auto simp: probe_files_def Let_def list_all_iff recover_segment_probe_total)
  with p show ?thesis by (cases "open_wal crc clock ?cfg (materialize crc s)") (simp add: recovery_target_def probe_reset_def Let_def)
qed

text \<open>C24. Three of the fuzz targets cannot fail: on every input the decoder target's bounds hold;
  on every directory of adversarial files the recovery target opens without tripping the scan
  assertions, stays within the scan bound and so does its direct probe of each file, whatever
  system calls fail there; and the script target passes on every script a source draws whose
  ranges and buffers are as documented.\<close>

theorem fuzz_targets_pass:
  assumes "honest_source src"
  shows "decode_target crc data \<and> recovery_target crc clock answers s \<noteq> None \<and> model_target src crc clock u"
  using decode_target_ok recovery_target_ok model_target_ok [OF assms] by blast

definition byte_draw :: "bytes \<Rightarrow> ('a::len word \<times> bytes) option" where
  "byte_draw u = (case u of [] \<Rightarrow> None | b # v \<Rightarrow> Some (ucast b, v))"

definition byte_source :: "bytes source" where
  "byte_source = \<lparr>draw_u8 = byte_draw, draw_u16 = byte_draw, draw_u32 = byte_draw, draw_u64 = byte_draw,
     int_in_range = (\<lambda>lo hi u. if lo \<le> hi \<and> u \<noteq> [] then Some (lo + unat (hd u) mod (hi - lo + 1), tl u) else None),
     fill_buffer = (\<lambda>k u. if length u < k then None else Some (take k u, drop k u))\<rparr>"

lemma byte_source_honest: "honest_source byte_source"
proof -
  have "lo + m mod Suc (hi - lo) \<le> hi" if "lo \<le> hi" for lo hi m :: nat
    using that mod_less_divisor [of "Suc (hi - lo)" m] by linarith
  then show ?thesis by (auto simp: honest_source_def byte_source_def split: if_splits)
qed

theorem fuzz_targets_pass_witness:
  "decode_target csum (zeros 24) \<and> recovery_target csum ex_clock (\<lambda>_. [])
     \<lparr>seg_sel = 0, max_sel = 9, files = [\<lparr>sf_name = NameRaw ''1.wal'', sf_body = BodyRaw [1, 2]\<rparr>], probe_direct = True\<rparr> \<noteq> None
   \<and> model_target byte_source csum ex_clock [0, 9, 2, 0, 3, 1, 1, 1, 1, 5, 9]"
  using fuzz_targets_pass [OF byte_source_honest] .

end
