(* ===== verification/Wal_Structure.thy ===== *)
theory Wal_Structure
  imports Wal_Targets
begin

unbundle bit_operations_syntax

text \<open>
  The structure-aware fuzz target (\<^verbatim>\<open>fuzz/fuzz_targets/structure.rs\<close>): it builds a segment of up to
  six records, changes one of them, and checks the verdict of \<open>open\<close>, the replay and a second
  \<open>open\<close>. The target is the function \<open>structure_target\<close> of the scenario that says whether every
  assertion of it holds.
\<close>

section \<open>Scenarios\<close>

datatype mutation =
    FlipCrc
  | FlipBody
  | ZeroRecType
  | ExtendLength
  | TamperPadding
  | ReservedRecType
  | DuplicateMaxLsn

definition invalidates :: "mutation \<Rightarrow> bool" where
  "invalidates m = True"

record structure_scenario =
  s_base :: u64
  s_seg_big :: bool
  s_max_sel :: u32
  s_payloads :: "bytes list"
  s_mutate :: bool
  s_mutation :: mutation
  s_target_sel :: u32
  s_byte_sel :: u32
  s_trailing_zeros :: u8

definition pad_for :: "nat \<Rightarrow> nat" where
  "pad_for payload_len = (8 - (20 + payload_len) mod 8) mod 8"

definition target_framed_size :: "nat \<Rightarrow> nat" where
  "target_framed_size payload_len = 20 + payload_len + pad_for payload_len"

definition structure_config :: "structure_scenario \<Rightarrow> wal_config" where
  "structure_config s =
     (let seg = (if s_seg_big s then 65536 else 4096 :: u64); max_hdr = (ucast (seg - 91) :: u32)
      in \<lparr>cfg_segment_size = seg, cfg_max_record_size = s_max_sel s mod (max_hdr + 1)\<rparr>)"

section \<open>Building and mutating\<close>

text \<open>The loop that lays out the records: the bytes, offset, frame size and payload size of each
  record, and the payloads.\<close>

fun build ::
    "(bytes \<Rightarrow> u32) \<Rightarrow> u64 \<Rightarrow> nat \<Rightarrow> nat \<Rightarrow> bytes list \<Rightarrow> bytes \<Rightarrow> (nat \<times> nat \<times> nat) list \<Rightarrow> bytes list
     \<Rightarrow> bytes \<times> (nat \<times> nat \<times> nat) list \<times> bytes list" where
  "build crc base payload_cap seg [] bs recs origs = (bs, recs, origs)"
| "build crc base payload_cap seg (raw # raws) bs recs origs =
     (let plen = min (length raw) payload_cap; off = length bs in
      if off + target_framed_size plen > seg then (bs, recs, origs)
      else
        let l = base + of_nat (length recs) in
        case encode_record_into crc bs l (take plen raw) of
          (bs, framed) \<Rightarrow>
            build crc base payload_cap seg raws bs (recs @ [(off, framed, plen)]) (origs @ [take plen raw]))"

definition flip :: "nat \<Rightarrow> bytes \<Rightarrow> bytes" where
  "flip i bs = bs[i := bs ! i XOR 0xFF]"

fun apply_mutation :: "(bytes \<Rightarrow> u32) \<Rightarrow> bytes \<Rightarrow> mutation \<Rightarrow> nat \<Rightarrow> nat \<Rightarrow> nat \<Rightarrow> nat \<Rightarrow> bytes" where
  "apply_mutation crc bs FlipCrc off framed plen sel = flip (off + sel mod 4) bs"
| "apply_mutation crc bs FlipBody off framed plen sel = flip (off + 4 + sel mod (framed - 4)) bs"
| "apply_mutation crc bs ZeroRecType off framed plen sel = bs[off + 16 := 0]"
| "apply_mutation crc bs ExtendLength off framed plen sel =
     patch_at (off + 4) (u32_to_le_bytes (word_of_nat plen + 8)) bs"
| "apply_mutation crc bs TamperPadding off framed plen sel =
     (let pad = framed - 20 - plen in
      if pad > 0 then flip (off + 20 + plen + sel mod pad) bs
      else flip (off + 4 + sel mod (framed - 4)) bs)"
| "apply_mutation crc bs ReservedRecType off framed plen sel =
     (let bs = bs[off + 16 := 2]
      in patch_at off (u32_to_le_bytes (crc32c crc (window (off + 4) (off + framed) bs))) bs)"
| "apply_mutation crc bs DuplicateMaxLsn off framed plen sel = bs"

section \<open>Checking the verdict\<close>

definition target_replay :: "(bytes \<Rightarrow> u32) \<Rightarrow> 'o wal \<Rightarrow> disk \<Rightarrow> (nat \<times> bytes) list" where
  "target_replay crc w d =
     (case reader_from (Lsn 0) w d of
        (Inl e, d1) \<Rightarrow> []
      | (Inr rd, d1) \<Rightarrow> map (\<lambda>(l, p). (lsn_nat l, p)) (fst (drain crc rd d1)))"

definition check_dense_prefix :: "(nat \<times> bytes) list \<Rightarrow> nat \<Rightarrow> nat \<Rightarrow> bytes list \<Rightarrow> bool" where
  "check_dense_prefix rep base durable origs =
     (if durable + 1 = base then rep = []
      else length rep = durable - base + 1
        \<and> list_all (\<lambda>(i, l, payload). l = base + i \<and> i < length origs \<and> payload = origs ! i)
            (zip [0 ..< length rep] rep))"

text \<open>The checks of the successful branch; the reopening of a dropped handle included.\<close>

definition ok_checks ::
    "(bytes \<Rightarrow> u32) \<Rightarrow> (lsn \<Rightarrow> u64) \<Rightarrow> wal_config \<Rightarrow> nat \<Rightarrow> (nat \<times> nat \<times> nat) list \<Rightarrow> bytes list \<Rightarrow> mutation \<Rightarrow> nat option
     \<Rightarrow> unit wal \<Rightarrow> recovery_report \<Rightarrow> disk \<Rightarrow> bool" where
  "ok_checks crc clock cfg base recs origs mutation mutated_index w report d \<longleftrightarrow>
     (let n = length recs; durable = lsn_nat (report_durable_lsn report) in
      lsn_nat (report_oldest_lsn report) = base
      \<and> durable + 1 \<ge> base \<and> durable \<le> base + n
      \<and> check_dense_prefix (target_replay crc w d) base durable origs
      \<and> (case open_wal crc clock cfg (drop_handle d) of
           (Inl e, d2) \<Rightarrow> False
         | (Inr (w2, report2), d2) \<Rightarrow>
             report_durable_lsn report2 = report_durable_lsn report
             \<and> report_oldest_lsn report2 = report_oldest_lsn report
             \<and> report_tail_state report2 = Clean)
      \<and> (case mutated_index of
           None \<Rightarrow> True
         | Some m \<Rightarrow>
             invalidates mutation \<and> m = n - 1 \<and> durable = base + m - 1
             \<and> (case report_tail_state report of
                  TruncatedAt segment_base offset \<Rightarrow> lsn_nat segment_base = base \<and> offset = fst (recs ! m)
                | Clean \<Rightarrow> False)))"

definition err_checks :: "(nat \<times> nat \<times> nat) list \<Rightarrow> mutation \<Rightarrow> nat option \<Rightarrow> wal_error \<Rightarrow> bool" where
  "err_checks recs mutation mutated_index e \<longleftrightarrow>
     (case e of TornMidLog _ _ \<Rightarrow> True | Corruption _ _ _ \<Rightarrow> True | _ \<Rightarrow> False)
     \<and> (case mutated_index of
          Some m \<Rightarrow> invalidates mutation \<and> m < length recs - 1
        | None \<Rightarrow> False)"

text \<open>The bytes of a scenario, its records and payloads, and the index of the changed record.\<close>

definition structure_base :: "structure_scenario \<Rightarrow> u64" where
  "structure_base s = s_base s mod 2 ^ 40 + 1"

definition structure_bytes ::
    "(bytes \<Rightarrow> u32) \<Rightarrow> structure_scenario \<Rightarrow> bytes \<times> (nat \<times> nat \<times> nat) list \<times> bytes list \<times> nat option" where
  "structure_bytes crc s =
     (let cfg = structure_config s; base = structure_base s;
          payload_cap = min (unat (cfg_max_record_size cfg)) 64;
          (bs, recs, origs) = build crc base payload_cap (unat (cfg_segment_size cfg)) (take 6 (s_payloads s))
                                (segment_header_bytes crc base) [] [];
          n = length recs;
          (bs, mutated_index) =
            (if s_mutate s \<and> n > 0 then
               let m = unat (s_target_sel s) mod n; (off, framed, plen) = recs ! m
               in (apply_mutation crc bs (s_mutation s) off framed plen (unat (s_byte_sel s)), Some m)
             else (bs, None))
      in (bs @ zeros (unat (s_trailing_zeros s)), recs, origs, mutated_index))"

definition structure_case :: "(bytes \<Rightarrow> u32) \<Rightarrow> (lsn \<Rightarrow> u64) \<Rightarrow> structure_scenario \<Rightarrow> bool" where
  "structure_case crc clock s =
     (let cfg = structure_config s; base = structure_base s;
          (bs, recs, origs, mutated_index) = structure_bytes crc s
      in case probed_open crc clock cfg (fs_write (pad_dec 20 (unat base) @ ''.wal'') bs fresh_dir) probe_reset of
           (None, peak) \<Rightarrow> False
         | (Some (res, d), peak) \<Rightarrow>
             peak \<le> scan_bound (unat (cfg_max_record_size cfg))
             \<and> (case res of
                  Inr (w, report) \<Rightarrow> ok_checks crc clock cfg (unat base) recs origs (s_mutation s) mutated_index w report d
                | Inl e \<Rightarrow> err_checks recs (s_mutation s) mutated_index e))"

section \<open>The duplicate of the last LSN\<close>

definition dup_plens :: "structure_scenario \<Rightarrow> wal_config \<Rightarrow> nat list" where
  "dup_plens s cfg =
     (let payload_cap = min (unat (cfg_max_record_size cfg)) 64;
          plens = map (\<lambda>p. min (length p) payload_cap) (take 6 (s_payloads s))
      in if plens = [] then [0] else plens)"

function shrink :: "nat \<Rightarrow> nat \<Rightarrow> nat list \<Rightarrow> nat list" where
  "shrink seg dup_plen plens =
     (if plens \<noteq> [] \<and> 64 + sum_list (map target_framed_size plens) + target_framed_size dup_plen > seg
      then shrink seg dup_plen (butlast plens) else plens)"
  by pat_completeness auto
termination
  by (relation "measure (\<lambda>(seg, dup_plen, plens). length plens)") auto

declare shrink.simps [simp del]

definition dup_payload :: "structure_scenario \<Rightarrow> nat \<Rightarrow> nat \<Rightarrow> bytes" where
  "dup_payload s i l =
     (if i < length (s_payloads s) then take (min l (length (s_payloads s ! i))) (s_payloads s ! i) else [])"

fun put_all :: "(bytes \<Rightarrow> u32) \<Rightarrow> u64 \<Rightarrow> (nat \<times> bytes) list \<Rightarrow> bytes \<Rightarrow> bytes" where
  "put_all crc base [] bs = bs"
| "put_all crc base ((i, p) # ps) bs = put_all crc base ps (fst (encode_record_into crc bs (base + of_nat i) p))"

definition control_checks ::
    "(bytes \<Rightarrow> u32) \<Rightarrow> (lsn \<Rightarrow> u64) \<Rightarrow> nat \<Rightarrow> nat \<Rightarrow> nat \<Rightarrow> bytes list \<Rightarrow> unit wal \<Rightarrow> recovery_report \<Rightarrow> disk \<Rightarrow> bool \<times> disk" where
  "control_checks crc clock base dup_off tz origs w report d =
     (let got = target_replay crc w d;
          (res1, w1) = wal_append crc [] w;
          (res2, w2, d2) = commit crc clock null_on_durable w1 d
      in (lsn_nat (report_durable_lsn report) = u64_max
          \<and> (case report_tail_state report of
               Clean \<Rightarrow> True
             | TruncatedAt _ offset \<Rightarrow> tz < 20 \<and> offset = dup_off)
          \<and> length got = length origs
          \<and> list_all (\<lambda>(i, l, payload). l = base + i \<and> payload = origs ! i) (zip [0 ..< length got] got)
          \<and> res1 = Inl LsnExhausted \<and> (\<exists>l. res2 = Inr l), d2))"

definition dup_max_case :: "(bytes \<Rightarrow> u32) \<Rightarrow> (lsn \<Rightarrow> u64) \<Rightarrow> structure_scenario \<Rightarrow> bool" where
  "dup_max_case crc clock s =
     (let cfg = structure_config s; tz = unat (s_trailing_zeros s);
          plens0 = dup_plens s cfg;
          dup_plen = plens0 ! (unat (s_byte_sel s) mod length plens0);
          plens = shrink (unat (cfg_segment_size cfg)) dup_plen plens0
      in if plens = [] then True
         else
           let k = length plens; base = (- 1 - (of_nat k - 1) :: u64);
               origs = map (\<lambda>(i, l). dup_payload s i l) (zip [0 ..< k] plens);
               bs = put_all crc base (zip [0 ..< k] origs) (segment_header_bytes crc base);
               dup_off = length bs;
               name = pad_dec 20 (unat base) @ ''.wal''
           in case open_wal crc clock cfg (fs_write name (bs @ zeros tz) fresh_dir) of
                (Inl e, d) \<Rightarrow> False
              | (Inr (w, report), d) \<Rightarrow>
                  (case control_checks crc clock (unat base) dup_off tz origs w report d of
                     (ok, d2) \<Rightarrow>
                       let bs = fst (encode_record_into crc bs (- 1) (dup_payload s (unat (s_byte_sel s) mod k) dup_plen)) @ zeros tz
                       in ok \<and>
                         (case probed_open crc clock cfg (fs_write name bs (drop_handle d2)) probe_reset of
                            (Some (Inl (Corruption segment offset _), _), peak) \<Rightarrow>
                              peak \<le> scan_bound (unat (cfg_max_record_size cfg))
                              \<and> lsn_nat segment = unat base \<and> offset = dup_off
                          | _ \<Rightarrow> False)))"

definition structure_target :: "(bytes \<Rightarrow> u32) \<Rightarrow> (lsn \<Rightarrow> u64) \<Rightarrow> structure_scenario \<Rightarrow> bool" where
  "structure_target crc clock s =
     (if s_mutate s \<and> s_mutation s = DuplicateMaxLsn then dup_max_case crc clock s else structure_case crc clock s)"

section \<open>Directories with one segment\<close>

definition single :: "disk \<Rightarrow> u64 \<Rightarrow> bytes \<Rightarrow> bool" where
  "single d b bs \<longleftrightarrow> dfaults d = [] \<and> \<not> lock_held d \<and> all_healthy d \<and> seg_bases d [b]
     \<and> map_of (entries d) (filename_for (Lsn b)) = Some \<lparr>fdata = bs, fsynced = [], fbad = []\<rparr>"

lemma single_fresh: "single (fs_write (filename_for (Lsn b)) bs fresh_dir) b bs"
  by (auto simp: single_def fs_write_def fresh_dir_def all_healthy_def healthy_def seg_bases_def)

lemma single_rewrite:
  assumes "dfaults d = []" "all_healthy d" "seg_bases d [b]"
  shows "single (fs_write (filename_for (Lsn b)) bs (drop_handle d)) b bs"
proof -
  have "map_of (entries d) (filename_for (Lsn b)) \<noteq> None" using assms(3) unfolding seg_bases_def by (metis list.set_intros(1))
  then show ?thesis
    using assms
    by (auto simp: single_def fs_write_def drop_handle_def all_healthy_def healthy_def seg_bases_def update_conv' distinct_update)
qed

lemma open_image:
  assumes c: "cfg_ok cfg" and s: "single d (word_of_nat n) (seg_image crc h n ps r)"
    and wf: "seg_wf (unat (cfg_segment_size cfg)) (unat (cfg_max_record_size cfg)) h n ps" "n \<le> u64_max"
      "h = encode_header crc (lsn_of n) 0"
    and stop: "\<forall>l k m. scan_bytes crc (seg_image crc h n ps r) (64 + frames_size ps) (unat (cfg_segment_size cfg))
        (unat (cfg_max_record_size cfg)) = ScanRecord l k m \<longrightarrow> checked_next (lsn_of (n + length ps - 1)) \<noteq> Some l"
    and st: "settle crc \<lparr>fdata = seg_image crc h n ps r, fsynced = [], fbad = []\<rparr> (lsn_of n) True (unat (cfg_segment_size cfg))
        (unat (cfg_max_record_size cfg)) (lsn_of (n + length ps - 1)) (64 + frames_size ps) = (res, f')"
  shows "case res of
      Inl e \<Rightarrow> \<exists>d'. open_wal crc clock cfg d = (Inl e, d')
    | Inr seg \<Rightarrow> \<exists>w d'. open_wal crc clock cfg d =
          (Inr (w, \<lparr>report_oldest_lsn = lsn_of n, report_durable_lsn = max_lsn seg,
                    report_tail_state = rec_tail_state seg, report_segments_scanned = 1\<rparr>), d')
        \<and> chained crc cfg w d' [word_of_nat n] [number_from n ps] \<and> poisoned w = False \<and> staging w = []"
proof -
  let ?f = "\<lparr>fdata = seg_image crc h n ps r, fsynced = [], fbad = []\<rparr>" and ?b = "word_of_nat n :: u64"
  let ?ssz = "unat (cfg_segment_size cfg)" and ?mx = "unat (cfg_max_record_size cfg)"
  have b: "Lsn ?b = lsn_of n" by (simp add: lsn_of_def)
  have len: "length h = 64" using wf(1) by (simp add: seg_wf_def)
  have n0: "\<not> is_none (lsn_of n)" by (rule seg_wf_not_none [OF wf(1)])
  have run: "parse_run crc (fdata ?f) ?ssz ?mx 64 (Some (lsn_of n)) = (number_from n ps, 64 + frames_size ps)"
    using parse_run_image_stop [OF wf(1)] stop by simp
  have lv: "run_last (Lsn (lsn_val (lsn_of n) - 1)) (number_from n ps) = lsn_of (n + length ps - 1)"
    using wf(1) run_last_number_from [of n ps] by (simp add: seg_wf_def lsn_pred_of)
  have sp: "recovery_spec crc ?f (Lsn ?b) True ?ssz ?mx = (res, f')"
    using recovery_spec_settle [OF run] lv st by (simp add: b)
  have t: "take 64 (fdata ?f) = h" "64 \<le> length (fdata ?f)" using len by (simp_all add: seg_image_def)
  have d: "dfaults d = []" "\<not> lock_held d" "all_healthy d" "seg_bases d [?b]" "map_of (entries d) (filename_for (Lsn ?b)) = Some ?f"
    using s by (simp_all add: single_def)
  have hd: "decode_header crc (take 64 (fdata ?f)) = Inr \<lparr>base_lsn = lsn_of n\<rparr>"
    unfolding t(1) using decode_encode_header [OF n0, of crc 0] wf(3) by simp
  from open_one [OF c FIRST_not_none d t(2) hd _ sp, of clock "()"] show ?thesis
    by (simp only: b open_wal_def open_with_def run fst_conv segment_header.select_convs simp_thms)
qed

section \<open>What the checks see\<close>

lemma target_replay_chained:
  assumes c: "chained crc cfg w d [word_of_nat n] [number_from n ps]" and b: "n + length ps \<le> Suc u64_max"
  shows "target_replay crc w d = number_nat n ps"
proof -
  have "Lsn 0 = NONE" by (simp add: NONE_def)
  with chained_replay [OF c] number_nat_of [OF b] show ?thesis by (auto simp: target_replay_def)
qed

lemma check_dense_ok:
  assumes "0 < n" "ps = take k origs" "k \<le> length origs"
  shows "check_dense_prefix (number_nat n ps) n (n + k - 1) origs"
proof -
  have len: "length ps = k" using assms by simp
  have "length (number_nat n ps) = k" by (simp add: number_nat_def len)
  moreover have "number_nat n ps ! i = (n + i, origs ! i)" if "i < k" for i
    using that assms len by (simp add: number_nat_def)
  ultimately show ?thesis
    using assms(1,3) by (auto simp: check_dense_prefix_def list_all_length)
qed

lemma ok_checks_intro:
  assumes c: "chained crc cfg w d [word_of_nat n] [number_from n ps]" and n: "0 < n" "n + length ps \<le> Suc u64_max" "n \<le> u64_max"
    and ps: "ps = take k origs" "k \<le> length origs" "length recs = length origs"
    and m: "case mi of None \<Rightarrow> True | Some m \<Rightarrow> m = length recs - 1 \<and> k = m \<and> ts = TruncatedAt (lsn_of n) (fst (recs ! m))"
  shows "ok_checks crc clock cfg n recs origs mu mi w
    \<lparr>report_oldest_lsn = lsn_of n, report_durable_lsn = lsn_of (n + length ps - 1), report_tail_state = ts, report_segments_scanned = sc\<rparr> d"
proof -
  have len: "length ps = k" using ps by simp
  have w: "oldest_lsn w = lsn_of n" "durable_lsn w = lsn_of (n + length ps - 1)"
    using c run_last_number_from [of n ps] n lsn_pred_of [of n] by (simp_all add: chained_def lsn_of_def)
  from chained_reopen [OF c FIRST_not_none, of clock "()"] obtain w2 d2 where
    "open_wal crc clock cfg (drop_handle d) =
      (Inr (w2, \<lparr>report_oldest_lsn = lsn_of n, report_durable_lsn = lsn_of (n + length ps - 1),
                 report_tail_state = Clean, report_segments_scanned = length (segments w)\<rparr>), d2)"
    by (auto simp: w open_wal_def open_with_def)
  moreover have "check_dense_prefix (target_replay crc w d) n (n + length ps - 1) origs"
    using check_dense_ok [OF n(1) ps(1,2)] by (simp add: target_replay_chained [OF c n(2)] len)
  ultimately show ?thesis
    using n ps m len by (auto simp: ok_checks_def Let_def invalidates_def split: option.splits)
qed

section \<open>The bytes of a scenario\<close>

lemma target_framed_size_eq: "target_framed_size k = framed_size k"
  by (simp add: target_framed_size_def pad_for_def framed_size_def padding_for_def)

definition recs_of :: "bytes list \<Rightarrow> (nat \<times> nat \<times> nat) list" where
  "recs_of ps = map (\<lambda>i. (64 + frames_size (take i ps), framed_size (length (ps ! i)), length (ps ! i))) [0 ..< length ps]"

lemma recs_of_snoc: "recs_of (ps @ [p]) = recs_of ps @ [(64 + frames_size ps, framed_size (length p), length p)]"
  by (simp add: recs_of_def nth_append)

lemma length_recs_of [simp]: "length (recs_of ps) = length ps"
  by (simp add: recs_of_def)

lemma recs_of_eq_Nil [simp]: "recs_of ps = [] \<longleftrightarrow> ps = []"
  by (simp add: recs_of_def)

lemma build_image:
  assumes "payloads_ok cap ps" "64 + frames_size ps \<le> seg" "length h = 64"
  shows "\<exists>qs. build crc base cap seg raws (seg_image crc h (unat base) ps []) (recs_of ps) ps =
      (seg_image crc h (unat base) (ps @ qs) [], recs_of (ps @ qs), ps @ qs)
    \<and> payloads_ok cap (ps @ qs) \<and> 64 + frames_size (ps @ qs) \<le> seg \<and> length qs \<le> length raws"
  using assms
proof (induction raws arbitrary: ps)
  case (Cons raw raws)
  let ?p = "take (min (length raw) cap) raw"
  have l: "length ?p = min (length raw) cap" by simp
  have off: "length (seg_image crc h (unat base) ps []) = 64 + frames_size ps" using Cons.prems(3) by (simp add: length_seg_image)
  show ?case
  proof (cases "64 + frames_size ps + framed_size (min (length raw) cap) > seg")
    case True
    then show ?thesis using Cons.prems off by (intro exI [of _ "[]"]) (simp add: Let_def target_framed_size_eq)
  next
    case False
    have "Lsn (base + of_nat (length ps)) = lsn_of (unat base + length ps)" by (simp add: lsn_of_def)
    then have e: "encode_record_into crc (seg_image crc h (unat base) ps []) (base + of_nat (length ps)) ?p
        = (seg_image crc h (unat base) (ps @ [?p]) [], framed_size (length ?p))"
      by (simp add: encode_record_into_def encode_into_eq seg_image_def frames_append)
    have "payloads_ok cap (ps @ [?p])" "64 + frames_size (ps @ [?p]) \<le> seg" using Cons.prems False by simp_all
    from Cons.IH [OF this Cons.prems(3)] obtain qs where
      "build crc base cap seg raws (seg_image crc h (unat base) (ps @ [?p]) []) (recs_of (ps @ [?p])) (ps @ [?p]) =
        (seg_image crc h (unat base) ((ps @ [?p]) @ qs) [], recs_of ((ps @ [?p]) @ qs), (ps @ [?p]) @ qs)"
      "payloads_ok cap ((ps @ [?p]) @ qs)" "64 + frames_size ((ps @ [?p]) @ qs) \<le> seg" "length qs \<le> length raws" by blast
    then show ?thesis
      using False off e l by (intro exI [of _ "?p # qs"]) (simp add: Let_def target_framed_size_eq recs_of_snoc)
  qed
qed simp

text \<open>A mutation changes only its record.\<close>

lemma flip_inside: "i < length F \<Longrightarrow> flip (length pre + i) (pre @ F @ post) = pre @ flip i F @ post"
  by (simp add: flip_def list_update_append nth_append)

lemma patch_inside:
  "i + length bs \<le> length F \<Longrightarrow> patch_at (length pre + i) bs (pre @ F @ post) = pre @ patch_at i bs F @ post"
  by (simp add: patch_at_def)

lemma apply_mutation_local:
  assumes "24 \<le> length F" "20 + plen \<le> length F"
  shows "apply_mutation crc (pre @ F @ post) mu (length pre) (length F) plen sel
    = pre @ apply_mutation crc F mu 0 (length F) plen sel @ post"
proof (cases mu)
  case ReservedRecType
  let ?F = "F[16 := 2]"
  have u: "(pre @ F @ post)[length pre + 16 := 2] = pre @ ?F @ post" using assms by (simp add: list_update_append)
  have w: "window (length pre + 4) (length pre + length F) (pre @ ?F @ post) = window 4 (length F) ?F"
    by (simp add: window_append_right window_append_left)
  show ?thesis
    using patch_inside [of 0 "u32_to_le_bytes (crc (window 4 (length F) ?F))" ?F pre post] assms(1) u w
    by (simp add: ReservedRecType Let_def)
next
  case TamperPadding
  have b: "4 + sel mod (length F - 4) < length F" using assms(1) mod_less_divisor [of "length F - 4" sel] by linarith
  show ?thesis
  proof (cases "20 + plen < length F")
    case True
    then have "20 + plen + sel mod (length F - 20 - plen) < length F"
      using mod_less_divisor [of "length F - 20 - plen" sel] by linarith
    from flip_inside [OF this, of pre post] True show ?thesis by (simp add: TamperPadding Let_def add.assoc)
  qed (use flip_inside [OF b, of pre post] assms in \<open>simp add: TamperPadding Let_def add.assoc\<close>)
next
  case FlipBody
  have "sel mod (length F - 4) < length F - 4" using assms(1) by simp
  then show ?thesis using flip_inside [of "4 + sel mod (length F - 4)" F pre post] by (simp add: FlipBody add.assoc)
next
  case FlipCrc
  then show ?thesis using flip_inside [of "sel mod 4" F pre post] assms(1) mod_less_divisor [of 4 sel] by simp
next
  case ExtendLength
  then show ?thesis using patch_inside [of 4 "u32_to_le_bytes (word_of_nat plen + 8)" F pre post] assms(1) by simp
next
  case ZeroRecType
  then show ?thesis using assms(1) by (simp add: list_update_append)
qed simp

lemma mutation_length:
  assumes "24 \<le> length F"
  shows "length (apply_mutation crc F mu 0 (length F) plen sel) = length F"
  using assms by (cases mu) (simp_all add: flip_def patch_at_def Let_def)

lemma XOR_FF_neq [simp]: "b XOR 0xFF \<noteq> (b :: u8)"
proof
  assume "b XOR 0xFF = b"
  then have "b XOR (b XOR 0xFF) = b XOR b" by simp
  then show False by (simp add: xor.assoc [symmetric] del: xor.assoc)
qed

lemma flip_fields:
  assumes "24 \<le> length F" "i < length F"
  shows "flip i F ! 16 = F ! 16 \<or> window 8 16 (flip i F) = window 8 16 F"
  using assms by (cases "i = 16") (simp_all add: flip_def window_update_out)

lemma mutation_fields:
  assumes "24 \<le> length F" "20 + plen \<le> length F" "F ! 16 = 1"
  shows "apply_mutation crc F mu 0 (length F) plen sel ! 16 \<noteq> 0
    \<or> window 8 16 (apply_mutation crc F mu 0 (length F) plen sel) = window 8 16 F"
proof (cases mu)
  case FlipCrc
  have "sel mod 4 < length F" using assms(1) mod_less_divisor [of 4 sel] by linarith
  then show ?thesis using flip_fields [OF assms(1), of "sel mod 4"] assms FlipCrc by auto
next
  case FlipBody
  have "4 + sel mod (length F - 4) < length F" using assms(1) mod_less_divisor [of "length F - 4" sel] by linarith
  then show ?thesis using flip_fields [OF assms(1)] assms(3) FlipBody by fastforce
next
  case TamperPadding
  have "4 + sel mod (length F - 4) < length F" using assms(1) mod_less_divisor [of "length F - 4" sel] by linarith
  moreover have "20 + plen + sel mod (length F - 20 - plen) < length F" if "20 + plen < length F"
    using that mod_less_divisor [of "length F - 20 - plen" sel] by linarith
  ultimately show ?thesis using flip_fields [OF assms(1)] assms(3) by (fastforce simp: TamperPadding Let_def)
next
  case ExtendLength
  then show ?thesis using assms(1) by (simp add: patch_at_def window_def)
next
  case ReservedRecType
  then show ?thesis using assms(1) by (simp add: patch_at_def nth_append Let_def)
next
  case ZeroRecType
  then show ?thesis by (simp add: window_update_out)
qed (use assms(3) in simp)

text \<open>A frame whose stored checksum is not that of the bytes its length field spans.\<close>

definition mismatched :: "(bytes \<Rightarrow> u32) \<Rightarrow> bytes \<Rightarrow> bool" where
  "mismatched crc buf \<longleftrightarrow>
     crc (window 4 (framed_size (unat (u32_from_le_bytes (window 4 8 buf)))) buf) \<noteq> u32_from_le_bytes (window 0 4 buf)"

lemma mismatched_not_record:
  assumes "mismatched crc (drop off data)"
  shows "scan_bytes crc data off ssz mx \<noteq> ScanRecord l k n"
proof
  assume s: "scan_bytes crc data off ssz mx = ScanRecord l k n"
  let ?D = "take (ssz - off) (drop off data)"
  have D: "drop off (take ssz data) = ?D" by (simp add: drop_take)
  from s obtain p where "decode crc ?D mx = Record l p n" by (auto simp: scan_bytes_def D split: if_splits decoded.splits)
  then have r: "n = framed_size (unat (u32_from_le_bytes (window 4 8 ?D)))" "n \<le> length ?D"
    "crc (window 4 n ?D) = u32_from_le_bytes (window 0 4 ?D)" unfolding decode_Record_iff Let_def by blast+
  have "24 \<le> n" using r(1) framed_size_ge24 by simp
  then have "window a b ?D = window a b (drop off data)" if "b \<le> 8 \<or> b = n" for a b
    using that r(2) by (intro window_take) auto
  then show False using r assms by (simp add: mismatched_def)
qed

text \<open>The changed record is scanned as invalid.\<close>

lemma changed_invalid:
  assumes data: "data = pre @ M @ r" "off = length pre" and M: "length M = framed_size k" "M ! 16 \<noteq> 0 \<or> \<not> all_zero (window 8 16 M)"
    and fit: "off + framed_size k \<le> ssz" and no: "\<And>l k n. scan_bytes crc data off ssz mx \<noteq> ScanRecord l k n"
  shows "scan_bytes crc data off ssz mx = ScanInvalid"
proof -
  have g: "24 \<le> framed_size k" by (rule framed_size_ge24)
  have D: "drop off (take ssz data) = M @ take (ssz - (off + framed_size k)) r" using data M(1) fit by simp
  have "\<not> all_zero (take 20 (M @ take (ssz - (off + framed_size k)) r))"
  proof
    assume z: "all_zero (take 20 (M @ take (ssz - (off + framed_size k)) r))"
    then have "all_zero (window 8 16 (M @ take (ssz - (off + framed_size k)) r))" by (rule all_zero_window) simp
    moreover have "take 20 (M @ take (ssz - (off + framed_size k)) r) ! 16 = 0" using z M(1) g by (intro all_zero_nth) simp_all
    ultimately show False using M g by (simp add: window_append_left nth_append)
  qed
  then have "decode crc (drop off (take ssz data)) mx \<noteq> Sentinel" unfolding D by (simp add: decode_Sentinel_iff)
  moreover have "\<not> ssz - off < 20" using fit g by simp
  ultimately have "scan_bytes crc data off ssz mx \<noteq> CleanEnd" by (auto simp: scan_bytes_def split: decoded.splits)
  then show ?thesis using no by (cases "scan_bytes crc data off ssz mx") auto
qed

section \<open>The verdict\<close>

text \<open>What the target relies on: the checksum notices the change (where it is the checksum that
  has to notice it), and the last record, when it is the one changed, does not carry a frame that
  continues the log inside its own bytes.\<close>

definition detected :: "(bytes \<Rightarrow> u32) \<Rightarrow> structure_scenario \<Rightarrow> bool" where
  "detected crc s \<longleftrightarrow>
     (case structure_bytes crc s of
        (data, recs, origs, mi) \<Rightarrow>
          \<forall>m. mi = Some m \<longrightarrow> s_mutation s \<noteq> FlipCrc \<longrightarrow> s_mutation s \<noteq> ReservedRecType \<longrightarrow> mismatched crc (drop (fst (recs ! m)) data))"

definition nothing_embedded :: "(bytes \<Rightarrow> u32) \<Rightarrow> structure_scenario \<Rightarrow> bool" where
  "nothing_embedded crc s \<longleftrightarrow>
     (case structure_bytes crc s of
        (data, recs, origs, mi) \<Rightarrow>
          \<forall>m j l k n. mi = Some m \<longrightarrow> m = length recs - 1 \<longrightarrow>
            scan_bytes crc data (fst (recs ! m) + 8 * Suc j) (unat (cfg_segment_size (structure_config s)))
              (unat (cfg_max_record_size (structure_config s))) = ScanRecord l k n \<longrightarrow>
            lsn_nat l < unat (structure_base s) + m)"

lemma structure_config_facts:
  "cfg_ok (structure_config s)" "unat (cfg_segment_size (structure_config s)) \<le> 65536" "4096 \<le> unat (cfg_segment_size (structure_config s))"
proof -
  have m: "unat (a mod (4006 :: u32)) < 4006" "unat (a mod (65446 :: u32)) < 65446" for a by (simp_all add: unat_mod)
  show "cfg_ok (structure_config s)" using m [of "s_max_sel s"]
    by (cases "s_seg_big s") (simp_all add: cfg_ok_def structure_config_def Let_def)
  show "unat (cfg_segment_size (structure_config s)) \<le> 65536" "4096 \<le> unat (cfg_segment_size (structure_config s))"
    by (simp_all add: structure_config_def Let_def)
qed

lemma structure_base_facts: "0 < unat (structure_base s)" "unat (structure_base s) \<le> 2 ^ 40" "word_of_nat (unat (structure_base s)) = structure_base s"
proof -
  have "unat (s_base s mod 2 ^ 40) < 2 ^ 40" by (simp add: unat_mod)
  then have "unat (structure_base s) = Suc (unat (s_base s mod 2 ^ 40))"
    unfolding structure_base_def by (subst unat_add_lem [THEN iffD1]) simp_all
  then show "0 < unat (structure_base s)" "unat (structure_base s) \<le> 2 ^ 40" using \<open>unat (s_base s mod 2 ^ 40) < 2 ^ 40\<close> by simp_all
qed simp

abbreviation header_of :: "(bytes \<Rightarrow> u32) \<Rightarrow> nat \<Rightarrow> bytes" where
  "header_of crc n \<equiv> encode_header crc (lsn_of n) 0"

lemma structure_bytes_cases:
  obtains ps where "seg_wf (unat (cfg_segment_size (structure_config s))) (unat (cfg_max_record_size (structure_config s)))
      (header_of crc (unat (structure_base s))) (unat (structure_base s)) ps" "length ps \<le> 6"
    and "structure_bytes crc s =
      (if s_mutate s \<and> ps \<noteq> [] then
         let m = unat (s_target_sel s) mod length ps;
             F = frame crc (lsn_of (unat (structure_base s) + m)) (ps ! m)
         in (seg_image crc (header_of crc (unat (structure_base s))) (unat (structure_base s)) (take m ps)
               (apply_mutation crc F (s_mutation s) 0 (length F) (length (ps ! m)) (unat (s_byte_sel s))
                @ frames crc (unat (structure_base s) + Suc m) (drop (Suc m) ps) @ zeros (unat (s_trailing_zeros s))),
             recs_of ps, ps, Some m)
       else (seg_image crc (header_of crc (unat (structure_base s))) (unat (structure_base s)) ps (zeros (unat (s_trailing_zeros s))),
             recs_of ps, ps, None))"
proof -
  define n where "n = unat (structure_base s)"
  define cfg where "cfg = structure_config s"
  let ?ssz = "unat (cfg_segment_size cfg)" and ?mx = "unat (cfg_max_record_size cfg)" and ?h = "header_of crc n"
  have h: "segment_header_bytes crc (structure_base s) = ?h" "length ?h = 64"
    by (simp_all add: segment_header_bytes_def n_def lsn_of_def)
  have ssz: "4096 \<le> ?ssz" using structure_config_facts [of s] by (simp add: cfg_def)
  obtain ps where b: "build crc (structure_base s) (min ?mx 64) ?ssz (take 6 (s_payloads s)) (segment_header_bytes crc (structure_base s)) [] []
      = (seg_image crc ?h n ps [], recs_of ps, ps)" and ps: "payloads_ok (min ?mx 64) ps" "64 + frames_size ps \<le> ?ssz" "length ps \<le> 6"
    using build_image [of "min ?mx 64" "[]" ?ssz ?h crc "structure_base s" "take 6 (s_payloads s)"] h ssz
    by (auto simp: n_def [symmetric] seg_image_def recs_of_def)
  have "?mx \<le> u32_max" using unat_u32_le by blast
  then have wf: "seg_wf ?ssz ?mx ?h n ps"
    using ps h(2) structure_base_facts [of s] by (auto simp: seg_wf_def n_def payloads_ok_def list_all_iff u64_max_def)
  have "structure_bytes crc s =
      (if s_mutate s \<and> ps \<noteq> [] then
         let m = unat (s_target_sel s) mod length ps; F = frame crc (lsn_of (n + m)) (ps ! m)
         in (seg_image crc ?h n (take m ps)
               (apply_mutation crc F (s_mutation s) 0 (length F) (length (ps ! m)) (unat (s_byte_sel s))
                @ frames crc (n + Suc m) (drop (Suc m) ps) @ zeros (unat (s_trailing_zeros s))), recs_of ps, ps, Some m)
       else (seg_image crc ?h n ps (zeros (unat (s_trailing_zeros s))), recs_of ps, ps, None))"
  proof (cases "s_mutate s \<and> ps \<noteq> []")
    case True
    define m where "m = unat (s_target_sel s) mod length ps"
    have m: "m < length ps" using True by (simp add: m_def)
    let ?F = "frame crc (lsn_of (n + m)) (ps ! m)" and ?pre = "?h @ frames crc n (take m ps)"
    have "ps = take m ps @ ps ! m # drop (Suc m) ps" using m by (simp add: id_take_nth_drop)
    then have "frames crc n ps = frames crc n (take m ps) @ ?F @ frames crc (n + Suc m) (drop (Suc m) ps)"
      using m frames_append [of crc n "take m ps" "ps ! m # drop (Suc m) ps"] by simp
    then have im: "seg_image crc ?h n ps [] = ?pre @ ?F @ frames crc (n + Suc m) (drop (Suc m) ps)" by (simp add: seg_image_def)
    have off: "recs_of ps ! m = (length ?pre, length ?F, length (ps ! m))" using m h(2) by (simp add: recs_of_def)
    have "24 \<le> length ?F" "20 + length (ps ! m) \<le> length ?F" by (simp_all add: framed_size_ge24 framed_size_bounds(1))
    from apply_mutation_local [OF this, of crc ?pre "frames crc (n + Suc m) (drop (Suc m) ps)"] True b im off
    show ?thesis
      by (simp add: structure_bytes_def Let_def cfg_def [symmetric] m_def [symmetric] seg_image_def)
  next
    case False
    then show ?thesis using b by (auto simp: structure_bytes_def Let_def cfg_def [symmetric] seg_image_def)
  qed
  with wf ps(3) show ?thesis using that by (simp add: n_def cfg_def)
qed

text \<open>The open of a scenario's directory, and that its scans stay within the bound.\<close>

lemma structure_case_eq:
  assumes "structure_bytes crc s = (data, recs, origs, mi)" "single d (structure_base s) data"
    and "d = fs_write (filename_for (Lsn (structure_base s))) data fresh_dir"
  shows "structure_case crc clock s \<longleftrightarrow>
    (case open_wal crc clock (structure_config s) d of
       (Inr (w, report), d') \<Rightarrow> ok_checks crc clock (structure_config s) (unat (structure_base s)) recs origs (s_mutation s) mi w report d'
     | (Inl e, d') \<Rightarrow> err_checks recs (s_mutation s) mi e)"
proof -
  obtain peak where p: "probed_open crc clock (structure_config s) d 0 = (Some (open_wal crc clock (structure_config s) d), peak)"
    "peak \<le> max 0 (scan_bound (unat (cfg_max_record_size (structure_config s))))" using probed_open_within by (rule same_withinE)
  have n: "pad_dec 20 (unat (structure_base s)) @ ''.wal'' = filename_for (Lsn (structure_base s))" by (simp add: filename_for_def)
  obtain res d' where o: "open_wal crc clock (structure_config s) d = (res, d')" by fastforce
  show ?thesis
    using p o unfolding structure_case_def Let_def assms(1) prod.case n assms(3) [symmetric]
    by (simp add: probe_reset_def)
qed

lemma short_zero_tail:
  assumes "seg_wf ssz mx h n ps" "ssz + 8 \<le> u64_max" "f = \<lparr>fdata = seg_image crc h n ps (zeros k), fsynced = [], fbad = []\<rparr>"
  shows "scan_bytes crc (fdata f) (64 + frames_size ps) ssz mx \<noteq> ScanRecord l j m"
    and "n + length ps \<le> u64_max \<Longrightarrow> \<exists>seg f'. settle crc f (lsn_of n) True ssz mx (lsn_of (n + length ps - 1)) (64 + frames_size ps) = (Inr seg, f')
      \<and> max_lsn seg = lsn_of (n + length ps - 1)"
proof -
  let ?x = "64 + frames_size ps"
  have f: "fdata f = seg_image crc h n ps (zeros k)" by (simp add: assms(3))
  have len: "length (h @ frames crc n ps) = ?x" using assms(1) by (simp add: seg_wf_def)
  have z: "drop ?x (fdata f) = zeros k" using len by (simp add: f seg_image_def)
  have nz: "fdata f ! (?x + i) = 0" if "?x + i < length (fdata f)" for i
    using that z nth_drop [of ?x "fdata f" i] by (cases "i < k") (simp_all add: f seg_image_def len [symmetric] nth_append)
  show no: "scan_bytes crc (fdata f) ?x ssz mx \<noteq> ScanRecord l j m" for l j m
    using scan_record_type_byte [of crc "fdata f" ?x ssz mx l j m] nz [of 16] by auto
  have "drop (?x + 24) (fdata f) = drop 24 (zeros k)" unfolding z [symmetric] by (simp add: add.commute)
  then have za: "all_zero (drop (?x + 24) (fdata f))" by simp
  have "\<not> valid_ahead crc (fdata f) ssz mx ?x want" for want
    by (rule not_valid_ahead_zeros [OF za]) (use assms(1,2) in \<open>simp add: seg_wf_def\<close>)
  moreover assume "n + length ps \<le> u64_max"
  then have "checked_next (lsn_of (n + length ps - 1)) = Some (lsn_of (n + length ps))"
    using assms(1) checked_next_lsn_of [of "n + length ps - 1"] by (simp add: seg_wf_def)
  ultimately show "\<exists>seg f'. settle crc f (lsn_of n) True ssz mx (lsn_of (n + length ps - 1)) ?x = (Inr seg, f')
      \<and> max_lsn seg = lsn_of (n + length ps - 1)"
    using no by (auto simp: settle_def Let_def split: scan_outcome.splits)
qed

text \<open>The changed record, on its own.\<close>

lemma changed_record:
  assumes wf: "seg_wf ssz mx h n ps" and m: "m < length ps" and mu: "mu \<noteq> DuplicateMaxLsn"
    and F: "F = frame crc (lsn_of (n + m)) (ps ! m)" and M: "M = apply_mutation crc F mu 0 (length F) (length (ps ! m)) sel"
    and data: "data = seg_image crc h n (take m ps) (M @ r)"
    and mis: "mu \<noteq> FlipCrc \<Longrightarrow> mu \<noteq> ReservedRecType \<Longrightarrow> mismatched crc (drop (64 + frames_size (take m ps)) data)"
  shows "scan_bytes crc data (64 + frames_size (take m ps)) ssz mx = ScanInvalid" "length M = framed_size (length (ps ! m))"
proof -
  let ?off = "64 + frames_size (take m ps)" and ?k = "length (ps ! m)" and ?l = "lsn_of (n + m)"
  have lF: "length F = framed_size ?k" "24 \<le> length F" "20 + ?k \<le> length F" by (simp_all add: F framed_size_ge24 framed_size_bounds(1))
  show lM: "length M = framed_size ?k" using mutation_length [OF lF(2)] lF(1) by (simp add: M)
  have pre: "length (h @ frames crc n (take m ps)) = ?off" "data = (h @ frames crc n (take m ps)) @ M @ r"
    using wf by (simp_all add: data seg_wf_def seg_image_def)
  have n: "lsn_val ?l \<noteq> 0" "n + m \<le> u64_max"
    using wf m is_none_iff [of ?l] by (simp_all add: seg_wf_def is_none_def)
  have ff: "F ! 16 = 1" "window 8 16 F = u64_to_le_bytes (lsn_val ?l)"
    using frame_type_field [of crc ?l "ps ! m" "[]"] frame_lsn_field [of crc ?l "ps ! m" "[]"] by (simp_all add: F)
  have nz: "M ! 16 \<noteq> 0 \<or> \<not> all_zero (window 8 16 M)"
    using mutation_fields [OF lF(2,3) ff(1), of crc mu sel] ff(2) n(1) by (auto simp: M u64_le_bytes_zero)
  have fit: "?off + framed_size ?k \<le> ssz"
  proof -
    have "frames_size ps = frames_size (take m ps) + framed_size ?k + frames_size (drop (Suc m) ps)"
      using m by (metis id_take_nth_drop frames_size.simps(2) frames_size_append add.assoc)
    then show ?thesis using wf by (simp add: seg_wf_def)
  qed
  have no: "scan_bytes crc data ?off ssz mx \<noteq> ScanRecord l j q" for l j q
  proof (cases "mu = ReservedRecType")
    case True
    have "M ! 16 = 2" using lF(2) by (simp add: M True patch_at_def nth_append Let_def)
    then have "data ! (?off + 16) = 2" using lM lF pre by (simp add: pre(2) nth_append del: append_assoc)
    then show ?thesis using scan_record_type_byte [of crc data ?off ssz mx l j q] by auto
  next
    case False
    have "mismatched crc (drop ?off data)"
    proof (cases "mu = FlipCrc")
      case True
      have i: "sel mod 4 < 4" by simp
      have Mf: "M = F[sel mod 4 := F ! (sel mod 4) XOR 0xFF]" by (simp add: M True flip_def)
      have pl: "?k \<le> u32_max" using wf m by (auto simp: seg_wf_def payloads_ok_def list_all_length)
      have w: "window 4 8 (M @ r) = u32_to_le_bytes (word_of_nat ?k)" "window 4 (framed_size ?k) (M @ r) = rec_body ?l (ps ! m)"
        using lM lF frame_len_field [of crc ?l "ps ! m" "[]"] frame_covered [of "ps ! m" crc ?l "[]"] i
        by (simp_all add: window_append_left Mf window_update_out F)
      have "window 0 4 (M @ r) = (window 0 4 F)[sel mod 4 := F ! (sel mod 4) XOR 0xFF]"
        using lM lF i by (simp add: window_append_left Mf window_update_in)
      moreover have "window 0 4 F = u32_to_le_bytes (crc (rec_body ?l (ps ! m)))"
        using frame_crc_field [of crc ?l "ps ! m" "[]"] by (simp add: F)
      moreover have "(window 0 4 F)[sel mod 4 := F ! (sel mod 4) XOR 0xFF] \<noteq> window 0 4 F"
      proof
        assume "(window 0 4 F)[sel mod 4 := F ! (sel mod 4) XOR 0xFF] = window 0 4 F"
        then have "(window 0 4 F)[sel mod 4 := F ! (sel mod 4) XOR 0xFF] ! (sel mod 4) = window 0 4 F ! (sel mod 4)" by simp
        then show False using i lF(2) by (simp add: window_def)
      qed
      ultimately have "window 0 4 (M @ r) \<noteq> u32_to_le_bytes (crc (rec_body ?l (ps ! m)))" by simp
      moreover have "length (window 0 4 (M @ r)) = 4" using lM lF by simp
      ultimately have "u32_from_le_bytes (window 0 4 (M @ r)) \<noteq> crc (rec_body ?l (ps ! m))"
        using u32_le_bytes_inject [of "window 0 4 (M @ r)" "u32_to_le_bytes (crc (rec_body ?l (ps ! m)))"] by auto
      moreover have "drop ?off data = M @ r" using pre by simp
      ultimately show ?thesis using w pl by (auto simp: mismatched_def unat_of_nat u32_max_def)
    qed (use mis False in simp)
    then show ?thesis by (rule mismatched_not_record)
  qed
  show "scan_bytes crc data ?off ssz mx = ScanInvalid"
    by (rule changed_invalid [OF pre(2) pre(1) [symmetric] lM nz fit no])
qed

lemma seg_wf_take: "seg_wf ssz mx h n ps \<Longrightarrow> seg_wf ssz mx h n (take m ps)"
proof -
  assume wf: "seg_wf ssz mx h n ps"
  have "frames_size ps = frames_size (take m ps) + frames_size (drop m ps)" by (metis append_take_drop_id frames_size_append)
  then show ?thesis
    using wf by (auto simp: seg_wf_def payloads_ok_def list_all_iff dest: in_set_takeD)
qed

lemma changed_interior:
  assumes wf: "seg_wf ssz mx h n ps" and m: "Suc m < length ps" "length M = framed_size (length (ps ! m))" "ssz \<le> u64_max"
    and data: "data = seg_image crc h n (take m ps) (M @ frames crc (n + Suc m) (drop (Suc m) ps) @ r)"
  shows "valid_ahead crc data ssz mx (64 + frames_size (take m ps)) (lsn_of (n + m))"
proof -
  let ?off = "64 + frames_size (take m ps)" and ?k = "framed_size (length (ps ! m))" and ?q = "ps ! Suc m"
  have dp: "drop (Suc m) ps = ?q # drop (Suc (Suc m)) ps" using m(1) by (simp add: Cons_nth_drop_Suc)
  have sum: "frames_size ps = frames_size (take m ps) + ?k + (framed_size (length ?q) + frames_size (drop (Suc (Suc m)) ps))"
    using m(1) dp by (metis Suc_lessD id_take_nth_drop frames_size.simps(2) frames_size_append add.assoc)
  let ?pre = "h @ frames crc n (take m ps) @ M"
  have len: "length ?pre = ?off + ?k" using wf m(2) by (simp add: seg_wf_def)
  have dat: "data = ?pre @ frame crc (lsn_of (n + Suc m)) ?q @ frames crc (Suc (n + Suc m)) (drop (Suc (Suc m)) ps) @ r"
    by (simp add: data seg_image_def dp)
  have pl: "length ?q \<le> mx" "length (ps ! m) \<le> mx" "mx \<le> u32_max" "?off + ?k + framed_size (length ?q) \<le> ssz"
    using wf m(1) sum by (auto simp: seg_wf_def payloads_ok_def list_all_length)
  have s: "scan_bytes crc data (?off + ?k) ssz mx = ScanRecord (lsn_of (n + Suc m)) (length ?q) (framed_size (length ?q))"
    using scan_bytes_frame [of ?q mx ?pre ssz crc "lsn_of (n + Suc m)"] pl len by (simp only: dat)
  have n: "n + Suc m \<le> u64_max" using wf m(1) by (simp add: seg_wf_def)
  show ?thesis
    by (rule valid_aheadI [OF s])
      (use n pl m(3) framed_size_mod8 [of "length (ps ! m)"] framed_size_ge24 [of "length (ps ! m)"] framed_size_bounds(2) [of "length (ps ! m)"]
       in \<open>simp_all add: lsn_le_iff\<close>)
qed

lemma structure_case_ok:
  assumes det: "detected crc s" and emb: "nothing_embedded crc s" and mu: "s_mutate s \<Longrightarrow> s_mutation s \<noteq> DuplicateMaxLsn"
  shows "structure_case crc clock s"
proof -
  define n where "n = unat (structure_base s)"
  define cfg where "cfg = structure_config s"
  let ?ssz = "unat (cfg_segment_size cfg)" and ?mx = "unat (cfg_max_record_size cfg)" and ?h = "header_of crc n" and ?tz = "unat (s_trailing_zeros s)"
  note nb = structure_base_facts [of s, folded n_def] and cf = structure_config_facts [of s, folded cfg_def]
  have n: "0 < n" "n \<le> u64_max" "n + 100 \<le> u64_max" using nb by (simp_all add: u64_max_def)
  have ssz: "?ssz + 8 \<le> u64_max" using cf by (simp add: u64_max_def)
  then have ssz': "?ssz \<le> u64_max" by linarith
  obtain ps where wf: "seg_wf ?ssz ?mx ?h n ps" and p6: "length ps \<le> 6" and sb: "structure_bytes crc s =
      (if s_mutate s \<and> ps \<noteq> [] then
         let m = unat (s_target_sel s) mod length ps; F = frame crc (lsn_of (n + m)) (ps ! m)
         in (seg_image crc ?h n (take m ps)
               (apply_mutation crc F (s_mutation s) 0 (length F) (length (ps ! m)) (unat (s_byte_sel s))
                @ frames crc (n + Suc m) (drop (Suc m) ps) @ zeros ?tz), recs_of ps, ps, Some m)
       else (seg_image crc ?h n ps (zeros ?tz), recs_of ps, ps, None))"
    using structure_bytes_cases [of s crc] unfolding n_def cfg_def by blast
  have nl: "n + length ps \<le> u64_max" using n(3) p6 by simp
  show ?thesis
  proof (cases "s_mutate s \<and> ps \<noteq> []")
    case False
    let ?data = "seg_image crc ?h n ps (zeros ?tz)"
    let ?d = "fs_write (filename_for (Lsn (structure_base s))) ?data fresh_dir"
    have b: "structure_bytes crc s = (?data, recs_of ps, ps, None)" using sb False by auto
    note sg = single_fresh [of "structure_base s" ?data]
    note zt = short_zero_tail [OF wf ssz refl, of crc ?tz]
    from zt(2) [OF nl] obtain seg f' where st: "settle crc \<lparr>fdata = ?data, fsynced = [], fbad = []\<rparr> (lsn_of n) True ?ssz ?mx
        (lsn_of (n + length ps - 1)) (64 + frames_size ps) = (Inr seg, f')" "max_lsn seg = lsn_of (n + length ps - 1)" by blast
    have stop: "\<forall>l k m. scan_bytes crc ?data (64 + frames_size ps) ?ssz ?mx = ScanRecord l k m \<longrightarrow>
        checked_next (lsn_of (n + length ps - 1)) \<noteq> Some l" using zt(1) by simp
    from open_image [OF cf(1) sg [folded nb(3)] wf n(2) refl stop st(1), where clock = clock] st(2) nb(3)
    obtain w d' where "open_wal crc clock cfg ?d = (Inr (w, \<lparr>report_oldest_lsn = lsn_of n, report_durable_lsn = lsn_of (n + length ps - 1),
                    report_tail_state = rec_tail_state seg, report_segments_scanned = 1\<rparr>), d')"
      "chained crc cfg w d' [word_of_nat n] [number_from n ps]" by auto
    then show ?thesis
      unfolding structure_case_eq [OF b sg refl] cfg_def [symmetric] n_def [symmetric]
      using ok_checks_intro [of crc cfg w d' n ps "length ps" ps "recs_of ps" _ None] n nl by simp
  next
    case True
    define m where "m = unat (s_target_sel s) mod length ps"
    define F where "F = frame crc (lsn_of (n + m)) (ps ! m)"
    define M where "M = apply_mutation crc F (s_mutation s) 0 (length F) (length (ps ! m)) (unat (s_byte_sel s))"
    define data where "data = seg_image crc ?h n (take m ps) (M @ frames crc (n + Suc m) (drop (Suc m) ps) @ zeros ?tz)"
    let ?off = "64 + frames_size (take m ps)" and ?f = "\<lparr>fdata = data, fsynced = [], fbad = []\<rparr>"
    let ?d = "fs_write (filename_for (Lsn (structure_base s))) data fresh_dir"
    have m: "m < length ps" using True by (simp add: m_def)
    have b: "structure_bytes crc s = (data, recs_of ps, ps, Some m)"
      using sb True by (simp add: Let_def m_def [symmetric] data_def M_def F_def)
    have off: "fst (recs_of ps ! m) = ?off" using m by (simp add: recs_of_def)
    have "mismatched crc (drop ?off data)" if "s_mutation s \<noteq> FlipCrc" "s_mutation s \<noteq> ReservedRecType"
      using det that by (simp add: detected_def b off)
    note ch = changed_record [OF wf m mu [OF conjunct1 [OF True]] F_def M_def data_def this]
    note sg = single_fresh [of "structure_base s" data]
    note wt = seg_wf_take [OF wf, of m]
    have lt: "length (take m ps) = m" using m by simp
    have nx: "checked_next (lsn_of (n + m - 1)) = Some (lsn_of (n + m))"
      using n nl m checked_next_lsn_of [of "n + m - 1"] by simp
    note st = settle_invalid [of crc ?f ?off ?ssz ?mx "lsn_of (n + m - 1)" "lsn_of (n + m)" "lsn_of n" True, OF _ nx]
    have stop: "\<forall>l k q. scan_bytes crc (seg_image crc ?h n (take m ps) (M @ frames crc (n + Suc m) (drop (Suc m) ps) @ zeros ?tz)) ?off ?ssz ?mx
        = ScanRecord l k q \<longrightarrow> checked_next (lsn_of (n + length (take m ps) - 1)) \<noteq> Some l"
      using ch(1) by (simp add: data_def)
    note op = open_image [OF cf(1) sg [folded nb(3), unfolded data_def] wt n(2) refl stop, folded data_def, unfolded lt, where clock = clock]
    show ?thesis
    proof (cases "Suc m < length ps")
      case int: True
      have va: "valid_ahead crc data ?ssz ?mx ?off (lsn_of (n + m))"
        by (rule changed_interior [OF wf int ch(2) ssz' data_def])
      have "settle crc ?f (lsn_of n) True ?ssz ?mx (lsn_of (n + m - 1)) ?off = (Inl (TornMidLog (lsn_of n) ?off), ?f)"
        using st ch(1) va by simp
      from op [OF this] obtain d' where "open_wal crc clock cfg ?d = (Inl (TornMidLog (lsn_of n) ?off), d')" using nb(3) by auto
      then show ?thesis
        unfolding structure_case_eq [OF b sg refl] cfg_def [symmetric] n_def [symmetric]
        using int by (simp add: err_checks_def invalidates_def)
    next
      case False
      then have ml: "m = length ps - 1" using m by simp
      have "\<not> valid_ahead crc data ?ssz ?mx ?off (lsn_of (n + m))"
      proof
        assume "valid_ahead crc data ?ssz ?mx ?off (lsn_of (n + m))"
        moreover have "?off + 8 \<le> u64_max" using wt ssz by (simp add: seg_wf_def)
        ultimately obtain i l k q where "scan_bytes crc data (?off + 8 * Suc i) ?ssz ?mx = ScanRecord l k q" "lsn_of (n + m) \<le> l"
          unfolding valid_ahead_def by (auto simp: saturating_add_exact add.assoc)
        moreover from this(1) have "lsn_nat l < n + m"
          using emb ml off unfolding nothing_embedded_def b prod.case cfg_def n_def by (metis length_recs_of)
        ultimately show False using n nl m by (simp add: lsn_le_iff)
      qed
      then have "settle crc ?f (lsn_of n) True ?ssz ?mx (lsn_of (n + m - 1)) ?off =
          (Inr \<lparr>max_lsn = lsn_of (n + m - 1), rec_write_offset = ?off, rec_tail_state = TruncatedAt (lsn_of n) ?off\<rparr>, zeroed ?f ?off ?ssz)"
        using st ch(1) by simp
      from op [OF this] nb(3) obtain w d' where
        "open_wal crc clock cfg ?d = (Inr (w, \<lparr>report_oldest_lsn = lsn_of n, report_durable_lsn = lsn_of (n + m - 1),
                    report_tail_state = TruncatedAt (lsn_of n) ?off, report_segments_scanned = 1\<rparr>), d')"
        "chained crc cfg w d' [word_of_nat n] [number_from n (take m ps)]" by auto
      then show ?thesis
        unfolding structure_case_eq [OF b sg refl] cfg_def [symmetric] n_def [symmetric]
        using ok_checks_intro [of crc cfg w d' n "take m ps" m ps "recs_of ps" _ "Some m"] n nl m ml off by simp
    qed
  qed
qed

section \<open>The duplicate is refused\<close>

lemma put_all_frames:
  "put_all crc base (zip [i ..< i + length ps] ps) bs = bs @ frames crc (unat base + i) ps"
proof (induction ps arbitrary: i bs)
  case (Cons p ps)
  have "Lsn (base + of_nat i) = lsn_of (unat base + i)" by (simp add: lsn_of_def)
  moreover have "zip [i ..< i + length (p # ps)] (p # ps) = (i, p) # zip [Suc i ..< Suc i + length ps] ps"
    by (simp add: upt_conv_Cons del: upt_Suc)
  ultimately show ?case
    using Cons.IH [of "Suc i" "bs @ frame crc (lsn_of (unat base + i)) p"]
    by (simp add: encode_record_into_def encode_into_eq)
qed simp

lemma framed_size_mono: "a \<le> b \<Longrightarrow> framed_size a \<le> framed_size b"
proof -
  assume "a \<le> b"
  moreover obtain x y where "framed_size a = 8 * x" "framed_size b = 8 * y"
    using framed_size_mod8 [of a] framed_size_mod8 [of b] by (auto simp: mod_eq_0_iff_dvd elim!: dvdE)
  moreover have "framed_size a \<le> a + 27" "20 + b \<le> framed_size b" by (rule framed_size_bounds)+
  ultimately have "x < Suc y" by linarith
  then show ?thesis using \<open>framed_size a = 8 * x\<close> \<open>framed_size b = 8 * y\<close> by simp
qed

lemma shrink_prefix: "\<exists>k \<le> length plens. shrink seg dl plens = take k plens"
proof (induction seg dl plens rule: shrink.induct)
  case (1 seg dl plens)
  show ?case
  proof (cases "plens \<noteq> [] \<and> 64 + sum_list (map target_framed_size plens) + target_framed_size dl > seg")
    case True
    with 1 obtain k where "k \<le> length (butlast plens)" "shrink seg dl (butlast plens) = take k (butlast plens)" by blast
    moreover from this(1) have "take k (butlast plens) = take k plens" by (simp add: butlast_conv_take min_absorb1)
    ultimately show ?thesis using True by (subst shrink.simps) (auto intro!: exI [of _ k])
  qed (subst shrink.simps, auto intro!: exI [of _ "length plens"])
qed

lemma shrink_fits:
  "shrink seg dl plens = [] \<or> 64 + sum_list (map target_framed_size (shrink seg dl plens)) + target_framed_size dl \<le> seg"
proof (induction seg dl plens rule: shrink.induct)
  case (1 seg dl plens)
  then show ?case by (subst (1 2) shrink.simps) auto
qed

lemma dup_payload_length:
  assumes "i < length (dup_plens s cfg)"
  shows "length (dup_payload s i (dup_plens s cfg ! i)) = dup_plens s cfg ! i"
  using assms by (auto simp: dup_plens_def dup_payload_def Let_def split: if_splits)

lemma dup_plens_bound: "l \<in> set (dup_plens s cfg) \<Longrightarrow> l \<le> unat (cfg_max_record_size cfg)"
  by (auto simp: dup_plens_def Let_def split: if_splits)

lemma length_dup_plens: "0 < length (dup_plens s cfg)" "length (dup_plens s cfg) \<le> 6"
  by (auto simp: dup_plens_def Let_def)

text \<open>The run of records up to the last LSN, with zeros after it.\<close>

lemma settle_at_end:
  assumes wf: "seg_wf ssz mx h n ps" "n + length ps = Suc u64_max" "ssz + 20 \<le> u64_max"
    and f: "f = \<lparr>fdata = seg_image crc h n ps (zeros k), fsynced = [], fbad = []\<rparr>"
  shows "\<exists>ts f'. settle crc f (lsn_of n) True ssz mx (lsn_of u64_max) (64 + frames_size ps) =
      (Inr \<lparr>max_lsn = lsn_of u64_max, rec_write_offset = 64 + frames_size ps, rec_tail_state = ts\<rparr>, f')
    \<and> (ts = Clean \<or> ts = TruncatedAt (lsn_of n) (64 + frames_size ps) \<and> k < 20)"
proof -
  let ?x = "64 + frames_size ps"
  have ssz8: "ssz + 8 \<le> u64_max" using wf(3) by linarith
  note no = short_zero_tail(1) [OF wf(1) ssz8 f]
  have len: "length (h @ frames crc n ps) = ?x" and xs: "?x \<le> ssz" using wf(1) by (simp_all add: seg_wf_def)
  have fd: "fdata f = (h @ frames crc n ps) @ zeros k" by (simp add: f seg_image_def)
  have z: "drop ?x (fdata f) = zeros k" unfolding fd using len by simp
  have lf: "length (fdata f) = ?x + k" unfolding fd using len by simp
  have "k < 20" if "scan_bytes crc (fdata f) ?x ssz mx = ScanInvalid"
  proof (rule ccontr)
    assume k: "\<not> k < 20"
    have big: "\<not> ssz - ?x < 20" using that by (auto simp: scan_bytes_def)
    have "drop ?x (take ssz (fdata f)) = take (ssz - ?x) (zeros k)" by (simp add: drop_take z)
    then have "decode crc (drop ?x (take ssz (fdata f))) mx = Sentinel" using k big by (simp add: decode_Sentinel_iff)
    then show False using that by (simp add: scan_bytes_def split: if_splits)
  qed
  moreover have "saturating_add ?x 20 = ?x + 20" using xs wf(3) by (intro saturating_add_exact) linarith
  ultimately show ?thesis
    using no lf z by (cases "scan_bytes crc (fdata f) ?x ssz mx") (auto simp: settle_def Let_def)
qed

lemma control_ok:
  assumes c: "chained crc cfg w d [word_of_nat n] [number_from n ps]" and n: "n + length ps = Suc u64_max" "0 < n" "ps \<noteq> []"
    and w: "\<not> poisoned w" "staging w = []" and ts: "ts = Clean \<or> ts = TruncatedAt (lsn_of n) off \<and> tz < 20"
  shows "control_checks crc clock n off tz ps w \<lparr>report_oldest_lsn = lsn_of n, report_durable_lsn = lsn_of u64_max,
      report_tail_state = ts, report_segments_scanned = 1\<rparr> d = (True, d)"
proof -
  have "n \<le> u64_max" using n(1,3) by (cases ps) auto
  then have "run_last (Lsn (word_of_nat n - 1)) (number_from n ps) = lsn_of u64_max"
    using run_last_number_from [OF n(2), of ps] lsn_pred_of [OF n(2)] n(1) by (simp add: lsn_of_def)
  then have "checked_next (last_lsn w) = None" using c by (simp add: chained_def)
  then have "wal_append crc [] w = (Inl LsnExhausted, w)" using w by (simp add: wal_append_def)
  moreover have "commit crc clock null_on_durable w d = (Inr (durable_lsn w), w, d)" using w by (simp add: commit_def)
  moreover have "target_replay crc w d = number_nat n ps" by (rule target_replay_chained [OF c]) (simp add: n)
  moreover have "number_nat n ps ! i = (n + i, ps ! i)" if "i < length ps" for i using that by (simp add: number_nat_def)
  moreover have "length (number_nat n ps) = length ps" by (simp add: number_nat_def)
  ultimately show ?thesis using ts by (auto simp: control_checks_def Let_def list_all_length)
qed

lemma dup_core:
  assumes c: "cfg_ok cfg" "unat (cfg_segment_size cfg) + 20 \<le> u64_max"
    and wf: "seg_wf (unat (cfg_segment_size cfg)) (unat (cfg_max_record_size cfg)) (header_of crc n) n ps"
    and n: "n + length ps = Suc u64_max" "ps \<noteq> []" and bs: "bs = seg_image crc (header_of crc n) n ps []"
    and dup: "length dup \<le> unat (cfg_max_record_size cfg)" "64 + frames_size ps + framed_size (length dup) \<le> unat (cfg_segment_size cfg)"
  shows "\<exists>w report d. open_wal crc clock cfg (fs_write (filename_for (lsn_of n)) (bs @ zeros tz) fresh_dir) = (Inr (w, report), d)
    \<and> control_checks crc clock n (length bs) tz ps w report d = (True, d)
    \<and> (\<exists>d2 reason peak. probed_open crc clock cfg
          (fs_write (filename_for (lsn_of n)) (bs @ frame crc (lsn_of u64_max) dup @ zeros tz) (drop_handle d)) 0 =
          (Some (Inl (Corruption (lsn_of n) (length bs) reason), d2), peak) \<and> peak \<le> scan_bound (unat (cfg_max_record_size cfg)))"
proof -
  let ?ssz = "unat (cfg_segment_size cfg)" and ?mx = "unat (cfg_max_record_size cfg)" and ?h = "header_of crc n" and ?b = "word_of_nat n :: u64"
  let ?x = "64 + frames_size ps"
  have n0: "0 < n" "n \<le> u64_max" using wf by (simp_all add: seg_wf_def)
  have b: "Lsn ?b = lsn_of n" by (simp add: lsn_of_def)
  have x: "length bs = ?x" using wf by (simp add: bs length_seg_image seg_wf_def)
  have lv: "n + length ps - 1 = u64_max" using n(1) by simp
  have stop: "\<forall>l k m. scan_bytes crc (seg_image crc ?h n ps r) ?x ?ssz ?mx = ScanRecord l k m \<longrightarrow> checked_next (lsn_of (n + length ps - 1)) \<noteq> Some l" for r
    unfolding lv by simp
  have im: "bs @ r = seg_image crc ?h n ps r" for r by (simp add: bs seg_image_def)
  from settle_at_end [OF wf n(1) c(2) refl, of crc tz] obtain ts f' where
    st: "settle crc \<lparr>fdata = seg_image crc ?h n ps (zeros tz), fsynced = [], fbad = []\<rparr> (lsn_of n) True ?ssz ?mx (lsn_of (n + length ps - 1)) ?x =
      (Inr \<lparr>max_lsn = lsn_of u64_max, rec_write_offset = ?x, rec_tail_state = ts\<rparr>, f')"
    and ts: "ts = Clean \<or> ts = TruncatedAt (lsn_of n) ?x \<and> tz < 20" unfolding lv by blast
  from open_image [OF c(1) single_fresh wf n0(2) refl stop st, where clock = clock] obtain w d where
    o: "open_wal crc clock cfg (fs_write (filename_for (lsn_of n)) (bs @ zeros tz) fresh_dir) =
      (Inr (w, \<lparr>report_oldest_lsn = lsn_of n, report_durable_lsn = lsn_of u64_max, report_tail_state = ts, report_segments_scanned = 1\<rparr>), d)"
    and ch: "chained crc cfg w d [?b] [number_from n ps]" and w: "\<not> poisoned w" "staging w = []"
    unfolding im b by auto
  note ck = control_ok [OF ch n(1) n0(1) n(2) w ts, folded x, of clock]
  let ?r = "frame crc (lsn_of u64_max) dup @ zeros tz"
  have "scan_bytes crc ((?h @ frames crc n ps) @ frame crc (lsn_of u64_max) dup @ zeros tz) (length (?h @ frames crc n ps)) ?ssz ?mx
      = ScanRecord (lsn_of u64_max) (length dup) (framed_size (length dup))"
    by (rule scan_bytes_frame) (use dup wf in \<open>simp_all add: seg_wf_def\<close>)
  then have "scan_bytes crc (seg_image crc ?h n ps ?r) ?x ?ssz ?mx = ScanRecord (lsn_of u64_max) (length dup) (framed_size (length dup))"
    by (simp add: seg_image_def)
  then have st2: "settle crc \<lparr>fdata = seg_image crc ?h n ps ?r, fsynced = [], fbad = []\<rparr> (lsn_of n) True ?ssz ?mx (lsn_of (n + length ps - 1)) ?x =
      (Inl (Corruption (lsn_of n) ?x ''data after the last LSN (u64::MAX)''), \<lparr>fdata = seg_image crc ?h n ps ?r, fsynced = [], fbad = []\<rparr>)"
    unfolding lv by (simp add: settle_def Let_def)
  have sg: "single (fs_write (filename_for (Lsn ?b)) (seg_image crc ?h n ps ?r) (drop_handle d)) ?b (seg_image crc ?h n ps ?r)"
    by (rule single_rewrite) (use ch in \<open>simp_all add: chained_def\<close>)
  from open_image [OF c(1) sg wf n0(2) refl stop st2, where clock = clock] obtain d2 where
    o2: "open_wal crc clock cfg (fs_write (filename_for (lsn_of n)) (bs @ ?r) (drop_handle d)) =
      (Inl (Corruption (lsn_of n) (length bs) ''data after the last LSN (u64::MAX)''), d2)"
    unfolding im b x by auto
  obtain peak where "probed_open crc clock cfg (fs_write (filename_for (lsn_of n)) (bs @ ?r) (drop_handle d)) 0 =
      (Some (open_wal crc clock cfg (fs_write (filename_for (lsn_of n)) (bs @ ?r) (drop_handle d))), peak)"
    "peak \<le> max 0 (scan_bound ?mx)" using probed_open_within by (rule same_withinE)
  with o o2 ck show ?thesis by (intro exI conjI) simp_all
qed

lemma dup_max_ok: "dup_max_case crc clock s"
proof -
  define cfg where "cfg = structure_config s"
  define tz where "tz = unat (s_trailing_zeros s)"
  define plens0 where "plens0 = dup_plens s cfg"
  define dl where "dl = plens0 ! (unat (s_byte_sel s) mod length plens0)"
  define plens where "plens = shrink (unat (cfg_segment_size cfg)) dl plens0"
  let ?ssz = "unat (cfg_segment_size cfg)" and ?mx = "unat (cfg_max_record_size cfg)"
  note cf = structure_config_facts [of s, folded cfg_def]
  show ?thesis
  proof (cases "plens = []")
    case True
    then show ?thesis
      by (simp add: dup_max_case_def Let_def cfg_def [symmetric] plens0_def [symmetric] dl_def [symmetric] plens_def [symmetric])
  next
    case False
    define k where "k = length plens"
    define base where "base = (- 1 - (of_nat k - 1) :: u64)"
    define n where "n = Suc u64_max - k"
    define origs where "origs = map (\<lambda>(i, l). dup_payload s i l) (zip [0 ..< k] plens)"
    define dup where "dup = dup_payload s (unat (s_byte_sel s) mod k) dl"
    obtain j where j: "j \<le> length plens0" "plens = take j plens0" using shrink_prefix unfolding plens_def by blast
    have k: "0 < k" "k \<le> 6" using False j length_dup_plens [of s cfg] by (auto simp: k_def plens0_def)
    have kn: "n + k = Suc u64_max" "0 < n" using k by (simp_all add: n_def u64_max_def)
    have "(of_nat n + of_nat k :: u64) = of_nat (Suc u64_max)" unfolding kn(1) [symmetric] by (rule of_nat_add [symmetric])
    also have "\<dots> = 0" by (simp add: u64_max_def)
    finally have "of_nat k + of_nat n = (0 :: u64)" by (simp only: add.commute)
    then have "- of_nat k = (of_nat n :: u64)" by (rule minus_unique)
    then have "base = of_nat n" by (simp add: base_def)
    moreover have "n \<le> u64_max" using kn k by simp
    ultimately have ub: "unat base = n" by (simp add: unat_base)
    have len: "map length origs = plens"
    proof (rule nth_equalityI)
      show "length (map length origs) = length plens" by (simp add: origs_def k_def)
      fix i assume "i < length (map length origs)"
      then have i: "i < k" by (simp add: origs_def k_def)
      then have "i < length plens0" "plens ! i = plens0 ! i" using j by (auto simp: k_def)
      with dup_payload_length [of i s cfg] i show "map length origs ! i = plens ! i"
        by (simp add: origs_def k_def plens0_def)
    qed
    then have lo: "length origs = k" by (metis k_def length_map)
    have fs: "frames_size ps = sum_list (map framed_size (map length ps))" for ps by (induction ps) simp_all
    have tf: "target_framed_size = framed_size" by (rule ext) (rule target_framed_size_eq)
    have fit: "64 + frames_size origs + framed_size dl \<le> ?ssz"
      using shrink_fits [of ?ssz dl plens0] False
      by (simp add: plens_def [symmetric] fs len tf)
    have dl: "dl \<in> set plens0" using length_dup_plens(1) [of s cfg] by (simp add: dl_def plens0_def)
    have mx: "l \<le> ?mx" if "l \<in> set plens0" for l using dup_plens_bound [of l s cfg] that by (simp add: plens0_def)
    have "length p \<le> ?mx" if "p \<in> set origs" for p
    proof -
      have "length p \<in> set plens" using that len by (metis image_eqI set_map)
      then show ?thesis using mx j by (metis in_set_takeD)
    qed
    then have wf: "seg_wf ?ssz ?mx (header_of crc n) n origs"
      using kn fit lo k unat_u32_le [of "cfg_max_record_size cfg"] by (simp add: seg_wf_def payloads_ok_def list_all_iff)
    have ld: "length dup \<le> dl" by (simp add: dup_def dup_payload_def)
    then have "framed_size (length dup) \<le> framed_size dl" by (rule framed_size_mono)
    then have d2: "length dup \<le> ?mx" "64 + frames_size origs + framed_size (length dup) \<le> ?ssz" using fit ld mx [OF dl] by simp_all
    have pa: "put_all crc base (zip [0 ..< k] origs) (segment_header_bytes crc base) = seg_image crc (header_of crc n) n origs []"
      using put_all_frames [of crc base 0 origs] lo
      by (simp add: seg_image_def segment_header_bytes_def ub) (simp add: lsn_of_def ub [symmetric])
    have name: "pad_dec 20 n @ ''.wal'' = filename_for (lsn_of n)"
      by (simp add: filename_for_def lsn_of_def ub [symmetric])
    have last: "Lsn (- 1) = lsn_of u64_max" by (simp add: lsn_of_def u64_max_def)
    have "?ssz + 20 \<le> u64_max" using cf by (simp add: u64_max_def)
    from dup_core [OF cf(1) this wf _ _ refl d2, of clock tz] kn lo k obtain w report d d2 reason peak where
      "open_wal crc clock cfg (fs_write (filename_for (lsn_of n)) (seg_image crc (header_of crc n) n origs [] @ zeros tz) fresh_dir) = (Inr (w, report), d)"
      "control_checks crc clock n (length (seg_image crc (header_of crc n) n origs [])) tz origs w report d = (True, d)"
      "probed_open crc clock cfg (fs_write (filename_for (lsn_of n))
          (seg_image crc (header_of crc n) n origs [] @ frame crc (lsn_of u64_max) dup @ zeros tz) (drop_handle d)) 0 =
        (Some (Inl (Corruption (lsn_of n) (length (seg_image crc (header_of crc n) n origs [])) reason), d2), peak)"
      "peak \<le> scan_bound ?mx" by auto
    moreover have "n \<le> u64_max" using kn k by simp
    ultimately show ?thesis
      using False
      unfolding dup_max_case_def Let_def cfg_def [symmetric] plens0_def [symmetric] dl_def [symmetric] plens_def [symmetric]
        k_def [symmetric] base_def [symmetric] origs_def [symmetric] tz_def [symmetric] dup_def [symmetric] pa ub name
      by (simp add: encode_record_into_def encode_into_eq last probe_reset_def)
  qed
qed

section \<open>The target passes\<close>

text \<open>C22. The structure target passes on every scenario in which the checksum detects the change
  and no payload embeds a record that continues the log: an unchanged log is recovered whole, a
  change to the last record truncates exactly it and reopens cleanly, a change before it is
  refused as \<open>TornMidLog\<close> or \<open>Corruption\<close>, and a duplicate of the last LSN is refused on every
  scenario, without a condition.\<close>

theorem structure_target_passes:
  assumes "s_mutate s \<and> s_mutation s = DuplicateMaxLsn \<or> detected crc s \<and> nothing_embedded crc s"
  shows "structure_target crc clock s"
  using assms structure_case_ok [of crc s clock] dup_max_ok [of crc clock s] by (auto simp: structure_target_def)

definition ex_scenario :: structure_scenario where
  "ex_scenario = \<lparr>s_base = 4, s_seg_big = False, s_max_sel = 8, s_payloads = [[1]], s_mutate = True, s_mutation = FlipCrc,
     s_target_sel = 0, s_byte_sel = 0, s_trailing_zeros = 0\<rparr>"

theorem structure_target_passes_witness: "structure_target csum ex_clock ex_scenario"
proof -
  obtain data where b: "structure_bytes csum ex_scenario = (data, [(64, 24, 1)], [[1]], Some 0)" "length data = 88"
    by (auto simp: structure_bytes_def ex_scenario_def structure_config_def structure_base_def Let_def segment_header_bytes_def
        encode_record_into_def encode_into_eq target_framed_size_def pad_for_def framed_size_def padding_for_def flip_def)
  have "detected csum ex_scenario" by (simp add: detected_def b(1) ex_scenario_def)
  moreover have "nothing_embedded csum ex_scenario"
    unfolding nothing_embedded_def b(1) prod.case using scan_record_type_byte b(2) by fastforce
  ultimately show ?thesis using structure_target_passes [of ex_scenario csum ex_clock] by blast
qed

end
