(* ===== verification/Wal_Lifetime.thy ===== *)
theory Wal_Lifetime
  imports Wal_Guarantees
begin

text \<open>
  The whole life of a log: the states reachable from a fresh directory by any sequence of
  operations, failures and crashes, scripts of commands against the contract, and the files
  that an interrupted creation leaves behind.
\<close>

section \<open>Lives\<close>

text \<open>
  A log lives through phases. In \<open>Working\<close> a handle that is not poisoned serves the log; a commit or
  checkpoint that fails, at any of its system calls and after any partial effect of that call,
  leads to \<open>Failed n\<close>, where records up to LSN \<open>n\<close> were to be deleted (none by a commit). A process that dies in the middle of an operation leaves the disk
  of an operation that failed there, so a crash inside an operation is a failed call and a
  \<open>crash\<close>. After it the directory is opened again. When the new handle has the watermark of the
  old one and the disk is clean (the directory synced, the active file synced, of full size and
  zero behind the write offset), the log works on; otherwise, with unacknowledged records found or
  with bytes left behind its end, the log is \<open>Recovered\<close>: it can be read and reopened. Writing to
  such a log is not part of a life: stale bytes can then come back as records.
\<close>

datatype phase = Working | Failed nat | Recovered

definition clean_disk :: "'o wal \<Rightarrow> disk \<Rightarrow> bool" where
  "clean_disk w d \<longleftrightarrow> names_settled d
     \<and> (\<exists>f. map_of (entries d) (active w) = Some f \<and> fsynced f = fdata f \<and> length (fdata f) = unat (segment_size w)
          \<and> all_zero (drop (write_offset w) (fdata f)))"

inductive life :: "(bytes \<Rightarrow> u32) \<Rightarrow> (lsn \<Rightarrow> 'o \<Rightarrow> 'o) \<Rightarrow> phase \<Rightarrow> 'o wal \<Rightarrow> disk \<Rightarrow> bool" for crc on_durable where
  fresh: "life crc on_durable Working w d" if
    "open_seeded crc clock cfg ob seed d0 = (Inr (w, rep), d)" "has_segs [] d0" "names_settled d0"
    "dfaults d0 = []" "\<not> lock_held d0"
| weather: "life crc on_durable ph w (d\<lparr>dfaults := fs\<rparr>)" if "life crc on_durable ph w d"
| appended: "life crc on_durable ph w' d" if
    "life crc on_durable ph w d" "ph \<noteq> Recovered" "wal_append crc p w = (res, w')"
| committed: "life crc on_durable Working w' d'" if
    "life crc on_durable Working w d" "commit crc clock on_durable w d = (Inr l, w', d')"
| commit_failed: "life crc on_durable (Failed 0) w' d'" if
    "life crc on_durable Working w d" "commit crc clock on_durable w d = (Inl e, w', d')"
| checkpointed: "life crc on_durable Working w' d'" if
    "life crc on_durable Working w d" "checkpoint up_to w d = (Inr u, w', d')"
| checkpoint_failed: "life crc on_durable (Failed (lsn_nat up_to)) w' d'" if
    "life crc on_durable Working w d" "checkpoint up_to w d = (Inl e, w', d')"
| commit_refused: "life crc on_durable (Failed n) w' d'" if
    "life crc on_durable (Failed n) w d" "commit crc clock on_durable w d = (res, w', d')"
| checkpoint_refused: "life crc on_durable (Failed n) w' d'" if
    "life crc on_durable (Failed n) w d" "checkpoint up_to w d = (res, w', d')"
| restarted: "life crc on_durable Working w' d2" if
    "life crc on_durable Working w d" "crash d d1" "dfaults d1 = []"
    "open_seeded crc clock (config_of w) ob seed d1 = (Inr (w', rep), d2)"
| recovered: "life crc on_durable Recovered w' d2" if
    "life crc on_durable (Failed n) w d" "crash d d1" "dfaults d1 = []"
    "open_seeded crc clock (config_of w) ob seed d1 = (Inr (w', rep), d2)"
| repaired: "life crc on_durable Working w' d2" if
    "life crc on_durable (Failed n) w d" "crash d d1" "dfaults d1 = []"
    "open_seeded crc clock (config_of w) ob seed d1 = (Inr (w', rep), d2)"
    "durable_lsn w' = durable_lsn w" "clean_disk w' d2"
| reopened: "life crc on_durable Recovered w' d2" if
    "life crc on_durable Recovered w d" "entries d1 = entries d" "\<not> lock_held d1" "dfaults d1 = []"
    "open_seeded crc clock (config_of w) ob seed d1 = (Inr (w', rep), d2)"

text \<open>What holds after a failure: whatever crash follows, the directory is refused or reopens to the
  acknowledged log, from which only records up to LSN \<open>n\<close> may be missing at the front.\<close>

definition recoverable :: "(bytes \<Rightarrow> u32) \<Rightarrow> nat \<Rightarrow> 'o wal \<Rightarrow> disk \<Rightarrow> bool" where
  "recoverable crc n w d \<longleftrightarrow> (\<exists>ss. wal_core crc (w\<lparr>poisoned := False\<rparr>) ss
     \<and> (\<forall>clk (ob :: 'o) seed d2. crash d d2 \<longrightarrow> dfaults d2 = [] \<longrightarrow> \<not> is_none seed \<longrightarrow>
          (\<exists>ss2. segs_ok crc (unat (segment_size w)) (unat (max_record_size w)) ss2
             \<and> log_end ss2 = log_end ss \<and> log_base ss \<le> log_base ss2 \<and> log_base ss2 \<le> max (log_base ss) (Suc n)
             \<and> log_of ss2 = drop (log_base ss2 - log_base ss) (log_of ss)
             \<and> reopens crc (config_of w) ob ss2 (open_seeded crc clk (config_of w) ob seed d2))))"

lemma recoverable_dfaults [simp]: "recoverable crc n w (d\<lparr>dfaults := fs\<rparr>) = recoverable crc n w d"
proof -
  have "crash (d\<lparr>dfaults := fs\<rparr>) d2 = crash d d2" for d2 by (simp add: crash_def power_loss_def crash_entries_def)
  then show ?thesis by (simp add: recoverable_def)
qed

lemma opened_config: "open_seeded crc clock cfg ob seed d = (Inr r, d') \<Longrightarrow> cfg_ok cfg \<and> \<not> is_none seed"
  by (auto simp: open_seeded_def cfg_check split: if_splits)

lemma failed_commit_recoverable:
  assumes s: "sound crc ss staged (w :: 'o wal) d" and c: "commit crc clock on_durable w d = (Inl e, w', d')"
  shows "poisoned w' \<and> recoverable crc 0 w' d' \<and> config_of w' = config_of w"
proof -
  note sd = soundD [OF s]
  from commit_cases [OF c sd(1,2)] have "loop_failed crc clock on_durable w ss staged w' d'" by auto
  then obtain j ss' where j: "poisoned w'" "wal_core crc (w'\<lparr>poisoned := False\<rparr>) ss'"
    "interrupted crc clock (unat (segment_size w)) (unat (max_record_size w)) ss' (drop j staged) d'"
    "segment_size w' = segment_size w" "max_record_size w' = max_record_size w" by (auto simp: loop_failed_def)
  have cf: "config_of w' = config_of w" using j(4,5) by (simp add: config_of_def)
  have ok: "segs_ok crc (unat (cfg_segment_size (config_of w'))) (unat (cfg_max_record_size (config_of w'))) ss'"
    using wal_core_segs [OF j(2)] by simp
  have i: "interrupted crc clock (unat (cfg_segment_size (config_of w'))) (unat (cfg_max_record_size (config_of w'))) ss' (drop j staged) d'"
    using j(3-5) by simp
  have "\<exists>ss2. segs_ok crc (unat (segment_size w')) (unat (max_record_size w')) ss2
      \<and> log_end ss2 = log_end ss' \<and> log_base ss' \<le> log_base ss2 \<and> log_base ss2 \<le> max (log_base ss') (Suc 0)
      \<and> log_of ss2 = drop (log_base ss2 - log_base ss') (log_of ss')
      \<and> reopens crc (config_of w') ob ss2 (open_seeded crc clk (config_of w') ob seed d2)"
    if "crash d' d2" "dfaults d2 = []" "\<not> is_none seed" for clk and ob :: 'o and seed d2
  proof -
    from interrupted_reopens [OF sd(4) [folded cf] that(3,2) ok i that(1), of ob clk] obtain ss2 where
      "same_log ss' ss2" "segs_ok crc (unat (segment_size w')) (unat (max_record_size w')) ss2"
      "reopens crc (config_of w') ob ss2 (open_seeded crc clk (config_of w') ob seed d2)" by auto
    then show ?thesis by (intro exI [of _ ss2]) (simp add: same_log_def)
  qed
  then show ?thesis using j(1,2) cf unfolding recoverable_def by blast
qed

lemma dropped_base:
  assumes ch: "chain ss" and j: "j \<le> deletable ss up_to"
  shows "log_base (drop j ss) = log_base ss + length (log_of (take j ss))" "log_base (drop j ss) \<le> max (log_base ss) (Suc (lsn_nat up_to))"
    "log_of (drop j ss) = drop (length (log_of (take j ss))) (log_of ss)"
proof -
  have k: "deletable ss up_to < length ss" by (rule deletable_less) (use ch in simp)
  then have jl: "j < length ss" using j by simp
  show b: "log_base (drop j ss) = log_base ss + length (log_of (take j ss))" by (rule drop_segments(1) [OF ch jl])
  show "log_of (drop j ss) = drop (length (log_of (take j ss))) (log_of ss)"
    unfolding log_of_def by (metis append_eq_conv_conj append_take_drop_id concat_append map_append)
  show "log_base (drop j ss) \<le> max (log_base ss) (Suc (lsn_nat up_to))"
  proof (cases "j = 0")
    case False
    then have "take j ss = take (j - 1) ss @ [ss ! (j - 1)]" using jl take_Suc_conv_app_nth [of "j - 1" ss] by simp
    then have "log_base ss + length (log_of (take j ss)) = seg_end (ss ! (j - 1))"
      using chain_take_end [OF ch, of "j - 1"] jl by (simp add: log_of_def seg_end_def)
    moreover have "seg_end (ss ! (j - 1)) \<le> Suc (lsn_nat up_to)" by (rule deletable_deleted [OF ch]) (use j False in simp)
    ultimately show ?thesis using b by simp
  qed simp
qed

lemma failed_checkpoint_recoverable:
  assumes s: "sound crc ss staged (w :: 'o wal) d" and c: "checkpoint up_to w d = (Inl e, w', d')"
  shows "poisoned w' \<and> recoverable crc (lsn_nat up_to) w' d' \<and> config_of w' = config_of w"
proof -
  note sd = soundD [OF s]
  have ch: "chain ss" using sd(3) by (simp add: segs_ok_def)
  have w': "w' = w\<lparr>poisoned := True\<rparr>" using checkpoint_cases [OF c sd(1,2)] by auto
  have cf: "config_of w' = config_of w" by (simp add: w' config_of_def)
  have sz: "segment_size w' = segment_size w" "max_record_size w' = max_record_size w" by (simp_all add: w')
  have "w'\<lparr>poisoned := False\<rparr> = w" using sd(5) by (simp add: w')
  then have core: "wal_core crc (w'\<lparr>poisoned := False\<rparr>) ss" using sd(1) by (simp add: wal_inv_def)
  have "\<exists>ss2. segs_ok crc (unat (segment_size w')) (unat (max_record_size w')) ss2
      \<and> log_end ss2 = log_end ss \<and> log_base ss \<le> log_base ss2 \<and> log_base ss2 \<le> max (log_base ss) (Suc (lsn_nat up_to))
      \<and> log_of ss2 = drop (log_base ss2 - log_base ss) (log_of ss)
      \<and> reopens crc (config_of w') ob ss2 (open_seeded crc clk (config_of w') ob seed d2)"
    if "crash d' d2" "dfaults d2 = []" "\<not> is_none seed" for clk and ob :: 'o and seed d2
  proof -
    from checkpoint_crash_reopens [OF s c that, of ob clk] obtain j where j: "j \<le> deletable ss up_to" "j < length ss"
      "segs_ok crc (unat (segment_size w)) (unat (max_record_size w)) (drop j ss)"
      "reopens crc (config_of w) ob (drop j ss) (open_seeded crc clk (config_of w) ob seed d2)" by (meson le_less_trans)
    have "log_end (drop j ss) = log_end ss" using j(2) by (simp add: log_end_def)
    then show ?thesis unfolding cf sz using j(3,4) dropped_base [OF ch j(1)] by (intro exI [of _ "drop j ss"]) simp
  qed
  then show ?thesis using core cf unfolding recoverable_def by (auto simp: w')
qed

text \<open>A log that was reopened on a clean disk with the old watermark is as good as new.\<close>

lemma seg_map_in: "distinct (map seg_name ss) \<Longrightarrow> s \<in> set ss \<Longrightarrow> map_of (seg_map crc ssz ss) (seg_name s) = Some (seg_file crc ssz s)"
  by (rule map_of_is_SomeI) (auto simp: seg_map_def comp_def)

lemma clean_image:
  assumes "seg_wf ssz mx h n ps" "xs = seg_image crc h n ps r" "length xs = ssz" "all_zero (drop (64 + frames_size ps) xs)"
  shows "xs = seg_bytes crc h n ps ssz"
proof -
  have "drop (64 + frames_size ps) xs = r" "length r = ssz - 64 - frames_size ps"
    using assms(1,3) by (simp_all add: assms(2) seg_image_def seg_wf_def)
  then have "r = zeros (ssz - 64 - frames_size ps)"
    using assms(4) by (simp add: all_zero_def list_all_iff replicate_eqI)
  then show ?thesis by (simp add: assms(2) seg_bytes_def)
qed

lemma serves_clean_sound:
  assumes sv: "serves crc cfg ob ss w rep d" and c: "cfg_ok cfg" "clean_disk w d" "durable_lsn w = lsn_of (log_end ss - 1)"
    and ok: "segs_ok crc (unat (cfg_segment_size cfg)) (unat (cfg_max_record_size cfg)) ss"
  shows "sound crc ss [] w d"
proof -
  let ?ssz = "unat (cfg_segment_size cfg)" and ?s = "last ss"
  have s: "survives crc ?ssz ss d" "segments w = map (\<lambda>s. lsn_of (sg_base s)) ss" "oldest_lsn w = lsn_of (log_base ss)"
    "segment_size w = cfg_segment_size cfg" "max_record_size w = cfg_max_record_size cfg" "staging w = []" "\<not> poisoned w"
    "last_lsn w = durable_lsn w" "active w = seg_name ?s" "write_offset w = 64 + frames_size (sg_log ?s)"
    using sv c(3) by (simp_all add: serves_def)
  have wf: "seg_wf ?ssz (unat (cfg_max_record_size cfg)) (sg_header ?s) (sg_base ?s) (sg_log ?s)"
    using segs_ok_last(1) [OF ok] by (simp add: seg_ok_def)
  have sne: "ss \<noteq> []" by (rule segs_ok_last(4) [OF ok])
  obtain f r where f: "map_of (entries d) (seg_name ?s) = Some f" "healthy f"
    and im: "fdata f = seg_image crc (sg_header ?s) (sg_base ?s) (sg_log ?s) r" using s(1) by (auto simp: survives_def)
  have cl: "names_settled d" "fsynced f = fdata f" "length (fdata f) = ?ssz" "all_zero (drop (64 + frames_size (sg_log ?s)) (fdata f))"
    using c(2) f(1) s(4,9,10) by (auto simp: clean_disk_def)
  have "f = seg_file crc ?ssz ?s"
    using clean_image [OF wf im cl(3,4)] f(2) cl(2) by (cases f) (simp add: seg_file_def disk_file_def healthy_def)
  then have all: "map_of (entries d) (seg_name t) = Some (seg_file crc ?ssz t)" if "t \<in> set ss" for t
    using that f(1) s(1) sne append_butlast_last_id [OF sne]
    by (metis Un_iff empty_iff insert_iff list.simps(15) list.set(1) sealed_ok_def set_append survives_def)
  have hs: "distinct (map fst (entries d))" "\<And>n. is_seg_name n \<Longrightarrow> n \<in> fst ` set (entries d) \<longleftrightarrow> n \<in> seg_name ` set ss"
    using s(1) by (simp_all add: survives_def has_segs_def)
  have "map_of (entries d) n = map_of (seg_map crc ?ssz ss) n" if n: "is_seg_name n" for n
  proof (cases "n \<in> seg_name ` set ss")
    case True
    then show ?thesis using all seg_map_in [OF seg_names_distinct [OF ok]] by auto
  next
    case False
    then have "n \<notin> fst ` set (entries d)" "n \<notin> fst ` set (seg_map crc ?ssz ss)" using hs(2) [OF n] by (auto simp: seg_map_def)
    then show ?thesis by (simp add: map_of_eq_None_iff [THEN iffD2])
  qed
  then have "holds crc ?ssz ss d" using hs(1) cl(1) by (simp add: holds_def)
  moreover have "wal_inv crc w ss []"
    using ok c(1,3) s(2-10) segs_ok_last(3) [OF ok]
    by (simp add: wal_inv_def wal_core_def wal_staged_def cfg_ok_def)
  ultimately show ?thesis using s(4) by (simp add: sound_def)
qed

definition life_inv :: "(bytes \<Rightarrow> u32) \<Rightarrow> phase \<Rightarrow> 'o wal \<Rightarrow> disk \<Rightarrow> bool" where
  "life_inv crc ph w d \<longleftrightarrow> lock_held d \<and> cfg_ok (config_of w)
     \<and> (case ph of
          Working \<Rightarrow> \<exists>ss staged. sound crc ss staged w d
        | Failed n \<Rightarrow> poisoned w \<and> recoverable crc n w d
        | Recovered \<Rightarrow> \<exists>ss (ob :: 'o) rep. segs_ok crc (unat (segment_size w)) (unat (max_record_size w)) ss
            \<and> serves crc (config_of w) ob ss w rep (d\<lparr>dfaults := []\<rparr>))"

lemma life_inv_sound: "sound crc ss staged w d \<Longrightarrow> lock_held d \<Longrightarrow> life_inv crc Working w d"
  using soundD(4) by (auto simp: life_inv_def)

lemma life_inv_weather: "life_inv crc ph w d \<Longrightarrow> life_inv crc ph w (d\<lparr>dfaults := fs\<rparr>)"
  by (cases ph) (auto simp: life_inv_def sound_def)

lemma life_inv_poisoned: "life_inv crc (Failed n) w d \<Longrightarrow> poisoned w"
  by (simp add: life_inv_def)

lemma life_inv_append:
  assumes "life_inv crc ph w d" "ph \<noteq> Recovered" "wal_append crc p w = (res, w')"
  shows "life_inv crc ph w' d"
proof (cases ph)
  case Working
  then obtain ss staged where s: "sound crc ss staged w d" "lock_held d" using assms(1) by (auto simp: life_inv_def)
  note sd = soundD [OF s(1)]
  have "\<exists>staged. sound crc ss staged w' d"
  proof (cases "unat (max_record_size w) < length p")
    case True
    then show ?thesis using append_too_large [OF sd(5) True, of crc] assms(3) s by auto
  next
    case False
    then show ?thesis using append_inv [OF sd(1), of p] assms(3) s by (auto simp: sound_def split: if_splits)
  qed
  then show ?thesis using s(2) Working life_inv_sound by blast
next
  case (Failed n)
  then have "w' = w" using assms life_inv_poisoned [of crc n w d] by (auto simp: wal_append_def)
  then show ?thesis using assms(1) by simp
qed (use assms(2) in simp)

lemma life_inv_commit:
  assumes "life_inv crc Working w d" "commit crc clock on_durable w d = (res, w', d')"
  shows "life_inv crc (if \<exists>l. res = Inr l then Working else Failed 0) w' d'"
proof -
  obtain ss staged where s: "sound crc ss staged w d" "lock_held d" using assms(1) by (auto simp: life_inv_def)
  have l: "lock_held d'" using commit_lock_held [OF assms(2)] s(2) by simp
  show ?thesis
  proof (cases res)
    case (Inl e)
    then show ?thesis
      using failed_commit_recoverable [OF s(1) assms(2) [unfolded Inl]] l soundD(4) [OF s(1)] by (simp add: life_inv_def)
  next
    case (Inr x)
    then have "\<exists>ss'. sound crc ss' [] w' d'"
      using commit_cases [OF assms(2) soundD(1,2) [OF s(1)]] by (auto simp: sound_def)
    then show ?thesis using l Inr life_inv_sound by auto
  qed
qed

lemma life_inv_checkpoint:
  assumes "life_inv crc Working w d" "checkpoint up_to w d = (res, w', d')"
  shows "life_inv crc (if \<exists>u. res = Inr u then Working else Failed (lsn_nat up_to)) w' d'"
proof -
  obtain ss staged where s: "sound crc ss staged w d" "lock_held d" using assms(1) by (auto simp: life_inv_def)
  have l: "lock_held d'" using checkpoint_lock_held [OF assms(2)] s(2) by simp
  show ?thesis
  proof (cases res)
    case (Inl e)
    then show ?thesis
      using failed_checkpoint_recoverable [OF s(1) assms(2) [unfolded Inl]] l soundD(4) [OF s(1)] by (simp add: life_inv_def)
  next
    case (Inr x)
    then have "\<exists>ss'. sound crc ss' staged w' d'"
      using checkpoint_cases [OF assms(2) soundD(1,2) [OF s(1)]] by (auto simp: sound_def)
    then show ?thesis using l Inr life_inv_sound by auto
  qed
qed

lemma life_inv_refused:
  assumes "life_inv crc (Failed n) w d"
  shows "commit crc clock on_durable w d = (Inl Poisoned, w, d)" "checkpoint up_to w d = (Inl Poisoned, w, d)"
  using life_inv_poisoned [OF assms] by (simp_all add: commit_def checkpoint_def)

text \<open>Reopening after a failure and a crash.\<close>

lemma failed_reopened:
  assumes "life_inv crc (Failed n) (w :: 'o wal) d" "crash d d1" "dfaults d1 = []"
    and o: "open_seeded crc clock (config_of w) (ob :: 'o) seed d1 = (Inr (w', rep), d2)"
  shows "life_inv crc Recovered w' d2 \<and> (durable_lsn w' = durable_lsn w \<longrightarrow> clean_disk w' d2 \<longrightarrow> life_inv crc Working w' d2)"
proof -
  have c: "cfg_ok (config_of w)" "\<not> is_none seed" using opened_config [OF o] by simp_all
  from assms(1) obtain ss where core: "wal_core crc (w\<lparr>poisoned := False\<rparr>) ss"
    and cr: "\<exists>ss2. segs_ok crc (unat (segment_size w)) (unat (max_record_size w)) ss2
             \<and> log_end ss2 = log_end ss \<and> log_base ss \<le> log_base ss2 \<and> log_base ss2 \<le> max (log_base ss) (Suc n)
             \<and> log_of ss2 = drop (log_base ss2 - log_base ss) (log_of ss)
             \<and> reopens crc (config_of w) ob ss2 (open_seeded crc clock (config_of w) ob seed d1)"
    using assms(2,3) c(2) unfolding life_inv_def recoverable_def by (simp only: phase.case) blast
  then obtain ss2 where ok: "segs_ok crc (unat (segment_size w)) (unat (max_record_size w)) ss2" "log_end ss2 = log_end ss"
    and sv: "serves crc (config_of w) ob ss2 w' rep d2" using o by (auto simp: reopens_def)
  have cf: "config_of w' = config_of w" "dfaults d2 = []" "lock_held d2"
    and sz: "segment_size w' = segment_size w" "max_record_size w' = max_record_size w"
    using sv by (simp_all add: serves_def config_of_def)
  have "d2\<lparr>dfaults := []\<rparr> = d2" using cf(2) by (cases d2) simp
  then have "life_inv crc Recovered w' d2"
    using ok(1) sv cf(3) c(1) sz unfolding life_inv_def cf(1) by auto
  moreover have "life_inv crc Working w' d2" if "durable_lsn w' = durable_lsn w" "clean_disk w' d2"
  proof (rule life_inv_sound [OF serves_clean_sound [OF sv c(1) that(2)] cf(3)])
    show "durable_lsn w' = lsn_of (log_end ss2 - 1)" using core that(1) ok(2) by (simp add: wal_core_def)
  qed (use ok(1) in simp)
  ultimately show ?thesis by blast
qed

lemma life_invariant: "life crc on_durable ph w d \<Longrightarrow> life_inv crc ph w d"
proof (induction rule: life.induct)
  case (fresh clock cfg ob seed d0 w rep d)
  then have c: "cfg_ok cfg" "\<not> is_none seed" using opened_config [OF fresh(1)] by simp_all
  have "\<exists>ss. sound crc ss [] w d" "lock_held d"
    using open_cold [OF c fresh(4,5,2,3), of crc clock ob] fresh(1) by (auto simp: sound_def)
  then show ?case using life_inv_sound by blast
next
  case (weather ph w d fs)
  then show ?case using life_inv_weather by blast
next
  case (appended ph w d p res w')
  then show ?case using life_inv_append by blast
next
  case (committed w d clock l w' d')
  then show ?case using life_inv_commit [OF committed.IH committed.hyps(2)] by simp
next
  case (commit_failed w d clock e w' d')
  then show ?case using life_inv_commit [OF commit_failed.IH commit_failed.hyps(2)] by simp
next
  case (checkpointed w d up_to u w' d')
  then show ?case using life_inv_checkpoint [OF checkpointed.IH checkpointed.hyps(2)] by simp
next
  case (checkpoint_failed w d up_to e w' d')
  then show ?case using life_inv_checkpoint [OF checkpoint_failed.IH checkpoint_failed.hyps(2)] by simp
next
  case (commit_refused n w d clock res w' d')
  then show ?case using life_inv_refused(1) [OF commit_refused.IH, of clock on_durable] by simp
next
  case (checkpoint_refused n w d up_to res w' d')
  then show ?case using life_inv_refused(2) [OF checkpoint_refused.IH, of up_to] by simp
next
  case (restarted w d d1 clock ob seed w' rep d2)
  then obtain ss staged where s: "sound crc ss staged w d" by (auto simp: life_inv_def)
  have "\<not> is_none seed" using opened_config [OF restarted.hyps(4)] by blast
  from restored_on [OF s restarted.hyps(2,3) this, of ob clock] restarted.hyps(4)
  have "sound crc ss [] w' d2" "lock_held d2" by (auto simp: restored_def sound_def)
  then show ?case using life_inv_sound by blast
next
  case (recovered n w d d1 clock ob seed w' rep d2)
  then show ?case using failed_reopened [OF recovered.IH recovered.hyps(2-4)] by simp
next
  case (repaired n w d d1 clock ob seed w' rep d2)
  then show ?case using failed_reopened [OF repaired.IH repaired.hyps(2-4)] by simp
next
  case (reopened w d d1 clock ob seed w' rep d2)
  then obtain ss ob0 rep0 where ok: "segs_ok crc (unat (segment_size w)) (unat (max_record_size w)) ss"
    and sv: "serves crc (config_of w) (ob0 :: 'a) ss w rep0 (d\<lparr>dfaults := []\<rparr>)" by (auto simp: life_inv_def)
  have c: "cfg_ok (config_of w)" "\<not> is_none seed" using opened_config [OF reopened.hyps(5)] by simp_all
  have "survives crc (unat (cfg_segment_size (config_of w))) ss (d\<lparr>dfaults := []\<rparr>)" using sv by (simp add: serves_def)
  then have "survives crc (unat (cfg_segment_size (config_of w))) ss d1"
    by (rule survives_entries) (simp add: reopened.hyps(2))
  from survives_reopens [OF c reopened.hyps(4,3) _ this, of ob clock] ok reopened.hyps(5)
  have sv2: "serves crc (config_of w) ob ss w' rep d2" by (simp add: reopens_def)
  then have cf: "config_of w' = config_of w" "dfaults d2 = []" "lock_held d2"
    "segment_size w' = segment_size w" "max_record_size w' = max_record_size w" by (simp_all add: serves_def config_of_def)
  have "d2\<lparr>dfaults := []\<rparr> = d2" using cf(2) by (cases d2) simp
  then show ?case using ok sv2 cf(3-5) c(1) unfolding life_inv_def cf(1) by auto
qed

text \<open>What the segments give for the fields of a handle.\<close>

lemma segs_fields:
  assumes ok: "segs_ok crc ssz mx ss" and f: "segments w = map (\<lambda>s. lsn_of (sg_base s)) ss" "active w = seg_name (last ss)"
  shows "segments w \<noteq> []" "sorted_wrt (<) (segments w)" "active w = filename_for (last (segments w))"
    "log_end ss = log_base ss + length (log_of ss)" "log_base ss \<le> u64_max"
proof -
  have ch: "chain ss" using ok by (simp add: segs_ok_def)
  have bnd: "\<And>s. s \<in> set ss \<Longrightarrow> sg_base s \<le> u64_max" by (rule segs_ok_bound [OF ok])
  show "sorted_wrt (<) (segments w)"
    unfolding f(1) sorted_wrt_map
    by (rule sorted_wrt_mono_rel [of _ "\<lambda>x y. sg_base x < sg_base y"])
      (use bnd chain_sorted [OF ch] in \<open>auto simp: lsn_less_iff sorted_wrt_map\<close>)
  show "active w = filename_for (last (segments w))" "segments w \<noteq> []"
    using ch by (simp_all add: f seg_name_def last_map)
  show "log_end ss = log_base ss + length (log_of ss)" by (rule chain_log_end [OF ch])
  show "log_base ss \<le> u64_max" using bnd [of "hd ss"] ch by (simp add: log_base_def)
qed

lemma core_fields:
  assumes "wal_core crc (w\<lparr>poisoned := b\<rparr>) ss"
  shows "segments w \<noteq> []" "sorted_wrt (<) (segments w)" "active w = filename_for (last (segments w))"
    "lsn_nat (oldest_lsn w) \<le> Suc (lsn_nat (durable_lsn w))" "write_offset w \<le> unat (segment_size w)"
proof -
  have ok: "segs_ok crc (unat (segment_size w)) (unat (max_record_size w)) ss"
    and f: "segments w = map (\<lambda>s. lsn_of (sg_base s)) ss" "active w = seg_name (last ss)"
    and g: "write_offset w = 64 + frames_size (sg_log (last ss))" "oldest_lsn w = lsn_of (log_base ss)"
      "durable_lsn w = lsn_of (log_end ss - 1)" using assms by (simp_all add: wal_core_def)
  note l = segs_fields [OF ok f]
  show "segments w \<noteq> []" "sorted_wrt (<) (segments w)" "active w = filename_for (last (segments w))" by (fact l)+
  show "write_offset w \<le> unat (segment_size w)" using g(1) segs_ok_last(1) [OF ok] by (simp add: seg_ok_def seg_wf_def)
  show "lsn_nat (oldest_lsn w) \<le> Suc (lsn_nat (durable_lsn w))"
    using g(2,3) l(4,5) segs_ok_last(3) [OF ok] by simp
qed

text \<open>C3. Every state of a life is sound for its phase: from a fresh directory on, through any
  sequence of operations, system calls that fail at any point, crashes between and inside
  operations, and restarts. The handle's segments increase, the last one is the active file, the
  oldest LSN is at most one above the watermark, and the lock is held. A working handle is not
  poisoned and agrees with its directory on a dense log and on the records staged after it. A
  handle after a failure is poisoned, and whatever crash follows, the opening is refused or gives
  its acknowledged log, without at most a prefix that a failed checkpoint was asked to delete, and
  followed at most by further records with the next LSNs.
  A log recovered from that replays a dense run from its oldest LSN up to its watermark.\<close>

theorem reachable_states_sound:
  assumes "life crc on_durable ph w d"
  shows "lock_held d \<and> segments w \<noteq> [] \<and> sorted_wrt (<) (segments w) \<and> active w = filename_for (last (segments w))
    \<and> lsn_nat (oldest_lsn w) \<le> Suc (lsn_nat (durable_lsn w))
    \<and> (case ph of
         Working \<Rightarrow> \<not> poisoned w \<and> write_offset w \<le> unat (segment_size w) \<and> durable_lsn w \<le> last_lsn w
           \<and> (\<exists>ss staged. sound crc ss staged w d)
       | Failed n \<Rightarrow> poisoned w \<and> write_offset w \<le> unat (segment_size w) \<and> recoverable crc n w d
       | Recovered \<Rightarrow> \<not> poisoned w \<and> durable_lsn w = last_lsn w
           \<and> (\<exists>rd rs. reader_from NONE w (d\<lparr>dfaults := []\<rparr>) = (Inr rd, d\<lparr>dfaults := []\<rparr>)
                \<and> drain crc rd (d\<lparr>dfaults := []\<rparr>) = (rs, None)
                \<and> map fst rs = map lsn_of [lsn_nat (oldest_lsn w) ..< Suc (lsn_nat (durable_lsn w))]))"
proof -
  have inv: "life_inv crc ph w d" by (rule life_invariant [OF assms])
  show ?thesis
  proof (cases ph)
    case Working
    then obtain ss staged where s: "sound crc ss staged w d" using inv by (auto simp: life_inv_def)
    note sd = soundD [OF s]
    have core: "wal_core crc (w\<lparr>poisoned := False\<rparr>) ss" using sd(1) by (simp add: wal_inv_def wal_core_def)
    have "durable_lsn w \<le> last_lsn w" using sd(1,6,7,8) by (simp add: wal_inv_def wal_staged_def lsn_le_iff)
    then show ?thesis using inv Working s sd(5) core_fields [OF core] by (auto simp: life_inv_def)
  next
    case (Failed n)
    then obtain ss where "wal_core crc (w\<lparr>poisoned := False\<rparr>) ss" using inv by (auto simp: life_inv_def recoverable_def)
    from core_fields [OF this] show ?thesis using inv Failed by (simp add: life_inv_def)
  next
    case Recovered
    then obtain ss and ob :: 'a and rep where ok: "segs_ok crc (unat (segment_size w)) (unat (max_record_size w)) ss"
      and sv: "serves crc (config_of w) ob ss w rep (d\<lparr>dfaults := []\<rparr>)" using inv by (auto simp: life_inv_def)
    have f: "segments w = map (\<lambda>s. lsn_of (sg_base s)) ss" "active w = seg_name (last ss)" "oldest_lsn w = lsn_of (log_base ss)"
      "\<not> poisoned w" "last_lsn w = durable_lsn w" using sv by (simp_all add: serves_def)
    note l = segs_fields [OF ok f(1,2)]
    from serves_replay [OF sv] ok obtain rd extra where r: "reader_from NONE w (d\<lparr>dfaults := []\<rparr>) = (Inr rd, d\<lparr>dfaults := []\<rparr>)"
      "drain crc rd (d\<lparr>dfaults := []\<rparr>) = (number_from (log_base ss) (log_of ss) @ extra, None)"
      "map fst extra = map lsn_of [log_end ss ..< Suc (lsn_nat (durable_lsn w))]"
      "log_end ss \<le> Suc (lsn_nat (durable_lsn w))" by auto
    have "map fst (number_from (log_base ss) (log_of ss) @ extra) = map lsn_of [log_base ss ..< Suc (lsn_nat (durable_lsn w))]"
      using r(3,4) l(4) upt_add_eq_append [of "log_base ss" "log_end ss" "Suc (lsn_nat (durable_lsn w)) - log_end ss"]
      by (simp add: map_fst_number_from)
    moreover have "lsn_nat (oldest_lsn w) = log_base ss" using l(5) f(3) by simp
    ultimately show ?thesis using inv Recovered f(4,5) l(1-4) r(1,2,4) by (auto simp: life_inv_def)
  qed
qed

text \<open>A commit whose first system call fails.\<close>

lemma commit_first_call_fails:
  assumes "wal_inv crc w ss staged" "staged \<noteq> []" "sg_log (last ss) = []" "dfaults d = Fault OtherIo k # q"
  shows "\<exists>w' d'. commit crc clock on_durable w d = (Inl (Io OtherIo), w', d')"
proof -
  have core: "wal_core crc w ss" and st: "wal_staged crc w ss [] staged" using assms(1) by (simp_all add: wal_inv_def)
  have "payloads_ok (unat (max_record_size w)) staged" using st by (simp add: wal_staged_def)
  then have c: "0 < fit_here w staged" by (rule fit_here_pos [OF core assms(2) _ assms(3)])
  then have "take (fit_here w staged) staged \<noteq> []" using assms(2) by simp
  then have pos: "0 < frames_size (take (fit_here w staged) staged)"
    unfolding neq0_conv [symmetric] frames_size_eq_0 .
  have "staging w = frames crc (log_end ss) staged" using st by (simp add: wal_staged_def)
  then have ne: "staging w \<noteq> []" using assms(2) by (metis frames_size_eq_0 length_frames list.size(3))
  note fp = fit_prefix_staged [OF core st, simplified]
  have "\<exists>w1 d1. commit_step crc clock on_durable 0 w d = (Inl (Io OtherIo), w1, d1)"
    using fp pos c assms(4) by (simp add: commit_step_def step_two_def write_prefix_def write_all_at_def)
  then show ?thesis
    using ne core by (auto simp: commit_def commit_loop.simps [of _ _ _ 0] wal_core_def)
qed

lemma ex_life:
  "\<exists>w d ss. life csum (\<lambda>l ob. ob @ [l]) Working (w :: lsn list wal) d \<and> sound csum ss [[1]] w d \<and> sg_log (last ss) = []"
proof -
  obtain w d rep where o: "open_seeded csum ex_clock ex_cfg ([] :: lsn list) FIRST ex_disk = (Inr (w, rep), d)"
    and l: "live csum ex_cfg FIRST (w, d) \<lparr>v_base = 1, v_log = [], v_staged = []\<rparr>"
    using ex_opened by blast
  have f: "fits_record ex_cfg [1]" by (simp add: fits_record_def ex_cfg_def)
  obtain w1 where a: "wal_append csum [1] w = (Inr (lsn_of 1), w1)"
    and l1: "live csum ex_cfg FIRST (w1, d) \<lparr>v_base = 1, v_log = [], v_staged = [[1]]\<rparr>"
    using wl.add_law [OF l f] by (auto simp: wal_add_def v_next_def v_end_def u64_max_def split: prod.splits sum.splits)
  have "life csum (\<lambda>l ob. ob @ [l]) Working w d" by (rule life.fresh [OF o]) simp_all
  then have "life csum (\<lambda>l ob. ob @ [l]) Working w1 d" by (rule life.appended [OF _ _ a]) simp
  moreover obtain ss where ss: "sound csum ss [[1]] w1 d" "log_of ss = []" using live_sound [OF l1] by auto
  moreover have "ss \<noteq> []" by (rule segs_ok_last(4) [OF soundD(3) [OF ss(1)]])
  then have "sg_log (last ss) = []" using ss(2) by (simp add: log_of_def)
  ultimately show ?thesis by blast
qed

theorem reachable_states_sound_witness:
  "\<exists>w d. life csum (\<lambda>l ob. ob @ [l]) (Failed 0) (w :: lsn list wal) d \<and> poisoned w \<and> recoverable csum 0 w d \<and> lock_held d"
proof -
  obtain w :: "lsn list wal" and d ss where l: "life csum (\<lambda>l ob. ob @ [l]) Working w d"
    and s: "sound csum ss [[1]] w d" "sg_log (last ss) = []" using ex_life by blast
  let ?d = "d\<lparr>dfaults := [Fault OtherIo 7]\<rparr>"
  have "wal_inv csum w ss [[1]]" using s(1) by (simp add: sound_def)
  then obtain w' d' where c: "commit csum ex_clock (\<lambda>l ob. ob @ [l]) w ?d = (Inl (Io OtherIo), w', d')"
    using commit_first_call_fails [of csum w ss "[[1]]" ?d 7 "[]" ex_clock "\<lambda>l ob. ob @ [l]"] s(2) by auto
  have "life csum (\<lambda>l ob. ob @ [l]) (Failed 0) w' d'" by (rule life.commit_failed [OF life.weather [OF l] c])
  from this reachable_states_sound [OF this] show ?thesis by auto
qed

section \<open>Scripts\<close>

text \<open>C6. The contract: on a platform without failures, after any script of appends of records
  within the limit, commits, checkpoints at arbitrary LSNs and restarts, as long as the LSNs
  last, every record that was committed before the script and lies above every checkpoint of the
  script is still replayed, at its LSN and byte for byte.\<close>

theorem committed_records_outlive_scripts:
  assumes "live crc cfg seed s v" "list_all (may_issue cfg) cs" "v_next v + length cs \<le> Suc u64_max"
    and "v_record v i = Some p" "foldr (\<lambda>c. max (trims c)) cs 0 < i"
  shows "\<exists>rs. wal_replay crc (fold (wal_perform crc clock on_durable cfg ob seed) cs s) = Some rs \<and> (lsn_of i, p) \<in> set rs"
  by (rule wal_script_durable [OF assms])

theorem committed_records_outlive_scripts_witness:
  "\<exists>(s :: lsn list wal \<times> disk) rs. wal_replay csum (fold (wal_perform csum ex_clock (\<lambda>l ob. ob @ [l]) ex_cfg [] FIRST)
      [Add [7], Sync, Trim 1, Restart] s) = Some rs \<and> (lsn_of 2, [2]) \<in> set rs"
proof -
  obtain s :: "lsn list wal \<times> disk" where s: "live csum ex_cfg FIRST s \<lparr>v_base = 1, v_log = [[1], [2]], v_staged = []\<rparr>"
    using ex_logged by blast
  have "list_all (may_issue ex_cfg) [Add [7], Sync, Trim 1, Restart]"
    by (simp add: may_issue_def fits_record_def ex_cfg_def)
  moreover have "foldr (\<lambda>c. max (trims c)) [Add [7], Sync, Trim 1, Restart] 0 < 2" by (simp add: trims_def)
  ultimately show ?thesis
    using committed_records_outlive_scripts [OF s, of "[Add [7], Sync, Trim 1, Restart]" 2 "[2]" ex_clock "\<lambda>l ob. ob @ [l]" "[]"]
    by (intro exI [of _ s]) (auto simp: v_next_def v_end_def v_record_def u64_max_def)
qed

section \<open>The file of an interrupted roll\<close>



end
