(* ===== verification/Wal_Workloads.thy ===== *)
theory Wal_Workloads
  imports Wal_Targets Wal_Lifetime
begin

text \<open>
  The workloads of \<^verbatim>\<open>src/bin\<close> that are killed by fault injectors: \<^verbatim>\<open>crash_child\<close>,
  \<^verbatim>\<open>power_pull_workload\<close> and \<^verbatim>\<open>dirfsync_cut_workload\<close>. A workload runs for as many rounds of its
  loop as its fuel gives, which is when it is killed; the outcomes of its system calls after the
  open (\<open>weather\<close>) are arbitrary. The lemmas follow what every workload has announced as durable:
  the directory a killed workload leaves, whatever a power cut then makes of it, reopens to a log
  that reaches every announced LSN with the records the workload wrote.
\<close>

section \<open>Processes\<close>

text \<open>How far a process has got: killed in its loop, at its end, an exit code, or a panic.\<close>

datatype process = Running | Finished | Exited nat | Panicked

definition as_bytes :: "string \<Rightarrow> bytes" where
  "as_bytes s = map of_char s"

text \<open>\<^verbatim>\<open>format!("rec-{n:0width$}")\<close>\<close>

definition rec_name :: "nat \<Rightarrow> nat \<Rightarrow> bytes" where
  "rec_name width n = as_bytes (''rec-'' @ pad_dec width n)"

definition rust_parse_u32 :: "string \<Rightarrow> u32 option" where
  "rust_parse_u32 s =
     (let ds = (case s of c # cs \<Rightarrow> if c = CHR ''+'' then cs else s | [] \<Rightarrow> s)
      in if ds \<noteq> [] \<and> list_all is_ascii_digit ds \<and> dec_val ds \<le> u32_max then Some (word_of_nat (dec_val ds)) else None)"

text \<open>A setting that is taken when it is there and can be parsed.\<close>

definition setting :: "(string \<Rightarrow> 'a option) \<Rightarrow> string option \<Rightarrow> 'a \<Rightarrow> 'a" where
  "setting parse v dflt =
     (case v of None \<Rightarrow> dflt | Some s \<Rightarrow> (case parse s of None \<Rightarrow> dflt | Some x \<Rightarrow> x))"

definition nth_arg :: "string list \<Rightarrow> nat \<Rightarrow> string option" where
  "nth_arg a i = (if i < length a then Some (a ! i) else None)"

section \<open>The crash child\<close>

definition CHILD_SEGMENT_SIZE :: u64 where
  "CHILD_SEGMENT_SIZE = 64 * 1024"

definition CHILD_MAX_RECORD_SIZE :: u32 where
  "CHILD_MAX_RECORD_SIZE = 256"

definition CKPT_SEGMENT_SIZE :: u64 where
  "CKPT_SEGMENT_SIZE = 512"

definition CKPT_MAX_RECORD_SIZE :: u32 where
  "CKPT_MAX_RECORD_SIZE = 256"

definition TOTAL :: u64 where
  "TOTAL = 50000"

definition BATCH :: u64 where
  "BATCH = 8"

definition child_config :: "bool \<Rightarrow> wal_config" where
  "child_config checkpoint_mode =
     (if checkpoint_mode
      then \<lparr>cfg_segment_size = CKPT_SEGMENT_SIZE, cfg_max_record_size = CKPT_MAX_RECORD_SIZE\<rparr>
      else \<lparr>cfg_segment_size = CHILD_SEGMENT_SIZE, cfg_max_record_size = CHILD_MAX_RECORD_SIZE\<rparr>)"

text \<open>\<open>c_out\<close> is the announced watermarks, one per line.\<close>

record child =
  c_wal :: "unit wal"
  c_disk :: disk
  c_next :: u64
  c_since :: u64
  c_out :: "u64 list"

definition child_commit :: "(bytes \<Rightarrow> u32) \<Rightarrow> (lsn \<Rightarrow> u64) \<Rightarrow> bool \<Rightarrow> child \<Rightarrow> process \<times> child" where
  "child_commit crc clock checkpoint_mode st =
     (case commit crc clock null_on_durable (c_wal st) (c_disk st) of
        (Inl e, w, d) \<Rightarrow> (Panicked, st\<lparr>c_wal := w, c_disk := d\<rparr>)
      | (Inr durable, w, d) \<Rightarrow>
          if checkpoint_mode then
            (case checkpoint durable w d of
               (Inl e, w', d') \<Rightarrow> (Panicked, st\<lparr>c_wal := w', c_disk := d', c_since := 0\<rparr>)
             | (Inr _, w', d') \<Rightarrow>
                 (Running, st\<lparr>c_wal := w', c_disk := d', c_since := 0, c_out := c_out st @ [lsn_val durable]\<rparr>))
          else (Running, st\<lparr>c_wal := w, c_disk := d, c_since := 0, c_out := c_out st @ [lsn_val durable]\<rparr>))"

definition child_round :: "(bytes \<Rightarrow> u32) \<Rightarrow> (lsn \<Rightarrow> u64) \<Rightarrow> bool \<Rightarrow> child \<Rightarrow> process \<times> child" where
  "child_round crc clock checkpoint_mode st =
     (case wal_append crc (rec_name 8 (unat (c_next st))) (c_wal st) of
        (Inl e, w) \<Rightarrow> (Panicked, st\<lparr>c_wal := w\<rparr>)
      | (Inr got, w) \<Rightarrow>
          if lsn_val got \<noteq> c_next st then (Panicked, st\<lparr>c_wal := w\<rparr>)
          else
            let st = st\<lparr>c_wal := w, c_next := c_next st + 1, c_since := c_since st + 1\<rparr> in
            if c_next st = 2 \<or> c_since st = BATCH then child_commit crc clock checkpoint_mode st
            else (Running, st))"

fun child_loop :: "(bytes \<Rightarrow> u32) \<Rightarrow> (lsn \<Rightarrow> u64) \<Rightarrow> bool \<Rightarrow> nat \<Rightarrow> child \<Rightarrow> process \<times> child" where
  "child_loop crc clock checkpoint_mode 0 st = (Running, st)"
| "child_loop crc clock checkpoint_mode (Suc fuel) st =
     (if c_next st \<le> TOTAL then
        (case child_round crc clock checkpoint_mode st of
           (Running, st') \<Rightarrow> child_loop crc clock checkpoint_mode fuel st'
         | (p, st') \<Rightarrow> (p, st'))
      else
        (case child_commit crc clock checkpoint_mode st of
           (Running, st') \<Rightarrow> (Finished, st')
         | (p, st') \<Rightarrow> (p, st')))"

definition crash_child ::
    "(bytes \<Rightarrow> u32) \<Rightarrow> (lsn \<Rightarrow> u64) \<Rightarrow> string list \<Rightarrow> faults \<Rightarrow> nat \<Rightarrow> disk \<Rightarrow> process \<times> disk \<times> u64 list" where
  "crash_child crc clock a weather fuel d =
     (case nth_arg a 1 of
        None \<Rightarrow> (Panicked, d, [])
      | Some dir \<Rightarrow>
          let checkpoint_mode = (nth_arg a 2 = Some ''checkpoint'') in
          (case open_wal crc clock (child_config checkpoint_mode) d of
             (Inl e, d1) \<Rightarrow> (Panicked, d1, [])
           | (Inr (w, report), d1) \<Rightarrow>
               (case child_loop crc clock checkpoint_mode fuel
                       \<lparr>c_wal = w, c_disk = d1\<lparr>dfaults := weather\<rparr>, c_next = lsn_val (report_durable_lsn report) + 1,
                        c_since = 0, c_out = []\<rparr> of
                  (p, st) \<Rightarrow> (p, c_disk st, c_out st))))"

section \<open>The side channel\<close>

text \<open>
  A channel to a place outside the machine under test: what has arrived there, and how the
  following calls end (\<open>Some k\<close> for a call that fails after \<open>k\<close> characters have arrived).
\<close>

record channel =
  sent :: string
  trouble :: "nat option list"

definition chan_write :: "string \<Rightarrow> channel \<Rightarrow> bool \<times> channel" where
  "chan_write line c =
     (case trouble c of
        [] \<Rightarrow> (True, c\<lparr>sent := sent c @ line\<rparr>)
      | None # ts \<Rightarrow> (True, c\<lparr>sent := sent c @ line, trouble := ts\<rparr>)
      | Some k # ts \<Rightarrow> (False, c\<lparr>sent := sent c @ take k line, trouble := ts\<rparr>))"

definition chan_sync :: "channel \<Rightarrow> bool \<times> channel" where
  "chan_sync c =
     (case trouble c of
        [] \<Rightarrow> (True, c)
      | None # ts \<Rightarrow> (True, c\<lparr>trouble := ts\<rparr>)
      | Some k # ts \<Rightarrow> (False, c\<lparr>trouble := ts\<rparr>))"

datatype sink = Tcp | SinkFile bool | Stdout

definition strip_prefix :: "string \<Rightarrow> string \<Rightarrow> string option" where
  "strip_prefix pre s = (if take (length pre) s = pre then Some (drop (length pre) s) else None)"

text \<open>\<open>opens\<close> is the outcome of connecting to an address or opening a path.\<close>

definition sink_open :: "(string \<Rightarrow> io_error option) \<Rightarrow> string \<Rightarrow> io_error + sink" where
  "sink_open opens spec =
     (case strip_prefix ''tcp:'' spec of
        Some addr \<Rightarrow> (case opens addr of Some e \<Rightarrow> Inl e | None \<Rightarrow> Inr Tcp)
      | None \<Rightarrow>
          (case strip_prefix ''file:'' spec of
             Some path \<Rightarrow> (case opens path of Some e \<Rightarrow> Inl e | None \<Rightarrow> Inr (SinkFile True))
           | None \<Rightarrow>
               (case strip_prefix ''serial:'' spec of
                  Some path \<Rightarrow> (case opens path of Some e \<Rightarrow> Inl e | None \<Rightarrow> Inr (SinkFile False))
                | None \<Rightarrow> if spec = ''stdout'' then Inr Stdout else Inl OtherIo)))"

definition ack_line :: "nat \<Rightarrow> nat \<Rightarrow> string" where
  "ack_line sq wm = show_dec sq @ [CHR '',''] @ show_dec wm @ [CHR 0x0A]"

datatype recorded = Recorded | RecordFailed | RecordPanicked

text \<open>\<^verbatim>\<open>print!\<close> panics when the standard output fails; the other sinks return the error.\<close>

fun sink_record :: "sink \<Rightarrow> u64 \<Rightarrow> lsn \<Rightarrow> channel \<Rightarrow> recorded \<times> channel" where
  "sink_record Tcp sq wm c =
     (case chan_write (ack_line (unat sq) (lsn_nat wm)) c of
        (False, c) \<Rightarrow> (RecordFailed, c)
      | (True, c) \<Rightarrow> (case chan_sync c of (ok, c) \<Rightarrow> (if ok then Recorded else RecordFailed, c)))"
| "sink_record (SinkFile fsync) sq wm c =
     (case chan_write (ack_line (unat sq) (lsn_nat wm)) c of
        (False, c) \<Rightarrow> (RecordFailed, c)
      | (True, c) \<Rightarrow>
          if fsync then (case chan_sync c of (ok, c) \<Rightarrow> (if ok then Recorded else RecordFailed, c))
          else (Recorded, c))"
| "sink_record Stdout sq wm c =
     (case chan_write (ack_line (unat sq) (lsn_nat wm)) c of
        (False, c) \<Rightarrow> (RecordPanicked, c)
      | (True, c) \<Rightarrow> (case chan_sync c of (ok, c) \<Rightarrow> (if ok then Recorded else RecordFailed, c)))"

section \<open>The power-pull workload\<close>

definition PULL_SEGMENT_SIZE :: u64 where
  "PULL_SEGMENT_SIZE = 8 * 1024 * 1024"

definition PULL_MAX_RECORD_SIZE :: u32 where
  "PULL_MAX_RECORD_SIZE = 4096"

definition pull_config :: "(string \<Rightarrow> string option) \<Rightarrow> wal_config" where
  "pull_config env =
     \<lparr>cfg_segment_size = setting rust_parse_u64 (env ''WAL_SEGMENT_SIZE'') PULL_SEGMENT_SIZE,
      cfg_max_record_size = setting rust_parse_u32 (env ''WAL_MAX_RECORD_SIZE'') PULL_MAX_RECORD_SIZE\<rparr>"

record pull =
  p_wal :: "unit wal"
  p_disk :: disk
  p_chan :: channel
  p_next :: u64
  p_seq :: u64
  p_since :: u64

text \<open>\<^verbatim>\<open>Vec::resize\<close>: cut off or filled up.\<close>

definition resize :: "nat \<Rightarrow> u8 \<Rightarrow> bytes \<Rightarrow> bytes" where
  "resize n b bs = take n bs @ replicate (n - length bs) b"

definition pull_payload :: "nat \<Rightarrow> nat \<Rightarrow> bytes" where
  "pull_payload payload_bytes n = resize (max payload_bytes 20) (of_char (CHR ''.'')) (rec_name 16 n)"

definition pull_commit :: "(bytes \<Rightarrow> u32) \<Rightarrow> (lsn \<Rightarrow> u64) \<Rightarrow> sink \<Rightarrow> pull \<Rightarrow> process \<times> pull" where
  "pull_commit crc clock sink st =
     (case commit crc clock null_on_durable (p_wal st) (p_disk st) of
        (Inl e, w, d) \<Rightarrow> (Exited 7, st\<lparr>p_wal := w, p_disk := d\<rparr>)
      | (Inr wm, w, d) \<Rightarrow>
          let st = st\<lparr>p_wal := w, p_disk := d, p_seq := p_seq st + 1\<rparr> in
          (case sink_record sink (p_seq st) wm (p_chan st) of
             (Recorded, c) \<Rightarrow> (Running, st\<lparr>p_chan := c, p_since := 0\<rparr>)
           | (_, c) \<Rightarrow> (Panicked, st\<lparr>p_chan := c\<rparr>)))"

definition pull_round :: "(bytes \<Rightarrow> u32) \<Rightarrow> (lsn \<Rightarrow> u64) \<Rightarrow> sink \<Rightarrow> u64 \<Rightarrow> nat \<Rightarrow> pull \<Rightarrow> process \<times> pull" where
  "pull_round crc clock sink batch payload_bytes st =
     (case wal_append crc (pull_payload payload_bytes (unat (p_next st))) (p_wal st) of
        (Inl e, w) \<Rightarrow> (Panicked, st\<lparr>p_wal := w\<rparr>)
      | (Inr assigned, w) \<Rightarrow>
          if lsn_val assigned \<noteq> p_next st then (Panicked, st\<lparr>p_wal := w\<rparr>)
          else
            let st = st\<lparr>p_wal := w, p_next := p_next st + 1, p_since := p_since st + 1\<rparr> in
            if p_since st \<ge> batch then pull_commit crc clock sink st else (Running, st))"

text \<open>The flush of the remainder: only a panic of the standard output ends it early.\<close>

definition pull_finish :: "(bytes \<Rightarrow> u32) \<Rightarrow> (lsn \<Rightarrow> u64) \<Rightarrow> sink \<Rightarrow> pull \<Rightarrow> process \<times> pull" where
  "pull_finish crc clock sink st =
     (case commit crc clock null_on_durable (p_wal st) (p_disk st) of
        (Inl e, w, d) \<Rightarrow> (Finished, st\<lparr>p_wal := w, p_disk := d\<rparr>)
      | (Inr wm, w, d) \<Rightarrow>
          if lsn_val wm \<ge> 1 then
            let st = st\<lparr>p_wal := w, p_disk := d, p_seq := p_seq st + 1\<rparr> in
            (case sink_record sink (p_seq st) wm (p_chan st) of
               (RecordPanicked, c) \<Rightarrow> (Panicked, st\<lparr>p_chan := c\<rparr>)
             | (_, c) \<Rightarrow> (Finished, st\<lparr>p_chan := c\<rparr>))
          else (Finished, st\<lparr>p_wal := w, p_disk := d\<rparr>))"

fun pull_loop ::
    "(bytes \<Rightarrow> u32) \<Rightarrow> (lsn \<Rightarrow> u64) \<Rightarrow> sink \<Rightarrow> u64 \<Rightarrow> u64 \<Rightarrow> nat \<Rightarrow> nat \<Rightarrow> pull \<Rightarrow> process \<times> pull" where
  "pull_loop crc clock sink limit batch payload_bytes 0 st = (Running, st)"
| "pull_loop crc clock sink limit batch payload_bytes (Suc fuel) st =
     (if limit \<noteq> 0 \<and> p_next st > limit then pull_finish crc clock sink st
      else
        (case pull_round crc clock sink batch payload_bytes st of
           (Running, st') \<Rightarrow> pull_loop crc clock sink limit batch payload_bytes fuel st'
         | (p, st') \<Rightarrow> (p, st')))"

definition power_pull_workload ::
    "(bytes \<Rightarrow> u32) \<Rightarrow> (lsn \<Rightarrow> u64) \<Rightarrow> (string \<Rightarrow> io_error option) \<Rightarrow> (string \<Rightarrow> string option) \<Rightarrow> string list
     \<Rightarrow> faults \<Rightarrow> nat \<Rightarrow> disk \<Rightarrow> channel \<Rightarrow> process \<times> disk \<times> channel" where
  "power_pull_workload crc clock opens env a weather fuel d c =
     (if length a < 3 then (Exited 2, d, c)
      else
        let limit = setting rust_parse_u64 (nth_arg a 3) 0;
            batch = setting rust_parse_u64 (nth_arg a 4) 64;
            payload_bytes = unat (setting rust_parse_u64 (nth_arg a 5) 64)
        in case sink_open opens (a ! 2) of
             Inl e \<Rightarrow> (Panicked, d, c)
           | Inr sink \<Rightarrow>
               (case open_wal crc clock (pull_config env) d of
                  (Inl e, d1) \<Rightarrow> (Panicked, d1, c)
                | (Inr (w, report), d1) \<Rightarrow>
                    (case pull_loop crc clock sink limit batch payload_bytes fuel
                            \<lparr>p_wal = w, p_disk = d1\<lparr>dfaults := weather\<rparr>, p_chan = c,
                             p_next = lsn_val (report_durable_lsn report) + 1, p_seq = 0, p_since = 0\<rparr> of
                       (p, st) \<Rightarrow> (p, p_disk st, p_chan st))))"

section \<open>The directory-sync cut workload\<close>

definition CUT_SEGMENT_SIZE :: u64 where
  "CUT_SEGMENT_SIZE = 4096"

definition CUT_MAX_RECORD_SIZE :: u32 where
  "CUT_MAX_RECORD_SIZE = 256"

definition MAX_RECORDS :: u64 where
  "MAX_RECORDS = 1000000"

definition cut_config :: "(string \<Rightarrow> string option) \<Rightarrow> wal_config" where
  "cut_config env =
     \<lparr>cfg_segment_size = setting rust_parse_u64 (env ''WAL_SEGMENT_SIZE'') CUT_SEGMENT_SIZE,
      cfg_max_record_size = setting rust_parse_u32 (env ''WAL_MAX_RECORD_SIZE'') CUT_MAX_RECORD_SIZE\<rparr>"

text \<open>A directory listing that skips the entries that cannot be read.\<close>

fun readable_entries :: "string list \<Rightarrow> disk \<Rightarrow> string list \<times> disk" where
  "readable_entries [] d = ([], d)"
| "readable_entries (n # ns) d =
     (case may_fail d of
        (Inl e, d1) \<Rightarrow> readable_entries ns d1
      | (Inr _, d1) \<Rightarrow> (case readable_entries ns d1 of (names, d2) \<Rightarrow> (n # names, d2)))"

definition count_segments :: "disk \<Rightarrow> nat \<times> disk" where
  "count_segments d =
     (case may_fail d of
        (Inl e, d1) \<Rightarrow> (0, d1)
      | (Inr _, d1) \<Rightarrow>
          (case readable_entries (map fst (entries d1)) d1 of
             (names, d2) \<Rightarrow> (length (filter (\<lambda>n. strip_suffix ''.wal'' n \<noteq> None) names), d2)))"

text \<open>\<open>None\<close> is a panic of the append or of the commit.\<close>

definition append_commit ::
    "(bytes \<Rightarrow> u32) \<Rightarrow> (lsn \<Rightarrow> u64) \<Rightarrow> unit wal \<Rightarrow> disk \<Rightarrow> u64 \<Rightarrow> lsn option \<times> unit wal \<times> disk" where
  "append_commit crc clock w d l =
     (case wal_append crc (rec_name 16 (unat l)) w of
        (Inl e, w) \<Rightarrow> (None, w, d)
      | (Inr _, w) \<Rightarrow>
          (case commit crc clock null_on_durable w d of
             (Inl e, w, d) \<Rightarrow> (None, w, d)
           | (Inr durable, w, d) \<Rightarrow> (Some durable, w, d)))"

record cut =
  k_wal :: "unit wal"
  k_disk :: disk
  k_capture :: channel
  k_ready :: channel
  k_next :: u64
  k_seq :: u64

definition record_ack :: "lsn \<Rightarrow> cut \<Rightarrow> bool \<times> cut" where
  "record_ack wm st =
     (let sq = k_seq st + 1 in
      case chan_write (ack_line (unat sq) (lsn_nat wm)) (k_capture st) of
        (False, c) \<Rightarrow> (False, st\<lparr>k_seq := sq, k_capture := c\<rparr>)
      | (True, c) \<Rightarrow> (case chan_sync c of (ok, c) \<Rightarrow> (ok, st\<lparr>k_seq := sq, k_capture := c\<rparr>)))"

definition cut_round :: "(bytes \<Rightarrow> u32) \<Rightarrow> (lsn \<Rightarrow> u64) \<Rightarrow> cut \<Rightarrow> lsn option \<times> cut" where
  "cut_round crc clock st =
     (case append_commit crc clock (k_wal st) (k_disk st) (k_next st) of
        (None, w, d) \<Rightarrow> (None, st\<lparr>k_wal := w, k_disk := d\<rparr>)
      | (Some wm, w, d) \<Rightarrow>
          (case record_ack wm (st\<lparr>k_wal := w, k_disk := d\<rparr>) of
             (ok, st) \<Rightarrow> (if ok then Some wm else None, st)))"

text \<open>The acknowledged record of the new segment, the signal, and the wait for the cut.\<close>

definition cut_last :: "(bytes \<Rightarrow> u32) \<Rightarrow> (lsn \<Rightarrow> u64) \<Rightarrow> cut \<Rightarrow> process \<times> cut" where
  "cut_last crc clock st =
     (case cut_round crc clock st of
        (None, st) \<Rightarrow> (Panicked, st)
      | (Some wm, st) \<Rightarrow>
          (case chan_sync (k_ready st) of
             (False, c) \<Rightarrow> (Panicked, st\<lparr>k_ready := c\<rparr>)
           | (True, c) \<Rightarrow>
               (case chan_write (''READY '' @ show_dec (lsn_nat wm) @ [CHR 0x0A]) c of
                  (False, c) \<Rightarrow> (Panicked, st\<lparr>k_ready := c\<rparr>)
                | (True, c) \<Rightarrow> (case chan_sync c of (ok, c) \<Rightarrow> (if ok then Running else Panicked, st\<lparr>k_ready := c\<rparr>)))))"

fun cut_loop :: "(bytes \<Rightarrow> u32) \<Rightarrow> (lsn \<Rightarrow> u64) \<Rightarrow> nat \<Rightarrow> nat \<Rightarrow> cut \<Rightarrow> process \<times> cut" where
  "cut_loop crc clock segs_before 0 st = (Running, st)"
| "cut_loop crc clock segs_before (Suc fuel) st =
     (if k_next st > MAX_RECORDS then (Exited 3, st)
      else
        (case cut_round crc clock st of
           (None, st) \<Rightarrow> (Panicked, st)
         | (Some wm, st) \<Rightarrow>
             (case count_segments (k_disk st) of
                (n, d) \<Rightarrow>
                  let st = st\<lparr>k_disk := d, k_next := k_next st + 1\<rparr> in
                  if n > segs_before then cut_last crc clock st
                  else cut_loop crc clock segs_before fuel st)))"

definition dirfsync_cut_workload ::
    "(bytes \<Rightarrow> u32) \<Rightarrow> (lsn \<Rightarrow> u64) \<Rightarrow> (string \<Rightarrow> io_error option) \<Rightarrow> (string \<Rightarrow> string option) \<Rightarrow> string list
     \<Rightarrow> faults \<Rightarrow> nat \<Rightarrow> disk \<Rightarrow> channel \<Rightarrow> channel \<Rightarrow> process \<times> disk \<times> channel \<times> channel" where
  "dirfsync_cut_workload crc clock opens env a weather fuel d c r =
     (if length a < 4 then (Exited 2, d, c, r)
      else if opens (a ! 2) \<noteq> None then (Panicked, d, c, r)
      else
        case open_wal crc clock (cut_config env) d of
          (Inl e, d1) \<Rightarrow> (Panicked, d1, c, r)
        | (Inr (w, report), d1) \<Rightarrow>
            (case count_segments (d1\<lparr>dfaults := weather\<rparr>) of
               (segs_before, d2) \<Rightarrow>
                 (case cut_loop crc clock segs_before fuel
                         \<lparr>k_wal = w, k_disk = d2, k_capture = c, k_ready = r,
                          k_next = lsn_val (report_durable_lsn report) + 1, k_seq = 0\<rparr> of
                    (p, st) \<Rightarrow> (p, k_disk st, k_capture st, k_ready st))))"

section \<open>Following the acknowledged log\<close>

text \<open>
  \<open>lab n p\<close> says which payloads the workload writes at LSN \<open>n\<close>, \<open>fr n\<close> where its log may begin. While the handle is alive, \<open>tracked\<close>
  says that the log and the staged records are of that kind, that the log reaches \<open>m\<close>, and that \<open>nx\<close> is
  the next LSN; \<open>kept\<close> is what a crash at this moment leaves of it.
\<close>

definition labelled :: "(nat \<Rightarrow> bytes \<Rightarrow> bool) \<Rightarrow> nat \<Rightarrow> bytes list \<Rightarrow> bool" where
  "labelled lab n ps \<longleftrightarrow> (\<forall>i < length ps. lab (n + i) (ps ! i))"

definition tracked ::
    "(bytes \<Rightarrow> u32) \<Rightarrow> (nat \<Rightarrow> bytes \<Rightarrow> bool) \<Rightarrow> (nat \<Rightarrow> bool) \<Rightarrow> wal_config \<Rightarrow> nat \<Rightarrow> nat \<Rightarrow> unit wal \<Rightarrow> disk \<Rightarrow> bool" where
  "tracked crc lab fr cfg m nx w d \<longleftrightarrow> (\<exists>ss staged. sound crc ss staged w d \<and> config_of w = cfg
     \<and> fr (log_base ss) \<and> labelled lab (log_base ss) (log_of ss @ staged) \<and> (log_end ss = 1 \<or> sg_log (last ss) \<noteq> [])
     \<and> m < log_end ss \<and> nx = log_end ss + length staged)"

definition kept :: "(bytes \<Rightarrow> u32) \<Rightarrow> (nat \<Rightarrow> bytes \<Rightarrow> bool) \<Rightarrow> (nat \<Rightarrow> bool) \<Rightarrow> wal_config \<Rightarrow> nat \<Rightarrow> disk \<Rightarrow> bool" where
  "kept crc lab fr cfg m d \<longleftrightarrow> (\<forall>clk d2. crash d d2 \<longrightarrow> dfaults d2 = [] \<longrightarrow>
     (\<exists>ss. segs_ok crc (unat (cfg_segment_size cfg)) (unat (cfg_max_record_size cfg)) ss
        \<and> fr (log_base ss) \<and> labelled lab (log_base ss) (log_of ss) \<and> (m = 0 \<or> log_of ss \<noteq> []) \<and> m < log_end ss
        \<and> reopens crc cfg () ss (open_wal crc clk cfg d2)))"

lemma labelled_append:
  "labelled lab n (ps @ qs) \<longleftrightarrow> labelled lab n ps \<and> labelled lab (n + length ps) qs"
proof -
  have "labelled lab n (ps @ qs)" if a: "labelled lab n ps" "labelled lab (n + length ps) qs"
    unfolding labelled_def
  proof (intro allI impI)
    fix i assume "i < length (ps @ qs)"
    then show "lab (n + i) ((ps @ qs) ! i)"
      using a [unfolded labelled_def] spec [OF a(2) [unfolded labelled_def], of "i - length ps"]
      by (cases "i < length ps") (auto simp: nth_append)
  qed
  moreover have "labelled lab (n + length ps) qs" if "labelled lab n (ps @ qs)"
    unfolding labelled_def
  proof (intro allI impI)
    fix i assume "i < length qs"
    then show "lab (n + length ps + i) (qs ! i)"
      using spec [OF that [unfolded labelled_def], of "length ps + i"] by (simp add: add.assoc)
  qed
  moreover have "labelled lab n ps" if "labelled lab n (ps @ qs)"
    using that unfolding labelled_def by (metis length_append nth_append trans_less_add1)
  ultimately show ?thesis by blast
qed

lemma labelled_Nil [simp]: "labelled lab n []"
  by (simp add: labelled_def)

lemma labelled_single [simp]: "labelled lab n [p] \<longleftrightarrow> lab n p"
  by (simp add: labelled_def)

lemma sound_log_end:
  assumes "sound crc ss staged w d"
  shows "log_end ss = log_base ss + length (log_of ss)" "chain ss" "0 < log_base ss"
proof -
  from soundD(3) [OF assms] show ch: "chain ss" by (simp add: segs_ok_def)
  then show "log_end ss = log_base ss + length (log_of ss)" by (rule chain_log_end)
  show "0 < log_base ss" using ch soundD(3) [OF assms] by (cases ss) (auto simp: segs_ok_def log_base_def seg_ok_def seg_wf_def)
qed

lemma last_log:
  assumes "ss \<noteq> []" "log_end ss = 1 \<or> sg_log (last ss) \<noteq> []" "m < log_end ss"
  shows "m = 0 \<or> log_of ss \<noteq> []"
  using assms by (auto simp: log_of_def)

lemma tracked_kept:
  assumes "tracked crc lab fr cfg m nx w d"
  shows "kept crc lab fr cfg m d"
proof -
  obtain ss staged where s: "sound crc ss staged w d" and c: "config_of w = cfg"
    and fr: "fr (log_base ss)" and l: "labelled lab (log_base ss) (log_of ss @ staged)" "m < log_end ss"
    and u: "log_end ss = 1 \<or> sg_log (last ss) \<noteq> []" using assms by (auto simp: tracked_def)
  have ok: "segs_ok crc (unat (cfg_segment_size cfg)) (unat (cfg_max_record_size cfg)) ss"
    using soundD(3) [OF s] c by auto
  have "reopens crc cfg () ss (open_wal crc clk cfg d2)" if "crash d d2" "dfaults d2 = []" for clk d2
    using restored_reopens [OF restored_on [OF s that FIRST_not_none, of "()" clk]] ok c
    by (auto simp: open_wal_def open_with_def)
  moreover have "m = 0 \<or> log_of ss \<noteq> []" by (rule last_log [OF _ u l(2)]) (use sound_log_end(2) [OF s] in auto)
  ultimately show ?thesis using ok l fr unfolding kept_def labelled_append by blast
qed

lemma tracked_append:
  assumes t: "tracked crc lab fr cfg m nx w d" and a: "wal_append crc p w = (Inr l, w')" and p: "lab nx p"
  shows "tracked crc lab fr cfg m (Suc nx) w' d \<and> l = lsn_of nx \<and> nx \<le> u64_max"
proof -
  obtain ss staged where s: "sound crc ss staged w d" and c: "config_of w = cfg"
    and fr: "fr (log_base ss)" and l: "labelled lab (log_base ss) (log_of ss @ staged)" "m < log_end ss" "nx = log_end ss + length staged"
    and u: "log_end ss = 1 \<or> sg_log (last ss) \<noteq> []" using t by (auto simp: tracked_def)
  note sd = soundD [OF s]
  have fit: "length p \<le> unat (max_record_size w)"
    using append_too_large [OF sd(5), of p crc] a by (cases "unat (max_record_size w) < length p") auto
  have lt: "nx \<le> u64_max" using append_inv [OF sd(1) fit] a l(3) by (cases "nx \<le> u64_max") auto
  with append_inv [OF sd(1) fit] a l(3) have w: "l = lsn_of nx" "wal_inv crc w' ss (staged @ [p])"
    "segment_size w' = segment_size w" "max_record_size w' = max_record_size w" by auto
  have "labelled lab (log_base ss) (log_of ss @ staged @ [p])"
    using l p sound_log_end(1) [OF s] labelled_append [of lab "log_base ss" "log_of ss @ staged" "[p]"] by (simp add: add.assoc)
  moreover have "sound crc ss (staged @ [p]) w' d" "config_of w' = cfg" using w sd(2) c by (auto simp: sound_def config_of_def)
  ultimately show ?thesis using w lt l fr u by (fastforce simp: tracked_def)
qed

lemma tracked_appended_bound:
  assumes t: "tracked crc lab fr cfg m nx w d" and a: "wal_append crc p w = (Inr l, w')"
  shows "nx \<le> u64_max"
proof -
  have "tracked crc (\<lambda>n p. True) (\<lambda>n. True) cfg m nx w d" using t by (auto simp: tracked_def labelled_def)
  from tracked_append [OF this a] show ?thesis by simp
qed

lemma tracked_append_failed:
  assumes t: "tracked crc lab fr cfg m nx w d" and a: "wal_append crc p w = (Inl e, w')"
  shows "w' = w"
proof -
  obtain ss staged where s: "sound crc ss staged w d" using t by (auto simp: tracked_def)
  note sd = soundD [OF s]
  show ?thesis
    using append_too_large [OF sd(5), of p crc] append_inv [OF sd(1), of p] a
    by (cases "unat (max_record_size w) < length p") (auto split: if_splits)
qed

lemma tracked_commit:
  assumes t: "tracked crc lab fr cfg m nx w d" and c: "commit crc clock on_durable w d = (Inr l, w', d')"
  shows "tracked crc lab fr cfg (nx - 1) nx w' d' \<and> l = lsn_of (nx - 1) \<and> m \<le> nx - 1 \<and> nx - 1 \<le> u64_max"
proof -
  obtain ss staged where s: "sound crc ss staged w d" and cf: "config_of w = cfg"
    and fr: "fr (log_base ss)" and l: "labelled lab (log_base ss) (log_of ss @ staged)" "m < log_end ss" "nx = log_end ss + length staged"
    and u: "log_end ss = 1 \<or> sg_log (last ss) \<noteq> []" using t by (auto simp: tracked_def)
  note sd = soundD [OF s]
  from commit_cases [OF c sd(1,2)] obtain ss' where r: "l = lsn_of (nx - 1)" "wal_inv crc w' ss' []" "grown ss staged ss'" "ends_used ss staged ss'"
    "holds crc (unat (segment_size w)) ss' d'" "segment_size w' = segment_size w" "max_record_size w' = max_record_size w"
    using l(3) by auto
  have "sound crc ss' [] w' d'" "config_of w' = cfg" using r cf by (auto simp: sound_def config_of_def)
  moreover have "labelled lab (log_base ss') (log_of ss' @ [])" "log_end ss' = nx" "fr (log_base ss')" using r(3) l fr by (simp_all add: grown_def)
  moreover have "log_end ss' = 1 \<or> sg_log (last ss') \<noteq> []" using u r(3,4) by (auto simp: ends_used_def grown_def)
  ultimately show ?thesis using r l sd(8) unfolding tracked_def by fastforce
qed

lemma tracked_commit_failed:
  assumes t: "tracked crc lab fr cfg m nx w d" and c: "commit crc clock on_durable w d = (Inl e, w', d')"
  shows "kept crc lab fr cfg m d'"
  unfolding kept_def
proof (intro allI impI)
  fix clk d2
  assume cr: "crash d' d2" "dfaults d2 = []"
  obtain ss staged where s: "sound crc ss staged w d" and cf: "config_of w = cfg"
    and fr: "fr (log_base ss)" and l: "labelled lab (log_base ss) (log_of ss @ staged)" "m < log_end ss"
    and u: "log_end ss = 1 \<or> sg_log (last ss) \<noteq> []" using t by (auto simp: tracked_def)
  from commit_crash_reopens [OF s c cr FIRST_not_none, of "()" clk] obtain j ss' ss2 where j: "grown ss (take j staged) ss'" "same_log ss' ss2"
    and ok: "segs_ok crc (unat (segment_size w)) (unat (max_record_size w)) ss2"
    and ro: "reopens crc (config_of w) () ss2 (open_seeded crc clk (config_of w) () FIRST d2)" by blast
  have lg: "log_base ss2 = log_base ss" "log_of ss2 = log_of ss @ take j staged" "log_end ss \<le> log_end ss2"
    using j by (auto simp: grown_def same_log_def)
  have "labelled lab (log_base ss) ((log_of ss @ take j staged) @ drop j staged)" using l(1) by simp
  then have "labelled lab (log_base ss2) (log_of ss2)" using lg by (simp only: labelled_append)
  moreover have "m = 0 \<or> log_of ss2 \<noteq> []" using last_log [OF _ u l(2)] sound_log_end(2) [OF s] lg(2) by auto
  ultimately show "\<exists>ss. segs_ok crc (unat (cfg_segment_size cfg)) (unat (cfg_max_record_size cfg)) ss
        \<and> fr (log_base ss) \<and> labelled lab (log_base ss) (log_of ss) \<and> (m = 0 \<or> log_of ss \<noteq> []) \<and> m < log_end ss
        \<and> reopens crc cfg () ss (open_wal crc clk cfg d2)"
    using ok ro lg l(2) fr by (intro exI [of _ ss2]) (auto simp: open_wal_def open_with_def simp flip: cf)
qed

lemma labelled_drop:
  assumes "chain ss" "k < length ss" "labelled lab (log_base ss) (log_of ss @ staged)"
  shows "labelled lab (log_base (drop k ss)) (log_of (drop k ss) @ staged)"
proof -
  have "log_of ss @ staged = log_of (take k ss) @ log_of (drop k ss) @ staged"
    by (simp add: log_of_def flip: append_assoc concat_append map_append)
  then show ?thesis
    using assms(3) labelled_append [of lab "log_base ss" "log_of (take k ss)" "log_of (drop k ss) @ staged"]
      drop_segments(1) [OF assms(1,2)] by simp
qed

lemma tracked_checkpoint:
  assumes t: "tracked crc lab fr cfg m nx w d" and c: "checkpoint up_to w d = (Inr u, w', d')" and f: "\<forall>n. fr n"
  shows "tracked crc lab fr cfg m nx w' d'"
proof -
  obtain ss staged where s: "sound crc ss staged w d" and cf: "config_of w = cfg"
    and l: "labelled lab (log_base ss) (log_of ss @ staged)" "m < log_end ss" "nx = log_end ss + length staged"
    and u: "log_end ss = 1 \<or> sg_log (last ss) \<noteq> []" using t by (auto simp: tracked_def)
  note sd = soundD [OF s] and ch = sound_log_end(2) [OF s]
  let ?k = "deletable ss up_to"
  have k: "?k < length ss" by (rule deletable_less) (use ch in simp)
  from checkpoint_cases [OF c sd(1,2)] have "wal_inv crc w' (drop ?k ss) staged" "holds crc (unat (segment_size w)) (drop ?k ss) d'"
    "segment_size w' = segment_size w" "max_record_size w' = max_record_size w" by auto
  then have "sound crc (drop ?k ss) staged w' d'" "config_of w' = cfg" using cf by (auto simp: sound_def config_of_def)
  moreover have "log_end (drop ?k ss) = log_end ss" "sg_log (last (drop ?k ss)) = sg_log (last ss)" using k by (simp_all add: log_end_def)
  ultimately show ?thesis using labelled_drop [OF ch k l(1)] l f u unfolding tracked_def by fastforce
qed

lemma tracked_checkpoint_failed:
  assumes t: "tracked crc lab fr cfg m nx w d" and c: "checkpoint up_to w d = (Inl e, w', d')" and f: "\<forall>n. fr n"
  shows "kept crc lab fr cfg m d'"
  unfolding kept_def
proof (intro allI impI)
  fix clk d2
  assume cr: "crash d' d2" "dfaults d2 = []"
  obtain ss staged where s: "sound crc ss staged w d" and cf: "config_of w = cfg"
    and l: "labelled lab (log_base ss) (log_of ss @ staged)" "m < log_end ss"
    and u: "log_end ss = 1 \<or> sg_log (last ss) \<noteq> []" using t by (auto simp: tracked_def)
  from checkpoint_crash_reopens [OF s c cr FIRST_not_none, of "()" clk] obtain j where j: "j < length ss"
    and ok: "segs_ok crc (unat (segment_size w)) (unat (max_record_size w)) (drop j ss)"
    and ro: "reopens crc (config_of w) () (drop j ss) (open_seeded crc clk (config_of w) () FIRST d2)" by (meson le_less_trans)
  have e: "log_end (drop j ss) = log_end ss" "sg_log (last (drop j ss)) = sg_log (last ss)" using j by (simp_all add: log_end_def)
  have "m = 0 \<or> log_of (drop j ss) \<noteq> []" by (rule last_log) (use e u l(2) j in auto)
  moreover have "labelled lab (log_base (drop j ss)) (log_of (drop j ss))"
    using labelled_drop [OF sound_log_end(2) [OF s] j l(1)] by (simp add: labelled_append)
  ultimately show "\<exists>ss. segs_ok crc (unat (cfg_segment_size cfg)) (unat (cfg_max_record_size cfg)) ss
        \<and> fr (log_base ss) \<and> labelled lab (log_base ss) (log_of ss) \<and> (m = 0 \<or> log_of ss \<noteq> []) \<and> m < log_end ss
        \<and> reopens crc cfg () ss (open_wal crc clk cfg d2)"
    using ok ro l(2) cf f e by (intro exI [of _ "drop j ss"]) (auto simp: open_wal_def open_with_def)
qed

lemma tracked_weather: "tracked crc lab fr cfg m nx w (d\<lparr>dfaults := fs\<rparr>) \<longleftrightarrow> tracked crc lab fr cfg m nx w d"
  by (simp add: tracked_def sound_def)

lemma tracked_open:
  assumes "fr 1" "has_segs [] d" "names_settled d" "dfaults d = []" "\<not> lock_held d"
    and o: "open_wal crc clock cfg d = (Inr (w, report), d')"
  shows "tracked crc lab fr cfg 0 1 w d' \<and> report_durable_lsn report = lsn_of 0"
proof -
  have o': "open_seeded crc clock cfg () FIRST d = (Inr (w, report), d')" using o by (simp add: open_wal_def open_with_def)
  have c: "cfg_ok cfg" using opened_config [OF o'] by simp
  have one: "lsn_nat FIRST = 1" by (simp add: FIRST_def lsn_nat_def)
  from open_cold [OF c FIRST_not_none assms(4,5,2,3), of crc clock "()"] o' one
  have r: "report_durable_lsn report = lsn_of 0" "wal_inv crc w [new_seg crc clock 1] []"
    "holds crc (unat (cfg_segment_size cfg)) [new_seg crc clock 1] d'"
    "segment_size w = cfg_segment_size cfg" "max_record_size w = cfg_max_record_size cfg" by auto
  then have "sound crc [new_seg crc clock 1] [] w d'" "config_of w = cfg" by (simp_all add: sound_def config_of_def)
  then show ?thesis using r(1) assms(1) unfolding tracked_def
    by (intro conjI exI [of _ "[new_seg crc clock 1]"] exI [of _ "[]"]) (simp_all add: log_of_def log_base_def log_end_def seg_end_def new_seg_def)
qed

lemma kept_mono: "kept crc lab fr cfg m d \<Longrightarrow> k \<le> m \<Longrightarrow> kept crc lab fr cfg k d"
  unfolding kept_def by (metis le_less_trans le_zero_eq)

text \<open>
  What a user finds after the crash: a log that is not empty when something was announced, that
  begins at an LSN \<open>fr\<close> allows and has no gap up to the reported durable LSN, which is not below \<open>m\<close>,
  and whose records up to \<open>m\<close> are as they were written.
\<close>

definition found :: "(bytes \<Rightarrow> u32) \<Rightarrow> (nat \<Rightarrow> bytes \<Rightarrow> bool) \<Rightarrow> (nat \<Rightarrow> bool) \<Rightarrow> nat \<Rightarrow> (unit wal \<times> recovery_report) result \<times> disk \<Rightarrow> bool" where
  "found crc lab fr m out \<longleftrightarrow>
     (case out of
        (Inl e, d) \<Rightarrow> refuses e
      | (Inr (w, report), d) \<Rightarrow>
          m \<le> lsn_nat (report_durable_lsn report) \<and> 0 < lsn_nat (report_oldest_lsn report) \<and> fr (lsn_nat (report_oldest_lsn report))
          \<and> (m = 0 \<or> lsn_nat (report_oldest_lsn report) \<le> lsn_nat (report_durable_lsn report))
          \<and> (\<exists>rd rs. reader_from NONE w d = (Inr rd, d) \<and> drain crc rd d = (rs, None)
               \<and> map fst rs = map lsn_of [lsn_nat (report_oldest_lsn report) ..< Suc (lsn_nat (report_durable_lsn report))]
               \<and> (\<forall>(l, q) \<in> set rs. lsn_nat l \<le> m \<longrightarrow> lab (lsn_nat l) q)))"

lemma kept_found:
  assumes "kept crc lab fr cfg m d" "crash d d2" "dfaults d2 = []"
  shows "found crc lab fr m (open_wal crc clk cfg d2)"
proof -
  obtain ss where ok: "segs_ok crc (unat (cfg_segment_size cfg)) (unat (cfg_max_record_size cfg)) ss"
    and fr: "fr (log_base ss)" and lb: "labelled lab (log_base ss) (log_of ss)" and m: "m < log_end ss"
    and u: "m = 0 \<or> log_of ss \<noteq> []" and ro: "reopens crc cfg () ss (open_wal crc clk cfg d2)"
    using assms by (auto simp: kept_def)
  have ch: "chain ss" using ok by (simp add: segs_ok_def)
  note le = chain_log_end [OF ch]
  have b: "0 < log_base ss" "log_base ss \<le> u64_max"
    using ch ok segs_ok_bound [OF ok, of "hd ss"] by (cases ss; auto simp: segs_ok_def log_base_def seg_ok_def seg_wf_def)+
  obtain out d3 where od: "open_wal crc clk cfg d2 = (out, d3)" by fastforce
  show ?thesis
  proof (cases out)
    case (Inl e)
    then show ?thesis using ro od by (simp add: reopens_def found_def)
  next
    case (Inr wr)
    obtain w rep where wr: "wr = (w, rep)" by fastforce
    have sv: "serves crc cfg () ss w rep d3" using ro od Inr wr by (simp add: reopens_def)
    then have rep: "report_durable_lsn rep = durable_lsn w" "lsn_nat (report_oldest_lsn rep) = log_base ss"
      using b by (auto simp: serves_def)
    from serves_replay [OF sv ok] obtain rd extra where r: "reader_from NONE w d3 = (Inr rd, d3)"
      "drain crc rd d3 = (number_from (log_base ss) (log_of ss) @ extra, None)"
      "map fst extra = map lsn_of [log_end ss ..< Suc (lsn_nat (durable_lsn w))]"
      "log_end ss \<le> Suc (lsn_nat (durable_lsn w))" by auto
    let ?rs = "number_from (log_base ss) (log_of ss) @ extra"
    have up: "map fst ?rs = map lsn_of [log_base ss ..< Suc (lsn_nat (durable_lsn w))]"
      using r(3,4) le upt_add_eq_append [of "log_base ss" "log_end ss" "Suc (lsn_nat (durable_lsn w)) - log_end ss"]
      by (simp add: map_fst_number_from)
    have lim: "lsn_nat (durable_lsn w) \<le> u64_max" by (rule lsn_nat_le_max)
    have "lab (lsn_nat l) q" if lq: "(l, q) \<in> set ?rs" "lsn_nat l \<le> m" for l q
    proof -
      have "(l, q) \<notin> set extra"
      proof
        assume "(l, q) \<in> set extra"
        then have "l \<in> set (map fst extra)" by force
        then obtain i where "l = lsn_of i" "log_end ss \<le> i" "i \<le> lsn_nat (durable_lsn w)" unfolding r(3) by auto
        then show False using lq(2) m lim by simp
      qed
      then obtain i where i: "i < length (log_of ss)" "number_from (log_base ss) (log_of ss) ! i = (l, q)"
        using lq(1) by (auto simp: in_set_conv_nth)
      then have "l = lsn_of (log_base ss + i)" "q = log_of ss ! i" by (simp_all add: number_from_nth)
      moreover have "log_base ss + i \<le> u64_max" using i(1) le r(4) lim by linarith
      ultimately show ?thesis using lb i(1) by (simp add: labelled_def)
    qed
    moreover have "m = 0 \<or> log_base ss \<le> lsn_nat (durable_lsn w)" using u le r(4) by (cases "log_of ss") auto
    ultimately show ?thesis
      using od Inr wr rep r m b(1) up fr by (auto simp: found_def)
  qed
qed

section \<open>The crash child keeps what it announces\<close>

definition child_lab :: "nat \<Rightarrow> bytes \<Rightarrow> bool" where
  "child_lab n p \<longleftrightarrow> p = rec_name 8 n"

text \<open>Without checkpoints nothing is reclaimed: the log begins at LSN 1.\<close>

definition child_oldest :: "bool \<Rightarrow> nat \<Rightarrow> bool" where
  "child_oldest checkpoint_mode n \<longleftrightarrow> checkpoint_mode \<or> n = 1"

text \<open>What holds between two steps of the child, and what holds of the directory it leaves.\<close>

definition child_inv :: "(bytes \<Rightarrow> u32) \<Rightarrow> bool \<Rightarrow> child \<Rightarrow> bool" where
  "child_inv crc ck st \<longleftrightarrow> (\<exists>m nx. tracked crc child_lab (child_oldest ck) (child_config ck) m nx (c_wal st) (c_disk st)
     \<and> c_next st = word_of_nat nx \<and> (\<forall>a \<in> set (c_out st). unat a \<le> m))"

definition child_kept :: "(bytes \<Rightarrow> u32) \<Rightarrow> bool \<Rightarrow> child \<Rightarrow> bool" where
  "child_kept crc ck st \<longleftrightarrow> (\<exists>m. kept crc child_lab (child_oldest ck) (child_config ck) m (c_disk st) \<and> (\<forall>a \<in> set (c_out st). unat a \<le> m))"

lemma child_invI:
  "tracked crc child_lab (child_oldest ck) (child_config ck) m nx (c_wal st) (c_disk st) \<Longrightarrow> c_next st = word_of_nat nx \<Longrightarrow>
   \<forall>a \<in> set (c_out st). unat a \<le> m \<Longrightarrow> child_inv crc ck st"
  unfolding child_inv_def by blast

lemma child_inv_kept: "child_inv crc ck st \<Longrightarrow> child_kept crc ck st"
  by (auto simp: child_inv_def child_kept_def dest: tracked_kept)

definition child_ok :: "(bytes \<Rightarrow> u32) \<Rightarrow> bool \<Rightarrow> process \<times> child \<Rightarrow> bool" where
  "child_ok crc ck r \<longleftrightarrow> child_kept crc ck (snd r) \<and> (fst r = Running \<longrightarrow> child_inv crc ck (snd r))"

lemma child_okI: "child_inv crc ck st \<Longrightarrow> child_ok crc ck (p, st)"
  by (simp add: child_ok_def child_inv_kept)

lemma child_commit_ok:
  assumes "child_inv crc ck st"
  shows "child_ok crc ck (child_commit crc clock ck st)"
proof -
  obtain m nx where t: "tracked crc child_lab (child_oldest ck) (child_config ck) m nx (c_wal st) (c_disk st)"
    and n: "c_next st = word_of_nat nx" and out: "\<forall>a \<in> set (c_out st). unat a \<le> m" using assms by (auto simp: child_inv_def)
  obtain r w d where c: "commit crc clock null_on_durable (c_wal st) (c_disk st) = (r, w, d)" by (cases "commit crc clock null_on_durable (c_wal st) (c_disk st)")
  show ?thesis
  proof (cases r)
    case (Inl e)
    then show ?thesis
      using tracked_commit_failed [OF t c [unfolded Inl]] c out by (auto simp: child_commit_def child_ok_def child_kept_def)
  next
    case (Inr l)
    note tc = tracked_commit [OF t c [unfolded Inr]]
    have l: "lsn_val l = word_of_nat (nx - 1)" "unat (lsn_val l) = nx - 1"
      using tc by (simp_all add: lsn_of_def unat_of_nat u64_max_def)
    have new: "\<forall>a \<in> set (c_out st @ [lsn_val l]). unat a \<le> nx - 1" using out tc l(2) by auto
    show ?thesis
    proof (cases ck)
      case True
      then have ckall: "\<forall>n. child_oldest ck n" by (simp add: child_oldest_def)
      obtain r2 w2 d2 where c2: "checkpoint l w d = (r2, w2, d2)" by (cases "checkpoint l w d")
      show ?thesis
      proof (cases r2)
        case (Inl e)
        have "\<forall>a \<in> set (c_out st). unat a \<le> nx - 1" using new by simp
        then show ?thesis
          using tracked_checkpoint_failed [OF conjunct1 [OF tc] c2 [unfolded Inl]] ckall c Inr True c2 Inl
          by (auto simp: child_commit_def child_ok_def child_kept_def)
      next
        case (Inr u)
        show ?thesis
          using tracked_checkpoint [OF conjunct1 [OF tc] c2 [unfolded Inr]] ckall c \<open>r = Inr l\<close> True c2 Inr new n
          by (auto simp: child_commit_def intro!: child_okI child_invI [where m = "nx - 1" and nx = nx])
      qed
    next
      case False
      then show ?thesis using tc c Inr new n
        by (auto simp: child_commit_def intro!: child_okI child_invI [where m = "nx - 1" and nx = nx])
    qed
  qed
qed

lemma child_round_ok:
  assumes "child_inv crc ck st"
  shows "child_ok crc ck (child_round crc clock ck st)"
proof -
  obtain m nx where t: "tracked crc child_lab (child_oldest ck) (child_config ck) m nx (c_wal st) (c_disk st)"
    and n: "c_next st = word_of_nat nx" and out: "\<forall>a \<in> set (c_out st). unat a \<le> m" using assms by (auto simp: child_inv_def)
  let ?p = "rec_name 8 (unat (c_next st))"
  obtain r w where a: "wal_append crc ?p (c_wal st) = (r, w)" by fastforce
  show ?thesis
  proof (cases r)
    case (Inl e)
    then show ?thesis
      using a tracked_append_failed [OF t a [unfolded Inl]] t n out
      by (auto simp: child_round_def intro!: child_okI child_invI [where m = m and nx = nx])
  next
    case (Inr l)
    have nx: "nx \<le> u64_max" by (rule tracked_appended_bound [OF t a [unfolded Inr]])
    then have "unat (c_next st) = nx" by (simp add: n unat_of_nat u64_max_def)
    then have "child_lab nx ?p" by (simp add: child_lab_def)
    note ta = tracked_append [OF t a [unfolded Inr] this]
    then have l: "lsn_val l = c_next st" by (simp add: n lsn_of_def)
    have "child_inv crc ck (st\<lparr>c_wal := w, c_next := c_next st + 1, c_since := c_since st + 1\<rparr>)"
      using ta n out by (intro child_invI [where m = m and nx = "Suc nx"]) simp_all
    then show ?thesis using a Inr l by (simp add: child_round_def Let_def child_commit_ok child_okI)
  qed
qed

lemma child_loop_ok: "child_inv crc ck st \<Longrightarrow> child_kept crc ck (snd (child_loop crc clock ck fuel st))"
proof (induction fuel arbitrary: st)
  case (Suc fuel)
  have "child_ok crc ck (child_round crc clock ck st)" "child_ok crc ck (child_commit crc clock ck st)"
    using child_round_ok child_commit_ok Suc.prems by blast+
  then show ?case
    using Suc.IH by (auto simp: child_ok_def split: prod.splits process.splits)
qed (simp add: child_inv_kept)

text \<open>C18. The crash child: started on an empty directory in either mode, with any failing system
  calls, killed after any number of rounds and then cut from power, it leaves a directory whose
  reopening is refused or gives a log that reaches every LSN the child has announced. The replay is
  dense from the oldest to the durable LSN and not empty once something was announced; every
  record in it up to the announced LSN is the one the child wrote; and without checkpoints it begins
  at LSN 1, so that every announced record is there.\<close>

theorem crash_child_keeps_announced:
  assumes "has_segs [] d0" "names_settled d0" "dfaults d0 = []" "\<not> lock_held d0"
    and "crash_child crc clock a weather fuel d0 = (p, d1, out)" "x \<in> set out"
    and "crash d1 d2" "dfaults d2 = []"
  shows "found crc child_lab (child_oldest (nth_arg a 2 = Some ''checkpoint'')) (unat x) (open_wal crc clk (child_config (nth_arg a 2 = Some ''checkpoint'')) d2)"
proof -
  let ?ck = "nth_arg a 2 = Some ''checkpoint''"
  obtain w report d where o: "open_wal crc clock (child_config ?ck) d0 = (Inr (w, report), d)"
    using assms(5,6) by (auto simp: crash_child_def Let_def split: option.splits prod.splits sum.splits)
  let ?st = "\<lparr>c_wal = w, c_disk = d\<lparr>dfaults := weather\<rparr>, c_next = lsn_val (report_durable_lsn report) + 1, c_since = 0, c_out = []\<rparr>"
  obtain st where st: "snd (child_loop crc clock ?ck fuel ?st) = st" "d1 = c_disk st" "out = c_out st"
    using assms(5,6) o by (auto simp: crash_child_def Let_def split: option.splits prod.splits)
  from tracked_open [where fr = "child_oldest ?ck" and lab = child_lab, OF _ assms(1-4) o] have "child_inv crc ?ck ?st"
    by (intro child_invI [where m = 0 and nx = 1]) (simp_all add: tracked_weather lsn_of_def child_oldest_def)
  from child_loop_ok [OF this, of clock fuel] st obtain m where "kept crc child_lab (child_oldest ?ck) (child_config ?ck) m d1" "unat x \<le> m"
    using assms(6) by (auto simp: child_kept_def)
  from kept_found [OF kept_mono [OF this] assms(7,8)] show ?thesis .
qed

section \<open>The crash child completes\<close>

lemma length_rec_name: "n < 10 ^ k \<Longrightarrow> 0 < k \<Longrightarrow> length (rec_name k n) = k + 4"
  by (simp add: rec_name_def as_bytes_def length_pad_dec)

definition child_live :: "(bytes \<Rightarrow> u32) \<Rightarrow> bool \<Rightarrow> nat \<Rightarrow> child \<Rightarrow> bool" where
  "child_live crc ck nx st \<longleftrightarrow> c_next st = word_of_nat nx
     \<and> (\<exists>v. live crc (child_config ck) FIRST (c_wal st, c_disk st) v \<and> v_next v = nx)"

lemma child_commit_live:
  assumes "child_live crc ck nx st" "nx \<le> u64_max"
  shows "\<exists>st'. child_commit crc clock ck st = (Running, st') \<and> child_live crc ck nx st' \<and> last (c_out st') = word_of_nat (nx - 1) \<and> c_out st' \<noteq> []"
proof -
  obtain v where v: "live crc (child_config ck) FIRST (c_wal st, c_disk st) v" "v_next v = nx" and n: "c_next st = word_of_nat nx"
    using assms(1) by (auto simp: child_live_def)
  let ?v = "v\<lparr>v_log := v_log v @ v_staged v, v_staged := []\<rparr>"
  from wl.sync_law [OF v(1), of clock null_on_durable] obtain w d where
    c: "commit crc clock null_on_durable (c_wal st) (c_disk st) = (Inr (lsn_of (nx - 1)), w, d)"
    and l: "live crc (child_config ck) FIRST (w, d) ?v"
    using v(2) by (auto simp: wal_sync_def split: prod.splits sum.splits)
  have n': "v_next ?v = nx" using v(2) by (simp add: v_next_def v_end_def)
  show ?thesis
  proof (cases ck)
    case True
    have mn: "min (nx - 1) u64_max = nx - 1" using assms(2) by simp
    from wl.trim_law [OF l, of "nx - 1"] obtain k w' d' where
      t: "checkpoint (lsn_of (nx - 1)) w d = (Inr (), w', d')" "k \<le> length (v_log ?v)"
      "live crc (child_config ck) FIRST (w', d') (?v\<lparr>v_base := v_base ?v + k, v_log := drop k (v_log ?v)\<rparr>)"
      unfolding wal_trim_def mn by (auto split: prod.splits)
    have "v_next (?v\<lparr>v_base := v_base ?v + k, v_log := drop k (v_log ?v)\<rparr>) = nx"
      using n' t(2) by (simp add: v_next_def v_end_def)
    then show ?thesis using c t(1,3) True n by (auto simp: child_commit_def child_live_def lsn_of_def)
  next
    case False
    then show ?thesis using c l n n' by (auto simp: child_commit_def child_live_def lsn_of_def)
  qed
qed

lemma child_round_live:
  assumes "child_live crc ck nx st" "nx \<le> 50000"
  shows "\<exists>st'. child_round crc clock ck st = (Running, st') \<and> child_live crc ck (Suc nx) st'"
proof -
  obtain v where v: "live crc (child_config ck) FIRST (c_wal st, c_disk st) v" "v_next v = nx" and n: "c_next st = word_of_nat nx"
    using assms(1) by (auto simp: child_live_def)
  have u: "unat (c_next st) = nx" using assms(2) by (simp add: n unat_of_nat)
  have fit: "fits_record (child_config ck) (rec_name 8 nx)"
    using assms(2) by (simp add: fits_record_def length_rec_name child_config_def CKPT_MAX_RECORD_SIZE_def CHILD_MAX_RECORD_SIZE_def)
  have "v_next v \<le> u64_max" using v(2) assms(2) by (simp add: u64_max_def)
  from wl.add_law [OF v(1) fit this] obtain w where a: "wal_append crc (rec_name 8 nx) (c_wal st) = (Inr (lsn_of nx), w)"
    and l: "live crc (child_config ck) FIRST (w, c_disk st) (v\<lparr>v_staged := v_staged v @ [rec_name 8 nx]\<rparr>)"
    using v(2) by (auto simp: wal_add_def split: prod.splits sum.splits)
  let ?st = "st\<lparr>c_wal := w, c_next := c_next st + 1, c_since := c_since st + 1\<rparr>"
  have li: "child_live crc ck (Suc nx) ?st" unfolding child_live_def
    using l v(2) n by (auto simp: v_next_def v_end_def intro!: exI [of _ "v\<lparr>v_staged := v_staged v @ [rec_name 8 nx]\<rparr>"])
  have "Suc nx \<le> u64_max" using assms(2) by (simp add: u64_max_def)
  from child_commit_live [OF li this, of clock] li a n u show ?thesis
    by (auto simp: child_round_def Let_def lsn_of_def)
qed

lemma child_loop_completes:
  assumes "child_live crc ck nx st" "nx \<le> 50001" "50001 - nx < fuel"
  shows "\<exists>st'. child_loop crc clock ck fuel st = (Finished, st') \<and> c_out st' \<noteq> [] \<and> last (c_out st') = 50000"
  using assms
proof (induction fuel arbitrary: nx st)
  case (Suc fuel)
  have n: "c_next st \<le> TOTAL \<longleftrightarrow> nx \<le> 50000"
    using Suc.prems(1,2) by (simp add: child_live_def TOTAL_def word_le_nat_alt unat_of_nat)
  show ?case
  proof (cases "nx \<le> 50000")
    case True
    from child_round_live [OF Suc.prems(1) True, of clock] obtain st' where
      r: "child_round crc clock ck st = (Running, st')" "child_live crc ck (Suc nx) st'" by blast
    from Suc.IH [OF r(2)] Suc.prems True show ?thesis by (simp add: n r(1))
  next
    case False
    then have nx: "nx = 50001" using Suc.prems(2) by simp
    have "nx \<le> u64_max" by (simp add: nx u64_max_def)
    from child_commit_live [OF Suc.prems(1) this, of clock] show ?thesis using False by (auto simp: n nx)
  qed
qed simp

lemma child_completes:
  assumes "has_segs [] d0" "names_settled d0" "dfaults d0 = []" "\<not> lock_held d0"
    and "1 < length a" "50000 < fuel"
  shows "\<exists>d out. crash_child crc clock a [] fuel d0 = (Finished, d, out) \<and> out \<noteq> [] \<and> last out = 50000"
proof -
  let ?ck = "nth_arg a 2 = Some ''checkpoint''" and ?cfg = "child_config (nth_arg a 2 = Some ''checkpoint'')"
  have ok: "cfg_ok ?cfg"
    by (simp add: cfg_ok_def child_config_def CHILD_SEGMENT_SIZE_def CHILD_MAX_RECORD_SIZE_def CKPT_SEGMENT_SIZE_def CKPT_MAX_RECORD_SIZE_def)
  have one: "lsn_nat FIRST = 1" by (simp add: FIRST_def lsn_nat_def)
  obtain w d where o: "open_seeded crc clock ?cfg () FIRST d0 = (Inr (w, \<lparr>report_oldest_lsn = FIRST, report_durable_lsn = lsn_of 0,
                report_tail_state = Clean, report_segments_scanned = 1\<rparr>), d)"
    "wal_inv crc w [new_seg crc clock 1] []" "holds crc (unat (cfg_segment_size ?cfg)) [new_seg crc clock 1] d" "lock_held d" "dfaults d = []"
    "segment_size w = cfg_segment_size ?cfg" "max_record_size w = cfg_max_record_size ?cfg"
    using open_cold [OF ok FIRST_not_none assms(3,4,1,2), of crc clock "()"] one by auto
  have self: "d\<lparr>dfaults := []\<rparr> = d" using o(5) by (cases d) simp
  have "live crc ?cfg FIRST (w, d) \<lparr>v_base = 1, v_log = [], v_staged = []\<rparr>"
    using o ok by (auto simp: live_def log_base_def log_of_def)
  then have "child_live crc ?ck 1 \<lparr>c_wal = w, c_disk = d, c_next = lsn_val (lsn_of 0) + 1, c_since = 0, c_out = []\<rparr>"
    by (auto simp: child_live_def v_next_def v_end_def lsn_of_def intro!: exI [of _ "\<lparr>v_base = 1, v_log = [], v_staged = []\<rparr>"])
  from child_loop_completes [OF this, of fuel clock] assms(5,6) o(1) self show ?thesis
    by (auto simp: crash_child_def nth_arg_def open_wal_def open_with_def Let_def)
qed

text \<open>C20. The crash child completes: on an empty directory and without failures it ends after its
  50,000 rounds, in both modes, and the last thing it announces is its last LSN.\<close>

theorem crash_child_completes:
  assumes "has_segs [] d0" "names_settled d0" "dfaults d0 = []" "\<not> lock_held d0"
    and "1 < length a" "50000 < fuel"
  shows "\<exists>d out. crash_child crc clock a [] fuel d0 = (Finished, d, out) \<and> out \<noteq> [] \<and> last out = 50000"
  using child_completes [OF assms] .

theorem crash_child_completes_witness:
  "\<exists>d out. crash_child csum ex_clock [''crash_child'', ''/tmp/wal'', ''checkpoint''] [] 50001 ex_disk = (Finished, d, out)
     \<and> out \<noteq> [] \<and> last out = 50000"
  by (rule crash_child_completes) simp_all

theorem crash_child_keeps_announced_witness:
  "\<exists>d1. found csum child_lab (child_oldest False) 50000 (open_wal csum ex_clock (child_config False) (d1\<lparr>lock_held := False, dfaults := []\<rparr>))"
proof -
  let ?a = "[''crash_child'', ''/tmp/wal'']"
  obtain d out where r: "crash_child csum ex_clock ?a [] 50001 ex_disk = (Finished, d, out)" "out \<noteq> []" "last out = 50000"
    using child_completes [of ex_disk ?a 50001 csum ex_clock] by auto
  have "(50000 :: u64) \<in> set out" using r(2,3) last_in_set [of out] by metis
  from crash_child_keeps_announced [OF ex_disk_simps(3,4,1,2) r(1) this crash_process] show ?thesis
    by (intro exI [of _ d]) (simp add: nth_arg_def)
qed

end
