(* ===== verification/Wal_Power_Pull.thy ===== *)
theory Wal_Power_Pull
  imports Wal_Workloads
begin

text \<open>
  The verifier \<^verbatim>\<open>power_pull_verify\<close> of \<^verbatim>\<open>src/bin\<close> and the protocol it checks: the workloads write a
  line to a side channel after each commit that has returned, the power is cut, and the verifier
  reads what arrived on the channel, recovers the log and compares. The theorems compose the
  workload, the crash model, recovery and the verifier: the verdict is never a failure.
\<close>

section \<open>The verifier\<close>

definition VERIFY_SEGMENT_SIZE :: u64 where
  "VERIFY_SEGMENT_SIZE = 8 * 1024 * 1024"

definition VERIFY_MAX_RECORD_SIZE :: u32 where
  "VERIFY_MAX_RECORD_SIZE = 4096"

definition verify_config :: "(string \<Rightarrow> string option) \<Rightarrow> wal_config" where
  "verify_config env =
     \<lparr>cfg_segment_size = setting rust_parse_u64 (env ''WAL_SEGMENT_SIZE'') VERIFY_SEGMENT_SIZE,
      cfg_max_record_size = setting rust_parse_u32 (env ''WAL_MAX_RECORD_SIZE'') VERIFY_MAX_RECORD_SIZE\<rparr>"

text \<open>\<^verbatim>\<open>str::lines\<close>: a carriage return before a line feed belongs to the line end.\<close>

definition strip_cr :: "string \<Rightarrow> string" where
  "strip_cr l = (if l \<noteq> [] \<and> last l = CHR 0x0D then butlast l else l)"

function rust_lines :: "string \<Rightarrow> string list" where
  "rust_lines s =
     (if s = [] then []
      else
        case dropWhile (\<lambda>c. c \<noteq> CHR 0x0A) s of
          [] \<Rightarrow> [s]
        | _ # r \<Rightarrow> strip_cr (takeWhile (\<lambda>c. c \<noteq> CHR 0x0A) s) # rust_lines r)"
  by pat_completeness auto
termination
proof (relation "measure length")
  fix s r :: string and c
  assume "dropWhile (\<lambda>c. c \<noteq> CHR 0x0A) s = c # r"
  then show "(r, s) \<in> measure length" using length_dropWhile_le [of "\<lambda>c. c \<noteq> CHR 0x0A" s] by simp
qed simp

declare rust_lines.simps [simp del]

definition split_once :: "char \<Rightarrow> string \<Rightarrow> (string \<times> string) option" where
  "split_once c s =
     (case dropWhile (\<lambda>x. x \<noteq> c) s of [] \<Rightarrow> None | _ # r \<Rightarrow> Some (takeWhile (\<lambda>x. x \<noteq> c) s, r))"

definition is_space :: "char \<Rightarrow> bool" where
  "is_space c \<longleftrightarrow> c = CHR '' '' \<or> (9::nat) \<le> of_char c \<and> (of_char c :: nat) \<le> 13"

definition trim :: "string \<Rightarrow> string" where
  "trim s = rev (dropWhile is_space (rev (dropWhile is_space s)))"

definition parse_line :: "string \<Rightarrow> (u64 \<times> u64) option" where
  "parse_line line =
     (case split_once (CHR '','') line of
        None \<Rightarrow> None
      | Some (s, w) \<Rightarrow>
          (case (rust_parse_u64 (trim s), rust_parse_u64 (trim w)) of
             (Some sq, Some wm) \<Rightarrow> Some (sq, wm)
           | _ \<Rightarrow> None))"

text \<open>The ordered map of the verifier, as the list of its entries in the order of the keys.\<close>

fun btree_insert :: "'k::linorder \<Rightarrow> 'v \<Rightarrow> ('k \<times> 'v) list \<Rightarrow> ('k \<times> 'v) list" where
  "btree_insert k v [] = [(k, v)]"
| "btree_insert k v ((k', v') # m) =
     (if k < k' then (k, v) # (k', v') # m else if k = k' then (k, v) # m else (k', v') # btree_insert k v m)"

definition by_seq :: "string \<Rightarrow> (u64 \<times> u64) list" where
  "by_seq text = fold (\<lambda>(sq, wm). btree_insert sq wm) (List.map_filter parse_line (rust_lines text)) []"

text \<open>Whether there is a gap, and the high-water mark before it.\<close>

fun contiguous :: "(u64 \<times> u64) list \<Rightarrow> u64 \<Rightarrow> u64 \<Rightarrow> bool \<times> u64" where
  "contiguous [] high_water expected_seq = (False, high_water)"
| "contiguous ((sq, wm) # m) high_water expected_seq =
     (if sq \<noteq> expected_seq then (True, high_water) else contiguous m wm (expected_seq + 1))"

definition starts_with :: "bytes \<Rightarrow> bytes \<Rightarrow> bool" where
  "starts_with bs pre \<longleftrightarrow> take (length pre) bs = pre"

text \<open>The loop over the recovered records: the highest LSN seen, or \<open>None\<close> for a failure.\<close>

fun verify_records :: "(lsn \<times> bytes) list \<Rightarrow> u64 \<Rightarrow> u64 \<Rightarrow> u64 \<Rightarrow> u64 option" where
  "verify_records [] expected high_water highest_seen = Some highest_seen"
| "verify_records ((l, payload) # rs) expected high_water highest_seen =
     (if lsn_val l \<noteq> expected then None
      else if lsn_val l \<le> high_water \<and> \<not> starts_with payload (rec_name 16 (lsn_nat l)) then None
      else verify_records rs (expected + 1) high_water (lsn_val l))"

text \<open>\<open>capture\<close> is the content of the capture file, \<open>None\<close> when it cannot be read.\<close>

definition power_pull_verify ::
    "(bytes \<Rightarrow> u32) \<Rightarrow> (lsn \<Rightarrow> u64) \<Rightarrow> (string \<Rightarrow> string option) \<Rightarrow> string list \<Rightarrow> string option \<Rightarrow> disk \<Rightarrow> process" where
  "power_pull_verify crc clock env a capture d =
     (if length a < 3 then Exited 2
      else
        case capture of
          None \<Rightarrow> Panicked
        | Some text \<Rightarrow>
            if by_seq text = [] then Exited 2
            else
              (case contiguous (by_seq text) 0 1 of
                 (True, high_water) \<Rightarrow> Exited 2
               | (False, high_water) \<Rightarrow>
                   (case open_wal crc clock (verify_config env) d of
                      (Inl e, d1) \<Rightarrow> Panicked
                    | (Inr (w, report), d1) \<Rightarrow>
                        (case reader_from (Lsn 0) w d1 of
                           (Inl e, d2) \<Rightarrow> Panicked
                         | (Inr rd, d2) \<Rightarrow>
                             (case drain crc rd d2 of
                                (rs, err) \<Rightarrow>
                                  (case verify_records rs (max (lsn_val (report_oldest_lsn report)) 1) high_water 0 of
                                     None \<Rightarrow> Exited 1
                                   | Some highest_seen \<Rightarrow>
                                       if err \<noteq> None then Panicked
                                       else if highest_seen < high_water then Exited 1
                                       else Finished))))))"

section \<open>Reading a torn capture\<close>

fun ack_text :: "nat \<Rightarrow> nat list \<Rightarrow> string" where
  "ack_text n [] = []"
| "ack_text n (w # ws) = ack_line n w @ ack_text (Suc n) ws"

lemma ack_text_snoc: "ack_text n (ws @ [w]) = ack_text n ws @ ack_line (n + length ws) w"
  by (induction ws arbitrary: n) simp_all

lemma digit_not: "is_ascii_digit c \<Longrightarrow> c \<noteq> CHR 0x0A \<and> c \<noteq> CHR 0x0D \<and> c \<noteq> CHR '','' \<and> c \<noteq> CHR ''+'' \<and> \<not> is_space c"
  by (auto simp: is_ascii_digit_def is_space_def)

lemma digits_trim: "list_all is_ascii_digit s \<Longrightarrow> trim s = s"
proof -
  assume d: "list_all is_ascii_digit s"
  have "dropWhile is_space r = r" if "list_all is_ascii_digit r" for r
    using that digit_not by (cases r) auto
  from this [OF d] this [of "rev s"] d show ?thesis by (simp add: trim_def list_all_rev)
qed

lemma digits_parse:
  assumes "list_all is_ascii_digit s" "s \<noteq> []"
  shows "rust_parse_u64 (trim s) = parse_u64 s"
  using assms digit_not by (cases s) (auto simp: digits_trim rust_parse_u64_def Let_def)

lemma show_dec_neq_Nil: "show_dec n \<noteq> []"
  by (subst show_dec.simps) simp

lemma dec_val_take_le: "dec_val (take k s) \<le> dec_val s"
proof (induction s rule: rev_induct)
  case (snoc c s)
  then show ?case by (cases "k \<le> length s") (auto simp: dec_val_append intro: le_trans)
qed simp

lemma parse_digits_take:
  assumes "w \<le> u64_max" "0 < k"
  shows "\<exists>v. rust_parse_u64 (trim (take k (show_dec w))) = Some v \<and> unat v \<le> w"
proof -
  let ?t = "take k (show_dec w)"
  have le: "dec_val ?t \<le> w" using dec_val_take_le [of k "show_dec w"] by (simp add: dec_val_show_dec)
  have "list_all is_ascii_digit ?t" using show_dec_digits [of w] by (auto simp: list_all_iff dest: in_set_takeD)
  moreover have "?t \<noteq> []" using assms(2) show_dec_neq_Nil by simp
  ultimately show ?thesis
    using le assms(1) by (simp add: digits_parse parse_u64_def unat_of_nat u64_max_def)
qed

lemma parse_digits: "w \<le> u64_max \<Longrightarrow> rust_parse_u64 (trim (show_dec w)) = Some (word_of_nat w)"
  by (simp add: digits_parse show_dec_digits show_dec_neq_Nil parse_u64_def dec_val_show_dec)

lemma split_once_digits:
  assumes "list_all is_ascii_digit s"
  shows "split_once (CHR '','') (s @ CHR '','' # t) = Some (s, t)" "split_once (CHR '','') s = None"
proof -
  have n: "\<And>c. c \<in> set s \<Longrightarrow> c \<noteq> CHR '',''" using assms digit_not by (auto simp: list_all_iff)
  have "dropWhile (\<lambda>x. x \<noteq> CHR '','') (s @ CHR '','' # t) = CHR '','' # t" by (subst dropWhile_append2) (simp_all add: n)
  moreover have "takeWhile (\<lambda>x. x \<noteq> CHR '','') (s @ CHR '','' # t) = s" by (subst takeWhile_append2) (simp_all add: n)
  ultimately show "split_once (CHR '','') (s @ CHR '','' # t) = Some (s, t)" by (simp add: split_once_def)
  have "dropWhile (\<lambda>x. x \<noteq> CHR '','') s = []" using n by simp
  then show "split_once (CHR '','') s = None" by (simp add: split_once_def del: dropWhile_eq_Nil_conv)
qed

text \<open>The lines of a text whose last line may be torn.\<close>

lemma rust_lines_line:
  assumes "\<And>c. c \<in> set l \<Longrightarrow> c \<noteq> CHR 0x0A \<and> c \<noteq> CHR 0x0D"
  shows "rust_lines (l @ CHR 0x0A # r) = l # rust_lines r" "l \<noteq> [] \<Longrightarrow> rust_lines l = [l]"
proof -
  have "dropWhile (\<lambda>c. c \<noteq> CHR 0x0A) (l @ CHR 0x0A # r) = CHR 0x0A # r" by (subst dropWhile_append2) (simp_all add: assms)
  moreover have "takeWhile (\<lambda>c. c \<noteq> CHR 0x0A) (l @ CHR 0x0A # r) = l" by (subst takeWhile_append2) (simp_all add: assms)
  moreover have "l \<noteq> [] \<Longrightarrow> last l \<noteq> CHR 0x0D" using assms last_in_set by blast
  then have "strip_cr l = l" by (auto simp: strip_cr_def)
  ultimately show "rust_lines (l @ CHR 0x0A # r) = l # rust_lines r" by (subst rust_lines.simps) simp
  have "dropWhile (\<lambda>c. c \<noteq> CHR 0x0A) l = []" using assms by simp
  then show "l \<noteq> [] \<Longrightarrow> rust_lines l = [l]" by (subst rust_lines.simps) (simp del: dropWhile_eq_Nil_conv)
qed

fun numbered :: "nat \<Rightarrow> u64 list \<Rightarrow> (u64 \<times> u64) list" where
  "numbered n [] = []"
| "numbered n (v # vs) = (word_of_nat n, v) # numbered (Suc n) vs"

definition body :: "nat \<Rightarrow> nat \<Rightarrow> string" where
  "body n w = show_dec n @ CHR '','' # show_dec w"

lemma ack_line_body: "ack_line n w = body n w @ [CHR 0x0A]"
  by (simp add: ack_line_def body_def)

lemma body_chars: "c \<in> set (body n w) \<Longrightarrow> c \<noteq> CHR 0x0A \<and> c \<noteq> CHR 0x0D"
  using show_dec_digits [of n] show_dec_digits [of w] digit_not by (auto simp: body_def list_all_iff)

lemma parse_line_body: "n \<le> u64_max \<Longrightarrow> w \<le> u64_max \<Longrightarrow> parse_line (body n w) = Some (word_of_nat n, word_of_nat w)"
  by (simp add: parse_line_def body_def split_once_digits show_dec_digits parse_digits)

lemma parse_line_torn:
  assumes "n \<le> u64_max" "w \<le> u64_max"
  shows "parse_line (take j (body n w)) = None \<or> (\<exists>v. parse_line (take j (body n w)) = Some (word_of_nat n, v) \<and> unat v \<le> w)"
proof (cases "j \<le> length (show_dec n)")
  case True
  have "list_all is_ascii_digit (take j (show_dec n))" using show_dec_digits [of n] by (auto simp: list_all_iff dest: in_set_takeD)
  then show ?thesis using True by (simp add: parse_line_def body_def split_once_digits)
next
  case False
  then obtain i where i: "j = length (show_dec n) + Suc i" by (metis add_Suc_right less_iff_Suc_add linorder_not_le)
  have t: "take j (body n w) = show_dec n @ CHR '','' # take i (show_dec w)" by (simp add: i body_def)
  have "rust_parse_u64 (trim []) = None" by (simp add: trim_def rust_parse_u64_def)
  then show ?thesis
    using parse_digits_take [OF assms(2), of i] assms(1)
    by (cases "i = 0") (auto simp: t parse_line_def split_once_digits show_dec_digits parse_digits)
qed

lemma capture_entries:
  assumes "n + length ws \<le> u64_max" "\<forall>w \<in> set ws. w \<le> m" "m \<le> u64_max"
  shows "\<exists>vs. List.map_filter parse_line (rust_lines (take j (ack_text n ws))) = numbered n vs
    \<and> length vs \<le> length ws \<and> (\<forall>v \<in> set vs. unat v \<le> m)
    \<and> (CHR 0x0A \<in> set (take j (ack_text n ws)) \<longrightarrow> vs \<noteq> [])"
  using assms
proof (induction ws arbitrary: n j)
  case Nil
  then show ?case by (simp add: rust_lines.simps map_filter_def exI [of _ "[]"])
next
  case (Cons w ws)
  have w: "w \<le> u64_max" "w \<le> m" "n \<le> u64_max" using Cons.prems by auto
  let ?b = "body n w"
  show ?case
  proof (cases "length ?b < j")
    case True
    then obtain i where j: "j = Suc (length ?b + i)" using less_iff_Suc_add by blast
    have t: "take j (ack_text n (w # ws)) = ?b @ CHR 0x0A # take i (ack_text (Suc n) ws)"
      unfolding j ack_text.simps ack_line_body by simp
    have pre: "Suc n + length ws \<le> u64_max" "\<forall>w \<in> set ws. w \<le> m" using Cons.prems by simp_all
    from Cons.IH [OF pre Cons.prems(3), of i] obtain vs where vs: "List.map_filter parse_line (rust_lines (take i (ack_text (Suc n) ws))) = numbered (Suc n) vs"
      "length vs \<le> length ws" "\<forall>v \<in> set vs. unat v \<le> m" by blast
    have "rust_lines (take j (ack_text n (w # ws))) = ?b # rust_lines (take i (ack_text (Suc n) ws))"
      unfolding t by (rule rust_lines_line(1)) (rule body_chars)
    then show ?thesis
      using vs w parse_line_body [OF w(3,1)]
      by (intro exI [of _ "word_of_nat w # vs"]) (simp add: map_filter_simps unat_of_nat u64_max_def)
  next
    case False
    then have t: "take j (ack_text n (w # ws)) = take j ?b" by (simp add: ack_line_body)
    have nl: "CHR 0x0A \<notin> set (take j ?b)" using body_chars in_set_takeD by fast
    show ?thesis
    proof (cases "take j ?b = []")
      case True
      then show ?thesis unfolding t using nl by (intro exI [of _ "[]"]) (simp add: rust_lines.simps map_filter_simps)
    next
      case ne: False
      have l: "rust_lines (take j ?b) = [take j ?b]"
        by (rule rust_lines_line(2) [OF _ ne]) (use body_chars in_set_takeD in fast)
      from parse_line_torn [OF w(3,1), of j] show ?thesis
      proof (elim disjE exE conjE)
        assume "parse_line (take j ?b) = None"
        then show ?thesis unfolding t l using nl by (intro exI [of _ "[]"]) (simp add: map_filter_simps)
      next
        fix v assume "parse_line (take j ?b) = Some (word_of_nat n, v)" "unat v \<le> w"
        then show ?thesis unfolding t l using nl w(2) by (intro exI [of _ "[v]"]) (auto simp: map_filter_simps)
      qed
    qed
  qed
qed

lemma btree_insert_last: "\<forall>(k', v') \<in> set m. k' < k \<Longrightarrow> btree_insert k v m = m @ [(k, v)]"
  by (induction m) auto

lemma fold_numbered:
  assumes "n + length vs \<le> u64_max" "\<forall>(k, v) \<in> set m. unat k < n"
  shows "fold (\<lambda>(sq, wm). btree_insert sq wm) (numbered n vs) m = m @ numbered n vs"
  using assms
proof (induction vs arbitrary: n m)
  case (Cons v vs)
  have n: "unat (word_of_nat n :: u64) = n" using Cons.prems(1) by (simp add: unat_of_nat u64_max_def)
  have "\<forall>(k', v') \<in> set m. k' < word_of_nat n" using Cons.prems(2) n by (auto simp: word_less_nat_alt)
  then have i: "btree_insert (word_of_nat n) v m = m @ [(word_of_nat n, v)]" by (rule btree_insert_last)
  have "\<forall>(k, v) \<in> set (m @ [(word_of_nat n, v)]). unat k < Suc n" using Cons.prems(2) n by auto
  with Cons.IH [of "Suc n" "m @ [(word_of_nat n, v)]"] Cons.prems(1) show ?case by (simp add: i)
qed simp

lemma contiguous_numbered:
  assumes "n + length vs \<le> u64_max"
  shows "contiguous (numbered n vs) h (word_of_nat n) = (False, last (h # vs))"
  using assms
proof (induction vs arbitrary: n h)
  case (Cons v vs)
  from Cons.IH [of "Suc n" v] Cons.prems show ?case by (simp add: add.commute)
qed simp

text \<open>What the verifier makes of a capture that may be torn at any character.\<close>

lemma capture_high_water:
  assumes "Suc (length ws) \<le> u64_max" "\<forall>w \<in> set ws. w \<le> m" "m \<le> u64_max" "text = take j (ack_text 1 ws)"
  obtains "by_seq text = []" "CHR 0x0A \<notin> set text"
  | high where "by_seq text \<noteq> []" "contiguous (by_seq text) 0 1 = (False, high)" "unat high \<le> m"
proof -
  from capture_entries [of 1 ws m j] assms obtain vs where vs: "List.map_filter parse_line (rust_lines text) = numbered 1 vs"
    "length vs \<le> length ws" "\<forall>v \<in> set vs. unat v \<le> m" "CHR 0x0A \<in> set text \<longrightarrow> vs \<noteq> []" by auto
  have len: "1 + length vs \<le> u64_max" using vs(2) assms(1) by simp
  have b: "by_seq text = numbered 1 vs" unfolding by_seq_def vs(1) using fold_numbered [OF len, of "[]"] by simp
  have c: "contiguous (by_seq text) 0 1 = (False, last (0 # vs))" using contiguous_numbered [OF len, of 0] by (simp add: b)
  show thesis
  proof (cases vs)
    case Nil
    then show thesis using that(1) b vs(4) by simp
  next
    case (Cons v us)
    then have "unat (last (0 # vs)) \<le> m" using vs(3) last_in_set [of vs] by auto
    then show thesis using that(2) [of "last (0 # vs)"] b c Cons by simp
  qed
qed

section \<open>The verdict\<close>

definition pull_lab :: "nat \<Rightarrow> bytes \<Rightarrow> bool" where
  "pull_lab n p \<longleftrightarrow> (n < 10 ^ 16 \<longrightarrow> starts_with p (rec_name 16 n))"

lemma verify_records_ok:
  assumes "map fst rs = map lsn_of [a ..< b]" "b \<le> Suc u64_max" "unat high < 10 ^ 16"
    and "\<forall>(l, q) \<in> set rs. lsn_nat l \<le> unat high \<longrightarrow> pull_lab (lsn_nat l) q"
  shows "verify_records rs (word_of_nat a) high seen = Some (if a < b then word_of_nat (b - 1) else seen)"
  using assms
proof (induction rs arbitrary: a seen)
  case (Cons r rs)
  obtain l q where r: "r = (l, q)" by fastforce
  have ab: "a < b" using Cons.prems(1) by (cases "a < b") simp_all
  then have "[a ..< b] = a # [Suc a ..< b]" by (rule upt_conv_Cons)
  with Cons.prems(1) have l: "l = lsn_of a" "map fst rs = map lsn_of [Suc a ..< b]" by (simp_all add: r)
  have a: "a \<le> u64_max" using ab Cons.prems(2) by simp
  have "\<not> (lsn_val l \<le> high \<and> \<not> starts_with q (rec_name 16 (lsn_nat l)))"
    using Cons.prems(3,4) a by (auto simp: r l(1) pull_lab_def word_le_nat_alt lsn_nat_def)
  moreover have "verify_records rs (word_of_nat (Suc a)) high (lsn_val l) = Some (if Suc a < b then word_of_nat (b - 1) else lsn_val l)"
    using Cons.prems by (intro Cons.IH [OF l(2)]) auto
  moreover have "Suc a < b \<or> b = Suc a" using ab by auto
  ultimately show ?case using ab by (auto simp: r l(1) lsn_of_def add.commute)
qed auto

lemma verdict:
  assumes "kept crc pull_lab (\<lambda>n. n = 1) (verify_config env) m d" "m < 10 ^ 16" "crash d d2" "dfaults d2 = []"
    and "Suc (length ws) \<le> u64_max" "\<forall>w \<in> set ws. w \<le> m" "text = take j (ack_text 1 ws)" "3 \<le> length a"
  shows "case power_pull_verify crc clk env a (Some text) d2 of
      Finished \<Rightarrow> True
    | Exited c \<Rightarrow> c = 2 \<and> CHR 0x0A \<notin> set text
    | Panicked \<Rightarrow> (\<exists>e d3. open_wal crc clk (verify_config env) d2 = (Inl e, d3) \<and> refuses e)
    | Running \<Rightarrow> False"
proof -
  have m: "m \<le> u64_max" using assms(2) by (simp add: u64_max_def)
  from capture_high_water [OF assms(5,6) m assms(7)] show ?thesis
  proof cases
    case 1
    then show ?thesis using assms(8) by (simp add: power_pull_verify_def)
  next
    case (2 high)
    have f: "found crc pull_lab (\<lambda>n. n = 1) (unat high) (open_wal crc clk (verify_config env) d2)"
      by (rule kept_found [OF kept_mono [OF assms(1) 2(3)] assms(3,4)])
    obtain out d3 where od: "open_wal crc clk (verify_config env) d2 = (out, d3)" by fastforce
    show ?thesis
    proof (cases out)
      case (Inl e)
      then show ?thesis using f od 2 assms(8) by (simp add: power_pull_verify_def found_def)
    next
      case (Inr wr)
      obtain w rep where wr: "wr = (w, rep)" by fastforce
      let ?D = "lsn_nat (report_durable_lsn rep)"
      from f od Inr wr obtain rd rs where r: "unat high \<le> ?D" "lsn_nat (report_oldest_lsn rep) = 1" "reader_from NONE w d3 = (Inr rd, d3)"
        "drain crc rd d3 = (rs, None)" "map fst rs = map lsn_of [1 ..< Suc ?D]"
        "\<forall>(l, q) \<in> set rs. lsn_nat l \<le> unat high \<longrightarrow> pull_lab (lsn_nat l) q" by (auto simp: found_def)
      have one: "lsn_val (report_oldest_lsn rep) = 1"
        using r(2) by (simp add: lsn_nat_def word_eq_iff_unsigned [where ?'a = nat])
      have D: "Suc ?D \<le> Suc u64_max" using lsn_nat_le_max by simp
      have h: "unat high < 10 ^ 16" using 2(3) assms(2) by simp
      from verify_records_ok [OF r(5) D h r(6), of 0]
      have v: "verify_records rs 1 high 0 = Some (if 1 < Suc ?D then word_of_nat ?D else 0)" by simp
      have "\<not> (if 1 < Suc ?D then word_of_nat ?D else 0) < high"
        using r(1) by (auto simp: word_less_nat_alt lsn_nat_def)
      with v r one od Inr wr 2 assms(8) show ?thesis by (simp add: power_pull_verify_def NONE_def)
    qed
  qed
qed

section \<open>The power-pull workload\<close>

lemma tracked_less: "tracked crc lab fr cfg m nx w d \<Longrightarrow> m < nx"
  by (auto simp: tracked_def)

lemma resize_starts: "length pre \<le> n \<Longrightarrow> starts_with (resize n b pre) pre"
  by (simp add: starts_with_def resize_def)

lemma pull_payload_lab: "pull_lab n (pull_payload pb n)"
  by (simp add: pull_lab_def pull_payload_def length_rec_name resize_starts)

lemma sink_record_sent:
  assumes "sink_record sink sq wm c = (r, c')"
  shows "\<exists>k. sent c' = sent c @ take k (ack_line (unat sq) (lsn_nat wm))"
    and "r = Recorded \<Longrightarrow> sent c' = sent c @ ack_line (unat sq) (lsn_nat wm)"
proof -
  have w: "chan_write l c = (True, c1) \<Longrightarrow> sent c1 = sent c @ l" "chan_write l c = (False, c1) \<Longrightarrow> \<exists>k. sent c1 = sent c @ take k l" for l c1
    by (auto simp: chan_write_def split: list.splits option.splits)
  have s: "chan_sync c1 = (ok, c2) \<Longrightarrow> sent c2 = sent c1" for c1 ok c2
    by (auto simp: chan_sync_def split: list.splits option.splits)
  let ?l = "ack_line (unat sq) (lsn_nat wm)"
  obtain ok c1 where c1: "chan_write ?l c = (ok, c1)" by fastforce
  obtain ok2 c2 where c2: "chan_sync c1 = (ok2, c2)" by fastforce
  have full: "\<exists>k. sent c @ ?l = sent c @ take k ?l" by (rule exI [of _ "length ?l"]) simp
  show "\<exists>k. sent c' = sent c @ take k ?l"
    using assms c1 c2 w [of ?l c1] s [OF c2] full by (cases sink; cases ok) (auto split: if_splits)
  show "r = Recorded \<Longrightarrow> sent c' = sent c @ ?l"
    using assms c1 c2 w [of ?l c1] s [OF c2] by (cases sink; cases ok) (auto split: if_splits)
qed

text \<open>
  A log and the lines sent for it: between two steps the channel has one line per commit that has
  returned; at the end the last line may be torn. No watermark is above what the log keeps.
\<close>

definition acked ::
    "(bytes \<Rightarrow> u32) \<Rightarrow> wal_config \<Rightarrow> nat \<Rightarrow> nat \<Rightarrow> nat \<Rightarrow> unit wal \<Rightarrow> disk \<Rightarrow> string \<Rightarrow> u64 \<Rightarrow> u64 \<Rightarrow> bool" where
  "acked crc cfg m nx k w d text nxt sq \<longleftrightarrow> tracked crc pull_lab (\<lambda>n. n = 1) cfg m nx w d \<and> nxt = word_of_nat nx
     \<and> sq = word_of_nat k \<and> k < nx \<and> (\<exists>ws. text = ack_text 1 ws \<and> length ws = k \<and> (\<forall>w \<in> set ws. w \<le> m))"

definition settled :: "(bytes \<Rightarrow> u32) \<Rightarrow> wal_config \<Rightarrow> disk \<Rightarrow> string \<Rightarrow> bool" where
  "settled crc cfg d text \<longleftrightarrow> (\<exists>m ws j. kept crc pull_lab (\<lambda>n. n = 1) cfg m d \<and> m < 10 ^ 16 \<and> length ws \<le> 10 ^ 16
     \<and> (\<forall>w \<in> set ws. w \<le> m) \<and> text = take j (ack_text 1 ws))"

lemma acked_settled: "acked crc cfg m nx k w d text nxt sq \<Longrightarrow> nx \<le> 10 ^ 16 \<Longrightarrow> settled crc cfg d text"
proof -
  assume a: "acked crc cfg m nx k w d text nxt sq" and nx: "nx \<le> 10 ^ 16"
  then obtain ws where t: "tracked crc pull_lab (\<lambda>n. n = 1) cfg m nx w d" and ws: "text = ack_text 1 ws" "length ws < nx" "\<forall>w \<in> set ws. w \<le> m"
    by (auto simp: acked_def)
  have "m < 10 ^ 16" "length ws \<le> 10 ^ 16" using tracked_less [OF t] nx ws(2) by linarith+
  moreover have "text = take (length text) (ack_text 1 ws)" using ws(1) by simp
  ultimately show ?thesis using tracked_kept [OF t] ws(3) unfolding settled_def by blast
qed

lemma settled_verdict:
  assumes "settled crc (verify_config env) d text" "crash d d2" "dfaults d2 = []" "capture = take i text" "3 \<le> length a"
  shows "case power_pull_verify crc clk env a (Some capture) d2 of
      Finished \<Rightarrow> True
    | Exited c \<Rightarrow> c = 2 \<and> CHR 0x0A \<notin> set capture
    | Panicked \<Rightarrow> (\<exists>e d3. open_wal crc clk (verify_config env) d2 = (Inl e, d3) \<and> refuses e)
    | Running \<Rightarrow> False"
proof -
  obtain m ws j where s: "kept crc pull_lab (\<lambda>n. n = 1) (verify_config env) m d" "m < 10 ^ 16" "length ws \<le> 10 ^ 16"
    "\<forall>w \<in> set ws. w \<le> m" "text = take j (ack_text 1 ws)" using assms(1) by (auto simp: settled_def)
  have l: "Suc (length ws) \<le> u64_max" using s(3) by (simp add: u64_max_def)
  have t: "capture = take (min i j) (ack_text 1 ws)" using assms(4) s(5) by simp
  show ?thesis by (rule verdict [OF s(1,2) assms(2,3) l s(4) t assms(5)])
qed

text \<open>One append, and one commit with its line.\<close>

lemma acked_append:
  assumes "acked crc cfg m nx k w d text nxt sq" "wal_append crc p w = (Inr l, w')" "pull_lab nx p"
  shows "acked crc cfg m (Suc nx) k w' d text (nxt + 1) sq \<and> lsn_val l = nxt \<and> nx \<le> u64_max"
  using assms tracked_append [of crc pull_lab "\<lambda>n. n = 1" cfg m nx w d p l w'] by (auto simp: acked_def lsn_of_def add.commute less_Suc_eq)

lemma acked_commit:
  assumes a: "acked crc cfg m nx k w d text nxt sq" and c: "commit crc clock on_durable w d = (Inr l, w', d')" and nx: "nx \<le> 10 ^ 16"
  shows "settled crc cfg d' (text @ take i (ack_line (unat (sq + 1)) (lsn_nat l)))"
    and "Suc k < nx \<Longrightarrow> acked crc cfg (nx - 1) nx (Suc k) w' d' (text @ ack_line (unat (sq + 1)) (lsn_nat l)) nxt (sq + 1)"
proof -
  from a obtain ws where t: "tracked crc pull_lab (\<lambda>n. n = 1) cfg m nx w d" "nxt = word_of_nat nx" "sq = word_of_nat k" "k < nx"
    and ws: "text = ack_text 1 ws" "length ws = k" "\<forall>w \<in> set ws. w \<le> m" by (auto simp: acked_def)
  note tc = tracked_commit [OF t(1) c]
  have sq: "sq + 1 = word_of_nat (Suc k)" by (simp add: t(3) add.commute)
  then have sq': "unat (sq + 1) = Suc k" using t(4) nx by (simp only: unat_of_nat) simp
  have l: "lsn_nat l = nx - 1" using tc by simp
  have tx: "text @ ack_line (unat (sq + 1)) (lsn_nat l) = ack_text 1 (ws @ [nx - 1])" using ws(2) by (simp add: ws(1) sq' l ack_text_snoc)
  have le: "\<forall>w \<in> set (ws @ [nx - 1]). w \<le> nx - 1" using ws(3) tc by auto
  show "acked crc cfg (nx - 1) nx (Suc k) w' d' (text @ ack_line (unat (sq + 1)) (lsn_nat l)) nxt (sq + 1)" if "Suc k < nx"
    unfolding acked_def tx using tc t(2) sq that le ws(2) by (intro conjI exI [of _ "ws @ [nx - 1]"]) simp_all
  have "text @ take i (ack_line (unat (sq + 1)) (lsn_nat l)) = take (length text + i) (ack_text 1 (ws @ [nx - 1]))"
    unfolding tx [symmetric] by simp
  then show "settled crc cfg d' (text @ take i (ack_line (unat (sq + 1)) (lsn_nat l)))"
    unfolding settled_def using tracked_kept [OF conjunct1 [OF tc]] le ws(2) t(4) nx
    by (intro exI [of _ "nx - 1"] exI [of _ "ws @ [nx - 1]"] exI [of _ "length text + i"] conjI) simp_all
qed

lemma acked_commit_failed:
  assumes "acked crc cfg m nx k w d text nxt sq" "commit crc clock on_durable w d = (Inl e, w', d')" "nx \<le> 10 ^ 16"
  shows "settled crc cfg d' text"
proof -
  from assms(1) obtain ws where t: "tracked crc pull_lab (\<lambda>n. n = 1) cfg m nx w d" "k < nx"
    and ws: "text = ack_text 1 ws" "length ws = k" "\<forall>w \<in> set ws. w \<le> m" by (auto simp: acked_def)
  from tracked_commit_failed [OF t(1) assms(2)] tracked_less [OF t(1)] t(2) ws assms(3) show ?thesis
    unfolding settled_def by (intro exI [of _ m] exI [of _ ws] exI [of _ "length text"]) simp
qed

definition pull_inv :: "(bytes \<Rightarrow> u32) \<Rightarrow> wal_config \<Rightarrow> nat \<Rightarrow> pull \<Rightarrow> bool" where
  "pull_inv crc cfg nx st \<longleftrightarrow>
     (\<exists>m k. acked crc cfg m nx k (p_wal st) (p_disk st) (sent (p_chan st)) (p_next st) (p_seq st))"

lemma pull_invI:
  "acked crc cfg m nx k (p_wal st) (p_disk st) (sent (p_chan st)) (p_next st) (p_seq st) \<Longrightarrow> pull_inv crc cfg nx st"
  unfolding pull_inv_def by blast

definition pull_done :: "(bytes \<Rightarrow> u32) \<Rightarrow> wal_config \<Rightarrow> pull \<Rightarrow> bool" where
  "pull_done crc cfg st \<longleftrightarrow> settled crc cfg (p_disk st) (sent (p_chan st))"

lemma pull_inv_done: "pull_inv crc cfg nx st \<Longrightarrow> nx \<le> 10 ^ 16 \<Longrightarrow> pull_done crc cfg st"
  using acked_settled by (auto simp: pull_inv_def pull_done_def)

lemma pull_commit_ok:
  assumes a: "acked crc cfg m nx k (p_wal st) (p_disk st) (sent (p_chan st)) (p_next st) (p_seq st)" and k: "Suc k < nx" "nx \<le> 10 ^ 16"
    and r: "pull_commit crc clock sink st = (p, st')"
  shows "pull_done crc cfg st' \<and> (p = Running \<longrightarrow> pull_inv crc cfg nx st')"
proof -
  obtain res w d where c: "commit crc clock null_on_durable (p_wal st) (p_disk st) = (res, w, d)" by (cases "commit crc clock null_on_durable (p_wal st) (p_disk st)")
  show ?thesis
  proof (cases res)
    case (Inl e)
    from acked_commit_failed [OF a c [unfolded Inl] k(2)] r c Inl show ?thesis by (auto simp: pull_commit_def pull_done_def)
  next
    case (Inr l)
    obtain q ch where s: "sink_record sink (p_seq st + 1) l (p_chan st) = (q, ch)" by fastforce
    note sr = sink_record_sent [OF s]
    from sr(1) obtain i where i: "sent ch = sent (p_chan st) @ take i (ack_line (unat (p_seq st + 1)) (lsn_nat l))" by blast
    have dn: "settled crc cfg d (sent ch)" unfolding i by (rule acked_commit(1) [OF a c [unfolded Inr] k(2)])
    note ac = acked_commit(2) [OF a c [unfolded Inr] k(2,1)]
    show ?thesis
      using r c Inr s dn ac sr(2)
      by (auto simp: pull_commit_def pull_done_def Let_def intro!: pull_invI [where m = "nx - 1" and k = "Suc k"] split: recorded.splits)
  qed
qed

lemma pull_round_ok:
  assumes "pull_inv crc cfg nx st" "Suc nx \<le> 10 ^ 16" and r: "pull_round crc clock sink batch pb st = (p, st')"
  shows "pull_done crc cfg st' \<and> (p = Running \<longrightarrow> pull_inv crc cfg (Suc nx) st')"
proof -
  obtain m k where a: "acked crc cfg m nx k (p_wal st) (p_disk st) (sent (p_chan st)) (p_next st) (p_seq st)"
    using assms(1) by (auto simp: pull_inv_def)
  have nx: "unat (p_next st) = nx" using a assms(2) by (simp add: acked_def unat_of_nat)
  let ?p = "pull_payload pb nx"
  obtain res w where ap: "wal_append crc ?p (p_wal st) = (res, w)" by fastforce
  show ?thesis
  proof (cases res)
    case (Inl e)
    have "w = p_wal st" using tracked_append_failed [of crc pull_lab "\<lambda>n. n = 1" cfg m nx] a ap Inl by (auto simp: acked_def)
    then show ?thesis
      using acked_settled [OF a] assms(2) r ap Inl by (auto simp: pull_round_def nx pull_done_def)
  next
    case (Inr l)
    note aa = acked_append [OF a ap [unfolded Inr] pull_payload_lab]
    let ?st = "st\<lparr>p_wal := w, p_next := p_next st + 1, p_since := p_since st + 1\<rparr>"
    have a': "acked crc cfg m (Suc nx) k (p_wal ?st) (p_disk ?st) (sent (p_chan ?st)) (p_next ?st) (p_seq ?st)" using aa by simp
    have k: "Suc k < Suc nx" using a by (simp add: acked_def)
    have r': "pull_round crc clock sink batch pb st = (if p_since ?st \<ge> batch then pull_commit crc clock sink ?st else (Running, ?st))"
      using ap Inr aa by (simp add: pull_round_def nx Let_def)
    show ?thesis
    proof (cases "p_since ?st \<ge> batch")
      case True
      with r r' have "pull_commit crc clock sink ?st = (p, st')" by simp
      from pull_commit_ok [OF a' k assms(2) this] show ?thesis .
    next
      case False
      with r r' have "st' = ?st" by simp
      with a' have "pull_inv crc cfg (Suc nx) st'" unfolding pull_inv_def by blast
      with pull_inv_done assms(2) show ?thesis by blast
    qed
  qed
qed

lemma pull_finish_ok:
  assumes "pull_inv crc cfg nx st" "nx \<le> 10 ^ 16"
  shows "pull_done crc cfg (snd (pull_finish crc clock sink st))"
proof -
  obtain m k where a: "acked crc cfg m nx k (p_wal st) (p_disk st) (sent (p_chan st)) (p_next st) (p_seq st)"
    using assms(1) by (auto simp: pull_inv_def)
  obtain res w d where c: "commit crc clock null_on_durable (p_wal st) (p_disk st) = (res, w, d)" by (cases "commit crc clock null_on_durable (p_wal st) (p_disk st)")
  show ?thesis
  proof (cases res)
    case (Inl e)
    from acked_commit_failed [OF a c [unfolded Inl] assms(2)] c Inl show ?thesis by (auto simp: pull_finish_def pull_done_def)
  next
    case (Inr l)
    obtain q ch where s: "sink_record sink (p_seq st + 1) l (p_chan st) = (q, ch)" by fastforce
    note ac = acked_commit(1) [OF a c [unfolded Inr] assms(2)]
    from sink_record_sent(1) [OF s] obtain i where i: "sent ch = sent (p_chan st) @ take i (ack_line (unat (p_seq st + 1)) (lsn_nat l))" by blast
    show ?thesis
      using ac [of i] ac [of 0] c Inr s i by (auto simp: pull_finish_def pull_done_def Let_def split: recorded.splits)
  qed
qed

lemma pull_loop_ok:
  "pull_inv crc cfg nx st \<Longrightarrow> nx + fuel \<le> 10 ^ 16 \<Longrightarrow> pull_done crc cfg (snd (pull_loop crc clock sink limit batch pb fuel st))"
proof (induction fuel arbitrary: nx st)
  case 0
  then show ?case using pull_inv_done by simp
next
  case (Suc fuel)
  obtain p st' where r: "pull_round crc clock sink batch pb st = (p, st')" by fastforce
  have "Suc nx \<le> 10 ^ 16" using Suc.prems(2) by simp
  note ok = pull_round_ok [OF Suc.prems(1) this r]
  have fin: "pull_done crc cfg (snd (pull_finish crc clock sink st))"
    using pull_finish_ok [OF Suc.prems(1)] Suc.prems(2) by simp
  show ?case
  proof (cases "p = Running")
    case True
    then have "pull_inv crc cfg (Suc nx) st'" using ok by blast
    from Suc.IH [OF this] Suc.prems(2) fin r True show ?thesis by simp
  next
    case False
    then show ?thesis using ok fin r by (cases p) simp_all
  qed
qed

text \<open>C17. The power-pull protocol: the workload, started on an empty directory with any sink, batch
  and payload size, with any failing system calls and any trouble on the side channel, killed after
  any number of rounds and cut from power, leaves a directory and a capture, torn at any character,
  on which the verifier never reports a loss: it passes, or is inconclusive because not one line
  has arrived, or the log is refused with an error of recovery.\<close>

theorem power_pull_never_fails:
  assumes "has_segs [] d0" "names_settled d0" "dfaults d0 = []" "\<not> lock_held d0" "sent c0 = []"
    and "power_pull_workload crc clock opens env a weather fuel d0 c0 = (p, d1, c1)" "fuel < 10 ^ 16"
    and "crash d1 d2" "dfaults d2 = []" "capture = take i (sent c1)" "3 \<le> length b"
  shows "case power_pull_verify crc clk env b (Some capture) d2 of
      Finished \<Rightarrow> True
    | Exited c \<Rightarrow> c = 2 \<and> CHR 0x0A \<notin> set capture
    | Panicked \<Rightarrow> (\<exists>e d3. open_wal crc clk (verify_config env) d2 = (Inl e, d3) \<and> refuses e)
    | Running \<Rightarrow> False"
proof -
  have cfg: "verify_config env = pull_config env"
    by (simp add: verify_config_def pull_config_def VERIFY_SEGMENT_SIZE_def PULL_SEGMENT_SIZE_def VERIFY_MAX_RECORD_SIZE_def PULL_MAX_RECORD_SIZE_def)
  show ?thesis
  proof (cases "sent c1 = []")
    case True
    then show ?thesis using assms(10,11) by (simp add: power_pull_verify_def by_seq_def rust_lines.simps map_filter_simps)
  next
    case False
    obtain sink w report d where o: "sink_open opens (a ! 2) = Inr sink" "\<not> length a < 3"
      "open_wal crc clock (pull_config env) d0 = (Inr (w, report), d)"
      using assms(5,6) False by (auto simp: power_pull_workload_def Let_def split: if_splits sum.splits prod.splits)
    let ?st = "\<lparr>p_wal = w, p_disk = d\<lparr>dfaults := weather\<rparr>, p_chan = c0, p_next = lsn_val (report_durable_lsn report) + 1, p_seq = 0, p_since = 0\<rparr>"
    obtain st where st: "pull_loop crc clock sink (setting rust_parse_u64 (nth_arg a 3) 0) (setting rust_parse_u64 (nth_arg a 4) 64)
        (unat (setting rust_parse_u64 (nth_arg a 5) 64)) fuel ?st = (p, st)" "d1 = p_disk st" "c1 = p_chan st"
      using assms(6) o by (auto simp: power_pull_workload_def Let_def split: prod.splits)
    have "acked crc (pull_config env) 0 1 0 w (d\<lparr>dfaults := weather\<rparr>) (sent c0) (lsn_val (report_durable_lsn report) + 1) 0"
      using tracked_open [where fr = "\<lambda>n. n = 1" and lab = pull_lab, OF refl assms(1-4) o(3)] assms(5) by (simp add: acked_def tracked_weather lsn_of_def)
    then have "pull_inv crc (pull_config env) 1 ?st" by (intro pull_invI [where m = 0 and k = 0]) simp
    from pull_loop_ok [OF this, of fuel clock sink "setting rust_parse_u64 (nth_arg a 3) 0" "setting rust_parse_u64 (nth_arg a 4) 64"
        "unat (setting rust_parse_u64 (nth_arg a 5) 64)"] st assms(7)
    have "settled crc (verify_config env) d1 (sent c1)" by (simp add: pull_done_def cfg)
    from settled_verdict [OF this assms(8-11)] show ?thesis .
  qed
qed

theorem power_pull_never_fails_witness:
  "\<exists>p d1 c1. power_pull_workload csum ex_clock (\<lambda>s. None) (\<lambda>v. None) [''workload'', ''/wal'', ''tcp:h:1'', ''0'', ''2''] [] 5 ex_disk \<lparr>sent = [], trouble = []\<rparr> = (p, d1, c1)
     \<and> (case power_pull_verify csum ex_clock (\<lambda>v. None) [''verify'', ''/wal'', ''/capture''] (Some (sent c1)) (d1\<lparr>lock_held := False, dfaults := []\<rparr>) of
          Finished \<Rightarrow> True
        | Exited c \<Rightarrow> c = 2 \<and> CHR 0x0A \<notin> set (sent c1)
        | Panicked \<Rightarrow> (\<exists>e d3. open_wal csum ex_clock (verify_config (\<lambda>v. None)) (d1\<lparr>lock_held := False, dfaults := []\<rparr>) = (Inl e, d3) \<and> refuses e)
        | Running \<Rightarrow> False)"
proof -
  obtain p d1 c1 where r: "power_pull_workload csum ex_clock (\<lambda>s. None) (\<lambda>v. None) [''workload'', ''/wal'', ''tcp:h:1'', ''0'', ''2''] [] 5 ex_disk \<lparr>sent = [], trouble = []\<rparr> = (p, d1, c1)"
    by (metis prod_cases3)
  have cap: "sent c1 = take (length (sent c1)) (sent c1)" by simp
  show ?thesis
    using power_pull_never_fails [OF ex_disk_simps(3,4,1,2) _ r _ crash_process _ cap, of "[''verify'', ''/wal'', ''/capture'']" ex_clock] r
    by (intro exI [of _ p] exI [of _ d1] exI [of _ c1]) simp
qed

section \<open>The directory-sync cut workload\<close>

lemma count_segments_disk:
  assumes "count_segments d = (n, d')"
  shows "\<exists>fs. d' = d\<lparr>dfaults := fs\<rparr>"
proof -
  have e: "\<exists>fs. d2 = d1\<lparr>dfaults := fs\<rparr>" if "readable_entries ns d1 = (names, d2)" for ns d1 names d2
    using that
  proof (induction ns arbitrary: d1 names d2)
    case Nil
    then show ?case by (cases d1) (auto intro: exI [of _ "dfaults d1"])
  next
    case (Cons x ns)
    obtain r fs where m: "may_fail d1 = (r, d1\<lparr>dfaults := fs\<rparr>)" by (rule may_fail_cases [of d1]) auto
    then obtain names' where "readable_entries ns (d1\<lparr>dfaults := fs\<rparr>) = (names', d2)"
      using Cons.prems by (cases r) (auto split: prod.splits)
    from Cons.IH [OF this] show ?case by auto
  qed
  obtain r fs where m: "may_fail d = (r, d\<lparr>dfaults := fs\<rparr>)" by (rule may_fail_cases [of d]) auto
  then show ?thesis using assms e by (cases r) (auto simp: count_segments_def split: prod.splits dest!: e)
qed

definition cut_done :: "(bytes \<Rightarrow> u32) \<Rightarrow> wal_config \<Rightarrow> cut \<Rightarrow> bool" where
  "cut_done crc cfg st \<longleftrightarrow> settled crc cfg (k_disk st) (sent (k_capture st))"

lemma rec_name_lab: "pull_lab n (rec_name 16 n)"
  by (simp add: pull_lab_def starts_with_def)

lemma record_ack_sent:
  assumes "record_ack wm st = (ok, st')"
  shows "\<exists>i. sent (k_capture st') = sent (k_capture st) @ take i (ack_line (unat (k_seq st + 1)) (lsn_nat wm))"
    and "ok \<Longrightarrow> sent (k_capture st') = sent (k_capture st) @ ack_line (unat (k_seq st + 1)) (lsn_nat wm)"
    and "k_wal st' = k_wal st \<and> k_disk st' = k_disk st \<and> k_next st' = k_next st \<and> k_seq st' = k_seq st + 1"
proof -
  obtain r c where s: "sink_record (SinkFile True) (k_seq st + 1) wm (k_capture st) = (r, c)" by fastforce
  have "st' = st\<lparr>k_seq := k_seq st + 1, k_capture := c\<rparr>" "ok \<longleftrightarrow> r = Recorded"
    using assms s by (auto simp: record_ack_def Let_def split: prod.splits bool.splits if_splits)
  with sink_record_sent [OF s] show "\<exists>i. sent (k_capture st') = sent (k_capture st) @ take i (ack_line (unat (k_seq st + 1)) (lsn_nat wm))"
    "ok \<Longrightarrow> sent (k_capture st') = sent (k_capture st) @ ack_line (unat (k_seq st + 1)) (lsn_nat wm)"
    "k_wal st' = k_wal st \<and> k_disk st' = k_disk st \<and> k_next st' = k_next st \<and> k_seq st' = k_seq st + 1" by auto
qed

lemma cut_round_ok:
  assumes a: "acked crc cfg m nx k (k_wal st) (k_disk st) (sent (k_capture st)) (k_next st) (k_seq st)" and nx: "Suc nx \<le> 10 ^ 16"
    and r: "cut_round crc clock st = (res, st')"
  shows "cut_done crc cfg st' \<and> k_next st' = k_next st
    \<and> (\<forall>wm. res = Some wm \<longrightarrow> (\<exists>m k. acked crc cfg m (Suc nx) k (k_wal st') (k_disk st') (sent (k_capture st')) (k_next st + 1) (k_seq st')))"
proof -
  have un: "unat (k_next st) = nx" using a nx by (simp add: acked_def unat_of_nat)
  obtain q w where ap: "wal_append crc (rec_name 16 nx) (k_wal st) = (q, w)" by fastforce
  show ?thesis
  proof (cases q)
    case (Inl e)
    then show ?thesis
      using acked_settled [OF a] nx r ap by (auto simp: cut_round_def append_commit_def un cut_done_def)
  next
    case (Inr l)
    have a': "acked crc cfg m (Suc nx) k w (k_disk st) (sent (k_capture st)) (k_next st + 1) (k_seq st)" and k: "Suc k < Suc nx"
      using acked_append [OF a ap [unfolded Inr] rec_name_lab] a by (simp_all add: acked_def)
    obtain q2 w2 d2 where c: "commit crc clock null_on_durable w (k_disk st) = (q2, w2, d2)" by (cases "commit crc clock null_on_durable w (k_disk st)")
    show ?thesis
    proof (cases q2)
      case e: (Inl e)
      from acked_commit_failed [OF a' c [unfolded e] nx] show ?thesis
        using r ap Inr c e by (auto simp: cut_round_def append_commit_def un cut_done_def)
    next
      case wm: (Inr wm)
      obtain ok st2 where ra: "record_ack wm (st\<lparr>k_wal := w2, k_disk := d2\<rparr>) = (ok, st2)" by fastforce
      note rs = record_ack_sent [OF ra]
      from rs(1) obtain i where i: "sent (k_capture st2) = sent (k_capture st) @ take i (ack_line (unat (k_seq st + 1)) (lsn_nat wm))" by auto
      have dn: "cut_done crc cfg st2" unfolding cut_done_def i
        using acked_commit(1) [OF a' c [unfolded wm] nx, of i] rs(3) by simp
      have st: "st' = st2" "res = (if ok then Some wm else None)"
        using r ap Inr c wm ra by (simp_all add: cut_round_def append_commit_def un)
      have "ok \<Longrightarrow> acked crc cfg (Suc nx - 1) (Suc nx) (Suc k) (k_wal st2) (k_disk st2) (sent (k_capture st2)) (k_next st + 1) (k_seq st2)"
        using acked_commit(2) [OF a' c [unfolded wm] nx k] rs(2,3) by simp
      then show ?thesis using st dn rs(3) by (auto split: if_splits)
    qed
  qed
qed

lemma cut_last_ok:
  assumes a: "acked crc cfg m nx k (k_wal st) (k_disk st) (sent (k_capture st)) (k_next st) (k_seq st)" and nx: "Suc nx \<le> 10 ^ 16"
  shows "cut_done crc cfg (snd (cut_last crc clock st))"
proof -
  obtain res st' where r: "cut_round crc clock st = (res, st')" by fastforce
  from cut_round_ok [OF a nx r] r show ?thesis
    by (auto simp: cut_last_def cut_done_def split: option.splits prod.splits bool.splits)
qed

lemma cut_loop_ok:
  assumes "acked crc cfg m nx k (k_wal st) (k_disk st) (sent (k_capture st)) (k_next st) (k_seq st)" "nx \<le> 1000001"
  shows "cut_done crc cfg (snd (cut_loop crc clock before fuel st))"
  using assms
proof (induction fuel arbitrary: m nx k st)
  case 0
  then show ?case using acked_settled [OF 0(1)] by (simp add: cut_done_def)
next
  case (Suc fuel)
  show ?case
  proof (cases "k_next st > MAX_RECORDS")
    case True
    then show ?thesis using acked_settled [OF Suc.prems(1)] Suc.prems(2) by (simp add: cut_done_def)
  next
    case False
    have nx: "nx \<le> 1000000"
      using False Suc.prems by (simp add: acked_def MAX_RECORDS_def word_less_nat_alt unat_of_nat)
    then have nx': "Suc nx \<le> 10 ^ 16" by simp
    obtain res st' where r: "cut_round crc clock st = (res, st')" by fastforce
    note ok = cut_round_ok [OF Suc.prems(1) nx' r]
    show ?thesis
    proof (cases res)
      case None
      then show ?thesis using ok r False by simp
    next
      case (Some wm)
      obtain n d where c: "count_segments (k_disk st') = (n, d)" by fastforce
      from count_segments_disk [OF c] obtain fs where d: "d = (k_disk st')\<lparr>dfaults := fs\<rparr>" by blast
      let ?st = "st'\<lparr>k_disk := d, k_next := k_next st' + 1\<rparr>"
      from ok Some obtain m' k' where "acked crc cfg m' (Suc nx) k' (k_wal ?st) (k_disk ?st) (sent (k_capture ?st)) (k_next ?st) (k_seq ?st)"
        by (auto simp: acked_def d tracked_weather)
      note a' = this
      have "cut_done crc cfg (snd (cut_last crc clock ?st))" using cut_last_ok [OF a'] nx by simp
      moreover have "cut_done crc cfg (snd (cut_loop crc clock before fuel ?st))" using Suc.IH [OF a'] nx by simp
      ultimately show ?thesis using r Some c False by (simp add: Let_def)
    qed
  qed
qed

text \<open>C19. The directory-sync cut protocol: the workload that rolls a segment, acknowledges a record in
  it and waits for the power cut leaves, with any failing system calls and wherever it is killed,
  a directory and a capture on which the verifier never reports a loss, provided that both are run
  with the same sizes; the directory entry of the new segment is durable before the record is
  acknowledged.\<close>

theorem dirfsync_cut_never_fails:
  assumes "has_segs [] d0" "names_settled d0" "dfaults d0 = []" "\<not> lock_held d0" "sent c0 = []" "verify_config env = cut_config env"
    and "dirfsync_cut_workload crc clock opens env a weather fuel d0 c0 r0 = (p, d1, c1, r1)"
    and "crash d1 d2" "dfaults d2 = []" "capture = take i (sent c1)" "3 \<le> length b"
  shows "case power_pull_verify crc clk env b (Some capture) d2 of
      Finished \<Rightarrow> True
    | Exited c \<Rightarrow> c = 2 \<and> CHR 0x0A \<notin> set capture
    | Panicked \<Rightarrow> (\<exists>e d3. open_wal crc clk (verify_config env) d2 = (Inl e, d3) \<and> refuses e)
    | Running \<Rightarrow> False"
proof (cases "sent c1 = []")
  case True
  then show ?thesis using assms(10,11) by (simp add: power_pull_verify_def by_seq_def rust_lines.simps map_filter_simps)
next
  case False
  obtain w report d where o: "\<not> length a < 4" "opens (a ! 2) = None" "open_wal crc clock (cut_config env) d0 = (Inr (w, report), d)"
    using assms(5,7) False by (auto simp: dirfsync_cut_workload_def split: if_splits sum.splits prod.splits)
  obtain n d' where n: "count_segments (d\<lparr>dfaults := weather\<rparr>) = (n, d')" by fastforce
  from count_segments_disk [OF n] obtain fs where d': "d' = d\<lparr>dfaults := fs\<rparr>" by auto
  let ?st = "\<lparr>k_wal = w, k_disk = d', k_capture = c0, k_ready = r0, k_next = lsn_val (report_durable_lsn report) + 1, k_seq = 0\<rparr>"
  obtain st where st: "cut_loop crc clock n fuel ?st = (p, st)" "d1 = k_disk st" "c1 = k_capture st"
    using assms(7) o n by (auto simp: dirfsync_cut_workload_def split: prod.splits)
  have "acked crc (cut_config env) 0 1 0 (k_wal ?st) (k_disk ?st) (sent (k_capture ?st)) (k_next ?st) (k_seq ?st)"
    using tracked_open [where fr = "\<lambda>n. n = 1" and lab = pull_lab, OF refl assms(1-4) o(3)] assms(5) by (simp add: acked_def tracked_weather d' lsn_of_def)
  from cut_loop_ok [OF this, of clock n fuel] st
  have "settled crc (verify_config env) d1 (sent c1)" by (simp add: cut_done_def assms(6))
  from settled_verdict [OF this assms(8-11)] show ?thesis .
qed

theorem dirfsync_cut_never_fails_witness:
  "\<exists>p d1 c1 r1. dirfsync_cut_workload csum ex_clock (\<lambda>s. None) (\<lambda>v. if v = ''WAL_SEGMENT_SIZE'' then Some ''256'' else Some ''64'') [''workload'', ''/wal'', ''/capture'', ''/ready''] [] 9 ex_disk \<lparr>sent = [], trouble = []\<rparr> \<lparr>sent = [], trouble = []\<rparr> = (p, d1, c1, r1)
     \<and> (case power_pull_verify csum ex_clock (\<lambda>v. if v = ''WAL_SEGMENT_SIZE'' then Some ''256'' else Some ''64'') [''verify'', ''/wal'', ''/capture''] (Some (sent c1)) (d1\<lparr>lock_held := False, dfaults := []\<rparr>) of
          Finished \<Rightarrow> True
        | Exited c \<Rightarrow> c = 2 \<and> CHR 0x0A \<notin> set (sent c1)
        | Panicked \<Rightarrow> (\<exists>e d3. open_wal csum ex_clock (verify_config (\<lambda>v. if v = ''WAL_SEGMENT_SIZE'' then Some ''256'' else Some ''64'')) (d1\<lparr>lock_held := False, dfaults := []\<rparr>) = (Inl e, d3) \<and> refuses e)
        | Running \<Rightarrow> False)"
proof -
  let ?env = "(\<lambda>v. if v = ''WAL_SEGMENT_SIZE'' then Some ''256'' else Some ''64'')"
  have cfg: "verify_config ?env = cut_config ?env"
    by (simp add: verify_config_def cut_config_def setting_def rust_parse_u64_def rust_parse_u32_def parse_u64_def Let_def is_ascii_digit_def dec_val_def digit_val_def u64_max_def u32_max_def)
  obtain p d1 c1 r1 where r: "dirfsync_cut_workload csum ex_clock (\<lambda>s. None) (\<lambda>v. if v = ''WAL_SEGMENT_SIZE'' then Some ''256'' else Some ''64'') [''workload'', ''/wal'', ''/capture'', ''/ready''] [] 9 ex_disk \<lparr>sent = [], trouble = []\<rparr> \<lparr>sent = [], trouble = []\<rparr> = (p, d1, c1, r1)"
    by (metis prod_cases4)
  have cap: "sent c1 = take (length (sent c1)) (sent c1)" by simp
  show ?thesis
    using dirfsync_cut_never_fails [OF ex_disk_simps(3,4,1,2) _ cfg r crash_process _ cap, of "[''verify'', ''/wal'', ''/capture'']" ex_clock] r
    by (intro exI [of _ p] exI [of _ d1] exI [of _ c1] exI [of _ r1]) simp
qed

end
