(* ===== verification/Wal_Frame.thy ===== *)
theory Wal_Frame
  imports Wal_Contract
begin

text \<open>
  The name changes since the last directory sync matter to crashes only: every operation
  gives the same result, and the same directory but for those changes, on directories that
  differ in nothing else. The relation \<open>alike\<close> is carried through the operations as
  parametricity statements.
\<close>

definition alike :: "disk \<Rightarrow> disk \<Rightarrow> bool" where
  "alike d d' \<longleftrightarrow> entries d = entries d' \<and> dfaults d = dfaults d' \<and> lock_held d = lock_held d'"

lemma alike_refl [simp]: "alike d d"
  by (simp add: alike_def)

lemma alike_pending [simp]: "alike d (d\<lparr>pending := p\<rparr>)" "alike (d\<lparr>pending := p\<rparr>) d"
  by (simp_all add: alike_def)

lemma alike_fields [transfer_rule]:
  "rel_fun alike (=) entries entries" "rel_fun alike (=) dfaults dfaults" "rel_fun alike (=) lock_held lock_held"
  by (auto simp: alike_def rel_fun_def)

lemma alike_updates [transfer_rule]:
  "rel_fun (=) (rel_fun alike alike) entries_update entries_update"
  "rel_fun (=) (rel_fun alike alike) dfaults_update dfaults_update"
  "rel_fun (=) (rel_fun alike alike) lock_held_update lock_held_update"
  by (auto simp: alike_def rel_fun_def)

lemma case_parametric [transfer_rule]:
  "rel_fun S (rel_fun (rel_fun (=) (rel_fun (=) S)) (rel_fun (=) S)) case_fault case_fault"
  "rel_fun S (rel_fun S (rel_fun S (rel_fun S (rel_fun S (rel_fun S (rel_fun S (rel_fun (=) S))))))) case_io_error case_io_error"
  by (auto simp: rel_fun_def split: fault.splits io_error.splits)

lemma alike_may_fail [transfer_rule]: "rel_fun alike (rel_prod (=) alike) may_fail may_fail"
  unfolding may_fail_def by transfer_prover

lemma alike_open_file [transfer_rule]:
  "rel_fun (=) (rel_fun alike (rel_prod (=) alike)) open_file open_file"
  unfolding open_file_def by transfer_prover

text \<open>The operations that write the pending changes.\<close>

lemma alike_create_new [transfer_rule]:
  "rel_fun (=) (rel_fun alike (rel_prod (=) alike)) create_new create_new"
  by (auto simp: rel_fun_def create_new_def alike_def split: prod.splits fault.splits option.splits)

lemma alike_remove_file [transfer_rule]:
  "rel_fun (=) (rel_fun alike (rel_prod (=) alike)) remove_file remove_file"
  by (auto simp: rel_fun_def remove_file_def alike_def split: prod.splits fault.splits option.splits)

lemma alike_fsync_directory [transfer_rule]:
  "rel_fun alike (rel_prod (=) alike) fsync_directory fsync_directory"
  by (auto simp: rel_fun_def fsync_directory_def may_fail_def alike_def split: prod.splits fault.splits)

lemma alike_open_lock [transfer_rule]: "rel_fun alike (rel_prod (=) alike) open_lock open_lock"
  by (auto simp: rel_fun_def open_lock_def may_fail_def alike_def split: prod.splits fault.splits option.splits)

text \<open>The others.\<close>

lemma alike_flock [transfer_rule]: "rel_fun alike (rel_prod (=) alike) flock flock"
  unfolding flock_def by transfer_prover

lemma alike_fsync_dir [transfer_rule]: "rel_fun alike (rel_prod (=) alike) fsync_dir fsync_dir"
  unfolding fsync_dir_def by transfer_prover

lemma alike_put_file [transfer_rule]:
  "rel_fun (=) (rel_fun (=) (rel_fun (=) (rel_fun alike alike))) put_file put_file"
  unfolding put_file_def by transfer_prover

lemma alike_file_of [transfer_rule]: "rel_fun alike (=) file_of file_of"
  unfolding file_of_def by transfer_prover

lemma alike_create [transfer_rule]:
  "rel_fun (=) (rel_fun (=) (rel_fun (=) (rel_fun (=) (rel_fun alike (rel_prod (=) alike))))) create create"
  unfolding create_def by transfer_prover

lemma alike_read_entries [transfer_rule]:
  "rel_fun (=) (rel_fun alike (rel_prod (=) alike)) read_entries read_entries"
proof (intro rel_funI, clarify)
  fix ns d d' assume "alike d d'"
  then show "rel_prod (=) alike (read_entries ns d) (read_entries ns d')"
  proof (induction ns arbitrary: d d')
    case (Cons n ns)
    have m: "rel_prod (=) alike (may_fail d) (may_fail d')" using alike_may_fail Cons.prems by (simp add: rel_fun_def)
    then show ?case using Cons.IH by (fastforce simp: rel_prod.simps split: sum.splits prod.splits)
  qed simp
qed

lemma alike_discover [transfer_rule]: "rel_fun alike (rel_prod (=) alike) discover discover"
  unfolding discover_def by transfer_prover

lemma alike_discard [transfer_rule]:
  "rel_fun (=) (rel_fun (=) (rel_fun (=) (rel_fun alike (rel_prod (=) alike))))
     discard_incomplete_highest discard_incomplete_highest"
  unfolding discard_incomplete_highest_def bool.case_eq_if by transfer_prover

lemma alike_cold_start [transfer_rule]:
  "rel_fun (=) (rel_fun (=) (rel_fun (=) (rel_fun (=) (rel_fun alike (rel_prod (=) alike))))) cold_start cold_start"
  unfolding cold_start_def by transfer_prover

lemma alike_recover_one [transfer_rule]:
  "rel_fun (=) (rel_fun (=) (rel_fun (=) (rel_fun (=) (rel_fun (=) (rel_fun alike (rel_prod (=) alike))))))
     recover_one recover_one"
  unfolding recover_one_def by transfer_prover

lemma alike_step: "rel_fun alike (rel_prod (=) alike) f g \<Longrightarrow> alike d d' \<Longrightarrow>
    \<exists>r d1 d1'. f d = (r, d1) \<and> g d' = (r, d1') \<and> alike d1 d1'"
  by (cases "f d"; cases "g d'") (force simp: rel_fun_def)

lemma alike_recover_bases [transfer_rule]:
  "rel_fun (=) (rel_fun (=) (rel_fun (=) (rel_fun (=) (rel_fun (=) (rel_fun alike (rel_prod (=) alike))))))
     recover_bases recover_bases"
proof (intro rel_funI, clarify)
  fix crc cfg prev bs acc d d' assume "alike d d'"
  then show "rel_prod (=) alike (recover_bases crc cfg prev bs acc d) (recover_bases crc cfg prev bs acc d')"
  proof (induction bs arbitrary: prev acc d d')
    case (Cons b bs)
    have "rel_fun alike (rel_prod (=) alike) (recover_one crc cfg prev (Lsn b) (bs = []))
        (recover_one crc cfg prev (Lsn b) (bs = []))"
      using alike_recover_one by (simp add: rel_fun_def)
    from alike_step [OF this Cons.prems] Cons.IH show ?case by (auto simp: Let_def split: sum.splits)
  qed simp
qed

lemma alike_recover_all [transfer_rule]:
  "rel_fun (=) (rel_fun (=) (rel_fun (=) (rel_fun alike (rel_prod (=) alike)))) recover_all recover_all"
  unfolding recover_all_def by transfer_prover

lemma alike_open_locked [transfer_rule]:
  "rel_fun (=) (rel_fun (=) (rel_fun (=) (rel_fun (=) (rel_fun (=) (rel_fun alike (rel_prod (=) alike))))))
     open_locked open_locked"
  unfolding open_locked_def by transfer_prover

lemma alike_open_seeded:
  "rel_fun (=) (rel_fun (=) (rel_fun (=) (rel_fun (=) (rel_fun (=) (rel_fun alike (rel_prod (=) alike))))))
     open_seeded open_seeded"
  unfolding open_seeded_def by transfer_prover

section \<open>The handle\<close>

lemma alike_roll [transfer_rule]:
  "rel_fun (=) (rel_fun (=) (rel_fun (=) (rel_fun (=) (rel_fun alike (rel_prod (=) (rel_prod (=) alike)))))) roll roll"
  unfolding roll_def by transfer_prover

lemma alike_write_prefix [transfer_rule]:
  "rel_fun (=) (rel_fun (=) (rel_fun (=) (rel_fun (=) (rel_fun (=) (rel_fun alike (rel_prod (=) (rel_prod (=) alike)))))))
     write_prefix write_prefix"
  unfolding write_prefix_def by transfer_prover

lemma alike_step_two [transfer_rule]:
  "rel_fun (=) (rel_fun (=) (rel_fun (=) (rel_fun (=) (rel_fun (=) (rel_fun alike (rel_prod (=) (rel_prod (=) alike)))))))
     step_two step_two"
  unfolding step_two_def by transfer_prover

lemma alike_commit_step [transfer_rule]:
  "rel_fun (=) (rel_fun (=) (rel_fun (=) (rel_fun (=) (rel_fun (=) (rel_fun alike (rel_prod (=) (rel_prod (=) alike)))))))
     commit_step commit_step"
  unfolding commit_step_def by transfer_prover

lemma alike_commit_loop [transfer_rule]:
  "rel_fun (=) (rel_fun (=) (rel_fun (=) (rel_fun (=) (rel_fun (=) (rel_fun alike (rel_prod (=) (rel_prod (=) alike)))))))
     commit_loop commit_loop"
proof (intro rel_funI, clarify)
  fix crc clock on_durable pos w d d' assume "alike d d'"
  then show "rel_prod (=) (rel_prod (=) alike) (commit_loop crc clock on_durable pos w d)
      (commit_loop crc clock on_durable pos w d')"
  proof (induction crc clock on_durable pos w d arbitrary: d' rule: commit_loop.induct)
    case (1 crc clock on_durable pos w d)
    obtain r w1 d1 where s: "commit_step crc clock on_durable pos w d = (r, w1, d1)"
      by (cases "commit_step crc clock on_durable pos w d")
    have "rel_prod (=) (rel_prod (=) alike) (commit_step crc clock on_durable pos w d)
        (commit_step crc clock on_durable pos w d')"
      by (rule alike_commit_step [THEN rel_funD, OF refl, THEN rel_funD, OF refl, THEN rel_funD, OF refl,
          THEN rel_funD, OF refl, THEN rel_funD, OF refl, THEN rel_funD]) (rule "1.prems")
    then obtain d1' where "commit_step crc clock on_durable pos w d' = (r, w1, d1')" "alike d1 d1'"
      using s by (cases "commit_step crc clock on_durable pos w d'") auto
    then show ?case
      using "1.IH" "1.prems" s
      by (subst (1 2) commit_loop.simps) (auto split: sum.splits)
  qed
qed

lemma alike_commit:
  "rel_fun (=) (rel_fun (=) (rel_fun (=) (rel_fun (=) (rel_fun alike (rel_prod (=) (rel_prod (=) alike)))))) commit commit"
  unfolding commit_def by transfer_prover

lemma alike_unlink_all [transfer_rule]: "rel_fun (=) (rel_fun alike (rel_prod (=) alike)) unlink_all unlink_all"
proof (intro rel_funI, clarify)
  fix bs d d' assume "alike d d'"
  then show "rel_prod (=) alike (unlink_all bs d) (unlink_all bs d')"
  proof (induction bs arbitrary: d d')
    case (Cons b bs)
    have "rel_fun alike (rel_prod (=) alike) (remove_file (filename_for b)) (remove_file (filename_for b))"
      using alike_remove_file by (simp add: rel_fun_def)
    from alike_step [OF this Cons.prems] Cons.IH show ?case by (auto split: sum.splits io_error.splits)
  qed simp
qed

lemma alike_checkpoint:
  "rel_fun (=) (rel_fun (=) (rel_fun alike (rel_prod (=) (rel_prod (=) alike)))) checkpoint checkpoint"
  unfolding checkpoint_def by transfer_prover

section \<open>In use\<close>

lemma open_alike:
  assumes "open_seeded crc clock cfg ob seed d = (r, d1)" "alike d d'"
  obtains d1' where "open_seeded crc clock cfg ob seed d' = (r, d1')" "alike d1 d1'"
proof -
  have "rel_prod (=) alike (open_seeded crc clock cfg ob seed d) (open_seeded crc clock cfg ob seed d')"
    by (rule alike_open_seeded [THEN rel_funD, OF refl, THEN rel_funD, OF refl, THEN rel_funD, OF refl,
        THEN rel_funD, OF refl, THEN rel_funD, OF refl, THEN rel_funD]) (rule assms(2))
  then show ?thesis using assms(1) that by (cases "open_seeded crc clock cfg ob seed d'") auto
qed

lemma commit_alike:
  assumes "commit crc clock on_durable w d = (r, w1, d1)" "alike d d'"
  obtains d1' where "commit crc clock on_durable w d' = (r, w1, d1')" "alike d1 d1'"
proof -
  have "rel_prod (=) (rel_prod (=) alike) (commit crc clock on_durable w d) (commit crc clock on_durable w d')"
    by (rule alike_commit [THEN rel_funD, OF refl, THEN rel_funD, OF refl, THEN rel_funD, OF refl,
        THEN rel_funD, OF refl, THEN rel_funD]) (rule assms(2))
  then show ?thesis using assms(1) that by (cases "commit crc clock on_durable w d'") auto
qed

lemma checkpoint_alike:
  assumes "checkpoint up_to w d = (r, w1, d1)" "alike d d'"
  obtains d1' where "checkpoint up_to w d' = (r, w1, d1')" "alike d1 d1'"
proof -
  have "rel_prod (=) (rel_prod (=) alike) (checkpoint up_to w d) (checkpoint up_to w d')"
    by (rule alike_checkpoint [THEN rel_funD, OF refl, THEN rel_funD, OF refl, THEN rel_funD]) (rule assms(2))
  then show ?thesis using assms(1) that by (cases "checkpoint up_to w d'") auto
qed

end
