(* ===== verification/Wal_Shapes.thy ===== *)
theory Wal_Shapes
  imports Wal_Frame
begin

text \<open>
  Logs on a platform without failures, exactly: a log is its shape, the list of its segments
  with their base LSNs and payloads, and every operation of the handle is a function on
  shapes. The shape says where every record is, which names the directory has, and what the
  observer is told; the contract of \<open>Wal_Contract\<close> only says what the log is.
\<close>

section \<open>Shapes\<close>

type_synonym shape = "(nat \<times> bytes list) list"

definition seg_of :: "(bytes \<Rightarrow> u32) \<Rightarrow> (lsn \<Rightarrow> u64) \<Rightarrow> nat \<times> bytes list \<Rightarrow> aseg" where
  "seg_of crc clock x = (new_seg crc clock (fst x))\<lparr>sg_log := snd x\<rparr>"

definition segs_of :: "(bytes \<Rightarrow> u32) \<Rightarrow> (lsn \<Rightarrow> u64) \<Rightarrow> shape \<Rightarrow> aseg list" where
  "segs_of crc clock sh = map (seg_of crc clock) sh"

definition shape_base :: "shape \<Rightarrow> nat" where
  "shape_base sh = fst (hd sh)"

definition shape_end :: "shape \<Rightarrow> nat" where
  "shape_end sh = fst (last sh) + length (snd (last sh))"

definition shape_log :: "shape \<Rightarrow> bytes list" where
  "shape_log sh = concat (map snd sh)"

lemma seg_of_simps [simp]:
  "sg_base (seg_of crc clock x) = fst x" "sg_log (seg_of crc clock x) = snd x"
  "seg_name (seg_of crc clock x) = filename_for (lsn_of (fst x))"
  "sg_header (seg_of crc clock x) = encode_header crc (lsn_of (fst x)) (clock (lsn_of (fst x)))"
  by (simp_all add: seg_of_def new_seg_def seg_name_def)

lemma seg_of_new: "seg_of crc clock (b, []) = new_seg crc clock b"
  by (simp add: seg_of_def new_seg_def)

lemma segs_of_simps [simp]:
  "segs_of crc clock [] = []" "segs_of crc clock (x # sh) = seg_of crc clock x # segs_of crc clock sh"
  "segs_of crc clock (sh @ sh') = segs_of crc clock sh @ segs_of crc clock sh'"
  "length (segs_of crc clock sh) = length sh" "segs_of crc clock sh = [] \<longleftrightarrow> sh = []"
  "drop n (segs_of crc clock sh) = segs_of crc clock (drop n sh)"
  "log_of (segs_of crc clock sh) = shape_log sh"
  by (simp_all add: segs_of_def drop_map log_of_def shape_log_def o_def)

lemma segs_of_bases: "map (\<lambda>s. lsn_of (sg_base s)) (segs_of crc clock sh) = map (\<lambda>x. lsn_of (fst x)) sh"
  by (simp add: segs_of_def)

lemma segs_of_ends:
  "sh \<noteq> [] \<Longrightarrow> log_base (segs_of crc clock sh) = shape_base sh"
  "sh \<noteq> [] \<Longrightarrow> log_end (segs_of crc clock sh) = shape_end sh"
  "sh \<noteq> [] \<Longrightarrow> last (segs_of crc clock sh) = seg_of crc clock (last sh)"
  by (simp_all add: segs_of_def log_base_def log_end_def shape_base_def shape_end_def seg_end_def hd_map last_map)

section \<open>Filling segments\<close>

text \<open>
  What committing does to the last segment, with base \<open>b\<close> and records \<open>l\<close>: a record goes to
  the segment it fits in, or to a new one.
\<close>

fun pack :: "nat \<Rightarrow> nat \<Rightarrow> bytes list \<Rightarrow> bytes list \<Rightarrow> shape" where
  "pack ssz b l [] = [(b, l)]"
| "pack ssz b l (p # ps) =
     (if 64 + frames_size l + framed_size (length p) \<le> ssz then pack ssz b (l @ [p]) ps
      else (b, l) # pack ssz (b + length l) [p] ps)"

definition committed :: "nat \<Rightarrow> shape \<Rightarrow> bytes list \<Rightarrow> shape" where
  "committed ssz sh ps = butlast sh @ pack ssz (fst (last sh)) (snd (last sh)) ps"

text \<open>One call of the observer for each segment that got records.\<close>

definition told :: "nat \<Rightarrow> shape \<Rightarrow> lsn list" where
  "told e sh = map (\<lambda>x. lsn_of (fst x + length (snd x) - 1)) (filter (\<lambda>x. e < fst x + length (snd x)) sh)"

lemma pack_take:
  "frames_size l + 64 \<le> ssz \<Longrightarrow> pack ssz b l ps =
     (let c = fit_count (ssz - (64 + frames_size l)) ps in
      if c < length ps then (b, l @ take c ps) # pack ssz (b + length l + c) [ps ! c] (drop (Suc c) ps)
      else [(b, l @ ps)])"
proof (induction ps arbitrary: l)
  case (Cons p ps)
  show ?case
  proof (cases "64 + frames_size l + framed_size (length p) \<le> ssz")
    case True
    then have "ssz - (64 + frames_size (l @ [p])) = ssz - (64 + frames_size l) - framed_size (length p)" by simp
    then show ?thesis using Cons.IH [of "l @ [p]"] True Cons.prems by (auto simp: Let_def)
  next
    case False
    then show ?thesis using Cons.prems by (simp add: Let_def)
  qed
qed simp

lemma pack_ends: "x \<in> set (pack ssz b l ps) \<Longrightarrow> b + length l \<le> fst x + length (snd x)"
proof (induction ps arbitrary: b l)
  case (Cons p ps)
  show ?case
  proof (cases "64 + frames_size l + framed_size (length p) \<le> ssz")
    case True
    then show ?thesis using Cons.IH [of b "l @ [p]"] Cons.prems by simp
  next
    case False
    then show ?thesis using Cons.IH [of "b + length l" "[p]"] Cons.prems by auto
  qed
qed simp

lemma pack_not_Nil [simp]: "pack ssz b l ps \<noteq> []"
  by (induction ps arbitrary: b l) auto

lemma told_pack_pos:
  assumes "64 + framed_size (length p) \<le> ssz" "e \<le> b"
  shows "told e (pack ssz b [] (p # ps)) = told b (pack ssz b [] (p # ps))"
proof -
  have "b < fst x + length (snd x)" if "x \<in> set (pack ssz b [p] ps)" for x
    using pack_ends [OF that] by simp
  then have "filter (\<lambda>x. e < fst x + length (snd x)) (pack ssz b [p] ps)
      = filter (\<lambda>x. b < fst x + length (snd x)) (pack ssz b [p] ps)"
    using assms(2) by (intro filter_cong) (auto intro: le_less_trans)
  then show ?thesis using assms(1) by (simp add: told_def)
qed

text \<open>One step of the commit loop on shapes.\<close>

definition step_shape :: "nat \<Rightarrow> shape \<Rightarrow> bytes list \<Rightarrow> shape" where
  "step_shape c sh todo =
     butlast sh @ (if c < length todo
       then [(fst (last sh), snd (last sh) @ take c todo), (shape_end sh + c, [])]
       else [(fst (last sh), snd (last sh) @ todo)])"

lemma segs_of_step_shape:
  assumes "sh \<noteq> []"
  shows "after_step crc clock (segs_of crc clock sh) c todo = segs_of crc clock (step_shape c sh todo)"
proof -
  have "extend_seg (seg_of crc clock x) ps = seg_of crc clock (fst x, snd x @ ps)" for x ps
    by (simp add: extend_seg_def seg_of_def new_seg_def)
  moreover have "butlast (segs_of crc clock sh) = segs_of crc clock (butlast sh)" by (simp add: segs_of_def map_butlast)
  ultimately show ?thesis
    using assms segs_of_ends [OF assms, of crc clock]
    by (simp add: after_step_def after_write_def step_shape_def seg_of_new)
qed

lemma step_shape_simps [simp]:
  "step_shape c sh todo \<noteq> []" "c \<le> length todo \<Longrightarrow> shape_end (step_shape c sh todo) = shape_end sh + c"
  "\<not> c < length todo \<Longrightarrow> last (step_shape c sh todo) = (fst (last sh), snd (last sh) @ todo)"
  "c < length todo \<Longrightarrow> last (step_shape c sh todo) = (shape_end sh + c, [])"
  "c < length todo \<Longrightarrow> butlast (step_shape c sh todo) = butlast sh @ [(fst (last sh), snd (last sh) @ take c todo)]"
  "\<not> c < length todo \<Longrightarrow> butlast (step_shape c sh todo) = butlast sh"
  by (auto simp: step_shape_def shape_end_def butlast_append)

lemma committed_step:
  assumes "64 + frames_size (snd (last sh)) \<le> ssz" "c = fit_count (ssz - (64 + frames_size (snd (last sh)))) todo"
    and "\<And>p. p \<in> set todo \<Longrightarrow> 64 + framed_size (length p) \<le> ssz"
  shows "committed ssz (step_shape c sh todo) (drop c todo) = committed ssz sh todo"
    and "told (shape_end sh) (pack ssz (fst (last sh)) (snd (last sh)) todo) =
      (if c = 0 then [] else [lsn_of (shape_end sh + c - 1)])
      @ told (shape_end sh + c) (pack ssz (fst (last (step_shape c sh todo))) (snd (last (step_shape c sh todo))) (drop c todo))"
proof -
  let ?b = "fst (last sh)" and ?l = "snd (last sh)"
  have pk: "pack ssz ?b ?l todo = (if c < length todo then (?b, ?l @ take c todo) # pack ssz (?b + length ?l + c) [todo ! c] (drop (Suc c) todo)
      else [(?b, ?l @ todo)])"
    using pack_take [of ?l ssz ?b todo] assms(1,2) by (simp add: Let_def)
  have cle: "c \<le> length todo" by (simp add: assms(2) fit_count_le)
  have two: "pack ssz ?b ?l todo = (?b, ?l @ take c todo) # pack ssz (shape_end sh + c) [] (drop c todo)" if "c < length todo"
    using pk that assms(3) [of "todo ! c"] Cons_nth_drop_Suc [OF that, symmetric] by (simp add: shape_end_def)
  then show "committed ssz (step_shape c sh todo) (drop c todo) = committed ssz sh todo"
    using cle pk by (cases "c < length todo") (simp_all add: committed_def)
  show "told (shape_end sh) (pack ssz ?b ?l todo) = (if c = 0 then [] else [lsn_of (shape_end sh + c - 1)])
      @ told (shape_end sh + c) (pack ssz (fst (last (step_shape c sh todo))) (snd (last (step_shape c sh todo))) (drop c todo))"
  proof (cases "c < length todo")
    case True
    have "told (shape_end sh) (pack ssz (shape_end sh + c) [] (drop c todo))
        = told (shape_end sh + c) (pack ssz (shape_end sh + c) [] (drop c todo))"
      using told_pack_pos [of "todo ! c" ssz "shape_end sh" "shape_end sh + c" "drop (Suc c) todo"] assms(3) [of "todo ! c"] True
      by (simp add: Cons_nth_drop_Suc)
    then show ?thesis using two [OF True] True by (simp add: told_def shape_end_def add.assoc)
  next
    case False
    then show ?thesis using pk cle by (simp add: told_def shape_end_def add.assoc)
  qed
qed

lemma commit_loop_shape:
  assumes "commit_loop crc clock on_durable (frames_size dn) w d = (res, w', d')" and "sh \<noteq> []"
    and "wal_core crc w (segs_of crc clock sh)" "wal_staged crc w (segs_of crc clock sh) dn todo" "length dn \<le> shape_end sh"
    and "holds crc (unat (segment_size w)) (segs_of crc clock sh) d" "dfaults d = []"
  shows "res = Inr () \<and> dfaults d' = [] \<and> wal_core crc w' (segs_of crc clock (committed (unat (segment_size w)) sh todo))
    \<and> wal_staged crc w' (segs_of crc clock (committed (unat (segment_size w)) sh todo)) (dn @ todo) []
    \<and> holds crc (unat (segment_size w)) (segs_of crc clock (committed (unat (segment_size w)) sh todo)) d'
    \<and> segment_size w' = segment_size w \<and> max_record_size w' = max_record_size w
    \<and> observer w' = fold on_durable (told (shape_end sh) (pack (unat (segment_size w)) (fst (last sh)) (snd (last sh)) todo)) (observer w)"
  using assms
proof (induction "2 * length todo + (if snd (last sh) = [] then 0 else (1::nat))"
    arbitrary: dn todo w sh d rule: less_induct)
  case less
  let ?ss = "segs_of crc clock sh" and ?ssz = "unat (segment_size w)"
  note sne = less.prems(2) and core = less.prems(3) and stg = less.prems(4) and h = less.prems(6) and nf = less.prems(7)
  note ends = segs_of_ends [OF sne, of crc clock]
  have pok: "payloads_ok (unat (max_record_size w)) todo"
    and stag: "length (staging w) = frames_size dn + frames_size todo"
    using stg by (simp_all add: wal_staged_def)
  have wo: "write_offset w = 64 + frames_size (snd (last sh))" using core by (simp add: wal_core_def ends(3))
  have room: "64 + frames_size (snd (last sh)) \<le> ?ssz"
    using segs_ok_last(1) [OF wal_core_segs [OF core]] ends(3) by (auto simp: seg_ok_def dest: seg_wf_le)
  have fits: "64 + framed_size (length p) \<le> ?ssz" if "p \<in> set todo" for p
  proof -
    have "length p \<le> unat (max_record_size w)" using pok that by (auto simp: payloads_ok_def list_all_iff)
    then show ?thesis using framed_size_bounds(2) [of "length p"] core by (simp add: wal_core_def)
  qed
  show ?case
  proof (cases "todo = []")
    case True
    have "committed ?ssz sh [] = sh" using sne by (simp add: committed_def)
    moreover have "told (shape_end sh) (pack ?ssz (fst (last sh)) (snd (last sh)) []) = []"
      by (simp add: told_def shape_end_def)
    ultimately show ?thesis
      using less.prems True stag by (auto simp: commit_loop.simps [of crc clock on_durable])
  next
    case ne: False
    then have "0 < frames_size todo" by (metis frames_size_eq_0 gr0I)
    then have lt: "frames_size dn < length (staging w)" by (simp add: stag)
    define c where "c = fit_here w todo"
    let ?sh1 = "step_shape c sh todo"
    have ceq: "c = fit_count (?ssz - (64 + frames_size (snd (last sh)))) todo" by (simp add: c_def fit_here_def wo)
    have cle: "c \<le> length todo" by (simp add: c_def fit_here_def fit_count_le)
    obtain r1 w1 d1 where st: "commit_step crc clock on_durable (frames_size dn) w d = (r1, w1, d1)"
      by (cases "commit_step crc clock on_durable (frames_size dn) w d")
    have dn: "length dn \<le> log_end ?ss" using less.prems(5) ends(2) by simp
    from commit_step_no_faults [OF st core stg dn h ne nf]
    obtain p where p: "r1 = Inr p" and nf1: "dfaults d1 = []" by blast
    from commit_step_cases [OF st core stg dn h ne c_def] p
    have f: "p = frames_size (dn @ take c todo)" "wal_core crc w1 (segs_of crc clock ?sh1)"
      "wal_staged crc w1 (segs_of crc clock ?sh1) (dn @ take c todo) (drop c todo)"
      "holds crc ?ssz (segs_of crc clock ?sh1) d1" "segment_size w1 = segment_size w" "max_record_size w1 = max_record_size w"
      "observer w1 = (if c = 0 then observer w else on_durable (lsn_of (shape_end sh + c - 1)) (observer w))"
      using segs_of_step_shape [OF sne, of crc clock c todo] ends(2) by auto
    have lp: "commit_loop crc clock on_durable (frames_size (dn @ take c todo)) w1 d1 = (res, w', d')"
      using less.prems(1) lt st p f(1) by (subst (asm) commit_loop.simps) simp
    have dec: "2 * length (drop c todo) + (if snd (last ?sh1) = [] then 0 else 1) < 2 * length todo + (if snd (last sh) = [] then 0 else (1::nat))"
      using after_step_measure [OF core ne pok c_def, of clock] segs_of_step_shape [OF sne, of crc clock c todo]
        segs_of_ends(3) [of ?sh1 crc clock] ends(3) by simp
    have dn1: "length (dn @ take c todo) \<le> shape_end ?sh1" using less.prems(5) cle by simp
    have "holds crc (unat (segment_size w1)) (segs_of crc clock ?sh1) d1" using f(4,5) by simp
    from less.hyps [OF dec lp _ f(2,3) dn1 this nf1]
    have tl: "observer w' = fold on_durable
        (told (shape_end sh + c) (pack ?ssz (fst (last ?sh1)) (snd (last ?sh1)) (drop c todo))) (observer w1)"
      and rest: "res = Inr ()" "dfaults d' = []" "wal_core crc w' (segs_of crc clock (committed ?ssz sh todo))"
      "wal_staged crc w' (segs_of crc clock (committed ?ssz sh todo)) (dn @ todo) []"
      "holds crc ?ssz (segs_of crc clock (committed ?ssz sh todo)) d'"
      "segment_size w' = segment_size w" "max_record_size w' = max_record_size w"
      using committed_step(1) [OF room ceq fits] f(5,6) cle by simp_all
    have "observer w1 = fold on_durable (if c = 0 then [] else [lsn_of (shape_end sh + c - 1)]) (observer w)"
      using f(7) by simp
    with tl rest show ?thesis using committed_step(2) [OF room ceq fits] by simp
  qed
qed

section \<open>Directories and handles\<close>

definition named :: "disk \<Rightarrow> bool" where
  "named d \<longleftrightarrow> (\<forall>n \<in> fst ` set (entries d). n = LOCK \<or> is_seg_name n)"

text \<open>A closed log, and an open one with records staged.\<close>

definition rests :: "(bytes \<Rightarrow> u32) \<Rightarrow> (lsn \<Rightarrow> u64) \<Rightarrow> wal_config \<Rightarrow> disk \<Rightarrow> shape \<Rightarrow> bool" where
  "rests crc clock cfg d sh \<longleftrightarrow> cfg_ok cfg \<and> \<not> lock_held d \<and> dfaults d = [] \<and> named d
     \<and> holds crc (unat (cfg_segment_size cfg)) (segs_of crc clock sh) (d\<lparr>pending := []\<rparr>)
     \<and> (sh \<noteq> [] \<longrightarrow> segs_ok crc (unat (cfg_segment_size cfg)) (unat (cfg_max_record_size cfg)) (segs_of crc clock sh))"

definition stands :: "(bytes \<Rightarrow> u32) \<Rightarrow> (lsn \<Rightarrow> u64) \<Rightarrow> wal_config \<Rightarrow> 'o wal \<Rightarrow> disk \<Rightarrow> shape \<Rightarrow> bytes list \<Rightarrow> bool" where
  "stands crc clock cfg w d sh staged \<longleftrightarrow> cfg_ok cfg \<and> lock_held d \<and> dfaults d = [] \<and> named d \<and> sh \<noteq> []
     \<and> segment_size w = cfg_segment_size cfg \<and> max_record_size w = cfg_max_record_size cfg
     \<and> wal_inv crc w (segs_of crc clock sh) staged
     \<and> holds crc (unat (cfg_segment_size cfg)) (segs_of crc clock sh) (d\<lparr>pending := []\<rparr>)"

lemma holds_alike:
  "holds crc ssz ss (d\<lparr>pending := []\<rparr>) \<Longrightarrow> alike d d' \<Longrightarrow> holds crc ssz ss (d'\<lparr>pending := []\<rparr>)"
  by (simp add: holds_def alike_def names_settled_def)

lemma holds_unpend: "holds crc ssz ss d \<Longrightarrow> holds crc ssz ss (d\<lparr>pending := []\<rparr>)"
  by (simp add: holds_def names_settled_def)

lemma named_alike: "named d \<Longrightarrow> alike d d' \<Longrightarrow> named d'"
  by (simp add: named_def alike_def)

text \<open>What the fields of the handle are.\<close>

lemma stands_fields:
  assumes "stands crc clock cfg w d sh staged"
  shows "segments w = map (\<lambda>x. lsn_of (fst x)) sh" "durable_lsn w = lsn_of (shape_end sh - 1)"
    "last_lsn w = lsn_of (shape_end sh + length staged - 1)" "oldest_lsn w = lsn_of (shape_base sh)"
    "poisoned w = False" "segment_size w = cfg_segment_size cfg" "max_record_size w = cfg_max_record_size cfg"
    "write_offset w = 64 + frames_size (snd (last sh))" "active w = filename_for (lsn_of (fst (last sh)))"
    "length (staging w) = frames_size staged"
proof -
  have ne: "sh \<noteq> []" and inv: "wal_inv crc w (segs_of crc clock sh) staged"
    using assms by (simp_all add: stands_def)
  note e = segs_of_ends [OF ne, of crc clock]
  show "segments w = map (\<lambda>x. lsn_of (fst x)) sh" "durable_lsn w = lsn_of (shape_end sh - 1)"
    "last_lsn w = lsn_of (shape_end sh + length staged - 1)" "oldest_lsn w = lsn_of (shape_base sh)"
    "poisoned w = False" "write_offset w = 64 + frames_size (snd (last sh))"
    "active w = filename_for (lsn_of (fst (last sh)))" "length (staging w) = frames_size staged"
    using inv e by (simp_all add: wal_inv_def wal_core_def wal_staged_def segs_of_bases)
qed (use assms in \<open>simp_all add: stands_def\<close>)

lemma stands_bounds:
  assumes "stands crc clock cfg w d sh staged"
  shows "0 < shape_base sh" "shape_end sh + length staged \<le> Suc u64_max" "0 < shape_end sh"
    "shape_end sh = shape_base sh + length (shape_log sh)" "x \<in> set sh \<Longrightarrow> fst x \<le> u64_max"
    "x \<in> set sh \<Longrightarrow> shape_base sh \<le> fst x"
proof -
  let ?ss = "segs_of crc clock sh"
  have ne: "sh \<noteq> []" and inv: "wal_inv crc w ?ss staged" using assms by (simp_all add: stands_def)
  note e = segs_of_ends [OF ne, of crc clock]
  have ok: "segs_ok crc (unat (segment_size w)) (unat (max_record_size w)) ?ss" using inv by (simp add: wal_inv_def wal_core_def)
  show "shape_end sh + length staged \<le> Suc u64_max" using inv e by (simp add: wal_inv_def wal_staged_def)
  show "0 < shape_end sh" using segs_ok_last(2) [OF ok] e by simp
  have ch: "chain ?ss" using ok by (simp add: segs_ok_def)
  show "shape_end sh = shape_base sh + length (shape_log sh)" using chain_log_end [OF ch] e by simp
  show "x \<in> set sh \<Longrightarrow> fst x \<le> u64_max" using segs_ok_bound [OF ok, of "seg_of crc clock x"] by (simp add: segs_of_def)
  have "seg_ok crc (unat (segment_size w)) (unat (max_record_size w)) (hd ?ss)" using ok ne by (cases sh) (auto simp: segs_ok_def)
  then show "0 < shape_base sh" using ne by (cases sh) (auto simp: shape_base_def seg_ok_def seg_wf_def)
  have "sorted_wrt (<) (map sg_base ?ss)" by (rule chain_sorted [OF ch])
  then show "x \<in> set sh \<Longrightarrow> shape_base sh \<le> fst x"
    by (cases sh) (auto simp: shape_base_def segs_of_def less_imp_le)
qed

lemma append_shape:
  assumes "stands crc clock cfg w d sh staged" "length p \<le> unat (cfg_max_record_size cfg)"
    "shape_end sh + length staged \<le> u64_max"
  obtains w' where "wal_append crc p w = (Inr (lsn_of (shape_end sh + length staged)), w')"
    "stands crc clock cfg w' d sh (staged @ [p])" "observer w' = observer w"
proof -
  have inv: "wal_inv crc w (segs_of crc clock sh) staged" and sz: "max_record_size w = cfg_max_record_size cfg" and ne: "sh \<noteq> []"
    using assms(1) by (simp_all add: stands_def)
  have "length p \<le> unat (max_record_size w)" using assms(2) sz by simp
  from append_inv [OF inv this] that assms(1,3) segs_of_ends(2) [OF ne, of crc clock] show ?thesis
    by (auto simp: stands_def)
qed

lemma append_full_shape:
  assumes "stands crc clock cfg w d sh staged" "length p \<le> unat (cfg_max_record_size cfg)"
    "shape_end sh + length staged = Suc u64_max"
  shows "wal_append crc p w = (Inl LsnExhausted, w)"
proof -
  have inv: "wal_inv crc w (segs_of crc clock sh) staged" and sz: "max_record_size w = cfg_max_record_size cfg" and ne: "sh \<noteq> []"
    using assms(1) by (simp_all add: stands_def)
  have "length p \<le> unat (max_record_size w)" using assms(2) sz by simp
  from append_inv [OF inv this] assms(3) segs_of_ends(2) [OF ne, of crc clock] show ?thesis by simp
qed

lemma append_large_shape:
  "stands crc clock cfg w d sh staged \<Longrightarrow> unat (cfg_max_record_size cfg) < length p \<Longrightarrow>
   wal_append crc p w = (Inl RecordTooLarge, w)"
  by (simp add: append_too_large stands_fields)

section \<open>No other names\<close>

lemma named_entries: "named d \<Longrightarrow> fst ` set (entries d') \<subseteq> fst ` set (entries d) \<union> {n. is_seg_name n} \<Longrightarrow> named d'"
  unfolding named_def by blast

lemma named_put [simp]: "named d \<Longrightarrow> is_seg_name n \<Longrightarrow> named (put_file n f r d)"
  by (erule named_entries) auto

lemma named_fields [simp]:
  "named (d\<lparr>dfaults := q\<rparr>) = named d" "named (d\<lparr>pending := p\<rparr>) = named d" "named (d\<lparr>lock_held := b\<rparr>) = named d"
  by (simp_all add: named_def)

lemma named_may_fail: "may_fail d = (r, d') \<Longrightarrow> named d \<Longrightarrow> named d'"
  using may_fail_entries [of d] by (simp add: named_def)

lemma named_open_file: "open_file n d = (r, d') \<Longrightarrow> named d \<Longrightarrow> named d'"
  by (auto simp: open_file_def split: prod.splits fault.splits option.splits)

lemma named_fsync_dir: "fsync_dir d = (r, d') \<Longrightarrow> named d \<Longrightarrow> named d'"
  using fsync_dir_entriesD by (simp add: named_def)

lemma named_create: "create crc c b ssz d = (r, d') \<Longrightarrow> named d \<Longrightarrow> named d'"
proof -
  assume c: "create crc c b ssz d = (r, d')" and d: "named d"
  obtain q d1 where n: "create_new (filename_for b) d = (q, d1)" by fastforce
  then have "entries d1 = entries d \<or> entries d1 = entries d @ [(filename_for b, empty_file)]"
    by (auto simp: create_new_def split: prod.splits fault.splits option.splits)
  then have "named d1" by (elim disjE) (use d in \<open>simp_all add: named_def ball_Un image_Un\<close>)
  then show ?thesis using c n by (auto simp: create_def Let_def split: sum.splits prod.splits)
qed

lemma named_remove: "remove_file n d = (r, d') \<Longrightarrow> named d \<Longrightarrow> named d'"
proof -
  assume r: "remove_file n d = (r, d')" and d: "named d"
  have "fst ` set (AList.delete n (entries d)) \<subseteq> fst ` set (entries d)"
    unfolding set_map [symmetric] by (auto simp: delete_keys)
  then have "named (d'\<lparr>entries := AList.delete n (entries d)\<rparr>)"
    by (intro named_entries [OF d]) (simp add: le_supI1)
  moreover have "entries d' = entries d \<or> entries d' = AList.delete n (entries d)"
    using r by (auto simp: remove_file_def split: prod.splits fault.splits option.splits)
  ultimately show ?thesis using d by (auto simp: named_def)
qed

lemma named_unlink_all: "unlink_all bs d = (r, d') \<Longrightarrow> named d \<Longrightarrow> named d'"
proof (induction bs arbitrary: d)
  case (Cons b bs)
  obtain q d1 where "remove_file (filename_for b) d = (q, d1)" by fastforce
  then show ?case using Cons named_remove by (auto split: sum.splits io_error.splits)
qed simp

lemma named_checkpoint: "checkpoint up_to w d = (r, w', d') \<Longrightarrow> named d \<Longrightarrow> named d'"
  by (auto simp: checkpoint_def Let_def split: if_splits prod.splits sum.splits
      dest: named_unlink_all named_fsync_dir)

lemma named_roll:
  "roll crc clock b w d = (r, w', d') \<Longrightarrow> named d \<Longrightarrow> is_seg_name (active w) \<Longrightarrow> named d' \<and> is_seg_name (active w')"
  by (auto simp: roll_def split: prod.splits sum.splits dest: named_create named_fsync_dir)

lemma named_step_two:
  "step_two on_durable pos scan pl w d = (r, w', d') \<Longrightarrow> named d \<Longrightarrow> is_seg_name (active w) \<Longrightarrow>
   named d' \<and> is_seg_name (active w')"
  by (auto simp: step_two_def write_prefix_def split: if_splits prod.splits sum.splits)

lemma named_commit_step:
  "commit_step crc clock on_durable pos w d = (r, w', d') \<Longrightarrow> named d \<Longrightarrow> is_seg_name (active w) \<Longrightarrow>
   named d' \<and> is_seg_name (active w')"
  by (auto simp: commit_step_def split: if_splits prod.splits sum.splits dest: named_step_two named_roll)

lemma named_commit_loop:
  "commit_loop crc clock on_durable pos w d = (r, w', d') \<Longrightarrow> named d \<Longrightarrow> is_seg_name (active w) \<Longrightarrow> named d'"
proof (induction crc clock on_durable pos w d rule: commit_loop.induct)
  case (1 crc clock on_durable pos w d)
  obtain q w1 d1 where s: "commit_step crc clock on_durable pos w d = (q, w1, d1)"
    by (cases "commit_step crc clock on_durable pos w d")
  have "if pos < length (staging w) then
      (case q of Inl e \<Rightarrow> d' = d1 | Inr pos1 \<Rightarrow> commit_loop crc clock on_durable pos1 w1 d1 = (r, w', d')) else d' = d"
    using "1.prems"(1) s by (subst (asm) commit_loop.simps) (auto split: sum.splits)
  then show ?case
    using "1.IH" [OF _ s [symmetric]] "1.prems"(2,3) named_commit_step [OF s] by (auto split: if_splits sum.splits)
qed

lemma named_commit:
  "commit crc clock on_durable w d = (r, w', d') \<Longrightarrow> named d \<Longrightarrow> is_seg_name (active w) \<Longrightarrow> named d'"
  by (auto simp: commit_def split: if_splits prod.splits sum.splits dest: named_commit_loop)

lemma named_read_entries: "read_entries ns d = (r, d') \<Longrightarrow> named d \<Longrightarrow> named d'"
proof (induction ns arbitrary: d r d')
  case (Cons n ns)
  then show ?case by (fastforce split: prod.splits sum.splits dest: named_may_fail)
qed simp

lemma named_discover: "discover d = (r, d') \<Longrightarrow> named d \<Longrightarrow> named d'"
  by (auto simp: discover_def split: prod.splits sum.splits dest: named_may_fail named_read_entries)

lemma named_discard: "discard_incomplete_highest crc bs cfg d = (r, d') \<Longrightarrow> named d \<Longrightarrow> named d'"
  unfolding discard_incomplete_highest_def bool.case_eq_if
  by (auto simp: Let_def split: if_splits prod.splits sum.splits
      dest!: named_open_file named_remove named_fsync_dir)

lemma named_cold_start: "cold_start crc clock ssz seed d = (r, d') \<Longrightarrow> named d \<Longrightarrow> named d'"
  by (auto simp: cold_start_def split: prod.splits sum.splits dest!: named_create named_fsync_dir)

lemma named_recover_one: "recover_one crc cfg prev b act d = (r, d') \<Longrightarrow> named d \<Longrightarrow> named d'"
  by (auto simp: recover_one_def Let_def split: if_splits prod.splits sum.splits io_error.splits
      dest!: named_open_file)

lemma named_recover_bases: "recover_bases crc cfg prev bs acc d = (r, d') \<Longrightarrow> named d \<Longrightarrow> named d'"
proof (induction bs arbitrary: prev acc d)
  case (Cons b bs)
  obtain q d1 where o: "recover_one crc cfg prev (Lsn b) (bs = []) d = (q, d1)" by fastforce
  show ?case
    using Cons.prems Cons.IH named_recover_one [OF o] o by (auto simp: Let_def split: sum.splits if_splits)
qed simp

lemma named_open_lock: "open_lock d = (r, d') \<Longrightarrow> named d \<Longrightarrow> named d'"
proof -
  assume o: "open_lock d = (r, d')" and d: "named d"
  obtain q d1 where m: "may_fail d = (q, d1)" by fastforce
  have "entries d' = entries d \<or> entries d' = entries d @ [(LOCK, empty_file)]"
    using o m may_fail_entries [of d] by (auto simp: open_lock_def split: sum.splits option.splits)
  then show ?thesis by (elim disjE) (use d in \<open>simp_all add: named_def ball_Un image_Un\<close>)
qed

lemma named_flock: "flock d = (r, d') \<Longrightarrow> named d \<Longrightarrow> named d'"
  by (auto simp: flock_def split: prod.splits sum.splits if_splits dest!: named_may_fail)

lemma named_open_locked: "open_locked crc clock cfg ob seed d = (r, d') \<Longrightarrow> named d \<Longrightarrow> named d'"
  by (auto simp: open_locked_def recover_all_def split: prod.splits sum.splits if_splits
      dest!: named_discover named_discard named_cold_start named_recover_bases)

lemma named_open: "open_seeded crc clock cfg ob seed d = (r, d') \<Longrightarrow> named d \<Longrightarrow> named d'"
  unfolding open_seeded_def
  by (auto split: prod.splits sum.splits if_splits io_error.splits
      dest!: named_may_fail named_open_lock named_flock named_open_locked)

section \<open>The other operations on shapes\<close>

lemma commit_shape:
  assumes "stands crc clock cfg w d sh staged"
  obtains w' d' where "commit crc clock on_durable w d = (Inr (lsn_of (shape_end sh + length staged - 1)), w', d')"
    "stands crc clock cfg w' d' (committed (unat (cfg_segment_size cfg)) sh staged) []"
    "observer w' = fold on_durable (told (shape_end sh)
        (pack (unat (cfg_segment_size cfg)) (fst (last sh)) (snd (last sh)) staged)) (observer w)"
proof -
  let ?ssz = "unat (cfg_segment_size cfg)" and ?ss = "segs_of crc clock sh" and ?d0 = "d\<lparr>pending := []\<rparr>"
  let ?sh' = "committed ?ssz sh staged"
  have s: "cfg_ok cfg" "lock_held d" "dfaults d = []" "named d" "sh \<noteq> []" "segment_size w = cfg_segment_size cfg"
    "max_record_size w = cfg_max_record_size cfg" "wal_inv crc w ?ss staged" "holds crc ?ssz ?ss ?d0"
    using assms by (simp_all add: stands_def)
  have h: "holds crc (unat (segment_size w)) ?ss ?d0" using s(6,9) by simp
  have np: "\<not> poisoned w" and core: "wal_core crc w ?ss" and stg: "wal_staged crc w ?ss [] staged"
    using s(8) by (simp_all add: wal_inv_def wal_core_def)
  have "\<exists>w' d0. commit crc clock on_durable w ?d0 = (Inr (lsn_of (shape_end sh + length staged - 1)), w', d0)
      \<and> wal_inv crc w' (segs_of crc clock ?sh') [] \<and> holds crc ?ssz (segs_of crc clock ?sh') d0 \<and> dfaults d0 = []
      \<and> segment_size w' = segment_size w \<and> max_record_size w' = max_record_size w
      \<and> observer w' = fold on_durable (told (shape_end sh) (pack ?ssz (fst (last sh)) (snd (last sh)) staged)) (observer w)"
  proof (cases "staged = []")
    case True
    then have "staging w = []" using stg by (simp add: wal_staged_def)
    then have "commit crc clock on_durable w ?d0 = (Inr (durable_lsn w), w, ?d0)" using np by (simp add: commit_def)
    moreover have "durable_lsn w = lsn_of (shape_end sh - 1)" by (rule stands_fields(2) [OF assms])
    moreover have "?sh' = sh" using True s(5) by (simp add: committed_def)
    ultimately show ?thesis using True s by (simp add: told_def shape_end_def)
  next
    case False
    then have sg: "staging w \<noteq> []" using stg by (simp add: wal_staged_def)
    obtain r1 w1 d1 where lp: "commit_loop crc clock on_durable (frames_size []) w ?d0 = (r1, w1, d1)"
      by (cases "commit_loop crc clock on_durable (frames_size []) w ?d0")
    from commit_loop_shape [OF lp s(5) core stg _ h] s(3,6)
    have l: "r1 = Inr ()" "dfaults d1 = []" "wal_core crc w1 (segs_of crc clock ?sh')" "wal_staged crc w1 (segs_of crc clock ?sh') staged []"
      "holds crc ?ssz (segs_of crc clock ?sh') d1" "segment_size w1 = segment_size w" "max_record_size w1 = max_record_size w"
      "observer w1 = fold on_durable (told (shape_end sh) (pack ?ssz (fst (last sh)) (snd (last sh)) staged)) (observer w)"
      by simp_all
    have "commit crc clock on_durable w ?d0 = (Inr (durable_lsn w1), w1\<lparr>staging := []\<rparr>, d1)"
      using np sg lp l(1) by (simp add: commit_def)
    moreover obtain l where "commit crc clock on_durable w ?d0 = (Inr l, w1\<lparr>staging := []\<rparr>, d1)" "l = durable_lsn w1"
      using calculation by simp
    moreover have "l = lsn_of (shape_end sh + length staged - 1)"
      using commit_cases [OF calculation(2) s(8) h] segs_of_ends(2) [OF s(5), of crc clock] by auto
    moreover have "wal_inv crc (w1\<lparr>staging := []\<rparr>) (segs_of crc clock ?sh') []"
      using l(3,4) by (simp add: wal_inv_def wal_core_def wal_staged_def)
    ultimately show ?thesis using l by auto
  qed
  then obtain w' d0 where c: "commit crc clock on_durable w ?d0 = (Inr (lsn_of (shape_end sh + length staged - 1)), w', d0)"
    and r: "wal_inv crc w' (segs_of crc clock ?sh') []" "holds crc ?ssz (segs_of crc clock ?sh') d0" "dfaults d0 = []"
      "segment_size w' = segment_size w" "max_record_size w' = max_record_size w"
      "observer w' = fold on_durable (told (shape_end sh) (pack ?ssz (fst (last sh)) (snd (last sh)) staged)) (observer w)"
    by blast
  obtain d' where d': "commit crc clock on_durable w d = (Inr (lsn_of (shape_end sh + length staged - 1)), w', d')" "alike d0 d'"
    by (rule commit_alike [OF c, of d]) simp
  have "is_seg_name (active w)" using stands_fields(9) [OF assms] by simp
  note nm = named_commit [OF d'(1) s(4) this]
  have "lock_held d'" using commit_lock_held [OF d'(1)] s(2) by simp
  moreover have "dfaults d' = []" using d'(2) r(3) by (simp add: alike_def)
  moreover have "holds crc ?ssz (segs_of crc clock ?sh') (d'\<lparr>pending := []\<rparr>)"
    by (rule holds_alike [OF holds_unpend [OF r(2)] d'(2)])
  moreover have "?sh' \<noteq> []" by (simp add: committed_def)
  ultimately have "stands crc clock cfg w' d' ?sh' []"
    using s r nm by (simp add: stands_def)
  then show ?thesis by (rule that [OF d'(1) _ r(6)])
qed

definition reclaimed :: "lsn \<Rightarrow> shape \<Rightarrow> shape" where
  "reclaimed up_to sh = drop (length (takeWhile (\<lambda>x. fst x \<le> Suc (lsn_nat up_to)) (tl sh))) sh"

lemma checkpoint_shape:
  assumes "stands crc clock cfg w d sh staged"
  obtains w' d' where "checkpoint up_to w d = (Inr (), w', d')"
    "stands crc clock cfg w' d' (reclaimed up_to sh) staged" "observer w' = observer w"
proof -
  let ?ssz = "unat (cfg_segment_size cfg)" and ?ss = "segs_of crc clock sh" and ?d0 = "d\<lparr>pending := []\<rparr>"
  have s: "cfg_ok cfg" "lock_held d" "dfaults d = []" "named d" "sh \<noteq> []" "segment_size w = cfg_segment_size cfg"
    "max_record_size w = cfg_max_record_size cfg" "wal_inv crc w ?ss staged" "holds crc ?ssz ?ss ?d0"
    using assms by (simp_all add: stands_def)
  have "takeWhile (\<lambda>s. sg_base s \<le> Suc (lsn_nat up_to)) (tl ?ss)
      = map (seg_of crc clock) (takeWhile (\<lambda>x. fst x \<le> Suc (lsn_nat up_to)) (tl sh))"
    by (cases sh) (simp_all add: segs_of_def takeWhile_map o_def)
  then have del: "drop (deletable ?ss up_to) ?ss = segs_of crc clock (reclaimed up_to sh)"
    by (simp add: deletable_def reclaimed_def)
  obtain r w' d0 where c: "checkpoint up_to w ?d0 = (r, w', d0)" by (cases "checkpoint up_to w ?d0")
  have h: "holds crc (unat (segment_size w)) ?ss ?d0" using s(6,9) by simp
  from checkpoint_cases [OF c s(8) h] s(3,6) del
  have f: "r = Inr ()" "wal_inv crc w' (segs_of crc clock (reclaimed up_to sh)) staged"
    "holds crc ?ssz (segs_of crc clock (reclaimed up_to sh)) d0" "segment_size w' = segment_size w"
    "max_record_size w' = max_record_size w" "observer w' = observer w" "dfaults d0 = []" by auto
  obtain d' where d': "checkpoint up_to w d = (Inr (), w', d')" "alike d0 d'"
    by (rule checkpoint_alike [OF c [unfolded f(1)], of d]) simp
  have "length (takeWhile (\<lambda>x. fst x \<le> Suc (lsn_nat up_to)) (tl sh)) < length sh"
    using s(5) length_takeWhile_le [of "\<lambda>x. fst x \<le> Suc (lsn_nat up_to)" "tl sh"] by (cases sh) auto
  then have ne: "reclaimed up_to sh \<noteq> []" by (simp add: reclaimed_def)
  have "holds crc ?ssz (segs_of crc clock (reclaimed up_to sh)) (d'\<lparr>pending := []\<rparr>)"
    by (rule holds_alike [OF holds_unpend [OF f(3)] d'(2)])
  moreover have "lock_held d'" "named d'"
    using checkpoint_lock_held [OF d'(1)] named_checkpoint [OF d'(1) s(4)] s(2) by simp_all
  moreover have "dfaults d' = []" using d'(2) f(7) by (simp add: alike_def)
  ultimately have "stands crc clock cfg w' d' (reclaimed up_to sh) staged"
    using s f ne by (simp add: stands_def)
  then show ?thesis using that [OF d'(1) _ f(6)] by blast
qed

text \<open>Dropping the handle, and opening again. An empty directory is a cold start.\<close>

lemma drop_shape: "stands crc clock cfg w d sh staged \<Longrightarrow> rests crc clock cfg (drop_handle d) sh"
  by (auto simp: stands_def rests_def drop_handle_def wal_inv_def wal_core_def holds_def names_settled_def)

definition started :: "lsn \<Rightarrow> shape \<Rightarrow> shape" where
  "started seed sh = (if sh = [] then [(lsn_nat seed, [])] else sh)"

lemma open_shape:
  assumes "rests crc clock cfg d sh" "\<not> is_none seed"
  obtains w d' where "open_seeded crc clock cfg ob seed d =
      (Inr (w, \<lparr>report_oldest_lsn = lsn_of (shape_base (started seed sh)),
                report_durable_lsn = lsn_of (shape_end (started seed sh) - 1),
                report_tail_state = Clean, report_segments_scanned = length (started seed sh)\<rparr>), d')"
    "stands crc clock cfg w d' (started seed sh) []" "observer w = ob"
proof -
  let ?ssz = "unat (cfg_segment_size cfg)" and ?ss = "segs_of crc clock sh" and ?d0 = "d\<lparr>pending := []\<rparr>"
  let ?sh = "started seed sh"
  let ?rep = "\<lparr>report_oldest_lsn = lsn_of (shape_base ?sh), report_durable_lsn = lsn_of (shape_end ?sh - 1),
                report_tail_state = Clean, report_segments_scanned = length ?sh\<rparr>"
  have r: "cfg_ok cfg" "\<not> lock_held ?d0" "dfaults ?d0 = []" "named d" "holds crc ?ssz ?ss ?d0"
    "sh \<noteq> [] \<Longrightarrow> segs_ok crc ?ssz (unat (cfg_max_record_size cfg)) ?ss"
    using assms(1) by (simp_all add: rests_def)
  have "\<exists>w d0. open_seeded crc clock cfg ob seed ?d0 = (Inr (w, ?rep), d0) \<and> wal_inv crc w (segs_of crc clock ?sh) []
      \<and> holds crc ?ssz (segs_of crc clock ?sh) d0 \<and> lock_held d0 \<and> dfaults d0 = []
      \<and> segment_size w = cfg_segment_size cfg \<and> max_record_size w = cfg_max_record_size cfg \<and> observer w = ob"
  proof (cases "sh = []")
    case True
    have hs: "has_segs [] ?d0" "names_settled ?d0" using holds_has_segs [OF r(5)] r(5) True by (simp_all add: holds_def)
    show ?thesis
      using open_cold [OF r(1) assms(2) r(3,2) hs, of crc clock ob] True
      by (auto simp: started_def shape_base_def shape_end_def seg_of_new)
  next
    case False
    then show ?thesis
      using open_holds [OF r(1) assms(2) r(3,2) r(6) r(5), of clock ob] segs_of_ends [OF False, of crc clock]
      by (auto simp: started_def)
  qed
  then obtain w d0 where o: "open_seeded crc clock cfg ob seed ?d0 = (Inr (w, ?rep), d0)"
    and f: "wal_inv crc w (segs_of crc clock ?sh) []" "holds crc ?ssz (segs_of crc clock ?sh) d0" "lock_held d0" "dfaults d0 = []"
      "segment_size w = cfg_segment_size cfg" "max_record_size w = cfg_max_record_size cfg" "observer w = ob" by blast
  obtain d' where d': "open_seeded crc clock cfg ob seed d = (Inr (w, ?rep), d')" "alike d0 d'"
    by (rule open_alike [OF o, of d]) simp
  have "holds crc ?ssz (segs_of crc clock ?sh) (d'\<lparr>pending := []\<rparr>)"
    by (rule holds_alike [OF holds_unpend [OF f(2)] d'(2)])
  moreover have "lock_held d'" "dfaults d' = []" using d'(2) f(3,4) by (simp_all add: alike_def)
  moreover have "?sh \<noteq> []" by (simp add: started_def)
  ultimately have "stands crc clock cfg w d' ?sh []"
    using r(1) f named_open [OF d'(1) r(4)] by (simp add: stands_def)
  then show ?thesis using that [OF d'(1) _ f(7)] by blast
qed

text \<open>Reading: what a reader gives, which segment it has open, and what it refuses.\<close>

lemma reader_shape:
  assumes "stands crc clock cfg w d sh staged" "is_none from \<or> shape_base sh \<le> lsn_nat from"
  obtains rd i where "reader_from from w d = (Inr rd, d)"
    "drain crc rd d = (filter (\<lambda>x. from \<le> fst x) (number_from (shape_base sh) (shape_log sh)), None)"
    "open_segment_base rd = Some (lsn_of (fst (sh ! i)))" "i < length sh"
    "i = 0 \<or> fst (sh ! i) \<le> lsn_nat from" "\<And>k. i < k \<Longrightarrow> k < length sh \<Longrightarrow> lsn_nat from < fst (sh ! k)"
proof -
  let ?ssz = "unat (cfg_segment_size cfg)" and ?mx = "unat (cfg_max_record_size cfg)" and ?ss = "segs_of crc clock sh"
  have ne: "sh \<noteq> []" using assms(1) by (simp add: stands_def)
  note f = stands_fields [OF assms(1)] and b = stands_bounds [OF assms(1)] and e = segs_of_ends [OF ne, of crc clock]
  have inv: "wal_inv crc w ?ss staged" using assms(1) by (simp add: stands_def)
  have ok: "segs_ok crc ?ssz ?mx ?ss" using inv f(6,7) by (simp add: wal_inv_def wal_core_def)
  have "readable crc ?ssz ?mx True ?ss (d\<lparr>pending := []\<rparr>)"
    by (rule holds_readable [OF ok]) (use assms(1) in \<open>simp_all add: stands_def\<close>)
  then have rb: "readable crc (unat (segment_size w)) (unat (max_record_size w)) True ?ss d"
    by (simp add: readable_def f)
  have seg: "segments w = map (\<lambda>s. lsn_of (sg_base s)) ?ss" by (simp add: f segs_of_bases)
  have bl: "shape_base sh \<le> u64_max" using b(5) [of "hd sh"] ne by (simp add: shape_base_def)
  have "is_none from \<or> oldest_lsn w \<le> from" using assms(2) bl by (auto simp: f(4) lsn_le_iff)
  from reader_from_spec [OF seg rb this] obtain rd i where r: "reader_from from w d = (Inr rd, d)"
    "rd_at (unat (segment_size w)) (unat (max_record_size w)) ?ss i 0 rd"
    "drain crc rd d = (filter (\<lambda>x. from \<le> fst x) (number_from (log_base ?ss) (log_of ?ss)), None)"
    "\<And>k. i < k \<Longrightarrow> k < length ?ss \<Longrightarrow> rd_from rd < lsn_of (sg_base (?ss ! k))"
    "0 < i \<Longrightarrow> lsn_of (sg_base (?ss ! i)) \<le> from" by auto
  have i: "i < length sh" using r(2) by (simp add: rd_at_def)
  have nth: "sg_base (?ss ! k) = fst (sh ! k)" if "k < length sh" for k using that by (simp add: segs_of_def)
  have fb: "fst (sh ! k) \<le> u64_max" if "k < length sh" for k using b(5) that by simp
  have rf: "rd_from rd = (if lsn_val from = 0 then FIRST else from)"
    using r(1) by (auto simp: reader_from_def Let_def new_reader_def split: if_splits prod.splits sum.splits)
  have "open_segment_base rd = Some (lsn_of (fst (sh ! i)))"
    using r(2) i nth [OF i] by (simp add: open_segment_base_def rd_at_def segs_of_def)
  moreover have "lsn_nat from < fst (sh ! k)" if k: "i < k" "k < length sh" for k
  proof -
    have "rd_from rd < lsn_of (fst (sh ! k))" using r(4) [of k] k nth by simp
    then show ?thesis using rf fb [OF k(2)] by (auto simp: lsn_less_iff is_none_def [symmetric] is_none_iff split: if_splits)
  qed
  moreover have "i = 0 \<or> fst (sh ! i) \<le> lsn_nat from" using r(5) nth [OF i] fb [OF i] by (auto simp: lsn_le_iff)
  ultimately show ?thesis using that [OF r(1)] r(3) e(1) i by simp
qed

lemma reader_refused_shape:
  assumes "stands crc clock cfg w d sh staged" "\<not> is_none from" "lsn_nat from < shape_base sh"
  shows "reader_from from w d = (Inl ContiguityViolation, d)"
proof -
  have "shape_base sh \<le> u64_max"
    using stands_bounds(5) [OF assms(1), of "hd sh"] assms(1) by (simp add: shape_base_def stands_def)
  then have "from < oldest_lsn w" using assms(3) by (simp add: stands_fields [OF assms(1)] lsn_less_iff)
  then show ?thesis using assms(2) by (simp add: reader_from_def is_none_def)
qed

text \<open>The lock, and which files there are.\<close>

lemma locked_shape:
  assumes "stands crc clock cfg w d sh staged" "\<not> is_none seed"
  shows "fst (open_seeded crc clock cfg ob seed d) = Inl Locked"
proof -
  have "\<not> ucast (cfg_max_record_size cfg) + 91 > cfg_segment_size cfg"
    using assms(1) cfg_check by (auto simp: stands_def)
  moreover obtain d1 where "open_lock d = (Inr (), d1)" "lock_held d1" "dfaults d1 = []"
    using assms(1) by (cases "map_of (entries d) LOCK") (auto simp: open_lock_def stands_def may_fail_no_faults)
  ultimately show ?thesis
    using assms by (simp add: open_seeded_def stands_def may_fail_no_faults flock_def)
qed

lemma files_shape:
  assumes "stands crc clock cfg w d sh staged" "b \<le> u64_max"
  shows "map_of (entries d) (filename_for (lsn_of b)) \<noteq> None \<longleftrightarrow> b \<in> fst ` set sh"
proof -
  let ?ss = "segs_of crc clock sh" and ?ssz = "unat (cfg_segment_size cfg)"
  have "map_of (entries d) (filename_for (lsn_of b)) = map_of (seg_map crc ?ssz ?ss) (filename_for (lsn_of b))"
    using assms(1) by (simp add: stands_def holds_def)
  moreover have dm: "dom (map_of (seg_map crc ?ssz ?ss)) = (\<lambda>x. filename_for (lsn_of (fst x))) ` set sh"
    by (simp add: dom_map_of_conv_image_fst seg_map_def image_image segs_of_def)
  have nm: "filename_for (lsn_of b) = filename_for (lsn_of (fst x)) \<longleftrightarrow> b = fst x" if "x \<in> set sh" for x
    using stands_bounds(5) [OF assms(1) that] assms(2) lsn_of_inject by simp
  have "filename_for (lsn_of b) \<in> dom (map_of (seg_map crc ?ssz ?ss)) \<longleftrightarrow> b \<in> fst ` set sh"
    unfolding dm using nm by (metis (no_types, lifting) image_iff)
  then show ?thesis using calculation by (simp add: domIff)
qed

end
