(* ===== verification/Wal_Checksum.thy ===== *)
theory Wal_Checksum
  imports Wal_Corruption
begin

text \<open>
  CRC-32C (Castagnoli), the function the crate \<^verbatim>\<open>crc32c\<close> documents and \<^verbatim>\<open>src/crc.rs\<close>
  pins with known answers: the reflected polynomial \<^verbatim>\<open>0x82F63B78\<close>, initial value and final
  complement of all ones, one bit at a time. It is the concrete function at which the
  parameter \<open>crc\<close> of the development is instantiated: the guarantee \<open>detects_byte\<close>, a
  hypothesis elsewhere, is proved for it, for changes of up to four adjacent bytes.
  The tests of \<^verbatim>\<open>src/crc.rs\<close> are predicates on the parameter.
\<close>

unbundle bit_operations_syntax

section \<open>The function\<close>

definition crc_bit :: "u32 \<Rightarrow> u32" where
  "crc_bit s = (if bit s 0 then drop_bit 1 s XOR 0x82F63B78 else drop_bit 1 s)"

primrec crc_bits :: "nat \<Rightarrow> u32 \<Rightarrow> u32" where
  "crc_bits 0 s = s"
| "crc_bits (Suc n) s = crc_bits n (crc_bit s)"

definition crc_byte :: "u32 \<Rightarrow> u8 \<Rightarrow> u32" where
  "crc_byte s b = crc_bits 8 (s XOR ucast b)"

definition castagnoli :: "bytes \<Rightarrow> u32" where
  "castagnoli bs = foldl crc_byte 0xFFFFFFFF bs XOR 0xFFFFFFFF"

section \<open>Every step is injective\<close>

lemma crc_bit_top: "bit (crc_bit s) 31 \<longleftrightarrow> bit s 0"
  by (auto simp: crc_bit_def bit_simps dest: bit_imp_le_length)

lemma xor_right_cancel: "a XOR c = b XOR c \<longleftrightarrow> a = (b :: 'a::len word)"
proof
  assume "a XOR c = b XOR c"
  then have "(a XOR c) XOR c = (b XOR c) XOR c" by simp
  then show "a = b" by (simp add: xor.assoc)
qed simp

lemma xor_left_cancel: "c XOR a = c XOR b \<longleftrightarrow> a = (b :: 'a::len word)"
  using xor_right_cancel [of a c b] by (simp add: xor.commute)

lemma crc_bit_inject: "crc_bit s = crc_bit t \<longleftrightarrow> s = t"
proof
  assume eq: "crc_bit s = crc_bit t"
  then have low: "bit s 0 = bit t 0" using crc_bit_top by metis
  with eq have "drop_bit 1 s = drop_bit 1 t"
    by (auto simp: crc_bit_def xor_right_cancel split: if_splits)
  then have "bit s (Suc n) = bit t (Suc n)" for n
    by (metis bit_drop_bit_eq comp_apply plus_1_eq_Suc)
  with low show "s = t" by (intro bit_word_eqI) (metis not0_implies_Suc)
qed simp

lemma crc_bits_inject: "crc_bits n s = crc_bits n t \<longleftrightarrow> s = t"
  by (induction n arbitrary: s t) (auto simp: crc_bit_inject)

lemma crc_byte_inject: "crc_byte s b = crc_byte t b \<longleftrightarrow> s = t"
  by (simp add: crc_byte_def crc_bits_inject xor_right_cancel)

lemma ucast_u32_inject: "(ucast (b :: u8) :: u32) = ucast c \<longleftrightarrow> b = c"
proof
  assume eq: "(ucast b :: u32) = ucast c"
  have "unat (ucast w :: u32) = unat w" for w :: u8
    using unsigned_less [of w, where ?'a = nat]
    by (simp add: unsigned_ucast_eq take_bit_nat_eq_self)
  then have "unat b = unat c" using arg_cong [OF eq, of unat] by simp
  then show "b = c" by (simp add: word_eq_iff_unsigned [where ?'a = nat])
qed simp

lemma crc_byte_inject_byte: "crc_byte s b = crc_byte s c \<longleftrightarrow> b = c"
  by (simp add: crc_byte_def crc_bits_inject xor_left_cancel ucast_u32_inject)

lemma crc_foldl_inject: "foldl crc_byte s bs = foldl crc_byte t bs \<longleftrightarrow> s = t"
  by (induction bs arbitrary: s t) (auto simp: crc_byte_inject)

theorem castagnoli_detects: "detects_byte castagnoli"
proof -
  have "castagnoli (bs[i := b]) \<noteq> castagnoli bs" if "i < length bs" "b \<noteq> bs ! i" for bs i b
  proof -
    let ?s = "foldl crc_byte 0xFFFFFFFF (take i bs)"
    have "bs[i := b] = take i bs @ b # drop (Suc i) bs" "bs = take i bs @ bs ! i # drop (Suc i) bs"
      using that(1) by (simp_all add: upd_conv_take_nth_drop id_take_nth_drop)
    then have "foldl crc_byte 0xFFFFFFFF (bs[i := b]) = foldl crc_byte (crc_byte ?s b) (drop (Suc i) bs)"
      "foldl crc_byte 0xFFFFFFFF bs = foldl crc_byte (crc_byte ?s (bs ! i)) (drop (Suc i) bs)"
      by (metis foldl_append foldl_Cons)+
    with that(2) show ?thesis
      by (simp add: castagnoli_def xor_right_cancel crc_foldl_inject crc_byte_inject_byte)
  qed
  then show ?thesis by (simp add: detects_byte_def)
qed

section \<open>The tests of the checksum\<close>

text \<open>The literals the tests use: \<^verbatim>\<open>b"123456789"\<close> and the two sentences that differ in a
  letter.\<close>

definition ascii :: "string \<Rightarrow> bytes" where
  "ascii s = map (\<lambda>c. word_of_nat (of_char c)) s"

definition CHECK_123456789 :: u32 where
  "CHECK_123456789 = 0xE3069283"

definition ISO_HDLC_123456789 :: u32 where
  "ISO_HDLC_123456789 = 0xCBF43926"

definition empty_input_is_zero :: "(bytes \<Rightarrow> u32) \<Rightarrow> bool" where
  "empty_input_is_zero crc \<longleftrightarrow> crc32c crc (ascii []) = 0"

definition canonical_check_vector :: "(bytes \<Rightarrow> u32) \<Rightarrow> bool" where
  "canonical_check_vector crc \<longleftrightarrow> crc32c crc (ascii ''123456789'') = CHECK_123456789"

definition is_castagnoli_not_iso_hdlc :: "(bytes \<Rightarrow> u32) \<Rightarrow> bool" where
  "is_castagnoli_not_iso_hdlc crc \<longleftrightarrow> crc32c crc (ascii ''123456789'') \<noteq> ISO_HDLC_123456789"

definition known_answer_all_zeros :: "(bytes \<Rightarrow> u32) \<Rightarrow> bool" where
  "known_answer_all_zeros crc \<longleftrightarrow> crc32c crc (replicate 32 0) = 0x8A9136AA"

definition known_answer_all_ones :: "(bytes \<Rightarrow> u32) \<Rightarrow> bool" where
  "known_answer_all_ones crc \<longleftrightarrow> crc32c crc (replicate 32 0xFF) = 0x62A8AB43"

definition detects_single_bit_flip :: "(bytes \<Rightarrow> u32) \<Rightarrow> bool" where
  "detects_single_bit_flip crc \<longleftrightarrow>
     crc32c crc (ascii ''the quick brown fox'') \<noteq> crc32c crc (ascii ''the quick brown gox'')"

definition crc_tests :: "(bytes \<Rightarrow> u32) \<Rightarrow> bool" where
  "crc_tests crc \<longleftrightarrow> empty_input_is_zero crc \<and> canonical_check_vector crc
     \<and> is_castagnoli_not_iso_hdlc crc \<and> known_answer_all_zeros crc \<and> known_answer_all_ones crc
     \<and> detects_single_bit_flip crc"

lemma crc_bits_8: "crc_bits 8 s =
  crc_bit (crc_bit (crc_bit (crc_bit (crc_bit (crc_bit (crc_bit (crc_bit s)))))))"
  by (simp add: eval_nat_numeral)

lemmas crc_eval = castagnoli_def ascii_def crc_byte_def crc_bits_8 crc_bit_def

lemma castagnoli_check: "castagnoli (ascii ''123456789'') = 0xE3069283"
  by (simp add: crc_eval)

lemma replicate_32: "replicate 32 x = [x, x, x, x, x, x, x, x, x, x, x, x, x, x, x, x,
  x, x, x, x, x, x, x, x, x, x, x, x, x, x, x, x]"
  by (simp add: eval_nat_numeral)

lemma castagnoli_zeros: "castagnoli (replicate 32 0) = 0x8A9136AA"
  unfolding replicate_32 by (simp add: crc_eval)

lemma castagnoli_ones: "castagnoli (replicate 32 0xFF) = 0x62A8AB43"
  unfolding replicate_32 by (simp add: crc_eval)

lemma detects_byte_flip:
  assumes "detects_byte crc"
  shows "detects_single_bit_flip crc"
proof -
  let ?fox = "ascii ''the quick brown fox''"
  have "ascii ''the quick brown gox'' = ?fox[16 := 0x67]" "0x67 \<noteq> ?fox ! 16" "16 < length ?fox"
    by (simp_all add: ascii_def)
  with assms have "crc (ascii ''the quick brown gox'') \<noteq> crc ?fox"
    unfolding detects_byte_def by (metis (no_types))
  then show ?thesis by (simp add: detects_single_bit_flip_def)
qed

text \<open>The function that meets the known answers of \<^verbatim>\<open>src/crc.rs\<close>: CRC-32C passes every test
  of the checksum, and no change of one byte goes unnoticed, in inputs of any length.\<close>

theorem castagnoli_passes: "crc_tests castagnoli \<and> detects_byte castagnoli"
proof
  have "castagnoli [] = 0" by (simp add: castagnoli_def)
  then show "crc_tests castagnoli"
    using castagnoli_check castagnoli_zeros castagnoli_ones detects_byte_flip [OF castagnoli_detects]
    by (simp add: crc_tests_def empty_input_is_zero_def canonical_check_vector_def
        is_castagnoli_not_iso_hdlc_def known_answer_all_zeros_def known_answer_all_ones_def
        CHECK_123456789_def ISO_HDLC_123456789_def ascii_def)
qed (rule castagnoli_detects)

end
