(* ===== verification/Wal_Codec_Tests.thy ===== *)
theory Wal_Codec_Tests
  imports Wal_Checksum Wal_Handle "HOL-Library.Sublist"
begin

text \<open>
  The unit tests and property tests of the value types and of the two byte formats
  (\<^verbatim>\<open>src/lsn.rs\<close>, \<^verbatim>\<open>src/error.rs\<close>, \<^verbatim>\<open>src/config.rs\<close>, \<^verbatim>\<open>src/record.rs\<close>,
  \<^verbatim>\<open>src/segment.rs\<close>) as predicates: a test is true when none of its assertions fails.
  A property test is a predicate on its generated inputs, proved for all of them and not
  for a sample. Where a test flips bits and expects a checksum mismatch it holds for every
  checksum with \<open>detects_byte\<close>, so for CRC-32C.
\<close>

section \<open>LSNs, errors, configuration\<close>

definition none_and_first :: bool where
  "none_and_first \<longleftrightarrow> NONE = Lsn 0 \<and> FIRST = Lsn 1 \<and> is_none NONE \<and> \<not> is_none FIRST"

definition next_is_monotone_and_dense :: bool where
  "next_is_monotone_and_dense \<longleftrightarrow> lsn_next NONE = FIRST \<and> lsn_next (Lsn 41) = Lsn 42"

definition checked_next_detects_exhaustion :: bool where
  "checked_next_detects_exhaustion \<longleftrightarrow>
     checked_next (Lsn 1) = Some (Lsn 2) \<and> checked_next NONE = Some FIRST
     \<and> checked_next (Lsn (0xFFFFFFFFFFFFFFFF - 1)) = Some (Lsn 0xFFFFFFFFFFFFFFFF)
     \<and> checked_next (Lsn 0xFFFFFFFFFFFFFFFF) = None"

definition next_saturates_without_panicking :: bool where
  "next_saturates_without_panicking \<longleftrightarrow>
     lsn_next (Lsn 0xFFFFFFFFFFFFFFFF) = Lsn 0xFFFFFFFFFFFFFFFF"

definition ordering :: bool where
  "ordering \<longleftrightarrow> Lsn 1 < Lsn 2 \<and> NONE < FIRST"

definition display_is_the_underlying_integer :: bool where
  "display_is_the_underlying_integer \<longleftrightarrow>
     show_lsn (Lsn 0) = ''0'' \<and> show_lsn (Lsn 100001) = ''100001''"

definition default_satisfies_section_5_3_bound :: bool where
  "default_satisfies_section_5_3_bound \<longleftrightarrow>
     unat (cfg_max_record_size default_config) + 91 \<le> unat (cfg_segment_size default_config)"

definition io_error_source_is_preserved :: bool where
  "io_error_source_is_preserved \<longleftrightarrow> error_source (from_io_error OtherIo) \<noteq> None"

definition display_includes_location_context :: "(io_error \<Rightarrow> string) \<Rightarrow> bool" where
  "display_includes_location_context show_io \<longleftrightarrow>
     (let s = show_error show_io (Corruption (Lsn 100001) 84 ''crc mismatch'') in
        sublist ''100001'' s \<and> sublist ''84'' s \<and> sublist ''crc mismatch'' s)"

lemma lsn_tests_pass:
  "none_and_first" "next_is_monotone_and_dense" "checked_next_detects_exhaustion"
  "next_saturates_without_panicking" "ordering"
  by (simp_all add: none_and_first_def next_is_monotone_and_dense_def NONE_def FIRST_def is_none_def
      checked_next_detects_exhaustion_def next_saturates_without_panicking_def ordering_def
      lsn_next_def checked_next_def checked_add_def u64_max_def less_lsn_def)

lemma show_dec_100001: "show_dec 100001 = ''100001''"
  by (simp add: show_dec.simps digit_char_def char_of_def bit_0)

lemma display_passes: "display_is_the_underlying_integer"
  using show_dec_100001
  by (simp add: display_is_the_underlying_integer_def show_lsn_def show_dec.simps [of 0] digit_char_def char_of_def bit_0)

lemma default_passes: "default_satisfies_section_5_3_bound"
  by (simp add: default_satisfies_section_5_3_bound_def default_config_def)

lemma io_source_passes: "io_error_source_is_preserved"
  by (simp add: io_error_source_is_preserved_def error_source_def from_io_error_def)

lemma location_context_passes: "display_includes_location_context show_io"
proof -
  have "show_dec 84 = ''84''" by (simp add: show_dec.simps digit_char_def char_of_def bit_0)
  then have s: "show_error show_io (Corruption (Lsn 100001) 84 ''crc mismatch'')
      = ''corruption in segment '' @ ''100001'' @ '' at offset '' @ ''84'' @ '': '' @ ''crc mismatch''"
    by (simp add: show_lsn_def show_dec_100001)
  have "sublist b (a @ b @ c)" for a b c :: string by (auto simp: sublist_def)
  note at = this
  show ?thesis
    unfolding display_includes_location_context_def s Let_def
    using at [of "''100001''" "''corruption in segment ''"]
      at [of "''84''" "''corruption in segment '' @ ''100001'' @ '' at offset ''"]
      at [of "''crc mismatch''" "''corruption in segment '' @ ''100001'' @ '' at offset '' @ ''84'' @ '': ''" "[]"]
    by simp
qed

section \<open>The record codec\<close>

definition MAX_RECORD :: nat where
  "MAX_RECORD = 2 ^ 20"

definition assert_roundtrip :: "(bytes \<Rightarrow> u32) \<Rightarrow> lsn \<Rightarrow> bytes \<Rightarrow> bool" where
  "assert_roundtrip crc l payload \<longleftrightarrow>
     (case encode_into crc [] l payload of (buf, framed) \<Rightarrow>
        framed = framed_size (length payload) \<and> framed mod 8 = 0 \<and> length buf = framed
        \<and> (case decode crc buf MAX_RECORD of
             Record got_lsn got_payload framed_len \<Rightarrow>
               got_lsn = l \<and> got_payload = payload \<and> framed_len = framed
           | _ \<Rightarrow> False))"

definition roundtrip_alignment_edge_sizes :: "(bytes \<Rightarrow> u32) \<Rightarrow> bool" where
  "roundtrip_alignment_edge_sizes crc \<longleftrightarrow>
     list_all (\<lambda>len. assert_roundtrip crc (Lsn 1) (map word_of_nat [0..<len])) [0, 1, 7, 8, 9]"

definition roundtrip_spread_and_max :: "bool \<Rightarrow> (bytes \<Rightarrow> u32) \<Rightarrow> bool" where
  "roundtrip_spread_and_max miri crc \<longleftrightarrow>
     list_all (\<lambda>len. assert_roundtrip crc (Lsn 42) (map (\<lambda>i. word_of_nat (i * 31 + 7)) [0..<len]))
       (if miri then [16, 100, 1000] else [16, 100, 1000, MAX_RECORD])"

definition padding_formula_and_zero_bytes :: "(bytes \<Rightarrow> u32) \<Rightarrow> bool" where
  "padding_formula_and_zero_bytes crc \<longleftrightarrow>
     list_all (\<lambda>len.
       let expected_pad = (8 - ((RECORD_HEADER_SIZE + len) mod 8)) mod 8 in
         padding_for len = expected_pad
         \<and> framed_size len = RECORD_HEADER_SIZE + len + expected_pad
         \<and> (case encode_into crc [] (Lsn 1) (replicate len 0xAB) of (buf, framed) \<Rightarrow>
              list_all (\<lambda>b. b = 0) (window (PAYLOAD_OFF + len) framed buf)))
       [0..<65]"

text \<open>\<^verbatim>\<open>buf[i] ^= m\<close>.\<close>

definition flip_at :: "nat \<Rightarrow> u8 \<Rightarrow> bytes \<Rightarrow> bytes" where
  "flip_at i m buf = buf[i := buf ! i XOR m]"

definition padding_is_inside_crc_coverage :: "(bytes \<Rightarrow> u32) \<Rightarrow> bool" where
  "padding_is_inside_crc_coverage crc \<longleftrightarrow>
     (case encode_into crc [] (Lsn 1) [0x55] of (buf, framed) \<Rightarrow>
        let pad = padding_for 1; pad_idx = PAYLOAD_OFF + 1 in
          0 < pad \<and> pad_idx < framed
          \<and> decode crc (flip_at pad_idx 0xFF buf) MAX_RECORD = Invalid BadCrc)"

definition payload_and_crc_field_corruption_detected :: "(bytes \<Rightarrow> u32) \<Rightarrow> bool" where
  "payload_and_crc_field_corruption_detected crc \<longleftrightarrow>
     (let buf = fst (encode_into crc [] (Lsn 7) [1, 2, 3, 4, 5]) in
        decode crc (flip_at PAYLOAD_OFF 1 buf) MAX_RECORD = Invalid BadCrc
        \<and> decode crc (flip_at 0 1 buf) MAX_RECORD = Invalid BadCrc)"

definition length_over_max_rejected_without_oob :: "(bytes \<Rightarrow> u32) \<Rightarrow> bool" where
  "length_over_max_rejected_without_oob crc \<longleftrightarrow>
     (let buf = zeros RECORD_HEADER_SIZE;
          buf = buf[REC_TYPE_OFF := REC_TYPE_FULL];
          buf = patch_at LEN_OFF (u32_to_le_bytes 0xFFFFFFFF) buf
      in decode crc buf 64 = Invalid LengthTooLarge)"

definition framed_overrun_is_incomplete_without_oob :: "(bytes \<Rightarrow> u32) \<Rightarrow> bool" where
  "framed_overrun_is_incomplete_without_oob crc \<longleftrightarrow>
     (let buf = zeros RECORD_HEADER_SIZE;
          buf = buf[REC_TYPE_OFF := REC_TYPE_FULL];
          buf = patch_at LEN_OFF (u32_to_le_bytes 100) buf
      in decode crc buf MAX_RECORD = Incomplete)"

definition short_buffer_is_incomplete :: "(bytes \<Rightarrow> u32) \<Rightarrow> bool" where
  "short_buffer_is_incomplete crc \<longleftrightarrow>
     list_all (\<lambda>n. decode crc (replicate n 0xFF) MAX_RECORD = Incomplete) [0..<RECORD_HEADER_SIZE]"

definition sentinel_header_detected :: "(bytes \<Rightarrow> u32) \<Rightarrow> bool" where
  "sentinel_header_detected crc \<longleftrightarrow>
     (let buf = fst (encode_into crc [] (Lsn 1) [0xAB, 0xCD]);
          buf = buf[REC_TYPE_OFF := REC_TYPE_SENTINEL];
          garbage = replicate RECORD_HEADER_SIZE 0xFF;
          garbage = garbage[REC_TYPE_OFF := REC_TYPE_SENTINEL]
      in decode crc buf MAX_RECORD = Invalid BadCrc
         \<and> (case decode crc garbage MAX_RECORD of Invalid e \<Rightarrow> True | _ \<Rightarrow> False)
         \<and> decode crc (zeros RECORD_HEADER_SIZE) MAX_RECORD = Sentinel)"

definition unknown_rec_type_with_valid_crc_is_invalid :: "(bytes \<Rightarrow> u32) \<Rightarrow> bool" where
  "unknown_rec_type_with_valid_crc_is_invalid crc \<longleftrightarrow>
     (case encode_into crc [] (Lsn 3) [9, 8, 7] of (buf, framed) \<Rightarrow>
        let buf = buf[REC_TYPE_OFF := 2];
            c = crc32c crc (window LEN_OFF framed buf);
            buf = patch_at 0 (u32_to_le_bytes c) buf
        in decode crc buf MAX_RECORD = Invalid UnknownRecType)"

definition lsn_roundtrips_small_and_large :: "(bytes \<Rightarrow> u32) \<Rightarrow> bool" where
  "lsn_roundtrips_small_and_large crc \<longleftrightarrow>
     assert_roundtrip crc (Lsn 1) (ascii ''first'')
     \<and> assert_roundtrip crc (Lsn 0xFFFFFFFFFFFFFFFF) (ascii ''last'')"

definition padding_for_u64_matches_usize_helper :: bool where
  "padding_for_u64_matches_usize_helper \<longleftrightarrow>
     list_all (\<lambda>len. padding_for_u64 (word_of_nat len) = word_of_nat (padding_for len)) [0..<65]
     \<and> list_all (\<lambda>len. padding_for_u64 len = (8 - ((20 + len mod 8) mod 8)) mod 8)
          [0xFFFFFFFF, 0xFFFFFFFF + 1, 0xFFFFFFFFFFFFFFFF]"

definition framed_size_u64_matches_and_does_not_wrap :: bool where
  "framed_size_u64_matches_and_does_not_wrap \<longleftrightarrow>
     list_all (\<lambda>len. framed_size_u64 (word_of_nat len) = word_of_nat (framed_size len))
       [0, 1, 7, 8, 9, 20, 4096]
     \<and> (let big = 0xFFFFFFFF :: u64; f = framed_size_u64 big in 20 + big \<le> f \<and> f mod 8 = 0)"

definition prop_roundtrip :: "(bytes \<Rightarrow> u32) \<Rightarrow> u64 \<Rightarrow> bytes \<Rightarrow> bool" where
  "prop_roundtrip crc l payload \<longleftrightarrow>
     (case encode_into crc [] (Lsn l) payload of (buf, framed) \<Rightarrow>
        framed = framed_size (length payload) \<and> framed mod 8 = 0
        \<and> (case decode crc buf MAX_RECORD of
             Record got got_p framed_len \<Rightarrow> got = Lsn l \<and> got_p = payload \<and> framed_len = framed
           | _ \<Rightarrow> False))"

definition prop_single_bit_flip_is_detected :: "(bytes \<Rightarrow> u32) \<Rightarrow> bytes \<Rightarrow> u8 \<Rightarrow> bool" where
  "prop_single_bit_flip_is_detected crc payload b \<longleftrightarrow>
     (case encode_into crc [] (Lsn 1) payload of (buf, framed) \<Rightarrow>
        let idx = unat b mod framed;
            bitpos = unat (b mod 8);
            buf = flip_at idx (push_bit bitpos 1) buf;
            resurfaced = (case decode crc buf MAX_RECORD of
                            Record l p n \<Rightarrow> l = Lsn 1 \<and> p = payload | _ \<Rightarrow> False)
        in \<not> resurfaced)"

definition prop_decode_arbitrary_is_bounded :: "(bytes \<Rightarrow> u32) \<Rightarrow> bytes \<Rightarrow> u32 \<Rightarrow> bool" where
  "prop_decode_arbitrary_is_bounded crc bs mx \<longleftrightarrow>
     (case decode crc bs (unat mx) of
        Record l payload framed_len \<Rightarrow> length payload \<le> unat mx \<and> framed_len \<le> length bs
      | _ \<Rightarrow> True)"

section \<open>The record tests pass\<close>

lemma MAX_RECORD_u32: "MAX_RECORD \<le> u32_max"
  by (simp add: MAX_RECORD_def u32_max_def)

lemma assert_roundtrip_all: "length p \<le> MAX_RECORD \<Longrightarrow> assert_roundtrip crc l p"
  using MAX_RECORD_u32
  by (simp add: assert_roundtrip_def encode_into_eq framed_size_mod8 decode_frame_exact)

lemma xor_neq: "m \<noteq> 0 \<Longrightarrow> x XOR m \<noteq> (x :: 'a::len word)"
  using xor_left_cancel [of x m 0] by simp

lemma decode_flip:
  assumes "detects_byte crc" "length p \<le> MAX_RECORD" "lsn_val l \<noteq> 0"
    "i < framed_size (length p)" "i < 4 \<or> 8 \<le> i" "m \<noteq> 0"
  shows "decode crc (flip_at i m (frame crc l p)) MAX_RECORD = Invalid BadCrc"
  using decode_changed_byte [OF assms(1,2) _ assms(3-5), of "frame crc l p ! i XOR m" "[]"] assms(2,6)
    MAX_RECORD_u32 xor_neq [OF assms(6)] by (simp add: flip_at_def)

lemma flip_length_field:
  assumes "4 \<le> i" "i < 8" "m \<noteq> 0" "length p \<le> MAX_RECORD"
  shows "decode crc (flip_at i m (frame crc l p)) mx \<noteq> Record l p n"
proof
  let ?F = "frame crc l p"
  let ?g = "flip_at i m ?F"
  let ?w = "u32_to_le_bytes (word_of_nat (length p) :: u32)"
  assume r: "decode crc ?g mx = Record l p n"
  have 24: "24 \<le> length ?F" by (simp add: framed_size_ge24)
  have field: "window 4 8 ?F = ?w" using frame_len_field [of crc l p "[]"] by simp
  have "?F ! i = ?w ! (i - 4)"
    using 24 assms(1,2) arg_cong [OF field, of "\<lambda>xs. xs ! (i - 4)"] by (simp add: window_def)
  then have w: "window 4 8 ?g = ?w[i - 4 := ?w ! (i - 4) XOR m]"
    using assms(1,2) field by (simp add: flip_at_def window_update_in)
  have len: "unat (u32_from_le_bytes (window 4 8 ?g)) = length p"
  proof -
    let ?k = "unat (u32_from_le_bytes (window 4 8 ?g))"
    from r have k: "framed_size ?k \<le> length ?g" "p = window 20 (20 + ?k) ?g"
      by (simp_all add: decode_Record_iff Let_def)
    from k(1) have "?k \<le> length ?g - 20" using framed_size_bounds(1) [of ?k] by simp
    with arg_cong [OF k(2), of length] show ?thesis by simp
  qed
  have "u32_from_le_bytes ?w = word_of_nat (length p)" by simp
  with len have "u32_from_le_bytes (window 4 8 ?g) = u32_from_le_bytes ?w"
    using assms(4) MAX_RECORD_u32
    by (simp add: word_eq_iff_unsigned [where ?'a = nat] unat_len_field)
  then have "window 4 8 ?g = ?w" by (intro u32_le_bytes_inject) (simp_all add: w)
  then have "?w[i - 4 := ?w ! (i - 4) XOR m] ! (i - 4) = ?w ! (i - 4)" by (simp add: w)
  then have "?w ! (i - 4) XOR m = ?w ! (i - 4)" using assms(1,2) by simp
  with xor_neq [OF assms(3)] show False by metis
qed

lemma roundtrip_tests_pass:
  "roundtrip_alignment_edge_sizes crc" "roundtrip_spread_and_max miri crc"
  "lsn_roundtrips_small_and_large crc"
  by (auto simp: roundtrip_alignment_edge_sizes_def roundtrip_spread_and_max_def
      lsn_roundtrips_small_and_large_def ascii_def MAX_RECORD_def intro!: assert_roundtrip_all)

lemma frame_padding:
  "window (20 + length p) (framed_size (length p)) (frame crc l p) = zeros (padding_for (length p))"
proof -
  have "frame crc l p = (u32_to_le_bytes (crc (rec_body l p)) @ u32_to_le_bytes (word_of_nat (length p))
      @ u64_to_le_bytes (lsn_val l) @ [1, 0, 0, 0] @ p) @ zeros (padding_for (length p)) @ []"
    by (simp add: frame_def rec_body_def)
  then show ?thesis
    by (simp only:) (rule window_append_mid, simp_all add: framed_size_def)
qed

lemma padding_formula_passes: "padding_formula_and_zero_bytes crc"
proof -
  have "list_all (\<lambda>b. b = 0) (window (20 + n) (framed_size n) (frame crc (Lsn 1) (replicate n 0xAB)))" for n
    using frame_padding [of "replicate n 0xAB" crc "Lsn 1"] by (simp add: list_all_iff)
  then show ?thesis
    by (simp add: padding_formula_and_zero_bytes_def encode_into_eq Let_def padding_for_def
        framed_size_def list_all_iff [of _ "[0..<65]"])
qed

lemma flip_tests_pass:
  assumes "detects_byte crc"
  shows "padding_is_inside_crc_coverage crc" "payload_and_crc_field_corruption_detected crc"
proof -
  have "padding_for 1 = 3" "framed_size 1 = 24"
    "framed_size (Suc (Suc (Suc (Suc (Suc 0))))) = 32"
    by (simp_all add: padding_for_def framed_size_def)
  then show "padding_is_inside_crc_coverage crc" "payload_and_crc_field_corruption_detected crc"
    using decode_flip [OF assms, where p = "[0x55]" and l = "Lsn 1" and i = 21 and m = 255]
      decode_flip [OF assms, where p = "[1, 2, 3, 4, 5]" and l = "Lsn 7" and i = 20 and m = 1]
      decode_flip [OF assms, where p = "[1, 2, 3, 4, 5]" and l = "Lsn 7" and i = 0 and m = 1]
    by (simp_all add: padding_is_inside_crc_coverage_def payload_and_crc_field_corruption_detected_def
        encode_into_eq Let_def MAX_RECORD_def)
qed

lemma header_only:
  assumes "length buf = 20" "\<not> all_zero buf"
  shows "decode crc buf mx =
    (if mx < unat (u32_from_le_bytes (window 4 8 buf)) then Invalid LengthTooLarge else Incomplete)"
  using assms framed_size_ge24 [of "unat (u32_from_le_bytes (window 4 8 buf))"]
  by (simp add: decode_eq Let_def)

definition claimed_header :: "u32 \<Rightarrow> bytes" where
  "claimed_header len = patch_at 4 (u32_to_le_bytes len) ((zeros 20)[16 := 1])"

lemma claimed_header_decodes:
  "decode crc (claimed_header len) mx = (if mx < unat len then Invalid LengthTooLarge else Incomplete)"
proof -
  have z: "(zeros 20 :: bytes)[16 := 1] = zeros 4 @ zeros 4 @ zeros 8 @ [1, 0, 0, 0]"
    by (simp add: eval_nat_numeral)
  have c: "claimed_header len = zeros 4 @ u32_to_le_bytes len @ zeros 8 @ [1, 0, 0, 0]"
    unfolding claimed_header_def z by (simp add: patch_at_def)
  have "window 4 8 (claimed_header len) = u32_to_le_bytes len"
    unfolding c by (rule window_append_mid) simp_all
  then show ?thesis by (subst header_only) (simp_all add: c)
qed

lemma header_only_tests_pass:
  "length_over_max_rejected_without_oob crc" "framed_overrun_is_incomplete_without_oob crc"
  "short_buffer_is_incomplete crc"
  using claimed_header_decodes [of crc "0xFFFFFFFF" 64, unfolded claimed_header_def]
    claimed_header_decodes [of crc 100 MAX_RECORD, unfolded claimed_header_def]
  by (simp_all add: length_over_max_rejected_without_oob_def framed_overrun_is_incomplete_without_oob_def
      short_buffer_is_incomplete_def list_all_iff decode_eq MAX_RECORD_def)

lemma sentinel_passes:
  assumes "detects_byte crc"
  shows "sentinel_header_detected crc"
proof -
  let ?F = "frame crc (Lsn 1) [0xAB, 0xCD]"
  let ?G = "(replicate 20 0xFF :: bytes)[16 := 0]"
  have t: "?F ! 16 = 1" using frame_type_field [of crc "Lsn 1" "[0xAB, 0xCD]" "[]"] by simp
  then have "?F[16 := 0] = flip_at 16 1 ?F" by (simp add: flip_at_def)
  then have 1: "decode crc (?F[16 := 0]) MAX_RECORD = Invalid BadCrc"
    using decode_flip [OF assms, where p = "[0xAB, 0xCD]" and l = "Lsn 1" and i = 16 and m = 1]
    by (simp add: MAX_RECORD_def framed_size_def padding_for_def)
  have g: "?G = replicate 16 0xFF @ [0, 0xFF, 0xFF, 0xFF]" by (simp add: eval_nat_numeral)
  have "\<not> all_zero ?G" unfolding g by (simp add: all_zero_def)
  then have 2: "\<exists>e. decode crc ?G MAX_RECORD = Invalid e"
  proof (subst header_only)
    have "window 4 8 ?G = [0xFF, 0xFF, 0xFF, 0xFF]"
      unfolding g by (simp add: window_def eval_nat_numeral)
    then show "\<exists>e. (if MAX_RECORD < unat (u32_from_le_bytes (window 4 8 ?G))
        then Invalid LengthTooLarge else Incomplete) = Invalid e"
      by (simp add: MAX_RECORD_def u32_from_le_bytes_def)
  qed simp_all
  have 3: "decode crc (zeros 20) MAX_RECORD = Sentinel" by (simp add: decode_Sentinel_iff)
  show ?thesis
    using 1 2 3 by (auto simp: sentinel_header_detected_def encode_into_eq)
qed

text \<open>A record with another type byte and the checksum recomputed.\<close>

definition retyped :: "(bytes \<Rightarrow> u32) \<Rightarrow> lsn \<Rightarrow> bytes \<Rightarrow> u8 \<Rightarrow> bytes" where
  "retyped crc l p t =
     (let buf = (frame crc l p)[16 := t]
      in patch_at 0 (u32_to_le_bytes (crc (window 4 (framed_size (length p)) buf))) buf)"

lemma retyped_eq: "retyped crc l p t = u32_to_le_bytes (crc ((rec_body l p)[12 := t])) @ (rec_body l p)[12 := t]"
proof -
  have "window 4 (framed_size (length p)) ((frame crc l p)[16 := t]) = (rec_body l p)[12 := t]"
    using frame_covered [of p crc l "[]"] framed_size_ge24 [of "length p"] by (simp add: window_update_in)
  moreover have "drop 4 ((frame crc l p)[16 := t]) = (rec_body l p)[12 := t]"
    by (simp add: drop_update_swap frame_def)
  ultimately show ?thesis by (simp add: retyped_def Let_def patch_at_def)
qed

lemma length_retyped [simp]: "length (retyped crc l p t) = framed_size (length p)"
  using framed_size_ge24 [of "length p"] by (simp add: retyped_eq length_rec_body)

lemma retyped_nth: "20 \<le> i \<Longrightarrow> i < framed_size (length p) \<Longrightarrow> retyped crc l p t ! i = frame crc l p ! i"
  by (simp add: retyped_eq frame_def nth_append)

lemma decode_retyped:
  assumes "length p \<le> mx" "length p \<le> u32_max" "t \<noteq> 0" "t \<noteq> 1"
  shows "decode crc (retyped crc l p t @ r) mx = Invalid UnknownRecType"
proof -
  let ?B = "(rec_body l p)[12 := t]" and ?g = "retyped crc l p t @ r"
  have g: "?g = u32_to_le_bytes (crc ?B) @ ?B @ r" by (simp add: retyped_eq)
  have lB: "length ?B = framed_size (length p) - 4" by (simp add: length_rec_body)
  have 24: "24 \<le> framed_size (length p)" by (rule framed_size_ge24)
  have "window 4 8 ?g = window 0 4 ?B"
    unfolding g using lB 24 by (simp add: window_def)
  also have "\<dots> = u32_to_le_bytes (word_of_nat (length p))"
    by (simp add: window_update_out) (simp add: rec_body_def window_def)
  finally have len: "unat (u32_from_le_bytes (window 4 8 ?g)) = length p"
    using assms(2) by (simp add: unat_len_field)
  have cov: "window 4 (framed_size (length p)) ?g = ?B"
    unfolding g using lB 24 window_append_mid [of 4 "u32_to_le_bytes (crc ?B)" _ ?B r] by simp
  have st: "window 0 4 ?g = u32_to_le_bytes (crc ?B)" unfolding g by (simp add: window_def)
  have ty: "?g ! 16 = t" unfolding g using lB 24 by (auto simp: nth_append length_rec_body)
  moreover have "take 20 ?g ! 16 = ?g ! 16" by (rule nth_take) simp
  moreover have "16 < length (take 20 ?g)" using 24 by simp
  ultimately have nz: "\<not> all_zero (take 20 ?g)" using all_zero_nth [of "take 20 ?g" 16] assms(3) by auto
  have "\<not> length ?g < 20" "\<not> length ?g < framed_size (length p)" using 24 by simp_all
  then show ?thesis
    unfolding decode_eq len st ty Let_def using nz assms(1,4) by (simp add: cov)
qed

lemma unknown_type_passes: "unknown_rec_type_with_valid_crc_is_invalid crc"
proof -
  have "decode crc (retyped crc (Lsn 3) [9, 8, 7] 2) MAX_RECORD = Invalid UnknownRecType"
    using decode_retyped [of "[9, 8, 7]" MAX_RECORD 2 crc "Lsn 3" "[]"] by (simp add: MAX_RECORD_def u32_max_def)
  then show ?thesis
    by (simp add: unknown_rec_type_with_valid_crc_is_invalid_def encode_into_eq retyped_def Let_def)
qed

lemma padding_u64_passes: "padding_for_u64_matches_usize_helper"
proof -
  have "padding_for_u64 (word_of_nat n) = word_of_nat (padding_for n)" if "n < 65" for n
    using that padding_for_u64_nat [of "word_of_nat n"] padding_for_le [of n]
    by (simp add: word_eq_iff_unsigned [where ?'a = nat] unat_of_nat)
  then show ?thesis
    by (simp add: padding_for_u64_matches_usize_helper_def list_all_iff padding_for_u64_def)
qed

lemma framed_u64_passes: "framed_size_u64_matches_and_does_not_wrap"
proof -
  have m: "framed_size_u64 (word_of_nat n) = word_of_nat (framed_size n)" if "n \<le> 4096" for n
    using that framed_size_u64_nat [of "word_of_nat n"] framed_size_bounds(2) [of n]
    by (simp add: word_eq_iff_unsigned [where ?'a = nat] unat_of_nat u64_max_def)
  have "list_all (\<lambda>n. framed_size_u64 (word_of_nat n) = word_of_nat (framed_size n))
      [0, 1, 7, 8, 9, 20, 4096]"
    unfolding list_all_iff by (intro ballI m) auto
  moreover have "unat (framed_size_u64 0xFFFFFFFF) = framed_size 0xFFFFFFFF"
    using framed_size_u64_nat [of "0xFFFFFFFF"] by (simp add: u64_max_def)
  moreover have "framed_size 0xFFFFFFFF = 4294967320" by (simp add: framed_size_def padding_for_def)
  ultimately show ?thesis
    unfolding framed_size_u64_matches_and_does_not_wrap_def Let_def
    by (intro conjI) (simp_all only: word_le_nat_alt word_eq_iff_unsigned [where ?'a = nat]
        unat_mod_distrib, simp_all)
qed

lemma prop_roundtrip_passes: "length p \<le> MAX_RECORD \<Longrightarrow> prop_roundtrip crc l p"
  using MAX_RECORD_u32
  by (simp add: prop_roundtrip_def encode_into_eq framed_size_mod8 decode_frame_exact)

lemma prop_flip_passes:
  assumes "detects_byte crc" "length p \<le> MAX_RECORD"
  shows "prop_single_bit_flip_is_detected crc p b"
proof -
  let ?fs = "framed_size (length p)"
  let ?i = "unat b mod ?fs" and ?k = "unat (b mod 8)"
  have fs: "0 < ?fs" using framed_size_ge24 [of "length p"] by linarith
  have "?k < 8" by (simp add: unat_mod_distrib)
  then have m: "(push_bit ?k 1 :: u8) \<noteq> 0" by simp
  show ?thesis
  proof (cases "?i < 4 \<or> 8 \<le> ?i")
    case True
    have "decode crc (flip_at ?i (push_bit ?k 1) (frame crc (Lsn 1) p)) MAX_RECORD = Invalid BadCrc"
      by (rule decode_flip [OF assms _ _ True m]) (use fs in simp_all)
    then show ?thesis by (simp add: prop_single_bit_flip_is_detected_def encode_into_eq Let_def)
  next
    case False
    then have "decode crc (flip_at ?i (push_bit ?k 1) (frame crc (Lsn 1) p)) MAX_RECORD \<noteq> Record (Lsn 1) p n" for n
      by (intro flip_length_field [OF _ _ m assms(2)]) simp_all
    then show ?thesis
      by (auto simp: prop_single_bit_flip_is_detected_def encode_into_eq Let_def split: decoded.splits)
  qed
qed

lemma prop_bounded_passes: "prop_decode_arbitrary_is_bounded crc bs mx"
  using decode_Record_bounds [of crc bs "unat mx"]
  by (auto simp: prop_decode_arbitrary_is_bounded_def split: decoded.splits)

section \<open>Segment headers and file names\<close>

definition header_round_trips :: "(bytes \<Rightarrow> u32) \<Rightarrow> bool" where
  "header_round_trips crc \<longleftrightarrow>
     (case decode_header crc (encode_header crc (Lsn 100001) 1234) of
        Inl e \<Rightarrow> False
      | Inr decoded \<Rightarrow> base_lsn decoded = Lsn 100001)"

definition corrupted_magic_rejected :: "(bytes \<Rightarrow> u32) \<Rightarrow> bool" where
  "corrupted_magic_rejected crc \<longleftrightarrow>
     decode_header crc (flip_at 0 0xFF (encode_header crc (Lsn 1) 0)) = Inl BadSegmentHeader"

definition corrupted_crc_rejected :: "(bytes \<Rightarrow> u32) \<Rightarrow> bool" where
  "corrupted_crc_rejected crc \<longleftrightarrow>
     decode_header crc (flip_at BASE_LSN_OFF 1 (encode_header crc (Lsn 7) 0)) = Inl BadSegmentHeader"

definition base_lsn_zero_rejected :: "(bytes \<Rightarrow> u32) \<Rightarrow> bool" where
  "base_lsn_zero_rejected crc \<longleftrightarrow>
     decode_header crc (encode_header crc (Lsn 0) 0) = Inl BadSegmentHeader"

definition wrong_version_rejected :: "(bytes \<Rightarrow> u32) \<Rightarrow> bool" where
  "wrong_version_rejected crc \<longleftrightarrow>
     (let h = encode_header crc (Lsn 1) 0;
          h = h[VERSION_OFF := 2];
          c = crc32c crc (window 0 HEADER_CRC_OFF h);
          h = patch_at HEADER_CRC_OFF (u32_to_le_bytes c) h
      in decode_header crc h = Inl BadSegmentHeader)"

definition short_header_rejected :: "(bytes \<Rightarrow> u32) \<Rightarrow> bool" where
  "short_header_rejected crc \<longleftrightarrow> decode_header crc (zeros 10) = Inl BadSegmentHeader"

definition filename_round_trips_including_edges :: bool where
  "filename_round_trips_including_edges \<longleftrightarrow>
     list_all (\<lambda>base. let name = filename_for (Lsn base) in
        length name = 24 \<and> parse_base_lsn name = Some base)
       [1, 42, 100001, 0xFFFFFFFFFFFFFFFF]"

definition parse_rejects_non_segment_names :: bool where
  "parse_rejects_non_segment_names \<longleftrightarrow>
     parse_base_lsn ''LOCK'' = None
     \<and> parse_base_lsn ''0000000000000000001.wal'' = None
     \<and> parse_base_lsn ''000000000000000000001.wal'' = None
     \<and> parse_base_lsn ''0000000000000000000a.wal'' = None
     \<and> parse_base_lsn ''00000000000000000001.dat'' = None"

lemma filename_tests_pass: "filename_round_trips_including_edges" "parse_rejects_non_segment_names"
proof -
  have "length (filename_for l) = 24" for l by (simp add: filename_for_def length_pad20)
  then show "filename_round_trips_including_edges"
    by (simp add: filename_round_trips_including_edges_def parse_filename_for Let_def)
  show "parse_rejects_non_segment_names"
    by (simp add: parse_rejects_non_segment_names_def parse_base_lsn_def strip_suffix_def
        is_ascii_digit_def)
qed

lemma header_tests_pass:
  "header_round_trips crc" "base_lsn_zero_rejected crc" "short_header_rejected crc"
proof -
  show "header_round_trips crc"
    by (simp add: header_round_trips_def decode_encode_header is_none_def)
  show "base_lsn_zero_rejected crc"
  proof (cases "decode_header crc (encode_header crc (Lsn 0) 0)")
    case (Inl e)
    then show ?thesis
      by (auto simp: base_lsn_zero_rejected_def decode_header_def Let_def split: if_splits)
  next
    case (Inr h)
    have "window 12 20 (encode_header crc (Lsn 0) 0) = u64_to_le_bytes 0"
      by (simp add: encode_header_eq header_body_def window_def)
    with Inr have "base_lsn h = Lsn 0"
      by (auto simp: decode_header_def Let_def split: if_splits)
    with decode_header_base [OF Inr] show ?thesis by (simp add: is_none_def)
  qed
  show "short_header_rejected crc" by (simp add: short_header_rejected_def decode_header_def)
qed

lemma header_flip_rejected:
  assumes "detects_byte crc" "i < 60" "m \<noteq> 0"
  shows "decode_header crc (flip_at i m (encode_header crc l c)) = Inl BadSegmentHeader"
proof -
  let ?B = "header_body l c"
  have h: "flip_at i m (encode_header crc l c) = ?B[i := ?B ! i XOR m] @ u32_to_le_bytes (crc ?B)"
    using assms(2) by (simp add: flip_at_def encode_header_eq list_update_append nth_append)
  have "crc (?B[i := ?B ! i XOR m]) \<noteq> crc ?B"
    using assms xor_neq [OF assms(3)] by (simp add: detects_byte_def)
  then show ?thesis
    unfolding h by (simp add: decode_header_def Let_def window_def)
qed

lemma wrong_version_passes: "wrong_version_rejected crc"
proof -
  let ?h = "(encode_header crc (Lsn 1) 0)[8 := 2]"
  let ?g = "patch_at 60 (u32_to_le_bytes (crc (window 0 60 ?h))) ?h"
  have g: "?g = take 60 ?h @ u32_to_le_bytes (crc (take 60 ?h))"
    by (simp add: patch_at_def window_def)
  have "window 8 10 ?g = window 8 10 ?h" unfolding g by (simp add: window_def drop_take)
  also have "\<dots> = (window 8 10 (encode_header crc (Lsn 1) 0))[0 := 2]" by (simp add: window_update_in)
  also have "window 8 10 (encode_header crc (Lsn 1) 0) = u16_to_le_bytes 1"
    by (simp add: encode_header_eq header_body_def window_def)
  also have "u16_to_le_bytes 1 = [1, 0]" by (simp add: u16_to_le_bytes_def numeral_2_eq_2)
  also have "u16_from_le_bytes ([1, 0][0 := 2]) = 2" by (simp add: u16_from_le_bytes_def)
  finally have "u16_from_le_bytes (window 8 10 ?g) = 2" .
  then show ?thesis
    by (simp add: wrong_version_rejected_def decode_header_def Let_def)
qed

section \<open>All of them\<close>

definition value_tests :: "(io_error \<Rightarrow> string) \<Rightarrow> bool" where
  "value_tests show_io \<longleftrightarrow> none_and_first \<and> next_is_monotone_and_dense
     \<and> checked_next_detects_exhaustion \<and> next_saturates_without_panicking \<and> ordering
     \<and> display_is_the_underlying_integer \<and> default_satisfies_section_5_3_bound
     \<and> io_error_source_is_preserved \<and> display_includes_location_context show_io"

definition record_tests :: "bool \<Rightarrow> (bytes \<Rightarrow> u32) \<Rightarrow> bool" where
  "record_tests miri crc \<longleftrightarrow> roundtrip_alignment_edge_sizes crc \<and> roundtrip_spread_and_max miri crc
     \<and> padding_formula_and_zero_bytes crc \<and> padding_is_inside_crc_coverage crc
     \<and> payload_and_crc_field_corruption_detected crc \<and> length_over_max_rejected_without_oob crc
     \<and> framed_overrun_is_incomplete_without_oob crc \<and> short_buffer_is_incomplete crc
     \<and> sentinel_header_detected crc \<and> unknown_rec_type_with_valid_crc_is_invalid crc
     \<and> lsn_roundtrips_small_and_large crc \<and> padding_for_u64_matches_usize_helper
     \<and> framed_size_u64_matches_and_does_not_wrap"

definition segment_tests :: "(bytes \<Rightarrow> u32) \<Rightarrow> bool" where
  "segment_tests crc \<longleftrightarrow> header_round_trips crc \<and> corrupted_magic_rejected crc
     \<and> corrupted_crc_rejected crc \<and> base_lsn_zero_rejected crc \<and> wrong_version_rejected crc
     \<and> short_header_rejected crc \<and> filename_round_trips_including_edges
     \<and> parse_rejects_non_segment_names"

lemma record_tests_pass: "detects_byte crc \<Longrightarrow> record_tests miri crc"
  by (simp add: record_tests_def roundtrip_tests_pass padding_formula_passes flip_tests_pass
      header_only_tests_pass sentinel_passes unknown_type_passes padding_u64_passes framed_u64_passes)

lemma segment_tests_pass: "detects_byte crc \<Longrightarrow> segment_tests crc"
  by (simp add: segment_tests_def header_tests_pass filename_tests_pass wrong_version_passes
      corrupted_magic_rejected_def corrupted_crc_rejected_def header_flip_rejected)

text \<open>C38. With CRC-32C every unit test of the value types, the record codec and the segment
  header passes, and so do the three property tests of the codec on every input of their
  range: a record round-trips, no single flipped bit lets it resurface, and decoding
  arbitrary bytes stays within the buffer and the size bound.\<close>

theorem codec_tests_pass:
  "value_tests show_io \<and> record_tests miri castagnoli \<and> segment_tests castagnoli
   \<and> (length payload < 4096 \<longrightarrow> prop_roundtrip castagnoli l payload)
   \<and> (length payload < 256 \<longrightarrow> prop_single_bit_flip_is_detected castagnoli payload b)
   \<and> prop_decode_arbitrary_is_bounded castagnoli bs mx"
  using lsn_tests_pass display_passes default_passes io_source_passes location_context_passes
    record_tests_pass [OF castagnoli_detects] segment_tests_pass [OF castagnoli_detects]
    prop_bounded_passes
  by (auto simp: value_tests_def MAX_RECORD_def intro!: prop_roundtrip_passes
      prop_flip_passes [OF castagnoli_detects])

theorem codec_tests_pass_witness:
  "prop_roundtrip castagnoli 7 [1, 2, 3] \<and> prop_single_bit_flip_is_detected castagnoli [1, 2, 3] 200"
  using codec_tests_pass [of "\<lambda>e. []" False "[1, 2, 3]" 7 200 "[]" 0] by simp

end
