(* ===== verification/Wal_Recovery_Tests.thy ===== *)
theory Wal_Recovery_Tests
  imports Wal_Codec_Tests
begin

text \<open>
  The unit tests of \<^verbatim>\<open>src/recovery.rs\<close> as predicates. A test creates a segment through the
  model of \<^verbatim>\<open>segment::create\<close>, writes and damages its bytes, runs \<open>recover_segment\<close> and
  asserts; \<open>created\<close> is the wall clock at the creation. A test whose \<^verbatim>\<open>unwrap\<close> would panic is
  false. The smoke test over pseudo-random bytes asserts nothing about the outcome and is
  not modelled: that recovery returns on every input is a theorem.
\<close>

section \<open>What the tests share\<close>

definition SEGMENT_SIZE :: nat where
  "SEGMENT_SIZE = 64 * 1024"

definition MAX_RECORD_SIZE :: nat where
  "MAX_RECORD_SIZE = 4096"

definition MAX_LSN :: lsn where
  "MAX_LSN = Lsn 0xFFFFFFFFFFFFFFFF"

definition tempdir :: disk where
  "tempdir = \<lparr>entries = [], pending = [], dfaults = [], lock_held = False\<rparr>"

text \<open>The open file of a new segment; no system call of a test fails.\<close>

definition new_segment :: "(bytes \<Rightarrow> u32) \<Rightarrow> u64 \<Rightarrow> lsn \<Rightarrow> osfile option" where
  "new_segment crc created base =
     (case create crc created base SEGMENT_SIZE tempdir of
        (Inl e, d) \<Rightarrow> None
      | (Inr _, d) \<Rightarrow> Some (file_of d (filename_for base)))"

definition put_at :: "nat \<Rightarrow> bytes \<Rightarrow> osfile \<Rightarrow> osfile" where
  "put_at off bs f = fst (snd (write_all_at f off bs []))"

definition sync_file :: "osfile \<Rightarrow> osfile" where
  "sync_file f = fst (snd (sync_data f []))"

definition set_len :: "nat \<Rightarrow> osfile \<Rightarrow> osfile" where
  "set_len n f = f\<lparr>fdata := take n (fdata f) @ zeros (n - length (fdata f))\<rparr>"

fun write_records :: "(bytes \<Rightarrow> u32) \<Rightarrow> osfile \<Rightarrow> lsn \<Rightarrow> bytes list \<Rightarrow> nat \<Rightarrow> osfile \<times> nat" where
  "write_records crc f l [] off = (f, off)"
| "write_records crc f l (p # ps) off =
     (case encode_into crc [] l p of (buf, framed) \<Rightarrow>
        write_records crc (put_at off buf f) (lsn_next l) ps (off + framed))"

definition write_dense :: "(bytes \<Rightarrow> u32) \<Rightarrow> osfile \<Rightarrow> lsn \<Rightarrow> bytes list \<Rightarrow> osfile \<times> nat" where
  "write_dense crc f base payloads =
     (case write_records crc f base payloads HEADER_SIZE of (f', off) \<Rightarrow> (sync_file f', off))"

definition write_record_at :: "(bytes \<Rightarrow> u32) \<Rightarrow> nat \<Rightarrow> lsn \<Rightarrow> bytes \<Rightarrow> osfile \<Rightarrow> osfile" where
  "write_record_at crc off l p f = put_at off (fst (encode_into crc [] l p)) f"

definition write_torn_at :: "(bytes \<Rightarrow> u32) \<Rightarrow> nat \<Rightarrow> lsn \<Rightarrow> bytes \<Rightarrow> osfile \<Rightarrow> osfile" where
  "write_torn_at crc off l p f = put_at off (flip_at 0 0xFF (fst (encode_into crc [] l p))) f"

text \<open>Reading a byte, flipping it, writing it back.\<close>

definition invert_byte :: "nat \<Rightarrow> osfile \<Rightarrow> osfile" where
  "invert_byte off f =
     (case pread f off 1 of
        Inl e \<Rightarrow> f
      | Inr bs \<Rightarrow> put_at off (case bs of [] \<Rightarrow> [0 XOR 0xFF] | b # _ \<Rightarrow> [b XOR 0xFF]) f)"

definition read_at_into :: "osfile \<Rightarrow> nat \<Rightarrow> bytes \<Rightarrow> bytes option" where
  "read_at_into f off buf =
     (case pread f off (length buf) of
        Inl e \<Rightarrow> None
      | Inr bs \<Rightarrow> Some (bs @ drop (length bs) buf))"

definition run_recovery :: "(bytes \<Rightarrow> u32) \<Rightarrow> osfile \<Rightarrow> lsn \<Rightarrow> bool \<Rightarrow> segment_recovery result \<times> osfile" where
  "run_recovery crc f base is_active =
     (case recover_segment crc f base is_active SEGMENT_SIZE MAX_RECORD_SIZE [] of (r, f', flts) \<Rightarrow> (r, f'))"

definition scan_at :: "(bytes \<Rightarrow> u32) \<Rightarrow> osfile \<Rightarrow> nat \<Rightarrow> scan_outcome result" where
  "scan_at crc f off =
     (case read_record_at crc f off SEGMENT_SIZE MAX_RECORD_SIZE of
        Inl e \<Rightarrow> Inl e
      | Inr (out, buf) \<Rightarrow> Inr out)"

definition next_off :: "(bytes \<Rightarrow> u32) \<Rightarrow> nat \<Rightarrow> bytes \<Rightarrow> nat" where
  "next_off crc off payload = off + snd (encode_into crc [] (Lsn 1) payload)"

text \<open>The \<^verbatim>\<open>matches!\<close> patterns.\<close>

definition truncated_at :: "tail_state \<Rightarrow> nat \<Rightarrow> bool" where
  "truncated_at ts x = (case ts of Clean \<Rightarrow> False | TruncatedAt b off \<Rightarrow> off = x)"

definition is_corruption_at :: "'a result \<Rightarrow> lsn \<Rightarrow> nat \<Rightarrow> bool" where
  "is_corruption_at r seg x =
     (case r of Inl (Corruption s off det) \<Rightarrow> s = seg \<and> off = x | _ \<Rightarrow> False)"

section \<open>The tests\<close>

definition empty_active_segment_is_clean_with_base_minus_one :: "(bytes \<Rightarrow> u32) \<Rightarrow> u64 \<Rightarrow> bool" where
  "empty_active_segment_is_clean_with_base_minus_one crc created =
     (case new_segment crc created (Lsn 101) of
        None \<Rightarrow> False
      | Some f \<Rightarrow>
          (case run_recovery crc f (Lsn 101) True of
             (Inl e, f') \<Rightarrow> False
           | (Inr rec, f') \<Rightarrow> max_lsn rec = Lsn 100 \<and> rec_write_offset rec = HEADER_SIZE
               \<and> rec_tail_state rec = Clean))"

definition clean_run_recovers_all_records_without_zeroing :: "(bytes \<Rightarrow> u32) \<Rightarrow> u64 \<Rightarrow> bool" where
  "clean_run_recovers_all_records_without_zeroing crc created =
     (case new_segment crc created (Lsn 1) of
        None \<Rightarrow> False
      | Some f \<Rightarrow>
          (case write_dense crc f (Lsn 1) [ascii ''a'', ascii ''bb'', ascii ''ccc''] of (f, end_off) \<Rightarrow>
             (case run_recovery crc f (Lsn 1) True of
                (Inl e, f') \<Rightarrow> False
              | (Inr rec, f') \<Rightarrow> max_lsn rec = Lsn 3 \<and> rec_write_offset rec = end_off
                  \<and> rec_tail_state rec = Clean)))"

definition corrupt_last_record_is_a_torn_tail_and_is_zeroed :: "(bytes \<Rightarrow> u32) \<Rightarrow> u64 \<Rightarrow> bool" where
  "corrupt_last_record_is_a_torn_tail_and_is_zeroed crc created =
     (case new_segment crc created (Lsn 1) of
        None \<Rightarrow> False
      | Some f \<Rightarrow>
          (let f = fst (write_dense crc f (Lsn 1) [ascii ''first'', ascii ''second'']);
               x = HEADER_SIZE + framed_size 5;
               f = invert_byte (x + 20) f
           in case run_recovery crc f (Lsn 1) True of
                (Inl e, f') \<Rightarrow> False
              | (Inr rec, f') \<Rightarrow>
                  max_lsn rec = Lsn 1 \<and> rec_write_offset rec = x
                  \<and> rec_tail_state rec = TruncatedAt (Lsn 1) x
                  \<and> (case read_at_into f' x (replicate (SEGMENT_SIZE - x) 0xAA) of
                       None \<Rightarrow> False
                     | Some tail \<Rightarrow> list_all (\<lambda>b. b = 0) tail)))"

definition corrupt_middle_acked_record_is_fatal_tornmidlog :: "(bytes \<Rightarrow> u32) \<Rightarrow> u64 \<Rightarrow> bool" where
  "corrupt_middle_acked_record_is_fatal_tornmidlog crc created =
     (case new_segment crc created (Lsn 1) of
        None \<Rightarrow> False
      | Some f \<Rightarrow>
          (let f = fst (write_dense crc f (Lsn 1) [ascii ''one'', ascii ''two'', ascii ''three'']);
               x = HEADER_SIZE + framed_size 3;
               f = invert_byte (x + 20) f
           in fst (run_recovery crc f (Lsn 1) True) = Inl (TornMidLog (Lsn 1) x)))"

definition sealed_segment_invalid_record_is_fatal_corruption :: "(bytes \<Rightarrow> u32) \<Rightarrow> u64 \<Rightarrow> bool" where
  "sealed_segment_invalid_record_is_fatal_corruption crc created =
     (case new_segment crc created (Lsn 1) of
        None \<Rightarrow> False
      | Some f \<Rightarrow>
          (let f = fst (write_dense crc f (Lsn 1) [ascii ''one'', ascii ''two'', ascii ''three'']);
               x = HEADER_SIZE + framed_size 3;
               f = invert_byte (x + 20) f
           in is_corruption_at (fst (run_recovery crc f (Lsn 1) False)) (Lsn 1) x))"

definition sealed_torn_last_record_is_also_fatal :: "(bytes \<Rightarrow> u32) \<Rightarrow> u64 \<Rightarrow> bool" where
  "sealed_torn_last_record_is_also_fatal crc created =
     (case new_segment crc created (Lsn 1) of
        None \<Rightarrow> False
      | Some f \<Rightarrow>
          (let f = fst (write_dense crc f (Lsn 1) [ascii ''first'', ascii ''second'']);
               x = HEADER_SIZE + framed_size 5;
               f = invert_byte (x + 20) f;
               (sealed, f) = run_recovery crc f (Lsn 1) False;
               (as_active, f) = run_recovery crc f (Lsn 1) True
           in (case sealed of Inl (Corruption s off det) \<Rightarrow> True | _ \<Rightarrow> False)
              \<and> (case as_active of Inl e \<Rightarrow> False | Inr rec \<Rightarrow> rec_tail_state rec \<noteq> Clean)))"

fun recovers_clean :: "(bytes \<Rightarrow> u32) \<Rightarrow> nat \<Rightarrow> osfile \<Rightarrow> lsn \<Rightarrow> lsn \<Rightarrow> nat \<Rightarrow> bool" where
  "recovers_clean crc 0 f base lst x = True"
| "recovers_clean crc (Suc k) f base lst x =
     (case run_recovery crc f base True of
        (Inl e, f') \<Rightarrow> False
      | (Inr again, f') \<Rightarrow>
          max_lsn again = lst \<and> rec_write_offset again = x \<and> rec_tail_state again = Clean
          \<and> recovers_clean crc k f' base lst x)"

definition recovery_is_idempotent_after_torn_tail :: "(bytes \<Rightarrow> u32) \<Rightarrow> u64 \<Rightarrow> bool" where
  "recovery_is_idempotent_after_torn_tail crc created =
     (case new_segment crc created (Lsn 1) of
        None \<Rightarrow> False
      | Some f \<Rightarrow>
          (let f = fst (write_dense crc f (Lsn 1) [ascii ''first'', ascii ''second'']);
               x = HEADER_SIZE + framed_size 5;
               f = invert_byte (x + 20) f
           in case run_recovery crc f (Lsn 1) True of
                (Inl e, f') \<Rightarrow> False
              | (Inr first, f') \<Rightarrow>
                  rec_tail_state first \<noteq> Clean \<and> recovers_clean crc 3 f' (Lsn 1) (Lsn 1) x))"

definition truncated_file_below_segment_size_recovers_without_panic :: "(bytes \<Rightarrow> u32) \<Rightarrow> u64 \<Rightarrow> bool" where
  "truncated_file_below_segment_size_recovers_without_panic crc created =
     (case new_segment crc created (Lsn 1) of
        None \<Rightarrow> False
      | Some f \<Rightarrow>
          (case write_dense crc f (Lsn 1) [ascii ''alpha'', ascii ''beta'', ascii ''gamma''] of (f, end_off) \<Rightarrow>
             (case run_recovery crc (set_len (end_off - 4) f) (Lsn 1) True of
                (Inl e, f') \<Rightarrow> False
              | (Inr rec, f') \<Rightarrow> max_lsn rec = Lsn 2 \<and> rec_tail_state rec \<noteq> Clean
                  \<and> length (fdata f') = SEGMENT_SIZE)))"

definition zeroing_prevents_resurrection_of_stale_valid_record :: "(bytes \<Rightarrow> u32) \<Rightarrow> u64 \<Rightarrow> bool" where
  "zeroing_prevents_resurrection_of_stale_valid_record crc created =
     (case new_segment crc created (Lsn 1) of
        None \<Rightarrow> False
      | Some f \<Rightarrow>
          (case write_dense crc f (Lsn 1) [ascii ''first''] of (f, x) \<Rightarrow>
             let torn = fst (encode_into crc [] (Lsn 2) (ascii ''torn-r2''));
                 torn = flip_at 0 0xFF torn;
                 f = put_at x torn f;
                 bound = MAX_RECORD_SIZE + 28;
                 stale_off = x + bound + 256;
                 stale = fst (encode_into crc [] (Lsn 2) (ascii ''STALE-RESURRECTABLE''));
                 f = put_at stale_off stale f;
                 f = sync_file f
             in (case scan_at crc f stale_off of Inr (ScanRecord l k n) \<Rightarrow> l = Lsn 2 | _ \<Rightarrow> False)
                \<and> (case run_recovery crc f (Lsn 1) True of
                     (Inl e, f') \<Rightarrow> False
                   | (Inr rec, f') \<Rightarrow>
                       max_lsn rec = Lsn 1 \<and> truncated_at (rec_tail_state rec) x
                       \<and> scan_at crc f' stale_off = Inr CleanEnd
                       \<and> recovers_clean crc 1 f' (Lsn 1) (Lsn 1) x)))"

definition forward_scan_just_within_bound_is_fatal_tornmidlog :: "(bytes \<Rightarrow> u32) \<Rightarrow> u64 \<Rightarrow> bool" where
  "forward_scan_just_within_bound_is_fatal_tornmidlog crc created =
     (case new_segment crc created (Lsn 1) of
        None \<Rightarrow> False
      | Some f \<Rightarrow>
          (case write_dense crc f (Lsn 1) [ascii ''first''] of (f, x) \<Rightarrow>
             let f = write_torn_at crc x (Lsn 2) (ascii ''z'') f;
                 bound = MAX_RECORD_SIZE + 28;
                 end_off = x + 8 + bound;
                 within = (end_off div 8) * 8;
                 f = sync_file (write_record_at crc within (Lsn 2) (ascii ''genuine-continuation'') f)
             in within > x + 8 \<and> within \<le> end_off
                \<and> (case fst (run_recovery crc f (Lsn 1) True) of
                     Inl (TornMidLog s off) \<Rightarrow> off = x | _ \<Rightarrow> False)))"

definition forward_scan_just_beyond_bound_is_torn_tail :: "(bytes \<Rightarrow> u32) \<Rightarrow> u64 \<Rightarrow> bool" where
  "forward_scan_just_beyond_bound_is_torn_tail crc created =
     (case new_segment crc created (Lsn 1) of
        None \<Rightarrow> False
      | Some f \<Rightarrow>
          (case write_dense crc f (Lsn 1) [ascii ''first''] of (f, x) \<Rightarrow>
             let f = write_torn_at crc x (Lsn 2) (ascii ''z'') f;
                 bound = MAX_RECORD_SIZE + 28;
                 end_off = x + 8 + bound;
                 beyond = (end_off div 8) * 8 + 8;
                 f = sync_file (write_record_at crc beyond (Lsn 2) (ascii ''genuine-continuation'') f)
             in beyond > end_off
                \<and> (case run_recovery crc f (Lsn 1) True of
                     (Inl e, f') \<Rightarrow> False
                   | (Inr rec, f') \<Rightarrow>
                       max_lsn rec = Lsn 1 \<and> truncated_at (rec_tail_state rec) x
                       \<and> scan_at crc f' beyond = Inr CleanEnd)))"

definition unknown_rec_type_at_tail_is_treated_as_torn_tail :: "(bytes \<Rightarrow> u32) \<Rightarrow> u64 \<Rightarrow> bool" where
  "unknown_rec_type_at_tail_is_treated_as_torn_tail crc created =
     (case new_segment crc created (Lsn 1) of
        None \<Rightarrow> False
      | Some f \<Rightarrow>
          (case write_dense crc f (Lsn 1) [ascii ''first''] of (f, x) \<Rightarrow>
             (case encode_into crc [] (Lsn 2) (ascii ''reserved-type'') of (buf, framed) \<Rightarrow>
                let buf = buf[16 := 2];
                    c = crc32c crc (window 4 framed buf);
                    buf = patch_at 0 (u32_to_le_bytes c) buf;
                    f = sync_file (put_at x buf f)
                in case run_recovery crc f (Lsn 1) True of
                     (Inl e, f') \<Rightarrow> False
                   | (Inr rec, f') \<Rightarrow> max_lsn rec = Lsn 1 \<and> truncated_at (rec_tail_state rec) x)))"

definition rec_type_zeroed_interior_is_fatal_tornmidlog :: "(bytes \<Rightarrow> u32) \<Rightarrow> u64 \<Rightarrow> bool" where
  "rec_type_zeroed_interior_is_fatal_tornmidlog crc created =
     (case new_segment crc created (Lsn 1) of
        None \<Rightarrow> False
      | Some f \<Rightarrow>
          (let f = fst (write_dense crc f (Lsn 1) [ascii ''one'', ascii ''two'', ascii ''three'']);
               x = HEADER_SIZE + framed_size 3;
               f = sync_file (put_at (x + 16) [0] f)
           in fst (run_recovery crc f (Lsn 1) True) = Inl (TornMidLog (Lsn 1) x)))"

definition rec_type_zeroed_at_tail_is_torn_tail_and_zeroed :: "(bytes \<Rightarrow> u32) \<Rightarrow> u64 \<Rightarrow> bool" where
  "rec_type_zeroed_at_tail_is_torn_tail_and_zeroed crc created =
     (case new_segment crc created (Lsn 1) of
        None \<Rightarrow> False
      | Some f \<Rightarrow>
          (let f = fst (write_dense crc f (Lsn 1) [ascii ''first'', ascii ''second'']);
               x = HEADER_SIZE + framed_size 5;
               f = sync_file (put_at (x + 16) [0] f)
           in case run_recovery crc f (Lsn 1) True of
                (Inl e, f') \<Rightarrow> False
              | (Inr rec, f') \<Rightarrow>
                  max_lsn rec = Lsn 1 \<and> rec_write_offset rec = x \<and> truncated_at (rec_tail_state rec) x
                  \<and> recovers_clean crc 1 f' (Lsn 1) (Lsn 1) x))"

section \<open>The tests at the end of the LSN space\<close>

definition v71_max_record_then_sentinel_is_clean :: "(bytes \<Rightarrow> u32) \<Rightarrow> u64 \<Rightarrow> bool" where
  "v71_max_record_then_sentinel_is_clean crc created =
     list_all (\<lambda>is_active.
       (case new_segment crc created MAX_LSN of
          None \<Rightarrow> False
        | Some f \<Rightarrow>
            (case run_recovery crc (write_record_at crc HEADER_SIZE MAX_LSN (ascii ''last'') f) MAX_LSN is_active of
               (Inl e, f') \<Rightarrow> False
             | (Inr rec, f') \<Rightarrow> max_lsn rec = MAX_LSN \<and> rec_tail_state rec = Clean
                 \<and> rec_write_offset rec = next_off crc HEADER_SIZE (ascii ''last'')))
       \<and> (let base = Lsn (0xFFFFFFFFFFFFFFFF - 1) in
          case new_segment crc created base of
            None \<Rightarrow> False
          | Some f \<Rightarrow>
              (case write_dense crc f base [ascii ''a'', ascii ''b''] of (f, end_off) \<Rightarrow>
                 (case run_recovery crc f base is_active of
                    (Inl e, f') \<Rightarrow> False
                  | (Inr rec, f') \<Rightarrow> (max_lsn rec, rec_write_offset rec) = (MAX_LSN, end_off)
                      \<and> rec_tail_state rec = Clean))))
     [True, False]"

definition v71_duplicate_max_record_is_fatal_corruption :: "(bytes \<Rightarrow> u32) \<Rightarrow> u64 \<Rightarrow> bool" where
  "v71_duplicate_max_record_is_fatal_corruption crc created =
     list_all (\<lambda>is_active.
       case new_segment crc created MAX_LSN of
         None \<Rightarrow> False
       | Some f \<Rightarrow>
           (let f = write_record_at crc HEADER_SIZE MAX_LSN (ascii ''first'') f;
                second = next_off crc HEADER_SIZE (ascii ''first'');
                f = write_record_at crc second MAX_LSN (ascii ''duplicate'') f;
                (res, f') = run_recovery crc f MAX_LSN is_active
            in is_corruption_at res MAX_LSN second
               \<and> (case read_exact_at f' (second + 4) 1 of Inl e \<Rightarrow> False | Inr b \<Rightarrow> b \<noteq> [0])))
     [True, False]"

definition v71_wrapped_lsn_after_max_is_fatal_corruption :: "(bytes \<Rightarrow> u32) \<Rightarrow> u64 \<Rightarrow> bool" where
  "v71_wrapped_lsn_after_max_is_fatal_corruption crc created =
     (case new_segment crc created MAX_LSN of
        None \<Rightarrow> False
      | Some f \<Rightarrow>
          (let f = write_record_at crc HEADER_SIZE MAX_LSN (ascii ''x'') f;
               second = next_off crc HEADER_SIZE (ascii ''x'');
               f = write_record_at crc second (Lsn 1) (ascii ''wrapped'') f
           in case fst (run_recovery crc f MAX_LSN True) of
                Inl (Corruption s off det) \<Rightarrow> off = second | _ \<Rightarrow> False))"

definition v71_garbage_after_max_is_fatal_corruption_not_torn_tail :: "(bytes \<Rightarrow> u32) \<Rightarrow> u64 \<Rightarrow> bool" where
  "v71_garbage_after_max_is_fatal_corruption_not_torn_tail crc created =
     list_all (\<lambda>is_active.
       case new_segment crc created MAX_LSN of
         None \<Rightarrow> False
       | Some f \<Rightarrow>
           (let f = write_record_at crc HEADER_SIZE MAX_LSN (ascii ''x'') f;
                at = next_off crc HEADER_SIZE (ascii ''x'');
                f = put_at at (replicate 48 0xAB) f;
                (res, f') = run_recovery crc f MAX_LSN is_active
            in is_corruption_at res MAX_LSN at \<and> read_exact_at f' at 48 = Inr (replicate 48 0xAB)))
     [True, False]"

definition v71_torn_max_record_itself_is_still_a_torn_tail :: "(bytes \<Rightarrow> u32) \<Rightarrow> u64 \<Rightarrow> bool" where
  "v71_torn_max_record_itself_is_still_a_torn_tail crc created =
     (let base = Lsn (0xFFFFFFFFFFFFFFFF - 1) in
      case new_segment crc created base of
        None \<Rightarrow> False
      | Some f \<Rightarrow>
          (case write_dense crc f base [ascii ''ok''] of (f, x) \<Rightarrow>
             (case run_recovery crc (write_torn_at crc x MAX_LSN (ascii ''torn-max-record'') f) base True of
                (Inl e, f') \<Rightarrow> False
              | (Inr rec, f') \<Rightarrow> max_lsn rec = base \<and> truncated_at (rec_tail_state rec) x)))"

definition v71_physically_truncated_zero_tail_after_max_is_a_torn_tail :: "(bytes \<Rightarrow> u32) \<Rightarrow> u64 \<Rightarrow> bool" where
  "v71_physically_truncated_zero_tail_after_max_is_a_torn_tail crc created =
     list_all (\<lambda>extra. list_all (\<lambda>is_active.
       case new_segment crc created MAX_LSN of
         None \<Rightarrow> False
       | Some f \<Rightarrow>
           (let f = write_record_at crc HEADER_SIZE MAX_LSN (ascii ''x'') f;
                at = next_off crc HEADER_SIZE (ascii ''x'');
                f = set_len (at + extra) f;
                (res, f') = run_recovery crc f MAX_LSN is_active
            in if is_active then
                 (case res of
                    Inl e \<Rightarrow> False
                  | Inr rec \<Rightarrow>
                      max_lsn rec = MAX_LSN \<and> rec_write_offset rec = at
                      \<and> truncated_at (rec_tail_state rec) at
                      \<and> (case fst (run_recovery crc f' MAX_LSN True) of
                           Inl e \<Rightarrow> False
                         | Inr again \<Rightarrow> (max_lsn again, rec_tail_state again) = (MAX_LSN, Clean)))
               else (case res of Inl (Corruption s off det) \<Rightarrow> off = at | _ \<Rightarrow> False)))
       [True, False]) [0, 1, 7, 19]"

definition v71_physically_truncated_nonzero_tail_after_max_is_corruption :: "(bytes \<Rightarrow> u32) \<Rightarrow> u64 \<Rightarrow> bool" where
  "v71_physically_truncated_nonzero_tail_after_max_is_corruption crc created =
     (case new_segment crc created MAX_LSN of
        None \<Rightarrow> False
      | Some f \<Rightarrow>
          (let f = write_record_at crc HEADER_SIZE MAX_LSN (ascii ''x'') f;
               at = next_off crc HEADER_SIZE (ascii ''x'');
               f = put_at (at + 5) [0x42] (set_len (at + 6) f)
           in case fst (run_recovery crc f MAX_LSN True) of
                Inl (Corruption s off det) \<Rightarrow> off = at | _ \<Rightarrow> False))"

section \<open>The segments the tests build\<close>

lemma sizes [simp]: "64 \<le> SEGMENT_SIZE" "20 \<le> SEGMENT_SIZE" "MAX_RECORD_SIZE \<le> u32_max"
  by (simp_all add: SEGMENT_SIZE_def MAX_RECORD_SIZE_def u32_max_def)

lemma new_segment_eq:
  "new_segment crc created base = Some (disk_file (fresh_segment crc created base SEGMENT_SIZE))"
  using init_segment_ok [of SEGMENT_SIZE crc created base]
  by (simp add: new_segment_def create_def Let_def create_new_def tempdir_def put_file_def file_of_def
      disk_file_def)

lemma fresh_image:
  "fresh_segment crc created (lsn_of n) SEGMENT_SIZE
     = seg_image crc (encode_header crc (lsn_of n) created) n [] (zeros (SEGMENT_SIZE - 64))"
  by (simp add: fresh_segment_def seg_image_def)

lemma put_at_simps [simp]:
  "fdata (put_at off bs f) = pwrite off bs (fdata f)" "healthy (put_at off bs f) = healthy f"
  by (simp_all add: put_at_def write_all_at_def)

lemma sync_file_simps [simp]:
  "fdata (sync_file f) = fdata f" "healthy (sync_file f) = healthy f"
  by (simp_all add: sync_file_def sync_data_def)

lemma set_len_simps [simp]:
  "fdata (set_len n f) = take n (fdata f) @ zeros (n - length (fdata f))" "healthy (set_len n f) = healthy f"
  by (simp_all add: set_len_def)

lemma pwrite_end:
  "off = length pre + j \<Longrightarrow> j + length bs \<le> k \<Longrightarrow>
   pwrite off bs (pre @ zeros k) = pre @ zeros j @ bs @ zeros (k - j - length bs)"
  by (cases "bs = []") (auto simp: pwrite_def replicate_add [symmetric])

lemma pwrite_byte: "off < length xs \<Longrightarrow> pwrite off [b] xs = xs[off := b]"
  by (simp add: pwrite_def upd_conv_take_nth_drop)

lemma lsn_next_of: "Suc n \<le> u64_max \<Longrightarrow> lsn_next (lsn_of n) = lsn_of (Suc n)"
  by (simp add: lsn_eq_iff lsn_next_saturates)

lemma write_records_frames:
  assumes "fdata f = pre @ zeros k" "healthy f" "length pre = off" "frames_size ps \<le> k"
    "n + length ps \<le> Suc u64_max"
  shows "\<exists>f'. write_records crc f (lsn_of n) ps off = (f', off + frames_size ps) \<and> healthy f'
    \<and> fdata f' = pre @ frames crc n ps @ zeros (k - frames_size ps)"
  using assms
proof (induction ps arbitrary: f pre off n k)
  case (Cons p ps)
  let ?F = "frame crc (lsn_of n) p"
  let ?f = "put_at off ?F f"
  have d: "fdata ?f = (pre @ ?F) @ zeros (k - framed_size (length p))"
    using Cons.prems(1,3,4) pwrite_end [of off pre 0 ?F k] by simp
  show ?case
  proof (cases "ps = []")
    case True
    with d Cons.prems show ?thesis by (simp add: encode_into_eq)
  next
    case False
    then have s: "Suc n \<le> u64_max" using Cons.prems(5) by (cases ps) auto
    have "\<exists>f'. write_records crc ?f (lsn_of (Suc n)) ps (off + framed_size (length p))
          = (f', off + framed_size (length p) + frames_size ps) \<and> healthy f'
        \<and> fdata f' = (pre @ ?F) @ frames crc (Suc n) ps @ zeros (k - framed_size (length p) - frames_size ps)"
      by (rule Cons.IH [OF d]) (use Cons.prems in auto)
    then show ?thesis by (auto simp: encode_into_eq lsn_next_of [OF s] add.assoc)
  qed
qed simp

definition written :: "(bytes \<Rightarrow> u32) \<Rightarrow> u64 \<Rightarrow> nat \<Rightarrow> bytes list \<Rightarrow> bytes \<Rightarrow> osfile \<Rightarrow> bool" where
  "written crc created n ps r f \<longleftrightarrow> healthy f
     \<and> fdata f = seg_image crc (encode_header crc (lsn_of n) created) n ps r
     \<and> seg_wf SEGMENT_SIZE MAX_RECORD_SIZE (encode_header crc (lsn_of n) created) n ps
     \<and> 64 + frames_size ps + length r \<le> SEGMENT_SIZE"

lemma written_dense:
  assumes "0 < n" "n + length ps \<le> Suc u64_max" "n \<le> u64_max" "payloads_ok MAX_RECORD_SIZE ps"
    "64 + frames_size ps \<le> SEGMENT_SIZE"
  obtains f where "write_dense crc (disk_file (fresh_segment crc created (lsn_of n) SEGMENT_SIZE)) (lsn_of n) ps
      = (f, 64 + frames_size ps)"
    "written crc created n ps (zeros (SEGMENT_SIZE - 64 - frames_size ps)) f"
proof -
  let ?h = "encode_header crc (lsn_of n) created"
  have "frames_size ps \<le> SEGMENT_SIZE - 64" using assms(5) by linarith
  then obtain f' where "write_records crc (disk_file (fresh_segment crc created (lsn_of n) SEGMENT_SIZE)) (lsn_of n) ps 64
      = (f', 64 + frames_size ps)" "healthy f'"
    "fdata f' = ?h @ frames crc n ps @ zeros (SEGMENT_SIZE - 64 - frames_size ps)"
    using write_records_frames [of "disk_file (fresh_segment crc created (lsn_of n) SEGMENT_SIZE)" ?h
        "SEGMENT_SIZE - 64" 64 ps n crc] assms(2)
    by (auto simp: fresh_segment_def)
  then show ?thesis
    using assms
    by (intro that [of "sync_file f'"])
      (simp_all add: write_dense_def written_def seg_image_def seg_wf_def)
qed

text \<open>Writing past the records, and changing a byte of what follows them.\<close>

lemma written_put:
  assumes "written crc created n ps (a @ zeros k) f" "off = 64 + frames_size ps + length a + j"
    "j + length bs \<le> k"
  shows "written crc created n ps (a @ zeros j @ bs @ zeros (k - j - length bs)) (put_at off bs f)"
proof -
  have "pwrite off bs ((encode_header crc (lsn_of n) created @ frames crc n ps @ a) @ zeros k)
      = (encode_header crc (lsn_of n) created @ frames crc n ps @ a) @ zeros j @ bs @ zeros (k - j - length bs)"
    by (rule pwrite_end) (use assms in simp_all)
  with assms show ?thesis by (simp add: written_def seg_image_def)
qed

lemma written_byte:
  assumes "written crc created n ps r f" "off = 64 + frames_size ps + j" "j < length r"
  shows "written crc created n ps (r[j := b]) (put_at off [b] f)"
  using assms by (simp add: written_def seg_image_def pwrite_byte list_update_append)

lemma written_sync: "written crc created n ps r f \<Longrightarrow> written crc created n ps r (sync_file f)"
  by (simp add: written_def)

lemma written_invert:
  assumes "written crc created n ps r f" "off = 64 + frames_size ps + j" "j < length r"
  shows "written crc created n ps (flip_at j 0xFF r) (invert_byte off f)"
proof -
  have "pread f off 1 = Inr [r ! j]"
    using assms by (simp add: written_def seg_image_def window_def) (simp add: take_Suc_conv_app_nth [of _ r] hd_drop_conv_nth take_Suc)
  then have "invert_byte off f = put_at off [r ! j XOR 0xFF] f" by (simp add: invert_byte_def)
  then show ?thesis using written_byte [OF assms, of "r ! j XOR 0xFF"] by (simp add: flip_at_def)
qed

lemma written_split:
  "written crc created n (ps @ qs) r f \<Longrightarrow>
   written crc created n ps (frames crc (n + length ps) qs @ r) f"
  by (simp add: written_def seg_image_frames seg_wf_append seg_wf_def)

section \<open>What recovery makes of them\<close>

lemma scan_written:
  assumes "written crc created n ps r f" "64 + frames_size ps + 20 \<le> SEGMENT_SIZE"
  shows "scan_bytes crc (fdata f) (64 + frames_size ps) SEGMENT_SIZE MAX_RECORD_SIZE =
    (case decode crc r MAX_RECORD_SIZE of
       Record l p n \<Rightarrow> ScanRecord l (length p) n | Sentinel \<Rightarrow> CleanEnd | _ \<Rightarrow> ScanInvalid)"
proof -
  have "take (SEGMENT_SIZE - (64 + frames_size ps)) r = r" "\<not> SEGMENT_SIZE - (64 + frames_size ps) < 20"
    using assms by (auto simp: written_def)
  then show ?thesis using assms(1) by (simp add: written_def scan_bytes_def seg_image_def)
qed

lemma run_recovery_clean:
  assumes "written crc created n ps (zeros k) f" "64 + frames_size ps + k = SEGMENT_SIZE"
  shows "run_recovery crc f (lsn_of n) act =
    (Inr \<lparr>max_lsn = lsn_of (n + length ps - 1), rec_write_offset = 64 + frames_size ps,
          rec_tail_state = Clean\<rparr>, f)"
proof -
  have "k = SEGMENT_SIZE - 64 - frames_size ps" using assms(2) by simp
  then show ?thesis
    using assms(1) recover_segment_clean [of SEGMENT_SIZE MAX_RECORD_SIZE "encode_header crc (lsn_of n) created" n ps f crc act]
    by (simp add: run_recovery_def written_def seg_bytes_def)
qed

lemma run_recovery_stop:
  assumes w: "written crc created n ps r f"
    and "\<And>l k m. scan_bytes crc (fdata f) (64 + frames_size ps) SEGMENT_SIZE MAX_RECORD_SIZE = ScanRecord l k m
        \<Longrightarrow> checked_next (lsn_of (n + length ps - 1)) \<noteq> Some l"
  shows "run_recovery crc f (lsn_of n) act =
    settle crc f (lsn_of n) act SEGMENT_SIZE MAX_RECORD_SIZE (lsn_of (n + length ps - 1)) (64 + frames_size ps)"
  using assms recover_segment_image [of SEGMENT_SIZE MAX_RECORD_SIZE "encode_header crc (lsn_of n) created" n ps f crc r act]
  by (simp add: run_recovery_def written_def Let_def)

lemma run_recovery_tail:
  assumes w: "written crc created n ps r f" and n: "n + length ps \<le> u64_max"
    and s: "64 + frames_size ps + 20 \<le> SEGMENT_SIZE" and d: "decode crc r MAX_RECORD_SIZE \<in> {Incomplete} \<union> range Invalid"
  shows "run_recovery crc f (lsn_of n) act =
    (if \<not> act then (Inl (Corruption (lsn_of n) (64 + frames_size ps) ''invalid record in sealed segment''), f)
     else if valid_ahead crc (fdata f) SEGMENT_SIZE MAX_RECORD_SIZE (64 + frames_size ps) (lsn_of (n + length ps))
     then (Inl (TornMidLog (lsn_of n) (64 + frames_size ps)), f)
     else (Inr \<lparr>max_lsn = lsn_of (n + length ps - 1), rec_write_offset = 64 + frames_size ps,
                rec_tail_state = TruncatedAt (lsn_of n) (64 + frames_size ps)\<rparr>,
           zeroed f (64 + frames_size ps) SEGMENT_SIZE))"
proof -
  have inv: "scan_bytes crc (fdata f) (64 + frames_size ps) SEGMENT_SIZE MAX_RECORD_SIZE = ScanInvalid"
    using scan_written [OF w s] d by auto
  have "0 < n" using w by (simp add: written_def seg_wf_def)
  then have "checked_next (lsn_of (n + length ps - 1)) = Some (lsn_of (n + length ps))"
    using n checked_next_lsn_of [of "n + length ps - 1"] by simp
  with run_recovery_stop [OF w, of act] settle_invalid [OF inv this, of "lsn_of n" act] inv
  show ?thesis by simp
qed

text \<open>After the last LSN: a rejected or unexpected record.\<close>

lemma run_recovery_full:
  assumes w: "written crc created n ps r f" and n: "n + length ps = Suc u64_max"
    and s: "64 + frames_size ps + 20 \<le> SEGMENT_SIZE" and d: "decode crc r MAX_RECORD_SIZE \<noteq> Sentinel"
  shows "run_recovery crc f (lsn_of n) act =
    (if decode crc r MAX_RECORD_SIZE \<in> {Incomplete} \<union> range Invalid \<and> act \<and> length r < 20 \<and> all_zero r
     then (Inr \<lparr>max_lsn = lsn_of u64_max, rec_write_offset = 64 + frames_size ps,
                rec_tail_state = TruncatedAt (lsn_of n) (64 + frames_size ps)\<rparr>,
           zeroed f (64 + frames_size ps) SEGMENT_SIZE)
     else (Inl (Corruption (lsn_of n) (64 + frames_size ps) ''data after the last LSN (u64::MAX)''), f))"
proof -
  let ?x = "64 + frames_size ps"
  have l: "lsn_of (n + length ps - 1) = lsn_of u64_max" using n by simp
  have x: "saturating_add ?x 20 = ?x + 20"
    using s by (intro saturating_add_exact) (simp add: u64_max_def SEGMENT_SIZE_def)
  have "length (fdata f) = ?x + length r" "drop ?x (fdata f) = r"
    using w by (simp_all add: written_def seg_image_def)
  then show ?thesis
    using run_recovery_stop [OF w, of act] scan_written [OF w s] d x unfolding l
    by (auto simp: settle_def split: decoded.splits)
qed

lemma run_recovery_again:
  assumes "written crc created n ps r f" "run_recovery crc f (lsn_of n) True = (Inr rec, f')"
  shows "run_recovery crc f' (lsn_of n) act = (Inr (rec\<lparr>rec_tail_state := Clean\<rparr>), f')"
proof -
  obtain q where q: "recover_segment crc f (lsn_of n) True SEGMENT_SIZE MAX_RECORD_SIZE [] = (Inr rec, f', q)"
    using assms(2) by (auto simp: run_recovery_def split: prod.splits)
  have "healthy f" "\<not> is_none (lsn_of n)" "64 \<le> length (fdata f)"
    using assms(1) seg_wf_not_none by (auto simp: written_def seg_image_def)
  from recover_segment_again [OF this sizes(1) q, of act] show ?thesis by (simp add: run_recovery_def)
qed

lemma recovers_clean_all:
  assumes "run_recovery crc f b True = (Inr rec, f)" "max_lsn rec = lst" "rec_write_offset rec = x"
    "rec_tail_state rec = Clean"
  shows "recovers_clean crc k f b lst x"
  using assms by (induction k) simp_all

text \<open>No continuing record in the window when none of its type bytes is that of a record, or
  the LSN before such a byte is 0.\<close>

definition nothing_ahead :: "bytes \<Rightarrow> nat \<Rightarrow> bool" where
  "nothing_ahead r q \<longleftrightarrow> r ! (24 + 8 * q) \<noteq> 1 \<or> window (16 + 8 * q) (24 + 8 * q) r = zeros 8"

lemma not_ahead_written:
  assumes w: "written crc created n ps r f" and want: "\<not> is_none want"
    and t: "\<And>i. 24 + 8 * i < length r \<Longrightarrow> 8 * i \<le> MAX_RECORD_SIZE + 28 \<Longrightarrow> nothing_ahead r i"
  shows "\<not> valid_ahead crc (fdata f) SEGMENT_SIZE MAX_RECORD_SIZE (64 + frames_size ps) want"
proof
  let ?x = "64 + frames_size ps"
  assume va: "valid_ahead crc (fdata f) SEGMENT_SIZE MAX_RECORD_SIZE ?x want"
  have x: "saturating_add ?x 8 = 72 + frames_size ps"
    "saturating_add (72 + frames_size ps) (MAX_RECORD_SIZE + 28) = 72 + frames_size ps + (MAX_RECORD_SIZE + 28)"
    using w by (auto simp: written_def SEGMENT_SIZE_def MAX_RECORD_SIZE_def u64_max_def saturating_add_def)
  from va obtain i l k m where i: "8 * i \<le> 28 + MAX_RECORD_SIZE" "want \<le> l"
    and s: "scan_bytes crc (fdata f) (?x + 8 + 8 * i) SEGMENT_SIZE MAX_RECORD_SIZE = ScanRecord l k m"
    by (auto simp: valid_ahead_def x scan_bound_def)
  have fd: "fdata f = (encode_header crc (lsn_of n) created @ frames crc n ps) @ r"
    and sz: "?x + length r \<le> SEGMENT_SIZE"
    using w by (simp_all add: written_def seg_image_def)
  have "fdata f ! (?x + 8 + 8 * i + 16) = r ! (24 + 8 * i)" "length (fdata f) = ?x + length r"
    unfolding fd using nth_append_length_plus [of "encode_header crc (lsn_of n) created @ frames crc n ps" r "24 + 8 * i"]
    by (simp_all add: add.commute add.left_commute)
  with scan_record_type_byte [OF s] have t1: "24 + 8 * i < length r" "r ! (24 + 8 * i) = 1" by simp_all
  from s obtain q where d: "decode crc (drop (?x + 8 + 8 * i) (take SEGMENT_SIZE (fdata f))) MAX_RECORD_SIZE = Record l q m"
    by (auto simp: scan_bytes_def split: if_splits decoded.splits)
  have eq: "drop (?x + 8 + 8 * i) (take SEGMENT_SIZE (fdata f)) = drop (8 + 8 * i) r"
    using sz unfolding fd by simp
  from d have "l = Lsn (u64_from_le_bytes (window 8 16 (drop (8 + 8 * i) r)))"
    unfolding eq by (simp add: decode_Record_iff Let_def)
  then have "l = Lsn (u64_from_le_bytes (window (16 + 8 * i) (24 + 8 * i) r))"
    by (simp add: window_drop add.commute add.left_commute)
  with t [of i] t1 i(1) have "l = Lsn 0"
    by (simp add: nothing_ahead_def u64_from_le_bytes_def)
  with i(2) want show False by (simp add: is_none_def less_eq_lsn_def)
qed

section \<open>They pass\<close>

lemma ascii_simps [simp]: "ascii [] = []" "ascii (c # s) = word_of_nat (of_char c) # ascii s"
  by (simp_all add: ascii_def)

lemma length_flip_at [simp]: "length (flip_at i m xs) = length xs"
  by (simp add: flip_at_def)

lemma decode_torn:
  assumes "detects_byte crc" "length p \<le> MAX_RECORD_SIZE" "lsn_val l \<noteq> 0"
    "i < framed_size (length p)" "i < 4 \<or> 8 \<le> i" "m \<noteq> 0"
  shows "decode crc (flip_at i m (frame crc l p) @ r) MAX_RECORD_SIZE = Invalid BadCrc"
  using decode_changed_byte [OF assms(1,2) _ assms(3-5), of "frame crc l p ! i XOR m" r] assms(2,6)
    xor_neq [OF assms(6)] by (simp add: flip_at_def MAX_RECORD_SIZE_def u32_max_def)

lemma frame_tail_nth:
  assumes "20 \<le> i" "i < framed_size (length p)"
  shows "frame crc l p ! i = (p @ zeros (padding_for (length p))) ! (i - 20)"
proof -
  have "frame crc l p = (u32_to_le_bytes (crc (rec_body l p)) @ u32_to_le_bytes (word_of_nat (length p))
      @ u64_to_le_bytes (lsn_val l) @ [1, 0, 0, 0]) @ p @ zeros (padding_for (length p))"
    by (simp add: frame_def rec_body_def)
  then show ?thesis using assms by (simp only: nth_append) simp
qed

definition no_type_byte :: "bytes \<Rightarrow> bool" where
  "no_type_byte p \<longleftrightarrow> (\<forall>j. 4 + 8 * j < length p \<longrightarrow> p ! (4 + 8 * j) \<noteq> 1)"

text \<open>A rejected record at the end: \<open>g\<close> is what is left of the frame of \<open>p\<close>, its bytes from 24 on
  unchanged.\<close>

lemma bad_tail_type_byte:
  assumes p: "no_type_byte p" "length g = framed_size (length p)"
      "\<And>i. 24 \<le> i \<Longrightarrow> i < framed_size (length p) \<Longrightarrow> g ! i = frame crc l p ! i"
    and q: "24 + 8 * q < framed_size (length p) + k"
  shows "nothing_ahead (g @ zeros k @ b) q"
proof (cases "24 + 8 * q < framed_size (length p)")
  case True
  then have "g ! (24 + 8 * q) = (p @ zeros (padding_for (length p))) ! (4 + 8 * q)"
    using frame_tail_nth [of "24 + 8 * q" p crc l] p(3) by simp
  with True p(1,2) show ?thesis
    by (auto simp: nth_append nothing_ahead_def no_type_byte_def framed_size_def)
qed (use p(2) q in \<open>auto simp: nothing_ahead_def nth_append\<close>)

lemma recover_bad_tail:
  assumes w: "written crc created n ps (g @ zeros k @ b) f"
    and d: "decode crc (g @ zeros k @ b) MAX_RECORD_SIZE = Invalid e"
    and b: "\<And>q. framed_size (length p) + k \<le> 24 + 8 * q \<Longrightarrow> 24 + 8 * q < framed_size (length p) + k + length b \<Longrightarrow>
      8 * q \<le> MAX_RECORD_SIZE + 28 \<Longrightarrow> nothing_ahead (g @ zeros k @ b) q"
    and p: "no_type_byte p" "length g = framed_size (length p)"
      "\<And>i. 24 \<le> i \<Longrightarrow> i < framed_size (length p) \<Longrightarrow> g ! i = frame crc l p ! i"
    and n: "n + length ps \<le> u64_max"
  shows "run_recovery crc f (lsn_of n) act =
    (if \<not> act then (Inl (Corruption (lsn_of n) (64 + frames_size ps) ''invalid record in sealed segment''), f)
     else (Inr \<lparr>max_lsn = lsn_of (n + length ps - 1), rec_write_offset = 64 + frames_size ps,
                rec_tail_state = TruncatedAt (lsn_of n) (64 + frames_size ps)\<rparr>,
           zeroed f (64 + frames_size ps) SEGMENT_SIZE))"
proof -
  have "0 < n" using w by (simp add: written_def seg_wf_def)
  then have want: "\<not> is_none (lsn_of (n + length ps))" using n by (simp add: is_none_iff)
  have "64 + frames_size ps + 20 \<le> SEGMENT_SIZE"
    using w p(2) framed_size_ge24 [of "length p"] by (simp add: written_def)
  moreover have "\<not> valid_ahead crc (fdata f) SEGMENT_SIZE MAX_RECORD_SIZE (64 + frames_size ps) (lsn_of (n + length ps))"
  proof (rule not_ahead_written [OF w want])
    fix q
    assume q: "24 + 8 * q < length (g @ zeros k @ b)" "8 * q \<le> MAX_RECORD_SIZE + 28"
    show "nothing_ahead (g @ zeros k @ b) q"
    proof (cases "24 + 8 * q < framed_size (length p) + k")
      case True
      then show ?thesis using p(3) by (intro bad_tail_type_byte [OF p(1,2)]) auto
    qed (use b q p(2) in simp)
  qed
  ultimately show ?thesis using run_recovery_tail [OF w n, of act] d by simp
qed

lemma lsn_of_nonzero: "0 < n \<Longrightarrow> n \<le> u64_max \<Longrightarrow> lsn_val (lsn_of n) \<noteq> 0"
  using lsn_nat_of [of n] by (auto simp: lsn_nat_def)

lemma recover_torn:
  assumes crc: "detects_byte crc"
    and w: "written crc created n ps (flip_at i m (frame crc (lsn_of (n + length ps)) p) @ zeros k @ b) f"
    and b: "\<And>q. framed_size (length p) + k \<le> 24 + 8 * q \<Longrightarrow> 24 + 8 * q < framed_size (length p) + k + length b \<Longrightarrow>
      8 * q \<le> MAX_RECORD_SIZE + 28 \<Longrightarrow>
      nothing_ahead (flip_at i m (frame crc (lsn_of (n + length ps)) p) @ zeros k @ b) q"
    and p: "length p \<le> MAX_RECORD_SIZE" "no_type_byte p" and n: "n + length ps \<le> u64_max"
    and i: "i < framed_size (length p)" "i < 4 \<or> 8 \<le> i \<and> i < 24" "m \<noteq> 0"
  shows "run_recovery crc f (lsn_of n) act =
    (if \<not> act then (Inl (Corruption (lsn_of n) (64 + frames_size ps) ''invalid record in sealed segment''), f)
     else (Inr \<lparr>max_lsn = lsn_of (n + length ps - 1), rec_write_offset = 64 + frames_size ps,
                rec_tail_state = TruncatedAt (lsn_of n) (64 + frames_size ps)\<rparr>,
           zeroed f (64 + frames_size ps) SEGMENT_SIZE))"
proof -
  have "0 < n" using w by (simp add: written_def seg_wf_def)
  then have l: "lsn_val (lsn_of (n + length ps)) \<noteq> 0" using n by (intro lsn_of_nonzero) simp_all
  show ?thesis
  proof (rule recover_bad_tail [OF w _ b p(2) _ _ n])
    show "decode crc (flip_at i m (frame crc (lsn_of (n + length ps)) p) @ zeros k @ b) MAX_RECORD_SIZE = Invalid BadCrc"
      using decode_torn [OF crc p(1) l i(1) _ i(3)] i(2) by blast
  qed (use i in \<open>auto simp: flip_at_def\<close>)
qed

lemma recover_interior:
  assumes crc: "detects_byte crc"
    and w: "written crc created n ps (flip_at i m (frame crc (lsn_of (n + length ps)) p)
        @ frames crc (Suc (n + length ps)) [q] @ r) f"
    and p: "length p \<le> MAX_RECORD_SIZE" "length q \<le> MAX_RECORD_SIZE" and n: "Suc (n + length ps) \<le> u64_max"
    and i: "i < framed_size (length p)" "i < 4 \<or> 8 \<le> i" "m \<noteq> 0"
  shows "run_recovery crc f (lsn_of n) act =
    (if \<not> act then (Inl (Corruption (lsn_of n) (64 + frames_size ps) ''invalid record in sealed segment''), f)
     else (Inl (TornMidLog (lsn_of n) (64 + frames_size ps)), f))"
proof -
  let ?l = "lsn_of (n + length ps)" and ?m = "lsn_of (Suc (n + length ps))" and ?x = "64 + frames_size ps"
  let ?F = "flip_at i m (frame crc ?l p)"
  have lF: "length ?F = framed_size (length p)" by (simp add: flip_at_def)
  have "0 < n" using w by (simp add: written_def seg_wf_def)
  moreover have ln: "lsn_nat ?l = n + length ps" "lsn_nat ?m = Suc (n + length ps)" using n by simp_all
  ultimately have l: "lsn_val ?l \<noteq> 0" by (auto simp: lsn_nat_def)
  have d: "decode crc (?F @ frames crc (Suc (n + length ps)) [q] @ r) MAX_RECORD_SIZE = Invalid BadCrc"
    by (rule decode_torn [OF crc p(1) l i])
  have sz: "?x + framed_size (length p) + framed_size (length q) \<le> SEGMENT_SIZE"
    using w lF by (simp add: written_def)
  have s: "scan_bytes crc (fdata f) (?x + framed_size (length p)) SEGMENT_SIZE MAX_RECORD_SIZE
      = ScanRecord ?m (length q) (framed_size (length q))"
    using scan_bytes_frame [of q MAX_RECORD_SIZE
        "encode_header crc (lsn_of n) created @ frames crc n ps @ ?F" SEGMENT_SIZE crc ?m r] w p(2) lF sz
    by (simp add: written_def seg_image_def add.assoc)
  have "valid_ahead crc (fdata f) SEGMENT_SIZE MAX_RECORD_SIZE ?x ?l"
    by (rule valid_aheadI [OF s])
      (use p(1) sz ln framed_size_mod8 [of "length p"] framed_size_bounds [of "length p"]
        framed_size_ge24 [of "length p"] in \<open>auto simp: lsn_le_iff SEGMENT_SIZE_def u64_max_def\<close>)
  moreover have "?x + 20 \<le> SEGMENT_SIZE" using sz framed_size_ge24 [of "length p"] by linarith
  ultimately show ?thesis
    using run_recovery_tail [OF w, of act] n d by simp
qed

lemma Lsn_numerals: "Lsn 1 = lsn_of 1" "Lsn 2 = lsn_of 2" "Lsn 3 = lsn_of 3" "Lsn 100 = lsn_of 100"
  "Lsn 101 = lsn_of 101"
  by (simp_all add: lsn_of_def)

lemmas size_eval = framed_size_def padding_for_def

lemma small_u64: "200 \<le> u64_max"
  by (simp add: u64_max_def)

lemma empty_active_passes: "empty_active_segment_is_clean_with_base_minus_one crc created"
proof -
  let ?f = "disk_file (fresh_segment crc created (lsn_of 101) SEGMENT_SIZE)"
  have "written crc created 101 [] (zeros (SEGMENT_SIZE - 64)) ?f"
    using small_u64 by (simp add: written_def fresh_image seg_wf_def)
  from run_recovery_clean [OF this, of True] show ?thesis
    by (simp add: empty_active_segment_is_clean_with_base_minus_one_def new_segment_eq Lsn_numerals)
qed

text \<open>A test starts from a segment with a few short records of LSN 1 on.\<close>

lemma records_written:
  assumes "length ps \<le> 3" "list_all (\<lambda>p. length p \<le> 20) ps"
  obtains f where "write_dense crc (disk_file (fresh_segment crc created (Lsn 1) SEGMENT_SIZE)) (Lsn 1) ps
      = (f, 64 + frames_size ps)"
    "written crc created 1 ps (zeros (SEGMENT_SIZE - 64 - frames_size ps)) f"
proof -
  have "frames_size qs \<le> length qs * 47" if "list_all (\<lambda>p. length p \<le> 20) qs" for qs :: "bytes list"
    using that
  proof (induction qs)
    case (Cons q qs)
    then show ?case using framed_size_bounds(2) [of "length q"] by simp
  qed simp
  with assms have "frames_size ps \<le> 141" by fastforce
  moreover have "payloads_ok MAX_RECORD_SIZE ps"
    using assms(2) by (auto simp: payloads_ok_def MAX_RECORD_SIZE_def elim: list.pred_mono_strong)
  ultimately show ?thesis
    using written_dense [of 1 ps crc created] assms(1) small_u64 that
    by (auto simp: SEGMENT_SIZE_def Lsn_numerals)
qed

lemma clean_run_passes: "clean_run_recovers_all_records_without_zeroing crc created"
proof -
  let ?ps = "[ascii ''a'', ascii ''bb'', ascii ''ccc'']"
  obtain f where f: "write_dense crc (disk_file (fresh_segment crc created (Lsn 1) SEGMENT_SIZE)) (Lsn 1) ?ps
      = (f, 64 + frames_size ?ps)"
    "written crc created 1 ?ps (zeros (SEGMENT_SIZE - 64 - frames_size ?ps)) f"
    by (rule records_written [of ?ps]) simp_all
  have "64 + frames_size ?ps \<le> SEGMENT_SIZE" using f(2) by (simp add: written_def seg_wf_def)
  then have "run_recovery crc f (lsn_of 1) True =
    (Inr \<lparr>max_lsn = lsn_of 3, rec_write_offset = 64 + frames_size ?ps, rec_tail_state = Clean\<rparr>, f)"
    using run_recovery_clean [OF f(2), of True] by (simp add: numeral_3_eq_3)
  with f(1) show ?thesis
    by (simp add: clean_run_recovers_all_records_without_zeroing_def new_segment_eq Lsn_numerals)
qed

lemma two_records_damaged:
  assumes "detects_byte crc" and i: "i < 4 \<or> 8 \<le> i \<and> i < 24" and m: "m \<noteq> 0"
    and f: "written crc created 1 [ascii ''first''] (flip_at i m (frame crc (lsn_of 2) (ascii ''second''))
      @ zeros k) f"
  shows "run_recovery crc f (Lsn 1) act =
    (if \<not> act then (Inl (Corruption (Lsn 1) 96 ''invalid record in sealed segment''), f)
     else (Inr \<lparr>max_lsn = Lsn 1, rec_write_offset = 96, rec_tail_state = TruncatedAt (Lsn 1) 96\<rparr>,
           zeroed f 96 SEGMENT_SIZE))"
proof -
  have l: "lsn_of (1 + length [ascii ''first'']) = lsn_of 2" by (simp add: numeral_2_eq_2)
  have t: "no_type_byte (ascii ''second'')" by (auto simp: no_type_byte_def less_Suc_eq)
  have "written crc created 1 [ascii ''first''] (flip_at i m (frame crc (lsn_of (1 + length [ascii ''first'']))
      (ascii ''second'')) @ zeros k @ []) f" using f unfolding l by simp
  from recover_torn [OF assms(1) this _ _ t _ _ i m, of act] small_u64 i show ?thesis
    by (auto simp: Lsn_numerals MAX_RECORD_SIZE_def size_eval)
qed

text \<open>Zeroing leaves nothing but zeros from the offset on.\<close>

lemma zeroed_reads:
  assumes "healthy f" "x \<le> length (fdata f)" "length (fdata f) \<le> ssz"
  shows "read_at_into (zeroed f x ssz) x (replicate (ssz - x) b) = Some (zeros (ssz - x))"
    "drop x (fdata (zeroed f x ssz)) = zeros (ssz - x)" "length (fdata (zeroed f x ssz)) = ssz"
  using assms by (auto simp: read_at_into_def zeroed_def pwrite_inside window_def)

lemma scan_zeroed:
  assumes "healthy f" "x \<le> length (fdata f)" "length (fdata f) \<le> SEGMENT_SIZE" "x \<le> y"
  shows "scan_at crc (zeroed f x SEGMENT_SIZE) y = Inr CleanEnd"
proof -
  let ?f = "zeroed f x SEGMENT_SIZE"
  have h: "healthy ?f" using assms(1) by (simp add: zeroed_def)
  have "drop y (fdata ?f) = drop (y - x) (zeros (SEGMENT_SIZE - x))"
    using zeroed_reads(2) [OF assms(1-3)] assms(4) by (metis drop_drop le_add_diff_inverse2)
  then have d: "drop y (take SEGMENT_SIZE (fdata ?f)) = zeros (SEGMENT_SIZE - y)"
    using zeroed_reads(3) [OF assms(1-3)] assms(4) by simp
  have "decode crc (zeros k) MAX_RECORD_SIZE = Sentinel" if "20 \<le> k" for k
    using that by (simp add: decode_Sentinel_iff)
  then have "scan_bytes crc (fdata ?f) y SEGMENT_SIZE MAX_RECORD_SIZE = CleanEnd"
    unfolding scan_bytes_def d by simp
  with read_record_at_healthy [OF h, of crc y SEGMENT_SIZE MAX_RECORD_SIZE]
  show ?thesis by (auto simp: scan_at_def)
qed

lemma two_records:
  obtains f where "write_dense crc (disk_file (fresh_segment crc created (Lsn 1) SEGMENT_SIZE)) (Lsn 1)
       [ascii ''first'', ascii ''second''] = (f, 128)"
    "written crc created 1 [ascii ''first''] (frame crc (lsn_of 2) (ascii ''second'') @ zeros (SEGMENT_SIZE - 128)) f"
proof -
  let ?ps = "[ascii ''first'', ascii ''second'']"
  obtain f where f: "write_dense crc (disk_file (fresh_segment crc created (Lsn 1) SEGMENT_SIZE)) (Lsn 1) ?ps
      = (f, 64 + frames_size ?ps)"
    "written crc created 1 ?ps (zeros (SEGMENT_SIZE - 64 - frames_size ?ps)) f"
    by (rule records_written [of ?ps]) simp_all
  from f(2) have "written crc created 1 ([ascii ''first''] @ [ascii ''second'']) (zeros (SEGMENT_SIZE - 128)) f"
    by (simp add: size_eval)
  from written_split [OF this] f(1) show ?thesis
    by (intro that [of f]) (simp_all add: numeral_2_eq_2 size_eval)
qed

lemma two_records_inverted:
  assumes "detects_byte crc"
  obtains f where
    "invert_byte 116 (fst (write_dense crc (disk_file (fresh_segment crc created (Lsn 1) SEGMENT_SIZE)) (Lsn 1)
       [ascii ''first'', ascii ''second''])) = f"
    "healthy f" "length (fdata f) = SEGMENT_SIZE"
    "written crc created 1 [ascii ''first''] (drop 96 (fdata f)) f"
    "\<And>act. run_recovery crc f (Lsn 1) act =
      (if \<not> act then (Inl (Corruption (Lsn 1) 96 ''invalid record in sealed segment''), f)
       else (Inr \<lparr>max_lsn = Lsn 1, rec_write_offset = 96, rec_tail_state = TruncatedAt (Lsn 1) 96\<rparr>,
             zeroed f 96 SEGMENT_SIZE))"
proof -
  let ?F = "frame crc (lsn_of 2) (ascii ''second'')" and ?k = "SEGMENT_SIZE - 128"
  obtain f where f: "write_dense crc (disk_file (fresh_segment crc created (Lsn 1) SEGMENT_SIZE)) (Lsn 1)
       [ascii ''first'', ascii ''second''] = (f, 128)"
    and w: "written crc created 1 [ascii ''first''] (?F @ zeros ?k) f"
    by (rule two_records)
  let ?g = "invert_byte 116 f"
  have "written crc created 1 [ascii ''first''] (flip_at 20 0xFF (?F @ zeros ?k)) ?g"
    by (rule written_invert [OF w]) (simp_all add: size_eval)
  moreover have "flip_at 20 0xFF (?F @ zeros ?k) = flip_at 20 0xFF ?F @ zeros ?k"
    by (simp add: flip_at_def nth_append list_update_append size_eval)
  ultimately have g: "written crc created 1 [ascii ''first''] (flip_at 20 0xFF ?F @ zeros ?k) ?g" by simp
  then have "drop 96 (fdata ?g) = flip_at 20 0xFF ?F @ zeros ?k" "length (fdata ?g) = SEGMENT_SIZE"
    by (simp_all add: written_def seg_image_def size_eval SEGMENT_SIZE_def)
  with g two_records_damaged [OF assms _ _ g] f show ?thesis
    by (intro that [of ?g]) (simp_all add: written_def)
qed

lemma corrupt_last_passes:
  assumes "detects_byte crc"
  shows "corrupt_last_record_is_a_torn_tail_and_is_zeroed crc created"
    "sealed_torn_last_record_is_also_fatal crc created"
    "recovery_is_idempotent_after_torn_tail crc created"
proof -
  obtain f where f: "invert_byte 116 (fst (write_dense crc (disk_file (fresh_segment crc created (Lsn 1) SEGMENT_SIZE)) (Lsn 1)
       [ascii ''first'', ascii ''second''])) = f"
    "healthy f" "length (fdata f) = SEGMENT_SIZE"
    "written crc created 1 [ascii ''first''] (drop 96 (fdata f)) f"
    "\<And>act. run_recovery crc f (Lsn 1) act =
      (if \<not> act then (Inl (Corruption (Lsn 1) 96 ''invalid record in sealed segment''), f)
       else (Inr \<lparr>max_lsn = Lsn 1, rec_write_offset = 96, rec_tail_state = TruncatedAt (Lsn 1) 96\<rparr>,
             zeroed f 96 SEGMENT_SIZE))"
    by (rule two_records_inverted [OF assms, where created = created], rule that)
  have x: "HEADER_SIZE + framed_size 5 = 96" by (simp add: size_eval)
  have "96 \<le> SEGMENT_SIZE" by (simp add: SEGMENT_SIZE_def)
  then have z: "read_at_into (zeroed f 96 SEGMENT_SIZE) 96 (replicate (SEGMENT_SIZE - 96) 0xAA)
      = Some (zeros (SEGMENT_SIZE - 96))"
    by (intro zeroed_reads(1)) (simp_all add: f)
  let ?clean = "\<lparr>max_lsn = Lsn 1, rec_write_offset = 96, rec_tail_state = Clean\<rparr>"
  have again: "run_recovery crc (zeroed f 96 SEGMENT_SIZE) (Lsn 1) True = (Inr ?clean, zeroed f 96 SEGMENT_SIZE)"
    using run_recovery_again [OF f(4), of _ _ True] f(5) [of True] by (simp add: Lsn_numerals)
  show "corrupt_last_record_is_a_torn_tail_and_is_zeroed crc created"
    unfolding corrupt_last_record_is_a_torn_tail_and_is_zeroed_def new_segment_eq option.case Let_def x
    by (simp add: f(1) [simplified] f(5) z list_all_iff)
  show "sealed_torn_last_record_is_also_fatal crc created"
    unfolding sealed_torn_last_record_is_also_fatal_def new_segment_eq option.case Let_def x
    by (simp add: f(1) [simplified] f(5))
  have "recovers_clean crc 3 (zeroed f 96 SEGMENT_SIZE) (Lsn 1) (Lsn 1) 96"
    by (rule recovers_clean_all [OF again]) simp_all
  then show "recovery_is_idempotent_after_torn_tail crc created"
    unfolding recovery_is_idempotent_after_torn_tail_def new_segment_eq option.case Let_def x
    by (simp add: f(1) [simplified] f(5))
qed

lemma three_records_damaged:
  assumes "detects_byte crc" and i: "i < 4 \<or> 8 \<le> i \<and> i < 24" and m: "m \<noteq> 0"
  obtains f where
    "fst (write_dense crc (disk_file (fresh_segment crc created (Lsn 1) SEGMENT_SIZE)) (Lsn 1)
       [ascii ''one'', ascii ''two'', ascii ''three'']) = f"
    "healthy f" "fdata f ! (88 + i) = frame crc (lsn_of 2) (ascii ''two'') ! i" "88 + i < length (fdata f)"
    "\<And>g act. healthy g \<Longrightarrow> fdata g = (fdata f)[88 + i := fdata f ! (88 + i) XOR m] \<Longrightarrow>
      run_recovery crc g (Lsn 1) act =
      (if \<not> act then (Inl (Corruption (Lsn 1) 88 ''invalid record in sealed segment''), g)
       else (Inl (TornMidLog (Lsn 1) 88), g))"
proof -
  let ?ps = "[ascii ''one'', ascii ''two'', ascii ''three'']" and ?k = "SEGMENT_SIZE - 64 - 80"
  let ?F = "frame crc (lsn_of 2) (ascii ''two'')" and ?h = "encode_header crc (lsn_of 1) created"
  let ?r = "frames crc (Suc (1 + length [ascii ''one''])) [ascii ''three''] @ zeros ?k"
  obtain f where f: "write_dense crc (disk_file (fresh_segment crc created (Lsn 1) SEGMENT_SIZE)) (Lsn 1) ?ps
      = (f, 64 + frames_size ?ps)"
    "written crc created 1 ?ps (zeros (SEGMENT_SIZE - 64 - frames_size ?ps)) f"
    by (rule records_written [of ?ps]) simp_all
  from f(2) have "written crc created 1 ([ascii ''one''] @ [ascii ''two'', ascii ''three'']) (zeros ?k) f"
    by (simp add: size_eval)
  from written_split [OF this] have w: "written crc created 1 [ascii ''one''] (?F @ ?r) f"
    by (simp add: numeral_2_eq_2 numeral_3_eq_3)
  have lF: "length ?F = 24" by (simp add: size_eval)
  let ?pre = "?h @ frames crc 1 [ascii ''one'']"
  have lp: "length ?pre = 88" by (simp add: size_eval)
  have fd: "fdata f = ?pre @ ?F @ ?r" using w by (simp add: written_def seg_image_def)
  have i24: "i < 24" using i by auto
  have at: "fdata f ! (88 + i) = ?F ! i" "88 + i < length (fdata f)"
    using lp lF i24 unfolding fd by (simp_all only: nth_append length_append) simp_all
  have g: "written crc created 1 [ascii ''one''] (flip_at i m ?F @ ?r) g"
    if "healthy g" "fdata g = (fdata f)[88 + i := fdata f ! (88 + i) XOR m]" for g
  proof -
    have "(?pre @ ?F @ ?r)[88 + i := ?F ! i XOR m] = ?pre @ flip_at i m ?F @ ?r"
      using lp lF i24 by (simp only: list_update_append flip_at_def) simp
    then have "(fdata f)[88 + i := fdata f ! (88 + i) XOR m] = ?pre @ flip_at i m ?F @ ?r"
      by (simp only: at(1)) (simp only: fd)
    with that w show ?thesis by (simp add: written_def seg_image_def)
  qed
  have "run_recovery crc g (Lsn 1) act =
      (if \<not> act then (Inl (Corruption (Lsn 1) 88 ''invalid record in sealed segment''), g)
       else (Inl (TornMidLog (Lsn 1) 88), g))"
    if "healthy g" "fdata g = (fdata f)[88 + i := fdata f ! (88 + i) XOR m]" for g act
  proof -
    have "lsn_of (1 + length [ascii ''one'']) = lsn_of 2" by (simp add: numeral_2_eq_2)
    then have "written crc created 1 [ascii ''one''] (flip_at i m (frame crc (lsn_of (1 + length [ascii ''one'']))
        (ascii ''two'')) @ ?r) g" using g [OF that] by simp
    from recover_interior [OF assms(1) this _ _ _ _ _ m, of act] small_u64 i show ?thesis
      by (auto simp: Lsn_numerals MAX_RECORD_SIZE_def size_eval)
  qed
  with f(1) w at show ?thesis by (intro that [of f]) (simp_all add: written_def)
qed

lemma corrupt_middle_passes:
  assumes "detects_byte crc"
  shows "corrupt_middle_acked_record_is_fatal_tornmidlog crc created"
    "sealed_segment_invalid_record_is_fatal_corruption crc created"
proof -
  obtain f where f: "fst (write_dense crc (disk_file (fresh_segment crc created (Lsn 1) SEGMENT_SIZE)) (Lsn 1)
       [ascii ''one'', ascii ''two'', ascii ''three'']) = f"
    "healthy f" "88 + 20 < length (fdata f)"
    "\<And>g act. healthy g \<Longrightarrow> fdata g = (fdata f)[88 + 20 := fdata f ! (88 + 20) XOR 0xFF] \<Longrightarrow>
      run_recovery crc g (Lsn 1) act =
      (if \<not> act then (Inl (Corruption (Lsn 1) 88 ''invalid record in sealed segment''), g)
       else (Inl (TornMidLog (Lsn 1) 88), g))"
    by (rule three_records_damaged [OF assms, of 20 255 created]) simp_all
  have x: "HEADER_SIZE + framed_size 3 = 88" by (simp add: size_eval)
  have "invert_byte 108 f = put_at 108 [fdata f ! 108 XOR 0xFF] f"
    using f(2,3) by (simp add: invert_byte_def window_def take_Suc_conv_app_nth hd_drop_conv_nth take_Suc)
  then have g: "healthy (invert_byte 108 f)" "fdata (invert_byte 108 f) = (fdata f)[108 := fdata f ! 108 XOR 0xFF]"
    using f(2,3) by (simp_all add: pwrite_byte)
  note r = f(4) [of "invert_byte 108 f", simplified, OF g [simplified]]
  show "corrupt_middle_acked_record_is_fatal_tornmidlog crc created"
    unfolding corrupt_middle_acked_record_is_fatal_tornmidlog_def new_segment_eq option.case Let_def x
    by (simp add: f(1) [simplified] r)
  show "sealed_segment_invalid_record_is_fatal_corruption crc created"
    unfolding sealed_segment_invalid_record_is_fatal_corruption_def new_segment_eq option.case Let_def x
    by (simp add: f(1) [simplified] r is_corruption_at_def)
qed

lemma zeroed_type_interior_passes:
  assumes "detects_byte crc"
  shows "rec_type_zeroed_interior_is_fatal_tornmidlog crc created"
proof -
  obtain f where f: "fst (write_dense crc (disk_file (fresh_segment crc created (Lsn 1) SEGMENT_SIZE)) (Lsn 1)
       [ascii ''one'', ascii ''two'', ascii ''three'']) = f"
    "healthy f" "fdata f ! (88 + 16) = frame crc (lsn_of 2) (ascii ''two'') ! 16" "88 + 16 < length (fdata f)"
    "\<And>g act. healthy g \<Longrightarrow> fdata g = (fdata f)[88 + 16 := fdata f ! (88 + 16) XOR 1] \<Longrightarrow>
      run_recovery crc g (Lsn 1) act =
      (if \<not> act then (Inl (Corruption (Lsn 1) 88 ''invalid record in sealed segment''), g)
       else (Inl (TornMidLog (Lsn 1) 88), g))"
    by (rule three_records_damaged [OF assms, of 16 1 created]) simp_all
  have x: "HEADER_SIZE + framed_size 3 = 88" by (simp add: size_eval)
  have "fdata f ! 104 = 1" using f(3) frame_type_field [of crc "lsn_of 2" "ascii ''two''" "[]"] by simp
  then have "fdata (sync_file (put_at 104 [0] f)) = (fdata f)[88 + 16 := fdata f ! (88 + 16) XOR 1]"
    using f(4) by (simp add: pwrite_byte)
  with f(2) f(5) [of "sync_file (put_at 104 [0] f)" True]
  have "run_recovery crc (sync_file (put_at 104 [0] f)) (Lsn 1) True
      = (Inl (TornMidLog (Lsn 1) 88), sync_file (put_at 104 [0] f))" by simp
  then show ?thesis
    unfolding rec_type_zeroed_interior_is_fatal_tornmidlog_def new_segment_eq option.case Let_def x
    by (simp add: f(1) [simplified])
qed

lemma zeroed_type_tail_passes:
  assumes "detects_byte crc"
  shows "rec_type_zeroed_at_tail_is_torn_tail_and_zeroed crc created"
proof -
  let ?F = "frame crc (lsn_of 2) (ascii ''second'')" and ?k = "SEGMENT_SIZE - 128"
  obtain f where f: "write_dense crc (disk_file (fresh_segment crc created (Lsn 1) SEGMENT_SIZE)) (Lsn 1)
       [ascii ''first'', ascii ''second''] = (f, 128)"
    and w: "written crc created 1 [ascii ''first''] (?F @ zeros ?k) f"
    by (rule two_records)
  let ?g = "sync_file (put_at 112 [0] f)"
  have lF: "length ?F = 32" by (simp add: size_eval)
  have "?F ! 16 = 1" using frame_type_field [of crc "lsn_of 2" "ascii ''second''" "[]"] by simp
  then have "(?F @ zeros ?k)[16 := 0] = flip_at 16 1 ?F @ zeros ?k"
    using lF by (simp add: flip_at_def list_update_append)
  moreover have "written crc created 1 [ascii ''first''] ((?F @ zeros ?k)[16 := 0]) (put_at 112 [0] f)"
    by (rule written_byte [OF w]) (simp_all add: size_eval)
  ultimately have g: "written crc created 1 [ascii ''first''] (flip_at 16 1 ?F @ zeros ?k) ?g"
    by (simp add: written_sync)
  have r: "run_recovery crc ?g (Lsn 1) True =
      (Inr \<lparr>max_lsn = Lsn 1, rec_write_offset = 96, rec_tail_state = TruncatedAt (Lsn 1) 96\<rparr>,
       zeroed ?g 96 SEGMENT_SIZE)"
    using two_records_damaged [OF assms _ _ g, of True] by simp
  have "run_recovery crc (zeroed ?g 96 SEGMENT_SIZE) (Lsn 1) True =
      (Inr \<lparr>max_lsn = Lsn 1, rec_write_offset = 96, rec_tail_state = Clean\<rparr>, zeroed ?g 96 SEGMENT_SIZE)"
    using run_recovery_again [OF g, of _ _ True] r by (simp add: Lsn_numerals)
  then have "recovers_clean crc 1 (zeroed ?g 96 SEGMENT_SIZE) (Lsn 1) (Lsn 1) 96"
    by (rule recovers_clean_all) simp_all
  moreover have "HEADER_SIZE + framed_size 5 = 96" by (simp add: size_eval)
  ultimately show ?thesis
    unfolding rec_type_zeroed_at_tail_is_torn_tail_and_zeroed_def new_segment_eq option.case Let_def
    by (simp add: f [simplified] r truncated_at_def)
qed

lemma truncated_file_passes: "truncated_file_below_segment_size_recovers_without_panic crc created"
proof -
  let ?ps = "[ascii ''alpha'', ascii ''beta'', ascii ''gamma'']" and ?qs = "[ascii ''alpha'', ascii ''beta'']"
  let ?F = "frame crc (lsn_of 3) (ascii ''gamma'')"
  obtain f where f: "write_dense crc (disk_file (fresh_segment crc created (Lsn 1) SEGMENT_SIZE)) (Lsn 1) ?ps
      = (f, 64 + frames_size ?ps)"
    "written crc created 1 ?ps (zeros (SEGMENT_SIZE - 64 - frames_size ?ps)) f"
    by (rule records_written [of ?ps]) simp_all
  have e: "64 + frames_size ?ps = 152" by (simp add: size_eval)
  from f(2) have "written crc created 1 (?qs @ [ascii ''gamma'']) (zeros (SEGMENT_SIZE - 152)) f"
    by (simp add: size_eval)
  from written_split [OF this] have w: "written crc created 1 ?qs (?F @ zeros (SEGMENT_SIZE - 152)) f"
    by (simp add: numeral_3_eq_3)
  let ?g = "set_len 148 f"
  have "length ?F = 32" by (simp add: size_eval)
  then have g: "written crc created 1 ?qs (take 28 ?F) ?g"
    using w by (simp add: written_def seg_image_def size_eval)
  have len: "length (take 28 ?F) = 28" by (simp add: size_eval)
  have "window 4 8 (take 28 ?F) = u32_to_le_bytes 5"
    using frame_len_field [of crc "lsn_of 3" "ascii ''gamma''" "[]"] by (simp add: window_take)
  then have d: "decode crc (take 28 ?F) MAX_RECORD_SIZE = Incomplete"
    using frame_header_nonzero [of crc "lsn_of 3" "ascii ''gamma''" "[]"] len
    by (simp add: decode_eq MAX_RECORD_SIZE_def size_eval)
  have "\<not> valid_ahead crc (fdata ?g) SEGMENT_SIZE MAX_RECORD_SIZE (64 + frames_size ?qs) (lsn_of (1 + length ?qs))"
  proof (rule not_ahead_written [OF g])
    show "\<not> is_none (lsn_of (1 + length ?qs))" using small_u64 by (simp add: is_none_iff)
    fix q assume "24 + 8 * q < length (take 28 ?F)"
    then have "q = 0" using len by simp
    moreover have "?F ! 24 = 97" by (subst frame_tail_nth) (simp_all add: size_eval)
    ultimately show "nothing_ahead (take 28 ?F) q" by (simp add: nothing_ahead_def)
  qed
  then have r: "run_recovery crc ?g (Lsn 1) True =
      (Inr \<lparr>max_lsn = lsn_of 2, rec_write_offset = 120, rec_tail_state = TruncatedAt (Lsn 1) 120\<rparr>,
       zeroed ?g 120 SEGMENT_SIZE)"
    using run_recovery_tail [OF g, of True] d small_u64
    by (simp add: SEGMENT_SIZE_def Lsn_numerals size_eval numeral_2_eq_2)
  have "length (fdata (zeroed ?g 120 SEGMENT_SIZE)) = SEGMENT_SIZE"
    by (rule zeroed_reads(3)) (use g in \<open>simp_all add: written_def seg_image_def size_eval SEGMENT_SIZE_def\<close>)
  then show ?thesis
    unfolding truncated_file_below_segment_size_recovers_without_panic_def new_segment_eq option.case
    using f(1) r unfolding e by (simp add: Lsn_numerals)
qed

lemma lsn_2: "lsn_of (Suc (Suc 0)) = lsn_of 2"
  by (simp add: numeral_2_eq_2)

lemma le_bytes_first: "0 < n \<Longrightarrow> le_bytes n v ! 0 = word_of_nat (v mod 256)"
  by (cases n) simp_all

lemma one_record:
  obtains f where "write_dense crc (disk_file (fresh_segment crc created (Lsn 1) SEGMENT_SIZE)) (Lsn 1)
       [ascii ''first''] = (f, 96)"
    "written crc created 1 [ascii ''first''] (zeros (SEGMENT_SIZE - 96)) f"
proof -
  let ?ps = "[ascii ''first'']"
  obtain f where f: "write_dense crc (disk_file (fresh_segment crc created (Lsn 1) SEGMENT_SIZE)) (Lsn 1) ?ps
      = (f, 64 + frames_size ?ps)"
    "written crc created 1 ?ps (zeros (SEGMENT_SIZE - 64 - frames_size ?ps)) f"
    by (rule records_written [of ?ps]) simp_all
  then show ?thesis by (intro that [of f]) (simp_all add: size_eval)
qed

lemma unknown_tail_passes: "unknown_rec_type_at_tail_is_treated_as_torn_tail crc created"
proof -
  let ?p = "ascii ''reserved-type''"
  let ?g = "retyped crc (lsn_of 2) ?p 2"
  obtain f where f: "write_dense crc (disk_file (fresh_segment crc created (Lsn 1) SEGMENT_SIZE)) (Lsn 1)
       [ascii ''first''] = (f, 96)"
    and w: "written crc created 1 [ascii ''first''] (zeros (SEGMENT_SIZE - 96)) f"
    by (rule one_record)
  let ?f = "sync_file (put_at 96 ?g f)"
  have lg: "length ?g = 40" by (simp add: size_eval)
  have "written crc created 1 [ascii ''first''] ([] @ zeros 0 @ ?g @ zeros (SEGMENT_SIZE - 96 - 0 - length ?g)) (put_at 96 ?g f)"
    by (rule written_put) (use w lg in \<open>simp_all add: SEGMENT_SIZE_def size_eval\<close>)
  then have g: "written crc created 1 [ascii ''first''] (?g @ zeros (SEGMENT_SIZE - 136) @ []) ?f"
    using lg by (simp add: written_sync)
  have d: "decode crc (?g @ zeros (SEGMENT_SIZE - 136) @ []) MAX_RECORD_SIZE = Invalid UnknownRecType"
    by (rule decode_retyped) (simp_all add: MAX_RECORD_SIZE_def u32_max_def)
  have t: "no_type_byte ?p" by (auto simp: no_type_byte_def less_Suc_eq)
  have "run_recovery crc ?f (lsn_of 1) True =
      (Inr \<lparr>max_lsn = lsn_of 1, rec_write_offset = 96, rec_tail_state = TruncatedAt (lsn_of 1) 96\<rparr>,
       zeroed ?f 96 SEGMENT_SIZE)"
    using recover_bad_tail [OF g d _ t _ retyped_nth, of True] small_u64 by (simp add: size_eval)
  moreover have "framed_size (length ?p) = 40" by (simp add: size_eval)
  ultimately show ?thesis
    unfolding unknown_rec_type_at_tail_is_treated_as_torn_tail_def new_segment_eq option.case
    using f by (simp add: encode_into_eq Lsn_numerals truncated_at_def Let_def retyped_def)
qed

text \<open>A torn record in the place of LSN 2 and a valid one of LSN 2 further on.\<close>

lemma torn_then_record:
  assumes "written crc created 1 [ascii ''first''] (zeros (SEGMENT_SIZE - 96)) f" "length p \<le> 20"
    "off = 96 + framed_size (length p) + j" "off + framed_size (length q) \<le> SEGMENT_SIZE"
  shows "written crc created 1 [ascii ''first'']
     (flip_at 0 0xFF (frame crc (lsn_of 2) p) @ zeros j @ frame crc (lsn_of 2) q
      @ zeros (SEGMENT_SIZE - off - framed_size (length q)))
     (put_at off (frame crc (lsn_of 2) q) (put_at 96 (flip_at 0 0xFF (frame crc (lsn_of 2) p)) f))"
proof -
  let ?T = "flip_at 0 0xFF (frame crc (lsn_of 2) p)" and ?F = "frame crc (lsn_of 2) q"
  let ?n = "framed_size (length p)"
  have z: "frames_size [ascii ''first''] = 32" by (simp add: size_eval)
  have "written crc created 1 [ascii ''first''] ([] @ zeros 0 @ ?T @ zeros (SEGMENT_SIZE - 96 - 0 - length ?T)) (put_at 96 ?T f)"
    by (rule written_put) (use assms(1,3,4) z in simp_all)
  then have T: "written crc created 1 [ascii ''first''] (?T @ zeros (SEGMENT_SIZE - 96 - ?n)) (put_at 96 ?T f)" by simp
  have "written crc created 1 [ascii ''first''] (?T @ zeros j @ ?F @ zeros (SEGMENT_SIZE - 96 - ?n - j - length ?F)) (put_at off ?F (put_at 96 ?T f))"
    by (rule written_put [OF T]) (use assms(3,4) z in simp_all)
  moreover have "SEGMENT_SIZE - 96 - ?n - j - length ?F = SEGMENT_SIZE - off - framed_size (length q)"
    using assms(3) by simp
  ultimately show ?thesis by simp
qed

lemma scan_buried:
  assumes "written crc created 1 [ascii ''first''] (g @ frame crc l q @ r) f" "off = 96 + length g"
    "length q \<le> MAX_RECORD_SIZE"
  shows "scan_bytes crc (fdata f) off SEGMENT_SIZE MAX_RECORD_SIZE = ScanRecord l (length q) (framed_size (length q))"
proof -
  let ?pre = "encode_header crc (lsn_of 1) created @ frames crc 1 [ascii ''first''] @ g"
  have "length ?pre = off" using assms(2) by (simp add: size_eval)
  moreover have "off + framed_size (length q) \<le> SEGMENT_SIZE"
    using assms(1,2) by (simp add: written_def size_eval)
  ultimately show ?thesis
    using scan_bytes_frame [of q MAX_RECORD_SIZE ?pre SEGMENT_SIZE crc l r] assms(1,3)
    by (simp add: written_def seg_image_def)
qed

lemma resurrection_passes:
  assumes "detects_byte crc"
  shows "zeroing_prevents_resurrection_of_stale_valid_record crc created"
proof -
  let ?p = "ascii ''torn-r2''" and ?q = "ascii ''STALE-RESURRECTABLE''"
  let ?T = "flip_at 0 0xFF (frame crc (lsn_of 2) ?p)" and ?F = "frame crc (lsn_of 2) ?q"
  obtain f where f: "write_dense crc (disk_file (fresh_segment crc created (Lsn 1) SEGMENT_SIZE)) (Lsn 1)
       [ascii ''first''] = (f, 96)"
    and w: "written crc created 1 [ascii ''first''] (zeros (SEGMENT_SIZE - 96)) f"
    by (rule one_record)
  let ?g = "sync_file (put_at 4476 ?F (put_at 96 ?T f))"
  have sz: "framed_size (length ?p) = 32" "framed_size (length ?q) = 40" by (simp_all add: size_eval)
  have g: "written crc created 1 [ascii ''first''] (?T @ zeros 4348 @ ?F @ zeros (SEGMENT_SIZE - 4516)) ?g"
    using torn_then_record [OF w, of ?p 4476 4348 ?q] sz by (simp add: written_sync SEGMENT_SIZE_def)
  have s: "scan_at crc ?g 4476 = Inr (ScanRecord (lsn_of 2) (length ?q) 40)"
  proof -
    have "written crc created 1 [ascii ''first''] ((?T @ zeros 4348) @ ?F @ zeros (SEGMENT_SIZE - 4516)) ?g"
      using g by simp
    from scan_buried [OF this, of 4476] sz
    have "scan_bytes crc (fdata ?g) 4476 SEGMENT_SIZE MAX_RECORD_SIZE = ScanRecord (lsn_of 2) (length ?q) 40"
      by (simp add: MAX_RECORD_SIZE_def)
    moreover have "healthy ?g" using g by (simp only: written_def)
    ultimately show ?thesis
      using read_record_at_healthy [of ?g crc 4476 SEGMENT_SIZE MAX_RECORD_SIZE] by (auto simp: scan_at_def)
  qed
  have t: "no_type_byte ?p" by (auto simp: no_type_byte_def less_Suc_eq)
  have l: "lsn_of (1 + length [ascii ''first'']) = lsn_of 2" by (simp add: numeral_2_eq_2)
  have r: "run_recovery crc ?g (lsn_of 1) True =
      (Inr \<lparr>max_lsn = lsn_of 1, rec_write_offset = 96, rec_tail_state = TruncatedAt (lsn_of 1) 96\<rparr>,
       zeroed ?g 96 SEGMENT_SIZE)"
    using recover_torn [OF assms g [folded l] _ _ t, of True] sz small_u64
    by (simp add: size_eval MAX_RECORD_SIZE_def lsn_2)
  have "run_recovery crc (zeroed ?g 96 SEGMENT_SIZE) (Lsn 1) True =
      (Inr \<lparr>max_lsn = Lsn 1, rec_write_offset = 96, rec_tail_state = Clean\<rparr>, zeroed ?g 96 SEGMENT_SIZE)"
    using run_recovery_again [OF g, of _ _ True] r by (simp add: Lsn_numerals)
  then have "recovers_clean crc 1 (zeroed ?g 96 SEGMENT_SIZE) (Lsn 1) (Lsn 1) 96"
    by (rule recovers_clean_all) simp_all
  moreover have "scan_at crc (zeroed ?g 96 SEGMENT_SIZE) 4476 = Inr CleanEnd"
    by (rule scan_zeroed) (use g in \<open>simp_all add: written_def seg_image_def size_eval SEGMENT_SIZE_def\<close>)
  ultimately show ?thesis
    unfolding zeroing_prevents_resurrection_of_stale_valid_record_def new_segment_eq option.case f prod.case
      encode_into_eq Let_def
    using r s by (simp add: Lsn_numerals truncated_at_def MAX_RECORD_SIZE_def)
qed

lemma within_bound_passes:
  assumes "detects_byte crc"
  shows "forward_scan_just_within_bound_is_fatal_tornmidlog crc created"
proof -
  let ?p = "ascii ''z''" and ?q = "ascii ''genuine-continuation''"
  let ?T = "flip_at 0 0xFF (frame crc (lsn_of 2) ?p)" and ?F = "frame crc (lsn_of 2) ?q"
  obtain f where f: "write_dense crc (disk_file (fresh_segment crc created (Lsn 1) SEGMENT_SIZE)) (Lsn 1)
       [ascii ''first''] = (f, 96)"
    and w: "written crc created 1 [ascii ''first''] (zeros (SEGMENT_SIZE - 96)) f"
    by (rule one_record)
  let ?g = "sync_file (put_at 4224 ?F (put_at 96 ?T f))"
  have sz: "framed_size (length ?p) = 24" "framed_size (length ?q) = 40" "frames_size [ascii ''first''] = 32"
    by (simp_all add: size_eval)
  have g: "written crc created 1 [ascii ''first''] (?T @ zeros 4104 @ ?F @ zeros (SEGMENT_SIZE - 4264)) ?g"
    using torn_then_record [OF w, of ?p 4224 4104 ?q] sz by (simp add: written_sync SEGMENT_SIZE_def)
  then have "written crc created 1 [ascii ''first''] ((?T @ zeros 4104) @ ?F @ zeros (SEGMENT_SIZE - 4264)) ?g" by simp
  from scan_buried [OF this, of 4224] sz
  have s: "scan_bytes crc (fdata ?g) (96 + 4128) SEGMENT_SIZE MAX_RECORD_SIZE = ScanRecord (lsn_of 2) (length ?q) 40"
    by (simp add: MAX_RECORD_SIZE_def)
  have va: "valid_ahead crc (fdata ?g) SEGMENT_SIZE MAX_RECORD_SIZE 96 (lsn_of 2)"
    by (rule valid_aheadI [OF s]) (simp_all add: MAX_RECORD_SIZE_def u64_max_def)
  have d: "decode crc (?T @ zeros 4104 @ ?F @ zeros (SEGMENT_SIZE - 4264)) MAX_RECORD_SIZE = Invalid BadCrc"
    by (rule decode_torn [OF assms]) (use small_u64 in \<open>simp_all add: MAX_RECORD_SIZE_def size_eval lsn_of_nonzero\<close>)
  have "fst (run_recovery crc ?g (lsn_of 1) True) = Inl (TornMidLog (lsn_of 1) 96)"
    using run_recovery_tail [OF g, of True] d va sz small_u64
    by (simp add: SEGMENT_SIZE_def lsn_2)
  then show ?thesis
    unfolding forward_scan_just_within_bound_is_fatal_tornmidlog_def new_segment_eq option.case f prod.case
      encode_into_eq Let_def write_torn_at_def write_record_at_def
    by (simp add: Lsn_numerals MAX_RECORD_SIZE_def)
qed

lemma beyond_bound_passes:
  assumes "detects_byte crc"
  shows "forward_scan_just_beyond_bound_is_torn_tail crc created"
proof -
  let ?p = "ascii ''z''" and ?q = "ascii ''genuine-continuation''"
  let ?T = "flip_at 0 0xFF (frame crc (lsn_of 2) ?p)" and ?F = "frame crc (lsn_of 2) ?q"
  obtain f where f: "write_dense crc (disk_file (fresh_segment crc created (Lsn 1) SEGMENT_SIZE)) (Lsn 1)
       [ascii ''first''] = (f, 96)"
    and w: "written crc created 1 [ascii ''first''] (zeros (SEGMENT_SIZE - 96)) f"
    by (rule one_record)
  let ?g = "sync_file (put_at 4232 ?F (put_at 96 ?T f))" and ?b = "?F @ zeros (SEGMENT_SIZE - 4272)"
  have sz: "framed_size (length ?p) = 24" "framed_size (length ?q) = 40" "frames_size [ascii ''first''] = 32"
    by (simp_all add: size_eval)
  have g: "written crc created 1 [ascii ''first''] (?T @ zeros 4112 @ ?b) ?g"
    using torn_then_record [OF w, of ?p 4232 4112 ?q] sz by (simp add: written_sync SEGMENT_SIZE_def)
  have t: "no_type_byte ?p" by (simp add: no_type_byte_def)
  have l: "lsn_of (1 + length [ascii ''first'']) = lsn_of 2" by (simp add: numeral_2_eq_2)
  have lF: "length ?T = 24" "length ?F = 40" using sz by simp_all
  have F8: "?F ! 8 = 2"
  proof -
    have "window 8 16 ?F = u64_to_le_bytes 2"
      using frame_lsn_field [of crc "lsn_of 2" ?q "[]"] by (simp add: lsn_of_def)
    then have "window 8 16 ?F ! 0 = 2" by (simp add: u64_to_le_bytes_def le_bytes_first)
    moreover have "window 8 16 ?F ! 0 = ?F ! 8" using lF(2) unfolding window_def by (subst nth_take) simp_all
    ultimately show ?thesis by simp
  qed
  have na: "nothing_ahead (?T @ zeros 4112 @ ?b) q"
    if "framed_size (length ?p) + 4112 \<le> 24 + 8 * q" "8 * q \<le> MAX_RECORD_SIZE + 28" for q
  proof -
    from that sz have "q = 514 \<or> q = 515" by (auto simp: MAX_RECORD_SIZE_def)
    then show ?thesis
    proof
      assume q: "q = 514"
      have "window 4128 4136 (?T @ zeros 4112 @ ?b) = zeros 8"
        using lF by (simp add: window_def)
      then show ?thesis by (simp add: nothing_ahead_def q)
    next
      assume q: "q = 515"
      have "(?T @ zeros 4112 @ ?b) ! 4144 = ?F ! 8" using lF by (simp add: nth_append)
      with F8 show ?thesis by (simp add: nothing_ahead_def q)
    qed
  qed
  have r: "run_recovery crc ?g (lsn_of 1) True =
      (Inr \<lparr>max_lsn = lsn_of 1, rec_write_offset = 96, rec_tail_state = TruncatedAt (lsn_of 1) 96\<rparr>,
       zeroed ?g 96 SEGMENT_SIZE)"
    using recover_torn [OF assms g [folded l] na [folded l] _ t, of True] sz small_u64
    by (simp add: size_eval MAX_RECORD_SIZE_def lsn_2)
  moreover have "scan_at crc (zeroed ?g 96 SEGMENT_SIZE) 4232 = Inr CleanEnd"
    by (rule scan_zeroed) (use g in \<open>simp_all add: written_def seg_image_def size_eval SEGMENT_SIZE_def\<close>)
  ultimately show ?thesis
    unfolding forward_scan_just_beyond_bound_is_torn_tail_def new_segment_eq option.case f prod.case
      encode_into_eq Let_def write_torn_at_def write_record_at_def
    by (simp add: Lsn_numerals truncated_at_def MAX_RECORD_SIZE_def)
qed

section \<open>The tests at the end of the LSN space pass\<close>

lemma framed_eval:
  "framed_size (Suc 0) = 24" "framed_size 1 = 24" "framed_size 4 = 24" "framed_size (Suc (Suc (Suc (Suc 0)))) = 24"
  "framed_size 5 = 32" "framed_size (Suc (Suc (Suc (Suc (Suc 0))))) = 32"
  by (simp_all add: size_eval)

lemma MAX_LSN_eq: "MAX_LSN = lsn_of u64_max" "Lsn (0xFFFFFFFFFFFFFFFF - 1) = lsn_of (u64_max - 1)"
  by (simp_all add: MAX_LSN_def lsn_of_def u64_max_def)

lemma u64_max_pos: "0 < u64_max" "Suc (u64_max - 1) = u64_max" "u64_max - Suc 0 + 1 = u64_max"
  by (simp_all add: u64_max_def)

lemma written_join:
  assumes "written crc created n ps (frame crc (lsn_of (n + length ps)) p @ r) f" "length p \<le> MAX_RECORD_SIZE"
    "n + length ps \<le> u64_max"
  shows "written crc created n (ps @ [p]) r f"
  using assms by (simp add: written_def seg_image_frames seg_wf_def)

lemma max_written:
  assumes "length p \<le> 20"
  shows "written crc created u64_max [p] (zeros (SEGMENT_SIZE - 64 - framed_size (length p)))
    (write_record_at crc 64 MAX_LSN p (disk_file (fresh_segment crc created MAX_LSN SEGMENT_SIZE)))"
proof -
  let ?F = "frame crc (lsn_of u64_max) p" and ?f = "disk_file (fresh_segment crc created MAX_LSN SEGMENT_SIZE)"
  have sz: "framed_size (length p) \<le> SEGMENT_SIZE - 64"
    using framed_size_bounds(2) [of "length p"] assms by (simp add: SEGMENT_SIZE_def)
  have "written crc created u64_max [] ([] @ zeros (SEGMENT_SIZE - 64)) ?f"
    using u64_max_pos by (simp add: written_def MAX_LSN_eq fresh_image seg_wf_def)
  from written_put [OF this, of 64 0 ?F] sz
  have "written crc created u64_max [] (frame crc (lsn_of (u64_max + length [])) p
      @ zeros (SEGMENT_SIZE - 64 - framed_size (length p))) (put_at 64 ?F ?f)" by simp
  from written_join [OF this] assms show ?thesis
    by (simp add: write_record_at_def encode_into_eq MAX_LSN_eq MAX_RECORD_SIZE_def)
qed

lemma next_off_eq: "next_off crc off p = off + framed_size (length p)"
  by (simp add: next_off_def encode_into_eq)

lemma max_then_sentinel_passes: "v71_max_record_then_sentinel_is_clean crc created"
proof -
  let ?f = "write_record_at crc 64 MAX_LSN (ascii ''last'') (disk_file (fresh_segment crc created MAX_LSN SEGMENT_SIZE))"
  have w: "written crc created u64_max [ascii ''last''] (zeros (SEGMENT_SIZE - 64 - framed_size 4)) ?f"
    using max_written [of "ascii ''last''" crc created] by (simp add: framed_eval)
  have 1: "run_recovery crc ?f MAX_LSN act = (Inr \<lparr>max_lsn = MAX_LSN, rec_write_offset = 64 + framed_size 4,
      rec_tail_state = Clean\<rparr>, ?f)" for act
    using run_recovery_clean [OF w, of act] by (simp add: MAX_LSN_eq SEGMENT_SIZE_def size_eval)
  let ?ps = "[ascii ''a'', ascii ''b'']" and ?n = "u64_max - 1"
  obtain g where g: "write_dense crc (disk_file (fresh_segment crc created (lsn_of ?n) SEGMENT_SIZE)) (lsn_of ?n) ?ps
      = (g, 64 + frames_size ?ps)"
    "written crc created ?n ?ps (zeros (SEGMENT_SIZE - 64 - frames_size ?ps)) g"
    by (rule written_dense [of ?n ?ps crc created])
      (simp_all add: u64_max_def SEGMENT_SIZE_def MAX_RECORD_SIZE_def size_eval)
  have "?n + length ?ps - 1 = u64_max" using u64_max_pos by simp
  then have 2: "run_recovery crc g (lsn_of ?n) act = (Inr \<lparr>max_lsn = MAX_LSN, rec_write_offset = 64 + frames_size ?ps,
      rec_tail_state = Clean\<rparr>, g)" for act
    using run_recovery_clean [OF g(2), of act] by (simp only: MAX_LSN_eq) (simp add: SEGMENT_SIZE_def size_eval)
  show ?thesis
    unfolding v71_max_record_then_sentinel_is_clean_def new_segment_eq option.case Let_def MAX_LSN_eq(2)
    using g(1) by (simp add: 1 [simplified] 2 [simplified] next_off_eq framed_eval)
qed

text \<open>Bytes after the last LSN.\<close>

lemma after_max:
  assumes "length p \<le> 20" "length bs + 200 \<le> SEGMENT_SIZE"
  shows "written crc created u64_max [p]
      (bs @ zeros (SEGMENT_SIZE - 64 - framed_size (length p) - length bs))
      (put_at (64 + framed_size (length p)) bs
        (write_record_at crc 64 MAX_LSN p (disk_file (fresh_segment crc created MAX_LSN SEGMENT_SIZE))))"
proof -
  have "written crc created u64_max [p] ([] @ zeros (SEGMENT_SIZE - 64 - framed_size (length p)))
    (write_record_at crc 64 MAX_LSN p (disk_file (fresh_segment crc created MAX_LSN SEGMENT_SIZE)))"
    using max_written [OF assms(1)] by simp
  from written_put [OF this, of _ 0 bs] show ?thesis
    using framed_size_bounds(2) [of "length p"] assms by simp
qed

lemma full_is_corruption:
  assumes "written crc created u64_max [p] r f" "decode crc r MAX_RECORD_SIZE \<noteq> Sentinel" "20 \<le> length r"
  shows "run_recovery crc f MAX_LSN act =
    (Inl (Corruption MAX_LSN (64 + framed_size (length p)) ''data after the last LSN (u64::MAX)''), f)"
proof -
  have "64 + frames_size [p] + 20 \<le> SEGMENT_SIZE" using assms(1,3) by (simp add: written_def)
  from run_recovery_full [OF assms(1) _ this assms(2), of act] assms(3) show ?thesis
    by (simp add: MAX_LSN_eq)
qed

lemma read_written:
  assumes "written crc created n ps r f" "off = 64 + frames_size ps + j" "j + k \<le> length r"
  shows "read_exact_at f off k = Inr (window j (j + k) r)"
proof -
  let ?pre = "encode_header crc (lsn_of n) created @ frames crc n ps"
  have fd: "fdata f = ?pre @ r" "healthy f" using assms(1) by (simp_all add: written_def seg_image_def)
  have "length ?pre = 64 + frames_size ps" by simp
  then have "window off (off + k) (fdata f) = window j (j + k) r"
    unfolding fd(1) using assms(2) by (subst window_append_right) simp_all
  with fd(2) assms(3) show ?thesis by (simp add: read_exact_at_def)
qed

lemma duplicate_max_passes: "v71_duplicate_max_record_is_fatal_corruption crc created"
proof -
  let ?F = "frame crc MAX_LSN (ascii ''duplicate'')" and ?x = "64 + framed_size 5"
  let ?f = "write_record_at crc ?x MAX_LSN (ascii ''duplicate'')
    (write_record_at crc 64 MAX_LSN (ascii ''first'') (disk_file (fresh_segment crc created MAX_LSN SEGMENT_SIZE)))"
  have lF: "length ?F = 32" by (simp add: size_eval)
  have w: "written crc created u64_max [ascii ''first''] (?F @ zeros (SEGMENT_SIZE - 64 - framed_size 5 - 32)) ?f"
    using after_max [of "ascii ''first''" ?F crc created] lF
    by (simp add: write_record_at_def encode_into_eq SEGMENT_SIZE_def framed_eval)
  have "decode crc (?F @ zeros (SEGMENT_SIZE - 64 - framed_size 5 - 32)) MAX_RECORD_SIZE
      = Record MAX_LSN (ascii ''duplicate'') (framed_size (length (ascii ''duplicate'')))"
    by (rule decode_frame) (simp_all add: MAX_RECORD_SIZE_def u32_max_def)
  with full_is_corruption [OF w] lF have r: "run_recovery crc ?f MAX_LSN act =
      (Inl (Corruption MAX_LSN ?x ''data after the last LSN (u64::MAX)''), ?f)" for act
    by (simp add: framed_eval)
  have "window 4 8 ?F = u32_to_le_bytes 9"
    using frame_len_field [of crc MAX_LSN "ascii ''duplicate''" "[]"] by simp
  then have "window 4 8 ?F ! 0 = 9" by (simp add: u32_to_le_bytes_def le_bytes_first)
  moreover have "window 4 8 ?F ! 0 = ?F ! 4" using lF unfolding window_def by (subst nth_take) simp_all
  ultimately have "?F ! 4 = 9" by simp
  then have "window 4 5 (?F @ zeros (SEGMENT_SIZE - 64 - framed_size 5 - 32)) = [9]"
    using lF by (simp add: window_def take_Suc hd_drop_conv_nth)
  then have "read_exact_at ?f (?x + 4) 1 = Inr [9]"
    using read_written [OF w, of "?x + 4" 4 1] lF by (simp add: framed_eval)
  then show ?thesis
    unfolding v71_duplicate_max_record_is_fatal_corruption_def new_segment_eq option.case Let_def next_off_eq
    by (simp add: r [unfolded framed_eval, simplified] is_corruption_at_def framed_eval)
qed

lemma wrapped_max_passes: "v71_wrapped_lsn_after_max_is_fatal_corruption crc created"
proof -
  let ?F = "frame crc (Lsn 1) (ascii ''wrapped'')"
  have lF: "length ?F = 32" by (simp add: size_eval)
  note w = after_max [of "ascii ''x''" ?F crc created]
  have "decode crc (?F @ r) MAX_RECORD_SIZE = Record (Lsn 1) (ascii ''wrapped'') (framed_size (length (ascii ''wrapped'')))" for r
    by (rule decode_frame) (simp_all add: MAX_RECORD_SIZE_def u32_max_def)
  with full_is_corruption [OF w, of True] lF show ?thesis
    unfolding v71_wrapped_lsn_after_max_is_fatal_corruption_def new_segment_eq option.case Let_def
    by (simp add: write_record_at_def encode_into_eq next_off_eq framed_eval SEGMENT_SIZE_def)
qed

lemma garbage_after_max_passes: "v71_garbage_after_max_is_fatal_corruption_not_torn_tail crc created"
proof -
  let ?G = "replicate 48 (0xAB :: u8)" and ?r = "replicate 48 (0xAB :: u8) @ zeros (SEGMENT_SIZE - 136)"
  let ?f = "put_at 88 ?G (write_record_at crc 64 MAX_LSN (ascii ''x'')
    (disk_file (fresh_segment crc created MAX_LSN SEGMENT_SIZE)))"
  have w: "written crc created u64_max [ascii ''x''] ?r ?f"
    using after_max [of "ascii ''x''" ?G crc created] by (simp add: framed_eval SEGMENT_SIZE_def)
  have "?G = replicate 4 0xAB @ [0xAB, 0xAB, 0xAB, 0xAB] @ replicate 40 0xAB"
    by (simp add: eval_nat_numeral)
  then have len: "window 4 8 ?r = [0xAB, 0xAB, 0xAB, 0xAB]" by (simp add: window_def)
  have nz: "\<not> all_zero (take 20 ?r)" by (simp add: all_zero_def list_all_iff)
  have d: "decode crc ?r MAX_RECORD_SIZE = Invalid LengthTooLarge"
    unfolding decode_eq Let_def len using nz
    by (simp add: u32_from_le_bytes_def MAX_RECORD_SIZE_def)
  have r: "run_recovery crc ?f MAX_LSN act =
      (Inl (Corruption MAX_LSN 88 ''data after the last LSN (u64::MAX)''), ?f)" for act
    using full_is_corruption [OF w] d by (simp add: framed_eval)
  have "read_exact_at ?f 88 48 = Inr ?G"
    using read_written [OF w, of 88 0 48] by (simp add: size_eval window_def)
  then show ?thesis
    unfolding v71_garbage_after_max_is_fatal_corruption_not_torn_tail_def new_segment_eq option.case Let_def
    by (simp add: next_off_eq framed_eval r [simplified] is_corruption_at_def)
qed

lemma torn_max_passes:
  assumes "detects_byte crc"
  shows "v71_torn_max_record_itself_is_still_a_torn_tail crc created"
proof -
  let ?n = "u64_max - 1" and ?p = "ascii ''torn-max-record''"
  let ?T = "flip_at 0 0xFF (frame crc MAX_LSN ?p)"
  obtain g where g: "write_dense crc (disk_file (fresh_segment crc created (lsn_of ?n) SEGMENT_SIZE)) (lsn_of ?n) [ascii ''ok'']
      = (g, 64 + frames_size [ascii ''ok''])"
    "written crc created ?n [ascii ''ok''] (zeros (SEGMENT_SIZE - 64 - frames_size [ascii ''ok''])) g"
    by (rule written_dense [of ?n "[ascii ''ok'']" crc created])
      (simp_all add: u64_max_def SEGMENT_SIZE_def MAX_RECORD_SIZE_def size_eval)
  have z: "frames_size [ascii ''ok''] = 24" "framed_size (length ?p) = 40" by (simp_all add: size_eval)
  have "written crc created ?n [ascii ''ok''] ([] @ zeros 0 @ ?T @ zeros (SEGMENT_SIZE - 88 - 0 - length ?T)) (put_at 88 ?T g)"
    by (rule written_put) (use g(2) z in \<open>simp_all add: SEGMENT_SIZE_def\<close>)
  moreover have l: "lsn_of (?n + length [ascii ''ok'']) = MAX_LSN" using u64_max_pos by (simp add: MAX_LSN_eq)
  ultimately have w: "written crc created ?n [ascii ''ok''] (flip_at 0 0xFF (frame crc (lsn_of (?n + length [ascii ''ok''])) ?p)
      @ zeros (SEGMENT_SIZE - 88 - length ?T) @ []) (put_at 88 ?T g)" by simp
  have t: "no_type_byte ?p" by (auto simp: no_type_byte_def less_Suc_eq)
  have n: "?n + length [ascii ''ok''] \<le> u64_max" using u64_max_pos by simp
  have "run_recovery crc (put_at 88 ?T g) (lsn_of ?n) True =
      (Inr \<lparr>max_lsn = lsn_of ?n, rec_write_offset = 88, rec_tail_state = TruncatedAt (lsn_of ?n) 88\<rparr>,
       zeroed (put_at 88 ?T g) 88 SEGMENT_SIZE)"
    using recover_torn [OF assms w _ _ t n, of True] z by (simp add: MAX_RECORD_SIZE_def)
  then show ?thesis
    unfolding v71_torn_max_record_itself_is_still_a_torn_tail_def new_segment_eq option.case Let_def MAX_LSN_eq(2)
      g(1) prod.case z
    by (simp add: write_torn_at_def encode_into_eq truncated_at_def)
qed

text \<open>A file cut right after the record of LSN \<^verbatim>\<open>u64::MAX\<close>.\<close>

lemma cut_written:
  assumes "k \<le> 20"
  shows "written crc created u64_max [ascii ''x''] (zeros k) (set_len (88 + k)
    (write_record_at crc 64 MAX_LSN (ascii ''x'') (disk_file (fresh_segment crc created MAX_LSN SEGMENT_SIZE))))"
proof -
  have "written crc created u64_max [ascii ''x''] (zeros (SEGMENT_SIZE - 88))
    (write_record_at crc 64 MAX_LSN (ascii ''x'') (disk_file (fresh_segment crc created MAX_LSN SEGMENT_SIZE)))"
    using max_written [of "ascii ''x''" crc created] by (simp add: framed_eval)
  then show ?thesis
    using assms by (simp add: written_def seg_image_def framed_eval SEGMENT_SIZE_def)
qed

lemma short_tail_incomplete: "length r < 20 \<Longrightarrow> decode crc r mx = Incomplete"
  by (simp add: decode_eq)

lemma cut_zero_tail:
  assumes "k < 20"
  shows "\<And>act. run_recovery crc (set_len (88 + k)
      (write_record_at crc 64 MAX_LSN (ascii ''x'') (disk_file (fresh_segment crc created MAX_LSN SEGMENT_SIZE)))) MAX_LSN act =
    (if act then
       (Inr \<lparr>max_lsn = MAX_LSN, rec_write_offset = 88, rec_tail_state = TruncatedAt MAX_LSN 88\<rparr>,
        zeroed (set_len (88 + k) (write_record_at crc 64 MAX_LSN (ascii ''x'')
          (disk_file (fresh_segment crc created MAX_LSN SEGMENT_SIZE)))) 88 SEGMENT_SIZE)
     else (Inl (Corruption MAX_LSN 88 ''data after the last LSN (u64::MAX)''), set_len (88 + k)
      (write_record_at crc 64 MAX_LSN (ascii ''x'') (disk_file (fresh_segment crc created MAX_LSN SEGMENT_SIZE)))))"
    (is "\<And>act. run_recovery crc ?f MAX_LSN act = ?r act")
  and "\<exists>g. run_recovery crc (zeroed (set_len (88 + k) (write_record_at crc 64 MAX_LSN (ascii ''x'')
          (disk_file (fresh_segment crc created MAX_LSN SEGMENT_SIZE)))) 88 SEGMENT_SIZE) MAX_LSN True
       = (Inr \<lparr>max_lsn = MAX_LSN, rec_write_offset = 88, rec_tail_state = Clean\<rparr>, g)"
proof -
  have w: "written crc created u64_max [ascii ''x''] (zeros k) ?f" by (rule cut_written) (use assms in simp)
  have d: "decode crc (zeros k) MAX_RECORD_SIZE = Incomplete" by (rule short_tail_incomplete) (use assms in simp)
  show r: "run_recovery crc ?f MAX_LSN act = ?r act" for act
    using run_recovery_full [OF w, of act] d assms
    by (simp add: MAX_LSN_eq framed_eval SEGMENT_SIZE_def)
  show "\<exists>g. run_recovery crc (zeroed ?f 88 SEGMENT_SIZE) MAX_LSN True
       = (Inr \<lparr>max_lsn = MAX_LSN, rec_write_offset = 88, rec_tail_state = Clean\<rparr>, g)"
    using run_recovery_again [OF w, of _ _ True] r [of True] by (simp add: MAX_LSN_eq)
qed

lemma zero_tail_after_max_passes: "v71_physically_truncated_zero_tail_after_max_is_a_torn_tail crc created"
proof -
  let ?f = "\<lambda>k. set_len (88 + k) (write_record_at crc 64 MAX_LSN (ascii ''x'')
    (disk_file (fresh_segment crc created MAX_LSN SEGMENT_SIZE)))"
  have x: "next_off crc 64 (ascii ''x'') = 88" by (simp add: next_off_eq framed_eval)
  have one: "(let (res, f') = run_recovery crc (?f k) MAX_LSN is_active
      in if is_active then
           (case res of
              Inl e \<Rightarrow> False
            | Inr rec \<Rightarrow>
                max_lsn rec = MAX_LSN \<and> rec_write_offset rec = 88 \<and> truncated_at (rec_tail_state rec) 88
                \<and> (case fst (run_recovery crc f' MAX_LSN True) of
                     Inl e \<Rightarrow> False
                   | Inr again \<Rightarrow> (max_lsn again, rec_tail_state again) = (MAX_LSN, Clean)))
         else (case res of Inl (Corruption s off det) \<Rightarrow> off = 88 | _ \<Rightarrow> False))" if "k < 20" for k is_active
    using cut_zero_tail(2) [OF that, of crc created]
    by (auto simp only: cut_zero_tail(1) [OF that] Let_def prod.case if_True if_False sum.case wal_error.case
        segment_recovery.simps truncated_at_def tail_state.case fst_conv split: if_splits)
  show ?thesis
    unfolding v71_physically_truncated_zero_tail_after_max_is_a_torn_tail_def new_segment_eq option.case x
      list_all_iff Let_def HEADER_SIZE_def
    by (intro ballI one [unfolded Let_def]) auto
qed

lemma nonzero_tail_after_max_passes: "v71_physically_truncated_nonzero_tail_after_max_is_corruption crc created"
proof -
  let ?f = "set_len 94 (write_record_at crc 64 MAX_LSN (ascii ''x'')
    (disk_file (fresh_segment crc created MAX_LSN SEGMENT_SIZE)))"
  have x: "next_off crc 64 (ascii ''x'') = 88" by (simp add: next_off_eq framed_eval)
  have "written crc created u64_max [ascii ''x''] (zeros 6) ?f"
    using cut_written [of 6 crc created] by simp
  from written_byte [OF this, of 93 5 "0x42"]
  have w: "written crc created u64_max [ascii ''x''] ((zeros 6)[5 := 0x42]) (put_at 93 [0x42] ?f)"
    by (simp add: framed_eval)
  let ?r = "(zeros 6 :: bytes)[5 := 0x42]"
  have nz: "\<not> all_zero ?r" using all_zero_nth [of ?r 5] by auto
  have d: "decode crc ?r MAX_RECORD_SIZE = Incomplete" by (rule short_tail_incomplete) simp
  have "run_recovery crc (put_at 93 [0x42] ?f) MAX_LSN True =
      (Inl (Corruption MAX_LSN 88 ''data after the last LSN (u64::MAX)''), put_at 93 [0x42] ?f)"
    using run_recovery_full [OF w, of True] d nz
    by (simp add: MAX_LSN_eq framed_eval SEGMENT_SIZE_def)
  then show ?thesis
    unfolding v71_physically_truncated_nonzero_tail_after_max_is_corruption_def new_segment_eq option.case HEADER_SIZE_def x Let_def
    by simp
qed

section \<open>All of them\<close>

definition recovery_tests :: "(bytes \<Rightarrow> u32) \<Rightarrow> u64 \<Rightarrow> bool" where
  "recovery_tests crc created \<longleftrightarrow>
     empty_active_segment_is_clean_with_base_minus_one crc created
     \<and> clean_run_recovers_all_records_without_zeroing crc created
     \<and> corrupt_last_record_is_a_torn_tail_and_is_zeroed crc created
     \<and> corrupt_middle_acked_record_is_fatal_tornmidlog crc created
     \<and> sealed_segment_invalid_record_is_fatal_corruption crc created
     \<and> sealed_torn_last_record_is_also_fatal crc created
     \<and> recovery_is_idempotent_after_torn_tail crc created
     \<and> truncated_file_below_segment_size_recovers_without_panic crc created
     \<and> zeroing_prevents_resurrection_of_stale_valid_record crc created
     \<and> forward_scan_just_within_bound_is_fatal_tornmidlog crc created
     \<and> forward_scan_just_beyond_bound_is_torn_tail crc created
     \<and> unknown_rec_type_at_tail_is_treated_as_torn_tail crc created
     \<and> rec_type_zeroed_interior_is_fatal_tornmidlog crc created
     \<and> rec_type_zeroed_at_tail_is_torn_tail_and_zeroed crc created"

definition exhaustion_tests :: "(bytes \<Rightarrow> u32) \<Rightarrow> u64 \<Rightarrow> bool" where
  "exhaustion_tests crc created \<longleftrightarrow>
     v71_max_record_then_sentinel_is_clean crc created
     \<and> v71_duplicate_max_record_is_fatal_corruption crc created
     \<and> v71_wrapped_lsn_after_max_is_fatal_corruption crc created
     \<and> v71_garbage_after_max_is_fatal_corruption_not_torn_tail crc created
     \<and> v71_torn_max_record_itself_is_still_a_torn_tail crc created
     \<and> v71_physically_truncated_zero_tail_after_max_is_a_torn_tail crc created
     \<and> v71_physically_truncated_nonzero_tail_after_max_is_corruption crc created"

text \<open>C37. Every modelled unit test of recovery passes with CRC-32C, whenever the segments are
  created: clean runs, torn tails and their zeroing, damage inside the log and in sealed segments,
  both sides of the forward scan's bound, stale records, and the rules at LSN \<^verbatim>\<open>u64::MAX\<close>.\<close>

theorem recovery_tests_pass: "recovery_tests castagnoli created \<and> exhaustion_tests castagnoli created"
  unfolding recovery_tests_def exhaustion_tests_def
  by (intro conjI empty_active_passes clean_run_passes truncated_file_passes unknown_tail_passes
      corrupt_last_passes [OF castagnoli_detects] corrupt_middle_passes [OF castagnoli_detects]
      resurrection_passes [OF castagnoli_detects] within_bound_passes [OF castagnoli_detects]
      beyond_bound_passes [OF castagnoli_detects] zeroed_type_interior_passes [OF castagnoli_detects]
      zeroed_type_tail_passes [OF castagnoli_detects] max_then_sentinel_passes duplicate_max_passes
      wrapped_max_passes garbage_after_max_passes torn_max_passes [OF castagnoli_detects]
      zero_tail_after_max_passes nonzero_tail_after_max_passes)

end
