(* ===== verification/Wal_Handle_Tests.thy ===== *)
theory Wal_Handle_Tests
  imports Wal_Shapes Wal_Recovery_Tests "HOL-Library.List_Lexorder" "HOL-Library.Char_ord"
begin

text \<open>
  The unit tests of \<^verbatim>\<open>src/wal.rs\<close> that work on logs the handle itself has written, as predicates:
  a test holds when no \<^verbatim>\<open>unwrap\<close> of it meets an error and every assertion of it is true. The
  combinators take the rest of the test as their last argument; a handle that goes out of
  scope is dropped with \<open>drop_handle\<close>. They are proved with the laws of \<open>Wal_Shapes\<close>.
\<close>

section \<open>Calls with \<^verbatim>\<open>unwrap\<close>\<close>

definition with_open ::
    "('o wal \<times> recovery_report) result \<times> disk \<Rightarrow> ('o wal \<Rightarrow> recovery_report \<Rightarrow> disk \<Rightarrow> bool) \<Rightarrow> bool" where
  "with_open r k = (case r of (Inr (w, rep), d) \<Rightarrow> k w rep d | (Inl e, d) \<Rightarrow> False)"

definition with_append :: "(bytes \<Rightarrow> u32) \<Rightarrow> bytes \<Rightarrow> 'o wal \<Rightarrow> (lsn \<Rightarrow> 'o wal \<Rightarrow> bool) \<Rightarrow> bool" where
  "with_append crc p w k = (case wal_append crc p w of (Inr l, w') \<Rightarrow> k l w' | (Inl e, w') \<Rightarrow> False)"

fun append_each :: "(bytes \<Rightarrow> u32) \<Rightarrow> bytes list \<Rightarrow> 'o wal \<Rightarrow> ('o wal \<Rightarrow> bool) \<Rightarrow> bool" where
  "append_each crc [] w k = k w"
| "append_each crc (p # ps) w k = with_append crc p w (\<lambda>l w'. append_each crc ps w' k)"

definition with_commit :: "lsn result \<times> 'o wal \<times> disk \<Rightarrow> (lsn \<Rightarrow> 'o wal \<Rightarrow> disk \<Rightarrow> bool) \<Rightarrow> bool" where
  "with_commit r k = (case r of (Inr l, w, d) \<Rightarrow> k l w d | (Inl e, w, d) \<Rightarrow> False)"

definition with_checkpoint :: "unit result \<times> 'o wal \<times> disk \<Rightarrow> ('o wal \<Rightarrow> disk \<Rightarrow> bool) \<Rightarrow> bool" where
  "with_checkpoint r k = (case r of (Inr u, w, d) \<Rightarrow> k w d | (Inl e, w, d) \<Rightarrow> False)"

text \<open>The records a reader gives, one check for each, and then the end of the log.\<close>

fun next_all :: "(bytes \<Rightarrow> u32) \<Rightarrow> reader \<Rightarrow> disk \<Rightarrow> (lsn \<Rightarrow> bytes \<Rightarrow> bool) list \<Rightarrow> bool" where
  "next_all crc rd d [] = (fst (reader_next crc rd d) = None)"
| "next_all crc rd d (check # checks) =
     (case reader_next crc rd d of
        (Some (Inr (l, p)), rd', d') \<Rightarrow> check l p \<and> next_all crc rd' d' checks
      | _ \<Rightarrow> False)"

definition reads :: "(bytes \<Rightarrow> u32) \<Rightarrow> lsn \<Rightarrow> 'o wal \<Rightarrow> disk \<Rightarrow> (lsn \<Rightarrow> bytes \<Rightarrow> bool) list \<Rightarrow> bool" where
  "reads crc from w d checks =
     (case reader_from from w d of (Inr rd, d') \<Rightarrow> next_all crc rd d' checks | (Inl e, d') \<Rightarrow> False)"

definition rec :: "u64 \<Rightarrow> bytes \<Rightarrow> lsn \<Rightarrow> bytes \<Rightarrow> bool" where
  "rec n payload l p \<longleftrightarrow> l = Lsn n \<and> p = payload"

definition file_exists :: "disk \<Rightarrow> string \<Rightarrow> bool" where
  "file_exists d n \<longleftrightarrow> map_of (entries d) n \<noteq> None"

text \<open>The helpers of the tests.\<close>

definition test_cfg :: wal_config where
  "test_cfg = \<lparr>cfg_segment_size = 64 * 1024, cfg_max_record_size = 4096\<rparr>"

definition tiny_cfg :: wal_config where
  "tiny_cfg = \<lparr>cfg_segment_size = 512, cfg_max_record_size = 256\<rparr>"

definition wal_file_names :: "disk \<Rightarrow> string list" where
  "wal_file_names d = sort (filter (\<lambda>n. suffix ''.wal'' n) (map fst (entries d)))"

definition replay_pairs :: "(bytes \<Rightarrow> u32) \<Rightarrow> 'o wal \<Rightarrow> disk \<Rightarrow> lsn \<Rightarrow> (u64 \<times> bytes) list option" where
  "replay_pairs crc w d from =
     (case reader_from from w d of
        (Inr rd, d') \<Rightarrow>
          (case drain crc rd d' of
             (rs, None) \<Rightarrow> Some (map (\<lambda>(l, p). (lsn_val l, p)) rs)
           | (rs, Some e) \<Rightarrow> None)
      | (Inl e, d') \<Rightarrow> None)"

definition three_segment_log :: "(bytes \<Rightarrow> u32) \<Rightarrow> (lsn \<Rightarrow> u64) \<Rightarrow> disk \<Rightarrow> (bytes list \<Rightarrow> disk \<Rightarrow> bool) \<Rightarrow> bool" where
  "three_segment_log crc clock d k \<longleftrightarrow>
     with_open (open_wal crc clock tiny_cfg d) (\<lambda>w report d.
       let payloads = map (\<lambda>i. replicate 200 i) [1, 2, 3, 4, 5] in
       append_each crc payloads w (\<lambda>w.
         with_commit (commit crc clock null_on_durable w d) (\<lambda>l w d.
           l = Lsn 5 \<and> segments w = [Lsn 1, Lsn 3, Lsn 5] \<and> k payloads (drop_handle d))))"

definition assert_seek :: "(bytes \<Rightarrow> u32) \<Rightarrow> 'o wal \<Rightarrow> disk \<Rightarrow> (u64 \<times> bytes) list \<Rightarrow> u64 \<Rightarrow> lsn \<Rightarrow> bool" where
  "assert_seek crc w d all from want_base \<longleftrightarrow>
     (case reader_from (Lsn from) w d of
        (Inr r, d') \<Rightarrow> open_segment_base r = Some want_base
      | (Inl e, d') \<Rightarrow> False)
     \<and> (let start = max from 1; want = filter (\<lambda>x. start \<le> fst x) all in
        replay_pairs crc w d (Lsn from) = Some want)"

section \<open>Opening, appending, committing\<close>

definition open_rejects_config_violating_section_5_3 :: "(bytes \<Rightarrow> u32) \<Rightarrow> (lsn \<Rightarrow> u64) \<Rightarrow> bool" where
  "open_rejects_config_violating_section_5_3 crc clock \<longleftrightarrow>
     (case open_wal crc clock \<lparr>cfg_segment_size = 100, cfg_max_record_size = 100\<rparr> tempdir of (r, d) \<Rightarrow>
        r = Inl InvalidConfig
        \<and> (case open_wal crc clock \<lparr>cfg_segment_size = 90, cfg_max_record_size = 0\<rparr> d of (r, d) \<Rightarrow>
             r = Inl InvalidConfig
             \<and> fst (open_wal crc clock \<lparr>cfg_segment_size = 0, cfg_max_record_size = 0\<rparr> d) = Inl InvalidConfig))"

definition cold_start_creates_first_segment :: "(bytes \<Rightarrow> u32) \<Rightarrow> (lsn \<Rightarrow> u64) \<Rightarrow> bool" where
  "cold_start_creates_first_segment crc clock \<longleftrightarrow>
     with_open (open_wal crc clock test_cfg tempdir) (\<lambda>w report d.
       report_oldest_lsn report = Lsn 1 \<and> report_durable_lsn report = Lsn 0 \<and> report_tail_state report = Clean
       \<and> last_lsn w = Lsn 0 \<and> file_exists d ''00000000000000000001.wal'')"

definition lsn_assignment_is_monotone_dense_from_one :: "(bytes \<Rightarrow> u32) \<Rightarrow> (lsn \<Rightarrow> u64) \<Rightarrow> bool" where
  "lsn_assignment_is_monotone_dense_from_one crc clock \<longleftrightarrow>
     with_open (open_wal crc clock test_cfg tempdir) (\<lambda>w report d.
       with_append crc (ascii ''a'') w (\<lambda>l w. l = Lsn 1 \<and>
         with_append crc (ascii ''b'') w (\<lambda>l w. l = Lsn 2 \<and>
           with_append crc (ascii ''c'') w (\<lambda>l w. l = Lsn 3 \<and>
             last_lsn w = Lsn 3 \<and> durable_lsn w = Lsn 0))))"

definition append_rejects_oversized_payload :: "(bytes \<Rightarrow> u32) \<Rightarrow> (lsn \<Rightarrow> u64) \<Rightarrow> bool" where
  "append_rejects_oversized_payload crc clock \<longleftrightarrow>
     with_open (open_wal crc clock test_cfg tempdir) (\<lambda>w report d.
       case wal_append crc (replicate (unat (cfg_max_record_size test_cfg) + 1) 0) w of (r, w) \<Rightarrow>
         r = Inl RecordTooLarge
         \<and> with_append crc (replicate (unat (cfg_max_record_size test_cfg)) 0) w (\<lambda>l w. True))"

definition max_sized_record_fits_segment_and_round_trips :: "(bytes \<Rightarrow> u32) \<Rightarrow> (lsn \<Rightarrow> u64) \<Rightarrow> bool" where
  "max_sized_record_fits_segment_and_round_trips crc clock \<longleftrightarrow>
     (let c = \<lparr>cfg_segment_size = 8 * 1024, cfg_max_record_size = 8 * 1024 - 91\<rparr>;
          payload = replicate (unat (cfg_max_record_size c)) 0xAB in
      with_open (open_wal crc clock c tempdir) (\<lambda>w report d.
        with_append crc payload w (\<lambda>l w.
          with_commit (commit crc clock null_on_durable w d) (\<lambda>l w d.
            l = Lsn 1 \<and> reads crc (Lsn 1) w d [rec 1 payload]))))"

definition commit_then_read_back :: "(bytes \<Rightarrow> u32) \<Rightarrow> (lsn \<Rightarrow> u64) \<Rightarrow> bool" where
  "commit_then_read_back crc clock \<longleftrightarrow>
     with_open (open_wal crc clock test_cfg tempdir) (\<lambda>w report d.
       append_each crc [ascii ''hello'', ascii ''world''] w (\<lambda>w.
         with_commit (commit crc clock null_on_durable w d) (\<lambda>l w d.
           l = Lsn 2 \<and> durable_lsn w = Lsn 2
           \<and> reads crc (Lsn 1) w d [rec 1 (ascii ''hello''), rec 2 (ascii ''world'')])))"

definition empty_commit_is_a_noop :: "(bytes \<Rightarrow> u32) \<Rightarrow> (lsn \<Rightarrow> u64) \<Rightarrow> bool" where
  "empty_commit_is_a_noop crc clock \<longleftrightarrow>
     with_open (open_wal crc clock test_cfg tempdir) (\<lambda>w report d.
       with_commit (commit crc clock null_on_durable w d) (\<lambda>l w d. l = Lsn 0))"

definition reopen_recovers_committed_records :: "(bytes \<Rightarrow> u32) \<Rightarrow> (lsn \<Rightarrow> u64) \<Rightarrow> bool" where
  "reopen_recovers_committed_records crc clock \<longleftrightarrow>
     with_open (open_wal crc clock test_cfg tempdir) (\<lambda>w report d.
       append_each crc [ascii ''one'', ascii ''two''] w (\<lambda>w.
         with_commit (commit crc clock null_on_durable w d) (\<lambda>l w d.
           with_open (open_wal crc clock test_cfg (drop_handle d)) (\<lambda>w report d.
             report_durable_lsn report = Lsn 2 \<and> report_oldest_lsn report = Lsn 1 \<and> last_lsn w = Lsn 2
             \<and> reads crc (Lsn 1) w d [rec 1 (ascii ''one''), rec 2 (ascii ''two'')]))))"

definition append_after_reopen_resumes_write_offset :: "(bytes \<Rightarrow> u32) \<Rightarrow> (lsn \<Rightarrow> u64) \<Rightarrow> bool" where
  "append_after_reopen_resumes_write_offset crc clock \<longleftrightarrow>
     with_open (open_wal crc clock test_cfg tempdir) (\<lambda>w report d.
       append_each crc [ascii ''a'', ascii ''b'', ascii ''c''] w (\<lambda>w.
         with_commit (commit crc clock null_on_durable w d) (\<lambda>l w d.
           with_open (open_wal crc clock test_cfg (drop_handle d)) (\<lambda>w report d.
             report_durable_lsn report = Lsn 3 \<and>
             with_append crc (ascii ''d'') w (\<lambda>l w. l = Lsn 4 \<and>
               with_append crc (ascii ''e'') w (\<lambda>l w. l = Lsn 5 \<and>
                 with_commit (commit crc clock null_on_durable w d) (\<lambda>l w d. l = Lsn 5 \<and>
                   with_open (open_wal crc clock test_cfg (drop_handle d)) (\<lambda>w report d.
                     report_durable_lsn report = Lsn 5
                     \<and> reads crc (Lsn 0) w d
                         [rec 1 (ascii ''a''), rec 2 (ascii ''b''), rec 3 (ascii ''c''),
                          rec 4 (ascii ''d''), rec 5 (ascii ''e'')]))))))))"

section \<open>Splitting and rolling\<close>

definition commit_splits_batch_across_segments_on_whole_records :: "(bytes \<Rightarrow> u32) \<Rightarrow> (lsn \<Rightarrow> u64) \<Rightarrow> bool" where
  "commit_splits_batch_across_segments_on_whole_records crc clock \<longleftrightarrow>
     with_open (open_wal crc clock tiny_cfg tempdir) (\<lambda>w report d.
       let payload = replicate 200 0xCD in
       append_each crc [payload, payload, payload, payload, payload] w (\<lambda>w.
         with_commit (commit crc clock null_on_durable w d) (\<lambda>l w d.
           l = Lsn 5 \<and> durable_lsn w = Lsn 5 \<and> segments w = [Lsn 1, Lsn 3, Lsn 5]
           \<and> list_all (\<lambda>b. file_exists d (filename_for (Lsn b))) [1, 3, 5]
           \<and> reads crc (Lsn 0) w d (map (\<lambda>i. rec i payload) [1, 2, 3, 4, 5]))))"

text \<open>The observers of the tests push what they hear.\<close>

definition push_u64 :: "lsn \<Rightarrow> u64 list \<Rightarrow> u64 list" where
  "push_u64 l seen = seen @ [lsn_val l]"

definition push_lsn :: "lsn \<Rightarrow> lsn list \<Rightarrow> lsn list" where
  "push_lsn l seen = seen @ [l]"

definition commit_split_advances_durable_lsn_per_segment :: "(bytes \<Rightarrow> u32) \<Rightarrow> (lsn \<Rightarrow> u64) \<Rightarrow> bool" where
  "commit_split_advances_durable_lsn_per_segment crc clock \<longleftrightarrow>
     with_open (open_with crc clock tiny_cfg [] tempdir) (\<lambda>w report d.
       append_each crc (replicate 5 (replicate 200 0)) w (\<lambda>w.
         with_commit (commit crc clock push_u64 w d) (\<lambda>l w d.
           l = Lsn 5 \<and> observer w = [2, 4, 5])))"

definition commit_handles_empty_prefix_seal_and_roll :: "(bytes \<Rightarrow> u32) \<Rightarrow> (lsn \<Rightarrow> u64) \<Rightarrow> bool" where
  "commit_handles_empty_prefix_seal_and_roll crc clock \<longleftrightarrow>
     with_open (open_wal crc clock tiny_cfg tempdir) (\<lambda>w report d.
       with_append crc (replicate 200 0) w (\<lambda>l w.
         with_commit (commit crc clock null_on_durable w d) (\<lambda>l w d. l = Lsn 1 \<and>
           with_append crc (replicate 256 1) w (\<lambda>l w.
             with_commit (commit crc clock null_on_durable w d) (\<lambda>l w d.
               l = Lsn 2 \<and> segments w = [Lsn 1, Lsn 2]
               \<and> reads crc (Lsn 2) w d [\<lambda>l got. l = Lsn 2 \<and> length got = 256])))))"

definition append_after_reopen_resumes_across_a_roll :: "(bytes \<Rightarrow> u32) \<Rightarrow> (lsn \<Rightarrow> u64) \<Rightarrow> bool" where
  "append_after_reopen_resumes_across_a_roll crc clock \<longleftrightarrow>
     (let payload = replicate 200 7 in
      with_open (open_wal crc clock tiny_cfg tempdir) (\<lambda>w report d.
        append_each crc [payload, payload, payload] w (\<lambda>w.
          with_commit (commit crc clock null_on_durable w d) (\<lambda>l w d. l = Lsn 3 \<and>
            with_open (open_wal crc clock tiny_cfg (drop_handle d)) (\<lambda>w report d.
              report_durable_lsn report = Lsn 3 \<and>
              append_each crc [payload, payload] w (\<lambda>w.
                with_commit (commit crc clock null_on_durable w d) (\<lambda>l w d. l = Lsn 5 \<and>
                  with_open (open_wal crc clock tiny_cfg (drop_handle d)) (\<lambda>w report d.
                    report_durable_lsn report = Lsn 5 \<and> segments w = [Lsn 1, Lsn 3, Lsn 5]
                    \<and> reads crc (Lsn 0) w d (map (\<lambda>i l got. l = Lsn i) [1, 2, 3, 4, 5])))))))))"

definition second_open_is_locked :: "(bytes \<Rightarrow> u32) \<Rightarrow> (lsn \<Rightarrow> u64) \<Rightarrow> bool" where
  "second_open_is_locked crc clock \<longleftrightarrow>
     with_open (open_wal crc clock test_cfg tempdir) (\<lambda>w report d.
       fst (open_wal crc clock test_cfg d) = Inl Locked)"

definition reader_from_skips_earlier_records :: "(bytes \<Rightarrow> u32) \<Rightarrow> (lsn \<Rightarrow> u64) \<Rightarrow> bool" where
  "reader_from_skips_earlier_records crc clock \<longleftrightarrow>
     with_open (open_wal crc clock test_cfg tempdir) (\<lambda>w report d.
       append_each crc (map (\<lambda>i. [i]) [1, 2, 3, 4, 5]) w (\<lambda>w.
         with_commit (commit crc clock null_on_durable w d) (\<lambda>l w d.
           reads crc (Lsn 3) w d [rec 3 [3], rec 4 [4], rec 5 [5]])))"

section \<open>Checkpoints\<close>

definition deletable_prefix_len_boundary_math :: bool where
  "deletable_prefix_len_boundary_math \<longleftrightarrow>
     list_all (\<lambda>(up_to, want). deletable_prefix_len [Lsn 1, Lsn 3, Lsn 6] (Lsn up_to) = want)
       [(0, 0), (1, 0), (2, 1), (3, 1), (4, 1), (5, 2), (6, 2), (1000, 2)]
     \<and> deletable_prefix_len [Lsn 1] (Lsn 0xFFFFFFFFFFFFFFFF) = 0
     \<and> deletable_prefix_len [Lsn 42] (Lsn 0xFFFFFFFFFFFFFFFF) = 0
     \<and> deletable_prefix_len [] (Lsn 0xFFFFFFFFFFFFFFFF) = 0"

definition checkpoint_deletes_superseded_sealed_segments_oldest_first :: "(bytes \<Rightarrow> u32) \<Rightarrow> (lsn \<Rightarrow> u64) \<Rightarrow> bool" where
  "checkpoint_deletes_superseded_sealed_segments_oldest_first crc clock \<longleftrightarrow>
     three_segment_log crc clock tempdir (\<lambda>payloads d.
       with_open (open_wal crc clock tiny_cfg d) (\<lambda>w report d.
         with_checkpoint (checkpoint (Lsn 2) w d) (\<lambda>w d.
           segments w = [Lsn 3, Lsn 5] \<and> oldest_lsn w = Lsn 3
           \<and> \<not> file_exists d (filename_for (Lsn 1))
           \<and> file_exists d (filename_for (Lsn 3)) \<and> file_exists d (filename_for (Lsn 5)))))"

definition checkpoint_never_deletes_the_active_segment :: "(bytes \<Rightarrow> u32) \<Rightarrow> (lsn \<Rightarrow> u64) \<Rightarrow> bool" where
  "checkpoint_never_deletes_the_active_segment crc clock \<longleftrightarrow>
     three_segment_log crc clock tempdir (\<lambda>payloads d.
       with_open (open_wal crc clock tiny_cfg d) (\<lambda>w report d.
         with_checkpoint (checkpoint (Lsn 0xFFFFFFFFFFFFFFFF) w d) (\<lambda>w d.
           segments w = [Lsn 5] \<and> oldest_lsn w = Lsn 5 \<and> durable_lsn w = Lsn 5 \<and> last_lsn w = Lsn 5)))"

definition checkpoint_boundary_is_exact :: "(bytes \<Rightarrow> u32) \<Rightarrow> (lsn \<Rightarrow> u64) \<Rightarrow> bool" where
  "checkpoint_boundary_is_exact crc clock \<longleftrightarrow>
     three_segment_log crc clock tempdir (\<lambda>payloads d.
       with_open (open_wal crc clock tiny_cfg d) (\<lambda>w report d.
         with_checkpoint (checkpoint (Lsn 1) w d) (\<lambda>w d.
           segments w = [Lsn 1, Lsn 3, Lsn 5] \<and>
           with_open (open_wal crc clock tiny_cfg (drop_handle d)) (\<lambda>w report d.
             with_checkpoint (checkpoint (Lsn 2) w d) (\<lambda>w d. segments w = [Lsn 3, Lsn 5])))))"

definition checkpoint_then_reopen_recovers_dense_suffix :: "(bytes \<Rightarrow> u32) \<Rightarrow> (lsn \<Rightarrow> u64) \<Rightarrow> bool" where
  "checkpoint_then_reopen_recovers_dense_suffix crc clock \<longleftrightarrow>
     three_segment_log crc clock tempdir (\<lambda>payloads d.
       with_open (open_wal crc clock tiny_cfg d) (\<lambda>w report d.
         with_checkpoint (checkpoint (Lsn 2) w d) (\<lambda>w d.
           with_open (open_wal crc clock tiny_cfg (drop_handle d)) (\<lambda>w report d.
             report_oldest_lsn report = Lsn 3 \<and> report_durable_lsn report = Lsn 5
             \<and> fst (reader_from (Lsn 2) w d) = Inl ContiguityViolation
             \<and> reads crc (Lsn 0) w d (map (\<lambda>i. rec i (payloads ! (unat i - 1))) [3, 4, 5])))))"

definition checkpoint_is_idempotent_and_below_oldest_is_noop :: "(bytes \<Rightarrow> u32) \<Rightarrow> (lsn \<Rightarrow> u64) \<Rightarrow> bool" where
  "checkpoint_is_idempotent_and_below_oldest_is_noop crc clock \<longleftrightarrow>
     three_segment_log crc clock tempdir (\<lambda>payloads d.
       with_open (open_wal crc clock tiny_cfg d) (\<lambda>w report d.
         with_checkpoint (checkpoint (Lsn 2) w d) (\<lambda>w d. segments w = [Lsn 3, Lsn 5] \<and>
           with_checkpoint (checkpoint (Lsn 2) w d) (\<lambda>w d. segments w = [Lsn 3, Lsn 5] \<and>
             with_checkpoint (checkpoint (Lsn 0) w d) (\<lambda>w d. segments w = [Lsn 3, Lsn 5])))))"

definition checkpoint_can_still_append_and_roll_after :: "(bytes \<Rightarrow> u32) \<Rightarrow> (lsn \<Rightarrow> u64) \<Rightarrow> bool" where
  "checkpoint_can_still_append_and_roll_after crc clock \<longleftrightarrow>
     three_segment_log crc clock tempdir (\<lambda>payloads d.
       with_open (open_wal crc clock tiny_cfg d) (\<lambda>w report d.
         with_checkpoint (checkpoint (Lsn 4) w d) (\<lambda>w d. segments w = [Lsn 5] \<and>
           append_each crc (replicate 3 (replicate 200 9)) w (\<lambda>w.
             with_commit (commit crc clock null_on_durable w d) (\<lambda>l w d.
               l = Lsn 8 \<and> reads crc (Lsn 0) w d (map (\<lambda>i l got. l = Lsn i) [5, 6, 7, 8]))))))"

definition checkpoint_on_poisoned_handle_errors_and_deletes_nothing :: "(bytes \<Rightarrow> u32) \<Rightarrow> (lsn \<Rightarrow> u64) \<Rightarrow> bool" where
  "checkpoint_on_poisoned_handle_errors_and_deletes_nothing crc clock \<longleftrightarrow>
     three_segment_log crc clock tempdir (\<lambda>payloads d.
       with_open (open_wal crc clock tiny_cfg d) (\<lambda>w report d.
         case checkpoint (Lsn 2) (w\<lparr>poisoned := True\<rparr>) d of (r, w, d) \<Rightarrow>
           r = Inl Poisoned \<and> file_exists d (filename_for (Lsn 1))))"

section \<open>Seeds, options, the retention floor\<close>

text \<open>The rejected open leaves no files.\<close>

definition v7_seed_zero_is_invalid_config :: "(bytes \<Rightarrow> u32) \<Rightarrow> (lsn \<Rightarrow> u64) \<Rightarrow> bool" where
  "v7_seed_zero_is_invalid_config crc clock \<longleftrightarrow>
     (case options_open crc clock (seed_option NONE options) test_cfg tempdir of (r, d) \<Rightarrow>
        r = Inl InvalidConfig \<and> entries d = [])
     \<and> with_open (open_wal crc clock test_cfg tempdir) (\<lambda>w report d.
         fst (options_open crc clock (seed_option (Lsn 0) options) test_cfg (drop_handle d)) = Inl InvalidConfig)"

definition v7_default_options_equal_open :: "(bytes \<Rightarrow> u32) \<Rightarrow> (lsn \<Rightarrow> u64) \<Rightarrow> bool" where
  "v7_default_options_equal_open crc clock \<longleftrightarrow>
     with_open (open_wal crc clock test_cfg tempdir) (\<lambda>wa ra a.
       with_open (options_open crc clock options test_cfg tempdir) (\<lambda>wb rb b.
         list_all (\<lambda>(w, r). report_oldest_lsn r = Lsn 1 \<and> report_durable_lsn r = Lsn 0
             \<and> report_tail_state r = Clean \<and> oldest_lsn w = Lsn 1 \<and> segments w = [Lsn 1])
           [(wa, ra), (wb, rb)]
         \<and> wal_file_names a = wal_file_names b
         \<and> with_open (options_open crc clock (seed_option (Lsn 1) options) test_cfg tempdir) (\<lambda>wc rc c.
             (report_oldest_lsn rc, report_durable_lsn rc) = (Lsn 1, Lsn 0)
             \<and> wal_file_names c = wal_file_names a)))"

definition cold_start_at :: "(bytes \<Rightarrow> u32) \<Rightarrow> (lsn \<Rightarrow> u64) \<Rightarrow> u64 \<Rightarrow> bool" where
  "cold_start_at crc clock n \<longleftrightarrow>
     with_open (options_open crc clock (seed_option (Lsn n) options) test_cfg tempdir) (\<lambda>w report d.
       report_oldest_lsn report = Lsn n \<and> report_durable_lsn report = Lsn (n - 1)
       \<and> report_tail_state report = Clean \<and> report_segments_scanned report = 1
       \<and> oldest_lsn w = Lsn n \<and> durable_lsn w = Lsn (n - 1) \<and> last_lsn w = Lsn (n - 1)
       \<and> wal_file_names d = [pad_dec 20 (unat n) @ ''.wal'']
       \<and> with_append crc (ascii ''first'') w (\<lambda>l w. l = Lsn n \<and>
           with_append crc (ascii ''second'') w (\<lambda>l w. l = Lsn (n + 1) \<and>
             with_commit (commit crc clock null_on_durable w d) (\<lambda>l w d. l = Lsn (n + 1)
               \<and> replay_pairs crc w d (Lsn 0) = Some [(n, ascii ''first''), (n + 1, ascii ''second'')]
               \<and> with_open (open_wal crc clock test_cfg (drop_handle d)) (\<lambda>w report d.
                   report_oldest_lsn report = Lsn n \<and> report_durable_lsn report = Lsn (n + 1)
                   \<and> oldest_lsn w = Lsn n
                   \<and> replay_pairs crc w d (Lsn (n + 1)) = Some [(n + 1, ascii ''second'')]
                   \<and> fst (reader_from (Lsn (n - 1)) w d) = Inl ContiguityViolation)))))"

definition v7_cold_start_at_seed :: "(bytes \<Rightarrow> u32) \<Rightarrow> (lsn \<Rightarrow> u64) \<Rightarrow> bool" where
  "v7_cold_start_at_seed crc clock \<longleftrightarrow>
     list_all (cold_start_at crc clock) [2, 1001, 2 ^ 40, 0xFFFFFFFFFFFFFFFF div 2]"

definition seed_ignored :: "(bytes \<Rightarrow> u32) \<Rightarrow> (lsn \<Rightarrow> u64) \<Rightarrow> u64 \<Rightarrow> (disk \<Rightarrow> bool) \<Rightarrow> disk \<Rightarrow> bool" where
  "seed_ignored crc clock other k d \<longleftrightarrow>
     with_open (options_open crc clock (seed_option (Lsn other) options) test_cfg d) (\<lambda>w r d.
       (report_oldest_lsn r, report_durable_lsn r) = (Lsn 500, Lsn 500) \<and> oldest_lsn w = Lsn 500
       \<and> wal_file_names d = [pad_dec 20 500 @ ''.wal''] \<and> k (drop_handle d))"

definition v7_seed_is_ignored_for_an_existing_log :: "(bytes \<Rightarrow> u32) \<Rightarrow> (lsn \<Rightarrow> u64) \<Rightarrow> bool" where
  "v7_seed_is_ignored_for_an_existing_log crc clock \<longleftrightarrow>
     with_open (options_open crc clock (seed_option (Lsn 500) options) test_cfg tempdir) (\<lambda>w report d.
       with_open (options_open crc clock (seed_option (Lsn 7) options) test_cfg (drop_handle d)) (\<lambda>w r d.
         (report_oldest_lsn r, report_durable_lsn r) = (Lsn 500, Lsn 499) \<and>
         with_append crc (ascii ''x'') w (\<lambda>l w.
           with_commit (commit crc clock null_on_durable w d) (\<lambda>l w d. l = Lsn 500 \<and>
             foldr (seed_ignored crc clock) [1, 499, 500, 501, 2 ^ 40] (\<lambda>d. True) (drop_handle d)))))
     \<and> with_open (open_wal crc clock test_cfg tempdir) (\<lambda>w report d.
         with_append crc (ascii ''a'') w (\<lambda>l w.
           with_commit (commit crc clock null_on_durable w d) (\<lambda>l w d.
             with_open (options_open crc clock (seed_option (Lsn 99) options) test_cfg (drop_handle d)) (\<lambda>w r d.
               (report_oldest_lsn r, report_durable_lsn r) = (Lsn 1, Lsn 1)))))"

definition v7_seeded_with_observer_fires_seeded_lsns :: "(bytes \<Rightarrow> u32) \<Rightarrow> (lsn \<Rightarrow> u64) \<Rightarrow> bool" where
  "v7_seeded_with_observer_fires_seeded_lsns crc clock \<longleftrightarrow>
     with_open (options_open crc clock (observer_option [] (seed_option (Lsn 1000) options)) tiny_cfg tempdir) (\<lambda>w report d.
       report_durable_lsn report = Lsn 999 \<and>
       with_append crc (replicate 200 1) w (\<lambda>l w.
         with_commit (commit crc clock push_lsn w d) (\<lambda>l w d. l = Lsn 1000 \<and>
           append_each crc (map (\<lambda>i. replicate 200 i) [2, 3, 4]) w (\<lambda>w.
             with_commit (commit crc clock push_lsn w d) (\<lambda>l w d. l = Lsn 1003
               \<and> observer w = [Lsn 1000, Lsn 1001, Lsn 1003] \<and> segments w = [Lsn 1000, Lsn 1002])))))
     \<and> with_open (options_open crc clock (seed_option (Lsn 77) (observer_option [] options)) test_cfg tempdir) (\<lambda>w report d.
         with_append crc (ascii ''y'') w (\<lambda>l w.
           with_commit (commit crc clock push_lsn w d) (\<lambda>l w d. observer w = [Lsn 77])))"

definition v7_open_with_equals_options_observer :: "(bytes \<Rightarrow> u32) \<Rightarrow> (lsn \<Rightarrow> u64) \<Rightarrow> bool" where
  "v7_open_with_equals_options_observer crc clock \<longleftrightarrow>
     with_open (open_with crc clock test_cfg () tempdir) (\<lambda>wa ra a.
       with_open (options_open crc clock (observer_option () options) test_cfg tempdir) (\<lambda>wb rb b.
         (report_oldest_lsn ra, report_durable_lsn ra) = (Lsn 1, Lsn 0)
         \<and> (report_oldest_lsn rb, report_durable_lsn rb) = (Lsn 1, Lsn 0)
         \<and> wal_file_names a = wal_file_names b))"

definition v7_oldest_lsn_tracks_report_and_checkpoint :: "(bytes \<Rightarrow> u32) \<Rightarrow> (lsn \<Rightarrow> u64) \<Rightarrow> bool" where
  "v7_oldest_lsn_tracks_report_and_checkpoint crc clock \<longleftrightarrow>
     three_segment_log crc clock tempdir (\<lambda>payloads d.
       with_open (open_wal crc clock tiny_cfg d) (\<lambda>w report d.
         oldest_lsn w = report_oldest_lsn report \<and> oldest_lsn w = Lsn 1 \<and>
         with_checkpoint (checkpoint (Lsn 1) w d) (\<lambda>w d. oldest_lsn w = Lsn 1 \<and>
           with_checkpoint (checkpoint (Lsn 2) w d) (\<lambda>w d. oldest_lsn w = Lsn 3 \<and>
             append_each crc [replicate 200 6, replicate 200 7] w (\<lambda>w.
               with_commit (commit crc clock null_on_durable w d) (\<lambda>l w d. oldest_lsn w = Lsn 3 \<and>
                 with_checkpoint (checkpoint (Lsn 6) w d) (\<lambda>w d.
                   oldest_lsn w = Lsn 7 \<and> oldest_lsn w = segments w ! 0 \<and>
                   with_open (open_wal crc clock tiny_cfg (drop_handle d)) (\<lambda>w report d.
                     report_oldest_lsn report = Lsn 7 \<and> oldest_lsn w = report_oldest_lsn report))))))))
     \<and> with_open (options_open crc clock (seed_option (Lsn 40) options) tiny_cfg tempdir) (\<lambda>w r d.
         (oldest_lsn w, report_oldest_lsn r) = (Lsn 40, Lsn 40) \<and>
         append_each crc (map (\<lambda>i. replicate 200 i) [0, 1, 2, 3, 4]) w (\<lambda>w.
           with_commit (commit crc clock null_on_durable w d) (\<lambda>l w d. l = Lsn 44 \<and>
             with_checkpoint (checkpoint (Lsn 43) w d) (\<lambda>w d. oldest_lsn w = Lsn 44))))"

section \<open>Where a reader starts\<close>

definition v7_containing_segment_idx_math :: bool where
  "v7_containing_segment_idx_math \<longleftrightarrow>
     list_all (\<lambda>(from, want). containing_segment_idx [Lsn 1, Lsn 3, Lsn 6] (Lsn from) = want)
       [(0, 0), (1, 0), (2, 0), (3, 1), (5, 1), (6, 2), (7, 2), (0xFFFFFFFFFFFFFFFF, 2)]
     \<and> containing_segment_idx [Lsn 10] (Lsn 1) = 0
     \<and> containing_segment_idx [Lsn 10] (Lsn 10) = 0
     \<and> containing_segment_idx [Lsn 10, Lsn 20] (Lsn 9) = 0
     \<and> containing_segment_idx [Lsn 10, Lsn 20] (Lsn 19) = 0
     \<and> containing_segment_idx [Lsn 10, Lsn 20] (Lsn 20) = 1"

definition v7_reader_from_opens_the_containing_segment :: "(bytes \<Rightarrow> u32) \<Rightarrow> (lsn \<Rightarrow> u64) \<Rightarrow> bool" where
  "v7_reader_from_opens_the_containing_segment crc clock \<longleftrightarrow>
     three_segment_log crc clock tempdir (\<lambda>payloads d.
       with_open (open_wal crc clock tiny_cfg d) (\<lambda>w report d.
         let all = zip [1, 2, 3, 4, 5] payloads in
         replay_pairs crc w d (Lsn 0) = Some all
         \<and> list_all (\<lambda>(from, base). assert_seek crc w d all from (Lsn base))
             [(0, 1), (1, 1), (2, 1), (3, 3), (4, 3), (5, 5), (6, 5), (1000, 5)]))"

text \<open>The appends collect what they wrote.\<close>

fun append_noting ::
    "(bytes \<Rightarrow> u32) \<Rightarrow> bytes list \<Rightarrow> 'o wal \<Rightarrow> (u64 \<times> bytes) list \<Rightarrow> ('o wal \<Rightarrow> (u64 \<times> bytes) list \<Rightarrow> bool) \<Rightarrow> bool" where
  "append_noting crc [] w all k = k w all"
| "append_noting crc (p # ps) w all k =
     with_append crc p w (\<lambda>l w'. append_noting crc ps w' (all @ [(lsn_val l, p)]) k)"

definition v7_reader_from_seeks_in_a_seeded_checkpointed_log :: "(bytes \<Rightarrow> u32) \<Rightarrow> (lsn \<Rightarrow> u64) \<Rightarrow> bool" where
  "v7_reader_from_seeks_in_a_seeded_checkpointed_log crc clock \<longleftrightarrow>
     with_open (options_open crc clock (seed_option (Lsn 100) options) tiny_cfg tempdir) (\<lambda>w report d.
       append_noting crc (map (\<lambda>i. replicate 200 i) [0, 1, 2, 3, 4, 5, 6]) w [] (\<lambda>w all.
         with_commit (commit crc clock null_on_durable w d) (\<lambda>l w d. l = Lsn 106 \<and>
           segments w = [Lsn 100, Lsn 102, Lsn 104, Lsn 106] \<and>
           with_checkpoint (checkpoint (Lsn 101) w d) (\<lambda>w d. oldest_lsn w = Lsn 102 \<and>
             (let all = filter (\<lambda>x. 102 \<le> fst x) all in
              fst (reader_from (Lsn 101) w d) = Inl ContiguityViolation
              \<and> list_all (\<lambda>(from, base). assert_seek crc w d all from (Lsn base))
                  [(0, 102), (102, 102), (103, 102), (104, 104), (105, 104), (106, 106), (107, 106)])))))"

section \<open>The last LSN\<close>

definition v71_append_at_max_is_lsn_exhausted_and_not_poisoned :: "(bytes \<Rightarrow> u32) \<Rightarrow> (lsn \<Rightarrow> u64) \<Rightarrow> bool" where
  "v71_append_at_max_is_lsn_exhausted_and_not_poisoned crc clock \<longleftrightarrow>
     with_open (options_open crc clock (seed_option (Lsn (0xFFFFFFFFFFFFFFFF - 1)) options) test_cfg tempdir) (\<lambda>w report d.
       with_append crc (ascii ''a'') w (\<lambda>l w. l = Lsn (0xFFFFFFFFFFFFFFFF - 1) \<and>
         with_commit (commit crc clock null_on_durable w d) (\<lambda>l w d.
           with_append crc (ascii ''b'') w (\<lambda>l w. l = MAX_LSN \<and>
             (let staged = length (staging w) in
              case wal_append crc (ascii ''c'') w of (r, w) \<Rightarrow>
                r = Inl LsnExhausted \<and> \<not> poisoned w \<and> last_lsn w = MAX_LSN
                \<and> durable_lsn w = Lsn (0xFFFFFFFFFFFFFFFF - 1) \<and> length (staging w) = staged
                \<and> map_option length (replay_pairs crc w d (Lsn 0)) = Some 1
                \<and> with_commit (commit crc clock null_on_durable w d) (\<lambda>l w d. l = MAX_LSN
                  \<and> replay_pairs crc w d (Lsn 0) =
                      Some [(0xFFFFFFFFFFFFFFFF - 1, ascii ''a''), (0xFFFFFFFFFFFFFFFF, ascii ''b'')]
                  \<and> (case wal_append crc (ascii ''d'') w of (r, w) \<Rightarrow> r = Inl LsnExhausted \<and>
                    (case wal_append crc (ascii ''d'') w of (r, w) \<Rightarrow> r = Inl LsnExhausted \<and>
                    (case wal_append crc (ascii ''d'') w of (r, w) \<Rightarrow> r = Inl LsnExhausted \<and>
                      with_commit (commit crc clock null_on_durable w d) (\<lambda>l w d. l = MAX_LSN \<and>
                        with_checkpoint (checkpoint (Lsn 0) w d) (\<lambda>w d.
                          (case wal_append crc (replicate (unat (cfg_max_record_size test_cfg) + 1) 0) w of (r, w) \<Rightarrow>
                             r = Inl RecordTooLarge \<and>
                             with_open (open_wal crc clock test_cfg (drop_handle d)) (\<lambda>w r d.
                               (report_durable_lsn r, report_tail_state r) = (MAX_LSN, Clean)
                               \<and> (case wal_append crc (ascii ''e'') w of (r, w) \<Rightarrow>
                                    r = Inl LsnExhausted \<and> \<not> poisoned w))))))))))))))"

definition v71_seed_at_max_allows_exactly_one_append :: "(bytes \<Rightarrow> u32) \<Rightarrow> (lsn \<Rightarrow> u64) \<Rightarrow> bool" where
  "v71_seed_at_max_allows_exactly_one_append crc clock \<longleftrightarrow>
     with_open (options_open crc clock (seed_option MAX_LSN options) test_cfg tempdir) (\<lambda>w r d.
       (report_oldest_lsn r, report_durable_lsn r) = (MAX_LSN, Lsn (0xFFFFFFFFFFFFFFFF - 1)) \<and>
       with_append crc (ascii ''only'') w (\<lambda>l w. l = MAX_LSN \<and>
         (case wal_append crc (ascii ''dup'') w of (r, w) \<Rightarrow> r = Inl LsnExhausted \<and>
           with_commit (commit crc clock null_on_durable w d) (\<lambda>l w d. l = MAX_LSN \<and>
             with_open (open_wal crc clock test_cfg (drop_handle d)) (\<lambda>w r d.
               report_durable_lsn r = MAX_LSN
               \<and> replay_pairs crc w d (Lsn 0) = Some [(0xFFFFFFFFFFFFFFFF, ascii ''only'')])))))"

definition seed_near_max :: "(bytes \<Rightarrow> u32) \<Rightarrow> (lsn \<Rightarrow> u64) \<Rightarrow> wal_config \<Rightarrow> bool" where
  "seed_near_max crc clock config \<longleftrightarrow>
     (let base = 0xFFFFFFFFFFFFFFFF - 2 in
      with_open (options_open crc clock (seed_option (Lsn base) options) config tempdir) (\<lambda>w r d.
        with_append crc (replicate 200 0) w (\<lambda>l w. l = Lsn base \<and>
          with_append crc (replicate 200 1) w (\<lambda>l w. l = Lsn (base + 1) \<and>
            with_append crc (replicate 200 2) w (\<lambda>l w. l = Lsn (base + 2) \<and>
              (case wal_append crc (replicate 200 9) w of (r, w) \<Rightarrow> r = Inl LsnExhausted \<and>
                with_commit (commit crc clock null_on_durable w d) (\<lambda>l w d. l = MAX_LSN \<and>
                  with_open (open_wal crc clock config (drop_handle d)) (\<lambda>w r d.
                    (report_oldest_lsn r, report_durable_lsn r) = (Lsn base, MAX_LSN)
                    \<and> map_option (map fst) (replay_pairs crc w d (Lsn 0))
                        = Some [base, base + 1, 0xFFFFFFFFFFFFFFFF]))))))))"

definition v71_seed_near_max_yields_distinct_dense_lsns :: "(bytes \<Rightarrow> u32) \<Rightarrow> (lsn \<Rightarrow> u64) \<Rightarrow> bool" where
  "v71_seed_near_max_yields_distinct_dense_lsns crc clock \<longleftrightarrow>
     seed_near_max crc clock test_cfg \<and> seed_near_max crc clock tiny_cfg"

section \<open>What the calls give\<close>

text \<open>
  One rule per call: the shape before it and the condition under which it succeeds give the
  shape after it. In \<open>steps\<close> are the rules that need the state, in \<open>starts\<close> the ones on a
  new directory, and \<open>eval\<close> computes shapes.
\<close>

named_theorems steps
named_theorems starts
named_theorems eval

lemma rests_tempdir: "cfg_ok cfg \<Longrightarrow> rests crc clock cfg tempdir []"
  by (simp add: rests_def tempdir_def holds_def names_settled_def seg_map_def named_def)

lemma open_step [steps]:
  assumes "rests crc clock cfg d sh" "\<not> is_none seed" "started seed sh = sh'"
    and "\<And>w d'. stands crc clock cfg w d' sh' [] \<Longrightarrow> observer w = ob \<Longrightarrow>
      k w \<lparr>report_oldest_lsn = lsn_of (shape_base sh'), report_durable_lsn = lsn_of (shape_end sh' - 1),
           report_tail_state = Clean, report_segments_scanned = length sh'\<rparr> d'"
  shows "with_open (open_seeded crc clock cfg ob seed d) k"
  using open_shape [OF assms(1,2), where ob = ob] assms(3,4) by (fastforce simp: with_open_def)

lemma reopen_step [steps]:
  assumes "stands crc clock cfg w0 d sh staged" "\<not> is_none seed" "started seed sh = sh'"
    and "\<And>w d'. stands crc clock cfg w d' sh' [] \<Longrightarrow> observer w = ob \<Longrightarrow>
      k w \<lparr>report_oldest_lsn = lsn_of (shape_base sh'), report_durable_lsn = lsn_of (shape_end sh' - 1),
           report_tail_state = Clean, report_segments_scanned = length sh'\<rparr> d'"
  shows "with_open (open_seeded crc clock cfg ob seed (drop_handle d)) k"
  by (rule open_step [OF drop_shape [OF assms(1)] assms(2,3)]) (rule assms(4))

lemma open_start [starts]:
  assumes "cfg_ok cfg" "\<not> is_none seed"
    and "\<And>w d'. stands crc clock cfg w d' [(lsn_nat seed, [])] [] \<Longrightarrow> observer w = ob \<Longrightarrow>
      k w \<lparr>report_oldest_lsn = lsn_of (lsn_nat seed), report_durable_lsn = lsn_of (lsn_nat seed - 1),
           report_tail_state = Clean, report_segments_scanned = 1\<rparr> d'"
  shows "with_open (open_seeded crc clock cfg ob seed tempdir) k"
  by (rule open_step [OF rests_tempdir [OF assms(1)] assms(2), of "[(lsn_nat seed, [])]"])
    (use assms(3) in \<open>simp_all add: started_def shape_base_def shape_end_def\<close>)

lemma append_step [steps]:
  assumes "stands crc clock cfg w d sh staged" "length p \<le> unat (cfg_max_record_size cfg)"
    "shape_end sh + length staged \<le> u64_max"
    and "\<And>w'. stands crc clock cfg w' d sh (staged @ [p]) \<Longrightarrow> observer w' = observer w \<Longrightarrow>
      k (lsn_of (shape_end sh + length staged)) w'"
  shows "with_append crc p w k"
  using append_shape [OF assms(1-3)] assms(4) by (fastforce simp: with_append_def)

lemma append_each_step [steps]:
  assumes "stands crc clock cfg w d sh staged" "list_all (\<lambda>p. length p \<le> unat (cfg_max_record_size cfg)) ps"
    "shape_end sh + length staged + length ps \<le> Suc u64_max"
    and "\<And>w'. stands crc clock cfg w' d sh (staged @ ps) \<Longrightarrow> observer w' = observer w \<Longrightarrow> k w'"
  shows "append_each crc ps w k"
  using assms
proof (induction ps arbitrary: w staged)
  case (Cons p ps)
  have le: "shape_end sh + length staged \<le> u64_max" using Cons.prems(3) by simp
  show ?case
    unfolding append_each.simps
  proof (rule append_step [OF Cons.prems(1) _ le])
    show "length p \<le> unat (cfg_max_record_size cfg)" using Cons.prems(2) by simp
    fix w' assume w': "stands crc clock cfg w' d sh (staged @ [p])" "observer w' = observer w"
    show "append_each crc ps w' k"
      by (rule Cons.IH [OF w'(1)]) (use Cons.prems w'(2) in \<open>simp_all\<close>)
  qed
qed simp

lemma append_large_step [steps]:
  "stands crc clock cfg w d sh staged \<Longrightarrow> unat (cfg_max_record_size cfg) < length p \<Longrightarrow>
   (stands crc clock cfg w d sh staged \<Longrightarrow> k (Inl RecordTooLarge) w) \<Longrightarrow>
   (case wal_append crc p w of (r, w') \<Rightarrow> k r w')"
  by (simp add: append_large_shape)

lemma append_full_step [steps]:
  "stands crc clock cfg w d sh staged \<Longrightarrow> length p \<le> unat (cfg_max_record_size cfg) \<Longrightarrow>
   shape_end sh + length staged = Suc u64_max \<Longrightarrow>
   (stands crc clock cfg w d sh staged \<Longrightarrow> k (Inl LsnExhausted) w) \<Longrightarrow>
   (case wal_append crc p w of (r, w') \<Rightarrow> k r w')"
  by (simp add: append_full_shape)

lemma commit_step_observed:
  assumes "stands crc clock cfg w d sh staged" "committed (unat (cfg_segment_size cfg)) sh staged = sh'"
    "told (shape_end sh) (pack (unat (cfg_segment_size cfg)) (fst (last sh)) (snd (last sh)) staged) = ls"
    and "\<And>w' d'. stands crc clock cfg w' d' sh' [] \<Longrightarrow> observer w' = fold on_durable ls (observer w) \<Longrightarrow>
      k (lsn_of (shape_end sh + length staged - 1)) w' d'"
  shows "with_commit (commit crc clock on_durable w d) k"
  using commit_shape [OF assms(1), where on_durable = on_durable] assms(2-4) by (fastforce simp: with_commit_def)

lemma commit_done_step [steps]:
  assumes "stands crc clock cfg w d sh staged" "committed (unat (cfg_segment_size cfg)) sh staged = sh'"
    and "\<And>w' d'. stands crc clock cfg w' d' sh' [] \<Longrightarrow> k (lsn_of (shape_end sh + length staged - 1)) w' d'"
  shows "with_commit (commit crc clock on_durable w d) k"
  by (rule commit_step_observed [OF assms(1,2) refl]) (rule assms(3))

lemma checkpoint_step [steps]:
  assumes "stands crc clock cfg w d sh staged" "reclaimed up_to sh = sh'"
    and "\<And>w' d'. stands crc clock cfg w' d' sh' staged \<Longrightarrow> observer w' = observer w \<Longrightarrow> k w' d'"
  shows "with_checkpoint (checkpoint up_to w d) k"
  using checkpoint_shape [OF assms(1), of up_to] assms(2,3) by (fastforce simp: with_checkpoint_def)

text \<open>Reading.\<close>

fun numbered :: "nat \<Rightarrow> bytes list \<Rightarrow> (nat \<times> bytes) list" where
  "numbered n [] = []"
| "numbered n (p # ps) = (n, p) # numbered (Suc n) ps"

lemma filter_numbered:
  assumes "n + length ps \<le> Suc u64_max"
  shows "filter (\<lambda>x. from \<le> fst x) (number_from n ps)
    = map (\<lambda>x. (lsn_of (fst x), snd x)) (filter (\<lambda>x. lsn_nat from \<le> fst x) (numbered n ps))"
  using assms by (induction ps arbitrary: n) (auto simp: lsn_le_iff)

lemma next_all_drain:
  assumes "drain crc rd d = (xs, None)" "list_all2 (\<lambda>check x. check (fst x) (snd x)) checks xs"
  shows "next_all crc rd d checks"
  using assms
proof (induction checks arbitrary: rd d xs)
  case Nil
  then show ?case
    by (subst (asm) drain.simps) (auto split: prod.splits option.splits sum.splits)
next
  case (Cons check checks)
  then obtain x ys where xs: "xs = x # ys" by (cases xs) auto
  then obtain rd' d' where "reader_next crc rd d = (Some (Inr x), rd', d')" "drain crc rd' d' = (ys, None)"
    using Cons.prems(1) by (subst (asm) drain.simps) (auto split: prod.splits option.splits sum.splits)
  then show ?case using Cons xs by (cases x) auto
qed

definition visible :: "lsn \<Rightarrow> shape \<Rightarrow> (nat \<times> bytes) list" where
  "visible from sh = filter (\<lambda>x. lsn_nat from \<le> fst x) (numbered (shape_base sh) (shape_log sh))"

lemma stands_drain:
  assumes "stands crc clock cfg w d sh staged"
  shows "filter (\<lambda>x. from \<le> fst x) (number_from (shape_base sh) (shape_log sh))
    = map (\<lambda>x. (lsn_of (fst x), snd x)) (visible from sh)"
  unfolding visible_def by (rule filter_numbered) (use stands_bounds(2,4) [OF assms] in simp)

lemma reads_step [steps]:
  assumes "stands crc clock cfg w d sh staged" "is_none from \<or> shape_base sh \<le> lsn_nat from"
    "list_all2 (\<lambda>check x. check (lsn_of (fst x)) (snd x)) checks (visible from sh)"
  shows "reads crc from w d checks"
proof -
  obtain rd where "reader_from from w d = (Inr rd, d)" "drain crc rd d = (map (\<lambda>x. (lsn_of (fst x), snd x)) (visible from sh), None)"
    using reader_shape [OF assms(1,2)] stands_drain [OF assms(1)] by metis
  with assms(3) show ?thesis by (simp add: reads_def next_all_drain list.rel_map)
qed

lemma replay_eval:
  assumes "stands crc clock cfg w d sh staged" "is_none from \<or> shape_base sh \<le> lsn_nat from"
  shows "replay_pairs crc w d from = Some (map (\<lambda>x. (word_of_nat (fst x), snd x)) (visible from sh))"
proof -
  obtain rd where "reader_from from w d = (Inr rd, d)" "drain crc rd d = (map (\<lambda>x. (lsn_of (fst x), snd x)) (visible from sh), None)"
    using reader_shape [OF assms] stands_drain [OF assms(1)] by metis
  then show ?thesis by (simp add: replay_pairs_def lsn_of_def)
qed

lemma file_exists_eval:
  assumes "stands crc clock cfg w d sh staged"
  shows "file_exists d (filename_for (Lsn b)) \<longleftrightarrow> unat b \<in> fst ` set sh"
proof -
  have "lsn_nat (Lsn b) \<le> u64_max" by (rule lsn_nat_le_max)
  moreover have "lsn_of (lsn_nat (Lsn b)) = Lsn b" by (simp add: lsn_of_def lsn_nat_def)
  ultimately show ?thesis using files_shape [OF assms, of "lsn_nat (Lsn b)"] by (simp add: file_exists_def) (simp add: lsn_nat_def)
qed

lemma gap_eval:
  assumes "stands crc clock cfg w d sh staged" "\<not> is_none from" "lsn_nat from < shape_base sh"
  shows "fst (reader_from from w d) = Inl ContiguityViolation"
  by (simp add: reader_refused_shape [OF assms])

lemma open_none: "is_none seed \<Longrightarrow> open_seeded crc clock cfg ob seed d = (Inl InvalidConfig, d)"
  by (simp add: open_seeded_def)

lemma suffix_wal: "suffix ''.wal'' n \<Longrightarrow> n = LOCK \<or> is_seg_name n \<Longrightarrow> is_seg_name n"
  by (auto simp: LOCK_def suffix_def)

lemma singleton_list: "distinct ns \<Longrightarrow> set ns = {n} \<Longrightarrow> ns = [n]"
  by (cases ns; cases "tl ns") auto

lemma file_names_eval:
  assumes "stands crc clock cfg w d [x] staged"
  shows "wal_file_names d = [filename_for (lsn_of (fst x))]"
proof -
  let ?n = "filename_for (lsn_of (fst x))" and ?ns = "filter (\<lambda>n. suffix ''.wal'' n) (map fst (entries d))"
  have h: "holds crc (unat (cfg_segment_size cfg)) [seg_of crc clock x] (d\<lparr>pending := []\<rparr>)" and nm: "named d"
    using assms by (simp_all add: stands_def)
  have seg: "n \<in> fst ` set (entries d) \<longleftrightarrow> n = ?n" if "is_seg_name n" for n
    using holds_has_segs [OF h] that by (simp add: has_segs_def)
  have "suffix ''.wal'' ?n" by (auto simp: filename_for_def suffix_def)
  then have "set ?ns = {?n}"
    using seg nm suffix_wal unfolding named_def by (auto simp: image_iff)
  moreover have "distinct ?ns" using h by (simp add: holds_def)
  ultimately have "?ns = [?n]" by (metis singleton_list)
  then show ?thesis by (simp add: wal_file_names_def)
qed

text \<open>The segment a reader opens first.\<close>

fun opened_at :: "nat \<Rightarrow> shape \<Rightarrow> nat" where
  "opened_at k [] = 0"
| "opened_at k [x] = fst x"
| "opened_at k (x # y # xs) = (if fst y \<le> k then opened_at k (y # xs) else fst x)"

lemma opened_at_nth:
  assumes "sorted_wrt (<) (map fst sh)" "i < length sh" "i = 0 \<or> fst (sh ! i) \<le> k"
    "\<And>j. i < j \<Longrightarrow> j < length sh \<Longrightarrow> k < fst (sh ! j)"
  shows "opened_at k sh = fst (sh ! i)"
  using assms
proof (induction k sh arbitrary: i rule: opened_at.induct)
  case (3 k x y xs)
  show ?case
  proof (cases i)
    case 0
    then show ?thesis using "3.prems"(4) [of 1] by simp
  next
    case (Suc j)
    have "fst y \<le> fst ((y # xs) ! j)" using "3.prems"(1,2) Suc by (cases j) (auto simp: less_imp_le)
    then have le: "fst y \<le> k" using "3.prems"(3) Suc by simp
    have "opened_at k (y # xs) = fst ((y # xs) ! j)"
    proof (rule "3.IH" [OF le])
      show "\<And>m. j < m \<Longrightarrow> m < length (y # xs) \<Longrightarrow> k < fst ((y # xs) ! m)"
        using "3.prems"(4) [of "Suc m" for m] Suc by force
    qed (use "3.prems" Suc in simp_all)
    then show ?thesis using le Suc by simp
  qed
qed auto

lemma seek_eval:
  assumes "stands crc clock cfg w d sh staged" "from = 0 \<or> shape_base sh \<le> unat from"
  shows "assert_seek crc w d all from b \<longleftrightarrow> lsn_of (opened_at (unat from) sh) = b
    \<and> map (\<lambda>x. (word_of_nat (fst x), snd x)) (visible (Lsn from) sh) = filter (\<lambda>x. max from 1 \<le> fst x) all"
proof -
  have ok: "is_none (Lsn from) \<or> shape_base sh \<le> lsn_nat (Lsn from)" using assms(2) by (simp add: is_none_def lsn_nat_def)
  obtain rd i where r: "reader_from (Lsn from) w d = (Inr rd, d)" "open_segment_base rd = Some (lsn_of (fst (sh ! i)))"
    "i < length sh" "i = 0 \<or> fst (sh ! i) \<le> unat from" "\<And>k. i < k \<Longrightarrow> k < length sh \<Longrightarrow> unat from < fst (sh ! k)"
    using reader_shape [OF assms(1) ok] by (metis lsn_nat_def lsn.sel)
  have "chain (segs_of crc clock sh)" using assms(1) by (simp add: stands_def wal_inv_def wal_core_def segs_ok_def)
  then have "sorted_wrt (<) (map fst sh)" using chain_sorted [of "segs_of crc clock sh"] by (simp add: segs_of_def o_def)
  from opened_at_nth [OF this r(3-5)] show ?thesis
    using r(1,2) replay_eval [OF assms(1) ok] by (auto simp: assert_seek_def Let_def)
qed

lemma replicate_lists [eval]:
  "replicate 3 (p :: bytes) = [p, p, p]" "replicate 5 (p :: bytes) = [p, p, p, p, p]"
  by (simp_all add: numeral_eq_Suc)

section \<open>The tests pass\<close>

lemma payload_sizes [eval]:
  "length (ascii s) = length s" "framed_size (Suc 0) = 24" "framed_size (Suc (Suc (Suc 0))) = 24"
  "framed_size (Suc (Suc (Suc (Suc 0)))) = 24" "framed_size (Suc (Suc (Suc (Suc (Suc 0))))) = 32"
  "framed_size (Suc (Suc (Suc (Suc (Suc (Suc 0)))))) = 32" "framed_size 200 = 224" "framed_size 256 = 280"
  by (simp_all add: ascii_def size_eval)

lemma test_cfgs [eval]:
  "unat (cfg_segment_size test_cfg) = 65536" "unat (cfg_max_record_size test_cfg) = 4096" "cfg_ok test_cfg"
  "unat (cfg_segment_size tiny_cfg) = 512" "unat (cfg_max_record_size tiny_cfg) = 256" "cfg_ok tiny_cfg"
  by (simp_all add: test_cfg_def tiny_cfg_def cfg_ok_def)

lemmas shape_eval [eval] = started_def shape_base_def shape_end_def shape_log_def committed_def reclaimed_def
  visible_def is_none_def lsn_nat_def FIRST_def NONE_def options_def seed_option_def observer_option_def
  MAX_LSN_def u64_max_def Let_def

lemmas checks [eval] = lsn_of_def rec_def

lemmas opens = open_wal_def open_with_def options_open_def Let_def

lemmas state_eval = eval stands_fields replay_eval file_exists_eval gap_eval open_none seek_eval

lemma first_name: "''00000000000000000001.wal'' = filename_for (Lsn 1)"
proof -
  have d: "digit_char 0 = CHR ''0''" "digit_char (Suc 0) = CHR ''1''" by (simp_all add: digit_char_def char_of_def bit_0)
  have "show_dec (Suc 0) = ''1''" by (simp add: show_dec.simps d)
  moreover have "replicate 19 (CHR ''0'') = ''0000000000000000000''" by (simp add: numeral_eq_Suc)
  ultimately show ?thesis by (simp add: filename_for_def pad_dec_def d)
qed

lemma cold_start_creates_first_segment_ok: "cold_start_creates_first_segment crc clock"
  unfolding cold_start_creates_first_segment_def opens first_name
  by (rule starts | erule steps | rule conjI | (simp (no_asm_simp) add: state_eval; fail))+

lemma lsn_assignment_is_monotone_dense_from_one_ok: "lsn_assignment_is_monotone_dense_from_one crc clock"
  unfolding lsn_assignment_is_monotone_dense_from_one_def opens
  by (rule starts | erule steps | rule conjI | (simp (no_asm_simp) add: state_eval; fail))+

lemma append_rejects_oversized_payload_ok: "append_rejects_oversized_payload crc clock"
  unfolding append_rejects_oversized_payload_def opens
  by (rule starts | erule steps | rule conjI | (simp (no_asm_simp) add: state_eval; fail))+

lemma max_sized_record_fits_segment_and_round_trips_ok: "max_sized_record_fits_segment_and_round_trips crc clock"
  unfolding max_sized_record_fits_segment_and_round_trips_def opens
  by (rule starts | erule steps | rule conjI | (simp (no_asm_simp) add: state_eval cfg_ok_def size_eval; fail))+

lemma commit_then_read_back_ok: "commit_then_read_back crc clock"
  unfolding commit_then_read_back_def opens
  by (rule starts | erule steps | rule conjI | (simp (no_asm_simp) add: state_eval; fail))+

lemma empty_commit_is_a_noop_ok: "empty_commit_is_a_noop crc clock"
  unfolding empty_commit_is_a_noop_def opens
  by (rule starts | erule steps | rule conjI | (simp (no_asm_simp) add: state_eval; fail))+

lemma reopen_recovers_committed_records_ok: "reopen_recovers_committed_records crc clock"
  unfolding reopen_recovers_committed_records_def opens
  by (rule starts | erule steps | rule conjI | (simp (no_asm_simp) add: state_eval; fail))+

lemma append_after_reopen_resumes_write_offset_ok: "append_after_reopen_resumes_write_offset crc clock"
  unfolding append_after_reopen_resumes_write_offset_def opens
  by (rule starts | erule steps | rule conjI | (simp (no_asm_simp) add: state_eval; fail))+

lemma commit_splits_batch_across_segments_on_whole_records_ok: "commit_splits_batch_across_segments_on_whole_records crc clock"
  unfolding commit_splits_batch_across_segments_on_whole_records_def opens
  by (rule starts | erule steps | rule conjI | (simp (no_asm_simp) add: state_eval; fail))+

lemma commit_handles_empty_prefix_seal_and_roll_ok: "commit_handles_empty_prefix_seal_and_roll crc clock"
  unfolding commit_handles_empty_prefix_seal_and_roll_def opens
  by (rule starts | erule steps | rule conjI | (simp (no_asm_simp) add: state_eval; fail))+

lemma append_after_reopen_resumes_across_a_roll_ok: "append_after_reopen_resumes_across_a_roll crc clock"
  unfolding append_after_reopen_resumes_across_a_roll_def opens
  by (rule starts | erule steps | rule conjI | (simp (no_asm_simp) add: state_eval; fail))+

lemma reader_from_skips_earlier_records_ok: "reader_from_skips_earlier_records crc clock"
  unfolding reader_from_skips_earlier_records_def opens
  by (rule starts | erule steps | rule conjI | (simp (no_asm_simp) add: state_eval; fail))+

lemma three_segments [starts]:
  assumes "\<And>d. rests crc clock tiny_cfg d [(1, [replicate 200 1, replicate 200 2]), (3, [replicate 200 3, replicate 200 4]), (5, [replicate 200 5])]
      \<Longrightarrow> k [replicate 200 1, replicate 200 2, replicate 200 3, replicate 200 4, replicate 200 5] d"
  shows "three_segment_log crc clock tempdir k"
proof -
  have last: "stands crc clock tiny_cfg w d sh [] \<Longrightarrow> ps = [replicate 200 1, replicate 200 2, replicate 200 3, replicate 200 4, replicate 200 5]
    \<Longrightarrow> sh = [(1, [replicate 200 1, replicate 200 2]), (3, [replicate 200 3, replicate 200 4]), (5, [replicate 200 5])]
    \<Longrightarrow> k ps (drop_handle d)" for w :: "unit wal" and d sh ps
    using assms drop_shape by blast
  show ?thesis
    unfolding three_segment_log_def opens
    by (rule starts | erule steps last | rule conjI | (simp (no_asm_simp) add: state_eval; fail))+
qed

lemma checkpoint_deletes_superseded_sealed_segments_oldest_first_ok: "checkpoint_deletes_superseded_sealed_segments_oldest_first crc clock"
  unfolding checkpoint_deletes_superseded_sealed_segments_oldest_first_def opens
  by (rule starts | erule steps | rule conjI | (simp (no_asm_simp) add: state_eval; fail))+

lemma checkpoint_never_deletes_the_active_segment_ok: "checkpoint_never_deletes_the_active_segment crc clock"
  unfolding checkpoint_never_deletes_the_active_segment_def opens
  by (rule starts | erule steps | rule conjI | (simp (no_asm_simp) add: state_eval; fail))+

lemma checkpoint_boundary_is_exact_ok: "checkpoint_boundary_is_exact crc clock"
  unfolding checkpoint_boundary_is_exact_def opens
  by (rule starts | erule steps | rule conjI | (simp (no_asm_simp) add: state_eval; fail))+

lemma checkpoint_then_reopen_recovers_dense_suffix_ok: "checkpoint_then_reopen_recovers_dense_suffix crc clock"
  unfolding checkpoint_then_reopen_recovers_dense_suffix_def opens
  by (rule starts | erule steps | rule conjI | (simp (no_asm_simp) add: state_eval; fail))+

lemma checkpoint_is_idempotent_and_below_oldest_is_noop_ok: "checkpoint_is_idempotent_and_below_oldest_is_noop crc clock"
  unfolding checkpoint_is_idempotent_and_below_oldest_is_noop_def opens
  by (rule starts | erule steps | rule conjI | (simp (no_asm_simp) add: state_eval; fail))+

lemma checkpoint_can_still_append_and_roll_after_ok: "checkpoint_can_still_append_and_roll_after crc clock"
  unfolding checkpoint_can_still_append_and_roll_after_def opens
  by (rule starts | erule steps | rule conjI | (simp (no_asm_simp) add: state_eval; fail))+

lemma checkpoint_on_poisoned_ok: "checkpoint_on_poisoned_handle_errors_and_deletes_nothing crc clock"
  unfolding checkpoint_on_poisoned_handle_errors_and_deletes_nothing_def opens
  by (rule starts | erule steps | rule conjI | (simp (no_asm_simp) add: state_eval checkpoint_def; fail))+

lemma v7_seed_zero_is_invalid_config_ok: "v7_seed_zero_is_invalid_config crc clock"
  unfolding v7_seed_zero_is_invalid_config_def opens
  by (rule starts | erule steps | rule conjI | (simp (no_asm_simp) add: state_eval tempdir_def; fail))+

lemma v7_default_options_equal_open_ok: "v7_default_options_equal_open crc clock"
  unfolding v7_default_options_equal_open_def opens
  by (rule starts | erule steps | rule conjI | (simp (no_asm_simp) add: state_eval file_names_eval filename_for_def; fail))+

lemma v7_seed_is_ignored_for_an_existing_log_ok: "v7_seed_is_ignored_for_an_existing_log crc clock"
  unfolding v7_seed_is_ignored_for_an_existing_log_def seed_ignored_def opens foldr.simps o_apply id_apply
  by (rule starts | erule steps | rule conjI | (simp (no_asm_simp) add: state_eval file_names_eval filename_for_def; fail))+

lemma v7_oldest_lsn_tracks_report_and_checkpoint_ok: "v7_oldest_lsn_tracks_report_and_checkpoint crc clock"
  unfolding v7_oldest_lsn_tracks_report_and_checkpoint_def opens
  by (rule starts | erule steps | rule conjI | (simp (no_asm_simp) add: state_eval; fail))+

lemma v7_open_with_equals_options_observer_ok: "v7_open_with_equals_options_observer crc clock"
  unfolding v7_open_with_equals_options_observer_def opens
  by (rule starts | erule steps | rule conjI | (simp (no_asm_simp) add: state_eval file_names_eval filename_for_def; fail))+

lemma v7_cold_start_at_seed_ok: "v7_cold_start_at_seed crc clock"
  unfolding v7_cold_start_at_seed_def cold_start_at_def opens list.pred_inject
  by (rule starts | erule steps | rule conjI | (simp (no_asm_simp) add: state_eval file_names_eval filename_for_def; fail))+

lemma v7_reader_from_opens_the_containing_segment_ok: "v7_reader_from_opens_the_containing_segment crc clock"
  unfolding v7_reader_from_opens_the_containing_segment_def opens
  by (rule starts | erule steps | rule conjI | (simp (no_asm_simp) add: state_eval word_le_nat_alt; fail))+

lemma v71_append_at_max_is_lsn_exhausted_and_not_poisoned_ok: "v71_append_at_max_is_lsn_exhausted_and_not_poisoned crc clock"
  unfolding v71_append_at_max_is_lsn_exhausted_and_not_poisoned_def opens
  by (rule starts | erule steps | rule conjI | (simp (no_asm_simp) add: state_eval; fail))+

lemma v71_seed_at_max_allows_exactly_one_append_ok: "v71_seed_at_max_allows_exactly_one_append crc clock"
  unfolding v71_seed_at_max_allows_exactly_one_append_def opens
  by (rule starts | erule steps | rule conjI | (simp (no_asm_simp) add: state_eval; fail))+

lemma v7_reader_from_seeks_in_a_seeded_checkpointed_log_ok: "v7_reader_from_seeks_in_a_seeded_checkpointed_log crc clock"
  unfolding v7_reader_from_seeks_in_a_seeded_checkpointed_log_def append_noting.simps list.map opens
  by (rule starts | erule steps | rule conjI | (simp (no_asm_simp) add: state_eval; fail))+

lemma v71_seed_near_max_yields_distinct_dense_lsns_ok: "v71_seed_near_max_yields_distinct_dense_lsns crc clock"
  unfolding v71_seed_near_max_yields_distinct_dense_lsns_def seed_near_max_def opens
  by (rule starts | erule steps | rule conjI | (simp (no_asm_simp) add: state_eval; fail))+

lemma second_open_is_locked_ok: "second_open_is_locked crc clock"
  unfolding second_open_is_locked_def opens
  by (rule starts | (erule locked_shape, simp add: eval) | (simp (no_asm_simp) add: state_eval; fail))+

lemma open_rejects_config_ok: "open_rejects_config_violating_section_5_3 crc clock"
  by (simp add: open_rejects_config_violating_section_5_3_def open_wal_def open_with_def open_seeded_def)

lemma commit_split_advances_durable_lsn_per_segment_ok: "commit_split_advances_durable_lsn_per_segment crc clock"
  unfolding commit_split_advances_durable_lsn_per_segment_def opens
  by (rule starts | erule commit_step_observed | erule steps | rule conjI
      | (simp (no_asm_simp) add: state_eval told_def push_u64_def; fail))+

lemma v7_seeded_with_observer_fires_seeded_lsns_ok: "v7_seeded_with_observer_fires_seeded_lsns crc clock"
  unfolding v7_seeded_with_observer_fires_seeded_lsns_def opens
  by (rule starts | erule commit_step_observed | erule steps | rule conjI
      | (simp (no_asm_simp) add: state_eval told_def push_lsn_def; fail))+

lemma index_maths_ok: "deletable_prefix_len_boundary_math" "v7_containing_segment_idx_math"
  by (simp_all add: deletable_prefix_len_boundary_math_def v7_containing_segment_idx_math_def
      deletable_prefix_len_def containing_segment_idx_def partition_point_def less_eq_lsn_def word_le_nat_alt)

section \<open>All of them\<close>

definition handle_tests :: "(bytes \<Rightarrow> u32) \<Rightarrow> (lsn \<Rightarrow> u64) \<Rightarrow> bool" where
  "handle_tests crc clock \<longleftrightarrow>
     open_rejects_config_violating_section_5_3 crc clock \<and> cold_start_creates_first_segment crc clock
     \<and> lsn_assignment_is_monotone_dense_from_one crc clock \<and> append_rejects_oversized_payload crc clock
     \<and> max_sized_record_fits_segment_and_round_trips crc clock \<and> commit_then_read_back crc clock
     \<and> empty_commit_is_a_noop crc clock \<and> reopen_recovers_committed_records crc clock
     \<and> append_after_reopen_resumes_write_offset crc clock
     \<and> commit_splits_batch_across_segments_on_whole_records crc clock
     \<and> commit_split_advances_durable_lsn_per_segment crc clock
     \<and> commit_handles_empty_prefix_seal_and_roll crc clock
     \<and> append_after_reopen_resumes_across_a_roll crc clock \<and> second_open_is_locked crc clock
     \<and> reader_from_skips_earlier_records crc clock \<and> deletable_prefix_len_boundary_math
     \<and> checkpoint_deletes_superseded_sealed_segments_oldest_first crc clock
     \<and> checkpoint_never_deletes_the_active_segment crc clock \<and> checkpoint_boundary_is_exact crc clock
     \<and> checkpoint_then_reopen_recovers_dense_suffix crc clock
     \<and> checkpoint_is_idempotent_and_below_oldest_is_noop crc clock
     \<and> checkpoint_can_still_append_and_roll_after crc clock
     \<and> checkpoint_on_poisoned_handle_errors_and_deletes_nothing crc clock
     \<and> v7_seed_zero_is_invalid_config crc clock \<and> v7_default_options_equal_open crc clock
     \<and> v7_cold_start_at_seed crc clock \<and> v7_seed_is_ignored_for_an_existing_log crc clock
     \<and> v7_seeded_with_observer_fires_seeded_lsns crc clock \<and> v7_open_with_equals_options_observer crc clock
     \<and> v7_oldest_lsn_tracks_report_and_checkpoint crc clock \<and> v7_containing_segment_idx_math
     \<and> v7_reader_from_opens_the_containing_segment crc clock
     \<and> v7_reader_from_seeks_in_a_seeded_checkpointed_log crc clock
     \<and> v71_append_at_max_is_lsn_exhausted_and_not_poisoned crc clock
     \<and> v71_seed_at_max_allows_exactly_one_append crc clock
     \<and> v71_seed_near_max_yields_distinct_dense_lsns crc clock"

text \<open>The unit tests of the handle that work on logs the handle has written pass, with every
  checksum and every clock: no call they unwrap fails and every assertion of them holds.\<close>

lemma handle_tests_ok: "handle_tests crc clock"
  unfolding handle_tests_def
  by (intro conjI
      cold_start_creates_first_segment_ok lsn_assignment_is_monotone_dense_from_one_ok
      append_rejects_oversized_payload_ok max_sized_record_fits_segment_and_round_trips_ok
      commit_then_read_back_ok empty_commit_is_a_noop_ok reopen_recovers_committed_records_ok
      append_after_reopen_resumes_write_offset_ok commit_splits_batch_across_segments_on_whole_records_ok
      commit_handles_empty_prefix_seal_and_roll_ok append_after_reopen_resumes_across_a_roll_ok
      reader_from_skips_earlier_records_ok checkpoint_deletes_superseded_sealed_segments_oldest_first_ok
      checkpoint_never_deletes_the_active_segment_ok checkpoint_boundary_is_exact_ok
      checkpoint_then_reopen_recovers_dense_suffix_ok checkpoint_is_idempotent_and_below_oldest_is_noop_ok
      checkpoint_can_still_append_and_roll_after_ok v7_seed_zero_is_invalid_config_ok
      v7_default_options_equal_open_ok v7_seed_is_ignored_for_an_existing_log_ok
      v7_oldest_lsn_tracks_report_and_checkpoint_ok v7_open_with_equals_options_observer_ok
      v7_cold_start_at_seed_ok v7_reader_from_opens_the_containing_segment_ok
      v71_append_at_max_is_lsn_exhausted_and_not_poisoned_ok v71_seed_at_max_allows_exactly_one_append_ok
      v7_reader_from_seeks_in_a_seeded_checkpointed_log_ok v71_seed_near_max_yields_distinct_dense_lsns_ok
      second_open_is_locked_ok open_rejects_config_ok commit_split_advances_durable_lsn_per_segment_ok
      v7_seeded_with_observer_fires_seeded_lsns_ok index_maths_ok checkpoint_on_poisoned_ok)

end
