(* ===== verification/Wal_Fabricated_Tests.thy ===== *)
theory Wal_Fabricated_Tests
  imports Wal_Handle_Tests Wal_Adversary
begin

text \<open>
  The unit tests of \<^verbatim>\<open>src/wal.rs\<close> that put segment files together byte by byte and then open the
  directory: logs of several segments, gaps, empty and duplicated segments, headers that a
  crash has left torn, and the file of every crash point of a cold start. The files are
  written with \<open>create\<close> and the calls of \<open>Wal_Platform\<close>, past the handle.
\<close>

section \<open>Putting files together\<close>

definition with_disk :: "disk option \<Rightarrow> (disk \<Rightarrow> bool) \<Rightarrow> bool" where
  "with_disk r k = (case r of Some d \<Rightarrow> k d | None \<Rightarrow> False)"

definition create_segment :: "(bytes \<Rightarrow> u32) \<Rightarrow> (lsn \<Rightarrow> u64) \<Rightarrow> lsn \<Rightarrow> disk \<Rightarrow> disk option" where
  "create_segment crc clock base d =
     (case create crc (clock base) base (unat (cfg_segment_size test_cfg)) d of
        (Inl e, d') \<Rightarrow> None
      | (Inr _, d') \<Rightarrow> Some d')"

text \<open>Writing to an open file and syncing it; opening it first.\<close>

definition edit_file :: "lsn \<Rightarrow> (osfile \<Rightarrow> faults \<Rightarrow> (osfile \<times> faults) option) \<Rightarrow> disk \<Rightarrow> disk option" where
  "edit_file base edit d =
     (case edit (file_of d (filename_for base)) (dfaults d) of
        None \<Rightarrow> None
      | Some (f1, q1) \<Rightarrow>
          (case sync_data f1 q1 of
             (Inl e, f2, q2) \<Rightarrow> None
           | (Inr _, f2, q2) \<Rightarrow> Some (put_file (filename_for base) f2 q2 d)))"

definition open_and_edit :: "lsn \<Rightarrow> (osfile \<Rightarrow> faults \<Rightarrow> (osfile \<times> faults) option) \<Rightarrow> disk \<Rightarrow> disk option" where
  "open_and_edit base edit d =
     (case open_file (filename_for base) d of
        (Inl e, d1) \<Rightarrow> None
      | (Inr f, d1) \<Rightarrow> edit_file base edit d1)"

definition write_once :: "nat \<Rightarrow> bytes \<Rightarrow> osfile \<Rightarrow> faults \<Rightarrow> (osfile \<times> faults) option" where
  "write_once off bs f flts =
     (case write_all_at f off bs flts of (Inl e, f', q) \<Rightarrow> None | (Inr _, f', q) \<Rightarrow> Some (f', q))"

fun fab_records ::
    "(bytes \<Rightarrow> u32) \<Rightarrow> lsn \<Rightarrow> nat \<Rightarrow> bytes list \<Rightarrow> osfile \<Rightarrow> faults \<Rightarrow> (osfile \<times> faults) option" where
  "fab_records crc l off [] f flts = Some (f, flts)"
| "fab_records crc l off (p # ps) f flts =
     (case encode_into crc [] l p of (buf, framed) \<Rightarrow>
        case write_once off buf f flts of
          None \<Rightarrow> None
        | Some (f', q) \<Rightarrow> fab_records crc (lsn_next l) (off + framed) ps f' q)"

definition fab_segment ::
    "(bytes \<Rightarrow> u32) \<Rightarrow> (lsn \<Rightarrow> u64) \<Rightarrow> lsn \<Rightarrow> bytes list \<Rightarrow> disk \<Rightarrow> disk option" where
  "fab_segment crc clock base payloads d =
     Option.bind (create_segment crc clock base d) (edit_file base (fab_records crc base HEADER_SIZE payloads))"

definition clobber_header :: "lsn \<Rightarrow> disk \<Rightarrow> disk option" where
  "clobber_header base d = open_and_edit base (write_once 0 (replicate 8 0xFF)) d"

fun fab_lsn_records ::
    "(bytes \<Rightarrow> u32) \<Rightarrow> nat \<Rightarrow> u64 list \<Rightarrow> osfile \<Rightarrow> faults \<Rightarrow> (osfile \<times> faults) option" where
  "fab_lsn_records crc off [] f flts = Some (f, flts)"
| "fab_lsn_records crc off (l # ls) f flts =
     (case encode_into crc [] (Lsn l) (ascii ''p'') of (buf, framed) \<Rightarrow>
        let off = off + framed in
        case write_once (off - length buf) buf f flts of
          None \<Rightarrow> None
        | Some (f', q) \<Rightarrow> fab_lsn_records crc off ls f' q)"

definition fab_lsns :: "(bytes \<Rightarrow> u32) \<Rightarrow> (lsn \<Rightarrow> u64) \<Rightarrow> lsn \<Rightarrow> u64 list \<Rightarrow> disk \<Rightarrow> disk option" where
  "fab_lsns crc clock base lsns d =
     Option.bind (create_segment crc clock base d) (edit_file base (fab_lsn_records crc HEADER_SIZE lsns))"

text \<open>\<^verbatim>\<open>File::create\<close>: an empty file, whether or not there was one.\<close>

definition file_create :: "string \<Rightarrow> disk \<Rightarrow> disk option" where
  "file_create n d =
     (case may_fail d of
        (Inl e, d1) \<Rightarrow> None
      | (Inr _, d1) \<Rightarrow>
          (case map_of (entries d1) n of
             None \<Rightarrow> Some (d1\<lparr>entries := entries d1 @ [(n, empty_file)], pending := pending d1 @ [Linked n]\<rparr>)
           | Some f \<Rightarrow> Some (put_file n (f\<lparr>fdata := []\<rparr>) (dfaults d1) d1)))"

section \<open>Logs of several segments\<close>

definition recover_multi_segment_clean_roundtrip :: "(bytes \<Rightarrow> u32) \<Rightarrow> (lsn \<Rightarrow> u64) \<Rightarrow> bool" where
  "recover_multi_segment_clean_roundtrip crc clock \<longleftrightarrow>
     with_disk (fab_segment crc clock (Lsn 1) [ascii ''a'', ascii ''b''] tempdir) (\<lambda>d.
       with_disk (fab_segment crc clock (Lsn 3) [ascii ''c''] d) (\<lambda>d.
         with_open (open_wal crc clock test_cfg d) (\<lambda>w report d.
           report_oldest_lsn report = Lsn 1 \<and> report_durable_lsn report = Lsn 3
           \<and> report_segments_scanned report = 2
           \<and> reads crc (Lsn 0) w d [rec 1 (ascii ''a''), rec 2 (ascii ''b''), rec 3 (ascii ''c'')])))"

definition recover_is_idempotent_across_repeated_open :: "(bytes \<Rightarrow> u32) \<Rightarrow> (lsn \<Rightarrow> u64) \<Rightarrow> bool" where
  "recover_is_idempotent_across_repeated_open crc clock \<longleftrightarrow>
     with_disk (fab_segment crc clock (Lsn 1) [ascii ''a'', ascii ''b''] tempdir) (\<lambda>d.
       with_disk (fab_segment crc clock (Lsn 3) [ascii ''c'', ascii ''d''] d) (\<lambda>d.
         foldr (\<lambda>i k d. with_open (open_wal crc clock test_cfg d) (\<lambda>w report d.
           report_oldest_lsn report = Lsn 1 \<and> report_durable_lsn report = Lsn 4
           \<and> segments w = [Lsn 1, Lsn 3] \<and> k (drop_handle d))) [0, 1, 2 :: nat] (\<lambda>d. True) d))"

definition recover_cross_segment_gap_is_contiguity_violation :: "(bytes \<Rightarrow> u32) \<Rightarrow> (lsn \<Rightarrow> u64) \<Rightarrow> bool" where
  "recover_cross_segment_gap_is_contiguity_violation crc clock \<longleftrightarrow>
     with_disk (fab_segment crc clock (Lsn 1) [ascii ''a'', ascii ''b''] tempdir) (\<lambda>d.
       with_disk (fab_segment crc clock (Lsn 5) [ascii ''c''] d) (\<lambda>d.
         fst (open_wal crc clock test_cfg d) = Inl ContiguityViolation))"

definition recover_empty_sealed_segment_is_contiguity_violation :: "(bytes \<Rightarrow> u32) \<Rightarrow> (lsn \<Rightarrow> u64) \<Rightarrow> bool" where
  "recover_empty_sealed_segment_is_contiguity_violation crc clock \<longleftrightarrow>
     with_disk (fab_segment crc clock (Lsn 1) [ascii ''a''] tempdir) (\<lambda>d.
       with_disk (fab_segment crc clock (Lsn 2) [] d) (\<lambda>d.
         with_disk (fab_segment crc clock (Lsn 3) [ascii ''c''] d) (\<lambda>d.
           fst (open_wal crc clock test_cfg d) = Inl ContiguityViolation)))"

definition recover_empty_active_segment_yields_base_minus_one :: "(bytes \<Rightarrow> u32) \<Rightarrow> (lsn \<Rightarrow> u64) \<Rightarrow> bool" where
  "recover_empty_active_segment_yields_base_minus_one crc clock \<longleftrightarrow>
     with_disk (fab_segment crc clock (Lsn 1) [ascii ''a'', ascii ''b''] tempdir) (\<lambda>d.
       with_disk (fab_segment crc clock (Lsn 3) [] d) (\<lambda>d.
         with_open (open_wal crc clock test_cfg d) (\<lambda>w report d.
           report_oldest_lsn report = Lsn 1 \<and> report_durable_lsn report = Lsn 2
           \<and> report_tail_state report = Clean \<and> segments w = [Lsn 1, Lsn 3]
           \<and> reads crc (Lsn 0) w d (map (\<lambda>i l got. l = Lsn i) [1, 2]))))"

definition recover_missing_prefix_is_accepted_silently :: "(bytes \<Rightarrow> u32) \<Rightarrow> (lsn \<Rightarrow> u64) \<Rightarrow> bool" where
  "recover_missing_prefix_is_accepted_silently crc clock \<longleftrightarrow>
     with_disk (fab_segment crc clock (Lsn 5) [ascii ''e'', ascii ''f''] tempdir) (\<lambda>d.
       with_open (open_wal crc clock test_cfg d) (\<lambda>w report d.
         report_oldest_lsn report = Lsn 5 \<and> report_durable_lsn report = Lsn 6
         \<and> fst (reader_from (Lsn 4) w d) = Inl ContiguityViolation
         \<and> reads crc (Lsn 5) w d [rec 5 (ascii ''e''), rec 6 (ascii ''f'')]))"

section \<open>Headers\<close>

definition recover_discards_incomplete_highest_base_file :: "(bytes \<Rightarrow> u32) \<Rightarrow> (lsn \<Rightarrow> u64) \<Rightarrow> bool" where
  "recover_discards_incomplete_highest_base_file crc clock \<longleftrightarrow>
     with_disk (fab_segment crc clock (Lsn 1) [ascii ''a'', ascii ''b''] tempdir) (\<lambda>d.
       with_disk (create_segment crc clock (Lsn 3) d) (\<lambda>d.
         with_disk (clobber_header (Lsn 3) d) (\<lambda>d.
           with_open (open_wal crc clock test_cfg d) (\<lambda>w report d.
             report_durable_lsn report = Lsn 2 \<and> segments w = [Lsn 1]
             \<and> \<not> file_exists d (filename_for (Lsn 3))))))"

definition recover_incomplete_sole_segment_cold_starts :: "(bytes \<Rightarrow> u32) \<Rightarrow> (lsn \<Rightarrow> u64) \<Rightarrow> bool" where
  "recover_incomplete_sole_segment_cold_starts crc clock \<longleftrightarrow>
     with_disk (create_segment crc clock (Lsn 1) tempdir) (\<lambda>d.
       with_disk (clobber_header (Lsn 1) d) (\<lambda>d.
         with_open (open_wal crc clock test_cfg d) (\<lambda>w report d.
           report_oldest_lsn report = Lsn 1 \<and> report_durable_lsn report = Lsn 0 \<and> segments w = [Lsn 1])))"

definition recover_corrupt_header_on_populated_highest_is_fatal :: "(bytes \<Rightarrow> u32) \<Rightarrow> (lsn \<Rightarrow> u64) \<Rightarrow> bool" where
  "recover_corrupt_header_on_populated_highest_is_fatal crc clock \<longleftrightarrow>
     with_disk (fab_segment crc clock (Lsn 1) [ascii ''a'', ascii ''b''] tempdir) (\<lambda>d.
       with_disk (fab_segment crc clock (Lsn 3) [ascii ''c''] d) (\<lambda>d.
         with_disk (clobber_header (Lsn 3) d) (\<lambda>d.
           fst (open_wal crc clock test_cfg d) = Inl BadSegmentHeader)))"

definition recover_corrupt_header_on_sealed_segment_is_fatal :: "(bytes \<Rightarrow> u32) \<Rightarrow> (lsn \<Rightarrow> u64) \<Rightarrow> bool" where
  "recover_corrupt_header_on_sealed_segment_is_fatal crc clock \<longleftrightarrow>
     with_disk (fab_segment crc clock (Lsn 1) [ascii ''a'', ascii ''b''] tempdir) (\<lambda>d.
       with_disk (fab_segment crc clock (Lsn 3) [ascii ''c''] d) (\<lambda>d.
         with_disk (clobber_header (Lsn 1) d) (\<lambda>d.
           fst (open_wal crc clock test_cfg d) = Inl BadSegmentHeader)))"

section \<open>Crashes of a cold start\<close>

definition v7_crash_after_create_before_fallocate_recovers :: "(bytes \<Rightarrow> u32) \<Rightarrow> (lsn \<Rightarrow> u64) \<Rightarrow> bool" where
  "v7_crash_after_create_before_fallocate_recovers crc clock \<longleftrightarrow>
     (let n = 5000 in
      with_disk (file_create (filename_for (Lsn n)) tempdir) (\<lambda>d.
        with_open (options_open crc clock (seed_option (Lsn n) options) test_cfg d) (\<lambda>w r d.
          (report_oldest_lsn r, report_durable_lsn r) = (Lsn n, Lsn (n - 1))
          \<and> report_tail_state r = Clean
          \<and> with_append crc (ascii ''a'') w (\<lambda>l w. l = Lsn n \<and>
              with_commit (commit crc clock null_on_durable w d) (\<lambda>l w d.
                replay_pairs crc w d (Lsn 0) = Some [(n, ascii ''a'')])))))"

definition v7_crash_after_fallocate_before_header_recovers :: "(bytes \<Rightarrow> u32) \<Rightarrow> (lsn \<Rightarrow> u64) \<Rightarrow> bool" where
  "v7_crash_after_fallocate_before_header_recovers crc clock \<longleftrightarrow>
     (let n = 2 ^ 33 in
      with_disk (create_segment crc clock (Lsn n) tempdir) (\<lambda>d.
        with_disk (open_and_edit (Lsn n) (write_once 0 (replicate HEADER_SIZE 0)) d) (\<lambda>d.
          with_open (options_open crc clock (seed_option (Lsn n) options) test_cfg d) (\<lambda>w r d.
            (report_oldest_lsn r, report_durable_lsn r) = (Lsn n, Lsn (n - 1))
            \<and> wal_file_names d = [pad_dec 20 (unat n) @ ''.wal'']))))"

definition v7_crash_with_torn_header_recovers :: "(bytes \<Rightarrow> u32) \<Rightarrow> (lsn \<Rightarrow> u64) \<Rightarrow> bool" where
  "v7_crash_with_torn_header_recovers crc clock \<longleftrightarrow>
     (let n = 321 in
      with_disk (create_segment crc clock (Lsn n) tempdir) (\<lambda>d.
        with_disk (clobber_header (Lsn n) d) (\<lambda>d.
          with_open (options_open crc clock (seed_option (Lsn n) options) test_cfg d) (\<lambda>w r d.
            (report_oldest_lsn r, report_durable_lsn r) = (Lsn n, Lsn (n - 1)))))
      \<and> with_disk (create_segment crc clock (Lsn n) tempdir) (\<lambda>d.
          with_disk (clobber_header (Lsn n) d) (\<lambda>d.
            with_open (options_open crc clock (seed_option (Lsn 9) options) test_cfg d) (\<lambda>w r d.
              (report_oldest_lsn r, report_durable_lsn r) = (Lsn 9, Lsn 8)
              \<and> wal_file_names d = [pad_dec 20 9 @ ''.wal'']))))"

definition v7_crash_before_dir_fsync_recovers :: "(bytes \<Rightarrow> u32) \<Rightarrow> (lsn \<Rightarrow> u64) \<Rightarrow> bool" where
  "v7_crash_before_dir_fsync_recovers crc clock \<longleftrightarrow>
     (let n = 64 in
      with_disk (create_segment crc clock (Lsn n) tempdir) (\<lambda>d.
        with_open (options_open crc clock (seed_option (Lsn 3) options) test_cfg d) (\<lambda>w r d.
          (report_oldest_lsn r, report_durable_lsn r) = (Lsn n, Lsn (n - 1))
          \<and> with_append crc (ascii ''z'') w (\<lambda>l w. l = Lsn n \<and>
              with_commit (commit crc clock null_on_durable w d) (\<lambda>l w d.
                with_open (open_wal crc clock test_cfg (drop_handle d)) (\<lambda>w r d.
                  (report_oldest_lsn r, report_durable_lsn r) = (Lsn n, Lsn n)
                  \<and> replay_pairs crc w d (Lsn 0) = Some [(n, ascii ''z'')])))))
      \<and> with_open (options_open crc clock (seed_option (Lsn n) options) test_cfg tempdir) (\<lambda>w r d.
          (report_oldest_lsn r, report_durable_lsn r) = (Lsn n, Lsn (n - 1))))"

definition v7_crash_during_first_roll_of_seeded_log_recovers :: "(bytes \<Rightarrow> u32) \<Rightarrow> (lsn \<Rightarrow> u64) \<Rightarrow> bool" where
  "v7_crash_during_first_roll_of_seeded_log_recovers crc clock \<longleftrightarrow>
     with_disk (fab_segment crc clock (Lsn 900) [ascii ''a'', ascii ''b''] tempdir) (\<lambda>d.
       with_disk (create_segment crc clock (Lsn 902) d) (\<lambda>d.
         with_disk (clobber_header (Lsn 902) d) (\<lambda>d.
           with_open (options_open crc clock (seed_option (Lsn 1) options) test_cfg d) (\<lambda>w r d.
             (report_oldest_lsn r, report_durable_lsn r) = (Lsn 900, Lsn 901)
             \<and> segments w = [Lsn 900]
             \<and> replay_pairs crc w d (Lsn 0) = Some [(900, ascii ''a''), (901, ascii ''b'')]))))"

section \<open>The last LSN\<close>

definition v71_segment_after_max_segment_is_contiguity_violation :: "(bytes \<Rightarrow> u32) \<Rightarrow> (lsn \<Rightarrow> u64) \<Rightarrow> bool" where
  "v71_segment_after_max_segment_is_contiguity_violation crc clock \<longleftrightarrow>
     list_all (\<lambda>successor.
       with_disk (fab_lsns crc clock (Lsn (0xFFFFFFFFFFFFFFFF - 1)) [0xFFFFFFFFFFFFFFFF - 1, 0xFFFFFFFFFFFFFFFF] tempdir) (\<lambda>d.
         with_disk (fab_lsns crc clock MAX_LSN successor d) (\<lambda>d.
           fst (open_wal crc clock test_cfg d) = Inl ContiguityViolation))) [[0xFFFFFFFFFFFFFFFF], []]
     \<and> with_disk (fab_lsns crc clock (Lsn (0xFFFFFFFFFFFFFFFF - 1)) [0xFFFFFFFFFFFFFFFF - 1, 0xFFFFFFFFFFFFFFFF] tempdir) (\<lambda>d.
         with_open (open_wal crc clock test_cfg d) (\<lambda>w r d. report_durable_lsn r = MAX_LSN))"

definition v71_duplicate_max_on_disk_fails_open :: "(bytes \<Rightarrow> u32) \<Rightarrow> (lsn \<Rightarrow> u64) \<Rightarrow> bool" where
  "v71_duplicate_max_on_disk_fails_open crc clock \<longleftrightarrow>
     with_disk (fab_lsns crc clock MAX_LSN [0xFFFFFFFFFFFFFFFF, 0xFFFFFFFFFFFFFFFF] tempdir) (\<lambda>d.
       case fst (open_wal crc clock test_cfg d) of
         Inl (Corruption segment offset reason) \<Rightarrow> segment = MAX_LSN
       | _ \<Rightarrow> False)"

text \<open>The test writes to the open file of the handle.\<close>

definition write_active :: "bytes \<Rightarrow> 'o wal \<Rightarrow> disk \<Rightarrow> disk option" where
  "write_active bs w d =
     (case write_once (write_offset w) bs (file_of d (active w)) (dfaults d) of
        None \<Rightarrow> None
      | Some (f, q) \<Rightarrow> Some (put_file (active w) f q d))"

definition v71_reader_stops_after_max_and_never_yields_a_duplicate :: "(bytes \<Rightarrow> u32) \<Rightarrow> (lsn \<Rightarrow> u64) \<Rightarrow> bool" where
  "v71_reader_stops_after_max_and_never_yields_a_duplicate crc clock \<longleftrightarrow>
     with_open (options_open crc clock (seed_option (Lsn (0xFFFFFFFFFFFFFFFF - 1)) options) test_cfg tempdir) (\<lambda>w report d.
       append_each crc [ascii ''a'', ascii ''last''] w (\<lambda>w.
         with_commit (commit crc clock null_on_durable w d) (\<lambda>l w d. l = MAX_LSN \<and>
           (case encode_into crc [] MAX_LSN (ascii ''duplicate'') of (buf, framed) \<Rightarrow>
              with_disk (write_active buf w d) (\<lambda>d.
                replay_pairs crc w d (Lsn 0) =
                  Some [(0xFFFFFFFFFFFFFFFF - 1, ascii ''a''), (0xFFFFFFFFFFFFFFFF, ascii ''last'')]
                \<and> replay_pairs crc w d MAX_LSN = Some [(0xFFFFFFFFFFFFFFFF, ascii ''last'')])))))"

section \<open>What a directory holds\<close>

datatype content = Sound "bytes list" | Headless "bytes list" | Doubled bytes | Blank

fun is_file :: "(bytes \<Rightarrow> u32) \<Rightarrow> (lsn \<Rightarrow> u64) \<Rightarrow> nat \<Rightarrow> content \<Rightarrow> osfile \<Rightarrow> bool" where
  "is_file crc clock b (Sound ps) f \<longleftrightarrow> f = seg_file crc 65536 (seg_of crc clock (b, ps))"
| "is_file crc clock b (Headless ps) f \<longleftrightarrow>
     (\<exists>h. length h = 64 \<and> decode_header crc h = Inl BadSegmentHeader \<and> f = disk_file (seg_bytes crc h b ps 65536))"
| "is_file crc clock b (Doubled p) f \<longleftrightarrow>
     f = disk_file (seg_image crc (encode_header crc (lsn_of b) (clock (lsn_of b))) b [p]
           (frame crc (lsn_of b) p @ zeros (65536 - 64 - 2 * framed_size (length p))))"
| "is_file crc clock b Blank f \<longleftrightarrow> f = disk_file []"

fun records :: "content \<Rightarrow> bytes list" where
  "records (Sound ps) = ps"
| "records (Headless ps) = ps"
| "records (Doubled p) = [p]"
| "records Blank = []"

text \<open>Twice the size, for the duplicates.\<close>

definition room :: "nat \<Rightarrow> content \<Rightarrow> bool" where
  "room b c \<longleftrightarrow> 0 < b \<and> b \<le> u64_max \<and> b + length (records c) \<le> Suc u64_max \<and> payloads_ok 4096 (records c)
     \<and> 64 + 2 * frames_size (records c) \<le> 65536"

definition has_file :: "(bytes \<Rightarrow> u32) \<Rightarrow> (lsn \<Rightarrow> u64) \<Rightarrow> disk \<Rightarrow> nat \<Rightarrow> content \<Rightarrow> bool" where
  "has_file crc clock d b c \<longleftrightarrow>
     room b c \<and> (\<exists>f. map_of (entries d) (filename_for (lsn_of b)) = Some f \<and> is_file crc clock b c f)"

definition lies :: "(bytes \<Rightarrow> u32) \<Rightarrow> (lsn \<Rightarrow> u64) \<Rightarrow> disk \<Rightarrow> (nat \<times> content) list \<Rightarrow> bool" where
  "lies crc clock d fs \<longleftrightarrow> \<not> lock_held d \<and> dfaults d = [] \<and> named d \<and> distinct (map fst (entries d))
     \<and> distinct (map fst fs) \<and> (\<forall>x \<in> set fs. fst x \<le> u64_max)
     \<and> (\<forall>b \<le> u64_max. case map_of fs b of
          None \<Rightarrow> map_of (entries d) (filename_for (lsn_of b)) = None
        | Some c \<Rightarrow> has_file crc clock d b c)"

lemma lies_tempdir: "lies crc clock tempdir []"
  by (simp add: lies_def tempdir_def named_def)

lemma lies_file:
  assumes "lies crc clock d fs" "(b, c) \<in> set fs"
  shows "has_file crc clock d b c"
proof -
  have "b \<le> u64_max" "map_of fs b = Some c" using assms by (auto simp: lies_def)
  then show ?thesis using assms(1) by (force simp: lies_def split: option.splits)
qed

lemma lies_no_file:
  assumes "lies crc clock d fs" "b \<notin> fst ` set fs" "b \<le> u64_max"
  shows "map_of (entries d) (filename_for (lsn_of b)) = None"
proof -
  have "case map_of fs b of None \<Rightarrow> map_of (entries d) (filename_for (lsn_of b)) = None
    | Some c \<Rightarrow> has_file crc clock d b c" using assms(1,3) by (simp add: lies_def)
  moreover have "map_of fs b = None" using assms(2) by (simp add: map_of_eq_None_iff)
  ultimately show ?thesis by simp
qed

lemma put_file_map: "map_of (entries (put_file n f q d)) = (map_of (entries d))(n \<mapsto> f)"
  by (simp add: put_file_def update_conv')

lemma lies_put:
  assumes "lies crc clock d fs" "is_file crc clock b c f" "room b c"
    "map_of (entries d') = (map_of (entries d))(filename_for (lsn_of b) \<mapsto> f)" "distinct (map fst (entries d'))"
    "named d'" "dfaults d' = []" "lock_held d' = lock_held d"
  shows "lies crc clock d' (AList.update b c fs)"
proof -
  have b: "b \<le> u64_max" using assms(3) by (simp add: room_def)
  have other: "map_of (entries d') (filename_for (lsn_of x)) = map_of (entries d) (filename_for (lsn_of x))"
    if "x \<le> u64_max" "x \<noteq> b" for x
    using that b assms(4) by (simp add: lsn_of_inject)
  have "case map_of (AList.update b c fs) x of
      None \<Rightarrow> map_of (entries d') (filename_for (lsn_of x)) = None
    | Some c \<Rightarrow> has_file crc clock d' x c" if x: "x \<le> u64_max" for x
  proof (cases "x = b")
    case True
    then show ?thesis using assms(2-4) by (simp add: update_conv' has_file_def)
  next
    case False
    have "case map_of fs x of None \<Rightarrow> map_of (entries d) (filename_for (lsn_of x)) = None
      | Some c \<Rightarrow> has_file crc clock d x c" using assms(1) x by (simp add: lies_def)
    then show ?thesis using False other [OF x False] by (simp add: update_conv' has_file_def split: option.splits)
  qed
  moreover have "fst ` set (AList.update b c fs) = insert b (fst ` set fs)"
    unfolding set_map [symmetric] update_keys by auto
  then have "\<forall>x \<in> fst ` set (AList.update b c fs). x \<le> u64_max" using assms(1) b by (auto simp: lies_def)
  then have "\<forall>x \<in> set (AList.update b c fs). fst x \<le> u64_max" by simp
  ultimately show ?thesis using assms by (simp add: lies_def distinct_update)
qed

section \<open>The files the helpers write\<close>

lemma create_lies:
  assumes "lies crc clock d fs" "lsn_nat base = b" "b \<notin> fst ` set fs" "0 < b"
  obtains d' where "create_segment crc clock base d = Some d'" "lies crc clock d' (AList.update b (Sound []) fs)"
proof -
  have bl: "b \<le> u64_max" "base = lsn_of b" using assms(2) lsn_nat_le_max [of base] by auto
  have none: "map_of (entries d) (filename_for base) = None"
    using lies_no_file [OF assms(1,3) bl(1)] bl(2) by simp
  have sz: "unat (cfg_segment_size test_cfg) = 65536" by (simp add: eval)
  obtain res d' where c: "create crc (clock base) base 65536 d = (res, d')" by fastforce
  have nf: "dfaults d = []" using assms(1) by (simp add: lies_def)
  from create_fresh [OF c nf none] have f: "res = Inr ()" "dfaults d' = []" "lock_held d' = lock_held d"
    "entries d' = entries d @ [(filename_for base, disk_file (fresh_segment crc (clock base) base 65536))]" by simp_all
  have fl: "is_file crc clock b (Sound []) (disk_file (fresh_segment crc (clock base) base 65536))"
    using seg_bytes_fresh [of crc b "clock base" 65536] bl(2) by (simp add: seg_file_def)
  have "named d" "distinct (map fst (entries d))" using assms(1) by (simp_all add: lies_def)
  with none f(4) have "named d'" "distinct (map fst (entries d'))" "map_of (entries d') = (map_of (entries d))(filename_for (lsn_of b)
      \<mapsto> disk_file (fresh_segment crc (clock base) base 65536))"
    using named_create [OF c] bl(2) by (auto simp: map_of_eq_None_iff map_of_snoc simp del: map_of_append)
  moreover have "room b (Sound [])" using assms(4) bl(1) by (simp add: room_def)
  ultimately have "lies crc clock d' (AList.update b (Sound []) fs)"
    by (intro lies_put [OF assms(1) fl]) (use f in simp_all)
  then show ?thesis using that c f(1) sz by (simp add: create_segment_def)
qed

lemma edit_lies:
  assumes "lies crc clock d fs" "lsn_nat base = b" "map_of fs b = Some c"
    and "\<And>f. is_file crc clock b c f \<Longrightarrow> room b c \<Longrightarrow>
      \<exists>g. edit f [] = Some (g, []) \<and> is_file crc clock b c' (g\<lparr>fsynced := fdata g\<rparr>)"
    and "room b c'"
  obtains d' where "edit_file base edit d = Some d'" "lies crc clock d' (AList.update b c' fs)"
    "open_and_edit base edit d = Some d'"
proof -
  have base: "base = lsn_of b" using assms(2) by auto
  obtain f where f: "room b c" "map_of (entries d) (filename_for base) = Some f" "is_file crc clock b c f"
    using lies_file [OF assms(1) map_of_SomeD [OF assms(3)]] base by (auto simp: has_file_def)
  obtain g where g: "edit f [] = Some (g, [])" "is_file crc clock b c' (g\<lparr>fsynced := fdata g\<rparr>)"
    using assms(4) [OF f(3,1)] by blast
  have nf: "dfaults d = []" using assms(1) by (simp add: lies_def)
  let ?d = "put_file (filename_for base) (g\<lparr>fsynced := fdata g\<rparr>) [] d"
  have e: "edit_file base edit d = Some ?d" using f(2) g(1) nf by (simp add: edit_file_def file_of_def sync_data_def)
  moreover have "open_and_edit base edit d = Some ?d"
    using e open_file_no_faults [OF nf f(2)] by (simp add: open_and_edit_def)
  moreover have dn: "distinct (map fst (entries d))" "named d" using assms(1) by (simp_all add: lies_def)
  have "named ?d" by (rule named_put [OF dn(2)]) (simp add: is_seg_name_iff)
  with dn(1) have "distinct (map fst (entries ?d))" "named ?d" by (simp_all add: put_file_def distinct_update)
  then have "lies crc clock ?d (AList.update b c' fs)"
    by (intro lies_put [OF assms(1) g(2) assms(5)]) (simp_all add: put_file_map base | simp add: put_file_def)+
  ultimately show ?thesis using that by blast
qed

lemma write_once_ok: "write_once off bs f [] = Some (f\<lparr>fdata := pwrite off bs (fdata f)\<rparr>, [])"
  by (simp add: write_once_def write_all_at_def)

lemma fab_records_ok:
  assumes "0 < n" "n + length ps \<le> Suc u64_max"
  shows "fab_records crc (lsn_of n) off ps f [] = Some (f\<lparr>fdata := pwrite off (frames crc n ps) (fdata f)\<rparr>, [])"
  using assms
proof (induction ps arbitrary: n off f)
  case (Cons p ps)
  have "fab_records crc (lsn_next (lsn_of n)) (off + framed_size (length p)) ps g []
      = Some (g\<lparr>fdata := pwrite (off + framed_size (length p)) (frames crc (Suc n) ps) (fdata g)\<rparr>, [])" for g
  proof (cases "ps = []")
    case False
    then have "lsn_next (lsn_of n) = lsn_of (Suc n)"
      using Cons.prems by (cases ps) (simp_all add: lsn_next_of)
    then show ?thesis using Cons.IH [of "Suc n"] Cons.prems by simp
  qed simp
  then show ?case
    using pwrite_pwrite [of off "frame crc (lsn_of n) p" "frames crc (Suc n) ps" "fdata f"]
    by (simp add: encode_into_eq write_once_ok)
qed simp

lemma fab_lsn_records_ok:
  "fab_lsn_records crc off ls f [] =
     Some (f\<lparr>fdata := pwrite off (concat (map (\<lambda>l. frame crc (Lsn l) (ascii ''p'')) ls)) (fdata f)\<rparr>, [])"
proof (induction ls arbitrary: off f)
  case (Cons l ls)
  then show ?case
    using pwrite_pwrite [of off "frame crc (Lsn l) (ascii ''p'')" "concat (map (\<lambda>l. frame crc (Lsn l) (ascii ''p'')) ls)" "fdata f"]
    by (simp add: encode_into_eq write_once_ok Let_def)
qed simp

text \<open>Records into an empty segment, and a header that is none.\<close>

lemma sound_written:
  assumes "is_file crc clock b (Sound []) f" "64 + length bs \<le> 65536" "bs \<noteq> []"
  shows "pwrite 64 bs (fdata f) = encode_header crc (lsn_of b) (clock (lsn_of b)) @ bs @ zeros (65536 - 64 - length bs)"
  using assms by (simp add: seg_file_def seg_bytes_def seg_image_def pwrite_inside)

lemma bad_magic: "take 8 h \<noteq> MAGIC \<Longrightarrow> decode_header crc h = Inl BadSegmentHeader"
  by (simp add: decode_header_def window_def)

lemma headless_written:
  assumes "is_file crc clock b (Sound ps) f" "8 \<le> length bs" "length bs \<le> 64" "hd bs \<noteq> 0x57"
  shows "\<exists>g. write_once 0 bs f [] = Some (g, []) \<and> is_file crc clock b (Headless ps) (g\<lparr>fsynced := fdata g\<rparr>)"
proof -
  let ?h = "encode_header crc (lsn_of b) (clock (lsn_of b))"
  let ?g = "bs @ drop (length bs) ?h" and ?r = "frames crc b ps @ zeros (65536 - 64 - frames_size ps)"
  have "take 8 bs \<noteq> MAGIC"
  proof
    assume "take 8 bs = MAGIC"
    then have "hd (take 8 bs) = 0x57" by simp
    then show False using assms(2,4) by (cases bs) simp_all
  qed
  then have magic: "take 8 ?g \<noteq> MAGIC" using assms(2) by simp
  have "fdata f = ?h @ ?r" "fbad f = []" using assms(1) by (simp_all add: seg_file_def seg_bytes_def seg_image_def disk_file_def)
  then have "pwrite 0 bs (fdata f) = ?g @ ?r" using assms(3) by (simp add: pwrite_inside)
  moreover have "decode_header crc ?g = Inl BadSegmentHeader" by (rule bad_magic [OF magic])
  moreover have "length ?g = 64" using assms(3) by simp
  moreover have "\<exists>h. length h = 64 \<and> decode_header crc h = Inl BadSegmentHeader
      \<and> disk_file (?g @ ?r) = disk_file (seg_bytes crc h b ps 65536)"
    using calculation(2,3) by (intro exI [of _ ?g]) (simp add: seg_bytes_def seg_image_def)
  moreover have "f\<lparr>fdata := x, fsynced := x\<rparr> = disk_file x" for x using \<open>fbad f = []\<close> by (cases f) (simp add: disk_file_def)
  ultimately show ?thesis by (simp add: write_once_ok)
qed

named_theorems fabs

lemma create_step [fabs]:
  assumes "lies crc clock d fs" "lsn_nat base = b" "b \<notin> fst ` set fs \<and> 0 < b" "AList.update b (Sound []) fs = fs'"
    and "\<And>d'. lies crc clock d' fs' \<Longrightarrow> k d'"
  shows "with_disk (create_segment crc clock base d) k"
  using create_lies [OF assms(1,2)] assms(3-5) by (fastforce simp: with_disk_def)

lemma fab_step [fabs]:
  assumes "lies crc clock d fs" "lsn_nat base = b" "b \<notin> fst ` set fs" "room b (Sound ps)"
    "AList.update b (Sound ps) fs = fs'" and "\<And>d'. lies crc clock d' fs' \<Longrightarrow> k d'"
  shows "with_disk (fab_segment crc clock base ps d) k"
proof -
  have b: "0 < b" "b + length ps \<le> Suc u64_max" "64 + frames_size ps \<le> 65536" "base = lsn_of b"
    using assms(2,4) by (auto simp: room_def)
  obtain d1 where d1: "create_segment crc clock base d = Some d1" "lies crc clock d1 (AList.update b (Sound []) fs)"
    by (rule create_lies [OF assms(1-3) b(1)])
  obtain d2 where d2: "edit_file base (fab_records crc base HEADER_SIZE ps) d1 = Some d2"
    "lies crc clock d2 (AList.update b (Sound ps) (AList.update b (Sound []) fs))"
  proof (rule edit_lies [OF d1(2) assms(2) _ _ assms(4)])
    fix f assume f: "is_file crc clock b (Sound []) f"
    let ?g = "f\<lparr>fdata := pwrite 64 (frames crc b ps) (fdata f)\<rparr>"
    have "is_file crc clock b (Sound ps) (?g\<lparr>fsynced := fdata ?g\<rparr>)"
      using f b(3) sound_written [OF f, of "frames crc b ps"]
      by (cases "ps = []") (simp_all add: seg_file_def seg_bytes_def seg_image_def disk_file_def)
    then show "\<exists>g. fab_records crc base HEADER_SIZE ps f [] = Some (g, []) \<and> is_file crc clock b (Sound ps) (g\<lparr>fsynced := fdata g\<rparr>)"
      using fab_records_ok [OF b(1,2), of crc 64 f] b(4) by simp
  qed (simp_all add: update_conv')
  have "AList.update b (Sound ps) (AList.update b (Sound []) fs) = fs'"
    using assms(5) by (induction fs arbitrary: fs') auto
  then show ?thesis using assms(6) d1(1) d2 by (simp add: with_disk_def fab_segment_def)
qed

lemma headless_step:
  assumes "lies crc clock d fs" "lsn_nat base = b" "map_of fs b = Some (Sound ps)" "room b (Headless ps)"
    "8 \<le> length bs \<and> length bs \<le> 64 \<and> hd bs \<noteq> 0x57" "AList.update b (Headless ps) fs = fs'"
    and "\<And>d'. lies crc clock d' fs' \<Longrightarrow> k d'"
  shows "with_disk (open_and_edit base (write_once 0 bs) d) k"
proof -
  obtain d' where "open_and_edit base (write_once 0 bs) d = Some d'" "lies crc clock d' (AList.update b (Headless ps) fs)"
    by (rule edit_lies [OF assms(1-3) _ assms(4), of "write_once 0 bs"])
      (use assms(5) in \<open>simp_all add: headless_written del: is_file.simps\<close>)
  then show ?thesis using assms(6,7) by (simp add: with_disk_def)
qed

lemma clobber_step [fabs]:
  assumes "lies crc clock d fs" "lsn_nat base = b" "map_of fs b = Some (Sound ps)" "room b (Headless ps)"
    "AList.update b (Headless ps) fs = fs'" and "\<And>d'. lies crc clock d' fs' \<Longrightarrow> k d'"
  shows "with_disk (clobber_header base d) k"
  unfolding clobber_header_def
  by (rule headless_step [OF assms(1-4) _ assms(5)]) (use assms(6) in simp_all)

lemma no_header_step [fabs]:
  assumes "lies crc clock d fs" "lsn_nat base = b" "map_of fs b = Some (Sound ps)" "room b (Headless ps)"
    "AList.update b (Headless ps) fs = fs'" and "\<And>d'. lies crc clock d' fs' \<Longrightarrow> k d'"
  shows "with_disk (open_and_edit base (write_once 0 (replicate HEADER_SIZE 0)) d) k"
  by (rule headless_step [OF assms(1-4) _ assms(5)]) (use assms(6) in simp_all)

fun in_order :: "nat \<Rightarrow> u64 list \<Rightarrow> bool" where
  "in_order b [] = True"
| "in_order b (l # ls) = (unat l = b \<and> in_order (Suc b) ls)"

lemma in_order_frames:
  "in_order b ls \<Longrightarrow> concat (map (\<lambda>l. frame crc (Lsn l) (ascii ''p'')) ls) = frames crc b (map (\<lambda>l. ascii ''p'') ls)"
proof (induction ls arbitrary: b)
  case (Cons l ls)
  then have "Lsn l = lsn_of b" by (auto simp: lsn_of_def)
  with Cons show ?case by simp
qed simp

lemma lsns_file:
  assumes "is_file crc clock b (Sound []) f" "0 < length bs" "64 + length bs \<le> 65536"
    "concat (map (\<lambda>l. frame crc (Lsn l) (ascii ''p'')) ls) = bs"
    and "is_file crc clock b c (disk_file (encode_header crc (lsn_of b) (clock (lsn_of b)) @ bs @ zeros (65536 - 64 - length bs)))"
  shows "\<exists>g. fab_lsn_records crc 64 ls f [] = Some (g, []) \<and> is_file crc clock b c (g\<lparr>fsynced := fdata g\<rparr>)"
proof -
  have "fbad f = []" using assms(1) by (simp add: seg_file_def disk_file_def)
  then have "f\<lparr>fdata := x, fsynced := x\<rparr> = disk_file x" for x by (cases f) (simp add: disk_file_def)
  then show ?thesis using fab_lsn_records_ok [of crc 64 ls f] sound_written [OF assms(1,3)] assms(2,4,5) by simp
qed

lemma fab_lsns_lies:
  assumes "lies crc clock d fs" "lsn_nat base = b" "b \<notin> fst ` set fs" "room b c"
    and "\<And>f. is_file crc clock b (Sound []) f \<Longrightarrow>
      \<exists>g. fab_lsn_records crc 64 ls f [] = Some (g, []) \<and> is_file crc clock b c (g\<lparr>fsynced := fdata g\<rparr>)"
    and "\<And>d'. lies crc clock d' (AList.update b c fs) \<Longrightarrow> k d'"
  shows "with_disk (fab_lsns crc clock base ls d) k"
proof -
  have "0 < b" using assms(4) by (simp add: room_def)
  then obtain d1 where d1: "create_segment crc clock base d = Some d1" "lies crc clock d1 (AList.update b (Sound []) fs)"
    using create_lies [OF assms(1-3)] by blast
  obtain d2 where d2: "edit_file base (fab_lsn_records crc 64 ls) d1 = Some d2"
    "lies crc clock d2 (AList.update b c (AList.update b (Sound []) fs))"
    by (rule edit_lies [OF d1(2) assms(2) _ _ assms(4), where edit = "fab_lsn_records crc 64 ls" and c = "Sound []"])
      (use assms(5) in \<open>simp_all add: update_conv' del: is_file.simps\<close>)
  have "AList.update b c (AList.update b (Sound []) fs) = AList.update b c fs" by (induction fs) auto
  then show ?thesis using assms(6) d1(1) d2 by (simp add: with_disk_def fab_lsns_def)
qed

lemma fab_lsns_step:
  assumes "lies crc clock d fs" "lsn_nat base = b" "b \<notin> fst ` set fs" "in_order b ls"
    "room b (Sound (map (\<lambda>l. ascii ''p'') ls))" "AList.update b (Sound (map (\<lambda>l. ascii ''p'') ls)) fs = fs'"
    and "\<And>d'. lies crc clock d' fs' \<Longrightarrow> k d'"
  shows "with_disk (fab_lsns crc clock base ls d) k"
proof (rule fab_lsns_lies [OF assms(1-3,5)])
  fix f assume f: "is_file crc clock b (Sound []) f"
  let ?ps = "map (\<lambda>l. ascii ''p'') ls"
  show "\<exists>g. fab_lsn_records crc 64 ls f [] = Some (g, []) \<and> is_file crc clock b (Sound ?ps) (g\<lparr>fsynced := fdata g\<rparr>)"
  proof (cases "ls = []")
    case True
    then show ?thesis using f by (auto simp: seg_file_def disk_file_def)
  next
    case False
    then have "frames crc b ?ps \<noteq> []" by (simp only: frames_eq_Nil map_is_Nil_conv) simp
    then have pos: "0 < length (frames crc b ?ps)" unfolding length_greater_0_conv .
    have le: "64 + length (frames crc b ?ps) \<le> 65536" using assms(5) by (simp add: room_def)
    show ?thesis
      by (rule lsns_file [OF f pos le in_order_frames [OF assms(4)]]) (simp add: seg_file_def seg_bytes_def seg_image_def)
  qed
qed (use assms(6,7) in simp)

lemma fab_duplicate_step:
  assumes "lies crc clock d fs" "lsn_nat base = b" "b \<notin> fst ` set fs" "unat l = b"
    "room b (Doubled (ascii ''p''))" "AList.update b (Doubled (ascii ''p'')) fs = fs'"
    and "\<And>d'. lies crc clock d' fs' \<Longrightarrow> k d'"
  shows "with_disk (fab_lsns crc clock base [l, l] d) k"
proof (rule fab_lsns_lies [OF assms(1-3,5)])
  fix f assume f: "is_file crc clock b (Sound []) f"
  have "Lsn l = lsn_of b" using assms(4) by (auto simp: lsn_of_def)
  moreover have "64 + (framed_size 1 + framed_size 1) \<le> 65536" by (simp add: payload_sizes)
  ultimately show "\<exists>g. fab_lsn_records crc 64 [l, l] f [] = Some (g, []) \<and> is_file crc clock b (Doubled (ascii ''p'')) (g\<lparr>fsynced := fdata g\<rparr>)"
    by (intro lsns_file [OF f, where bs = "frame crc (lsn_of b) (ascii ''p'') @ frame crc (lsn_of b) (ascii ''p'')"])
      (simp_all add: seg_image_def payload_sizes)
qed (use assms(6,7) in simp)

lemma file_create_step [fabs]:
  assumes "lies crc clock d fs" "lsn_nat base = b" "b \<notin> fst ` set fs" "room b Blank"
    "AList.update b Blank fs = fs'" and "\<And>d'. lies crc clock d' fs' \<Longrightarrow> k d'"
  shows "with_disk (file_create (filename_for base) d) k"
proof -
  have b: "b \<le> u64_max" "base = lsn_of b" using assms(2) lsn_nat_le_max [of base] by auto
  have none: "map_of (entries d) (filename_for base) = None" using lies_no_file [OF assms(1,3) b(1)] b(2) by simp
  have d: "dfaults d = []" "named d" "distinct (map fst (entries d))" using assms(1) by (simp_all add: lies_def)
  let ?d = "d\<lparr>entries := entries d @ [(filename_for base, empty_file)], pending := pending d @ [Linked (filename_for base)]\<rparr>"
  have f: "file_create (filename_for base) d = Some ?d"
    using none d(1) by (cases d) (simp add: file_create_def may_fail_no_faults)
  have "is_seg_name (filename_for base)" by (auto simp: is_seg_name_iff)
  then have "lies crc clock ?d (AList.update b Blank fs)"
    by (intro lies_put [OF assms(1) _ assms(4), of empty_file])
      (use d none b(2) in \<open>simp_all add: named_def ball_Un image_Un map_of_eq_None_iff map_of_snoc empty_file_def disk_file_def del: map_of_append\<close>)
  then show ?thesis using f assms(5,6) by (simp add: with_disk_def)
qed

section \<open>Opening what was written\<close>

fun dense_shape :: "shape \<Rightarrow> bool" where
  "dense_shape [] = True"
| "dense_shape [x] = True"
| "dense_shape (x # y # zs) = (snd x \<noteq> [] \<and> fst y = fst x + length (snd x) \<and> dense_shape (y # zs))"

lemma chain_dense: "sh \<noteq> [] \<Longrightarrow> chain (segs_of crc clock sh) = dense_shape sh"
  by (induction sh rule: dense_shape.induct) (simp_all add: seg_end_def)

lemma seg_map_shape:
  assumes "b \<le> u64_max" "\<forall>x \<in> set sh. fst x \<le> u64_max"
  shows "map_of (seg_map crc ssz (segs_of crc clock sh)) (filename_for (lsn_of b))
    = map_option (\<lambda>ps. seg_file crc ssz (seg_of crc clock (b, ps))) (map_of sh b)"
  using assms by (induction sh) (auto simp: seg_map_def lsn_of_inject)

definition sound :: "shape \<Rightarrow> (nat \<times> content) list" where
  "sound sh = map (\<lambda>x. (fst x, Sound (snd x))) sh"

lemma sound_map_of: "map_of (sound sh) b = map_option Sound (map_of sh b)"
  by (induction sh) (auto simp: sound_def)

lemma room_seg_ok:
  assumes "room b (Sound ps)"
  shows "seg_ok crc 65536 4096 (seg_of crc clock (b, ps))"
  using assms by (simp add: seg_ok_def seg_wf_def room_def decode_encode_header is_none_iff u32_max_def)

lemma lies_segs_ok:
  assumes "lies crc clock d fs" "set (sound sh) \<subseteq> set fs" "dense_shape sh" "sh \<noteq> []"
  shows "segs_ok crc 65536 4096 (segs_of crc clock sh)"
proof -
  have "seg_ok crc 65536 4096 (seg_of crc clock x)" if "x \<in> set sh" for x
  proof -
    have "(fst x, Sound (snd x)) \<in> set fs" using that assms(2) by (auto simp: sound_def)
    then show ?thesis using lies_file [OF assms(1)] room_seg_ok [of "fst x" "snd x"] by (force simp: has_file_def)
  qed
  then show ?thesis using chain_dense [OF assms(4)] assms(3) by (simp add: segs_ok_def segs_of_def list_all_iff)
qed

lemma lies_rests:
  assumes "lies crc clock d (sound sh)" "dense_shape sh"
  shows "rests crc clock test_cfg d sh"
proof -
  have d: "\<not> lock_held d" "dfaults d = []" "named d" "distinct (map fst (entries d))" "\<forall>x \<in> set sh. fst x \<le> u64_max"
    using assms(1) by (auto simp: lies_def sound_def)
  have "map_of (entries d) n = map_of (seg_map crc 65536 (segs_of crc clock sh)) n" if sn: "is_seg_name n" for n
  proof -
    obtain b where b: "n = filename_for (lsn_of b)" "b \<le> u64_max"
    proof -
      obtain l where "n = filename_for l" using sn by (auto simp: is_seg_name_iff)
      then show thesis by (intro that [of "lsn_nat l"]) (simp_all add: lsn_nat_le_max)
    qed
    show ?thesis
    proof (cases "map_of sh b")
      case None
      then have "b \<notin> fst ` set (sound sh)" by (force simp: sound_def map_of_eq_None_iff)
      from lies_no_file [OF assms(1) this b(2)] show ?thesis using None b d(5) by (simp add: seg_map_shape)
    next
      case (Some ps)
      then have "(b, Sound ps) \<in> set (sound sh)" using map_of_SomeD [OF Some] by (force simp: sound_def)
      from lies_file [OF assms(1) this] show ?thesis using Some b d(5) by (simp add: seg_map_shape has_file_def)
    qed
  qed
  then show ?thesis
    using d lies_segs_ok [OF assms(1) _ assms(2)]
    by (simp add: rests_def holds_def names_settled_def test_cfgs)
qed

lemma sound_step:
  assumes "lies crc clock d fs" "map (\<lambda>x. (fst x, records (snd x))) fs = sh" "fs = sound sh \<and> dense_shape sh"
    "\<not> is_none seed" "started seed sh = sh'"
    and "\<And>w d'. stands crc clock test_cfg w d' sh' [] \<Longrightarrow> observer w = ob \<Longrightarrow>
      k w \<lparr>report_oldest_lsn = lsn_of (shape_base sh'), report_durable_lsn = lsn_of (shape_end sh' - 1),
           report_tail_state = Clean, report_segments_scanned = length sh'\<rparr> d'"
  shows "with_open (open_seeded crc clock test_cfg ob seed d) k"
proof -
  have "rests crc clock test_cfg d sh" using lies_rests assms(1,3) by blast
  from open_step [OF this assms(4,5), where ob = ob and k = k] show ?thesis using assms(6) by blast
qed

text \<open>What the check of the highest file says.\<close>

fun verdict :: "content \<Rightarrow> bool result" where
  "verdict (Headless (p # ps)) = Inl BadSegmentHeader"
| "verdict (Headless []) = Inr False"
| "verdict Blank = Inr False"
| "verdict c = Inr True"

lemma file_header:
  assumes "is_file crc clock b c f" "room b c" "c = Sound ps \<or> c = Doubled p"
  shows "read_exact_at f 0 64 = Inr (encode_header crc (lsn_of b) (clock (lsn_of b)))"
    "decode_header crc (encode_header crc (lsn_of b) (clock (lsn_of b))) = Inr \<lparr>base_lsn = lsn_of b\<rparr>" "healthy f"
  using assms by (auto simp: seg_file_def seg_bytes_def seg_image_def read_exact_at_def window_def decode_encode_header is_none_iff room_def)

lemma highest_verdict:
  assumes "is_file crc clock b c f" "room b c"
  shows "highest_is_complete crc test_cfg (lsn_of b) f [] = (verdict c, [])"
proof (cases c)
  case (Sound ps)
  then show ?thesis using file_header [OF assms] by (simp add: highest_is_complete_def)
next
  case (Doubled p)
  then show ?thesis using file_header [OF assms] by (simp add: highest_is_complete_def)
next
  case Blank
  then show ?thesis using assms by (simp add: highest_is_complete_def read_exact_at_def window_def metadata_len_def)
next
  case (Headless ps)
  then obtain h where h: "length h = 64" "decode_header crc h = Inl BadSegmentHeader" "f = disk_file (seg_bytes crc h b ps 65536)"
    using assms(1) by auto
  have wf: "seg_wf 65536 4096 h b ps" using assms(2) Headless h(1) by (simp add: room_def seg_wf_def u32_max_def)
  have rd: "read_exact_at f 0 64 = Inr h" using h by (simp add: read_exact_at_def window_def seg_bytes_def seg_image_def)
  obtain buf where buf: "read_record_at crc f 64 65536 4096 = Inr (scan_bytes crc (fdata f) 64 65536 4096, buf)"
    using read_record_at_healthy [of f crc 64 65536 4096] h(3) by auto
  show ?thesis
  proof (cases ps)
    case Nil
    then have "scan_bytes crc (fdata f) 64 65536 4096 = CleanEnd" using scan_image_zeros [OF wf, of crc] h(3) by simp
    then show ?thesis using rd h(2) buf Nil Headless by (simp add: highest_is_complete_def test_cfgs)
  next
    case (Cons p qs)
    have "scan_bytes crc (h @ frame crc (lsn_of b) p @ r) (length h) 65536 4096 = ScanRecord (lsn_of b) (length p) (framed_size (length p))" for r
      by (rule scan_bytes_frame) (use wf Cons h(1) in \<open>simp_all add: seg_wf_def\<close>)
    then have "\<exists>l k m. scan_bytes crc (fdata f) 64 65536 4096 = ScanRecord l k m"
      using h(1,3) Cons by (auto simp: seg_bytes_def seg_image_def)
    then show ?thesis using rd h(2) buf Cons Headless by (auto simp: highest_is_complete_def test_cfgs)
  qed
qed

definition bases :: "(nat \<times> content) list \<Rightarrow> u64 list" where
  "bases fs = map (\<lambda>x. word_of_nat (fst x)) fs"

definition each_file :: "(bytes \<Rightarrow> u32) \<Rightarrow> (lsn \<Rightarrow> u64) \<Rightarrow> disk \<Rightarrow> (nat \<times> content) list \<Rightarrow> bool" where
  "each_file crc clock d fs \<longleftrightarrow> dfaults d = [] \<and> (\<forall>x \<in> set fs. has_file crc clock d (fst x) (snd x))"

lemma lies_each_file: "lies crc clock d fs \<Longrightarrow> each_file crc clock (with_lock d) fs"
  using lies_file [of crc clock d fs]
  by (auto simp: each_file_def has_file_def lies_def with_lock_map is_seg_name_iff)

lemma unat_small: "n \<le> u64_max \<Longrightarrow> unat (word_of_nat n :: u64) = n"
  by (rule unat_word_of_nat_id) (simp add: u64_max_def)

lemma lies_seg_bases:
  assumes "lies crc clock d fs" "sorted_wrt (<) (map fst fs)"
  shows "seg_bases (with_lock d) (bases fs)"
proof -
  have le: "\<forall>x \<in> set fs. fst x \<le> u64_max" using assms(1) by (simp add: lies_def)
  have "sorted_wrt (<) (bases fs)" using assms(2) le
    by (induction fs) (auto simp: bases_def word_less_nat_alt unat_small)
  moreover have "w \<in> set (bases fs) \<longleftrightarrow> unat w \<in> fst ` set fs" for w
    using le by (force simp: bases_def unat_small)
  moreover have "unat w \<in> fst ` set fs \<longleftrightarrow> map_of (entries d) (filename_for (Lsn w)) \<noteq> None" for w
  proof -
    have "Lsn w = lsn_of (unat w)" by (simp add: lsn_of_def)
    moreover have "unat w \<le> u64_max" by (rule unat_u64_le)
    ultimately show ?thesis using lies_no_file [OF assms(1), of "unat w"] lies_file [OF assms(1)] by (force simp: has_file_def)
  qed
  moreover have "distinct (map fst (entries d))" using assms(1) by (simp add: lies_def)
  ultimately show ?thesis
    using with_lock_map [of "filename_for l" for l] by (simp add: seg_bases_def with_lock_distinct is_seg_name_iff)
qed

text \<open>The part of \<open>open_locked\<close> after the check of the highest file.\<close>

definition resume ::
    "(bytes \<Rightarrow> u32) \<Rightarrow> (lsn \<Rightarrow> u64) \<Rightarrow> wal_config \<Rightarrow> 'o \<Rightarrow> lsn \<Rightarrow> u64 list \<Rightarrow> disk
     \<Rightarrow> ('o wal \<times> recovery_report) result \<times> disk" where
  "resume crc clock config ob seed bs d =
     (case (if bs = [] then cold_start crc clock (unat (cfg_segment_size config)) seed d
            else recover_all crc bs config d) of
        (Inl e, d') \<Rightarrow> (Inl e, d')
      | (Inr r, d') \<Rightarrow>
          (Inr (\<lparr>segments = r_segments r, active = the (r_active r), write_offset = r_write_offset r,
                 oldest_lsn = r_oldest_lsn r, last_lsn = r_last_lsn r, durable_lsn = r_last_lsn r,
                 segment_size = cfg_segment_size config, max_record_size = cfg_max_record_size config,
                 staging = [], observer = ob, poisoned = False\<rparr>,
                \<lparr>report_oldest_lsn = r_oldest_lsn r, report_durable_lsn = r_last_lsn r,
                 report_tail_state = r_tail_state r, report_segments_scanned = length (r_segments r)\<rparr>), d'))"

lemma alike_resume:
  "rel_fun (=) (rel_fun (=) (rel_fun (=) (rel_fun (=) (rel_fun (=) (rel_fun (=) (rel_fun alike (rel_prod (=) alike)))))))
     resume resume"
  unfolding resume_def by transfer_prover

lemma open_resume:
  assumes "lies crc clock d fs" "sorted_wrt (<) (map fst fs)" "\<not> is_none seed"
    "discard_incomplete_highest crc (bases fs) test_cfg (with_lock d) = (out, d1)"
  shows "open_seeded crc clock test_cfg ob seed d =
    (case out of Inl e \<Rightarrow> (Inl e, d1\<lparr>lock_held := False\<rparr>)
     | Inr bs \<Rightarrow> (case resume crc clock test_cfg ob seed bs d1 of
         (Inl e, d2) \<Rightarrow> (Inl e, d2\<lparr>lock_held := False\<rparr>) | (Inr wr, d2) \<Rightarrow> (Inr wr, d2)))"
proof -
  have d: "\<not> lock_held d" "dfaults d = []" "dfaults (with_lock d) = []" using assms(1) by (simp_all add: lies_def)
  from discover_found [OF d(3) lies_seg_bases [OF assms(1,2)]]
  show ?thesis
    using open_seeded_no_faults [OF test_cfgs(3) assms(3) d(2,1), of crc clock ob] assms(4)
    by (simp add: open_locked_def resume_def split: sum.splits prod.splits)
qed

lemma discard_verdict:
  assumes "lies crc clock d (fs @ [(b, c)])"
  shows "discard_incomplete_highest crc (bases (fs @ [(b, c)])) test_cfg (with_lock d) =
    (case verdict c of
       Inl e \<Rightarrow> (Inl e, with_lock d)
     | Inr True \<Rightarrow> (Inr (bases (fs @ [(b, c)])), with_lock d)
     | Inr False \<Rightarrow> (Inr (bases fs), (with_lock d)\<lparr>entries := AList.delete (filename_for (lsn_of b)) (entries (with_lock d)), pending := []\<rparr>))"
proof -
  let ?d = "with_lock d"
  have nf: "dfaults ?d = []" using assms by (simp add: lies_def)
  have self: "?d\<lparr>dfaults := []\<rparr> = ?d" using nf by (cases ?d) simp
  have "has_file crc clock ?d b c" using lies_each_file [OF assms] by (simp add: each_file_def)
  then obtain f where f: "map_of (entries ?d) (filename_for (lsn_of b)) = Some f" "is_file crc clock b c f" "room b c"
    by (auto simp: has_file_def)
  have l: "bases (fs @ [x]) = bases fs @ [word_of_nat (fst x)]" "Lsn (word_of_nat b) = lsn_of b" for x
    by (simp_all add: bases_def lsn_of_def)
  show ?thesis
    using open_file_no_faults [OF nf f(1)] highest_verdict [OF f(2,3)] nf f(1)
    by (cases c rule: verdict.cases)
      (simp_all add: discard_incomplete_highest_def Let_def l self remove_file_def fsync_dir_no_faults)
qed

lemma delete_with_lock:
  assumes "n \<noteq> LOCK"
  shows "AList.delete n (entries (with_lock d)) = entries (with_lock (d\<lparr>entries := AList.delete n (entries d)\<rparr>))"
proof -
  have "AList.delete n (entries d @ [(LOCK, f)]) = AList.delete n (entries d) @ [(LOCK, f)]" for f
    using assms by (simp add: AList.delete_eq)
  then show ?thesis using assms by (simp add: with_lock_def delete_conv')
qed

lemma stands_alike: "stands crc clock cfg w d sh staged \<Longrightarrow> alike d d' \<Longrightarrow> stands crc clock cfg w d' sh staged"
  using holds_alike named_alike by (auto simp: stands_def alike_def)

lemma lies_delete:
  assumes "lies crc clock d (fs @ [(b, c)])"
  shows "lies crc clock (d\<lparr>entries := AList.delete (filename_for (lsn_of b)) (entries d)\<rparr>) fs"
proof -
  let ?n = "filename_for (lsn_of b)"
  let ?d = "d\<lparr>entries := AList.delete ?n (entries d)\<rparr>"
  have b: "b \<le> u64_max" "b \<notin> fst ` set fs" using assms by (auto simp: lies_def)
  have same: "map_of (entries ?d) (filename_for (lsn_of x)) = (if x = b then None else map_of (entries d) (filename_for (lsn_of x)))"
    if "x \<le> u64_max" for x
    using that b(1) by (simp add: delete_conv' lsn_of_inject)
  have "case map_of fs x of None \<Rightarrow> map_of (entries ?d) (filename_for (lsn_of x)) = None
      | Some c \<Rightarrow> has_file crc clock ?d x c" if x: "x \<le> u64_max" for x
  proof (cases "map_of fs x")
    case None
    then have "x = b \<or> x \<notin> fst ` set (fs @ [(b, c)])" by (auto simp: map_of_eq_None_iff)
    then show ?thesis using None same [OF x] lies_no_file [OF assms _ x] by auto
  next
    case (Some c')
    then have m: "(x, c') \<in> set fs" by (rule map_of_SomeD)
    then have "x \<noteq> b" using b(2) by force
    moreover have "has_file crc clock d x c'" using lies_file [OF assms, of x c'] m by simp
    ultimately show ?thesis using Some same [OF x] by (simp add: has_file_def)
  qed
  moreover have "named ?d"
  proof (rule named_entries)
    show "named d" using assms by (simp add: lies_def)
    show "fst ` set (entries ?d) \<subseteq> fst ` set (entries d) \<union> {n. is_seg_name n}"
      unfolding set_map [symmetric] by (auto simp: delete_keys)
  qed
  moreover have "\<not> lock_held ?d" "dfaults ?d = []" "distinct (map fst (entries ?d))" "distinct (map fst fs)" "\<forall>x \<in> set fs. fst x \<le> u64_max"
    using assms by (simp_all add: lies_def distinct_delete)
  ultimately show ?thesis unfolding lies_def by blast
qed

lemma resume_alike:
  assumes "resume crc clock cfg ob seed bs d = (r, d1)" "alike d d'"
  obtains d1' where "resume crc clock cfg ob seed bs d' = (r, d1')" "alike d1 d1'"
proof -
  have "rel_prod (=) alike (resume crc clock cfg ob seed bs d) (resume crc clock cfg ob seed bs d')"
    by (rule alike_resume [THEN rel_funD, OF refl, THEN rel_funD, OF refl, THEN rel_funD, OF refl,
        THEN rel_funD, OF refl, THEN rel_funD, OF refl, THEN rel_funD, OF refl, THEN rel_funD]) (rule assms(2))
  then show ?thesis using assms(1) that by (cases "resume crc clock cfg ob seed bs d'") auto
qed

lemma discard_sound:
  assumes "lies crc clock d (sound sh)"
  shows "discard_incomplete_highest crc (bases (sound sh)) test_cfg (with_lock d) = (Inr (bases (sound sh)), with_lock d)"
proof (cases sh rule: rev_cases)
  case Nil
  then show ?thesis by (simp add: discard_incomplete_highest_def sound_def bases_def)
next
  case (snoc ys y)
  then have s: "sound sh = sound ys @ [(fst y, Sound (snd y))]" by (simp add: sound_def)
  show ?thesis using discard_verdict [of crc clock d "sound ys" "fst y" "Sound (snd y)"] assms by (simp add: s)
qed

lemma discard_step:
  assumes "lies crc clock d fs" "map (\<lambda>x. (fst x, records (snd x))) (butlast fs) = sh"
    "fs = sound sh @ [last fs] \<and> dense_shape sh \<and> verdict (snd (last fs)) = Inr False \<and> sorted_wrt (<) (map fst fs)"
    "\<not> is_none seed" "started seed sh = sh'"
    and "\<And>w d'. stands crc clock test_cfg w d' sh' [] \<Longrightarrow> observer w = ob \<Longrightarrow>
      k w \<lparr>report_oldest_lsn = lsn_of (shape_base sh'), report_durable_lsn = lsn_of (shape_end sh' - 1),
           report_tail_state = Clean, report_segments_scanned = length sh'\<rparr> d'"
  shows "with_open (open_seeded crc clock test_cfg ob seed d) k"
proof -
  obtain b c where bc: "last fs = (b, c)" by fastforce
  have fs: "fs = sound sh @ [(b, c)]" and v: "verdict c = Inr False" and dn: "dense_shape sh"
    and so: "sorted_wrt (<) (map fst (sound sh @ [(b, c)]))" using assms(3) bc by auto
  have l: "lies crc clock d (sound sh @ [(b, c)])" using assms(1) fs by simp
  let ?n = "filename_for (lsn_of b)"
  let ?d0 = "d\<lparr>entries := AList.delete ?n (entries d)\<rparr>"
  let ?d1 = "(with_lock d)\<lparr>entries := AList.delete ?n (entries (with_lock d)), pending := []\<rparr>"
  note l0 = lies_delete [OF l]
  obtain w e0 where o: "open_seeded crc clock test_cfg ob seed ?d0 =
      (Inr (w, \<lparr>report_oldest_lsn = lsn_of (shape_base (started seed sh)), report_durable_lsn = lsn_of (shape_end (started seed sh) - 1),
                report_tail_state = Clean, report_segments_scanned = length (started seed sh)\<rparr>), e0)"
    "stands crc clock test_cfg w e0 (started seed sh) []" "observer w = ob"
    by (rule open_shape [OF lies_rests [OF l0 dn] assms(4)])
  have "sorted_wrt (<) (map fst (sound sh))" using so by (simp add: sorted_wrt_append)
  from open_resume [OF l0 this assms(4) discard_sound [OF l0], of ob] o(1)
  have r0: "resume crc clock test_cfg ob seed (bases (sound sh)) (with_lock ?d0) =
      (Inr (w, \<lparr>report_oldest_lsn = lsn_of (shape_base (started seed sh)), report_durable_lsn = lsn_of (shape_end (started seed sh) - 1),
                report_tail_state = Clean, report_segments_scanned = length (started seed sh)\<rparr>), e0)"
    by (auto split: sum.splits prod.splits)
  have "?n \<noteq> LOCK" using is_seg_name_iff [of ?n] LOCK_not_seg by metis
  then have "alike (with_lock ?d0) ?d1" by (simp add: alike_def delete_with_lock)
  then obtain e1 where r1: "resume crc clock test_cfg ob seed (bases (sound sh)) ?d1 =
      (Inr (w, \<lparr>report_oldest_lsn = lsn_of (shape_base (started seed sh)), report_durable_lsn = lsn_of (shape_end (started seed sh) - 1),
                report_tail_state = Clean, report_segments_scanned = length (started seed sh)\<rparr>), e1)" "alike e0 e1"
    by (rule resume_alike [OF r0])
  have "open_seeded crc clock test_cfg ob seed d = resume crc clock test_cfg ob seed (bases (sound sh)) ?d1"
    using open_resume [OF l so assms(4), of "Inr (bases (sound sh))" ?d1 ob] discard_verdict [OF l] v r1(1) by simp
  then show ?thesis using r1(1) assms(5) assms(6) [OF stands_alike [OF o(2) r1(2), unfolded assms(5)] o(3)]
    by (simp add: with_open_def)
qed

section \<open>Refusals\<close>

lemma each_file_same_dir: "each_file crc clock d fs \<Longrightarrow> same_dir d d' \<Longrightarrow> each_file crc clock d' fs"
  by (simp add: each_file_def same_dir_def has_file_def)

lemma bases_Cons: "bases ((b, c) # fs) = word_of_nat b # bases fs" "bases fs = [] \<longleftrightarrow> fs = []"
  by (simp_all add: bases_def)

lemma recover_file:
  assumes "each_file crc clock d ((b, c) # fs)"
  obtains f where "open_file (filename_for (lsn_of b)) d = (Inr f, d)" "map_of (entries d) (filename_for (lsn_of b)) = Some f"
    "is_file crc clock b c f" "room b c" "dfaults d = []"
  using assms open_file_no_faults[of d] by (auto simp: each_file_def has_file_def)

lemma recover_one_gap:
  assumes "each_file crc clock d ((b, c) # fs)" "c = Sound ps \<or> c = Doubled p" "\<not> continues prev b"
  shows "\<exists>d'. recover_one crc test_cfg prev (lsn_of b) act d = (Inl ContiguityViolation, d')"
proof -
  obtain f where f: "open_file (filename_for (lsn_of b)) d = (Inr f, d)" "is_file crc clock b c f" "room b c"
    using recover_file [OF assms(1)] by metis
  from file_header [OF f(2,3) assms(2)] show ?thesis
    using f(1) assms(3) by (auto simp: recover_one_def Let_def continues_def split: option.splits)
qed

lemma recover_one_headless:
  assumes "each_file crc clock d ((b, Headless ps) # fs)"
  shows "\<exists>d'. recover_one crc test_cfg prev (lsn_of b) act d = (Inl BadSegmentHeader, d')"
proof -
  obtain f where f: "open_file (filename_for (lsn_of b)) d = (Inr f, d)" "is_file crc clock b (Headless ps) f"
    using recover_file [OF assms] by metis
  then obtain h where h: "length h = 64" "decode_header crc h = Inl BadSegmentHeader" "f = disk_file (seg_bytes crc h b ps 65536)"
    by auto
  then have "read_exact_at f 0 64 = Inr h" by (simp add: read_exact_at_def window_def seg_bytes_def seg_image_def)
  then show ?thesis using f(1) h(2) by (auto simp: recover_one_def Let_def)
qed

lemma recover_one_sound:
  assumes "each_file crc clock d ((b, Sound ps) # fs)" "continues prev b"
  obtains d' where "recover_one crc test_cfg prev (lsn_of b) act d =
      (Inr \<lparr>max_lsn = lsn_of (b + length ps - 1), rec_write_offset = 64 + frames_size ps, rec_tail_state = Clean\<rparr>, d')"
    "each_file crc clock d' ((b, Sound ps) # fs)"
proof -
  obtain f where f: "map_of (entries d) (filename_for (lsn_of b)) = Some f" "is_file crc clock b (Sound ps) f"
    "room b (Sound ps)" "dfaults d = []"
    using recover_file [OF assms(1)] by metis
  let ?s = "seg_of crc clock (b, ps)"
  have ok: "seg_ok crc 65536 4096 ?s" by (rule room_seg_ok [OF f(3)])
  then have wf: "seg_wf 65536 4096 (sg_header ?s) b ps" by (simp add: seg_ok_def)
  have fl: "f = seg_file crc 65536 ?s" using f(2) by simp
  have rs: "recover_segment crc f (lsn_of (sg_base ?s)) act (unat (cfg_segment_size test_cfg)) (unat (cfg_max_record_size test_cfg)) [] =
      (Inr \<lparr>max_lsn = lsn_of (b + length ps - 1), rec_write_offset = 64 + frames_size ps, rec_tail_state = Clean\<rparr>, f, [])"
    using recover_segment_clean [OF wf, of f crc act] fl by (simp add: seg_file_def test_cfgs)
  have hd: "headed crc ?s f" unfolding fl by (rule headed_seg_file [OF ok])
  have "continues prev (sg_base ?s)" "map_of (entries d) (seg_name ?s) = Some f" using assms(2) f(1) by simp_all
  from recover_one_headed [OF hd f(4) this(2,1) rs]
  have "recover_one crc test_cfg prev (lsn_of b) act d =
      (Inr \<lparr>max_lsn = lsn_of (b + length ps - 1), rec_write_offset = 64 + frames_size ps, rec_tail_state = Clean\<rparr>,
       put_file (filename_for (lsn_of b)) f [] d)" by simp
  then show ?thesis using that each_file_same_dir [OF assms(1) put_same_file [OF f(1,4)]] by blast
qed

text \<open>One rule for each way the loop goes on or stops.\<close>

lemma pass_sound:
  assumes "each_file crc clock d ((b, Sound ps) # fs)" "continues prev b \<and> ps \<noteq> [] \<and> fs \<noteq> [] \<and> b + length ps \<le> Suc u64_max"
    and "\<And>d'. each_file crc clock d' fs \<Longrightarrow>
      fst (recover_bases crc test_cfg (Some (lsn_of (b + length ps - 1))) (bases fs) acc d') = r"
  shows "fst (recover_bases crc test_cfg prev (bases ((b, Sound ps) # fs)) acc d) = r"
proof -
  obtain d' where d': "recover_one crc test_cfg prev (lsn_of b) False d =
      (Inr \<lparr>max_lsn = lsn_of (b + length ps - 1), rec_write_offset = 64 + frames_size ps, rec_tail_state = Clean\<rparr>, d')"
    "each_file crc clock d' ((b, Sound ps) # fs)"
    using recover_one_sound [OF assms(1), of prev False] assms(2) by blast
  have "\<not> lsn_of (b + length ps - 1) < lsn_of b" using assms(2) by (cases ps) (simp_all add: lsn_less_iff)
  moreover have "each_file crc clock d' fs" using d'(2) by (simp add: each_file_def)
  ultimately show ?thesis using d'(1) assms(2,3) by (simp add: bases_Cons lsn_of_def [symmetric])
qed

lemma stop_gap:
  "each_file crc clock d ((b, Sound ps) # fs) \<Longrightarrow> \<not> continues prev b \<Longrightarrow>
   fst (recover_bases crc test_cfg prev (bases ((b, Sound ps) # fs)) acc d) = Inl ContiguityViolation"
  using recover_one_gap [of crc clock d b "Sound ps" fs ps "[]" prev "fs = []"]
  by (auto simp: bases_Cons lsn_of_def [symmetric])

lemma stop_empty:
  assumes "each_file crc clock d ((b, Sound []) # fs)" "continues prev b \<and> fs \<noteq> [] \<and> 0 < b \<and> b \<le> u64_max"
  shows "fst (recover_bases crc test_cfg prev (bases ((b, Sound []) # fs)) acc d) = Inl ContiguityViolation"
proof -
  obtain d' where "recover_one crc test_cfg prev (lsn_of b) False d =
      (Inr \<lparr>max_lsn = lsn_of (b - 1), rec_write_offset = 64, rec_tail_state = Clean\<rparr>, d')"
    using recover_one_sound [OF assms(1), of prev False] assms(2) by auto
  moreover have "b - 1 \<le> u64_max" using assms(2) by (meson diff_le_self le_trans)
  then have "lsn_of (b - 1) < lsn_of b" using assms(2) by (simp add: lsn_less_iff)
  ultimately show ?thesis using assms(2) by (simp add: bases_Cons lsn_of_def [symmetric])
qed

lemma stop_headless:
  "each_file crc clock d ((b, Headless ps) # fs) \<Longrightarrow>
   fst (recover_bases crc test_cfg prev (bases ((b, Headless ps) # fs)) acc d) = Inl BadSegmentHeader"
  using recover_one_headless [of crc clock d b ps fs prev "fs = []"]
  by (auto simp: bases_Cons lsn_of_def [symmetric])

lemma stop_doubled:
  assumes "each_file crc clock d [(b, Doubled p)]" "continues prev b \<and> b = u64_max"
  shows "fst (recover_bases crc test_cfg prev (bases [(b, Doubled p)]) acc d) =
    Inl (Corruption (lsn_of b) (64 + framed_size (length p)) ''data after the last LSN (u64::MAX)'')"
proof -
  obtain f where f: "map_of (entries d) (filename_for (lsn_of b)) = Some f" "is_file crc clock b (Doubled p) f"
    "room b (Doubled p)" "dfaults d = []"
    using recover_file [OF assms(1)] by metis
  let ?s = "seg_of crc clock (b, [p])" and ?z = "zeros (65536 - 64 - 2 * framed_size (length p))"
  let ?h = "sg_header ?s" and ?r = "frame crc (lsn_of b) p @ ?z"
  have rm: "room b (Sound [p])" using f(3) by (simp add: room_def)
  have ok: "seg_ok crc 65536 4096 ?s" by (rule room_seg_ok [OF rm])
  then have wf: "seg_wf 65536 4096 ?h b [p]" by (simp add: seg_ok_def)
  have fl: "fdata f = seg_image crc ?h b [p] ?r" "healthy f" using f(2) by simp_all
  have sc: "scan_bytes crc (seg_image crc ?h b [p] ?r) (64 + frames_size [p]) 65536 4096 = ScanRecord (lsn_of b) (length p) (framed_size (length p))"
  proof -
    have "length p \<le> 4096" "length (?h @ frame crc (lsn_of b) p) + framed_size (length p) \<le> 65536" using f(3) by (simp_all add: room_def)
    from scan_bytes_frame [OF this(1) _ this(2), of crc "lsn_of b" ?z] show ?thesis
      by (simp add: seg_image_def u32_max_def)
  qed
  have none: "checked_next (lsn_of b) = None" using assms(2) by simp
  have rs: "recover_segment crc f (lsn_of b) True 65536 4096 [] =
      (let s = settle crc f (lsn_of b) True 65536 4096 (lsn_of (b + length [p] - 1)) (64 + frames_size [p]) in (fst s, snd s, []))"
    by (rule recover_segment_image [OF wf fl(2,1)]) (use none in simp)
  have "settle crc f (lsn_of b) True 65536 4096 (lsn_of (b + length [p] - 1)) (64 + frames_size [p]) =
      (Inl (Corruption (lsn_of b) (64 + framed_size (length p)) ''data after the last LSN (u64::MAX)''), f)"
    using sc none fl(1) by (simp add: settle_def)
  then have rs': "recover_segment crc f (lsn_of (sg_base ?s)) True (unat (cfg_segment_size test_cfg)) (unat (cfg_max_record_size test_cfg)) [] =
      (Inl (Corruption (lsn_of b) (64 + framed_size (length p)) ''data after the last LSN (u64::MAX)''), f, [])"
    using rs by (simp add: test_cfgs)
  have hd: "headed crc ?s f" using fl ok by (auto simp: headed_def seg_ok_def seg_image_def)
  have "continues prev (sg_base ?s)" "map_of (entries d) (seg_name ?s) = Some f" using assms(2) f(1) by auto
  from recover_one_headed [OF hd f(4) this(2,1) rs'] show ?thesis by (simp add: bases_Cons lsn_of_def [symmetric] Let_def)
qed

text \<open>The error the loop over the segments stops with, when it stops with one.\<close>

fun outcome :: "lsn option \<Rightarrow> (nat \<times> content) list \<Rightarrow> wal_error option" where
  "outcome prev [] = None"
| "outcome prev ((b, Blank) # fs) = None"
| "outcome prev ((b, Headless ps) # fs) = Some BadSegmentHeader"
| "outcome prev ((b, Doubled p) # fs) =
     (if continues prev b \<and> b = u64_max \<and> fs = []
      then Some (Corruption (lsn_of b) (64 + framed_size (length p)) ''data after the last LSN (u64::MAX)'') else None)"
| "outcome prev ((b, Sound ps) # fs) =
     (if \<not> continues prev b then Some ContiguityViolation
      else if fs = [] then None
      else if ps = [] then Some ContiguityViolation
      else outcome (Some (lsn_of (b + length ps - 1))) fs)"

lemma outcome_refuses:
  "outcome prev fs = Some e \<Longrightarrow> each_file crc clock d fs \<Longrightarrow> fst (recover_bases crc test_cfg prev (bases fs) acc d) = Inl e"
proof (induction prev fs arbitrary: d rule: outcome.induct)
  case (5 prev b ps fs)
  have "room b (Sound ps)" using "5.prems"(2) by (simp add: each_file_def has_file_def)
  then have b: "0 < b" "b \<le> u64_max" "b + length ps \<le> Suc u64_max" by (simp_all add: room_def)
  consider "\<not> continues prev b" | "continues prev b" "fs \<noteq> []" "ps = []" | "continues prev b" "fs \<noteq> []" "ps \<noteq> []"
    using "5.prems"(1) by (auto split: if_splits)
  then show ?case
  proof cases
    case 1
    then show ?thesis using stop_gap [OF "5.prems"(2) 1] "5.prems"(1) by simp
  next
    case 2
    then show ?thesis using stop_empty [of crc clock d b fs prev acc] "5.prems" b by simp
  next
    case 3
    show ?thesis
      by (rule pass_sound [OF "5.prems"(2)]) (use 3 b "5.IH" "5.prems"(1) in auto)
  qed
qed (auto simp: stop_headless intro: stop_doubled split: if_splits)

lemma refused:
  assumes "lies crc clock d fs" "fs \<noteq> [] \<and> verdict (snd (last fs)) = Inr True \<and> sorted_wrt (<) (map fst fs) \<and> \<not> is_none seed"
    "outcome None fs = Some e"
  shows "fst (open_seeded crc clock test_cfg ob seed d) = Inl e"
proof -
  obtain gs b c where fs: "fs = gs @ [(b, c)]" "verdict c = Inr True" "sorted_wrt (<) (map fst fs)" "\<not> is_none seed"
    using assms(2) by (cases fs rule: rev_cases) auto
  have disc: "discard_incomplete_highest crc (bases fs) test_cfg (with_lock d) = (Inr (bases fs), with_lock d)"
    using discard_verdict [of crc clock d gs b c] assms(1) fs(1,2) by simp
  have "fst (recover_all crc (bases fs) test_cfg (with_lock d)) = Inl e"
    using outcome_refuses [OF assms(3) lies_each_file [OF assms(1)]] by (simp add: recover_all_def)
  moreover have "bases fs \<noteq> []" using fs(1) by (simp add: bases_def)
  ultimately have "fst (resume crc clock test_cfg ob seed (bases fs) (with_lock d)) = Inl e"
    by (auto simp: resume_def split: prod.splits)
  then show ?thesis using open_resume [OF assms(1) fs(3,4) disc, of ob] by (auto split: prod.splits)
qed

lemma refused_highest:
  assumes "lies crc clock d fs" "fs \<noteq> [] \<and> verdict (snd (last fs)) = Inl e \<and> sorted_wrt (<) (map fst fs) \<and> \<not> is_none seed"
  shows "fst (open_seeded crc clock test_cfg ob seed d) = Inl e"
proof -
  obtain gs b c where fs: "fs = gs @ [(b, c)]" "verdict c = Inl e" "sorted_wrt (<) (map fst fs)" "\<not> is_none seed"
    using assms(2) by (cases fs rule: rev_cases) auto
  have "discard_incomplete_highest crc (bases fs) test_cfg (with_lock d) = (Inl e, with_lock d)"
    using discard_verdict [of crc clock d gs b c] assms(1) fs(1,2) by simp
  from open_resume [OF assms(1) fs(3,4) this, of ob] show ?thesis by simp
qed

section \<open>The tests pass\<close>

lemmas first_files = fabs [OF lies_tempdir] fab_lsns_step [OF lies_tempdir] fab_duplicate_step [OF lies_tempdir]

lemmas file_eval = state_eval room_def sound_def AList.update.simps

lemma recover_multi_segment_clean_roundtrip_ok: "recover_multi_segment_clean_roundtrip crc clock"
  unfolding recover_multi_segment_clean_roundtrip_def opens
  by (rule first_files | erule fabs sound_step steps | rule conjI | (simp (no_asm_simp) add: file_eval; fail))+

lemma recover_is_idempotent_across_repeated_open_ok: "recover_is_idempotent_across_repeated_open crc clock"
  unfolding recover_is_idempotent_across_repeated_open_def foldr.simps o_apply id_apply opens
  by (rule first_files | erule fabs sound_step steps | rule conjI | (simp (no_asm_simp) add: file_eval; fail))+

lemma recover_empty_active_segment_yields_base_minus_one_ok: "recover_empty_active_segment_yields_base_minus_one crc clock"
  unfolding recover_empty_active_segment_yields_base_minus_one_def opens
  by (rule first_files | erule fabs sound_step steps | rule conjI | (simp (no_asm_simp) add: file_eval; fail))+

lemma recover_missing_prefix_is_accepted_silently_ok: "recover_missing_prefix_is_accepted_silently crc clock"
  unfolding recover_missing_prefix_is_accepted_silently_def opens
  by (rule first_files | erule fabs sound_step steps | rule conjI | (simp (no_asm_simp) add: file_eval; fail))+

lemma recover_discards_incomplete_highest_base_file_ok: "recover_discards_incomplete_highest_base_file crc clock"
  unfolding recover_discards_incomplete_highest_base_file_def opens
  by (rule first_files | erule fabs discard_step steps | rule conjI | (simp (no_asm_simp) add: file_eval; fail))+

lemma recover_incomplete_sole_segment_cold_starts_ok: "recover_incomplete_sole_segment_cold_starts crc clock"
  unfolding recover_incomplete_sole_segment_cold_starts_def opens
  by (rule first_files | erule fabs discard_step steps | rule conjI | (simp (no_asm_simp) add: file_eval; fail))+

lemma v7_crash_after_create_before_fallocate_recovers_ok: "v7_crash_after_create_before_fallocate_recovers crc clock"
  unfolding v7_crash_after_create_before_fallocate_recovers_def opens
  by (rule first_files | erule fabs discard_step steps | rule conjI | (simp (no_asm_simp) add: file_eval; fail))+

lemma v7_crash_after_fallocate_before_header_recovers_ok: "v7_crash_after_fallocate_before_header_recovers crc clock"
  unfolding v7_crash_after_fallocate_before_header_recovers_def opens
  by (rule first_files | erule fabs discard_step steps | rule conjI | (simp (no_asm_simp) add: file_eval file_names_eval filename_for_def; fail))+

lemma v7_crash_with_torn_header_recovers_ok: "v7_crash_with_torn_header_recovers crc clock"
  unfolding v7_crash_with_torn_header_recovers_def opens
  by (rule first_files | erule fabs discard_step steps | rule conjI | (simp (no_asm_simp) add: file_eval file_names_eval filename_for_def; fail))+

lemma v7_crash_before_dir_fsync_recovers_ok: "v7_crash_before_dir_fsync_recovers crc clock"
  unfolding v7_crash_before_dir_fsync_recovers_def opens
  by (rule starts first_files | erule fabs sound_step steps | rule conjI | (simp (no_asm_simp) add: file_eval; fail))+

lemma v7_crash_during_first_roll_of_seeded_log_recovers_ok: "v7_crash_during_first_roll_of_seeded_log_recovers crc clock"
  unfolding v7_crash_during_first_roll_of_seeded_log_recovers_def opens
  by (rule first_files | erule fabs discard_step steps | rule conjI | (simp (no_asm_simp) add: file_eval; fail))+

lemma recover_cross_segment_gap_is_contiguity_violation_ok: "recover_cross_segment_gap_is_contiguity_violation crc clock"
  unfolding recover_cross_segment_gap_is_contiguity_violation_def opens
  by (rule first_files | erule fabs fab_lsns_step refused | rule conjI | (simp (no_asm_simp) add: file_eval continues_def checked_next_def checked_add_def; fail))+

lemma recover_empty_sealed_segment_is_contiguity_violation_ok: "recover_empty_sealed_segment_is_contiguity_violation crc clock"
  unfolding recover_empty_sealed_segment_is_contiguity_violation_def opens
  by (rule first_files | erule fabs fab_lsns_step refused | rule conjI | (simp (no_asm_simp) add: file_eval continues_def checked_next_def checked_add_def; fail))+

lemma recover_corrupt_header_on_sealed_segment_is_fatal_ok: "recover_corrupt_header_on_sealed_segment_is_fatal crc clock"
  unfolding recover_corrupt_header_on_sealed_segment_is_fatal_def opens
  by (rule first_files | erule fabs fab_lsns_step refused | rule conjI | (simp (no_asm_simp) add: file_eval continues_def checked_next_def checked_add_def; fail))+

lemma recover_corrupt_header_on_populated_highest_is_fatal_ok: "recover_corrupt_header_on_populated_highest_is_fatal crc clock"
  unfolding recover_corrupt_header_on_populated_highest_is_fatal_def opens
  by (rule first_files | erule fabs fab_lsns_step refused_highest | rule conjI | (simp (no_asm_simp) add: file_eval continues_def checked_next_def checked_add_def; fail))+

lemma v71_segment_after_max_segment_is_contiguity_violation_ok: "v71_segment_after_max_segment_is_contiguity_violation crc clock"
  unfolding v71_segment_after_max_segment_is_contiguity_violation_def list.pred_inject opens
  by (rule first_files | erule fabs fab_lsns_step refused sound_step | rule conjI | (simp (no_asm_simp) add: file_eval continues_def checked_next_def checked_add_def; fail))+

lemma refused_as_corruption:
  assumes "lies crc clock d fs" "fs \<noteq> [] \<and> verdict (snd (last fs)) = Inr True \<and> sorted_wrt (<) (map fst fs) \<and> \<not> is_none seed"
    "outcome None fs = Some (Corruption l off why)" "l = s"
  shows "case fst (open_seeded crc clock test_cfg ob seed d) of Inl (Corruption segment offset reason) \<Rightarrow> segment = s | _ \<Rightarrow> False"
  using refused [OF assms(1-3), of ob] assms(4) by simp

lemma v71_duplicate_max_on_disk_fails_open_ok: "v71_duplicate_max_on_disk_fails_open crc clock"
  unfolding v71_duplicate_max_on_disk_fails_open_def opens
  by (rule fab_duplicate_step [OF lies_tempdir] | erule fabs fab_lsns_step refused_as_corruption | rule conjI | (simp (no_asm_simp) add: file_eval continues_def checked_next_def checked_add_def; fail))+

section \<open>Bytes after the last LSN\<close>

lemma full_drain:
  assumes rb: "readable crc ssz mx False ss d" and at: "rd_at ssz mx ss i 0 rd" and full: "log_end ss = Suc u64_max"
  shows "drain crc rd d = (filter (\<lambda>x. \<not> fst x < rd_from rd) (rest_of ss i 0), None)"
proof -
  have ok: "segs_ok crc ssz mx ss" using rb by (simp add: readable_def)
  have sne: "ss \<noteq> []" by (rule segs_ok_last(4) [OF ok])
  have ls: "ss ! (length ss - 1) = last ss" "length ss - 1 < length ss" using sne by (simp_all add: last_conv_nth)
  obtain f where f: "map_of (entries d) (seg_name (last ss)) = Some f" "healthy f"
    using rb ls unfolding readable_def by metis
  obtain rd' where rd': "rd_at ssz mx ss (length ss - 1) (length (sg_log (last ss))) rd'"
    "drain crc rd d = (let (xs, err) = drain crc rd' d in (filter (\<lambda>x. \<not> fst x < rd_from rd) (rest_of ss i 0) @ xs, err))"
    using drain_to_end [OF rb at] by blast
  have "parse_run crc (fdata f) ssz mx (rd_offset rd') (checked_next (lsn_of u64_max)) = ([], rd_offset rd')"
    by (rule parse_run_stop) simp
  then have "drain crc rd' d = (filter (\<lambda>x. \<not> fst x < rd_from rd') [], None)"
  proof (rule drain_tail)
    show "file_of d (seg_name (last ss)) = f" using f(1) by (simp add: file_of_def)
    show "rd_expected rd' = checked_next (lsn_of u64_max)"
      using rd'(1) ls full by (simp add: rd_at_def log_end_def seg_end_def)
  qed (use rd'(1) ls f(2) in \<open>simp_all add: rd_at_def\<close>)
  then show ?thesis using rd'(2) by simp
qed

lemma same_reader: "reader_from from w d = (Inr rd, d1) \<Longrightarrow> reader_from from w d' = (Inr rd', d1') \<Longrightarrow> rd = rd'"
  by (auto simp: reader_from_def Let_def split: if_splits sum.splits prod.splits)

lemma written_after_full:
  assumes st: "stands crc clock cfg w d sh staged" and full: "shape_end sh = Suc u64_max"
    and ok_from: "is_none from \<or> shape_base sh \<le> lsn_nat from" and wr: "write_active bs w d = Some d'"
  shows "replay_pairs crc w d' from = Some (map (\<lambda>x. (word_of_nat (fst x), snd x)) (visible from sh))"
proof -
  let ?ss = "segs_of crc clock sh" and ?ssz = "unat (cfg_segment_size cfg)" and ?mx = "unat (cfg_max_record_size cfg)"
  have ne: "sh \<noteq> []" and inv: "wal_inv crc w ?ss staged" and nf: "dfaults d = []" using st by (simp_all add: stands_def)
  note f = stands_fields [OF st] and e = segs_of_ends [OF ne, of crc clock]
  have ok: "segs_ok crc ?ssz ?mx ?ss" using inv f(6,7) by (simp add: wal_inv_def wal_core_def)
  have h: "holds crc ?ssz ?ss (d\<lparr>pending := []\<rparr>)" using st by (simp add: stands_def)
  have "readable crc ?ssz ?mx False ?ss (d\<lparr>pending := []\<rparr>)" by (rule holds_readable [OF ok h]) (use nf in simp)
  then have rb: "readable crc ?ssz ?mx False ?ss d" by (simp add: readable_def)
  let ?s = "last ?ss"
  have nm: "seg_name ?s = active w" using e(3) f(9) by simp
  have act: "map_of (entries d) (active w) = Some (seg_file crc ?ssz ?s)"
    using holds_file [OF h ok last_in_set [of ?ss]] ne nm by simp
  have wf: "seg_wf ?ssz ?mx (sg_header ?s) (sg_base ?s) (sg_log ?s)" using segs_ok_last(1) [OF ok] by (simp add: seg_ok_def)
  let ?g = "(seg_file crc ?ssz ?s)\<lparr>fdata := pwrite (write_offset w) bs (fdata (seg_file crc ?ssz ?s))\<rparr>"
  have d': "d' = put_file (active w) ?g [] d"
    using wr act nf by (simp add: write_active_def write_once_ok file_of_def)
  have img: "\<exists>r. fdata ?g = seg_image crc (sg_header ?s) (sg_base ?s) (sg_log ?s) r"
    using pwrite_image [of "sg_header ?s" "sg_log ?s" bs crc "sg_base ?s"] wf f(8) e(3)
    by (auto simp: seg_file_def seg_bytes_def seg_wf_def)
  have dist: "distinct (map seg_name ?ss)" by (rule seg_names_distinct [OF ok])
  have rb': "readable crc ?ssz ?mx False ?ss d'"
    unfolding readable_def
  proof (intro conjI allI impI ok)
    show "dfaults d' = []" by (simp add: d' put_file_def)
    fix i assume i: "i < length ?ss"
    show "\<exists>f r. map_of (entries d') (seg_name (?ss ! i)) = Some f \<and> healthy f
      \<and> fdata f = seg_image crc (sg_header (?ss ! i)) (sg_base (?ss ! i)) (sg_log (?ss ! i)) r
      \<and> (False \<or> Suc i < length ?ss \<longrightarrow> scan_bytes crc (fdata f) (64 + frames_size (sg_log (?ss ! i))) ?ssz ?mx = CleanEnd)"
    proof (cases "Suc i = length ?ss")
      case True
      then have "?ss ! i = ?s" using ne by (metis diff_Suc_1 last_conv_nth list.size(3) nat.distinct(1))
      moreover obtain r where "fdata ?g = seg_image crc (sg_header ?s) (sg_base ?s) (sg_log ?s) r" using img by blast
      moreover have "map_of (entries d') (seg_name ?s) = Some ?g" by (simp add: d' put_file_map nm)
      moreover have "healthy ?g" by (simp add: seg_file_def)
      ultimately show ?thesis using True by auto
    next
      case False
      have "length ?ss - 1 < length ?ss" "i \<noteq> length ?ss - 1" using False i by auto
      then have "map seg_name ?ss ! i \<noteq> map seg_name ?ss ! (length ?ss - 1)"
        using dist i nth_eq_iff_index_eq [of "map seg_name ?ss" i "length ?ss - 1"] by simp
      then have "seg_name (?ss ! i) \<noteq> active w"
        using nm i ne last_conv_nth [of ?ss] by simp
      then have "map_of (entries d') (seg_name (?ss ! i)) = map_of (entries d) (seg_name (?ss ! i))" by (simp add: d' put_file_map)
      then show ?thesis using rb i unfolding readable_def by auto
    qed
  qed
  have seg: "segments w = map (\<lambda>s. lsn_of (sg_base s)) ?ss" by (simp add: f segs_of_bases)
  have "shape_base sh \<le> u64_max" using stands_bounds(5) [OF st, of "hd sh"] ne by (simp add: shape_base_def)
  then have okf: "is_none from \<or> oldest_lsn w \<le> from" using ok_from by (auto simp: f(4) lsn_le_iff)
  note spec = reader_from_spec [OF seg _ okf, unfolded f(6,7)]
  obtain rd i where r: "reader_from from w d' = (Inr rd, d')" "rd_at ?ssz ?mx ?ss i 0 rd" using spec [OF rb'] by blast
  obtain rd0 i0 where r0: "reader_from from w d = (Inr rd0, d)" "drain crc rd0 d = (map (\<lambda>x. (lsn_of (fst x), snd x)) (visible from sh), None)"
    using reader_shape [OF st ok_from] stands_drain [OF st] by metis
  have same: "rd0 = rd" by (rule same_reader [OF r0(1) r(1)])
  have "log_end ?ss = Suc u64_max" using e(2) full by simp
  from full_drain [OF rb' r(2) this] full_drain [OF rb r(2) this] r0(2)
  have "drain crc rd d' = (map (\<lambda>x. (lsn_of (fst x), snd x)) (visible from sh), None)" by (simp add: same)
  then show ?thesis using r(1) by (simp add: replay_pairs_def lsn_of_def)
qed

lemma write_active_step:
  assumes "stands crc clock cfg w d sh staged"
    and "\<And>d'. stands crc clock cfg w d sh staged \<Longrightarrow> write_active bs w d = Some d' \<Longrightarrow> k d'"
  shows "with_disk (write_active bs w d) k"
proof -
  have "dfaults d = []" using assms(1) by (simp add: stands_def)
  then obtain d' where "write_active bs w d = Some d'" by (auto simp: write_active_def write_once_ok)
  then show ?thesis using assms by (simp add: with_disk_def)
qed

lemma v71_reader_stops_after_max_and_never_yields_a_duplicate_ok:
  "v71_reader_stops_after_max_and_never_yields_a_duplicate crc clock"
  unfolding v71_reader_stops_after_max_and_never_yields_a_duplicate_def opens encode_into_eq prod.case
  by (rule starts | erule write_active_step steps | rule conjI
      | (simp (no_asm_simp) add: state_eval; fail)
      | (erule written_after_full [THEN trans], simp_all add: eval; fail))+

section \<open>All of them\<close>

definition fabricated_tests :: "(bytes \<Rightarrow> u32) \<Rightarrow> (lsn \<Rightarrow> u64) \<Rightarrow> bool" where
  "fabricated_tests crc clock \<longleftrightarrow>
     recover_multi_segment_clean_roundtrip crc clock \<and> recover_is_idempotent_across_repeated_open crc clock
     \<and> recover_cross_segment_gap_is_contiguity_violation crc clock
     \<and> recover_empty_sealed_segment_is_contiguity_violation crc clock
     \<and> recover_empty_active_segment_yields_base_minus_one crc clock
     \<and> recover_missing_prefix_is_accepted_silently crc clock
     \<and> recover_discards_incomplete_highest_base_file crc clock
     \<and> recover_incomplete_sole_segment_cold_starts crc clock
     \<and> recover_corrupt_header_on_populated_highest_is_fatal crc clock
     \<and> recover_corrupt_header_on_sealed_segment_is_fatal crc clock
     \<and> v7_crash_after_create_before_fallocate_recovers crc clock
     \<and> v7_crash_after_fallocate_before_header_recovers crc clock
     \<and> v7_crash_with_torn_header_recovers crc clock \<and> v7_crash_before_dir_fsync_recovers crc clock
     \<and> v7_crash_during_first_roll_of_seeded_log_recovers crc clock
     \<and> v71_segment_after_max_segment_is_contiguity_violation crc clock
     \<and> v71_duplicate_max_on_disk_fails_open crc clock
     \<and> v71_reader_stops_after_max_and_never_yields_a_duplicate crc clock"

lemma fabricated_tests_ok: "fabricated_tests crc clock"
  unfolding fabricated_tests_def
  by (intro conjI
      recover_multi_segment_clean_roundtrip_ok recover_is_idempotent_across_repeated_open_ok
      recover_cross_segment_gap_is_contiguity_violation_ok
      recover_empty_sealed_segment_is_contiguity_violation_ok
      recover_empty_active_segment_yields_base_minus_one_ok recover_missing_prefix_is_accepted_silently_ok
      recover_discards_incomplete_highest_base_file_ok recover_incomplete_sole_segment_cold_starts_ok
      recover_corrupt_header_on_populated_highest_is_fatal_ok
      recover_corrupt_header_on_sealed_segment_is_fatal_ok v7_crash_after_create_before_fallocate_recovers_ok
      v7_crash_after_fallocate_before_header_recovers_ok v7_crash_with_torn_header_recovers_ok
      v7_crash_before_dir_fsync_recovers_ok v7_crash_during_first_roll_of_seeded_log_recovers_ok
      v71_segment_after_max_segment_is_contiguity_violation_ok v71_duplicate_max_on_disk_fails_open_ok
      v71_reader_stops_after_max_and_never_yields_a_duplicate_ok)

text \<open>C40. The unit tests of the handle pass, with every checksum and every clock: those on logs
  the handle has written, and those on directories put together past it. No call they unwrap
  fails and every assertion of them holds.\<close>

theorem wal_tests_pass: "handle_tests crc clock \<and> fabricated_tests crc clock"
  by (intro conjI handle_tests_ok fabricated_tests_ok)

end
