(* ===== verification/Wal_Well_Formed.thy ===== *)
theory Wal_Well_Formed
  imports Wal_Restart
begin

text \<open>
  The type of a handle: what its fields are to one another whatever directory it was opened on,
  whatever the directory holds at the later calls, and whatever calls fail. Nothing is assumed
  about the files. A poisoned handle has it too.
\<close>

section \<open>Well-formed handles\<close>

text \<open>
  The bases increase from the oldest LSN on and none is 0, the open file is the one of the last
  base, the offset is in the segment and 8-aligned, and the last segment starts at or below
  the durable LSN unless it is empty.
\<close>

definition well_placed :: "'o wal \<Rightarrow> bool" where
  "well_placed w \<longleftrightarrow> unat (max_record_size w) + 91 \<le> unat (segment_size w)
     \<and> segments w \<noteq> [] \<and> sorted_wrt (<) (segments w) \<and> list_all (\<lambda>b. \<not> is_none b) (segments w)
     \<and> oldest_lsn w = hd (segments w) \<and> active w = filename_for (last (segments w))
     \<and> HEADER_SIZE \<le> write_offset w \<and> write_offset w \<le> unat (segment_size w) \<and> write_offset w mod 8 = 0
     \<and> (last (segments w) \<le> durable_lsn w
        \<or> write_offset w = HEADER_SIZE \<and> lsn_nat (last (segments w)) = Suc (lsn_nat (durable_lsn w)))"

text \<open>
  The staging buffer is a run of whole records: \<open>dn\<close> up to the durable LSN, left over by a
  commit that failed, and \<open>todo\<close> from there up to the last LSN.
\<close>

definition stages :: "(bytes \<Rightarrow> u32) \<Rightarrow> nat \<Rightarrow> bytes list \<Rightarrow> bytes list \<Rightarrow> 'o wal \<Rightarrow> bool" where
  "stages crc n dn todo w \<longleftrightarrow> staging w = frames crc n (dn @ todo)
     \<and> payloads_ok (unat (max_record_size w)) (dn @ todo)
     \<and> n + length dn = Suc (lsn_nat (durable_lsn w))
     \<and> n + length dn + length todo = Suc (lsn_nat (last_lsn w))"

definition well_formed :: "(bytes \<Rightarrow> u32) \<Rightarrow> 'o wal \<Rightarrow> bool" where
  "well_formed crc w \<longleftrightarrow> well_placed w \<and> (\<exists>n dn todo. stages crc n dn todo w \<and> (\<not> poisoned w \<longrightarrow> dn = []))"

lemma well_placed_fields [simp]:
  "well_placed (w\<lparr>poisoned := b\<rparr>) = well_placed w" "well_placed (w\<lparr>staging := s\<rparr>) = well_placed w"
  "well_placed (w\<lparr>observer := ob\<rparr>) = well_placed w" "well_placed (w\<lparr>last_lsn := l\<rparr>) = well_placed w"
  by (simp_all add: well_placed_def)

lemma stages_fields [simp]: "stages crc n dn todo (w\<lparr>poisoned := b\<rparr>) = stages crc n dn todo w"
  by (simp add: stages_def)

section \<open>Appending and checkpointing\<close>

lemma append_well_formed:
  assumes "well_formed crc w"
  shows "well_formed crc (snd (wal_append crc p w))"
proof (cases "wal_append crc p w")
  case (Pair r w')
  show ?thesis
  proof (cases r)
    case (Inl e)
    then have "w' = w" using Pair by (auto simp: wal_append_def split: if_splits option.splits)
    then show ?thesis using assms Pair by simp
  next
    case (Inr l)
    then have c: "\<not> poisoned w" "length p \<le> unat (max_record_size w)" "checked_next (last_lsn w) = Some l"
      "w' = w\<lparr>staging := staging w @ frame crc l p, last_lsn := l\<rparr>"
      using Pair by (auto simp: wal_append_def encode_into_eq split: if_splits option.splits)
    obtain n todo where s: "stages crc n [] todo w" and w: "well_placed w"
      using assms c(1) by (auto simp: well_formed_def)
    have l: "lsn_nat l = Suc (lsn_nat (last_lsn w))" using c(3) by (simp add: checked_next_Some)
    then have "l = lsn_of (n + length todo)" using s by (metis add.right_neutral list.size(3) lsn_of_nat stages_def)
    then have "stages crc n [] (todo @ [p]) w'" using s c(2,4) l by (simp add: stages_def frames_append)
    moreover have "well_placed w'" using w by (simp add: c(4))
    ultimately show ?thesis using Pair by (auto simp: well_formed_def)
  qed
qed

lemma checkpoint_well_formed:
  assumes "well_formed crc w"
  shows "well_formed crc (fst (snd (checkpoint up_to w d)))"
proof -
  obtain r w' d' where c: "checkpoint up_to w d = (r, w', d')" by (cases "checkpoint up_to w d") auto
  let ?n = "deletable_prefix_len (segments w) up_to"
  obtain n dn todo where s: "stages crc n dn todo w" "\<not> poisoned w \<longrightarrow> dn = []" and w: "well_placed w"
    using assms by (auto simp: well_formed_def)
  have "?n < length (segments w)"
    using w length_takeWhile_le [of "\<lambda>b. lsn_val b - 1 \<le> lsn_val up_to" "tl (segments w)"]
    by (cases "segments w") (auto simp: deletable_prefix_len_def partition_point_def well_placed_def)
  then have "drop ?n (segments w) \<noteq> []" "last (drop ?n (segments w)) = last (segments w)"
    "set (drop ?n (segments w)) \<subseteq> set (segments w)" by (simp_all add: set_drop_subset)
  moreover have "sorted_wrt (<) (drop ?n (segments w))" using w by (simp add: well_placed_def sorted_wrt_drop)
  ultimately have "well_placed (w\<lparr>segments := drop ?n (segments w), oldest_lsn := hd (drop ?n (segments w))\<rparr>)"
    using w by (auto simp: well_placed_def list_all_iff)
  moreover have "w' = w \<or> w' = w\<lparr>poisoned := True\<rparr> \<or> \<not> poisoned w \<and> w' = w\<lparr>segments := drop ?n (segments w), oldest_lsn := hd (drop ?n (segments w))\<rparr>"
    using c by (auto simp: checkpoint_def Let_def split: if_splits sum.splits prod.splits)
  ultimately have "well_placed w'" "stages crc n dn todo w'" "\<not> poisoned w' \<longrightarrow> dn = []"
    using s w by (auto simp: stages_def)
  then show ?thesis using c by (auto simp: well_formed_def)
qed

section \<open>Committing\<close>

lemma roll_outcome:
  assumes "roll crc clock b w d = (r, w', d')"
  shows "(\<exists>e. r = Inl e \<and> w' = w\<lparr>poisoned := True\<rparr>)
    \<or> r = Inr () \<and> w' = w\<lparr>active := filename_for b, write_offset := 64, segments := segments w @ [b]\<rparr>"
  using assms by (auto simp: roll_def split: sum.splits prod.splits)

lemma write_prefix_outcome:
  assumes "write_prefix on_durable pos scan pl w d = (r, w', d')"
  shows "(\<exists>e. r = Inl e \<and> w' = w\<lparr>poisoned := True\<rparr>)
    \<or> r = Inr () \<and> w' = w\<lparr>write_offset := write_offset w + (scan - pos), durable_lsn := pl, observer := on_durable pl (observer w)\<rparr>"
  using assms by (auto simp: write_prefix_def split: sum.splits prod.splits)

lemma sorted_le_last: "sorted_wrt (<) (xs :: lsn list) \<Longrightarrow> x \<in> set xs \<Longrightarrow> x \<le> last xs"
  by (induction xs) (auto intro: less_imp_le)

lemma commit_step_well_formed:
  assumes st: "commit_step crc clock on_durable (frames_size dn) w d = (r, w', d')"
    and s: "stages crc n dn todo w" and w: "well_placed w" and ne: "todo \<noteq> []"
  obtains dn' todo' where "stages crc n dn' todo' w'" "well_placed w'" "dn' @ todo' = dn @ todo"
    "case r of Inl e \<Rightarrow> poisoned w' | Inr p \<Rightarrow> p = frames_size dn'"
proof -
  let ?mx = "unat (max_record_size w)" and ?m = "n + length dn" and ?rm = "unat (segment_size w) - write_offset w"
  define c where "c = fit_count ?rm todo"
  have stg: "staging w = frames crc n dn @ frames crc ?m todo" and pok: "payloads_ok ?mx todo"
    and m: "?m = Suc (lsn_nat (durable_lsn w))" and lst: "?m + length todo = Suc (lsn_nat (last_lsn w))"
    using s by (simp_all add: stages_def frames_append)
  have le: "?m + length todo \<le> Suc u64_max" using lst lsn_nat_le_max [of "last_lsn w"] by simp
  have mx: "?mx \<le> u32_max" by (rule unat_u32_le)
  have cle: "c \<le> length todo" by (simp add: c_def fit_count_le)
  let ?scan = "frames_size dn + frames_size (take c todo)"
  have fit: "fit_prefix (staging w) ?rm (frames_size dn) (frames_size dn) NONE
      = (?scan, if c = 0 then NONE else lsn_of (?m + c - 1))"
    using fit_prefix_frames [OF pok mx, of "frames_size dn" "frames crc n dn" ?rm crc ?m NONE]
    by (simp add: stg c_def Let_def)
  have "frames_size (take c todo) = 0 \<longleftrightarrow> c = 0" unfolding frames_size_eq_0 using ne by simp
  then have sp: "?scan > frames_size dn \<longleftrightarrow> c \<noteq> 0" by linarith
  define w1 where "w1 = (if c = 0 then w else w\<lparr>write_offset := write_offset w + frames_size (take c todo),
      durable_lsn := lsn_of (?m + c - 1), observer := on_durable (lsn_of (?m + c - 1)) (observer w)\<rparr>)"
  obtain r1 v1 d1 where two: "step_two on_durable (frames_size dn) ?scan (if c = 0 then NONE else lsn_of (?m + c - 1)) w d = (r1, v1, d1)"
    by (cases "step_two on_durable (frames_size dn) ?scan (if c = 0 then NONE else lsn_of (?m + c - 1)) w d")
  have o1: "(\<exists>e. r1 = Inl e \<and> v1 = w\<lparr>poisoned := True\<rparr>) \<or> r1 = Inr () \<and> v1 = w1"
    using two sp write_prefix_outcome [of on_durable "frames_size dn" ?scan "lsn_of (?m + c - 1)" w d r1 v1 d1]
    by (auto simp: step_two_def w1_def)
  have d1: "lsn_nat (durable_lsn w1) = ?m + c - 1" using m cle le by (simp add: w1_def)
  have s1: "stages crc n (dn @ take c todo) (drop c todo) w1"
    using s d1 cle m by (auto simp: stages_def w1_def)
  have room: "frames_size (take c todo) \<le> ?rm" by (simp add: c_def fit_count_fits)
  have w1p: "well_placed w1"
  proof (cases "c = 0")
    case False
    have "last (segments w) \<le> durable_lsn w1" using w d1 m False by (auto simp: well_placed_def lsn_le_iff)
    then show ?thesis using w room frames_size_mod8 [of "take c todo"] False
      by (auto simp: well_placed_def w1_def mod_add_eq [symmetric])
  qed (use w in \<open>simp add: w1_def\<close>)
  show ?thesis
  proof (cases r1)
    case (Inl e)
    then have "r = Inl e" "w' = w\<lparr>poisoned := True\<rparr>" using st fit two o1 by (auto simp: commit_step_def)
    then show ?thesis using that [of dn todo] s w by simp
  next
    case (Inr u)
    then have v1: "v1 = w1" using o1 by auto
    show ?thesis
    proof (cases "c < length todo")
      case False
      then have "\<not> ?scan < length (staging w)" using cle by (simp add: stg)
      then have "r = Inr ?scan" "w' = w1" using st fit two Inr v1 by (simp_all add: commit_step_def)
      then show ?thesis using that [of "dn @ take c todo" "drop c todo"] s1 w1p by simp
    next
      case True
      have lt: "?scan < length (staging w)"
      proof -
        have "0 < frames_size (drop c todo)" unfolding neq0_conv [symmetric] frames_size_eq_0 using True by simp
        moreover have "frames_size todo = frames_size (take c todo) + frames_size (drop c todo)"
          by (metis append_take_drop_id frames_size_append)
        ultimately show ?thesis by (simp add: stg)
      qed
      have b: "fst (peek (drop ?scan (staging w1))) = lsn_of (?m + c)"
      proof -
        have "drop c todo = todo ! c # drop (Suc c) todo" using True by (simp add: Cons_nth_drop_Suc)
        moreover have "frames crc ?m todo = frames crc ?m (take c todo) @ frames crc (?m + c) (drop c todo)"
          using cle frames_append [of crc ?m "take c todo" "drop c todo"] by simp
        moreover have "length (todo ! c) \<le> u32_max"
          using pok True mx by (auto simp: payloads_ok_def list_all_length intro: order_trans)
        moreover have "staging w1 = staging w" by (simp add: w1_def)
        ultimately show ?thesis by (simp add: stg peek_frame)
      qed
      obtain r2 w2 d2 where rl: "roll crc clock (lsn_of (?m + c)) w1 d1 = (r2, w2, d2)"
        by (cases "roll crc clock (lsn_of (?m + c)) w1 d1")
      have res: "w' = w2 \<and> (case r2 of Inl e \<Rightarrow> r = Inl e | Inr u \<Rightarrow> r = Inr ?scan)"
        using st fit two Inr v1 lt b rl by (auto simp: commit_step_def split: sum.splits)
      from roll_outcome [OF rl] show ?thesis
      proof (elim disjE exE conjE)
        fix e assume "r2 = Inl e" "w2 = w1\<lparr>poisoned := True\<rparr>"
        then show ?thesis using that [of "dn @ take c todo" "drop c todo"] s1 w1p res by simp
      next
        assume rr: "r2 = Inr ()" "w2 = w1\<lparr>active := filename_for (lsn_of (?m + c)), write_offset := 64, segments := segments w1 @ [lsn_of (?m + c)]\<rparr>"
        have bl: "?m + c \<le> u64_max" using True le by simp
        have above: "last (segments w1) \<le> durable_lsn w1"
        proof (rule ccontr)
          assume "\<not> ?thesis"
          then have e: "write_offset w1 = 64" using w1p by (auto simp: well_placed_def)
          have "c = 0" using e w framed_size_ge24 [of "length (hd todo)"] cle ne
            by (cases todo; cases c) (auto simp: w1_def well_placed_def)
          moreover have "length (hd todo) \<le> ?mx" using pok ne by (cases todo) auto
          then have "framed_size (length (hd todo)) \<le> ?rm"
            using framed_size_bounds(2) [of "length (hd todo)"] w e \<open>c = 0\<close> by (auto simp: well_placed_def w1_def)
          ultimately show False using fit_count_pos [OF ne, of ?rm] by (simp add: c_def)
        qed
        moreover have "durable_lsn w1 < lsn_of (?m + c)" using d1 bl m by (simp add: lsn_less_iff)
        ultimately have "x < lsn_of (?m + c)" if "x \<in> set (segments w1)" for x
          using sorted_le_last [OF _ that] w1p by (meson le_less_trans order_trans well_placed_def)
        then have "sorted_wrt (<) (segments w1 @ [lsn_of (?m + c)])"
          using w1p by (simp add: well_placed_def sorted_wrt_append)
        then have "well_placed w2" using w1p rr(2) bl d1 m by (auto simp: well_placed_def is_none_iff)
        moreover have "stages crc n (dn @ take c todo) (drop c todo) w2" using s1 by (simp add: rr(2) stages_def)
        ultimately show ?thesis using that [of "dn @ take c todo" "drop c todo"] res rr(1) by simp
      qed
    qed
  qed
qed

lemma commit_loop_well_formed:
  assumes "commit_loop crc clock on_durable (frames_size dn) w d = (r, w', d')" "stages crc n dn todo w" "well_placed w"
  shows "\<exists>dn' todo'. stages crc n dn' todo' w' \<and> well_placed w' \<and> (case r of Inl e \<Rightarrow> poisoned w' | Inr u \<Rightarrow> todo' = [])"
proof -
  have "\<exists>dn' todo'. stages crc n dn' todo' w' \<and> well_placed w' \<and> (case r of Inl e \<Rightarrow> poisoned w' | Inr u \<Rightarrow> todo' = [])"
    if "commit_loop crc clock on_durable pos w d = (r, w', d')" "pos = frames_size dn" "stages crc n dn todo w" "well_placed w"
    for pos
    using that
  proof (induction crc clock on_durable pos w d arbitrary: dn todo rule: commit_loop.induct)
    case (1 crc clock on_durable pos w d)
    have len: "length (staging w) = frames_size dn + frames_size todo" using "1.prems"(3) by (simp add: stages_def)
    show ?case
    proof (cases "todo = []")
      case True
      then have "r = Inr ()" "w' = w" using "1.prems"(1,2) len by (simp_all add: commit_loop.simps [of crc clock on_durable])
      then show ?thesis using "1.prems"(3,4) True by auto
    next
      case False
      then have "0 < frames_size todo" unfolding neq0_conv [symmetric] frames_size_eq_0 .
      then have lt: "pos < length (staging w)" using len "1.prems"(2) by simp
      obtain r1 w1 d1 where st: "commit_step crc clock on_durable pos w d = (r1, w1, d1)"
        by (cases "commit_step crc clock on_durable pos w d")
      obtain dn' todo' where n: "stages crc n dn' todo' w1" "well_placed w1"
        "case r1 of Inl e \<Rightarrow> poisoned w1 | Inr p \<Rightarrow> p = frames_size dn'"
        using commit_step_well_formed [OF st [unfolded "1.prems"(2)] "1.prems"(3,4) False] by metis
      show ?thesis
      proof (cases r1)
        case (Inl e)
        then have "r = Inl e" "w' = w1" using "1.prems"(1) lt st by (simp_all add: commit_loop.simps [of crc clock on_durable])
        then show ?thesis using n Inl by auto
      next
        case (Inr pos1)
        have lp: "commit_loop crc clock on_durable pos1 w1 d1 = (r, w', d')"
          using "1.prems"(1) lt st Inr by (subst (asm) commit_loop.simps) simp
        have "pos1 = frames_size dn'" using n(3) Inr by simp
        from "1.IH" [OF lt st [symmetric] Inr refl lp this n(1,2)] show ?thesis .
      qed
    qed
  qed
  then show ?thesis using assms by blast
qed

lemma commit_well_formed:
  assumes "well_formed crc w"
  shows "well_formed crc (fst (snd (commit crc clock on_durable w d)))"
proof (cases "poisoned w \<or> staging w = []")
  case True
  then have "fst (snd (commit crc clock on_durable w d)) = w" by (auto simp: commit_def)
  then show ?thesis using assms by simp
next
  case False
  obtain n todo where s: "stages crc n [] todo w" and w: "well_placed w" using assms False by (auto simp: well_formed_def)
  obtain r w' d' where lp: "commit_loop crc clock on_durable (frames_size []) w d = (r, w', d')"
    by (cases "commit_loop crc clock on_durable (frames_size []) w d")
  obtain dn' todo' where f: "stages crc n dn' todo' w'" "well_placed w'" "case r of Inl e \<Rightarrow> poisoned w' | Inr u \<Rightarrow> todo' = []"
    using commit_loop_well_formed [OF lp s w] by blast
  show ?thesis
  proof (cases r)
    case (Inl e)
    then have "fst (snd (commit crc clock on_durable w d)) = w'" using False lp by (simp add: commit_def)
    then show ?thesis using f Inl by (auto simp: well_formed_def)
  next
    case (Inr u)
    then have e: "fst (snd (commit crc clock on_durable w d)) = w'\<lparr>staging := []\<rparr>" using False lp by (simp add: commit_def)
    have "stages crc (n + length dn') [] [] (w'\<lparr>staging := []\<rparr>)" using f(1,3) Inr by (simp add: stages_def)
    then show ?thesis using f(2) unfolding e well_formed_def by fastforce
  qed
qed

section \<open>Opening\<close>

text \<open>What recovery of one segment returns, on any bytes and with any failures.\<close>

definition recovered_at :: "lsn \<Rightarrow> nat \<Rightarrow> nat \<Rightarrow> lsn \<Rightarrow> bool" where
  "recovered_at base ssz off lv \<longleftrightarrow> off mod 8 = 0 \<and> 64 \<le> off \<and> off \<le> ssz
     \<and> (base \<le> lv \<or> off = 64 \<and> lsn_nat base = Suc (lsn_nat lv))"

lemma recover_loop_typed:
  assumes "recover_loop crc f ctx flts off expected lv = (Inr seg, f', r)" "recovered_at base (ctx_segment_size ctx) off lv"
    "expected = checked_next lv"
  shows "recovered_at base (ctx_segment_size ctx) (rec_write_offset seg) (max_lsn seg)"
  using assms
proof (induction crc f ctx flts off expected lv rule: recover_loop.induct)
  case (1 crc f ctx flts off expected lv)
  have cl: "rec_write_offset seg = off \<and> max_lsn seg = lv" if "classify crc f ctx off want lv flts = (Inr seg, f', r)" for want
    using that by (auto simp: classify_def split: if_splits sum.splits bool.splits prod.splits)
  have ac: "rec_write_offset seg = off \<and> max_lsn seg = lv" if "at_capacity_invalid f ctx off lv flts = (Inr seg, f', r)"
    using that by (auto simp: at_capacity_invalid_def Let_def split: if_splits sum.splits prod.splits)
  consider "rec_write_offset seg = off \<and> max_lsn seg = lv"
    | l k n buf where "read_record_at crc f off (ctx_segment_size ctx) (ctx_max_record_size ctx) = Inr (ScanRecord l k n, buf)"
      "expected = Some l" "recover_loop crc f ctx flts (off + n) (checked_next l) l = (Inr seg, f', r)"
    using "1.prems"(1) cl ac
    by (subst (asm) recover_loop.simps) (auto split: sum.splits prod.splits scan_outcome.splits option.splits if_splits)
  then show ?case
  proof cases
    case 1
    then show ?thesis using "1.prems"(2) by simp
  next
    case (2 l k n buf)
    note rd = read_record_at_Record [OF 2(1)]
    have "checked_next lv = Some l" using "1.prems"(3) 2(2) by simp
    then have l: "lsn_nat l = Suc (lsn_nat lv)" by (simp only: checked_next_Some)
    have "recovered_at base (ctx_segment_size ctx) (off + n) l"
      using "1.prems"(2) rd l framed_size_mod8 [of k] by (auto simp: recovered_at_def lsn_le_iff mod_add_eq [symmetric])
    then show ?thesis using "1.IH" [OF 2(1) refl refl 2(2)] 2(3) by simp
  qed
qed

lemma recover_one_typed:
  assumes "recover_one crc cfg prev base act d = (Inr seg, d')" "cfg_ok cfg"
  shows "recovered_at base (unat (cfg_segment_size cfg)) (rec_write_offset seg) (max_lsn seg)" "\<not> is_none base"
    "\<And>pm. prev = Some pm \<Longrightarrow> pm < base"
proof -
  obtain h parsed f flts f' q where h: "decode_header crc h = Inr parsed" "base_lsn parsed = base"
    "case prev of Some pm \<Rightarrow> checked_next pm = Some base | None \<Rightarrow> True"
    and rs: "recover_segment crc f base act (unat (cfg_segment_size cfg)) (unat (cfg_max_record_size cfg)) flts = (Inr seg, f', q)"
    using assms(1)
    by (auto simp: recover_one_def Let_def split: sum.splits prod.splits io_error.splits if_splits option.splits)
  show nn: "\<not> is_none base" using decode_header_base [OF h(1)] h(2) by simp
  show "pm < base" if "prev = Some pm" for pm using h(3) that by (simp add: checked_next_Some lsn_less_iff)
  have c: "checked_next (Lsn (lsn_val base - 1)) = Some base" by (rule checked_next_pred [OF nn])
  then have "lsn_nat base = Suc (lsn_nat (Lsn (lsn_val base - 1)))" by (simp only: checked_next_Some)
  then show "recovered_at base (unat (cfg_segment_size cfg)) (rec_write_offset seg) (max_lsn seg)"
    using recover_loop_typed [OF rs [unfolded recover_segment_def Let_def], of base] assms(2) c
    by (simp add: recovered_at_def cfg_ok_def)
qed

lemma recover_bases_typed:
  assumes "recover_bases crc cfg prev bs acc d = (Inr r, d')" "cfg_ok cfg" "bs \<noteq> []"
  shows "sorted_wrt (<) (map Lsn bs) \<and> list_all (\<lambda>b. \<not> is_none (Lsn b)) bs
    \<and> r_active r = Some (filename_for (Lsn (last bs))) \<and> r_segments r = r_segments acc \<and> r_oldest_lsn r = r_oldest_lsn acc
    \<and> recovered_at (Lsn (last bs)) (unat (cfg_segment_size cfg)) (r_write_offset r) (r_last_lsn r)
    \<and> (\<forall>pm. prev = Some pm \<longrightarrow> pm < Lsn (hd bs))"
  using assms
proof (induction bs arbitrary: prev acc d)
  case (Cons b bs)
  obtain q d1 where one: "recover_one crc cfg prev (Lsn b) (bs = []) d = (q, d1)" by fastforce
  then obtain seg where q: "q = Inr seg" using Cons.prems(1) by (cases q) (auto simp: Let_def)
  note t = recover_one_typed [OF one [unfolded q] Cons.prems(2)]
  show ?case
  proof (cases "bs = []")
    case True
    then show ?thesis using Cons.prems(1) one q t by auto
  next
    case False
    then have c: "\<not> max_lsn seg < Lsn b" "recover_bases crc cfg (Some (max_lsn seg)) bs acc d1 = (Inr r, d')"
      using Cons.prems(1) one q by (auto simp: Let_def split: if_splits)
    note ih = Cons.IH [OF c(2) Cons.prems(2) False]
    have "Lsn b < Lsn (hd bs)" using ih c(1) by (auto intro: le_less_trans)
    moreover have "Lsn (hd bs) \<le> x" if "x \<in> Lsn ` set bs" for x
      using ih that False by (cases bs) (auto intro: less_imp_le)
    ultimately have "Lsn b < x" if "x \<in> Lsn ` set bs" for x using that by (meson less_le_trans)
    then show ?thesis using ih t False by simp
  qed
qed simp

lemma open_well_formed:
  assumes "open_seeded crc clock cfg ob seed d = (Inr (w, rep), d')"
  shows "well_formed crc w"
proof -
  have ok: "cfg_ok cfg" "\<not> is_none seed" using assms by (auto simp: open_seeded_def cfg_check split: if_splits)
  obtain d1 d2 where "open_locked crc clock cfg ob seed d1 = (Inr (w, rep), d2)"
    using assms by (auto simp: open_seeded_def split: if_splits sum.splits prod.splits io_error.splits)
  then obtain bs r d3 d4 where r: "(if bs = [] then cold_start crc clock (unat (cfg_segment_size cfg)) seed d3 else recover_all crc bs cfg d3) = (Inr r, d4)"
    and w: "w = \<lparr>segments = r_segments r, active = the (r_active r), write_offset = r_write_offset r, oldest_lsn = r_oldest_lsn r,
        last_lsn = r_last_lsn r, durable_lsn = r_last_lsn r, segment_size = cfg_segment_size cfg,
        max_record_size = cfg_max_record_size cfg, staging = [], observer = ob, poisoned = False\<rparr>"
    by (auto simp: open_locked_def split: sum.splits prod.splits)
  have "well_placed w"
  proof (cases "bs = []")
    case True
    then have "r = \<lparr>r_active = Some (filename_for seed), r_write_offset = HEADER_SIZE, r_last_lsn = Lsn (lsn_val seed - 1),
        r_oldest_lsn = seed, r_segments = [seed], r_tail_state = Clean\<rparr>"
      using r by (auto simp: cold_start_def split: sum.splits prod.splits)
    moreover have "checked_next (Lsn (lsn_val seed - 1)) = Some seed" by (rule checked_next_pred [OF ok(2)])
    ultimately show ?thesis using ok by (simp add: w well_placed_def cfg_ok_def checked_next_Some)
  next
    case False
    have "recover_bases crc cfg None bs \<lparr>r_active = None, r_write_offset = HEADER_SIZE, r_last_lsn = NONE,
        r_oldest_lsn = Lsn (hd bs), r_segments = map Lsn bs, r_tail_state = Clean\<rparr> d3 = (Inr r, d4)"
      using r False by (simp add: recover_all_def)
    from recover_bases_typed [OF this ok(1) False] show ?thesis
      using ok(1) False by (auto simp: w well_placed_def cfg_ok_def recovered_at_def hd_map last_map list_all_iff)
  qed
  moreover have "stages crc (Suc (lsn_nat (r_last_lsn r))) [] [] w" by (simp add: w stages_def)
  ultimately show ?thesis by (auto simp: well_formed_def)
qed

section \<open>Every handle\<close>

text \<open>
  The handles a program can come to hold. Between two calls anything may happen to the
  directory: every call gets one of its own, with failures of its own.
\<close>

inductive obtainable ::
    "(bytes \<Rightarrow> u32) \<Rightarrow> (lsn \<Rightarrow> u64) \<Rightarrow> (lsn \<Rightarrow> 'o \<Rightarrow> 'o) \<Rightarrow> 'o wal \<Rightarrow> bool"
  for crc :: "bytes \<Rightarrow> u32" and clock :: "lsn \<Rightarrow> u64" and on_durable :: "lsn \<Rightarrow> 'o \<Rightarrow> 'o" where
  opened: "fst (open_seeded crc clock cfg ob seed d) = Inr (w, rep) \<Longrightarrow> obtainable crc clock on_durable w"
| appended: "obtainable crc clock on_durable w \<Longrightarrow> obtainable crc clock on_durable (snd (wal_append crc p w))"
| committed: "obtainable crc clock on_durable w \<Longrightarrow> obtainable crc clock on_durable (fst (snd (commit crc clock on_durable w d)))"
| checkpointed: "obtainable crc clock on_durable w \<Longrightarrow> obtainable crc clock on_durable (fst (snd (checkpoint up_to w d)))"

text \<open>C5. Every handle a program can hold is well-formed, poisoned or not, whatever bytes the
  directory has when it is opened and at every later call, and whatever system calls fail: its
  segments increase and end with the open one, the offset is an aligned one in that segment, and
  the staging buffer is a run of whole records with the LSNs up to the last one.\<close>

theorem handles_well_formed:
  assumes "obtainable crc clock on_durable w"
  shows "well_formed crc w"
  using assms
proof induction
  case (opened cfg ob seed d w rep)
  then show ?case using open_well_formed by (metis prod.collapse)
qed (simp_all add: append_well_formed commit_well_formed checkpoint_well_formed)

theorem handles_well_formed_witness:
  "\<exists>w. obtainable (\<lambda>bs. 0) (\<lambda>l. 0) null_on_durable (snd (wal_append (\<lambda>bs. 0) [1, 2, 3] w))
     \<and> well_formed (\<lambda>bs. 0) (snd (wal_append (\<lambda>bs. 0) [1, 2, 3] w))"
proof -
  let ?d = "\<lparr>entries = [], pending = [], dfaults = [], lock_held = False\<rparr>"
  obtain w rep d' where "open_seeded (\<lambda>bs. 0) (\<lambda>l. 0) default_config () FIRST ?d = (Inr (w, rep), d')"
    using open_cold [of default_config FIRST ?d "\<lambda>bs. 0" "\<lambda>l. 0" "()"]
    by (auto simp: cfg_ok_def default_config_def has_segs_def names_settled_def FIRST_def is_none_def)
  then have "fst (open_seeded (\<lambda>bs. 0) (\<lambda>l. 0) default_config () FIRST ?d) = Inr (w, rep)" by simp
  then have "obtainable (\<lambda>bs. 0) (\<lambda>l. 0) null_on_durable w" by (rule obtainable.opened)
  then have "obtainable (\<lambda>bs. 0) (\<lambda>l. 0) null_on_durable (snd (wal_append (\<lambda>bs. 0) [1, 2, 3] w))" by (rule obtainable.appended)
  then show ?thesis using handles_well_formed by blast
qed

end
