(* ===== verification/Wal_Differential_Tests.thy ===== *)
theory Wal_Differential_Tests
  imports Wal_Fuzzing Wal_Recovery_Tests
begin

text \<open>
  The tests of \<^verbatim>\<open>tests/differential.rs\<close>: the harness, the segment builders, the scenario
  matrix and the pass over the fuzz corpora. A case is the bytes of a segment file with their
  base LSN; the harness runs the classifier of the crate on a file of these bytes and the
  reference on the bytes, sealed and active, and stops at the first divergence. The
  corpora are a parameter: what listing a corpus directory and reading its entries gives.
\<close>

section \<open>Harness\<close>

text \<open>The case file is created empty, written and synced.\<close>

definition case_file :: "bytes \<Rightarrow> osfile" where
  "case_file bs = sync_file (put_at 0 bs empty_file)"

definition harness_check ::
    "(bytes \<Rightarrow> u32) \<Rightarrow> nat \<Rightarrow> nat \<Rightarrow> bytes \<Rightarrow> u64 \<Rightarrow> bool \<Rightarrow> nat \<Rightarrow> nat option" where
  "harness_check crc seg mx bs base is_active checked =
     (if recover_segment_classify crc (case_file bs) base is_active seg mx []
           = reference_classify crc bs base is_active seg mx
      then Some (checked + 1) else None)"

fun check_cases ::
    "(bytes \<Rightarrow> u32) \<Rightarrow> nat \<Rightarrow> nat \<Rightarrow> (string \<times> bytes \<times> u64) list \<Rightarrow> nat \<Rightarrow> nat option" where
  "check_cases crc seg mx [] checked = Some checked"
| "check_cases crc seg mx ((label, bs, base) # cs) checked =
     (case harness_check crc seg mx bs base True checked of
        None \<Rightarrow> None
      | Some n \<Rightarrow>
          (case harness_check crc seg mx bs base False n of
             None \<Rightarrow> None
           | Some m \<Rightarrow> check_cases crc seg mx cs m))"

section \<open>Segment builders\<close>

definition diff_framed_size :: "nat \<Rightarrow> nat" where
  "diff_framed_size payload_len = 20 + payload_len + ref_padding payload_len"

fun build_segment_lsns :: "(bytes \<Rightarrow> u32) \<Rightarrow> (u64 \<times> bytes) list \<Rightarrow> bytes \<times> nat list \<Rightarrow> bytes \<times> nat list" where
  "build_segment_lsns crc [] out = out"
| "build_segment_lsns crc ((l, p) # rs) (bs, offsets) =
     build_segment_lsns crc rs (fst (encode_record_into crc bs l p), offsets @ [length bs])"

definition segment_lsns :: "(bytes \<Rightarrow> u32) \<Rightarrow> u64 \<Rightarrow> (u64 \<times> bytes) list \<Rightarrow> bytes \<times> nat list" where
  "segment_lsns crc base rs = build_segment_lsns crc rs (segment_header_bytes crc base, [])"

fun build_segment :: "(bytes \<Rightarrow> u32) \<Rightarrow> u64 \<Rightarrow> nat \<Rightarrow> bytes list \<Rightarrow> bytes \<times> nat list \<Rightarrow> bytes \<times> nat list" where
  "build_segment crc base i [] out = out"
| "build_segment crc base i (p # ps) (bs, offsets) =
     build_segment crc base (i + 1) ps
       (fst (encode_record_into crc bs (base + of_nat i) p), offsets @ [length bs])"

definition segment_run :: "(bytes \<Rightarrow> u32) \<Rightarrow> u64 \<Rightarrow> bytes list \<Rightarrow> bytes \<times> nat list" where
  "segment_run crc base ps = build_segment crc base 0 ps (segment_header_bytes crc base, [])"

definition resize_case :: "nat \<Rightarrow> bytes \<Rightarrow> bytes" where
  "resize_case n bs = take n bs @ zeros (n - length bs)"

definition refix_crc :: "(bytes \<Rightarrow> u32) \<Rightarrow> nat \<Rightarrow> nat \<Rightarrow> bytes \<Rightarrow> bytes" where
  "refix_crc crc off framed bs =
     patch_at off (u32_to_le_bytes (crc (window (off + 4) (off + framed) bs))) bs"

section \<open>The scenario matrix\<close>

text \<open>The payload \<open>p n\<close> of a configuration, the sizes of the clean runs, and scenarios 1 and 2. A
  run that does not fit the segment is skipped.\<close>

definition payload_cap :: "nat \<Rightarrow> nat" where
  "payload_cap mx = min mx 48"

definition payload_of :: "nat \<Rightarrow> nat \<Rightarrow> bytes" where
  "payload_of mx n = replicate (min n (payload_cap mx)) 0xAB"

definition empty_cases :: "(bytes \<Rightarrow> u32) \<Rightarrow> nat \<Rightarrow> (string \<times> bytes \<times> u64) list" where
  "empty_cases crc seg = [(''empty'', resize_case seg (segment_header_bytes crc 1), 1)]"

definition clean_run_cases :: "(bytes \<Rightarrow> u32) \<Rightarrow> nat \<Rightarrow> nat \<Rightarrow> (string \<times> bytes \<times> u64) list" where
  "clean_run_cases crc seg mx =
     concat (map (\<lambda>k. concat (map (\<lambda>sz.
       let bs = fst (segment_run crc 1 (replicate k (payload_of mx sz)))
       in if seg < length bs then [] else [(''clean-run'', resize_case seg bs, 1)])
         [0, 1, 7, 8, 20, payload_cap mx])) [1, 2, 3, 4, 5])"

text \<open>Scenarios 3 to 7: a damaged last record, a damaged interior record, an LSN gap, a zero header
  in the middle, and a file cut inside its last record.\<close>

definition damage_last :: "(bytes \<Rightarrow> u32) \<Rightarrow> string \<Rightarrow> nat \<Rightarrow> bytes \<Rightarrow> bytes" where
  "damage_last crc kind at bs =
     (if kind = ''flip_crc'' then flip_at at 0xFF bs
      else if kind = ''zero_rectype'' then bs[at + 16 := 0]
      else if kind = ''extend_len'' then patch_at (at + 4) (u32_to_le_bytes (8 + 8)) bs
      else if kind = ''reserved_type'' then refix_crc crc at (diff_framed_size 8) (bs[at + 16 := 2])
      else flip_at (at + 20 + 8) 0xFF bs)"

definition torn_last_cases :: "(bytes \<Rightarrow> u32) \<Rightarrow> nat \<Rightarrow> nat \<Rightarrow> (string \<times> bytes \<times> u64) list" where
  "torn_last_cases crc seg mx =
     map (\<lambda>kind. case segment_run crc 1 (replicate 3 (payload_of mx 8)) of (bs, offs) \<Rightarrow>
         (''torn-last-'' @ kind, resize_case seg (damage_last crc kind (List.last offs) bs), 1))
       [''flip_crc'', ''zero_rectype'', ''extend_len'', ''reserved_type'', ''flip_pad'']"

definition interior_cases :: "(bytes \<Rightarrow> u32) \<Rightarrow> nat \<Rightarrow> nat \<Rightarrow> (string \<times> bytes \<times> u64) list" where
  "interior_cases crc seg mx =
     map (\<lambda>kind. case segment_run crc 1 (replicate 3 (payload_of mx 8)) of (bs, offs) \<Rightarrow>
         (''interior-'' @ kind, resize_case seg (damage_last crc kind (offs ! 1) bs), 1))
       [''flip_crc'', ''zero_rectype'']"

definition lsn_gap_cases :: "(bytes \<Rightarrow> u32) \<Rightarrow> nat \<Rightarrow> nat \<Rightarrow> (string \<times> bytes \<times> u64) list" where
  "lsn_gap_cases crc seg mx =
     (case segment_run crc 1 (replicate 2 (payload_of mx 8)) of (bs, offs) \<Rightarrow>
        let rec = fst (encode_record_into crc [] (1 + 5) (payload_of mx 8))
        in [(''lsn-gap'', resize_case seg (patch_at (offs ! 1) rec bs), 1)])"

definition mid_sentinel_cases :: "(bytes \<Rightarrow> u32) \<Rightarrow> nat \<Rightarrow> nat \<Rightarrow> (string \<times> bytes \<times> u64) list" where
  "mid_sentinel_cases crc seg mx =
     (case segment_run crc 1 (replicate 2 (payload_of mx 8)) of (bs, offs) \<Rightarrow>
        [(''mid-sentinel'', resize_case seg (patch_at (offs ! 1) (zeros 20) bs), 1)])"

definition truncated_cases :: "(bytes \<Rightarrow> u32) \<Rightarrow> nat \<Rightarrow> (string \<times> bytes \<times> u64) list" where
  "truncated_cases crc mx =
     (case segment_run crc 1 (replicate 3 (payload_of mx 8)) of (bs, offs) \<Rightarrow>
        [(''phys-truncated'', take (List.last offs + 20 + 2) bs, 1)])"

text \<open>Scenario 8: a torn record, and a valid continuation planted at the last aligned offset within
  the scan bound or at the first beyond it, when it fits.\<close>

definition continuation_case :: "(bytes \<Rightarrow> u32) \<Rightarrow> nat \<Rightarrow> nat \<Rightarrow> bool \<Rightarrow> (string \<times> bytes \<times> u64) list" where
  "continuation_case crc seg mx within =
     (case segment_run crc 1 [payload_of mx 8] of (bs0, offs) \<Rightarrow>
        let x = offs ! 0 + diff_framed_size 8;
            torn = flip_at 0 0xFF (fst (encode_record_into crc [] (1 + 1) (payload_of mx 4)));
            bs1 = (if x + length torn \<le> seg then resize_case x bs0 @ torn else bs0);
            stop = x + 8 + ref_scan_bound mx;
            cont_off = (if within then stop div 8 * 8 else stop div 8 * 8 + 8);
            cont = fst (encode_record_into crc [] (1 + 1) (payload_of mx 8));
            needed = cont_off + length cont
        in if needed \<le> seg then
             let bs2 = (if length bs1 < needed then resize_case needed bs1 else bs1)
             in [(if within then ''cont-within-bound'' else ''cont-beyond-bound'',
                   resize_case seg (patch_at cont_off cont bs2), 1)]
           else [])"

definition continuation_cases :: "(bytes \<Rightarrow> u32) \<Rightarrow> nat \<Rightarrow> nat \<Rightarrow> (string \<times> bytes \<times> u64) list" where
  "continuation_cases crc seg mx = continuation_case crc seg mx True @ continuation_case crc seg mx False"

text \<open>Scenarios 9 and 10: a reserved type under a good checksum, and a length over the limit.\<close>

definition reserved_cases :: "(bytes \<Rightarrow> u32) \<Rightarrow> nat \<Rightarrow> nat \<Rightarrow> (string \<times> bytes \<times> u64) list" where
  "reserved_cases crc seg mx =
     (case segment_run crc 1 (replicate 2 (payload_of mx 8)) of (bs, offs) \<Rightarrow>
        [(''reserved-interior'',
          resize_case seg (refix_crc crc (offs ! 0) (diff_framed_size 8) (bs[offs ! 0 + 16 := 3])), 1)])"

definition over_max_cases :: "(bytes \<Rightarrow> u32) \<Rightarrow> nat \<Rightarrow> nat \<Rightarrow> (string \<times> bytes \<times> u64) list" where
  "over_max_cases crc seg mx =
     (case segment_run crc 1 (replicate 2 (payload_of mx 8)) of (bs, offs) \<Rightarrow>
        [(''len-over-max'', resize_case seg (patch_at (offs ! 0 + 4) (u32_to_le_bytes (word_of_nat mx + 1)) bs), 1)])"

text \<open>Scenario 12: what may follow the record with the largest LSN; first in files of the segment
  size, then in short files.\<close>

definition exhaustion_cases :: "(bytes \<Rightarrow> u32) \<Rightarrow> nat \<Rightarrow> nat \<Rightarrow> (string \<times> bytes \<times> u64) list" where
  "exhaustion_cases crc seg mx =
     (let M = 0xFFFFFFFFFFFFFFFF :: u64; p = payload_of mx; one = fst (segment_lsns crc M [(M, p 8)])
      in map (\<lambda>(label, base_m, bs). (label, resize_case seg bs, base_m))
        [(''v71-max-then-sentinel'', M, one),
         (''v71-run-to-max-then-sentinel'', M - 1, fst (segment_lsns crc (M - 1) [(M - 1, p 1), (M, p 20)])),
         (''v71-dup-max'', M, fst (segment_lsns crc M [(M, p 8), (M, p 8)])),
         (''v71-run-to-max-dup'', M - 1, fst (segment_lsns crc (M - 1) [(M - 1, p 0), (M, p 7), (M, p 7)])),
         (''v71-max-then-wrapped'', M, fst (segment_lsns crc M [(M, p 8), (1, p 8)])),
         (''v71-max-then-garbage'', M, one @ replicate 40 0xC3),
         (''v71-max-then-invalid-record'', M, one @ flip_at 0 0xFF (drop 64 one))])"

definition short_cases :: "(bytes \<Rightarrow> u32) \<Rightarrow> nat \<Rightarrow> (string \<times> bytes \<times> u64) list" where
  "short_cases crc mx =
     (let M = 0xFFFFFFFFFFFFFFFF :: u64; rec = fst (segment_lsns crc M [(M, payload_of mx 8)])
      in [(''v71-max-eof'', rec, M)]
         @ concat (map (\<lambda>k. let z = resize_case (length rec + k) rec
             in [(''v71-max-short-zeros'', z, M), (''v71-max-short-nonzero'', z[length z - 1 := 0x11], M)])
             [1, 5, 19])
         @ [(''v71-max-zero-header-eof'', resize_case (length rec + 20) rec, M)])"

text \<open>Scenario 11: a base other than 1.\<close>

definition other_base_cases :: "(bytes \<Rightarrow> u32) \<Rightarrow> nat \<Rightarrow> nat \<Rightarrow> (string \<times> bytes \<times> u64) list" where
  "other_base_cases crc seg mx =
     (case segment_run crc 1000 (replicate 2 (payload_of mx 8)) of (bs, offs) \<Rightarrow>
        [(''nonone-base-torn'', resize_case seg (flip_at (List.last offs) 0xFF bs), 1000)])"

definition config_cases :: "(bytes \<Rightarrow> u32) \<Rightarrow> nat \<Rightarrow> nat \<Rightarrow> (string \<times> bytes \<times> u64) list" where
  "config_cases crc seg mx =
     empty_cases crc seg @ clean_run_cases crc seg mx @ torn_last_cases crc seg mx
     @ interior_cases crc seg mx @ lsn_gap_cases crc seg mx @ mid_sentinel_cases crc seg mx
     @ truncated_cases crc mx @ continuation_cases crc seg mx @ reserved_cases crc seg mx
     @ over_max_cases crc seg mx @ exhaustion_cases crc seg mx @ short_cases crc mx
     @ other_base_cases crc seg mx"

fun scenario_cases :: "(bytes \<Rightarrow> u32) \<Rightarrow> (nat \<times> nat) list \<Rightarrow> nat \<Rightarrow> nat option" where
  "scenario_cases crc [] checked = Some checked"
| "scenario_cases crc ((seg, mx) # cfgs) checked =
     (case check_cases crc seg mx (config_cases crc seg mx) checked of
        None \<Rightarrow> None
      | Some n \<Rightarrow> scenario_cases crc cfgs n)"

definition differential_scenario_matrix :: "(bytes \<Rightarrow> u32) \<Rightarrow> bool" where
  "differential_scenario_matrix crc \<longleftrightarrow>
     (case scenario_cases crc [(4096, 256), (65536, 4096)] 0 of
        None \<Rightarrow> False
      | Some checked \<Rightarrow> 100 < checked)"

section \<open>The fuzz corpora\<close>

text \<open>\<open>corpus sub\<close> is what listing \<^verbatim>\<open>fuzz/corpus/sub\<close> gives: \<open>None\<close> when there is no such directory,
  else for each entry what reading it gives. What cannot be read is skipped.\<close>

definition corpus_case :: "(bytes \<Rightarrow> u32) \<Rightarrow> string \<Rightarrow> bytes \<Rightarrow> string \<times> bytes \<times> u64" where
  "corpus_case crc sub raw =
     (''corpus/'' @ sub, segment_header_bytes crc 1 @ take (65536 - 64) raw, 1)"

definition corpus_cases :: "(bytes \<Rightarrow> u32) \<Rightarrow> string \<Rightarrow> bytes option list option \<Rightarrow> (string \<times> bytes \<times> u64) list" where
  "corpus_cases crc sub listing =
     (case listing of None \<Rightarrow> [] | Some rs \<Rightarrow> map (corpus_case crc sub) (List.map_filter (\<lambda>r. r) rs))"

definition differential_over_fuzz_corpora ::
    "(bytes \<Rightarrow> u32) \<Rightarrow> (string \<Rightarrow> bytes option list option) \<Rightarrow> bool" where
  "differential_over_fuzz_corpora crc corpus \<longleftrightarrow>
     check_cases crc 65536 4096
       (concat (map (\<lambda>sub. corpus_cases crc sub (corpus sub))
          [''recovery'', ''structure'', ''decode'', ''model''])) 0 \<noteq> None"

section \<open>The tests pass\<close>

text \<open>On every file smaller than the largest 64-bit offset the two classifiers agree, so a list of
  cases passes when no file is larger; what is left is the size of the files.\<close>

lemma case_file_eq: "case_file bs = \<lparr>fdata = bs, fsynced = bs, fbad = []\<rparr>"
  by (simp add: case_file_def put_at_def sync_file_def write_all_at_def sync_data_def
      empty_file_def pwrite_def)

definition small_cases :: "nat \<Rightarrow> (string \<times> bytes \<times> u64) list \<Rightarrow> bool" where
  "small_cases n cs = list_all (\<lambda>(label, bs, base). length bs \<le> n) cs"

lemma small_simps [simp]:
  "small_cases n []"
  "small_cases n ((label, bs, base) # cs) \<longleftrightarrow> length bs \<le> n \<and> small_cases n cs"
  "small_cases n (cs @ ds) \<longleftrightarrow> small_cases n cs \<and> small_cases n ds"
  by (simp_all add: small_cases_def)

lemma small_concat: "(\<And>x. x \<in> set xs \<Longrightarrow> small_cases n (g x)) \<Longrightarrow> small_cases n (concat (map g xs))"
  by (induction xs) simp_all

lemma small_map:
  "(\<And>x. x \<in> set xs \<Longrightarrow> length (fst (snd (g x))) \<le> n) \<Longrightarrow> small_cases n (map g xs)"
  by (auto simp: small_cases_def list_all_iff split_beta)

lemma length_resize_case [simp]: "length (resize_case n bs) = n"
  by (simp add: resize_case_def)

lemma harness_check_ok: "length bs < u64_max \<Longrightarrow> harness_check crc seg mx bs base act n = Some (n + 1)"
  by (simp add: harness_check_def case_file_eq recover_classify_reference)

lemma check_cases_ok:
  "small_cases m cs \<Longrightarrow> m < u64_max \<Longrightarrow> check_cases crc seg mx cs n = Some (n + 2 * length cs)"
  by (induction crc seg mx cs n rule: check_cases.induct) (simp_all add: harness_check_ok)

lemma framed_size_le: "framed_size n \<le> 27 + n"
  using padding_for_le [of n] by (simp add: framed_size_def)

lemma length_payload_of: "length (payload_of mx n) \<le> 48"
  by (simp add: payload_of_def payload_cap_def)

lemma framed_payload_of: "framed_size (length (payload_of mx n)) \<le> 75"
  using framed_size_le [of "length (payload_of mx n)"] length_payload_of [of mx n] by linarith

lemma length_encoded: "length (fst (encode_record_into crc bs l p)) = length bs + framed_size (length p)"
  by (simp add: encode_record_into_def encode_into_eq)

lemma length_build_lsns:
  "length (fst (build_segment_lsns crc rs out)) = length (fst out) + (\<Sum>(l, p) \<leftarrow> rs. framed_size (length p))"
  by (induction crc rs out rule: build_segment_lsns.induct) (simp_all add: length_encoded)

lemma length_segment_lsns:
  "length (fst (segment_lsns crc base rs)) = 64 + (\<Sum>(l, p) \<leftarrow> rs. framed_size (length p))"
  by (simp add: segment_lsns_def length_build_lsns segment_header_bytes_def)

lemma length_build_segment:
  "length (fst (build_segment crc base i ps out)) = length (fst out) + (\<Sum>p \<leftarrow> ps. framed_size (length p))"
  by (induction crc base i ps out rule: build_segment.induct) (simp_all add: length_encoded)

lemma length_segment_run:
  "length (fst (segment_run crc base ps)) = 64 + (\<Sum>p \<leftarrow> ps. framed_size (length p))"
  by (simp add: segment_run_def length_build_segment segment_header_bytes_def)

lemma resized_small:
  assumes "seg \<le> n"
  shows "small_cases n (empty_cases crc seg)" "small_cases n (clean_run_cases crc seg mx)"
    "small_cases n (torn_last_cases crc seg mx)" "small_cases n (interior_cases crc seg mx)"
    "small_cases n (lsn_gap_cases crc seg mx)" "small_cases n (mid_sentinel_cases crc seg mx)"
    "small_cases n (continuation_cases crc seg mx)" "small_cases n (reserved_cases crc seg mx)"
    "small_cases n (over_max_cases crc seg mx)" "small_cases n (exhaustion_cases crc seg mx)"
    "small_cases n (other_base_cases crc seg mx)"
  using assms
  by (auto simp: empty_cases_def clean_run_cases_def torn_last_cases_def interior_cases_def
      lsn_gap_cases_def mid_sentinel_cases_def continuation_cases_def continuation_case_def
      reserved_cases_def over_max_cases_def exhaustion_cases_def other_base_cases_def Let_def
      split_beta intro!: small_concat small_map)

lemma truncated_small: "400 \<le> n \<Longrightarrow> small_cases n (truncated_cases crc mx)"
  using framed_payload_of [of mx 8]
  by (simp add: truncated_cases_def split_beta length_segment_run sum_list_replicate min_def)

lemma short_small: "400 \<le> n \<Longrightarrow> small_cases n (short_cases crc mx)"
  using framed_payload_of [of mx 8] by (simp add: short_cases_def Let_def length_segment_lsns)

lemma config_small: "small_cases (max seg 400) (config_cases crc seg mx)"
  by (simp add: config_cases_def resized_small truncated_small short_small)

lemma config_many: "28 < length (config_cases crc seg mx)"
  by (simp add: config_cases_def empty_cases_def torn_last_cases_def interior_cases_def
      lsn_gap_cases_def mid_sentinel_cases_def truncated_cases_def reserved_cases_def
      over_max_cases_def exhaustion_cases_def short_cases_def other_base_cases_def Let_def split_beta)

lemma corpus_small: "small_cases 65536 (corpus_cases crc sub listing)"
  by (auto simp: corpus_cases_def corpus_case_def segment_header_bytes_def split: option.splits
      intro!: small_map)

theorem differential_tests_pass:
  "differential_scenario_matrix crc \<and> differential_over_fuzz_corpora crc corpus"
proof
  have "check_cases crc seg mx (config_cases crc seg mx) n = Some (n + 2 * length (config_cases crc seg mx))"
    if "seg \<le> 65536" for seg mx n
    using that by (intro check_cases_ok [OF config_small]) (simp add: u64_max_def)
  then show "differential_scenario_matrix crc"
    using config_many [of crc 4096 256] config_many [of crc 65536 4096]
    by (simp add: differential_scenario_matrix_def)
  have "small_cases 65536 (concat (map (\<lambda>sub. corpus_cases crc sub (corpus sub))
      [''recovery'', ''structure'', ''decode'', ''model'']))"
    by (intro small_concat corpus_small)
  from check_cases_ok [OF this] show "differential_over_fuzz_corpora crc corpus"
    by (simp add: differential_over_fuzz_corpora_def u64_max_def)
qed

end
