(* ===== verification/Wal_Exclusion.thy ===== *)
theory Wal_Exclusion
  imports Wal_Guarantees
begin

text \<open>
  The lock on the directory: from the opening that took it until the handle is dropped or its
  process ends, no other opening gets a handle, whatever the holder and the contenders do and
  whatever system calls fail.
\<close>

section \<open>Every call keeps the lock\<close>

named_theorems keeps_lock

lemma may_fail_lock_held [keeps_lock]: "may_fail d = (res, d') \<Longrightarrow> lock_held d' = lock_held d"
  by (cases rule: may_fail_cases [of d]) auto

lemma open_file_lock_held [keeps_lock]: "open_file n d = (res, d') \<Longrightarrow> lock_held d' = lock_held d"
  by (auto simp: open_file_def split: prod.splits fault.splits option.splits)

lemma open_lock_lock_held [keeps_lock]: "open_lock d = (res, d') \<Longrightarrow> lock_held d' = lock_held d"
  by (cases rule: may_fail_cases [of d]) (auto simp: open_lock_def split: option.splits)

lemma fsync_dir_lock_held [keeps_lock]: "fsync_dir d = (res, d') \<Longrightarrow> lock_held d' = lock_held d"
  by (rule fsync_dir_cases(2))

declare remove_file_lock_held [keeps_lock]

lemma read_entries_lock_held: "read_entries ns d = (res, d') \<Longrightarrow> lock_held d' = lock_held d"
  by (induction ns d arbitrary: res d' rule: read_entries.induct)
    (auto split: prod.splits sum.splits dest!: keeps_lock)

lemma discover_lock_held [keeps_lock]: "discover d = (res, d') \<Longrightarrow> lock_held d' = lock_held d"
  by (auto simp: discover_def split: prod.splits sum.splits dest!: keeps_lock read_entries_lock_held)

lemma discard_lock_held [keeps_lock]:
  "discard_incomplete_highest crc bs cfg d = (res, d') \<Longrightarrow> lock_held d' = lock_held d"
  by (auto simp: discard_incomplete_highest_def Let_def split: if_splits prod.splits sum.splits bool.splits dest!: keeps_lock)

lemma recover_one_lock_held:
  "recover_one crc cfg pm b act d = (res, d') \<Longrightarrow> lock_held d' = lock_held d"
  by (auto simp: recover_one_def Let_def split: if_splits prod.splits sum.splits io_error.splits dest!: keeps_lock)

lemma recover_bases_lock_held:
  "recover_bases crc cfg pm bs acc d = (res, d') \<Longrightarrow> lock_held d' = lock_held d"
proof (induction bs arbitrary: pm acc d)
  case (Cons b bs)
  obtain r d1 where "recover_one crc cfg pm (Lsn b) (bs = []) d = (r, d1)" by fastforce
  with Cons show ?case by (auto simp: Let_def dest: recover_one_lock_held split: sum.splits if_splits)
qed simp

lemma cold_start_lock_held [keeps_lock]: "cold_start crc clock ssz seed d = (res, d') \<Longrightarrow> lock_held d' = lock_held d"
  by (auto simp: cold_start_def split: prod.splits sum.splits dest!: create_lock_held keeps_lock)

lemma open_locked_lock_held: "open_locked crc clock cfg ob seed d = (res, d') \<Longrightarrow> lock_held d' = lock_held d"
  by (auto simp: open_locked_def recover_all_def split: prod.splits sum.splits if_splits
      dest!: keeps_lock recover_bases_lock_held)

lemma flock_cases:
  "flock d = (res, d') \<Longrightarrow> entries d' = entries d \<and> (res = Inr () \<and> \<not> lock_held d \<and> lock_held d' \<or> (\<exists>e. res = Inl e) \<and> lock_held d' = lock_held d)"
  by (auto simp: dir_op_defs split: prod.splits fault.splits sum.splits if_splits)

text \<open>A successful opening takes the lock; on a locked directory none succeeds.\<close>

lemma open_takes_lock:
  assumes "open_seeded crc clock cfg ob seed d = (Inr r, d')"
  shows "lock_held d' \<and> \<not> lock_held d"
  using assms
  by (auto simp: open_seeded_def split: if_splits prod.splits sum.splits io_error.splits
      dest!: keeps_lock flock_cases open_locked_lock_held)

lemma may_fail_same_entries: "may_fail d = (res, d') \<Longrightarrow> entries d' = entries d"
  by (auto simp: may_fail_def split: prod.splits fault.splits)

lemma open_lock_names: "open_lock d = (res, d') \<Longrightarrow> is_seg_name n \<Longrightarrow> map_of (entries d') n = map_of (entries d) n"
  by (auto simp: open_lock_def map_add_def is_seg_name_def parse_base_lsn_iff LOCK_def filename_for_def
      split: prod.splits sum.splits option.splits dest!: may_fail_same_entries)

lemma open_refused:
  assumes l: "lock_held d"
  shows "\<exists>e d'. open_seeded crc clock cfg ob seed d = (Inl e, d') \<and> lock_held d'
    \<and> (\<forall>n. is_seg_name n \<longrightarrow> map_of (entries d') n = map_of (entries d) n)"
proof -
  obtain r1 d1 where m: "may_fail d = (r1, d1)" by fastforce
  obtain r2 d2 where o: "open_lock d1 = (r2, d2)" by fastforce
  obtain r3 d3 where f: "flock d2 = (r3, d3)" by fastforce
  have e: "entries d1 = entries d" "\<And>n. is_seg_name n \<Longrightarrow> map_of (entries d2) n = map_of (entries d1) n"
    "entries d3 = entries d2" using may_fail_same_entries [OF m] open_lock_names [OF o] flock_cases [OF f] by simp_all
  have "lock_held d1" "lock_held d2" using l m o by (simp_all add: keeps_lock)
  moreover from this flock_cases [OF f] obtain e where "r3 = Inl e" "lock_held d3" by auto
  ultimately show ?thesis
    using l m o f e by (auto simp: open_seeded_def split: sum.splits io_error.splits)
qed

lemma open_refused_as:
  assumes "lock_held d" "dfaults d = []"
  shows "fst (open_seeded crc clock cfg ob seed d) = Inl (if cfg_ok cfg \<and> \<not> is_none seed then Locked else InvalidConfig)"
proof (cases "cfg_ok cfg \<and> \<not> is_none seed")
  case True
  let ?d = "d\<lparr>entries := entries (with_lock d), pending := pending (with_lock d)\<rparr>"
  have "open_lock d = (Inr (), ?d)"
    using assms(2) by (cases d) (simp add: open_lock_def may_fail_no_faults with_lock_def split: option.splits)
  moreover have "flock ?d = (Inl WouldBlock, ?d)" using assms by (simp add: flock_def may_fail_no_faults)
  ultimately show ?thesis using True assms(2) by (simp add: open_seeded_def cfg_check may_fail_no_faults)
next
  case False
  then show ?thesis by (auto simp: open_seeded_def cfg_check)
qed

section \<open>Reading keeps the lock\<close>

lemma reader_from_lock_held: "reader_from from w d = (res, d') \<Longrightarrow> lock_held d' = lock_held d"
  by (auto simp: reader_from_def Let_def split: if_splits prod.splits sum.splits dest!: keeps_lock)

lemma advance_segment_lock_held: "advance_segment rd d = (res, rd', d') \<Longrightarrow> lock_held d' = lock_held d"
  by (auto simp: advance_segment_def Let_def split: if_splits prod.splits sum.splits dest!: keeps_lock)

lemma reader_next_lock_held: "reader_next crc rd d = (x, rd', d') \<Longrightarrow> lock_held d' = lock_held d"
proof (induction crc rd d arbitrary: x rd' d' rule: reader_next.induct)
  case (1 crc rd d)
  show ?case
  proof (cases "rd_done rd \<or> rd_file rd = None")
    case True
    then show ?thesis using "1.prems" by (subst (asm) reader_next.simps) (auto split: if_splits)
  next
    case False
    then obtain name where n: "\<not> rd_done rd" "rd_file rd = Some name" by blast
    obtain r where r: "read_record_at crc (file_of d name) (rd_offset rd) (rd_segment_size rd) (rd_max_record_size rd) = r" by blast
    note eq = "1.prems" [unfolded reader_next.simps [of crc rd d]]
    show ?thesis
    proof (cases r)
      case (Inl e)
      then show ?thesis using eq n r by simp
    next
      case (Inr sb)
      obtain s buf where sb: "sb = (s, buf)" by fastforce
      obtain a rd1 d1 where a: "advance_segment (rd\<lparr>rd_buf := buf\<rparr>) d = (a, rd1, d1)"
        by (cases "advance_segment (rd\<lparr>rd_buf := buf\<rparr>) d")
      note r' = r [unfolded Inr] and held = advance_segment_lock_held [OF a]
      show ?thesis
      proof (cases s)
        case (ScanRecord l k m)
        then show ?thesis
          using eq n r' sb "1.IH"(1) [OF n r' sb [symmetric] ScanRecord] by (auto simp: Let_def split: if_splits)
      next
        case CleanEnd
        then show ?thesis
          using eq n r' sb a held "1.IH"(2) [OF n r' sb [symmetric] CleanEnd a [symmetric]]
          by (auto split: sum.splits bool.splits)
      next
        case ScanInvalid
        then show ?thesis
          using eq n r' sb a held "1.IH"(3) [OF n r' sb [symmetric] ScanInvalid a [symmetric]]
          by (auto split: sum.splits bool.splits)
      qed
    qed
  qed
qed

section \<open>Sessions\<close>

text \<open>
  The time a handle is open: its holder appends, commits, takes checkpoints and reads with any
  number of readers, with any outcome; other processes try to open the directory; and the
  outcomes of the following system calls are set arbitrarily (\<open>weather\<close>). Dropping the handle and
  the end of the process end the session.
\<close>

inductive session :: "(bytes \<Rightarrow> u32) \<Rightarrow> (lsn \<Rightarrow> 'o \<Rightarrow> 'o) \<Rightarrow> 'o wal \<Rightarrow> disk \<Rightarrow> bool" for crc on_durable where
  opened: "session crc on_durable w d" if "open_seeded crc clock cfg ob seed d0 = (Inr (w, rep), d)"
| weather: "session crc on_durable w (d\<lparr>dfaults := fs\<rparr>)" if "session crc on_durable w d"
| appended: "session crc on_durable w' d" if "session crc on_durable w d" "wal_append crc p w = (res, w')"
| committed: "session crc on_durable w' d'" if "session crc on_durable w d" "commit crc clock on_durable w d = (res, w', d')"
| checkpointed: "session crc on_durable w' d'" if "session crc on_durable w d" "checkpoint up_to w d = (res, w', d')"
| positioned: "session crc on_durable w d'" if "session crc on_durable w d" "reader_from from w d = (res, d')"
| advanced: "session crc on_durable w d'" if "session crc on_durable w d" "reader_next crc rd d = (x, rd', d')"
| contended: "session crc on_durable w d'" if
    "session crc on_durable w d" "open_seeded crc clock cfg (ob :: 'o) seed d = (res, d')"

lemma session_locked: "session crc on_durable w d \<Longrightarrow> lock_held d"
proof (induction rule: session.induct)
  case (contended w d clock cfg ob seed res d')
  then show ?case using open_refused [of d crc clock cfg ob seed] by auto
qed (auto dest: open_takes_lock commit_lock_held checkpoint_lock_held reader_from_lock_held reader_next_lock_held)

text \<open>C16. Two handles never share a directory. During a whole session of a handle, whatever its
  holder does, whatever calls fail and however often others have tried before, no opening of the
  directory gives a second handle, with any configuration, seed or further failing calls: it is
  refused, the segment files are as they were, and the holder's lock is still held. Without
  failing calls the error is \<open>Locked\<close>, or \<open>InvalidConfig\<close> for arguments that are refused first.\<close>

theorem lock_excludes:
  assumes "session crc on_durable w d"
  shows "\<exists>e d'. open_seeded crc clk cfg ob seed (d\<lparr>dfaults := fs\<rparr>) = (Inl e, d') \<and> lock_held d'
    \<and> (\<forall>n. is_seg_name n \<longrightarrow> map_of (entries d') n = map_of (entries d) n)
    \<and> (fs = [] \<longrightarrow> e = (if unat (cfg_max_record_size cfg) + 91 \<le> unat (cfg_segment_size cfg) \<and> seed \<noteq> NONE
                        then Locked else InvalidConfig))"
proof -
  let ?d = "d\<lparr>dfaults := fs\<rparr>"
  have l: "lock_held ?d" using session_locked [OF assms] by simp
  obtain e d' where o: "open_seeded crc clk cfg ob seed ?d = (Inl e, d')" "lock_held d'"
    "\<forall>n. is_seg_name n \<longrightarrow> map_of (entries d') n = map_of (entries d) n"
    using open_refused [OF l, of crc clk cfg ob seed] by auto
  have "seed \<noteq> NONE \<longleftrightarrow> \<not> is_none seed" by (auto simp: is_none_def NONE_def lsn.expand)
  then have "fs = [] \<longrightarrow> e = (if unat (cfg_max_record_size cfg) + 91 \<le> unat (cfg_segment_size cfg) \<and> seed \<noteq> NONE
      then Locked else InvalidConfig)"
    using open_refused_as [OF l, of crc clk cfg ob seed] o(1) by (auto simp: cfg_ok_def)
  then show ?thesis using o by blast
qed

theorem lock_excludes_witness:
  "\<exists>(w :: lsn list wal) w' d d'. session csum (\<lambda>l ob. ob @ [l]) w' d \<and> wal_append csum [1] w = (Inr FIRST, w')
     \<and> open_seeded csum ex_clock ex_cfg () FIRST (d\<lparr>dfaults := []\<rparr>) = (Inl Locked, d') \<and> lock_held d'"
proof -
  obtain w d rep where o: "open_seeded csum ex_clock ex_cfg ([] :: lsn list) FIRST ex_disk = (Inr (w, rep), d)"
    and l: "live csum ex_cfg FIRST (w, d) \<lparr>v_base = 1, v_log = [], v_staged = []\<rparr>"
    using ex_opened by blast
  obtain w' where a: "wal_append csum [1] w = (Inr FIRST, w')"
    using wl.add_law [OF l, of "[1]"]
    by (auto simp: wal_add_def fits_record_def ex_cfg_def v_next_def v_end_def u64_max_def FIRST_def lsn_of_def
        split: prod.splits sum.splits)
  have s: "session csum (\<lambda>l ob. ob @ [l]) w' d" by (rule session.appended [OF session.opened [OF o] a])
  have "unat (cfg_max_record_size ex_cfg) + 91 \<le> unat (cfg_segment_size ex_cfg)" "FIRST \<noteq> NONE"
    by (simp_all add: ex_cfg_def FIRST_def NONE_def)
  then show ?thesis using lock_excludes [OF s, of ex_clock ex_cfg "()" FIRST "[]"] s a by auto
qed

end
