(* ===== verification/Spec2Isabelle.thy ===== *)
theory Spec2Isabelle
  imports Wal_Structure Wal_Power_Pull Wal_Fabricated_Tests Wal_Well_Formed Wal_Differential_Tests
    Wal_Exclusion
begin

text \<open>
  Verification development for the write-ahead log crate \<^verbatim>\<open>open-wal\<close>: an embedded, single-writer,
  segmented log with explicit durability. Paths below are relative to the crate's repository
  (\<^verbatim>\<open>src/\<close> is the crate's source directory).

  \<^bold>\<open>The program.\<close> A handle (\<^verbatim>\<open>src/wal.rs\<close>) owns a directory of segment files, locked by the file
  \<^verbatim>\<open>LOCK\<close>. \<^verbatim>\<open>append\<close> gives a payload the next LSN (\<^verbatim>\<open>src/lsn.rs\<close>) and encodes it (\<^verbatim>\<open>src/record.rs\<close>,
  checksum \<^verbatim>\<open>src/crc.rs\<close>) into a staging buffer; \<^verbatim>\<open>commit\<close> writes the buffer to the active segment,
  splitting it on whole records, syncs, tells the observer (\<^verbatim>\<open>src/observer.rs\<close>) and rolls to a
  new segment (\<^verbatim>\<open>src/segment.rs\<close>) when the next record does not fit; \<^verbatim>\<open>checkpoint\<close> unlinks leading
  segments; \<^verbatim>\<open>reader_from\<close> positions a replay reader (\<^verbatim>\<open>src/reader.rs\<close>). \<^verbatim>\<open>open\<close> (with
  \<^verbatim>\<open>src/options.rs\<close>, \<^verbatim>\<open>src/config.rs\<close>) takes the lock, lists the segments, discards the file of an
  interrupted roll and recovers every segment (\<^verbatim>\<open>src/recovery.rs\<close>): a dense run of valid records;
  what follows it is a clean end, a torn tail that is cut off, or a fatal error. A failed
  write, sync or directory operation poisons the handle. Four binaries (\<^verbatim>\<open>src/bin\<close>) are driven by
  fault injectors, four fuzz targets (\<^verbatim>\<open>fuzz/fuzz_targets\<close>), a model-based harness
  (\<^verbatim>\<open>tests/model\<close>) and a differential reference (\<^verbatim>\<open>tests/differential.rs\<close>) test the crate.

  \<^bold>\<open>Model and code.\<close> Each function of the source is a definition of the same name unless it clashes
  with one of HOL. Results are sums (\<open>Inl\<close> an error, \<open>Inr\<close> a value) or, where the source panics,
  options and outcome datatypes; state is passed explicitly.

    \<^item> \<open>Wal_Prelude\<close>: machine integers, little-endian bytes, windows of byte lists, saturating
      arithmetic, and the lemma collections.
    \<^item> \<open>Wal_Lsn\<close>, \<open>Wal_Error\<close>: \<^verbatim>\<open>src/lsn.rs\<close> and \<^verbatim>\<open>src/error.rs\<close>.
    \<^item> \<open>Wal_Platform\<close>: files, directories, system calls, crashes (below).
    \<^item> \<open>Wal_Record\<close>: the codec, \<^verbatim>\<open>src/record.rs\<close>; \<open>Wal_Segment\<close>: header, names, creation, the record
      scanner and zeroing, \<^verbatim>\<open>src/segment.rs\<close>; \<open>Wal_Recovery\<close>: \<^verbatim>\<open>src/recovery.rs\<close>; \<open>Wal_Reader\<close>:
      \<^verbatim>\<open>src/reader.rs\<close>; \<open>Wal_Handle\<close>: \<^verbatim>\<open>src/wal.rs\<close>, \<^verbatim>\<open>config.rs\<close>, \<^verbatim>\<open>options.rs\<close>, \<^verbatim>\<open>observer.rs\<close>.
    \<^item> \<open>Wal_Fuzzing\<close>, \<open>Wal_Probe\<close>: the accessors of \<^verbatim>\<open>src/lib.rs\<close>, recovery and open with the
      scan-distance counter of the fuzzing build, and the reference classifier.
    \<^item> \<open>Wal_Oracle\<close>: the harness of \<^verbatim>\<open>tests/model/mod.rs\<close>; \<open>Wal_Targets\<close>, \<open>Wal_Structure\<close>: the
      fuzz targets; \<open>Wal_Workloads\<close>, \<open>Wal_Power_Pull\<close>: the binaries.
    \<^item> \<open>Wal_Checksum\<close>, \<open>Wal_Codec_Tests\<close>, \<open>Wal_Recovery_Tests\<close>,
      \<open>Wal_Handle_Tests\<close>, \<open>Wal_Fabricated_Tests\<close>: the unit and property tests of the source files,
      as predicates that say that every assertion of the test holds;
      \<open>Wal_Differential_Tests\<close>: the differential tests over the scenario matrix and the corpora.

  \<^bold>\<open>What the lemmas show.\<close>

    \<^item> \<open>Wal_Layout\<close>, \<open>Wal_Corruption\<close>, \<open>Wal_Format\<close>: the byte format. Round trips of records, headers and
      names, detection of damage, and what recovery makes of any bytes: a dense bounded
      run, idempotently, never touching a sealed segment and only zeroing an active one.
    \<^item> \<open>Wal_Invariant\<close>: abstract segments \<open>aseg\<close> and the invariant \<open>wal_inv\<close> that ties a handle to
      them, \<open>holds\<close> that ties a directory to them. \<open>Wal_Commit\<close>, \<open>Wal_Progress\<close>, \<open>Wal_Open\<close>,
      \<open>Wal_Replay\<close>, \<open>Wal_Checkpoint\<close>: each operation against the invariant, on every branch.
    \<^item> \<open>Wal_Crash\<close>, \<open>Wal_Restart\<close>, \<open>Wal_Tail\<close>: what a power loss leaves and what opening it gives.
    \<^item> \<open>Wal_Contract\<close>: the durable-log contract as a locale and its interpretation by the model;
      \<open>Wal_Guarantees\<close>: the guarantees of single operations. \<open>Wal_Lifetime\<close>: the states of a \<open>life\<close>,
      reachable from a cold open by operations that succeed or fail, crashes between and inside them
      and restarts, with the phases \<open>Working\<close>, \<open>Failed\<close> (what is then \<open>recoverable\<close>) and
      \<open>Recovered\<close>. A log that was recovered with unacknowledged records, or with bytes behind its end,
      is not written to in a life (such bytes can come back as records, see
      \<open>Wal_Format.zero_header_keeps_stale_record\<close>); what holds of the handles and of later openings
      even then is in \<open>Wal_Well_Formed\<close> and \<open>Wal_Adversary\<close>. \<open>Wal_Exclusion\<close>: the lock during the
      \<open>session\<close> of a handle.
    \<^item> \<open>Wal_Adversary\<close>: opening directories of arbitrary contents; \<open>Wal_Well_Formed\<close>: what the fields
      of every handle are to one another, with nothing assumed about directories or calls.
    \<^item> \<open>Wal_Frame\<close>: pending name changes do not matter to any operation, as parametricity
      statements; \<open>Wal_Shapes\<close>: without failures every operation is a function on the shape of
      the log, its bases and payloads, which computes what the tests of the handle expect.
    \<^item> The tool theories above: the harness, the targets and the tests never fail, the
      binaries never report a lost acknowledged record.

  \<^bold>\<open>Platform.\<close> A file is its cached bytes, its synced bytes and its unreadable offsets; a directory
  is a list of named files and the name changes since its last sync. Every call that may
  fail takes its outcome from the script \<open>dfaults\<close>, over which the theorems quantify: a fault
  carries the error and, for a write, the number of bytes already written. A write
  without a fault writes all its bytes (\<^verbatim>\<open>write_all_at\<close> retries short writes), and short or
  interrupted reads are covered by \<open>Wal_Format.read_full_schedule_independent\<close>. A power loss keeps
  a prefix of the pending name changes, and of each file a mixture of synced and cached
  bytes, byte by byte, with a size between the two. The lock is a flag of the directory.
  The clock of the segment headers and the error texts of the system are parameters.

  \<^bold>\<open>The checksum.\<close> The crate \<^verbatim>\<open>crc32c\<close> is a parameter \<open>crc\<close> of every definition. Only damage detection
  needs a law of it, \<open>detects_byte\<close> (inputs that differ in one byte have different sums);
  \<open>Wal_Checksum.castagnoli\<close>, the published CRC-32C computed bit by bit, is only an instance of the
  parameter: it satisfies the law and meets the known answers that \<^verbatim>\<open>src/crc.rs\<close> tests the crate for,
  which shows that the hypotheses can hold; the tests of the codec and of recovery, whose
  outcomes depend on the sums, are stated for it. Nothing is claimed of the crate itself.

  \<^bold>\<open>Bounds and fuel.\<close> LSNs and configuration fields are words of the source's widths, lengths and
  offsets are natural numbers (the source's \<^verbatim>\<open>u64\<close> and \<^verbatim>\<open>usize\<close> computations on them are bounded by
  the file size; the saturating ones are modelled as such). Loops of the library are total
  functions with termination proofs: the commit loop because an iteration without progress
  has created a name that cannot be created again. Fuel occurs in the binaries, as the
  moment the process is killed (theorems hold for every fuel, and \<open>crash_child_completes\<close>
  shows how much ends the run), and in draining a reader, where one call per record and one
  more are shown to be enough.

  \<^bold>\<open>Not modelled.\<close> The implementation of the checksum crate (a parameter); the \<^verbatim>\<open>arbitrary\<close> and
  \<^verbatim>\<open>proptest\<close> generators (the targets are proved for every value they could generate);
  diagnostics on standard error; benchmarks, scripts, book and documents; the integration
  tests other than the model and the differential tests: they run the public interface as the
  unit tests do, or spawn processes, mount file systems or count allocations; the compile-time test that a handle is \<^verbatim>\<open>Send\<close> and the
  smoke test of recovery that asserts nothing; threads (the handle is single-writer and
  every operation takes \<^verbatim>\<open>&mut self\<close>).
\<close>

end
